(* ===== verification/Py_Prelude.thy ===== *)
theory Py_Prelude
  imports Main
begin

text \<open>
  Shared vocabulary of the development: Python exceptions as values, results
  that may be an exception, computations that may also not return, Python's
  integer division, indexing, slicing and ranges, and the generic facts about
  lists that several components use.

  \<^item> \<open>'a res\<close> is the outcome of code that always returns: \<open>Inl e\<close> when it
    raises \<open>e\<close>, \<open>Inr x\<close> when it returns \<open>x\<close>.
  \<^item> \<open>'a comp\<close> adds non-termination: \<open>None\<close> is a loop that never ends.
\<close>

section \<open>Collections of simplification rules\<close>

named_theorems py_simps "evaluation of Python primitives on known arguments"
named_theorems res_elims "inversion of successful results"

section \<open>Exceptions and results\<close>

datatype py_error =
    AssertionError | ValueError | IndexError | KeyError | ZeroDivisionError
  | RuntimeError | TypeError | AttributeError | StopIteration | NotImplementedError | UnboundLocalError | QueueEmpty | QueueFull | CancelledError | FileNotFoundError

type_synonym 'a res = "py_error + 'a"
type_synonym 'a comp = "'a res option"

definition rbind :: "'a res \<Rightarrow> ('a \<Rightarrow> 'b res) \<Rightarrow> 'b res" where
  "rbind r f = (case r of Inl e \<Rightarrow> Inl e | Inr x \<Rightarrow> f x)"

lemma rbind_simps [simp, py_simps]:
  "rbind (Inl e) f = Inl e" "rbind (Inr x) f = f x"
  by (simp_all add: rbind_def)

lemma rbind_cong [fundef_cong]:
  "r = r' \<Longrightarrow> (\<And>x. r' = Inr x \<Longrightarrow> f x = g x) \<Longrightarrow> rbind r f = rbind r' g"
  by (cases r') (auto simp: rbind_def)

lemma rbind_Inr_iff [res_elims]:
  "rbind r f = Inr y \<longleftrightarrow> (\<exists>x. r = Inr x \<and> f x = Inr y)"
  by (cases r) auto

lemma rbind_Inl_iff:
  "rbind r f = Inl e \<longleftrightarrow> r = Inl e \<or> (\<exists>x. r = Inr x \<and> f x = Inl e)"
  by (cases r) auto

lemma rbind_assoc: "rbind (rbind r f) g = rbind r (\<lambda>x. rbind (f x) g)"
  by (cases r) auto

text \<open>A \<open>for\<close> loop that builds a list, and one that updates a state; both stop at the first exception.\<close>

fun rmap :: "('a \<Rightarrow> 'b res) \<Rightarrow> 'a list \<Rightarrow> 'b list res" where
  "rmap f [] = Inr []"
| "rmap f (x # xs) = rbind (f x) (\<lambda>y. rbind (rmap f xs) (\<lambda>ys. Inr (y # ys)))"

fun rfold :: "('s \<Rightarrow> 'a \<Rightarrow> 's res) \<Rightarrow> 's \<Rightarrow> 'a list \<Rightarrow> 's res" where
  "rfold f s [] = Inr s"
| "rfold f s (x # xs) = rbind (f s x) (\<lambda>s'. rfold f s' xs)"

lemma rmap_cong [fundef_cong]:
  "xs = ys \<Longrightarrow> (\<And>x. x \<in> set ys \<Longrightarrow> f x = g x) \<Longrightarrow> rmap f xs = rmap g ys"
proof (induction ys arbitrary: xs)
  case (Cons y ys)
  then have "rmap f ys = rmap g ys" by simp
  with Cons.prems show ?case by simp
qed simp

lemma rmap_Inr [simp]: "rmap (\<lambda>x. Inr (f x)) xs = Inr (map f xs)"
  by (induction xs) auto

lemma rmap_all_Inr:
  "(\<And>x. x \<in> set xs \<Longrightarrow> f x = Inr (g x)) \<Longrightarrow> rmap f xs = Inr (map g xs)"
  by (induction xs) auto

lemma rmap_map: "rmap f (map g xs) = rmap (\<lambda>x. f (g x)) xs"
  by (induction xs) auto

lemma rmap_length: "rmap f xs = Inr ys \<Longrightarrow> length ys = length xs"
  by (induction xs arbitrary: ys) (auto simp: res_elims)

lemma rmap_nth: "rmap f xs = Inr ys \<Longrightarrow> i < length xs \<Longrightarrow> f (xs ! i) = Inr (ys ! i)"
  by (induction xs arbitrary: ys i) (auto simp: res_elims nth_Cons split: nat.splits)

lemma rmap_list_all2: "rmap f xs = Inr ys \<longleftrightarrow> list_all2 (\<lambda>x y. f x = Inr y) xs ys"
  by (induction xs arbitrary: ys) (auto simp: res_elims list_all2_Cons1)

lemma rfold_append: "rfold f s (xs @ ys) = rbind (rfold f s xs) (\<lambda>s'. rfold f s' ys)"
  by (induction xs arbitrary: s) (auto simp: rbind_assoc)

lemma rfold_invariant:
  assumes "rfold f s xs = Inr t" and "P s"
    and "\<And>s x s'. x \<in> set xs \<Longrightarrow> P s \<Longrightarrow> f s x = Inr s' \<Longrightarrow> P s'"
  shows "P t"
  using assms
proof (induction xs arbitrary: s)
  case (Cons x xs)
  from Cons.prems(1) obtain s' where "f s x = Inr s'" "rfold f s' xs = Inr t"
    by (auto simp: res_elims)
  moreover from this have "P s'" using Cons.prems(2,3) by (meson list.set_intros(1))
  ultimately show ?case using Cons.IH Cons.prems(3) by (meson list.set_intros(2))
qed simp

text \<open>Computations that may not return.\<close>

definition cbind :: "'a comp \<Rightarrow> ('a \<Rightarrow> 'b comp) \<Rightarrow> 'b comp" where
  "cbind m f = (case m of None \<Rightarrow> None | Some r \<Rightarrow> (case r of Inl e \<Rightarrow> Some (Inl e) | Inr x \<Rightarrow> f x))"

lemma cbind_simps [simp, py_simps]:
  "cbind None f = None" "cbind (Some (Inl e)) f = Some (Inl e)" "cbind (Some (Inr x)) f = f x"
  by (simp_all add: cbind_def)

lemma cbind_Some_Inr_iff [res_elims]:
  "cbind m f = Some (Inr y) \<longleftrightarrow> (\<exists>x. m = Some (Inr x) \<and> f x = Some (Inr y))"
  by (auto simp: cbind_def split: option.splits sum.splits)

fun cmap :: "('a \<Rightarrow> 'b comp) \<Rightarrow> 'a list \<Rightarrow> 'b list comp" where
  "cmap f [] = Some (Inr [])"
| "cmap f (x # xs) = cbind (f x) (\<lambda>y. cbind (cmap f xs) (\<lambda>ys. Some (Inr (y # ys))))"

lemma cmap_all:
  "(\<And>x. x \<in> set xs \<Longrightarrow> f x = Some (Inr (g x))) \<Longrightarrow> cmap f xs = Some (Inr (map g xs))"
  by (induction xs) auto

section \<open>Python primitives\<close>

definition py_div :: "int \<Rightarrow> int \<Rightarrow> int res" where
  "py_div a b = (if b = 0 then Inl ZeroDivisionError else Inr (a div b))"

definition py_mod :: "int \<Rightarrow> int \<Rightarrow> int res" where
  "py_mod a b = (if b = 0 then Inl ZeroDivisionError else Inr (a mod b))"

lemma py_div_nonzero [simp, py_simps]: "b \<noteq> 0 \<Longrightarrow> py_div a b = Inr (a div b)"
  and py_mod_nonzero [simp, py_simps]: "b \<noteq> 0 \<Longrightarrow> py_mod a b = Inr (a mod b)"
  by (simp_all add: py_div_def py_mod_def)

lemma py_div_zero [simp]: "py_div a 0 = Inl ZeroDivisionError"
  and py_mod_zero [simp]: "py_mod a 0 = Inl ZeroDivisionError"
  by (simp_all add: py_div_def py_mod_def)

text \<open>\<open>xs[i]\<close>, with negative indices counting from the end.\<close>

definition py_index :: "'a list \<Rightarrow> int \<Rightarrow> 'a res" where
  "py_index xs i =
     (if i < 0
      then (if nat (- i) \<le> length xs then Inr (xs ! (length xs - nat (- i))) else Inl IndexError)
      else (if nat i < length xs then Inr (xs ! nat i) else Inl IndexError))"

lemma py_index_ok [simp]: "0 \<le> i \<Longrightarrow> i < int (length xs) \<Longrightarrow> py_index xs i = Inr (xs ! nat i)"
  by (simp add: py_index_def nat_less_iff)

text \<open>\<open>xs[i:j]\<close>: both bounds are clamped into the list, negative ones counted from the end.\<close>

definition slice_bound :: "nat \<Rightarrow> int \<Rightarrow> nat" where
  "slice_bound n i = (if i < 0 then nat (int n + i) else min n (nat i))"

definition py_slice :: "'a list \<Rightarrow> int \<Rightarrow> int \<Rightarrow> 'a list" where
  "py_slice xs i j =
     (let a = slice_bound (length xs) i; b = slice_bound (length xs) j in take (b - a) (drop a xs))"

lemma py_slice_nat: "py_slice xs (int a) (int b) = take (b - a) (drop a xs)"
proof (cases "a \<le> length xs")
  case True
  then show ?thesis
    by (cases "b \<le> length xs") (auto simp: py_slice_def slice_bound_def min_def)
next
  case False
  then show ?thesis by (auto simp: py_slice_def slice_bound_def min_def)
qed

text \<open>\<open>range(a, b, step)\<close> for a non-zero step (Python raises on zero), and \<open>range(n)\<close>.\<close>

definition py_range3 :: "int \<Rightarrow> int \<Rightarrow> int \<Rightarrow> int list" where
  "py_range3 a b step =
     (if step = 0 then [] else if step > 0 then map (\<lambda>i. a + int i * step) [0..<nat ((b - a + step - 1) div step)]
      else map (\<lambda>i. a + int i * step) [0..<nat ((a - b - step - 1) div (- step))])"

definition py_range :: "int \<Rightarrow> int list" where
  "py_range n = [0..n - 1]"

lemma py_range_int [simp]: "py_range (int n) = map int [0..<n]"
  by (induction n) (auto simp: py_range_def upto_rec2)

lemma set_py_range [simp]: "set (py_range n) = {0..<n}"
  by (auto simp: py_range_def)

lemma distinct_py_range [simp]: "distinct (py_range n)"
  by (simp add: py_range_def)

lemma length_py_range [simp]: "length (py_range n) = nat n"
  by (simp add: py_range_def)

lemma py_range3_mult:
  assumes "0 < step" "0 \<le> n"
  shows "py_range3 a (a + n * step) step = map (\<lambda>i. a + int i * step) [0..<nat n]"
proof -
  have "((step - 1) + n * step) div step = n"
    using assms by simp
  then have "(a + n * step - a + step - 1) div step = n"
    by (simp add: algebra_simps)
  with assms show ?thesis by (simp add: py_range3_def)
qed

lemma le_div_iff_int:
  fixes a b c :: int
  assumes "0 < b"
  shows "c \<le> a div b \<longleftrightarrow> c * b \<le> a"
proof
  assume "c \<le> a div b"
  with assms have "c * b \<le> a div b * b" by (simp add: mult_right_mono)
  also have "\<dots> \<le> a" using assms minus_mod_eq_div_mult [of a b] pos_mod_sign [of b a] by linarith
  finally show "c * b \<le> a" .
next
  assume "c * b \<le> a"
  then show "c \<le> a div b" using assms zdiv_mono1 [of "c * b" a b] by simp
qed

lemma div_less_iff_int: "0 < b \<Longrightarrow> a div b < c \<longleftrightarrow> a < c * b" for a b c :: int
  using le_div_iff_int [of b c a] by linarith

text \<open>\<open>math.ceil(a / b)\<close> on integers that a float represents exactly.\<close>

definition ceil_div :: "int \<Rightarrow> int \<Rightarrow> int" where
  "ceil_div a b = - ((- a) div b)"

lemma ceil_div_le_iff: "0 < b \<Longrightarrow> ceil_div a b \<le> c \<longleftrightarrow> a \<le> c * b"
proof -
  assume b: "0 < b"
  have "ceil_div a b \<le> c \<longleftrightarrow> - c \<le> (- a) div b" by (auto simp: ceil_div_def)
  also have "\<dots> \<longleftrightarrow> - c * b \<le> - a" using b by (rule le_div_iff_int)
  finally show ?thesis by auto
qed

lemma ceil_div_mult [simp]: "0 < b \<Longrightarrow> ceil_div (a * b) b = a"
  by (simp add: ceil_div_def flip: mult_minus_left)

lemma ceil_div_nonneg: "0 < b \<Longrightarrow> 0 \<le> a \<Longrightarrow> 0 \<le> ceil_div a b"
  by (simp add: ceil_div_def div_nonpos_pos_le0)

section \<open>Lists\<close>

lemma sum_list_concat_map: "sum_list (map f (concat xss)) = sum_list (map (\<lambda>xs. sum_list (map f xs)) xss)"
  by (induction xss) auto

lemma distinct_map_fst_inj: "distinct (map fst xs) \<Longrightarrow> (k, v) \<in> set xs \<Longrightarrow> (k, w) \<in> set xs \<Longrightarrow> v = w"
  by (metis eq_key_imp_eq_value)

text \<open>The total of an association list of sizes, as a sum over its keys.\<close>

definition opt_size :: "int option \<Rightarrow> int" where
  "opt_size x = (case x of None \<Rightarrow> 0 | Some n \<Rightarrow> n)"

lemma opt_size_simps [simp]: "opt_size None = 0" "opt_size (Some n) = n"
  by (simp_all add: opt_size_def)

lemma sum_assoc_list:
  fixes K :: "'k set" and xs :: "('k \<times> int) list"
  assumes "finite K" "distinct (map fst xs)" "fst ` set xs \<subseteq> K"
  shows "sum_list (map snd xs) = (\<Sum>k\<in>K. opt_size (map_of xs k))"
proof -
  have "sum_list (map snd xs) = (\<Sum>x\<in>set xs. snd x)"
    using assms(2) by (simp add: distinct_map sum_list_distinct_conv_sum_set)
  also have "\<dots> = (\<Sum>k\<in>fst ` set xs. opt_size (map_of xs k))"
    using assms(2) by (subst sum.reindex) (auto simp: distinct_map intro!: sum.cong)
  also have "\<dots> = (\<Sum>k\<in>K. opt_size (map_of xs k))"
    using assms by (intro sum.mono_neutral_left) (auto simp: map_of_eq_None_iff [THEN iffD2])
  finally show ?thesis .
qed

section \<open>Steps and what they must reach\<close>

text \<open>
  \<open>inevitable R P s\<close>: every run of the step relation \<open>R\<close> from \<open>s\<close> comes to a
  state with \<open>P\<close>; it neither gets stuck before nor goes on forever.
\<close>

inductive inevitable :: "('s \<Rightarrow> 's \<Rightarrow> bool) \<Rightarrow> ('s \<Rightarrow> bool) \<Rightarrow> 's \<Rightarrow> bool" for R P where
  now: "P s \<Longrightarrow> inevitable R P s"
| later: "R s t \<Longrightarrow> (\<And>u. R s u \<Longrightarrow> inevitable R P u) \<Longrightarrow> inevitable R P s"

text \<open>Progress, and a number that every step makes smaller while an invariant holds.\<close>

lemma inevitable_measure:
  fixes m :: "'s \<Rightarrow> nat"
  assumes "I s"
    and progress: "\<And>s. I s \<Longrightarrow> \<not> P s \<Longrightarrow> \<exists>t. R s t"
    and keeps: "\<And>s t. I s \<Longrightarrow> R s t \<Longrightarrow> I t \<and> m t < m s"
  shows "inevitable R P s"
  using assms(1)
proof (induction "m s" arbitrary: s rule: less_induct)
  case less
  show ?case
  proof (cases "P s")
    case False
    with progress less.prems obtain t where "R s t" by blast
    then show ?thesis by (rule inevitable.later) (use keeps less in blast)
  qed (rule inevitable.now)
qed

lemma inevitable_mono: "inevitable R P s \<Longrightarrow> (\<And>t. P t \<Longrightarrow> Q t) \<Longrightarrow> inevitable R Q s"
  by (induction rule: inevitable.induct) (auto intro: inevitable.intros)

end
