(* ===== verification/Comm_Mapper.thy ===== *)
theory Comm_Mapper
  imports Py_Prelude
begin

text \<open>
  Batch sharding between two worker groups of different sizes: the class
  \<open>CommMapper\<close> of \<^verbatim>\<open>rlinf/scheduler/worker/routing.py\<close>. A batch of \<open>b\<close> rows is cut
  into \<open>S\<close> equal source intervals and \<open>D\<close> equal destination intervals; source
  rank \<open>r\<close> sends to destination rank \<open>k\<close> the rows in which their intervals
  overlap. \<open>shard_size\<close> is that specification; the lemmas show that the
  loops of the code compute exactly the non-empty overlaps, on both sides.
\<close>

section \<open>The operations\<close>

definition decoupled_get_batch_size :: "int \<Rightarrow> int \<Rightarrow> int \<Rightarrow> int \<Rightarrow> int list res" where
  "decoupled_get_batch_size batch_size src_world_size dst_world_size queue_size =
     (let split_size = max src_world_size dst_world_size in
      rbind (py_mod batch_size split_size) (\<lambda>m.
      if m \<noteq> 0 then Inl AssertionError
      else if src_world_size \<ge> dst_world_size then Inr [batch_size div split_size]
      else if \<not> dst_world_size > src_world_size then Inl AssertionError
      else rbind (py_div dst_world_size src_world_size) (\<lambda>n.
        if queue_size \<le> 0 then Inr (map (\<lambda>_. batch_size div split_size) (py_range n))
        else if \<not> queue_size \<le> n then Inl AssertionError
        else Inr (map (\<lambda>_. batch_size div split_size) (py_range queue_size)))))"

text \<open>
  The \<open>while\<close> loop of \<open>get_dst_ranks\<close>. Nothing in the code bounds it when the
  size per destination is not positive, so it is a partial function.
\<close>

partial_function (option) dst_ranks_loop ::
    "int \<Rightarrow> int \<Rightarrow> int \<Rightarrow> (int \<times> int) list \<Rightarrow> (int \<times> int) list comp" where
  "dst_ranks_loop per_dst batch_begin batch_end acc =
     (if batch_begin < batch_end then
        (if per_dst = 0 then Some (Inl ZeroDivisionError)
         else
           (let dst_rank = batch_begin div per_dst;
                dst_batch_begin = dst_rank * per_dst;
                dst_remaining = per_dst - (batch_begin - dst_batch_begin);
                src_remaining = batch_end - batch_begin;
                dst_size = min dst_remaining src_remaining
            in dst_ranks_loop per_dst (batch_begin + dst_size) batch_end
                 (acc @ [(dst_rank, dst_size)])))
      else Some (Inr acc))"

definition get_dst_ranks :: "int \<Rightarrow> int \<Rightarrow> int \<Rightarrow> int \<Rightarrow> (int \<times> int) list comp" where
  "get_dst_ranks batch_size src_world_size dst_world_size src_rank =
     cbind (Some (py_mod batch_size src_world_size)) (\<lambda>m.
     if m \<noteq> 0 then Some (Inl AssertionError) else
     cbind (Some (py_mod batch_size dst_world_size)) (\<lambda>m'.
     if m' \<noteq> 0 then Some (Inl AssertionError) else
     if \<not> (0 \<le> src_rank \<and> src_rank < src_world_size) then Some (Inl AssertionError) else
     let per_src = batch_size div src_world_size;
         per_dst = batch_size div dst_world_size
     in dst_ranks_loop per_dst (src_rank * per_src) ((src_rank + 1) * per_src) []))"

definition get_src_ranks :: "int \<Rightarrow> int \<Rightarrow> int \<Rightarrow> int \<Rightarrow> (int \<times> int) list comp" where
  "get_src_ranks batch_size src_world_size dst_world_size dst_rank =
     cbind (Some (py_mod batch_size src_world_size)) (\<lambda>m.
     if m \<noteq> 0 then Some (Inl AssertionError) else
     cbind (Some (py_mod batch_size dst_world_size)) (\<lambda>m'.
     if m' \<noteq> 0 then Some (Inl AssertionError) else
     if \<not> (0 \<le> dst_rank \<and> dst_rank < dst_world_size) then Some (Inl AssertionError) else
     cbind (cmap (\<lambda>src_rank.
              cbind (get_dst_ranks batch_size src_world_size dst_world_size src_rank) (\<lambda>xs.
              Some (Inr [(src_rank, n). (mapped_dst_rank, n) \<leftarrow> xs, mapped_dst_rank = dst_rank])))
            (py_range src_world_size)) (\<lambda>yss.
     let src_ranks_and_sizes = concat yss in
     if sum_list (map snd src_ranks_and_sizes) = batch_size div dst_world_size
     then Some (Inr src_ranks_and_sizes)
     else Some (Inl AssertionError))))"

section \<open>Specification: overlapping intervals\<close>

definition shard_size :: "int \<Rightarrow> int \<Rightarrow> int \<Rightarrow> int \<Rightarrow> int \<Rightarrow> int" where
  "shard_size b S D r k =
     min ((r + 1) * (b div S)) ((k + 1) * (b div D)) - max (r * (b div S)) (k * (b div D))"

lemma shard_size_swap: "shard_size b S D r k = shard_size b D S k r"
  by (simp add: shard_size_def min.commute max.commute)

text \<open>The cells of width \<open>d\<close> met by an interval, with the length of each meeting.\<close>

definition cells :: "int \<Rightarrow> int \<Rightarrow> int \<Rightarrow> (int \<times> int) list" where
  "cells d bg en =
     (if bg < en
      then map (\<lambda>k. (k, min ((k + 1) * d) en - max (k * d) bg)) [bg div d..(en - 1) div d]
      else [])"

lemma cell_bounds:
  fixes bg d :: int
  assumes "0 < d"
  shows "bg div d * d \<le> bg" "bg < (bg div d + 1) * d"
  using le_div_iff_int [OF assms, of "bg div d" bg] div_less_iff_int [OF assms, of bg "bg div d + 1"]
  by simp_all

lemma cells_step:
  assumes "0 < d" "bg < en"
  defines "k \<equiv> bg div d"
  defines "bg' \<equiv> min ((k + 1) * d) en"
  shows "cells d bg en = (k, bg' - bg) # cells d bg' en" "bg < bg'" "bg' \<le> en"
proof -
  note kb = cell_bounds [OF assms(1), of bg, folded k_def]
  show "bg < bg'" "bg' \<le> en" using kb assms(2) by (auto simp: bg'_def)
  show "cells d bg en = (k, bg' - bg) # cells d bg' en"
  proof (cases "en \<le> (k + 1) * d")
    case True
    then have "(en - 1) div d < k + 1" using div_less_iff_int [OF assms(1), of "en - 1" "k + 1"] by simp
    moreover have "k \<le> (en - 1) div d"
      using kb(1) assms(1,2) by (simp add: le_div_iff_int)
    ultimately have "(en - 1) div d = k" by simp
    with True assms(2) kb show ?thesis by (simp add: cells_def bg'_def k_def)
  next
    case False
    then have bg': "bg' = (k + 1) * d" "bg' < en" by (auto simp: bg'_def)
    then have div': "bg' div d = k + 1" using assms(1) by simp
    have "k + 1 \<le> (en - 1) div d"
      using bg' assms(1) by (simp add: le_div_iff_int)
    then have split: "[k..(en - 1) div d] = k # [k + 1..(en - 1) div d]"
      by (simp add: upto_rec1)
    have "map (\<lambda>i. (i, min ((i + 1) * d) en - max (i * d) bg)) [k + 1..(en - 1) div d]
        = map (\<lambda>i. (i, min ((i + 1) * d) en - max (i * d) bg')) [k + 1..(en - 1) div d]"
    proof (rule map_cong [OF refl])
      fix i assume "i \<in> set [k + 1..(en - 1) div d]"
      then have "bg' \<le> i * d" using assms(1) by (simp add: bg' mult_right_mono)
      with \<open>bg < bg'\<close> show "(i, min ((i + 1) * d) en - max (i * d) bg)
          = (i, min ((i + 1) * d) en - max (i * d) bg')" by simp
    qed
    with split bg' div' kb assms(2) show ?thesis
      by (simp add: cells_def k_def [symmetric])
  qed
qed

lemma dst_ranks_loop_cells:
  assumes "0 < d"
  shows "dst_ranks_loop d bg en acc = Some (Inr (acc @ cells d bg en))"
proof (induction "nat (en - bg)" arbitrary: bg acc rule: less_induct)
  case less
  show ?case
  proof (cases "bg < en")
    case False
    then show ?thesis by (simp add: dst_ranks_loop.simps cells_def)
  next
    case True
    let ?k = "bg div d" let ?bg' = "min ((?k + 1) * d) en"
    note step = cells_step [OF assms True]
    have size: "min (d - (bg - ?k * d)) (en - bg) = ?bg' - bg"
      by (auto simp: min_def algebra_simps)
    have "dst_ranks_loop d bg en acc = dst_ranks_loop d ?bg' en (acc @ [(?k, ?bg' - bg)])"
      using True assms by (subst dst_ranks_loop.simps) (simp only: Let_def size, simp)
    also have "\<dots> = Some (Inr ((acc @ [(?k, ?bg' - bg)]) @ cells d ?bg' en))"
      using step(2,3) True by (intro less) auto
    finally show ?thesis using step(1) by simp
  qed
qed

lemma cells_sum:
  assumes "0 < d" "bg \<le> en"
  shows "sum_list (map snd (cells d bg en)) = en - bg"
  using assms(2)
proof (induction "nat (en - bg)" arbitrary: bg rule: less_induct)
  case less
  show ?case
  proof (cases "bg < en")
    case True
    note step = cells_step [OF assms(1) True]
    then show ?thesis using less(1) [of "min ((bg div d + 1) * d) en"] by auto
  qed (use less in \<open>simp add: cells_def\<close>)
qed

text \<open>An interval inside \<open>{0..<D * d}\<close> meets exactly the cells with a positive overlap.\<close>

lemma cells_filter:
  assumes "0 < d" "0 \<le> bg" "bg < en" "en \<le> D * d"
  shows "map fst (cells d bg en)
       = filter (\<lambda>k. 0 < min ((k + 1) * d) en - max (k * d) bg) (py_range D)"
proof -
  define P where "P k \<longleftrightarrow> 0 < min ((k + 1) * d) en - max (k * d) bg" for k
  have P: "P k \<longleftrightarrow> bg div d \<le> k \<and> k \<le> (en - 1) div d" for k
  proof -
    have "P k \<longleftrightarrow> bg < (k + 1) * d \<and> k * d \<le> en - 1"
      using assms by (auto simp: P_def algebra_simps min_def max_def)
    also have "\<dots> \<longleftrightarrow> bg div d < k + 1 \<and> k \<le> (en - 1) div d"
      by (simp only: div_less_iff_int [OF assms(1)] le_div_iff_int [OF assms(1)])
    finally show ?thesis by auto
  qed
  have "0 \<le> bg div d" using assms le_div_iff_int [OF assms(1), of 0 bg] by simp
  moreover have "(en - 1) div d < D"
    using assms div_less_iff_int [OF assms(1), of "en - 1" D] by simp
  ultimately have "set (filter P (py_range D)) = {bg div d..(en - 1) div d}"
    by (auto simp: P)
  moreover have "sorted (filter P (py_range D))"
    by (simp add: py_range_def sorted_wrt_filter)
  ultimately have "[bg div d..(en - 1) div d] = filter P (py_range D)"
    by (intro sorted_distinct_set_unique) auto
  with assms(3) have "map fst (cells d bg en) = filter P (py_range D)"
    by (simp add: cells_def comp_def)
  then show ?thesis unfolding P_def .
qed

section \<open>Routes in closed form\<close>

definition dst_shards :: "int \<Rightarrow> int \<Rightarrow> int \<Rightarrow> int \<Rightarrow> (int \<times> int) list" where
  "dst_shards b S D r =
     map (\<lambda>k. (k, shard_size b S D r k)) (filter (\<lambda>k. 0 < shard_size b S D r k) (py_range D))"

definition valid_worlds :: "int \<Rightarrow> int \<Rightarrow> int \<Rightarrow> bool" where
  "valid_worlds b S D \<longleftrightarrow> 0 \<le> b \<and> 0 < S \<and> 0 < D \<and> b mod S = 0 \<and> b mod D = 0"

lemma valid_worlds_swap: "valid_worlds b S D = valid_worlds b D S"
  by (auto simp: valid_worlds_def)

lemma valid_worlds_nonneg:
  "valid_worlds b S D \<Longrightarrow> 0 \<le> b div S \<and> 0 \<le> b div D \<and> b div S * S = b \<and> b div D * D = b"
  by (auto simp: valid_worlds_def pos_imp_zdiv_nonneg_iff)

lemma valid_worlds_zero: "valid_worlds b S D \<Longrightarrow> b div S = 0 \<longleftrightarrow> b = 0"
  using valid_worlds_nonneg by force

lemma cells_dst_shards:
  assumes v: "valid_worlds b S D" and r: "0 \<le> r" "r < S" and b: "b \<noteq> 0"
  shows "cells (b div D) (r * (b div S)) ((r + 1) * (b div S)) = dst_shards b S D r"
proof -
  let ?s = "b div S" let ?d = "b div D"
  note nn = valid_worlds_nonneg [OF v]
  have pos: "0 < ?s" "0 < ?d"
    using nn valid_worlds_zero [OF v] valid_worlds_zero [of b D S] v b
    by (auto simp: valid_worlds_swap order_less_le)
  have "(r + 1) * ?s \<le> S * ?s" using r pos by (intro mult_right_mono) auto
  also have "\<dots> = D * ?d" using nn by (metis mult.commute)
  finally have "map fst (cells ?d (r * ?s) ((r + 1) * ?s))
       = filter (\<lambda>k. 0 < shard_size b S D r k) (py_range D)"
    using cells_filter [of ?d "r * ?s" "(r + 1) * ?s" D] pos r
    by (simp add: shard_size_def min.commute max.commute algebra_simps)
  moreover have "cells ?d (r * ?s) ((r + 1) * ?s)
       = map (\<lambda>k. (k, shard_size b S D r k)) (map fst (cells ?d (r * ?s) ((r + 1) * ?s)))"
    by (simp add: cells_def comp_def shard_size_def min.commute max.commute)
  ultimately show ?thesis by (simp add: dst_shards_def)
qed

lemma dst_shards_empty: "b = 0 \<Longrightarrow> dst_shards b S D r = []"
  by (simp add: dst_shards_def shard_size_def)

lemma get_dst_ranks_eq:
  assumes v: "valid_worlds b S D" and r: "0 \<le> r" "r < S"
  shows "get_dst_ranks b S D r = Some (Inr (dst_shards b S D r))"
proof (cases "b = 0")
  case True
  with v r show ?thesis
    by (simp add: get_dst_ranks_def valid_worlds_def dst_ranks_loop.simps dst_shards_empty)
next
  case False
  have "0 < b div D"
    using valid_worlds_nonneg [OF v] valid_worlds_zero [of b D S] v False
    by (auto simp: valid_worlds_swap order_less_le)
  with v r False show ?thesis
    by (simp add: get_dst_ranks_def valid_worlds_def dst_ranks_loop_cells
        cells_dst_shards [OF v r False])
qed

lemma dst_shards_sum:
  assumes v: "valid_worlds b S D" and r: "0 \<le> r" "r < S"
  shows "sum_list (map snd (dst_shards b S D r)) = b div S"
proof (cases "b = 0")
  case False
  have "0 < b div D" "0 \<le> b div S"
    using valid_worlds_nonneg [OF v] valid_worlds_zero [of b D S] v False
    by (auto simp: valid_worlds_swap order_less_le)
  then show ?thesis
    using cells_sum [of "b div D" "r * (b div S)" "(r + 1) * (b div S)"]
      cells_dst_shards [OF v r False]
    by (simp add: algebra_simps)
qed (simp add: dst_shards_empty)

lemma concat_singletons: "concat (map (\<lambda>x. if P x then [f x] else []) xs) = map f (filter P xs)"
  by (induction xs) auto

lemma dst_shards_select:
  assumes "0 \<le> k" "k < D"
  shows "[(r, n). (k', n) \<leftarrow> dst_shards b S D r, k' = k]
       = (if 0 < shard_size b S D r k then [(r, shard_size b S D r k)] else [])"
proof -
  let ?xs = "filter (\<lambda>k. 0 < shard_size b S D r k) (py_range D)"
  have d: "distinct xs \<Longrightarrow>
      concat (map (\<lambda>x. if x = k then [(r, shard_size b S D r x)] else []) xs)
        = (if k \<in> set xs then [(r, shard_size b S D r k)] else [])" for xs
    by (induction xs) auto
  have "[(r, n). (k', n) \<leftarrow> dst_shards b S D r, k' = k]
      = concat (map (\<lambda>x. if x = k then [(r, shard_size b S D r x)] else []) ?xs)"
    by (simp add: dst_shards_def comp_def)
  with assms show ?thesis by (subst (asm) d) auto
qed

lemma get_src_ranks_eq:
  assumes v: "valid_worlds b S D" and k: "0 \<le> k" "k < D"
  shows "get_src_ranks b S D k = Some (Inr (dst_shards b D S k))"
proof -
  let ?f = "\<lambda>r. if 0 < shard_size b S D r k then [(r, shard_size b S D r k)] else []"
  have "cmap (\<lambda>r. cbind (get_dst_ranks b S D r)
          (\<lambda>xs. Some (Inr [(r, n). (k', n) \<leftarrow> xs, k' = k]))) (py_range S)
      = Some (Inr (map ?f (py_range S)))"
    using k v by (intro cmap_all) (simp add: get_dst_ranks_eq dst_shards_select)
  moreover have "concat (map ?f (py_range S)) = dst_shards b D S k"
    by (simp add: dst_shards_def shard_size_swap [of b D S] concat_singletons)
  moreover have "sum_list (map snd (dst_shards b D S k)) = b div D"
    using dst_shards_sum [of b D S k] v k by (simp add: valid_worlds_swap)
  ultimately show ?thesis
    using v k by (simp add: get_src_ranks_def valid_worlds_def)
qed

lemma dst_shards_mem:
  "(k, n) \<in> set (dst_shards b S D r) \<longleftrightarrow> 0 \<le> k \<and> k < D \<and> n = shard_size b S D r k \<and> 0 < n"
  by (auto simp: dst_shards_def)

lemma dst_shards_sorted: "sorted_wrt (<) (map fst (dst_shards b S D r))"
  by (simp add: dst_shards_def comp_def py_range_def sorted_wrt_filter strict_sorted_iff)

section \<open>Interface: two views of one sharding\<close>

text \<open>
  What the plan builders rely on: the senders' and the receivers' views list the
  same shards. Totals on the two sides then agree.
\<close>

locale shard_views =
  fixes send :: "int \<Rightarrow> (int \<times> int) list" and recv :: "int \<Rightarrow> (int \<times> int) list"
    and srcs dsts :: "int set"
  assumes finite_views: "finite srcs" "finite dsts"
    and send_dsts: "r \<in> srcs \<Longrightarrow> fst ` set (send r) \<subseteq> dsts"
    and recv_srcs: "k \<in> dsts \<Longrightarrow> fst ` set (recv k) \<subseteq> srcs"
    and send_distinct: "r \<in> srcs \<Longrightarrow> distinct (map fst (send r))"
    and recv_distinct: "k \<in> dsts \<Longrightarrow> distinct (map fst (recv k))"
    and dual: "r \<in> srcs \<Longrightarrow> k \<in> dsts \<Longrightarrow> (k, n) \<in> set (send r) \<longleftrightarrow> (r, n) \<in> set (recv k)"
begin

lemma map_of_views:
  assumes "r \<in> srcs" "k \<in> dsts"
  shows "map_of (send r) k = map_of (recv k) r"
proof (rule option.expand)
  show "(map_of (send r) k = None) = (map_of (recv k) r = None)"
    using dual [OF assms] by (force simp: map_of_eq_None_iff)
  assume "map_of (send r) k \<noteq> None" "map_of (recv k) r \<noteq> None"
  then obtain m n where mn: "map_of (send r) k = Some m" "map_of (recv k) r = Some n" by auto
  then have "(r, m) \<in> set (recv k)" using dual [OF assms] map_of_SomeD by fastforce
  then have "map_of (recv k) r = Some m" using recv_distinct [OF assms(2)] by simp
  with mn show "the (map_of (send r) k) = the (map_of (recv k) r)" by simp
qed

lemma sent_eq_received:
  "(\<Sum>r\<in>srcs. sum_list (map snd (send r))) = (\<Sum>k\<in>dsts. sum_list (map snd (recv k)))"
proof -
  have "(\<Sum>r\<in>srcs. sum_list (map snd (send r))) = (\<Sum>r\<in>srcs. \<Sum>k\<in>dsts. opt_size (map_of (send r) k))"
    using finite_views send_dsts send_distinct
    by (intro sum.cong) (auto intro!: sum_assoc_list)
  also have "\<dots> = (\<Sum>k\<in>dsts. \<Sum>r\<in>srcs. opt_size (map_of (send r) k))" by (rule sum.swap)
  also have "\<dots> = (\<Sum>k\<in>dsts. sum_list (map snd (recv k)))"
  proof (rule sum.cong [OF refl])
    fix k assume k: "k \<in> dsts"
    have "sum_list (map snd (recv k)) = (\<Sum>r\<in>srcs. opt_size (map_of (recv k) r))"
      using finite_views recv_srcs [OF k] recv_distinct [OF k] by (intro sum_assoc_list) auto
    then show "(\<Sum>r\<in>srcs. opt_size (map_of (send r) k)) = sum_list (map snd (recv k))"
      using k by (simp add: map_of_views)
  qed
  finally show ?thesis .
qed

end

interpretation mapper: shard_views "dst_shards b S D" "dst_shards b D S" "{0..<S}" "{0..<D}" for b S D
proof unfold_locales
  fix r k n
  assume "r \<in> {0..<S}" "k \<in> {0..<D}"
  then show "(k, n) \<in> set (dst_shards b S D r) \<longleftrightarrow> (r, n) \<in> set (dst_shards b D S k)"
    by (auto simp: dst_shards_mem shard_size_swap [of b S D])
qed (auto simp: dst_shards_def comp_def)

section \<open>Properties\<close>

text \<open>
  C3. Sender side: for sizes the code accepts, the loop of \<open>get_dst_ranks\<close> ends; it lists
  each destination rank whose interval overlaps the source's, once, in increasing
  order, with the exact size of the overlap; and the sizes add up to the source's
  share of the batch.
\<close>

theorem get_dst_ranks_overlaps:
  assumes "valid_worlds b S D" "0 \<le> r" "r < S"
  shows "\<exists>xs. get_dst_ranks b S D r = Some (Inr xs) \<and> sorted_wrt (<) (map fst xs)
    \<and> (\<forall>k n. (k, n) \<in> set xs \<longleftrightarrow> 0 \<le> k \<and> k < D \<and> n = shard_size b S D r k \<and> 0 < n)
    \<and> sum_list (map snd xs) = b div S"
  using assms get_dst_ranks_eq [OF assms] dst_shards_sorted [of b S D r] dst_shards_sum [OF assms]
  by (auto simp: dst_shards_mem)

theorem get_dst_ranks_overlaps_witness:
  "valid_worlds 12 2 3 \<and>
   (\<exists>xs. get_dst_ranks 12 2 3 1 = Some (Inr xs) \<and> sorted_wrt (<) (map fst xs)
    \<and> (\<forall>k n. (k, n) \<in> set xs \<longleftrightarrow> 0 \<le> k \<and> k < 3 \<and> n = shard_size 12 2 3 1 k \<and> 0 < n)
    \<and> sum_list (map snd xs) = 6)"
proof -
  have v: "valid_worlds 12 2 3" by (simp add: valid_worlds_def)
  show ?thesis using v get_dst_ranks_overlaps [OF v, of 1] by simp
qed

text \<open>
  C4. Receiver side: \<open>get_src_ranks\<close> returns for every destination rank; its final
  assertion on the received size never fails; and the two sides agree: the receiver
  lists \<open>(r, n)\<close> exactly when \<open>get_dst_ranks\<close> of source \<open>r\<close> lists \<open>(k, n)\<close>.
\<close>

theorem get_src_ranks_dual:
  assumes "valid_worlds b S D" "0 \<le> k" "k < D"
  shows "\<exists>ys. get_src_ranks b S D k = Some (Inr ys) \<and> sorted_wrt (<) (map fst ys)
    \<and> sum_list (map snd ys) = b div D
    \<and> (\<forall>r n. 0 \<le> r \<and> r < S \<longrightarrow>
         (\<exists>xs. get_dst_ranks b S D r = Some (Inr xs) \<and> ((r, n) \<in> set ys \<longleftrightarrow> (k, n) \<in> set xs)))"
  using assms get_src_ranks_eq [OF assms] dst_shards_sorted [of b D S k]
    dst_shards_sum [of b D S k] mapper.dual [of _ S k D _ b]
  by (auto simp: valid_worlds_swap get_dst_ranks_eq)

theorem get_src_ranks_dual_witness:
  "\<exists>ys. get_src_ranks 12 2 3 1 = Some (Inr ys) \<and> sorted_wrt (<) (map fst ys)
    \<and> sum_list (map snd ys) = 4
    \<and> (\<forall>r n. 0 \<le> r \<and> r < 2 \<longrightarrow>
         (\<exists>xs. get_dst_ranks 12 2 3 r = Some (Inr xs) \<and> ((r, n) \<in> set ys \<longleftrightarrow> (1, n) \<in> set xs)))"
proof -
  have v: "valid_worlds 12 2 3" by (simp add: valid_worlds_def)
  show ?thesis using get_src_ranks_dual [OF v, of 1] by simp
qed

text \<open>
  Decoupled mode: with no queue limit the code returns, per source rank, equal
  shards of the batch; together the sources cover the whole batch exactly when the
  smaller group's size divides the larger one's, and otherwise they fall short.
\<close>

lemma decoupled_sizes:
  assumes "0 < S" "0 < D" "b mod max S D = 0"
  shows "decoupled_get_batch_size b S D 0
       = Inr (if D \<le> S then [b div S] else map (\<lambda>_. b div D) (py_range (D div S)))"
  using assms by (auto simp: decoupled_get_batch_size_def max_def Let_def)

lemma decoupled_coverage:
  assumes "0 < S" "0 < D" "0 < b" "b mod max S D = 0"
  shows "\<exists>ns. decoupled_get_batch_size b S D 0 = Inr ns \<and> S * sum_list ns \<le> b
    \<and> (S * sum_list ns = b \<longleftrightarrow> D \<le> S \<or> S dvd D)"
proof (cases "D \<le> S")
  case True
  with assms show ?thesis by (auto simp: decoupled_sizes max_def)
next
  case False
  let ?n = "b div D"
  have b: "b = ?n * D" using assms False by (auto simp: max_def)
  then have n: "0 < ?n" using assms by (metis zero_less_mult_pos2)
  have "S * sum_list (map (\<lambda>_. ?n) (py_range (D div S))) = (S * (D div S)) * ?n"
    using assms by (simp add: sum_list_triv pos_imp_zdiv_nonneg_iff)
  moreover have "S * (D div S) \<le> D" "S * (D div S) = D \<longleftrightarrow> S dvd D"
    using assms by (auto simp: minus_mod_eq_mult_div [symmetric] dvd_eq_mod_eq_0)
  moreover from this n have "(S * (D div S)) * ?n \<le> D * ?n" by (intro mult_right_mono) auto
  ultimately show ?thesis using assms False b n
    by (auto simp: decoupled_sizes mult.commute)
qed

end
