(* ===== verification/Batch_Payload.thy ===== *)
theory Batch_Payload
  imports Py_Prelude "HOL-Library.AList"
begin

text \<open>
  Splitting and merging of routed payloads: \<open>infer_batch_size\<close>, \<open>split_batch\<close>,
  \<open>merge_batches\<close>, \<open>validate_batch_size\<close> and \<open>get_batch_size\<close> of
  \<^verbatim>\<open>rlinf/scheduler/worker/routing.py\<close>.

  Tensors and arrays belong to torch and numpy, which are not part of the
  repository: their operations are the fields of \<open>array_ops\<close>, an argument of
  the definitions. \<open>array_laws\<close> states what the two libraries document:
  concatenating the pieces of a split gives the original back.
\<close>

section \<open>Payloads\<close>

text \<open>
  A payload is a scalar (\<open>bool\<close>, \<open>int\<close>, \<open>float\<close> or \<open>str\<close>), a tensor, an
  array, a list, a dictionary with string keys in insertion order, \<open>None\<close>, or
  an object of some other class.
\<close>

datatype ('t, 'n, 'a) payload =
    PScalar 'a
  | PTensor 't
  | PArray 'n
  | PList "'a list"
  | PDict "(string \<times> ('t, 'n, 'a) payload) list"
  | PNone
  | POther 'a

text \<open>
  \<open>t_split\<close>, \<open>t_cat\<close>, \<open>t_len\<close> are \<open>torch.split\<close>, \<open>torch.cat\<close> and \<open>shape[0]\<close>;
  \<open>n_split\<close> takes cut positions, as \<open>np.split\<close> does. \<open>o_iter\<close> is Python's
  iteration over a payload that is not a list, and \<open>o_eq\<close> the truth value of
  \<open>==\<close> on payloads (which is not reflexive: NaN).
\<close>

record ('t, 'n, 'a) array_ops =
  t_split :: "'t \<Rightarrow> int list \<Rightarrow> 't list res"
  t_cat :: "'t list \<Rightarrow> 't res"
  t_len :: "'t \<Rightarrow> int"
  n_split :: "'n \<Rightarrow> int list \<Rightarrow> 'n list res"
  n_concat :: "'n list \<Rightarrow> 'n res"
  n_len :: "'n \<Rightarrow> int"
  o_iter :: "('t, 'n, 'a) payload \<Rightarrow> 'a list res"
  o_eq :: "('t, 'n, 'a) payload \<Rightarrow> ('t, 'n, 'a) payload \<Rightarrow> bool res"

section \<open>The operations\<close>

fun infer_batch_size :: "('t, 'n, 'a) array_ops \<Rightarrow> ('t, 'n, 'a) payload \<Rightarrow> int res"
  and infer_first :: "('t, 'n, 'a) array_ops \<Rightarrow> (string \<times> ('t, 'n, 'a) payload) list \<Rightarrow> int res" where
  "infer_batch_size ops (PTensor t) = Inr (t_len ops t)"
| "infer_batch_size ops (PArray a) = Inr (n_len ops a)"
| "infer_batch_size ops (PList xs) = Inr (int (length xs))"
| "infer_batch_size ops (PDict kvs) = infer_first ops kvs"
| "infer_batch_size ops _ = Inl ValueError"
| "infer_first ops [] = Inl ValueError"
| "infer_first ops ((k, v) # kvs) =
     (if v = PNone then infer_first ops kvs else infer_batch_size ops v)"

fun cumsum :: "int \<Rightarrow> int list \<Rightarrow> int list" where
  "cumsum acc [] = []"
| "cumsum acc (x # xs) = (acc + x) # cumsum (acc + x) xs"

fun split_list_rows :: "'a list \<Rightarrow> int \<Rightarrow> int list \<Rightarrow> 'a list list" where
  "split_list_rows xs start [] = []"
| "split_list_rows xs start (n # ns) =
     py_slice xs start (start + n) # split_list_rows xs (start + n) ns"

text \<open>\<open>for idx, split_value in enumerate(split_values): shards[idx][key] = split_value\<close>.\<close>

fun set_shards ::
    "string \<Rightarrow> 'p list \<Rightarrow> (string \<times> 'p) list list \<Rightarrow> (string \<times> 'p) list list res" where
  "set_shards key [] shards = Inr shards"
| "set_shards key (v # vs) [] = Inl IndexError"
| "set_shards key (v # vs) (s # ss) =
     rbind (set_shards key vs ss) (\<lambda>ss'. Inr (AList.update key v s # ss'))"

fun split_batch ::
    "('t, 'n, 'a) array_ops \<Rightarrow> ('t, 'n, 'a) payload \<Rightarrow> int list \<Rightarrow> ('t, 'n, 'a) payload list res"
  and split_items ::
    "('t, 'n, 'a) array_ops \<Rightarrow> (string \<times> ('t, 'n, 'a) payload) list \<Rightarrow> int list
      \<Rightarrow> (string \<times> ('t, 'n, 'a) payload) list list
      \<Rightarrow> (string \<times> ('t, 'n, 'a) payload) list list res" where
  "split_batch ops (PScalar x) split_sizes = Inr (map (\<lambda>_. PScalar x) split_sizes)"
| "split_batch ops (PTensor t) split_sizes =
     rbind (t_split ops t split_sizes) (\<lambda>ts. Inr (map PTensor ts))"
| "split_batch ops (PArray a) split_sizes =
     rbind (n_split ops a (cumsum 0 (butlast split_sizes))) (\<lambda>ns. Inr (map PArray ns))"
| "split_batch ops (PList xs) split_sizes = Inr (map PList (split_list_rows xs 0 split_sizes))"
| "split_batch ops (PDict kvs) split_sizes =
     rbind (split_items ops kvs split_sizes (map (\<lambda>_. []) split_sizes))
       (\<lambda>shards. Inr (map PDict shards))"
| "split_batch ops PNone split_sizes = Inl ValueError"
| "split_batch ops (POther x) split_sizes = Inl ValueError"
| "split_items ops [] split_sizes shards = Inr shards"
| "split_items ops ((key, value) # kvs) split_sizes shards =
     (if value = PNone
      then split_items ops kvs split_sizes (map (AList.update key PNone) shards)
      else
        rbind (split_batch ops value split_sizes) (\<lambda>split_values.
        rbind (set_shards key split_values shards) (\<lambda>shards'.
        split_items ops kvs split_sizes shards')))"

text \<open>\<open>batch[key]\<close>; subscripting something that is not a dictionary with a string fails.\<close>

fun get_key :: "string \<Rightarrow> ('t, 'n, 'a) payload \<Rightarrow> ('t, 'n, 'a) payload res" where
  "get_key key (PDict kvs) = (case map_of kvs key of None \<Rightarrow> Inl KeyError | Some v \<Rightarrow> Inr v)"
| "get_key key _ = Inl TypeError"

fun as_tensor :: "('t, 'n, 'a) payload \<Rightarrow> 't res" where
  "as_tensor (PTensor t) = Inr t" | "as_tensor _ = Inl TypeError"

fun as_array :: "('t, 'n, 'a) payload \<Rightarrow> 'n res" where
  "as_array (PArray a) = Inr a" | "as_array _ = Inl TypeError"

fun as_iter :: "('t, 'n, 'a) array_ops \<Rightarrow> ('t, 'n, 'a) payload \<Rightarrow> 'a list res" where
  "as_iter ops (PList xs) = Inr xs" | "as_iter ops p = o_iter ops p"

lemma size_get_key: "get_key key p = Inr v \<Longrightarrow> size v < size p"
proof (induction key p rule: get_key.induct)
  case (1 key kvs)
  then have "(key, v) \<in> set kvs" by (auto split: option.splits dest: map_of_SomeD)
  then show ?case by (induction kvs) auto
qed auto

lemma size_get_keys:
  assumes "rmap (get_key key) ps = Inr vs" "ps \<noteq> []"
  shows "size_list size vs < size_list size ps"
proof -
  have "rmap (get_key key) ps = Inr vs \<Longrightarrow> size_list size vs \<le> size_list size ps" for ps vs
  proof (induction ps arbitrary: vs)
    case (Cons p ps)
    then show ?case by (fastforce simp: res_elims dest: size_get_key)
  qed simp
  with assms show ?thesis
    by (cases ps) (fastforce simp: res_elims dest: size_get_key)+
qed

text \<open>\<open>all(batch == first for batch in batches)\<close> stops at the first that differs.\<close>

fun all_eq :: "('t, 'n, 'a) array_ops \<Rightarrow> ('t, 'n, 'a) payload \<Rightarrow> ('t, 'n, 'a) payload list \<Rightarrow> bool res" where
  "all_eq ops first [] = Inr True"
| "all_eq ops first (b # bs) = rbind (o_eq ops b first) (\<lambda>e. if e then all_eq ops first bs else Inr False)"

function merge_batches :: "('t, 'n, 'a) array_ops \<Rightarrow> ('t, 'n, 'a) payload list \<Rightarrow> ('t, 'n, 'a) payload res" where
  "merge_batches ops batches =
     (case batches of
        [] \<Rightarrow> Inl ValueError
      | [b] \<Rightarrow> Inr b
      | b # b' # bs \<Rightarrow>
         (case find (\<lambda>p. p \<noteq> PNone) batches of
            None \<Rightarrow> Inr PNone
          | Some first_non_none \<Rightarrow>
              if PNone \<in> set batches then Inl ValueError
              else (case first_non_none of
                  PTensor _ \<Rightarrow> rbind (rmap as_tensor batches) (\<lambda>ts. rbind (t_cat ops ts) (\<lambda>t. Inr (PTensor t)))
                | PArray _ \<Rightarrow> rbind (rmap as_array batches) (\<lambda>ns. rbind (n_concat ops ns) (\<lambda>n. Inr (PArray n)))
                | PList _ \<Rightarrow> rbind (rmap (as_iter ops) batches) (\<lambda>xss. Inr (PList (concat xss)))
                | PDict kvs \<Rightarrow>
                    rbind (rmap (\<lambda>key.
                        rbind (rmap (get_key key) batches) (\<lambda>vs.
                        rbind (merge_batches ops vs) (\<lambda>m. Inr (key, m))))
                      (map fst kvs)) (\<lambda>kvs'. Inr (PDict kvs'))
                | _ \<Rightarrow> rbind (all_eq ops first_non_none batches) (\<lambda>e.
                    if e then Inr first_non_none else Inl ValueError))))"
  by pat_completeness auto
termination
  by (relation "measure (\<lambda>(ops, bs). size_list size bs)") (auto simp del: rmap.simps dest!: size_get_keys)

declare merge_batches.simps [simp del]

definition get_batch_size ::
    "('t, 'n, 'a) array_ops \<Rightarrow> ('t, 'n, 'a) payload \<Rightarrow> (('t, 'n, 'a) payload \<Rightarrow> int res) option \<Rightarrow> int res" where
  "get_batch_size ops data infer_batch_size_fn =
     (case infer_batch_size_fn of None \<Rightarrow> infer_batch_size ops data | Some f \<Rightarrow> f data)"

definition validate_batch_size ::
    "('t, 'n, 'a) array_ops \<Rightarrow> ('t, 'n, 'a) payload \<Rightarrow> int option
      \<Rightarrow> (('t, 'n, 'a) payload \<Rightarrow> int res) option \<Rightarrow> unit res" where
  "validate_batch_size ops data expected_batch_size infer_batch_size_fn =
     (case expected_batch_size of
        None \<Rightarrow> Inr ()
      | Some e \<Rightarrow>
          rbind ((case infer_batch_size_fn of None \<Rightarrow> infer_batch_size ops | Some f \<Rightarrow> f) data)
            (\<lambda>actual. if actual \<noteq> e then Inl ValueError else Inr ()))"

section \<open>Split and merge are inverse\<close>

text \<open>
  What torch and numpy document of their split and concatenation: the parts of a split
  into at least one part, with sizes that are not negative and sum up to the length,
  concatenate to the whole. Concatenating no parts raises, so no part is excluded.
  The type \<open>'t\<close> ranges over the tensors and \<open>'n\<close> over the arrays with at least one
  dimension: the others have no rows to split.
\<close>

definition array_laws :: "('t, 'n, 'a) array_ops \<Rightarrow> bool" where
  "array_laws ops \<longleftrightarrow>
     (\<forall>t. t_cat ops [t] = Inr t) \<and>
     (\<forall>t ns. ns \<noteq> [] \<longrightarrow> (\<forall>n \<in> set ns. 0 \<le> n) \<longrightarrow> sum_list ns = t_len ops t \<longrightarrow>
        (\<exists>ts. t_split ops t ns = Inr ts \<and> length ts = length ns \<and> t_cat ops ts = Inr t)) \<and>
     (\<forall>a. n_concat ops [a] = Inr a) \<and>
     (\<forall>a ns. ns \<noteq> [] \<longrightarrow> (\<forall>n \<in> set ns. 0 \<le> n) \<longrightarrow> sum_list ns = n_len ops a \<longrightarrow>
        (\<exists>as. n_split ops a (cumsum 0 (butlast ns)) = Inr as \<and> length as = length ns
           \<and> n_concat ops as = Inr a))"

text \<open>A payload that is a batch of \<open>n\<close> rows: every leaf has \<open>n\<close> rows or is a scalar equal to itself.\<close>

fun batch_of :: "('t, 'n, 'a) array_ops \<Rightarrow> int \<Rightarrow> ('t, 'n, 'a) payload \<Rightarrow> bool"
  and batch_items :: "('t, 'n, 'a) array_ops \<Rightarrow> int \<Rightarrow> (string \<times> ('t, 'n, 'a) payload) list \<Rightarrow> bool" where
  "batch_of ops n (PScalar x) = (o_eq ops (PScalar x) (PScalar x) = Inr True)"
| "batch_of ops n (PTensor t) = (t_len ops t = n)"
| "batch_of ops n (PArray a) = (n_len ops a = n)"
| "batch_of ops n (PList xs) = (int (length xs) = n)"
| "batch_of ops n (PDict kvs) = batch_items ops n kvs"
| "batch_of ops n _ = False"
| "batch_items ops n [] = True"
| "batch_items ops n ((k, v) # kvs) =
     (k \<notin> fst ` set kvs \<and> (v = PNone \<or> batch_of ops n v) \<and> batch_items ops n kvs)"

lemma merge_singleton [simp]: "merge_batches ops [p] = Inr p"
  by (subst merge_batches.simps) simp

lemma merge_nones:
  fixes ops :: "('t, 'n, 'a) array_ops"
  shows "n \<noteq> 0 \<Longrightarrow> merge_batches ops (replicate n PNone) = Inr PNone"
proof (cases "n = 1")
  case False
  moreover assume "n \<noteq> 0"
  ultimately obtain m where n: "n = Suc (Suc m)" by (metis One_nat_def not0_implies_Suc)
  have "find (\<lambda>p. p \<noteq> PNone) (replicate n (PNone :: ('t, 'n, 'a) payload)) = None"
    by (simp add: find_None_iff)
  with n show ?thesis by (subst merge_batches.simps) simp
qed simp

text \<open>Merging two or more payloads none of which is \<open>None\<close> looks at the first one.\<close>

lemma merge_many:
  assumes "2 \<le> length ps" "PNone \<notin> set ps"
  shows "merge_batches ops ps =
    (case hd ps of
       PTensor _ \<Rightarrow> rbind (rmap as_tensor ps) (\<lambda>ts. rbind (t_cat ops ts) (\<lambda>t. Inr (PTensor t)))
     | PArray _ \<Rightarrow> rbind (rmap as_array ps) (\<lambda>ns. rbind (n_concat ops ns) (\<lambda>n. Inr (PArray n)))
     | PList _ \<Rightarrow> rbind (rmap (as_iter ops) ps) (\<lambda>xss. Inr (PList (concat xss)))
     | PDict kvs \<Rightarrow>
         rbind (rmap (\<lambda>key. rbind (rmap (get_key key) ps) (\<lambda>vs.
             rbind (merge_batches ops vs) (\<lambda>m. Inr (key, m)))) (map fst kvs)) (\<lambda>kvs'. Inr (PDict kvs'))
     | _ \<Rightarrow> rbind (all_eq ops (hd ps) ps) (\<lambda>e. if e then Inr (hd ps) else Inl ValueError))"
proof -
  from assms(1) obtain p q qs where ps: "ps = p # q # qs"
    by (cases ps rule: list.exhaust [case_product list.exhaust [of "tl ps"]]) (auto simp: Suc_le_eq)
  with assms(2) have f: "find (\<lambda>p. p \<noteq> PNone) (p # q # qs) = Some p" by auto
  from assms(2) have none: "(PNone \<in> set (p # q # qs)) = False" by (simp add: ps)
  show ?thesis unfolding ps list.sel
    by (subst merge_batches.simps) (simp only: f none list.case option.case if_False)
qed

lemma split_list_rows_length [simp]: "length (split_list_rows xs i ns) = length ns"
  by (induction ns arbitrary: i) auto

lemma concat_split_list_rows:
  assumes "0 \<le> i" "\<forall>n \<in> set ns. 0 \<le> n"
  shows "concat (split_list_rows xs i ns) = take (nat (sum_list ns)) (drop (nat i) xs)"
  using assms
proof (induction ns arbitrary: i)
  case (Cons n ns)
  then have "py_slice xs i (i + n) = take (nat n) (drop (nat i) xs)"
    using py_slice_nat [of xs "nat i" "nat (i + n)"] by (simp add: nat_add_distrib)
  moreover have "nat (sum_list (n # ns)) = nat n + nat (sum_list ns)"
    using Cons.prems by (simp add: nat_add_distrib sum_list_nonneg)
  ultimately show ?case
    using Cons by (simp add: take_add nat_add_distrib add.commute)
qed simp

lemma all_eq_replicate: "o_eq ops p p = Inr True \<Longrightarrow> all_eq ops p (replicate n p) = Inr True"
  by (induction n) auto

lemma as_leaf_maps [simp]:
  "rmap as_tensor (map PTensor ts) = Inr ts"
  "rmap as_array (map PArray ns) = Inr ns"
  "rmap (as_iter ops) (map PList xss) = Inr xss"
  by (induction ts, auto, induction ns, auto, induction xss, auto)

lemma merge_cases:
  "ps \<noteq> [] \<Longrightarrow> (\<And>p. ps = [p] \<Longrightarrow> P) \<Longrightarrow> (2 \<le> length ps \<Longrightarrow> P) \<Longrightarrow> P"
  by (cases ps; cases "tl ps") auto

text \<open>The columns of a dictionary: one list of shards per key, each merging back to its value.\<close>

definition columns ::
    "('t, 'n, 'a) array_ops \<Rightarrow> nat \<Rightarrow> (string \<times> ('t, 'n, 'a) payload) list
      \<Rightarrow> (string \<times> ('t, 'n, 'a) payload list) list \<Rightarrow> bool" where
  "columns ops m kvs cols \<longleftrightarrow>
     list_all2 (\<lambda>(k, v) (k', c). k' = k \<and> length c = m \<and> merge_batches ops c = Inr v) kvs cols"

definition dict_rows :: "nat \<Rightarrow> (string \<times> 'p list) list \<Rightarrow> (string \<times> 'p) list list" where
  "dict_rows m cols = map (\<lambda>i. map (\<lambda>(k, c). (k, c ! i)) cols) [0..<m]"

lemma columns_keys: "columns ops m kvs cols \<Longrightarrow> map fst cols = map fst kvs"
  unfolding columns_def by (induction rule: list_all2_induct) auto

lemma set_shards_new:
  "length vs = length shards \<Longrightarrow> \<forall>s \<in> set shards. key \<notin> fst ` set s \<Longrightarrow>
   set_shards key vs shards = Inr (map2 (\<lambda>s v. s @ [(key, v)]) shards vs)"
proof (induction key vs shards rule: set_shards.induct)
  case (3 key v vs s ss)
  have "key \<notin> fst ` set s \<Longrightarrow> AList.update key v s = s @ [(key, v)]" by (induction s) auto
  with 3 show ?case by auto
qed auto

lemma update_all_new:
  "\<forall>s \<in> set shards. key \<notin> fst ` set s \<Longrightarrow>
   map (AList.update key v) shards = map (\<lambda>s. s @ [(key, v)]) shards"
proof -
  have "key \<notin> fst ` set s \<Longrightarrow> AList.update key v s = s @ [(key, v)]" for s :: "(_ \<times> _) list"
    by (induction s) auto
  then show "\<forall>s \<in> set shards. key \<notin> fst ` set s \<Longrightarrow> ?thesis" by simp
qed

lemma map2_nth_rows:
  "length xs = m \<Longrightarrow> length ys = m \<Longrightarrow> map2 f xs ys = map (\<lambda>i. f (xs ! i) (ys ! i)) [0..<m]"
  by (rule nth_equalityI) auto

text \<open>Merging the rows of a dictionary gives the dictionary back.\<close>

lemma merge_dict_rows:
  assumes cols: "columns ops m kvs cols" and m: "m \<noteq> 0" and d: "distinct (map fst kvs)"
  shows "merge_batches ops (map PDict (dict_rows m cols)) = Inr (PDict kvs)"
proof (cases "m = 1")
  case True
  have "map (\<lambda>(k, c). (k, c ! 0)) cols = kvs"
    using cols unfolding columns_def True
    by (induction rule: list_all2_induct) (auto simp: length_Suc_conv)
  with True show ?thesis by (simp add: dict_rows_def)
next
  case False
  let ?ps = "map PDict (dict_rows m cols)"
  have len: "2 \<le> length ?ps" using m False by (simp add: dict_rows_def)
  have hd: "hd ?ps = PDict (map (\<lambda>(k, c). (k, c ! 0)) cols)"
    using m by (simp add: dict_rows_def hd_map)
  have keys: "map fst (map (\<lambda>(k, c). (k, c ! 0)) cols) = map fst kvs"
    using columns_keys [OF cols] by (simp add: comp_def split_def)
  have get: "rmap (get_key k) ?ps = Inr c" if "(k, c) \<in> set cols" for k c
  proof -
    have dc: "distinct (map fst cols)" using d columns_keys [OF cols] by simp
    have len_c: "length c = m"
      using cols that unfolding columns_def by (auto simp: list_all2_conv_all_nth in_set_conv_nth)
    have "map_of (map (\<lambda>(k, c). (k, c ! i)) cols) k = Some (c ! i)" for i
      using that dc by (force simp: comp_def split_def intro!: map_of_is_SomeI)
    then have "rmap (get_key k) ?ps = Inr (map (\<lambda>i. c ! i) [0..<m])"
      by (simp add: dict_rows_def rmap_list_all2 list_all2_conv_all_nth)
    then show ?thesis using len_c map_nth [of c] by simp
  qed
  have "rmap (\<lambda>key. rbind (rmap (get_key key) ?ps) (\<lambda>vs.
      rbind (merge_batches ops vs) (\<lambda>m. Inr (key, m)))) (map fst kvs) = Inr kvs"
    unfolding rmap_list_all2
  proof (rule list_all2_all_nthI)
    fix i assume i: "i < length (map fst kvs)"
    obtain k v where kv: "kvs ! i = (k, v)" by fastforce
    obtain k' c where c: "cols ! i = (k', c)" by fastforce
    with cols i kv have "k' = k" "i < length cols" "merge_batches ops c = Inr v"
      unfolding columns_def by (auto simp: list_all2_conv_all_nth)
    moreover from this c have "rmap (get_key k) ?ps = Inr c" by (intro get) (metis nth_mem)
    ultimately show "rbind (rmap (get_key (map fst kvs ! i)) ?ps) (\<lambda>vs.
        rbind (merge_batches ops vs) (\<lambda>m. Inr (map fst kvs ! i, m))) = Inr (kvs ! i)"
      using i kv by simp
  qed simp
  moreover have "PNone \<notin> set ?ps" by auto
  ultimately show ?thesis
    using merge_many [OF len, of ops] hd keys by (simp only: payload.case rbind_simps not_False_eq_True simp_thms)
qed

lemma merge_leaves:
  assumes "ps \<noteq> []" and one: "\<And>p. ps = [p] \<Longrightarrow> p = q" and many: "2 \<le> length ps \<Longrightarrow> merge_batches ops ps = Inr q"
  shows "merge_batches ops ps = Inr q"
  using assms(1) by (rule merge_cases) (auto dest: one many)

lemma merge_scalars:
  assumes "o_eq ops (PScalar x) (PScalar x) = Inr True" "m \<noteq> 0"
  shows "merge_batches ops (replicate m (PScalar x)) = Inr (PScalar x)"
proof (rule merge_leaves)
  show "merge_batches ops (replicate m (PScalar x)) = Inr (PScalar x)"
    if "2 \<le> length (replicate m (PScalar x))"
    using that assms all_eq_replicate [OF assms(1), of m] by (subst merge_many) auto
  show "p = PScalar x" if "replicate m (PScalar x) = [p]" for p
    using that by (cases m) auto
qed (use assms in simp)

text \<open>The cut sizes of a batch of \<open>n\<close> rows.\<close>

definition cuts :: "int list \<Rightarrow> int \<Rightarrow> bool" where
  "cuts ns n \<longleftrightarrow> ns \<noteq> [] \<and> (\<forall>k \<in> set ns. 0 \<le> k) \<and> sum_list ns = n"

definition splits_back ::
    "('t, 'n, 'a) array_ops \<Rightarrow> int list \<Rightarrow> ('t, 'n, 'a) payload \<Rightarrow> bool" where
  "splits_back ops ns p \<longleftrightarrow>
     (\<exists>shards. split_batch ops p ns = Inr shards \<and> length shards = length ns
        \<and> merge_batches ops shards = Inr p)"

lemma splits_back_tensor:
  assumes "array_laws ops" "cuts ns (t_len ops t)"
  shows "splits_back ops ns (PTensor t)"
proof -
  obtain ts where ts: "t_split ops t ns = Inr ts" "length ts = length ns" "t_cat ops ts = Inr t"
    using assms unfolding array_laws_def cuts_def by blast
  moreover have "merge_batches ops (map PTensor ts) = Inr (PTensor t)"
  proof (rule merge_leaves)
    show "map PTensor ts \<noteq> []" using ts(2) assms(2) by (auto simp: cuts_def)
    then show "merge_batches ops (map PTensor ts) = Inr (PTensor t)"
      if "2 \<le> length (map PTensor ts)"
      using that ts(3) by (subst merge_many) (auto simp: hd_map)
    show "p = PTensor t" if "map PTensor ts = [p]" for p
      using that ts(3) assms(1) by (auto simp: array_laws_def)
  qed
  ultimately show ?thesis by (auto simp: splits_back_def)
qed

lemma splits_back_array:
  assumes "array_laws ops" "cuts ns (n_len ops a)"
  shows "splits_back ops ns (PArray a)"
proof -
  obtain as where as: "n_split ops a (cumsum 0 (butlast ns)) = Inr as" "length as = length ns"
      "n_concat ops as = Inr a"
    using assms unfolding array_laws_def cuts_def by blast
  moreover have "merge_batches ops (map PArray as) = Inr (PArray a)"
  proof (rule merge_leaves)
    show "map PArray as \<noteq> []" using as(2) assms(2) by (auto simp: cuts_def)
    then show "merge_batches ops (map PArray as) = Inr (PArray a)"
      if "2 \<le> length (map PArray as)"
      using that as(3) by (subst merge_many) (auto simp: hd_map)
    show "p = PArray a" if "map PArray as = [p]" for p
      using that as(3) assms(1) by (auto simp: array_laws_def)
  qed
  ultimately show ?thesis by (auto simp: splits_back_def)
qed

lemma merge_lists:
  assumes "xss \<noteq> []"
  shows "merge_batches ops (map PList xss) = Inr (PList (concat xss))"
proof (rule merge_leaves)
  show "map PList xss \<noteq> []" using assms by simp
  then show "merge_batches ops (map PList xss) = Inr (PList (concat xss))"
    if "2 \<le> length (map PList xss)"
    using that by (subst merge_many) (auto simp: hd_map)
qed auto

lemma splits_back_list:
  assumes "cuts ns (int (length xs))"
  shows "splits_back ops ns (PList xs)"
proof -
  have "concat (split_list_rows xs 0 ns) = xs"
    using assms by (subst concat_split_list_rows) (auto simp: cuts_def)
  moreover have "split_list_rows xs 0 ns \<noteq> []"
    using assms by (cases ns) (auto simp: cuts_def)
  ultimately show ?thesis
    using merge_lists [of "split_list_rows xs 0 ns" ops] by (auto simp: splits_back_def)
qed

lemma dict_rows_Cons:
  "dict_rows m ((k, c) # cols) = map (\<lambda>i. (k, c ! i) # map (\<lambda>(k, c). (k, c ! i)) cols) [0..<m]"
  by (simp add: dict_rows_def)

text \<open>One more column: the loop over the items puts it in front of the columns still to come.\<close>

lemma dict_rows_step:
  assumes "length shards0 = m" "length c = m"
  shows "map2 (@) (map2 (\<lambda>s v. s @ [(k, v)]) shards0 c) (dict_rows m cols)
       = map2 (@) shards0 (dict_rows m ((k, c) # cols))"
  using assms by (intro nth_equalityI) (auto simp: dict_rows_def)

lemma splits_back_all:
  fixes ops :: "('t, 'n, 'a) array_ops"
  shows "array_laws ops \<Longrightarrow> cuts ns n \<Longrightarrow> batch_of ops n p \<Longrightarrow> splits_back ops ns p"
    and "array_laws ops \<Longrightarrow> cuts ns n \<Longrightarrow> batch_items ops n kvs \<Longrightarrow> length shards0 = length ns \<Longrightarrow>
      \<forall>s \<in> set shards0. fst ` set s \<inter> fst ` set kvs = {} \<Longrightarrow>
      \<exists>cols. columns ops (length ns) kvs cols
        \<and> split_items ops kvs ns shards0 = Inr (map2 (@) shards0 (dict_rows (length ns) cols))"
proof (induction ops n p and ops n kvs arbitrary: and shards0 rule: batch_of_batch_items.induct)
  case (1 ops n x)
  then show ?case
    using merge_scalars [of ops x "length ns"]
    by (auto simp: splits_back_def cuts_def map_replicate_const)
next
  case (5 ops n kvs)
  have d: "batch_items ops n kvs \<Longrightarrow> distinct (map fst kvs)" for kvs :: "(string \<times> ('t, 'n, 'a) payload) list"
    by (induction kvs) (simp_all, force)
  obtain cols where cols: "columns ops (length ns) kvs cols"
      "split_items ops kvs ns (map (\<lambda>_. []) ns)
        = Inr (map2 (@) (map (\<lambda>_. []) ns) (dict_rows (length ns) cols))"
    using 5(1) [of "map (\<lambda>_. []) ns"] 5(2-) by auto
  have "map2 (@) (map (\<lambda>_. []) ns) (dict_rows (length ns) cols) = dict_rows (length ns) cols"
    by (rule nth_equalityI) (auto simp: dict_rows_def)
  with cols 5 d [of kvs] merge_dict_rows [OF cols(1)] show ?case
    by (auto simp: splits_back_def cuts_def dict_rows_def)
next
  case (7 ops n)
  have "map2 (@) shards0 (dict_rows (length ns) []) = shards0"
    using 7 by (intro nth_equalityI) (auto simp: dict_rows_def)
  then show ?case by (auto simp: columns_def)
next
  case (8 ops n k v kvs)
  have new: "\<forall>s \<in> set shards0. k \<notin> fst ` set s" using 8(7) by auto
  obtain c where c: "length c = length ns" "merge_batches ops c = Inr v"
    and step: "split_items ops ((k, v) # kvs) ns shards0
             = split_items ops kvs ns (map2 (\<lambda>s v. s @ [(k, v)]) shards0 c)"
  proof (cases "v = PNone")
    case True
    have "map (\<lambda>s. s @ [(k, PNone)]) shards0
        = map2 (\<lambda>s v. s @ [(k, v)]) shards0 (replicate (length ns) PNone)"
      using 8(6) by (intro nth_equalityI) auto
    with True that [of "replicate (length ns) PNone"] new show ?thesis
      using 8(4) by (auto simp: merge_nones cuts_def update_all_new)
  next
    case False
    with 8 have "splits_back ops ns v" by auto
    then obtain c where "split_batch ops v ns = Inr c" "length c = length ns"
        "merge_batches ops c = Inr v" by (auto simp: splits_back_def)
    with False that [of c] new 8(6) show ?thesis by (auto simp: set_shards_new)
  qed
  let ?shards = "map2 (\<lambda>s v. s @ [(k, v)]) shards0 c"
  have "\<forall>s \<in> set ?shards. fst ` set s \<inter> fst ` set kvs = {}"
    using 8(5,7) by (auto simp: set_zip) (metis IntI empty_iff fst_conv image_eqI insertCI nth_mem)+
  moreover have "length ?shards = length ns" using c 8(6) by simp
  ultimately obtain cols where "columns ops (length ns) kvs cols"
      "split_items ops kvs ns ?shards = Inr (map2 (@) ?shards (dict_rows (length ns) cols))"
    using 8(2) [of ?shards] 8(3-5) by auto
  with c step 8(6) dict_rows_step [of shards0 "length ns" c k cols] show ?case
    by (intro exI [of _ "(k, c) # cols"]) (auto simp: columns_def)
qed (auto intro: splits_back_tensor splits_back_array splits_back_list)

section \<open>Property\<close>

text \<open>Tensors and arrays as lists of rows: an instance of the two libraries' operations.\<close>

definition list_array_ops :: "('a list, 'a list, 'a) array_ops" where
  "list_array_ops = \<lparr>
     t_split = \<lambda>t ns. Inr (split_list_rows t 0 ns), t_cat = \<lambda>ts. Inr (concat ts), t_len = \<lambda>t. int (length t),
     n_split = \<lambda>a cs. Inr (map2 (\<lambda>i j. py_slice a i j) (0 # cs) (cs @ [int (length a)])),
     n_concat = \<lambda>as. Inr (concat as), n_len = \<lambda>a. int (length a),
     o_iter = \<lambda>_. Inl TypeError, o_eq = \<lambda>p q. Inr (p = q)\<rparr>"

lemma split_rows_at_cuts:
  assumes "ns \<noteq> []" "\<forall>n \<in> set ns. 0 \<le> n" "0 \<le> i"
  shows "map2 (\<lambda>i j. py_slice a i j) (i # cumsum i (butlast ns)) (cumsum i (butlast ns) @ [i + sum_list ns])
       = split_list_rows a i ns"
  using assms
proof (induction ns arbitrary: i)
  case (Cons n ns)
  then show ?case using Cons.IH [of "i + n"] by (cases "ns = []") (auto simp: add.assoc)
qed simp

lemma array_laws_list: "array_laws list_array_ops"
proof -
  have rows: "concat (split_list_rows xs 0 ns) = xs"
    if "\<forall>n \<in> set ns. 0 \<le> n" "sum_list ns = int (length xs)" for xs :: "'a list" and ns
    using that by (subst concat_split_list_rows) auto
  have cut: "map2 (\<lambda>i j. py_slice a i j) (0 # cumsum 0 (butlast ns)) (cumsum 0 (butlast ns) @ [int (length a)])
      = split_list_rows a 0 ns"
    if "ns \<noteq> []" "\<forall>n \<in> set ns. 0 \<le> n" "sum_list ns = int (length a)" for a :: "'a list" and ns
    using split_rows_at_cuts [of ns 0 a] that by simp
  show ?thesis
    unfolding array_laws_def list_array_ops_def array_ops.simps
  proof (intro conjI allI impI)
    fix t :: "'a list" and ns :: "int list"
    assume "\<forall>n \<in> set ns. 0 \<le> n" "sum_list ns = int (length t)"
    then show "\<exists>ts. Inr (split_list_rows t 0 ns) = Inr ts \<and> length ts = length ns \<and> Inr (concat ts) = Inr t"
      by (simp add: rows)
  next
    fix a :: "'a list" and ns :: "int list"
    assume ns: "ns \<noteq> []" "\<forall>n \<in> set ns. 0 \<le> n" "sum_list ns = int (length a)"
    show "\<exists>as. Inr (map2 (\<lambda>i j. py_slice a i j) (0 # cumsum 0 (butlast ns))
          (cumsum 0 (butlast ns) @ [int (length a)])) = Inr as
        \<and> length as = length ns \<and> Inr (concat as) = Inr a"
      by (rule exI [of _ "split_list_rows a 0 ns"])
        (intro conjI arg_cong [of _ _ Inr] cut [OF ns] rows [OF ns(2,3)] split_list_rows_length)
  qed simp_all
qed

text \<open>
  C2. Splitting then merging is the identity: any payload that is a batch of \<open>n\<close> rows
  (scalars, tensors, arrays, lists, dictionaries of them with \<open>None\<close> values, nested to
  any depth) splits without an exception at any sizes that add up to \<open>n\<close>, into one
  shard per size, and \<open>merge_batches\<close> of the shards returns the payload unchanged.
\<close>

theorem split_merge_roundtrip:
  assumes "array_laws ops" and "cuts ns n" and "batch_of ops n p"
  shows "\<exists>shards. split_batch ops p ns = Inr shards \<and> length shards = length ns
    \<and> merge_batches ops shards = Inr p"
  using splits_back_all(1) [OF assms] by (simp add: splits_back_def)

theorem split_merge_roundtrip_witness:
  "\<exists>shards. split_batch list_array_ops
       (PDict [(''obs'', PTensor [1, 2, 3]), (''mask'', PNone), (''ids'', PList [7, 8, 9]), (''lr'', PScalar 5)])
       [2, 1] = Inr shards \<and> length shards = 2
     \<and> merge_batches list_array_ops shards
       = Inr (PDict [(''obs'', PTensor [1, 2, 3]), (''mask'', PNone), (''ids'', PList [7, 8, 9]), (''lr'', PScalar (5::int))])"
  using split_merge_roundtrip [OF array_laws_list, of "[2, 1]" 3
    "PDict [(''obs'', PTensor [1, 2, 3]), (''mask'', PNone), (''ids'', PList [7, 8, 9]), (''lr'', PScalar (5::int))]"]
  by (simp add: cuts_def list_array_ops_def)

end
