(* ===== verification/Route_Plan.thy ===== *)
theory Route_Plan
  imports Comm_Mapper Py_Text Batch_Payload
begin

text \<open>
  Route plans of \<^verbatim>\<open>rlinf/scheduler/worker/routing.py\<close> and their use by
  \<open>Worker.send_to\<close> and \<open>Worker.recv_from\<close> of \<^verbatim>\<open>rlinf/scheduler/worker/worker.py\<close>:
  channel keys, channel messages, the send and receive plans of the normal and
  of the decoupled mode, the transfers a worker issues for a payload, and the
  merge of what it receives.
\<close>

section \<open>Keys and messages\<close>

text \<open>A route key is \<open>None\<close>, a string, or an object of which only \<open>repr\<close> is used.\<close>

datatype 'o route_key = KeyNone | KeyStr string | KeyObj 'o

definition ROUTING_KEY_PREFIX :: string where "ROUTING_KEY_PREFIX = ''scheduler_route''"
definition ROUTING_DEFAULT_TAG :: string where "ROUTING_DEFAULT_TAG = ''default''"

text \<open>How an f-string renders an optional value.\<close>

definition opt_text :: "('a \<Rightarrow> string) \<Rightarrow> 'a option \<Rightarrow> string" where
  "opt_text f x = (case x of None \<Rightarrow> ''None'' | Some v \<Rightarrow> f v)"

definition build_channel_message ::
    "int option \<Rightarrow> int \<Rightarrow> string option \<Rightarrow> string option \<Rightarrow> string" where
  "build_channel_message send_rank batch_idx mode tag =
     opt_text int_str send_rank @ ''_'' @ int_str batch_idx @ ''_'' @ opt_text id mode @ ''_''
       @ opt_text id tag"

definition split_channel_message :: "string \<Rightarrow> (int \<times> int \<times> string \<times> string) res" where
  "split_channel_message channel_message =
     (case py_splitn (CHR ''_'') 3 channel_message of
        [send_rank, batch_idx, mode, tag] \<Rightarrow>
          rbind (py_int send_rank) (\<lambda>r. rbind (py_int batch_idx) (\<lambda>i. Inr (r, i, mode, tag)))
      | _ \<Rightarrow> Inl ValueError)"

definition build_channel_key :: "int \<Rightarrow> int \<Rightarrow> string \<Rightarrow> string" where
  "build_channel_key src_rank dst_rank extra =
     int_str src_rank @ ''_'' @ int_str dst_rank @ ''_'' @ extra"

definition normalize_route_tag :: "string option \<Rightarrow> string" where
  "normalize_route_tag tag =
     (case tag of None \<Rightarrow> ROUTING_DEFAULT_TAG
      | Some t \<Rightarrow> if t = [] then ROUTING_DEFAULT_TAG else t)"

definition normalize_route_key :: "('o \<Rightarrow> string) \<Rightarrow> 'o route_key \<Rightarrow> string" where
  "normalize_route_key repr route_key =
     (case route_key of KeyNone \<Rightarrow> [] | KeyStr s \<Rightarrow> s | KeyObj x \<Rightarrow> repr x)"

type_synonym channel_key = "string \<times> string \<times> string \<times> string \<times> string \<times> int option \<times> int option"

definition build_route_channel_key ::
    "('o \<Rightarrow> string) \<Rightarrow> string \<Rightarrow> string \<Rightarrow> int option \<Rightarrow> int option \<Rightarrow> string option
      \<Rightarrow> 'o route_key \<Rightarrow> channel_key" where
  "build_route_channel_key repr src_group_name dst_group_name src_rank dst_rank tag route_key =
     (ROUTING_KEY_PREFIX, src_group_name, dst_group_name, normalize_route_tag tag,
      normalize_route_key repr route_key, src_rank, dst_rank)"

definition build_send_key ::
    "('o \<Rightarrow> string) \<Rightarrow> string \<Rightarrow> string \<Rightarrow> int \<Rightarrow> int \<Rightarrow> string option \<Rightarrow> 'o route_key \<Rightarrow> channel_key" where
  "build_send_key repr src_group_name dst_group_name src_rank dst_rank tag route_key =
     build_route_channel_key repr src_group_name dst_group_name (Some src_rank) (Some dst_rank) tag route_key"

text \<open>The manager proxy is used through one lookup: the world size registered for a group.\<close>

definition get_group_info :: "(string \<Rightarrow> 'info option) \<Rightarrow> string \<Rightarrow> 'info res" where
  "get_group_info manager_proxy group_name =
     (case manager_proxy group_name of None \<Rightarrow> Inl ValueError | Some info \<Rightarrow> Inr info)"

definition get_group_world_size ::
    "(string \<Rightarrow> 'info option) \<Rightarrow> ('info \<Rightarrow> int) \<Rightarrow> string \<Rightarrow> int res" where
  "get_group_world_size manager_proxy group_world_size group_name =
     rbind (get_group_info manager_proxy group_name) (\<lambda>info. Inr (group_world_size info))"

section \<open>Plans\<close>

record route_entry =
  peer_rank :: int
  entry_size :: "int option"
  entry_key :: channel_key

record decoupled_entry =
  d_size :: "int option"
  d_key :: channel_key
  d_batch_index :: "string option"

record ('o, 'e) route_plan =
  src_group :: string
  dst_group :: string
  plan_src_rank :: "int option"
  plan_dst_rank :: "int option"
  src_world :: int
  dst_world :: int
  plan_tag :: string
  plan_route_key :: "'o route_key"
  entries :: "'e list"

definition build_send_plan ::
    "('o \<Rightarrow> string) \<Rightarrow> string \<Rightarrow> string \<Rightarrow> int \<Rightarrow> int \<Rightarrow> int \<Rightarrow> string option \<Rightarrow> 'o route_key \<Rightarrow> int
      \<Rightarrow> ('o, route_entry) route_plan comp" where
  "build_send_plan repr src_group_name dst_group_name src_rank src_world_size dst_world_size tag
      route_key batch_size =
     cbind (get_dst_ranks batch_size src_world_size dst_world_size src_rank) (\<lambda>xs.
     Some (Inr \<lparr>
       src_group = src_group_name, dst_group = dst_group_name,
       plan_src_rank = Some src_rank, plan_dst_rank = None,
       src_world = src_world_size, dst_world = dst_world_size,
       plan_tag = normalize_route_tag tag, plan_route_key = route_key,
       entries = map (\<lambda>(dst_rank, n). \<lparr>
         peer_rank = dst_rank, entry_size = Some n,
         entry_key = build_route_channel_key repr src_group_name dst_group_name
                       (Some src_rank) (Some dst_rank) tag route_key\<rparr>) xs\<rparr>))"

definition build_recv_plan ::
    "('o \<Rightarrow> string) \<Rightarrow> string \<Rightarrow> string \<Rightarrow> int \<Rightarrow> int \<Rightarrow> int \<Rightarrow> string option \<Rightarrow> 'o route_key \<Rightarrow> int
      \<Rightarrow> ('o, route_entry) route_plan comp" where
  "build_recv_plan repr src_group_name dst_group_name dst_rank src_world_size dst_world_size tag
      route_key batch_size =
     cbind (get_src_ranks batch_size src_world_size dst_world_size dst_rank) (\<lambda>xs.
     Some (Inr \<lparr>
       src_group = src_group_name, dst_group = dst_group_name,
       plan_src_rank = None, plan_dst_rank = Some dst_rank,
       src_world = src_world_size, dst_world = dst_world_size,
       plan_tag = normalize_route_tag tag, plan_route_key = route_key,
       entries = map (\<lambda>(src_rank, n). \<lparr>
         peer_rank = src_rank, entry_size = Some n,
         entry_key = build_route_channel_key repr src_group_name dst_group_name
                       (Some src_rank) (Some dst_rank) tag route_key\<rparr>) xs\<rparr>))"

text \<open>
  The loop of the decoupled send plan: \<open>tag\<close> is overwritten by the tag of each
  stored message, and \<open>send_rank\<close> keeps its value after the loop (\<open>None\<close> at the
  outer level: never assigned).
\<close>

fun decoupled_send_loop ::
    "('o \<Rightarrow> string) \<Rightarrow> string \<Rightarrow> string \<Rightarrow> int option \<Rightarrow> 'o route_key \<Rightarrow> string option
      \<Rightarrow> string list option \<Rightarrow> int \<Rightarrow> int list \<Rightarrow> string option \<Rightarrow> int option option
      \<Rightarrow> decoupled_entry list
      \<Rightarrow> (decoupled_entry list \<times> string option \<times> int option option) res" where
  "decoupled_send_loop repr src_group_name dst_group_name src_rank route_key mode tag_batch_router
      index [] tag send_rank acc = Inr (acc, tag, send_rank)"
| "decoupled_send_loop repr src_group_name dst_group_name src_rank route_key mode tag_batch_router
      index (n # ns) tag send_rank acc =
     rbind
       (case tag_batch_router of
          Some router \<Rightarrow>
            rbind (py_index router index) (\<lambda>batch_index.
            rbind (split_channel_message batch_index) (\<lambda>(r, _, _, t).
            Inr (batch_index, Some r, Some t)))
        | None \<Rightarrow> Inr (build_channel_message src_rank index mode tag, None, tag))
       (\<lambda>(batch_index, r, t).
        decoupled_send_loop repr src_group_name dst_group_name src_rank route_key mode tag_batch_router
          (index + 1) ns t (Some r)
          (acc @ [\<lparr>d_size = Some n,
                   d_key = build_route_channel_key repr src_group_name dst_group_name None r t route_key,
                   d_batch_index = Some batch_index\<rparr>]))"

definition decoupled_build_send_plan ::
    "('o \<Rightarrow> string) \<Rightarrow> string \<Rightarrow> string \<Rightarrow> int option \<Rightarrow> int \<Rightarrow> int \<Rightarrow> string option \<Rightarrow> 'o route_key
      \<Rightarrow> int \<Rightarrow> string option \<Rightarrow> string list option \<Rightarrow> int \<Rightarrow> ('o, decoupled_entry) route_plan res" where
  "decoupled_build_send_plan repr src_group_name dst_group_name src_rank src_world_size dst_world_size
      tag route_key batch_size mode tag_batch_router send_queue_size =
     rbind (decoupled_get_batch_size batch_size src_world_size dst_world_size send_queue_size) (\<lambda>ns.
     rbind (decoupled_send_loop repr src_group_name dst_group_name src_rank route_key mode
              tag_batch_router 0 ns tag None []) (\<lambda>(es, tag', send_rank).
     case send_rank of
       None \<Rightarrow> Inl UnboundLocalError
     | Some r \<Rightarrow> Inr \<lparr>
         src_group = src_group_name, dst_group = dst_group_name,
         plan_src_rank = None, plan_dst_rank = r,
         src_world = src_world_size, dst_world = dst_world_size,
         plan_tag = normalize_route_tag tag', plan_route_key = route_key, entries = es\<rparr>))"

definition decoupled_build_recv_plan ::
    "('o \<Rightarrow> string) \<Rightarrow> string \<Rightarrow> string \<Rightarrow> int option \<Rightarrow> int \<Rightarrow> int \<Rightarrow> string option \<Rightarrow> 'o route_key
      \<Rightarrow> int \<Rightarrow> int \<Rightarrow> ('o, decoupled_entry) route_plan res" where
  "decoupled_build_recv_plan repr src_group_name dst_group_name recv_rank src_world_size dst_world_size
      tag route_key batch_size recv_queue_size =
     rbind (decoupled_get_batch_size batch_size src_world_size dst_world_size recv_queue_size) (\<lambda>ns.
     Inr \<lparr>
       src_group = src_group_name, dst_group = dst_group_name,
       plan_src_rank = None, plan_dst_rank = None,
       src_world = src_world_size, dst_world = dst_world_size,
       plan_tag = normalize_route_tag tag, plan_route_key = route_key,
       entries = map (\<lambda>n. \<lparr>
         d_size = Some n,
         d_key = build_route_channel_key repr src_group_name dst_group_name None recv_rank tag route_key,
         d_batch_index = None\<rparr>) ns\<rparr>)"

section \<open>Properties\<close>

text \<open>
  The two sides of a route use the same keys: an entry for destination \<open>k\<close> stands in
  the send plan of source \<open>r\<close> exactly when the entry for \<open>r\<close> with the same size and
  the same channel key stands in the receive plan of \<open>k\<close>, for every pair of ranks;
  and the keys of two different pairs differ.
\<close>

lemma plans_agree:
  assumes "valid_worlds b S D" "0 \<le> r" "r < S" "0 \<le> k" "k < D"
  shows "\<exists>p q.
     build_send_plan repr src dst r S D tag rk b = Some (Inr p) \<and>
     build_recv_plan repr src dst k S D tag rk b = Some (Inr q) \<and>
     (\<forall>n c. \<lparr>peer_rank = k, entry_size = n, entry_key = c\<rparr> \<in> set (entries p) \<longleftrightarrow>
            \<lparr>peer_rank = r, entry_size = n, entry_key = c\<rparr> \<in> set (entries q)) \<and>
     (\<forall>e \<in> set (entries p). \<forall>e' \<in> set (entries q).
        entry_key e = entry_key e' \<longleftrightarrow> peer_rank e = k \<and> peer_rank e' = r)"
  using assms
  by (auto simp: build_send_plan_def build_recv_plan_def get_dst_ranks_eq get_src_ranks_eq
      build_route_channel_key_def image_iff dst_shards_mem shard_size_swap [of b D S])
    (rule bexI [of _ "(r, shard_size b S D r k)"] bexI [of _ "(k, shard_size b S D r k)"],
     simp, simp add: dst_shards_mem shard_size_swap [of b D S])+

lemma split_build_message:
  assumes "CHR ''_'' \<notin> set mode"
  shows "split_channel_message (build_channel_message (Some r) i (Some mode) (Some tag)) = Inr (r, i, mode, tag)"
proof -
  have "py_splitn CHR ''_'' 3 (int_str r @ CHR ''_'' # int_str i @ CHR ''_'' # mode @ CHR ''_'' # tag)
      = [int_str r, int_str i, mode, tag]"
    using assms int_str_no_sep(1) by (simp add: numeral_3_eq_3 py_splitn_cut)
  then show ?thesis
    by (simp add: split_channel_message_def build_channel_message_def opt_text_def)
qed

text \<open>
  Channel messages round-trip: splitting a message gives back the sender's rank,
  the batch index, the mode and the tag, for any integers and any tag (underscores
  included), as long as the mode itself has no underscore.
\<close>

lemma channel_message_roundtrip:
  assumes "CHR ''_'' \<notin> set mode"
  shows "split_channel_message (build_channel_message (Some r) i (Some mode) (Some tag)) = Inr (r, i, mode, tag)"
  using split_build_message [OF assms] .

lemma decoupled_send_loop_router:
  assumes "\<forall>(r, i, m, t) \<in> set routes. CHR ''_'' \<notin> set m"
    and "length ns = length routes" "0 \<le> index"
    and "length pre = nat index"
  shows "decoupled_send_loop repr src dst src_rank rk mode
      (Some (pre @ map (\<lambda>(r, i, m, t). build_channel_message (Some r) i (Some m) (Some t)) routes))
      index ns tag send_rank acc
    = Inr (acc @ map2 (\<lambda>(r, i, m, t) n. \<lparr>d_size = Some n,
             d_key = build_route_channel_key repr src dst None (Some r) (Some t) rk,
             d_batch_index = Some (build_channel_message (Some r) i (Some m) (Some t))\<rparr>) routes ns,
           if routes = [] then tag else Some (snd (snd (snd (last routes)))),
           if routes = [] then send_rank else Some (Some (fst (last routes))))"
  using assms
proof (induction routes arbitrary: ns index pre tag send_rank acc)
  case (Cons x routes)
  obtain r i m t where x: "x = (r, i, m, t)" by (cases x)
  from Cons.prems obtain n ns' where ns: "ns = n # ns'" by (cases ns) auto
  let ?msg = "\<lambda>(r, i, m, t). build_channel_message (Some r) i (Some m) (Some t)"
  have "py_index (pre @ map ?msg (x # routes)) index = Inr (?msg x)"
    using Cons.prems by (simp add: py_index_def nth_append)
  moreover have "split_channel_message (?msg x) = Inr (r, i, m, t)"
    using Cons.prems x by (simp add: split_build_message)
  moreover have "length (pre @ [?msg x]) = nat (index + 1)"
    using Cons.prems by simp
  ultimately show ?case
    using Cons.IH [of ns' "index + 1" "pre @ [?msg x]"] Cons.prems x ns by simp
qed simp

text \<open>
  The key with the mode in front of the tag, as the docstring of \<open>send_to\<close> describes the
  reply, is another one.
\<close>

lemma reply_misses_mode_tag:
  "build_route_channel_key repr src dst None (Some r) (Some t) rk
    \<noteq> build_route_channel_key repr src dst None (Some r) (Some (m @ ''_'' @ t)) rk"
proof (cases "t = []")
  case True
  have "m @ ''_'' \<noteq> ''default''" using arg_cong [of "m @ ''_''" "''default''" last] by auto
  then show ?thesis using True by (auto simp: build_route_channel_key_def normalize_route_tag_def ROUTING_DEFAULT_TAG_def)
next
  case False
  then show ?thesis by (auto simp: build_route_channel_key_def normalize_route_tag_def)
qed

text \<open>
  C5. Replies in decoupled mode go home: when the batch indices stored for a tag were
  produced by senders \<open>r\<^sub>0, r\<^sub>1, \<dots>\<close>, the send plan addresses its \<open>i\<close>-th shard to the
  sender of the \<open>i\<close>-th batch, under exactly the key that this rank's receive plan
  for the tag of the batch index listens on, and hands the same batch index back. The
  mode takes no part in this, neither the argument nor the mode in the batch index: a
  receiver that listens under \<open>mode_tag\<close>, which the docstring of \<open>send_to\<close> promises for a
  mode and the environment worker does, is not reached by this path. (The rollout worker
  replies by a function of its own, which adds the mode.)
\<close>

theorem decoupled_reply_route:
  assumes "decoupled_get_batch_size b S D q = Inr ns" "length ns = length routes" "routes \<noteq> []"
    and "\<forall>(r, i, m, t) \<in> set routes. CHR ''_'' \<notin> set m"
    and "decoupled_get_batch_size b' S' D' q' = Inr ns'"
    and "j < length routes" "routes ! j = (r, i, m, t)"
  shows "\<exists>p p'.
     decoupled_build_send_plan repr src dst None S D tag rk b mode
       (Some (map (\<lambda>(r, i, m, t). build_channel_message (Some r) i (Some m) (Some t)) routes)) q = Inr p \<and>
     decoupled_build_recv_plan repr src dst (Some r) S' D' (Some t) rk b' q' = Inr p' \<and>
     length (entries p) = length routes \<and>
     d_size (entries p ! j) = Some (ns ! j) \<and>
     d_batch_index (entries p ! j) = Some (build_channel_message (Some r) i (Some m) (Some t)) \<and>
     (\<forall>e \<in> set (entries p'). d_key e = d_key (entries p ! j)) \<and>
     d_key (entries p ! j) \<noteq> build_route_channel_key repr src dst None (Some r) (Some (m @ ''_'' @ t)) rk"
proof -
  let ?entry = "\<lambda>(r, i, m, t) n. \<lparr>d_size = Some n,
     d_key = build_route_channel_key repr src dst None (Some r) (Some t) rk,
     d_batch_index = Some (build_channel_message (Some r) i (Some m) (Some t))\<rparr>"
  have loop: "decoupled_send_loop repr src dst None rk mode
      (Some (map (\<lambda>(r, i, m, t). build_channel_message (Some r) i (Some m) (Some t)) routes)) 0 ns tag None []
    = Inr (map2 ?entry routes ns, Some (snd (snd (snd (last routes)))), Some (Some (fst (last routes))))"
  proof -
    have "length ([] :: string list) = nat 0" by simp
    from decoupled_send_loop_router [where repr = repr and src = src and dst = dst and src_rank = None
        and rk = rk and mode = mode and tag = tag and send_rank = None and acc = "[]",
        OF assms(4,2) order.refl this]
    show ?thesis
      by (simp only: append_Nil assms(3) if_False)
  qed
  have nth: "map2 ?entry routes ns ! j = ?entry (r, i, m, t) (ns ! j)"
    using assms(2,6,7) by simp
  show ?thesis
    by (intro exI conjI, simp only: decoupled_build_send_plan_def assms(1) rbind_simps loop prod.case option.case,
        simp only: decoupled_build_recv_plan_def assms(5) rbind_simps)
      (use assms(2) nth reply_misses_mode_tag [of repr src dst r t rk m] in \<open>auto\<close>)
qed

theorem decoupled_reply_route_witness:
  "\<exists>p p'.
     decoupled_build_send_plan id ''rollout'' ''env'' None 1 2 None KeyNone 8 None
       (Some (map (\<lambda>(r, i, m, t). build_channel_message (Some r) i (Some m) (Some t))
         [(1, 0, ''train'', ''res''), (0, 0, ''eval'', ''res'')])) 0 = Inr p \<and>
     decoupled_build_recv_plan id ''rollout'' ''env'' (Some 1) 2 1 (Some ''res'') KeyNone 8 0 = Inr p' \<and>
     length (entries p) = 2 \<and>
     d_size (entries p ! 0) = Some 4 \<and>
     d_batch_index (entries p ! 0) = Some (build_channel_message (Some 1) 0 (Some ''train'') (Some ''res'')) \<and>
     (\<forall>e \<in> set (entries p'). d_key e = d_key (entries p ! 0)) \<and>
     d_key (entries p ! 0) \<noteq> build_route_channel_key id ''rollout'' ''env'' None (Some 1) (Some ''train_res'') KeyNone"
proof -
  have "decoupled_get_batch_size 8 1 2 0 = Inr [4, 4]" "decoupled_get_batch_size 8 2 1 0 = Inr [4]"
    by (simp_all add: decoupled_get_batch_size_def py_range_def upto_rec1)
  then show ?thesis
    using decoupled_reply_route [of 8 1 2 0 "[4, 4]" "[(1, 0, ''train'', ''res''), (0, 0, ''eval'', ''res'')]"
      8 2 1 0 "[4]" 0 1 0 "''train''" "''res''" id "''rollout''" "''env''" None KeyNone None]
    by (simp add: numeral_2_eq_2)
qed

end
