(* ===== verification/Worker_Route.thy ===== *)
theory Worker_Route
  imports Route_Plan
begin

text \<open>
  \<open>Worker.send_to\<close> and \<open>Worker.recv_from\<close> of \<^verbatim>\<open>rlinf/scheduler/worker/worker.py\<close>:
  the transfers a worker issues for one payload, the requests a receiver makes,
  and \<open>_finalize\<close>, which unwraps, validates and merges what arrived. Transfers
  themselves (the channel, the collective group) are components of their own; here
  they are data, and a receiver gets the answers through a \<open>fetch\<close> function.
\<close>

section \<open>Worker, transfers, requests\<close>

text \<open>
  \<open>batch_router\<close> maps a tag (possibly \<open>None\<close>) to the batch indices stored for it;
  the attribute itself may be missing.
\<close>

record worker =
  w_group :: string
  w_rank :: int
  w_world_size :: int
  batch_router :: "(string option \<rightharpoonup> string list) option"

text \<open>A channel item is a payload, or the dictionary \<open>{"batch_index": \<dots>, "batch": \<dots>}\<close>.\<close>

datatype 'p item = Plain 'p | Routed "string option" 'p

datatype 'p transfer = PutChan channel_key "'p item" | P2PSend int 'p

datatype request = GetChan channel_key | P2PRecv int

section \<open>Sending\<close>

definition send_to ::
    "('o \<Rightarrow> string) \<Rightarrow> (string \<Rightarrow> int res) \<Rightarrow> ('t, 'n, 'a) array_ops \<Rightarrow> worker \<Rightarrow> string \<Rightarrow> bool
      \<Rightarrow> ('t, 'n, 'a) payload \<Rightarrow> 'o route_key \<Rightarrow> string option \<Rightarrow> string option \<Rightarrow> int option
      \<Rightarrow> (('t, 'n, 'a) payload \<Rightarrow> int list \<Rightarrow> ('t, 'n, 'a) payload list res) option
      \<Rightarrow> bool \<Rightarrow> bool \<Rightarrow> int \<Rightarrow> (('t, 'n, 'a) payload transfer list \<times> worker) comp" where
  "send_to repr group_world ops w group_name has_channel data route_key mode tag batch_size split_fn
      enable_p2p decoupled_mode send_queue_size =
     (if decoupled_mode \<and> enable_p2p then Some (Inl AssertionError)
      else if decoupled_mode \<and> batch_router w = None then Some (Inl AssertionError)
      else if \<not> enable_p2p \<and> \<not> has_channel then Some (Inl ValueError)
      else
        cbind (Some (group_world group_name)) (\<lambda>world_size.
        cbind (Some (case batch_size of
                 None \<Rightarrow> rbind (infer_batch_size ops data) (\<lambda>n. Inr (n * w_world_size w))
               | Some b \<Rightarrow> Inr b)) (\<lambda>b.
        let split = (case split_fn of None \<Rightarrow> split_batch ops | Some f \<Rightarrow> f) in
        if \<not> decoupled_mode then
          cbind (build_send_plan repr (w_group w) group_name (w_rank w) (w_world_size w) world_size
                   (case mode of None \<Rightarrow> tag | Some m \<Rightarrow> Some (m @ ''_'' @ opt_text id tag))
                   route_key b) (\<lambda>plan.
          cbind (Some (split data (map (the \<circ> entry_size) (entries plan)))) (\<lambda>payloads.
          Some (Inr (map (\<lambda>(e, p). if enable_p2p then P2PSend (peer_rank e) p
                                 else PutChan (entry_key e) (Plain p))
                       (zip (entries plan) payloads), w))))
        else
          let router = the (batch_router w);
              tag_batch_router = router tag;
              src_rank = (if tag \<in> dom router then None else Some (w_rank w))
          in
          cbind (Some (decoupled_build_send_plan repr (w_group w) group_name src_rank (w_world_size w)
                   world_size tag route_key b mode tag_batch_router send_queue_size)) (\<lambda>plan.
          let w' = (if tag_batch_router \<noteq> None
                    then w\<lparr>batch_router := Some (router(tag \<mapsto> []))\<rparr> else w)
          in
          cbind (Some (split data (map (the \<circ> d_size) (entries plan)))) (\<lambda>payloads.
          Some (Inr (map (\<lambda>(e, p). PutChan (d_key e) (Routed (d_batch_index e) p))
                       (zip (entries plan) payloads), w')))))))"

section \<open>Receiving\<close>

fun unwrap :: "'p item \<Rightarrow> (string \<times> 'p) res" where
  "unwrap (Plain p) = Inl KeyError"
| "unwrap (Routed None p) = Inl AttributeError"
| "unwrap (Routed (Some batch_index) p) = Inr (batch_index, p)"

text \<open>An item where a payload is expected: a dictionary whose first value is a string has no size.\<close>

fun plain :: "'p item \<Rightarrow> 'p res" where
  "plain (Plain p) = Inr p"
| "plain (Routed _ _) = Inl ValueError"

definition finalize ::
    "('t, 'n, 'a) array_ops \<Rightarrow> worker \<Rightarrow> bool
      \<Rightarrow> (('t, 'n, 'a) payload list \<Rightarrow> ('t, 'n, 'a) payload res) option
      \<Rightarrow> (('t, 'n, 'a) payload \<Rightarrow> int res) option \<Rightarrow> int option list
      \<Rightarrow> ('t, 'n, 'a) payload item list \<Rightarrow> (('t, 'n, 'a) payload option \<times> worker) res" where
  "finalize ops w decoupled_mode merge_fn infer_batch_size_fn expected_sizes received_items =
     (case received_items of
        [] \<Rightarrow> Inr (None, w)
      | first # _ \<Rightarrow>
          rbind
            (if \<not> decoupled_mode then rbind (rmap plain received_items) (\<lambda>ps. Inr (ps, w))
             else
               rbind (unwrap first) (\<lambda>(first_index, _).
               rbind (split_channel_message first_index) (\<lambda>(_, _, _, tag).
               let router = the (batch_router w) in
               case router (Some tag) of
                 Some stored \<Rightarrow>
                   rbind (rmap unwrap received_items) (\<lambda>us.
                   Inr (map snd us,
                        w\<lparr>batch_router := Some (router(Some tag \<mapsto> stored @ map fst us))\<rparr>))
               | None \<Rightarrow>
                   rbind (rmap (\<lambda>item. rbind (unwrap item) (\<lambda>(batch_index, p).
                            rbind (split_channel_message batch_index) (\<lambda>(_, batch_idx, _, _).
                            Inr (batch_idx, p)))) received_items) (\<lambda>us.
                   Inr (map snd (sort_key fst us), w)))))
            (\<lambda>(items, w').
          rbind (rmap (\<lambda>(p, e). validate_batch_size ops p e infer_batch_size_fn)
                   (zip items expected_sizes)) (\<lambda>_.
          rbind (case merge_fn of
                   Some f \<Rightarrow> f items
                 | None \<Rightarrow> (case items of [p] \<Rightarrow> Inr p | _ \<Rightarrow> merge_batches ops items)) (\<lambda>p.
          Inr (Some p, w')))))"

definition recv_from ::
    "('o \<Rightarrow> string) \<Rightarrow> (string \<Rightarrow> int res) \<Rightarrow> ('t, 'n, 'a) array_ops \<Rightarrow> worker \<Rightarrow> string \<Rightarrow> bool
      \<Rightarrow> 'o route_key \<Rightarrow> string option \<Rightarrow> int
      \<Rightarrow> (('t, 'n, 'a) payload list \<Rightarrow> ('t, 'n, 'a) payload res) option
      \<Rightarrow> (('t, 'n, 'a) payload \<Rightarrow> int res) option \<Rightarrow> bool \<Rightarrow> bool \<Rightarrow> int
      \<Rightarrow> (request \<Rightarrow> ('t, 'n, 'a) payload item comp)
      \<Rightarrow> (('t, 'n, 'a) payload option \<times> worker) comp" where
  "recv_from repr group_world ops w group_name has_channel route_key tag batch_size merge_fn
      infer_batch_size_fn enable_p2p decoupled_mode recv_queue_size fetch =
     (if decoupled_mode \<and> enable_p2p then Some (Inl AssertionError)
      else if decoupled_mode \<and> batch_router w = None then Some (Inl AssertionError)
      else if \<not> enable_p2p \<and> \<not> has_channel then Some (Inl ValueError)
      else
        cbind (Some (group_world group_name)) (\<lambda>world_size.
        if \<not> decoupled_mode then
          cbind (build_recv_plan repr group_name (w_group w) (w_rank w) world_size (w_world_size w)
                   tag route_key batch_size) (\<lambda>plan.
          cbind (cmap (\<lambda>e. fetch (if enable_p2p then P2PRecv (peer_rank e) else GetChan (entry_key e)))
                   (entries plan)) (\<lambda>items.
          Some (finalize ops w False merge_fn infer_batch_size_fn (map entry_size (entries plan)) items)))
        else
          let recv_rank = (if tag \<in> dom (the (batch_router w)) then None else Some (w_rank w)) in
          cbind (Some (decoupled_build_recv_plan repr group_name (w_group w) recv_rank (w_world_size w)
                   world_size tag route_key batch_size recv_queue_size)) (\<lambda>plan.
          cbind (cmap (\<lambda>e. fetch (GetChan (d_key e))) (entries plan)) (\<lambda>items.
          Some (finalize ops w True merge_fn infer_batch_size_fn (map d_size (entries plan)) items)))))"

section \<open>Rows\<close>

definition row_block :: "'a list \<Rightarrow> int \<Rightarrow> int \<Rightarrow> 'a list" where
  "row_block xs d k = take (nat d) (drop (nat (k * d)) xs)"

text \<open>Cutting an interval of rows at the cell borders gives the rows of each cell.\<close>

lemma split_rows_cells:
  assumes d: "0 < d" and bg0: "0 \<le> bg0"
  shows "bg0 \<le> bg \<Longrightarrow>
    split_list_rows (take (nat (en - bg0)) (drop (nat bg0) xs)) (bg - bg0) (map snd (cells d bg en))
    = map (\<lambda>(k, n). take (nat n) (drop (nat (max (k * d) bg)) xs)) (cells d bg en)"
proof (induction "nat (en - bg)" arbitrary: bg rule: less_induct)
  case less
  show ?case
  proof (cases "bg < en")
    case False
    then show ?thesis by (simp add: cells_def)
  next
    case True
    let ?k = "bg div d" let ?bg' = "min ((?k + 1) * d) en"
    let ?ys = "take (nat (en - bg0)) (drop (nat bg0) xs)"
    note step = cells_step [OF d True]
    have "py_slice ?ys (bg - bg0) (?bg' - bg0) = take (nat (?bg' - bg)) (drop (nat bg) xs)"
    proof -
      have "nat (?bg' - bg0) - nat (bg - bg0) = nat (?bg' - bg)" using step less.prems by simp
      moreover have "nat (bg - bg0) + nat bg0 = nat bg" using bg0 less.prems by simp
      moreover have "nat (?bg' - bg) \<le> nat (en - bg0) - nat (bg - bg0)"
        using step less.prems by simp
      moreover have "py_slice ?ys (int (nat (bg - bg0))) (int (nat (?bg' - bg0)))
          = take (nat (?bg' - bg0) - nat (bg - bg0)) (drop (nat (bg - bg0)) ?ys)"
        by (rule py_slice_nat)
      ultimately show ?thesis
        using step less.prems by (simp add: drop_take min_def)
    qed
    moreover have "split_list_rows ?ys (?bg' - bg0) (map snd (cells d ?bg' en))
        = map (\<lambda>(k, n). take (nat n) (drop (nat (max (k * d) ?bg')) xs)) (cells d ?bg' en)"
      using step less.prems True by (intro less.hyps) auto
    moreover have "map (\<lambda>(k, n). take (nat n) (drop (nat (max (k * d) ?bg')) xs)) (cells d ?bg' en)
        = map (\<lambda>(k, n). take (nat n) (drop (nat (max (k * d) bg)) xs)) (cells d ?bg' en)"
    proof (cases "?bg' < en")
      case inside: True
      then have bg': "?bg' = (?k + 1) * d" by (simp add: min_def split: if_splits)
      have "max (k * d) bg = max (k * d) ?bg'" if "k \<in> set [?bg' div d..(en - 1) div d]" for k
      proof -
        have "?bg' div d = ?k + 1" using d by (simp only: bg') simp
        with that have "(?k + 1) * d \<le> k * d" using d by (intro mult_right_mono) auto
        with bg' step(2) have "?bg' \<le> k * d" "bg \<le> k * d" by linarith+
        then show ?thesis by (simp only: max_def split: if_split) auto
      qed
      with inside show ?thesis by (auto simp: cells_def)
    qed (simp add: cells_def)
    moreover have "max (?k * d) bg = bg" using cell_bounds(1) [OF d, of bg] by simp
    ultimately show ?thesis using step(1) by (simp add: algebra_simps)
  qed
qed

lemma concat_rows_cells:
  assumes "0 < d" "0 \<le> bg" "bg \<le> en"
  shows "concat (map (\<lambda>(k, n). take (nat n) (drop (nat (max (k * d) bg)) xs)) (cells d bg en))
       = take (nat (en - bg)) (drop (nat bg) xs)"
proof -
  have "\<forall>n \<in> set (map snd (cells d bg en)). 0 \<le> n"
  proof -
    have "0 \<le> min ((k + 1) * d) en - max (k * d) bg" if "bg < en" "bg div d \<le> k" "k \<le> (en - 1) div d" for k
    proof -
      have "bg < (k + 1) * d" using that div_less_iff_int [OF assms(1), of bg "k + 1"] by simp
      moreover have "k * d \<le> en - 1" using that le_div_iff_int [OF assms(1), of k "en - 1"] by simp
      ultimately show ?thesis using assms(1) that(1) by (auto simp: min_def max_def algebra_simps)
    qed
    then show ?thesis by (auto simp: cells_def)
  qed
  then have "concat (split_list_rows (take (nat (en - bg)) (drop (nat bg) xs)) 0 (map snd (cells d bg en)))
      = take (nat (en - bg)) (drop (nat bg) xs)"
    using assms by (subst concat_split_list_rows) (auto simp: cells_sum)
  then show ?thesis using split_rows_cells [OF assms(1,2), of bg en xs] by simp
qed

text \<open>The shard that source \<open>r\<close> sends to destination \<open>k\<close>, as rows of the whole batch.\<close>

definition shard_rows :: "'a list \<Rightarrow> int \<Rightarrow> int \<Rightarrow> int \<Rightarrow> int \<Rightarrow> int \<Rightarrow> 'a list" where
  "shard_rows xs b S D r k =
     take (nat (shard_size b S D r k)) (drop (nat (max (k * (b div D)) (r * (b div S)))) xs)"

lemma shard_rows_swap: "shard_rows xs b S D r k = shard_rows xs b D S k r"
  by (simp add: shard_rows_def shard_size_swap max.commute)

lemma positive_widths:
  assumes "valid_worlds b S D" "b \<noteq> 0"
  shows "0 < b div S" "0 < b div D"
  using assms valid_worlds_nonneg [OF assms(1)] valid_worlds_zero [OF assms(1)]
    valid_worlds_zero [of b D S] by (auto simp: valid_worlds_swap order_less_le)

lemma row_block_eq:
  "0 \<le> k \<Longrightarrow> row_block xs d k = take (nat ((k + 1) * d - k * d)) (drop (nat (k * d)) xs)"
  by (simp add: row_block_def algebra_simps)

lemma split_block:
  assumes v: "valid_worlds b S D" "b \<noteq> 0" and r: "0 \<le> r" "r < S"
  shows "split_list_rows (row_block xs (b div S) r) 0 (map snd (dst_shards b S D r))
       = map (\<lambda>(k, n). shard_rows xs b S D r k) (dst_shards b S D r)"
proof -
  note w = positive_widths [OF v]
  have "split_list_rows (row_block xs (b div S) r) 0 (map snd (dst_shards b S D r))
      = map (\<lambda>(k, n). take (nat n) (drop (nat (max (k * (b div D)) (r * (b div S)))) xs)) (dst_shards b S D r)"
    using split_rows_cells [of "b div D" "r * (b div S)" "r * (b div S)" "(r + 1) * (b div S)" xs]
      w r cells_dst_shards [OF v(1) r v(2)] by (simp add: row_block_eq)
  then show ?thesis by (auto simp: dst_shards_def shard_rows_def)
qed

lemma concat_block:
  assumes v: "valid_worlds b S D" "b \<noteq> 0" and r: "0 \<le> r" "r < S"
  shows "concat (map (\<lambda>(k, n). shard_rows xs b S D r k) (dst_shards b S D r)) = row_block xs (b div S) r"
proof -
  note w = positive_widths [OF v]
  have "concat (map (\<lambda>(k, n). take (nat n) (drop (nat (max (k * (b div D)) (r * (b div S)))) xs)) (dst_shards b S D r))
      = row_block xs (b div S) r"
    using concat_rows_cells [of "b div D" "r * (b div S)" "(r + 1) * (b div S)" xs]
      w r cells_dst_shards [OF v(1) r v(2)] by (simp add: row_block_eq mult_right_mono)
  moreover have "map (\<lambda>(k, n). take (nat n) (drop (nat (max (k * (b div D)) (r * (b div S)))) xs)) (dst_shards b S D r)
      = map (\<lambda>(k, n). shard_rows xs b S D r k) (dst_shards b S D r)"
    by (auto simp: dst_shards_def shard_rows_def)
  ultimately show ?thesis by simp
qed

section \<open>End to end\<close>

text \<open>The transfers of source rank \<open>r\<close> and the first item put under a key.\<close>

definition shard_puts ::
    "('o \<Rightarrow> string) \<Rightarrow> string \<Rightarrow> string \<Rightarrow> string option \<Rightarrow> 'o route_key \<Rightarrow> 'a list
      \<Rightarrow> int \<Rightarrow> int \<Rightarrow> int \<Rightarrow> int \<Rightarrow> ('t, 'n, 'a) payload transfer list" where
  "shard_puts repr src dst tag rk xs b S D r =
     map (\<lambda>(k, n). PutChan (build_route_channel_key repr src dst (Some r) (Some k) tag rk)
                    (Plain (PList (shard_rows xs b S D r k)))) (dst_shards b S D r)"

fun fetch_from :: "'p transfer list \<Rightarrow> request \<Rightarrow> 'p item comp" where
  "fetch_from (PutChan key x # ts) (GetChan key') =
     (if key = key' then Some (Inr x) else fetch_from ts (GetChan key'))"
| "fetch_from (_ # ts) req = fetch_from ts req"
| "fetch_from [] req = None"

lemma fetch_from_unique:
  "PutChan key x \<in> set ts \<Longrightarrow> \<forall>y. PutChan key y \<in> set ts \<longrightarrow> y = x \<Longrightarrow>
   fetch_from ts (GetChan key) = Some (Inr x)"
proof (induction ts)
  case (Cons t ts)
  show ?case
  proof (cases "t = PutChan key x")
    case False
    from Cons.prems(1) have "t = PutChan key x \<or> PutChan key x \<in> set ts" by auto
    with False have "PutChan key x \<in> set ts" by blast
    then have "fetch_from ts (GetChan key) = Some (Inr x)"
      using Cons.IH Cons.prems(2) list.set_intros(2) by metis
    moreover have "t \<noteq> PutChan key y" for y using False Cons.prems(2) list.set_intros(1) by metis
    ultimately show ?thesis by (cases t; fastforce)
  qed simp
qed simp

lemma send_to_normal:
  assumes "group_world dst = Inr D"
    and "build_send_plan repr (w_group w) dst (w_rank w) (w_world_size w) D tag rk b = Some (Inr plan)"
    and "split_batch ops data (map (the \<circ> entry_size) (entries plan)) = Inr ps"
  shows "send_to repr group_world ops w dst True data rk None tag (Some b) None False False q
       = Some (Inr (map (\<lambda>(e, p). PutChan (entry_key e) (Plain p)) (zip (entries plan) ps), w))"
  using assms by (simp add: send_to_def)

lemma send_plan_eq:
  assumes "valid_worlds b S D" "0 \<le> r" "r < S"
  shows "build_send_plan repr src dst r S D tag rk b = Some (Inr \<lparr>
     src_group = src, dst_group = dst, plan_src_rank = Some r, plan_dst_rank = None,
     src_world = S, dst_world = D, plan_tag = normalize_route_tag tag, plan_route_key = rk,
     entries = map (\<lambda>(k, n). \<lparr>peer_rank = k, entry_size = Some n,
       entry_key = build_route_channel_key repr src dst (Some r) (Some k) tag rk\<rparr>) (dst_shards b S D r)\<rparr>)"
  using assms by (simp add: build_send_plan_def get_dst_ranks_eq)

lemma recv_plan_eq:
  assumes "valid_worlds b S D" "0 \<le> k" "k < D"
  shows "build_recv_plan repr src dst k S D tag rk b = Some (Inr \<lparr>
     src_group = src, dst_group = dst, plan_src_rank = None, plan_dst_rank = Some k,
     src_world = S, dst_world = D, plan_tag = normalize_route_tag tag, plan_route_key = rk,
     entries = map (\<lambda>(r, n). \<lparr>peer_rank = r, entry_size = Some n,
       entry_key = build_route_channel_key repr src dst (Some r) (Some k) tag rk\<rparr>) (dst_shards b D S k)\<rparr>)"
  using assms by (simp add: build_recv_plan_def get_src_ranks_eq)

lemma send_to_list:
  fixes ops :: "('t, 'n, 'a) array_ops"
  assumes v: "valid_worlds b S D" "b \<noteq> 0" and r: "0 \<le> r" "r < S"
    and w: "w_group w = src" "w_rank w = r" "w_world_size w = S" and gw: "group_world dst = Inr D"
  shows "send_to repr group_world ops w dst True (PList (row_block xs (b div S) r)) rk None tag (Some b)
           None False False q
       = Some (Inr (shard_puts repr src dst tag rk xs b S D r, w))"
proof -
  have "split_batch ops (PList (row_block xs (b div S) r)) (map snd (dst_shards b S D r))
      = Inr (map (\<lambda>(k, n). PList (shard_rows xs b S D r k)) (dst_shards b S D r))"
    by (simp add: split_block [OF v r] split_def comp_def)
  then show ?thesis
    by (subst send_to_normal [where group_world = group_world, OF gw])
      (unfold w, rule send_plan_eq [OF v(1) r],
       auto simp: comp_def split_def shard_puts_def zip_map_map zip_same_conv_map)
qed

lemma finalize_plain:
  assumes "ps \<noteq> []"
  shows "finalize ops w False None None sizes (map Plain ps)
       = rbind (rmap (\<lambda>(p, e). validate_batch_size ops p e None) (zip ps sizes)) (\<lambda>_.
         rbind (merge_batches ops ps) (\<lambda>p. Inr (Some p, w)))"
proof -
  have "rmap plain (map Plain ps) = Inr ps" by (induction ps) auto
  moreover have "(case ps of [p] \<Rightarrow> Inr p | _ \<Rightarrow> merge_batches ops ps) = merge_batches ops ps"
    by (simp split: list.splits)
  moreover from assms obtain q qs where "map Plain ps = q # qs" by (cases ps) auto
  ultimately show ?thesis by (simp add: finalize_def)
qed

lemma recv_from_normal:
  assumes "group_world src = Inr S"
    and "build_recv_plan repr src (w_group w) (w_rank w) S (w_world_size w) tag rk b = Some (Inr plan)"
    and "cmap (\<lambda>e. fetch (GetChan (entry_key e))) (entries plan) = Some (Inr items)"
  shows "recv_from repr group_world ops w src True rk tag b None None False False q fetch
       = Some (finalize ops w False None None (map entry_size (entries plan)) items)"
  using assms by (simp add: recv_from_def)

lemma recv_from_list:
  fixes ops :: "('t, 'n, 'a) array_ops"
  assumes v: "valid_worlds b S D" "b \<noteq> 0" and k: "0 \<le> k" "k < D"
    and w: "w_group w = dst" "w_rank w = k" "w_world_size w = D" and gw: "group_world src = Inr S"
    and fetch: "\<And>r n. (r, n) \<in> set (dst_shards b D S k) \<Longrightarrow>
      fetch (GetChan (build_route_channel_key repr src dst (Some r) (Some k) tag rk))
        = Some (Inr (Plain (PList (shard_rows xs b S D r k))))"
    and len: "int (length xs) = b"
  shows "recv_from repr group_world ops w src True rk tag b None None False False q fetch
       = Some (Inr (Some (PList (row_block xs (b div D) k)), w))"
proof -
  let ?ss = "dst_shards b D S k"
  let ?items = "map (\<lambda>(r, n). PList (shard_rows xs b S D r k) :: ('t, 'n, 'a) payload) ?ss"
  have vD: "valid_worlds b D S" using v(1) by (simp add: valid_worlds_swap)
  have "sum_list (map snd ?ss) = b div D" using dst_shards_sum [OF vD k] .
  then have ne: "?ss \<noteq> []" using positive_widths(2) [OF v] by (cases ?ss) auto
  have size_ok: "int (length (shard_rows xs b S D r k)) = n" if "(r, n) \<in> set ?ss" for r n
  proof -
    from that have n: "0 \<le> r" "r < S" "0 < n" "n = shard_size b S D r k"
      by (auto simp: dst_shards_mem shard_size_swap)
    have "(k + 1) * (b div D) \<le> D * (b div D)" "(r + 1) * (b div S) \<le> S * (b div S)"
      using n k positive_widths [OF v] by (intro mult_right_mono; simp)+
    then have "max (k * (b div D)) (r * (b div S)) + n \<le> b"
      using n(4) valid_worlds_nonneg [OF v(1)] by (simp add: shard_size_def mult.commute)
    moreover have "0 \<le> k * (b div D)" using k positive_widths [OF v] by simp
    ultimately show ?thesis using n(3,4) len by (simp add: shard_rows_def)
  qed
  have concat: "concat (map (\<lambda>(r, n). shard_rows xs b S D r k) ?ss) = row_block xs (b div D) k"
    using concat_block [OF vD v(2) k, of xs] by (simp add: shard_rows_swap [of xs b S D])
  have merged: "merge_batches ops ?items = Inr (PList (row_block xs (b div D) k))"
    using merge_lists [of "map (\<lambda>(r, n). shard_rows xs b S D r k) ?ss" ops] ne concat
    by (simp add: comp_def split_def)
  let ?es = "map (\<lambda>(r, n). \<lparr>peer_rank = r, entry_size = Some n,
       entry_key = build_route_channel_key repr src dst (Some r) (Some k) tag rk\<rparr>) ?ss"
  have got: "cmap (\<lambda>e. fetch (GetChan (entry_key e))) ?es = Some (Inr (map Plain ?items))"
  proof -
    have "cmap (\<lambda>e. fetch (GetChan (entry_key e))) ?es
        = Some (Inr (map (\<lambda>e. Plain (PList (shard_rows xs b S D (peer_rank e) k))) ?es))"
      using fetch by (intro cmap_all) auto
    then show ?thesis by (simp add: comp_def split_def)
  qed
  have checked: "rmap (\<lambda>(p, e). validate_batch_size ops p e None) (zip ?items (map entry_size ?es))
      = Inr (map (\<lambda>_. ()) (zip ?items (map entry_size ?es)))"
    using size_ok
    by (intro rmap_all_Inr) (auto simp: validate_batch_size_def zip_map_map zip_same_conv_map)
  show ?thesis
    by (subst recv_from_normal [where group_world = group_world, OF gw], unfold w, rule recv_plan_eq [OF v(1) k])
      (unfold route_plan.simps, rule got, use ne in \<open>simp only: finalize_plain checked merged rbind_simps map_is_Nil_conv not_False_eq_True\<close>)
qed

text \<open>The key of a shard names its two ranks, so an item put under it is the shard of that pair.\<close>

lemma shard_puts_key:
  "PutChan (build_route_channel_key repr src dst (Some r) (Some k) tag rk) x
     \<in> set (shard_puts repr src dst tag rk xs b S D r') \<longleftrightarrow>
   r' = r \<and> 0 \<le> k \<and> k < D \<and> 0 < shard_size b S D r k \<and> x = Plain (PList (shard_rows xs b S D r k))"
  by (auto simp: shard_puts_def build_route_channel_key_def dst_shards_def)

lemma fetch_shard:
  assumes "(r, n) \<in> set (dst_shards b D S k)" "0 \<le> k" "k < D"
  shows "fetch_from (concat (map (shard_puts repr src dst tag rk xs b S D) (py_range S)))
           (GetChan (build_route_channel_key repr src dst (Some r) (Some k) tag rk))
       = Some (Inr (Plain (PList (shard_rows xs b S D r k))))"
proof -
  from assms have "0 \<le> r" "r < S" "0 < shard_size b S D r k"
    by (auto simp: dst_shards_mem shard_size_swap)
  with assms(2,3) show ?thesis
    by (intro fetch_from_unique) (auto simp: shard_puts_key)
qed

text \<open>
  C1. Routed delivery, end to end: every source rank \<open>r\<close> of a group of \<open>S\<close> workers calls
  \<open>send_to\<close> with its block of a batch of \<open>b\<close> rows; every destination rank \<open>k\<close> of a group
  of \<open>D\<close> workers calls \<open>recv_from\<close>. No call raises or hangs, every shard a receiver asks
  for has been put under the key it uses, and the receiver returns exactly its own
  block of the batch, in order, whatever the sizes of the two groups.
\<close>

theorem route_delivery:
  fixes ops :: "('t, 'n, 'a) array_ops" and snd_worker rcv_worker :: "int \<Rightarrow> worker"
  assumes "valid_worlds b S D" and "b \<noteq> 0" and "int (length xs) = b"
    and "\<And>r. w_group (snd_worker r) = src \<and> w_rank (snd_worker r) = r \<and> w_world_size (snd_worker r) = S"
    and "\<And>k. w_group (rcv_worker k) = dst \<and> w_rank (rcv_worker k) = k \<and> w_world_size (rcv_worker k) = D"
    and "group_world src = Inr S" and "group_world dst = Inr D"
  shows "\<exists>puts.
    (\<forall>r. 0 \<le> r \<and> r < S \<longrightarrow>
      send_to repr group_world ops (snd_worker r) dst True (PList (row_block xs (b div S) r)) rk None tag
        (Some b) None False False q = Some (Inr (puts r, snd_worker r))) \<and>
    (\<forall>k. 0 \<le> k \<and> k < D \<longrightarrow>
      recv_from repr group_world ops (rcv_worker k) src True rk tag b None None False False q
        (fetch_from (concat (map puts (py_range S))))
        = Some (Inr (Some (PList (row_block xs (b div D) k)), rcv_worker k)))"
proof (intro exI [of _ "shard_puts repr src dst tag rk xs b S D"] conjI allI impI)
  fix r assume "0 \<le> r \<and> r < S"
  with assms show "send_to repr group_world ops (snd_worker r) dst True (PList (row_block xs (b div S) r))
      rk None tag (Some b) None False False q
    = Some (Inr (shard_puts repr src dst tag rk xs b S D r, snd_worker r))"
    by (intro send_to_list) auto
next
  fix k assume "0 \<le> k \<and> k < D"
  with assms show "recv_from repr group_world ops (rcv_worker k) src True rk tag b None None False False q
      (fetch_from (concat (map (shard_puts repr src dst tag rk xs b S D) (py_range S))))
    = Some (Inr (Some (PList (row_block xs (b div D) k)), rcv_worker k))"
    by (intro recv_from_list) (simp_all, erule fetch_shard, simp_all)
qed

text \<open>Two senders, three receivers, six rows: receiver 1 gets rows 2 and 3.\<close>

theorem route_delivery_witness:
  "\<exists>fetch.
    recv_from id (\<lambda>g. Inr (if g = ''env'' then 2 else 3)) list_array_ops
      \<lparr>w_group = ''rollout'', w_rank = 1, w_world_size = 3, batch_router = None\<rparr> ''env'' True KeyNone None 6
      None None False False 0 fetch
    = Some (Inr (Some (PList [12, 13 :: nat]),
        \<lparr>w_group = ''rollout'', w_rank = 1, w_world_size = 3, batch_router = None\<rparr>))"
proof -
  let ?w = "\<lambda>g n r. \<lparr>w_group = g, w_rank = r, w_world_size = n, batch_router = None\<rparr>"
  have v: "valid_worlds 6 2 3" by (simp add: valid_worlds_def)
  have "row_block [10, 11, 12, 13, 14, 15 :: nat] (6 div 3) 1 = [12, 13]"
    by (simp add: row_block_def numeral_2_eq_2)
  moreover obtain puts where "\<forall>k. 0 \<le> k \<and> k < 3 \<longrightarrow>
      recv_from id (\<lambda>g. Inr (if g = ''env'' then 2 else 3)) list_array_ops (?w ''rollout'' 3 k) ''env'' True
        KeyNone None 6 None None False False 0 (fetch_from (concat (map puts (py_range 2))))
      = Some (Inr (Some (PList (row_block [10, 11, 12, 13, 14, 15 :: nat] (6 div 3) k)), ?w ''rollout'' 3 k))"
    using route_delivery [OF v, where xs = "[10, 11, 12, 13, 14, 15 :: nat]" and src = "''env''"
        and dst = "''rollout''" and snd_worker = "?w ''env'' 2" and rcv_worker = "?w ''rollout'' 3"
        and group_world = "\<lambda>g. Inr (if g = ''env'' then 2 else 3)" and repr = id and ops = list_array_ops
        and rk = KeyNone and tag = None and q = 0]
    by auto
  ultimately show ?thesis by (intro exI [of _ "fetch_from (concat (map puts (py_range 2)))"]) force
qed

end
