(* ===== verification/Partitioning.thy ===== *)
theory Partitioning
  imports Py_Prelude "HOL-Library.Multiset"
begin

text \<open>
  The interface between the partitioners of \<^verbatim>\<open>rlinf/utils/data_iter_utils.py\<close> and
  the code that cuts a batch along their partitions. A partitioner takes the
  sequence lengths and one more argument (the number of partitions, or the token
  threshold) and promises groups of indices that hold every index once.
\<close>

definition row_of :: "'a list \<Rightarrow> int \<Rightarrow> 'a" where
  "row_of xs i = xs ! nat i"

locale partitioner =
  fixes parts :: "int list \<Rightarrow> 'c \<Rightarrow> int list list res"
    and accepts :: "int list \<Rightarrow> 'c \<Rightarrow> bool"
  assumes parts_total: "accepts lens c \<Longrightarrow> \<exists>ps. parts lens c = Inr ps"
    and parts_cover: "accepts lens c \<Longrightarrow> parts lens c = Inr ps \<Longrightarrow>
      mset (concat ps) = mset (map int [0..<length lens])"
    and parts_nonempty: "accepts lens c \<Longrightarrow> parts lens c = Inr ps \<Longrightarrow> p \<in> set ps \<Longrightarrow> p \<noteq> []"
begin

lemma parts_range:
  assumes "accepts lens c" "parts lens c = Inr ps" "p \<in> set ps" "i \<in> set p"
  shows "0 \<le> i \<and> i < int (length lens)"
proof -
  have "set (concat ps) = set (map int [0..<length lens])" using parts_cover [OF assms(1,2)] by (metis set_mset_mset)
  with assms(3,4) have "i \<in> set (map int [0..<length lens])" by auto
  then show ?thesis by auto
qed

text \<open>A column of the batch, cut along the partitions, keeps each of its rows once.\<close>

lemma parts_rows:
  assumes "accepts lens c" "parts lens c = Inr ps" "length rows = length lens"
  shows "mset (concat (map (map (row_of rows)) ps)) = mset rows"
proof -
  have "mset (concat (map (map (row_of rows)) ps)) = image_mset (row_of rows) (mset (concat ps))"
    by (simp add: map_concat flip: mset_map)
  also have "\<dots> = mset (map (row_of rows) (map int [0..<length rows]))"
    unfolding parts_cover [OF assms(1,2)] assms(3) mset_map ..
  also have "map (row_of rows) (map int [0..<length rows]) = rows"
    by (rule nth_equalityI) (simp_all add: row_of_def)
  finally show ?thesis .
qed

lemma parts_count:
  assumes "accepts lens c" "parts lens c = Inr ps"
  shows "length ps \<le> length lens"
proof -
  have "length ps = sum_list (map (\<lambda>_. 1) ps)" by (simp add: sum_list_triv)
  also have "\<dots> \<le> sum_list (map length ps)"
    using parts_nonempty [OF assms] by (intro sum_list_mono) (simp add: Suc_leI)
  also have "\<dots> = length (concat ps)" by (simp add: length_concat)
  also have "\<dots> = length lens" using arg_cong [OF parts_cover [OF assms], of size] by simp
  finally show ?thesis .
qed

text \<open>With as many partitions as rows, every partition is a single row.\<close>

lemma parts_singletons:
  assumes "accepts lens c" "parts lens c = Inr ps" "length ps = length lens" "p \<in> set ps"
  shows "length p = 1"
proof (rule ccontr)
  assume "length p \<noteq> 1"
  with parts_nonempty [OF assms(1,2,4)] have "1 < length p" by (cases p) auto
  obtain xs ys where ps: "ps = xs @ p # ys" using assms(4) by (meson split_list)
  have ge: "length zs \<le> sum_list (map length zs)" if "set zs \<subseteq> set ps" for zs
  proof -
    have "length zs = sum_list (map (\<lambda>_. 1) zs)" by (simp add: sum_list_triv)
    also have "\<dots> \<le> sum_list (map length zs)"
      using parts_nonempty [OF assms(1,2)] that by (intro sum_list_mono) (auto simp: Suc_leI)
    finally show ?thesis .
  qed
  have "length (concat ps) = length ps"
    using arg_cong [OF parts_cover [OF assms(1,2)], of size] assms(3) by simp
  moreover have "length ps < length (concat ps)"
  proof -
    have "set xs \<subseteq> set ps" "set ys \<subseteq> set ps" by (auto simp: ps)
    then show ?thesis using ge [of xs] ge [of ys] \<open>1 < length p\<close> by (simp add: ps length_concat)
  qed
  ultimately show False by simp
qed

end

end
