(* ===== verification/Karmarkar_Karp.thy ===== *)
theory Karmarkar_Karp
  imports Partitioning "HOL-Library.List_Lexorder" "HOL-Library.Product_Lexorder"
begin

text \<open>
  The largest-differencing partitioner that balances sequence lengths over ranks
  and micro-batches: \<open>karmarkar_karp\<close> and \<open>get_seqlen_balanced_partitions\<close> of
  \<^verbatim>\<open>rlinf/utils/data_iter_utils.py\<close>.

  The local class \<open>Set\<close> is \<open>kk_set\<close>, with the order of its \<open>__lt__\<close>; a \<open>State\<close>
  is the list of its sets, in decreasing order. The heap of states is kept as a
  list from which \<open>heappop\<close> takes a least element of \<open>State.__lt__\<close>, which is
  what the library's heap guarantees.
\<close>

section \<open>Sets and states\<close>

datatype kk_set = KKSet (kk_sum: int) (kk_items: "(int \<times> int) list")

definition empty_set :: kk_set where
  "empty_set = KKSet 0 []"

definition set_add :: "kk_set \<Rightarrow> int \<Rightarrow> int \<Rightarrow> kk_set" where
  "set_add s idx v = KKSet (kk_sum s + v) (kk_items s @ [(idx, v)])"

definition set_merge :: "kk_set \<Rightarrow> kk_set \<Rightarrow> kk_set" where
  "set_merge s other = foldl (\<lambda>s (idx, v). set_add s idx v) s (kk_items other)"

text \<open>\<open>Set.__lt__\<close>: by sum, then by number of items, then lexicographically by the items.\<close>

definition set_lt :: "kk_set \<Rightarrow> kk_set \<Rightarrow> bool" where
  "set_lt s t =
     (if kk_sum s \<noteq> kk_sum t then kk_sum s < kk_sum t
      else if length (kk_items s) \<noteq> length (kk_items t) then length (kk_items s) < length (kk_items t)
      else kk_items s < kk_items t)"

instantiation kk_set :: linorder
begin

definition less_kk_set :: "kk_set \<Rightarrow> kk_set \<Rightarrow> bool" where
  "less_kk_set s t = set_lt s t"

definition less_eq_kk_set :: "kk_set \<Rightarrow> kk_set \<Rightarrow> bool" where
  "less_eq_kk_set s t = (s = t \<or> s < t)"

instance
proof
  fix s t u :: kk_set
  have eq: "s = t \<longleftrightarrow> kk_sum s = kk_sum t \<and> kk_items s = kk_items t" for s t :: kk_set
    by (cases s; cases t) auto
  show "s < t \<longleftrightarrow> s \<le> t \<and> \<not> t \<le> s"
    by (auto simp: less_eq_kk_set_def less_kk_set_def set_lt_def eq split: if_splits)
  show "s \<le> s" by (simp add: less_eq_kk_set_def)
  show "s \<le> t \<Longrightarrow> t \<le> s \<Longrightarrow> s = t"
    by (auto simp: less_eq_kk_set_def less_kk_set_def set_lt_def split: if_splits)
  show "s \<le> t \<or> t \<le> s"
    by (auto simp: less_eq_kk_set_def less_kk_set_def set_lt_def eq split: if_splits)
  show "s \<le> t \<Longrightarrow> t \<le> u \<Longrightarrow> s \<le> u"
    by (auto simp: less_eq_kk_set_def less_kk_set_def set_lt_def split: if_splits)
qed

end

type_synonym kk_state = "kk_set list"

definition sort_sets :: "kk_set list \<Rightarrow> kk_set list" where
  "sort_sets ss = rev (sort ss)"

fun add_items :: "kk_set list \<Rightarrow> nat \<Rightarrow> (int \<times> int) list \<Rightarrow> kk_set list res" where
  "add_items sets i [] = Inr sets"
| "add_items sets i ((idx, seqlen) # items) =
     (if i < length sets then add_items (sets[i := set_add (sets ! i) idx seqlen]) (Suc i) items
      else Inl IndexError)"

definition state_init :: "(int \<times> int) list \<Rightarrow> int \<Rightarrow> kk_state res" where
  "state_init items k =
     (if int (length items) \<noteq> 1 \<and> int (length items) \<noteq> k then Inl AssertionError
      else rbind (add_items (replicate (nat k) empty_set) 0 items) (\<lambda>sets. Inr (sort_sets sets)))"

definition get_partitions :: "kk_state \<Rightarrow> int list list" where
  "get_partitions sets = map (\<lambda>s. map fst (kk_items s)) sets"

definition state_merge :: "kk_state \<Rightarrow> kk_state \<Rightarrow> kk_state" where
  "state_merge sets other = sort_sets (map2 set_merge sets (rev other))"

definition spread :: "kk_state \<Rightarrow> int" where
  "spread sets = kk_sum (hd sets) - kk_sum (last sets)"

definition state_lt :: "kk_state \<Rightarrow> kk_state \<Rightarrow> bool" where
  "state_lt s t = (if spread s \<noteq> spread t then spread s > spread t else hd s > hd t)"

section \<open>The heap and the main loop\<close>

definition least_state :: "kk_state \<Rightarrow> kk_state list \<Rightarrow> kk_state" where
  "least_state s ss = foldl (\<lambda>m t. if state_lt t m then t else m) s ss"

fun heap_pop :: "kk_state list \<Rightarrow> kk_state \<times> kk_state list" where
  "heap_pop [] = ([], [])"
| "heap_pop (s # ss) = (let m = least_state s ss in (m, remove1 m (s # ss)))"

definition heap_push :: "kk_state list \<Rightarrow> kk_state \<Rightarrow> kk_state list" where
  "heap_push ss s = ss @ [s]"

lemma least_state_mem: "least_state s ss \<in> set (s # ss)"
  unfolding least_state_def
proof (induction ss arbitrary: s)
  case (Cons t ss)
  then show ?case using Cons.IH [of "if state_lt t s then t else s"] by (auto split: if_splits)
qed simp

lemma heap_pop_mset: "ss \<noteq> [] \<Longrightarrow> mset ss = add_mset (fst (heap_pop ss)) (mset (snd (heap_pop ss)))"
proof (cases ss)
  case (Cons s ss')
  have "least_state s ss' \<in># mset (s # ss')" using least_state_mem [of s ss'] by (simp only: set_mset_mset)
  then have "add_mset (least_state s ss') (mset (s # ss') - {#least_state s ss'#}) = mset (s # ss')"
    by (rule insert_DiffM)
  then show ?thesis using Cons by (simp only: heap_pop.simps Let_def fst_conv snd_conv mset_remove1)
qed simp

lemma heap_pop_length: "length (snd (heap_pop ss)) = length ss - 1"
proof (cases ss)
  case (Cons s ss')
  then have "mset ss = add_mset (fst (heap_pop ss)) (mset (snd (heap_pop ss)))" by (intro heap_pop_mset) simp
  then have "size (mset ss) = Suc (size (mset (snd (heap_pop ss))))" by (metis size_add_mset)
  then show ?thesis by simp
qed simp

function merge_states :: "kk_state list \<Rightarrow> kk_state list" where
  "merge_states states_pq =
     (if length states_pq > 1 then
        (let (state0, pq1) = heap_pop states_pq; (state1, pq2) = heap_pop pq1
         in merge_states (heap_push pq2 (state_merge state0 state1)))
      else states_pq)"
  by pat_completeness auto
termination
proof (relation "measure length")
  fix pq x s0 pq1 y s1 pq2
  assume "1 < length pq" "x = heap_pop pq" "(s0, pq1) = x" "y = heap_pop pq1" "(s1, pq2) = y"
  then have "pq1 = snd (heap_pop pq)" "pq2 = snd (heap_pop pq1)" by (metis snd_conv)+
  with \<open>1 < length pq\<close> show "(heap_push pq2 (state_merge s0 s1), pq) \<in> measure length"
    by (simp add: heap_push_def heap_pop_length)
qed simp

declare merge_states.simps [simp del]

definition sorted_seqlens :: "int list \<Rightarrow> (int \<times> int) list" where
  "sorted_seqlens seqlen_list = sort (zip seqlen_list (map int [0..<length seqlen_list]))"

definition flip_item :: "int \<times> int \<Rightarrow> int \<times> int" where
  "flip_item p = (snd p, fst p)"

definition initial_states :: "int list \<Rightarrow> int \<Rightarrow> bool \<Rightarrow> kk_state list res" where
  "initial_states seqlen_list k_partitions equal_size =
     (let sorted_list = sorted_seqlens seqlen_list in
      if equal_size then
        rbind (py_mod (int (length seqlen_list)) k_partitions) (\<lambda>m.
        if m \<noteq> 0 then Inl AssertionError
        else rmap (\<lambda>offset.
               rbind (rmap (\<lambda>i. rbind (py_index sorted_list (offset + i)) (\<lambda>p. Inr (flip_item p)))
                       (py_range k_partitions)) (\<lambda>items.
               state_init items k_partitions))
             (py_range3 0 (int (length sorted_list)) k_partitions))
      else rmap (\<lambda>p. state_init [flip_item p] k_partitions) sorted_list)"

definition karmarkar_karp :: "int list \<Rightarrow> int \<Rightarrow> bool \<Rightarrow> int list list res" where
  "karmarkar_karp seqlen_list k_partitions equal_size =
     rbind (initial_states seqlen_list k_partitions equal_size) (\<lambda>states.
     let states_pq = merge_states (foldl heap_push [] states) in
     case states_pq of
       [] \<Rightarrow> Inl IndexError
     | final_state # _ \<Rightarrow>
         let partitions = get_partitions final_state in
         if equal_size \<and> \<not> list_all (\<lambda>p. int (length p) * k_partitions = int (length seqlen_list)) partitions
         then Inl AssertionError
         else Inr partitions)"

definition check_and_sort_partitions :: "nat \<Rightarrow> int \<Rightarrow> int list list \<Rightarrow> int list list res" where
  "check_and_sort_partitions n k_partitions partitions =
     (if int (length partitions) \<noteq> k_partitions then Inl AssertionError
      else if \<not> list_all (\<lambda>p. p \<noteq> []) partitions then Inl AssertionError
      else if set (concat partitions) \<noteq> set (map int [0..<n]) then Inl AssertionError
      else Inr (map sort partitions))"

definition get_seqlen_balanced_partitions :: "int list \<Rightarrow> int \<Rightarrow> bool \<Rightarrow> int list list res" where
  "get_seqlen_balanced_partitions seqlen_list k_partitions equal_size =
     (if \<not> int (length seqlen_list) \<ge> k_partitions then Inl AssertionError
      else rbind (karmarkar_karp seqlen_list k_partitions equal_size)
             (check_and_sort_partitions (length seqlen_list) k_partitions))"

section \<open>What merging two states keeps\<close>

definition sums_up :: "kk_set \<Rightarrow> bool" where
  "sums_up s = (kk_sum s = sum_list (map snd (kk_items s)) \<and> (\<forall>p\<in>set (kk_items s). 0 \<le> snd p))"

definition state_items :: "kk_state \<Rightarrow> (int \<times> int) multiset" where
  "state_items st = mset (concat (map kk_items st))"

definition filled :: "kk_state \<Rightarrow> nat" where
  "filled st = length (filter (\<lambda>s. kk_items s \<noteq> []) st)"

text \<open>A state with \<open>k\<close> sets in decreasing order, sums that differ by at most \<open>M\<close>, and no
  empty set once it has \<open>k\<close> items.\<close>

definition good_state :: "nat \<Rightarrow> int \<Rightarrow> kk_state \<Rightarrow> bool" where
  "good_state k M st = (length st = k \<and> sorted_wrt (\<ge>) st \<and> (\<forall>s\<in>set st. sums_up s)
     \<and> (\<forall>s\<in>set st. \<forall>t\<in>set st. kk_sum s - kk_sum t \<le> M) \<and> min k (size (state_items st)) \<le> filled st)"

definition even_state :: "kk_state \<Rightarrow> bool" where
  "even_state st = (\<forall>s\<in>set st. \<forall>t\<in>set st. length (kk_items s) = length (kk_items t))"

lemma set_merge_eq: "set_merge s t = KKSet (kk_sum s + sum_list (map snd (kk_items t))) (kk_items s @ kk_items t)"
proof -
  have "foldl (\<lambda>s (idx, v). set_add s idx v) s ps = KKSet (kk_sum s + sum_list (map snd ps)) (kk_items s @ ps)" for ps
    by (induction ps arbitrary: s) (auto simp: set_add_def)
  then show ?thesis by (simp add: set_merge_def)
qed

lemma kk_items_set_merge [simp]: "kk_items (set_merge s t) = kk_items s @ kk_items t"
  by (simp add: set_merge_eq)

lemma kk_sum_set_merge: "sums_up t \<Longrightarrow> kk_sum (set_merge s t) = kk_sum s + kk_sum t"
  by (simp add: set_merge_eq sums_up_def)

lemma sums_up_set_merge: "sums_up s \<Longrightarrow> sums_up t \<Longrightarrow> sums_up (set_merge s t)"
  by (auto simp: set_merge_eq sums_up_def)

lemma sums_up_nonneg: "sums_up s \<Longrightarrow> 0 \<le> kk_sum s"
  by (auto simp: sums_up_def intro!: sum_list_nonneg)

lemma sort_sets_props [simp]:
  "set (sort_sets ss) = set ss" "length (sort_sets ss) = length ss" "mset (sort_sets ss) = mset ss"
  "sorted_wrt (\<ge>) (sort_sets ss)"
  by (simp_all add: sort_sets_def sorted_wrt_rev)

lemma state_items_sum: "state_items st = (\<Sum>s\<in>#mset st. mset (kk_items s))"
  by (induction st) (auto simp: state_items_def)

lemma filled_size: "filled st = size (filter_mset (\<lambda>s. kk_items s \<noteq> []) (mset st))"
  by (simp add: filled_def flip: mset_filter)

lemma state_items_sort_sets [simp]: "state_items (sort_sets ss) = state_items ss"
  by (simp add: state_items_sum)

lemma filled_sort_sets [simp]: "filled (sort_sets ss) = filled ss"
  by (simp add: filled_size)

lemma state_items_map2:
  "length a = length b \<Longrightarrow> state_items (map2 set_merge a b) = state_items a + state_items b"
  by (induction a b rule: list_induct2) (auto simp: state_items_def)

lemma state_items_merge:
  "length a = length b \<Longrightarrow> state_items (state_merge a b) = state_items a + state_items b"
  by (simp add: state_merge_def state_items_map2) (simp add: state_items_sum)

lemma kk_set_le_sum: "s \<le> t \<Longrightarrow> kk_sum s \<le> kk_sum (t :: kk_set)"
  by (auto simp: less_eq_kk_set_def less_kk_set_def set_lt_def split: if_splits)

lemma kk_set_le_empty: "s \<le> t \<Longrightarrow> sums_up s \<Longrightarrow> sums_up t \<Longrightarrow> kk_items t = [] \<Longrightarrow> kk_items s = []"
  using sums_up_nonneg [of s]
  by (auto simp: less_eq_kk_set_def less_kk_set_def set_lt_def sums_up_def split: if_splits)

lemma state_merge_elem:
  assumes "s \<in> set (state_merge a b)"
  obtains x y where "x \<in> set a" "y \<in> set b" "s = set_merge x y"
proof -
  from assms have "s \<in> set (map2 set_merge a (rev b))" by (simp only: state_merge_def sort_sets_props)
  then obtain x y where "(x, y) \<in> set (zip a (rev b))" "s = set_merge x y" by auto
  then show ?thesis by (metis set_zip_leftD set_zip_rightD set_rev that)
qed

text \<open>In a decreasing state the non-empty sets come first.\<close>

lemma filled_prefix:
  assumes "sorted_wrt (\<ge>) st" "\<forall>s\<in>set st. sums_up s" "i < length st"
  shows "kk_items (st ! i) \<noteq> [] \<longleftrightarrow> i < filled st"
  using assms
proof (induction st arbitrary: i)
  case (Cons s st)
  show ?case
  proof (cases "kk_items s = []")
    case True
    with Cons.prems have e: "\<forall>t\<in>set st. kk_items t = []" by (auto intro: kk_set_le_empty)
    then have "filled (s # st) = 0" using True by (simp add: filled_def)
    moreover have "kk_items ((s # st) ! i) = []" using e True Cons.prems(3) by (auto simp: nth_Cons split: nat.splits)
    ultimately show ?thesis by simp
  next
    case False
    then have "filled (s # st) = Suc (filled st)" by (simp add: filled_def)
    then show ?thesis using Cons False by (auto simp: nth_Cons split: nat.splits)
  qed
qed simp

lemma filled_card: "filled st = card {i. i < length st \<and> kk_items (st ! i) \<noteq> []}"
  by (simp add: filled_def length_filter_conv_card)

lemma filled_merge:
  assumes "length a = k" "length b = k" "sorted_wrt (\<ge>) a" "sorted_wrt (\<ge>) b"
    and "\<forall>s\<in>set a. sums_up s" "\<forall>s\<in>set b. sums_up s"
  shows "min k (filled a + filled b) \<le> filled (state_merge a b)"
proof -
  have fb: "filled b \<le> k" and fa: "filled a \<le> k"
    using assms(1,2) by (auto simp: filled_def intro: order_trans [OF length_filter_le])
  have "{i. i < k \<and> kk_items (map2 set_merge a (rev b) ! i) \<noteq> []} = {..<filled a} \<union> {k - filled b..<k}"
  proof -
    have "kk_items (map2 set_merge a (rev b) ! i) \<noteq> [] \<longleftrightarrow> i < filled a \<or> k - filled b \<le> i" if "i < k" for i
      using that assms filled_prefix [of a i] filled_prefix [of b "k - Suc i"] fb by (auto simp: rev_nth)
    then have "{i. i < k \<and> kk_items (map2 set_merge a (rev b) ! i) \<noteq> []} = {i. i < k \<and> (i < filled a \<or> k - filled b \<le> i)}"
      by blast
    also have "\<dots> = {..<filled a} \<union> {k - filled b..<k}" using fa by auto
    finally show ?thesis .
  qed
  moreover have "min k (filled a + filled b) \<le> card ({..<filled a} \<union> {k - filled b..<k})"
  proof (cases "filled a \<le> k - filled b")
    case True
    then have "card ({..<filled a} \<union> {k - filled b..<k}) = filled a + filled b"
      using fb by (subst card_Un_disjoint) auto
    then show ?thesis by simp
  next
    case False
    then have "{..<filled a} \<union> {k - filled b..<k} = {..<k}" using fa by auto
    then show ?thesis by simp
  qed
  ultimately show ?thesis using assms(1,2) by (simp add: state_merge_def filled_card [of "map2 _ _ _"])
qed

text \<open>The sums of a merged state spread no wider than those of the states merged.\<close>

lemma merge_sums_close:
  assumes "length a = k" "length b = k" "sorted_wrt (\<ge>) a" "sorted_wrt (\<ge>) b"
    and up: "\<forall>s\<in>set b. sums_up s"
    and ma: "\<forall>s\<in>set a. \<forall>t\<in>set a. kk_sum s - kk_sum t \<le> M"
    and mb: "\<forall>s\<in>set b. \<forall>t\<in>set b. kk_sum s - kk_sum t \<le> M"
    and "s \<in> set (state_merge a b)" "t \<in> set (state_merge a b)"
  shows "kk_sum s - kk_sum t \<le> M"
proof -
  let ?c = "map2 set_merge a (rev b)"
  from assms(8,9) have "s \<in> set ?c" "t \<in> set ?c" by (simp_all only: state_merge_def sort_sets_props)
  moreover have len: "length ?c = k" using assms(1,2) by simp
  ultimately obtain i j where ij: "i < k" "j < k" "s = ?c ! i" "t = ?c ! j" by (metis in_set_conv_nth)
  have sum: "kk_sum (?c ! i) = kk_sum (a ! i) + kk_sum (b ! (k - Suc i))" if "i < k" for i
    using that assms(1,2) up by (simp add: rev_nth kk_sum_set_merge)
  have dec: "kk_sum (x ! j) \<le> kk_sum (x ! i)" if "sorted_wrt (\<ge>) x" "length x = k" "i \<le> j" "j < k" for x i j
    using that by (cases "i = j") (auto simp: sorted_wrt_iff_nth_less intro: kk_set_le_sum)
  have la: "kk_sum (a ! i) - kk_sum (a ! j) \<le> M" using ma ij assms(1) by simp
  have lb: "kk_sum (b ! (k - Suc i)) - kk_sum (b ! (k - Suc j)) \<le> M" using mb ij assms(2) by simp
  show ?thesis
  proof (cases "i \<le> j")
    case True
    then have "kk_sum (b ! (k - Suc i)) \<le> kk_sum (b ! (k - Suc j))"
      using ij assms by (intro dec) auto
    then show ?thesis using la ij by (simp add: sum)
  next
    case False
    then have "kk_sum (a ! i) \<le> kk_sum (a ! j)" using ij assms by (intro dec) auto
    then show ?thesis using lb ij by (simp add: sum)
  qed
qed

lemma good_state_merge:
  assumes "good_state k M a" "good_state k M b"
  shows "good_state k M (state_merge a b)"
proof -
  have l: "length a = k" "length b = k" "sorted_wrt (\<ge>) a" "sorted_wrt (\<ge>) b"
    "\<forall>s\<in>set a. sums_up s" "\<forall>s\<in>set b. sums_up s" using assms by (auto simp: good_state_def)
  have "length (state_merge a b) = k" using l by (simp add: state_merge_def)
  moreover have "sorted_wrt (\<ge>) (state_merge a b)" by (simp only: state_merge_def sort_sets_props)
  moreover have "\<forall>s\<in>set (state_merge a b). sums_up s"
    using l by (metis state_merge_elem sums_up_set_merge)
  moreover have "\<forall>s\<in>set (state_merge a b). \<forall>t\<in>set (state_merge a b). kk_sum s - kk_sum t \<le> M"
    using merge_sums_close [OF l(1-4,6), of M] assms by (simp add: good_state_def)
  moreover have "min k (size (state_items (state_merge a b))) \<le> filled (state_merge a b)"
    using filled_merge [OF l] state_items_merge [of a b] l assms by (auto simp: good_state_def)
  ultimately show ?thesis by (simp add: good_state_def)
qed

lemma even_state_merge:
  "even_state a \<Longrightarrow> even_state b \<Longrightarrow> even_state (state_merge a b)"
proof (unfold even_state_def [of "state_merge a b"], intro ballI)
  fix s t
  assume ab: "even_state a" "even_state b" and s: "s \<in> set (state_merge a b)" and t: "t \<in> set (state_merge a b)"
  obtain x y where xy: "x \<in> set a" "y \<in> set b" "s = set_merge x y" by (rule state_merge_elem [OF s])
  obtain u v where uv: "u \<in> set a" "v \<in> set b" "t = set_merge u v" by (rule state_merge_elem [OF t])
  have "length (kk_items x) = length (kk_items u)" "length (kk_items y) = length (kk_items v)"
    using ab xy(1,2) uv(1,2) unfolding even_state_def by blast+
  then show "length (kk_items s) = length (kk_items t)" by (simp add: xy(3) uv(3))
qed

section \<open>The main loop\<close>

lemma heap_pop_parts:
  assumes "heap_pop pq = (s, pq')" "pq \<noteq> []"
  shows "s \<in> set pq" "set pq' \<subseteq> set pq" "mset pq = add_mset s (mset pq')"
proof -
  show m: "mset pq = add_mset s (mset pq')" using heap_pop_mset [OF assms(2)] assms(1) by simp
  show "s \<in> set pq" "set pq' \<subseteq> set pq" using arg_cong [OF m, of set_mset] by auto
qed

text \<open>Whatever merging keeps holds of the one state that the loop leaves, which has all the items.\<close>

lemma merge_states_result:
  assumes "\<And>a b. P a \<Longrightarrow> P b \<Longrightarrow> P (state_merge a b)" and "\<And>a. P a \<Longrightarrow> length a = k"
    and "pq \<noteq> []" "\<forall>st\<in>set pq. P st"
  shows "\<exists>st. merge_states pq = [st] \<and> P st \<and> state_items st = (\<Sum>st\<in>#mset pq. state_items st)"
  using assms(3,4)
proof (induction pq rule: merge_states.induct)
  case (1 pq)
  show ?case
  proof (cases "length pq > 1")
    case True
    obtain s0 pq1 where p1: "heap_pop pq = (s0, pq1)" by fastforce
    obtain s1 pq2 where p2: "heap_pop pq1 = (s1, pq2)" by fastforce
    note h1 = heap_pop_parts [OF p1 1(2)]
    have "pq1 \<noteq> []" using True heap_pop_length [of pq] p1 by auto
    note h2 = heap_pop_parts [OF p2 this]
    have P: "P s0" "P s1" using h1 h2 1(3) by auto
    then have m: "state_items (state_merge s0 s1) = state_items s0 + state_items s1"
      using assms(2) by (simp add: state_items_merge)
    let ?pq = "heap_push pq2 (state_merge s0 s1)"
    have "\<forall>st\<in>set ?pq. P st" using P assms(1) h1 h2 1(3) by (auto simp: heap_push_def)
    then have "\<exists>st. merge_states ?pq = [st] \<and> P st \<and> state_items st = (\<Sum>st\<in>#mset ?pq. state_items st)"
      using 1(1) [OF True refl p1 [symmetric] refl p2 [symmetric]] by (simp add: heap_push_def)
    moreover have "merge_states pq = merge_states ?pq" using True p1 p2 by (subst merge_states.simps) simp
    moreover have "(\<Sum>st\<in>#mset ?pq. state_items st) = (\<Sum>st\<in>#mset pq. state_items st)"
      using h1(3) h2(3) m by (simp add: heap_push_def ac_simps)
    ultimately show ?thesis by simp
  next
    case False
    then obtain st where "pq = [st]" using 1(2) by (cases pq) auto
    then show ?thesis using 1(3) by (simp add: merge_states.simps)
  qed
qed

section \<open>The initial states\<close>

lemma add_items_ok:
  assumes "length items \<le> length suf"
  shows "add_items (pre @ suf) (length pre) items =
    Inr (pre @ map2 (\<lambda>s p. set_add s (fst p) (snd p)) suf items @ drop (length items) suf)"
  using assms
proof (induction items arbitrary: pre suf)
  case (Cons p items)
  obtain idx seqlen where p: "p = (idx, seqlen)" by fastforce
  from Cons.prems obtain s suf' where suf: "suf = s # suf'" by (cases suf) auto
  have "add_items (pre @ suf) (length pre) (p # items)
      = add_items ((pre @ [set_add s idx seqlen]) @ suf') (length (pre @ [set_add s idx seqlen])) items"
    by (simp add: p suf)
  also have "\<dots> = Inr ((pre @ [set_add s idx seqlen]) @ map2 (\<lambda>s p. set_add s (fst p) (snd p)) suf' items @ drop (length items) suf')"
    by (rule Cons.IH) (use Cons.prems suf in simp)
  finally show ?case by (simp add: p suf)
qed simp

lemma state_init_many:
  assumes "0 < k" "length items = nat k"
  shows "state_init items k = Inr (sort_sets (map (\<lambda>p. KKSet (snd p) [p]) items))"
proof -
  have "map2 (\<lambda>s p. set_add s (fst p) (snd p)) (replicate (length ps) empty_set) ps = map (\<lambda>p. KKSet (snd p) [p]) ps" for ps
    by (induction ps) (auto simp: set_add_def empty_set_def)
  from this [of items] show ?thesis
    using assms add_items_ok [of items "replicate (nat k) empty_set" "[]"] by (simp add: state_init_def)
qed

lemma state_init_one:
  assumes "0 < k"
  shows "state_init [p] k = Inr (sort_sets (KKSet (snd p) [p] # replicate (nat k - 1) empty_set))"
proof -
  obtain n where "nat k = Suc n" using assms by (cases "nat k") auto
  then show ?thesis
    using add_items_ok [of "[p]" "replicate (nat k) empty_set" "[]"]
    by (simp add: state_init_def set_add_def empty_set_def)
qed

text \<open>The states the loop starts with are good ones, and together hold every item once.\<close>

lemma good_single:
  assumes "0 < k" "0 \<le> snd p" "snd p \<le> M"
  shows "good_state (nat k) M (sort_sets (KKSet (snd p) [p] # replicate (nat k - 1) empty_set))"
    (is "good_state _ _ (sort_sets ?ss)")
proof -
  have "length ?ss = nat k" using assms(1) by simp
  moreover have "filled ?ss = 1" "size (state_items ?ss) = 1"
    by (simp_all add: filled_def state_items_def empty_set_def)
  ultimately show ?thesis using assms(2,3)
    by (auto simp: good_state_def sums_up_def empty_set_def)
qed

lemma good_many:
  assumes "length items = nat k" "\<forall>p\<in>set items. 0 \<le> snd p \<and> snd p \<le> M"
  shows "good_state (nat k) M (sort_sets (map (\<lambda>p. KKSet (snd p) [p]) items))"
    and "even_state (sort_sets (map (\<lambda>p. KKSet (snd p) [p]) items))"
proof -
  have "filled (map (\<lambda>p. KKSet (snd p) [p]) items) = nat k"
    using assms(1) by (simp add: filled_def)
  moreover have close: "snd p - snd q \<le> M" if "p \<in> set items" "q \<in> set items" for p q
  proof -
    have "snd p \<le> M" "0 \<le> snd q" using assms(2) that by blast+
    then show ?thesis by simp
  qed
  ultimately show "good_state (nat k) M (sort_sets (map (\<lambda>p. KKSet (snd p) [p]) items))"
    using assms(1) close assms(2) by (simp add: good_state_def sums_up_def)
  show "even_state (sort_sets (map (\<lambda>p. KKSet (snd p) [p]) items))"
    by (auto simp: even_state_def)
qed

lemma state_items_initial:
  "state_items (sort_sets (KKSet (snd p) [p] # replicate n empty_set)) = {#p#}"
  "state_items (sort_sets (map (\<lambda>p. KKSet (snd p) [p]) items)) = mset items"
proof -
  show "state_items (sort_sets (KKSet (snd p) [p] # replicate n empty_set)) = {#p#}"
    by (simp only: state_items_sort_sets) (simp add: state_items_def empty_set_def)
  have "concat (map (\<lambda>p. [p]) items) = items" by (induction items) auto
  then show "state_items (sort_sets (map (\<lambda>p. KKSet (snd p) [p]) items)) = mset items"
    by (simp only: state_items_sort_sets) (simp add: state_items_def comp_def)
qed

definition seqlen_items :: "int list \<Rightarrow> (int \<times> int) multiset" where
  "seqlen_items seqlens = mset (map flip_item (sorted_seqlens seqlens))"

lemma seqlen_items_eq: "seqlen_items seqlens = mset (map (\<lambda>i. (int i, seqlens ! i)) [0..<length seqlens])"
proof -
  have "map flip_item (zip seqlens (map int [0..<length seqlens])) = map (\<lambda>i. (int i, seqlens ! i)) [0..<length seqlens]"
    by (rule nth_equalityI) (auto simp: flip_item_def)
  then show ?thesis 
    unfolding seqlen_items_def sorted_seqlens_def mset_map mset_sort by (metis mset_map)
qed

lemma length_sorted_seqlens [simp]: "length (sorted_seqlens seqlens) = length seqlens"
  by (simp add: sorted_seqlens_def)

lemma sorted_seqlens_bounds:
  assumes "p \<in> set (sorted_seqlens seqlens)" "\<forall>x\<in>set seqlens. 0 \<le> x \<and> x \<le> M"
  shows "0 \<le> snd (flip_item p)" "snd (flip_item p) \<le> M"
proof -
  obtain x i where p: "p = (x, i)" by fastforce
  with assms(1) have "(x, i) \<in> set (zip seqlens (map int [0..<length seqlens]))" by (simp add: sorted_seqlens_def)
  then have "x \<in> set seqlens" by (rule set_zip_leftD)
  with assms(2) show "0 \<le> snd (flip_item p)" "snd (flip_item p) \<le> M" by (simp_all add: p flip_item_def)
qed

lemma initial_states_single:
  assumes "0 < k" "seqlens \<noteq> []" "\<forall>x\<in>set seqlens. 0 \<le> x \<and> x \<le> M"
  shows "\<exists>sts. initial_states seqlens k False = Inr sts \<and> sts \<noteq> [] \<and> (\<forall>st\<in>set sts. good_state (nat k) M st)
    \<and> (\<Sum>st\<in>#mset sts. state_items st) = seqlen_items seqlens"
proof -
  let ?f = "\<lambda>p. sort_sets (KKSet (snd (flip_item p)) [flip_item p] # replicate (nat k - 1) empty_set)"
  let ?sts = "map ?f (sorted_seqlens seqlens)"
  have "initial_states seqlens k False = Inr ?sts"
    by (simp add: initial_states_def state_init_one [OF assms(1)])
  moreover have "\<forall>st\<in>set ?sts. good_state (nat k) M st"
  proof
    fix st assume "st \<in> set ?sts"
    then obtain p where p: "p \<in> set (sorted_seqlens seqlens)" "st = ?f p"
      unfolding list.set_map by (elim imageE) (rule that)
    show "good_state (nat k) M st"
      unfolding p(2) by (rule good_single) (use assms(1) sorted_seqlens_bounds [OF p(1) assms(3)] in auto)
  qed
  moreover have "(\<Sum>st\<in>#mset ?sts. state_items st) = seqlen_items seqlens"
  proof -
    have "(\<Sum>st\<in>#mset (map ?f ps). state_items st) = mset (map flip_item ps)" for ps
      by (induction ps) (simp_all add: state_items_initial del: state_items_sort_sets)
    then show ?thesis by (simp only: seqlen_items_def)
  qed
  moreover have "length ?sts \<noteq> 0" using assms(2) by simp
  then have "?sts \<noteq> []" by (simp only: length_0_conv not_False_eq_True)
  ultimately show ?thesis by blast
qed

lemma chunks_mset: "(\<Sum>j\<in>#mset [0..<m]. mset (take k (drop (j * k) xs))) = mset (take (m * k) xs)"
proof (induction m)
  case (Suc m)
  have "take (Suc m * k) xs = take (m * k) xs @ take k (drop (m * k) xs)"
    by (metis add.commute mult_Suc take_add)
  with Suc show ?case by (simp add: ac_simps)
qed simp

lemma initial_states_even:
  assumes "0 < k" "seqlens \<noteq> []" "\<forall>x\<in>set seqlens. 0 \<le> x \<and> x \<le> M" "k dvd int (length seqlens)"
  shows "\<exists>sts. initial_states seqlens k True = Inr sts \<and> sts \<noteq> []
    \<and> (\<forall>st\<in>set sts. good_state (nat k) M st \<and> even_state st)
    \<and> (\<Sum>st\<in>#mset sts. state_items st) = seqlen_items seqlens"
proof -
  let ?sl = "sorted_seqlens seqlens" and ?n = "nat k"
  from assms(1,4) obtain m where m: "length seqlens = m * ?n" by (metis dvdE int_dvd_int_iff int_nat_eq less_imp_le mult.commute)
  then have len: "length ?sl = m * ?n" by simp
  define items where "items j = map flip_item (take ?n (drop (j * ?n) ?sl))" for j
  define sts where "sts = map (\<lambda>j. sort_sets (map (\<lambda>p. KKSet (snd p) [p]) (items j))) [0..<m]"
  have li: "length (items j) = ?n" if "j < m" for j
  proof -
    have "Suc j * ?n \<le> m * ?n" using that by (intro mult_le_mono) auto
    then show ?thesis by (simp add: items_def len m)
  qed
  have one: "rmap (\<lambda>i. rbind (py_index ?sl (int j * k + i)) (\<lambda>p. Inr (flip_item p))) (py_range k) = Inr (items j)"
    if "j < m" for j
  proof -
    have b: "j * ?n + i < m * ?n" if "i < ?n" for i
      using that \<open>j < m\<close> by (metis add.commute less_le_trans mult_Suc mult_le_mono1 nat_add_left_cancel_less Suc_leI)
    have "rbind (py_index ?sl (int j * k + i)) (\<lambda>p. Inr (flip_item p)) = Inr (flip_item (?sl ! (j * ?n + nat i)))"
      if "i \<in> set (py_range k)" for i
    proof -
      from that have i: "0 \<le> i" "nat i < ?n" by auto
      then have "int j * k + i = int (j * ?n + nat i)" using assms(1) by simp
      then show ?thesis using b [OF i(2)] len by (simp add: py_index_def del: of_nat_add of_nat_mult)
    qed
    then have "rmap (\<lambda>i. rbind (py_index ?sl (int j * k + i)) (\<lambda>p. Inr (flip_item p))) (py_range k)
      = Inr (map (\<lambda>i. flip_item (?sl ! (j * ?n + nat i))) (py_range k))"
      by (rule rmap_all_Inr)
    also have "map (\<lambda>i. flip_item (?sl ! (j * ?n + nat i))) (py_range k) = items j"
    proof (rule nth_equalityI)
      show "length (map (\<lambda>i. flip_item (?sl ! (j * ?n + nat i))) (py_range k)) = length (items j)" using li that by simp
      fix i assume "i < length (map (\<lambda>i. flip_item (?sl ! (j * ?n + nat i))) (py_range k))"
      then have i: "i < ?n" by simp
      then have "py_range k ! i = int i" using assms(1) py_range_int [of "nat k"] by (simp del: py_range_int add: py_range_int [of "nat k", simplified])
      then show "map (\<lambda>i. flip_item (?sl ! (j * ?n + nat i))) (py_range k) ! i = items j ! i"
        using i b [OF i] li [OF that] by (simp add: items_def len)
    qed
    finally show ?thesis .
  qed
  have "py_range3 0 (int (length ?sl)) k = map (\<lambda>j. int j * k) [0..<m]"
    using py_range3_mult [OF assms(1), of "int m" 0] len assms(1) by simp
  then have "initial_states seqlens k True = rmap (\<lambda>j. rbind (rmap (\<lambda>i. rbind (py_index ?sl (int j * k + i))
      (\<lambda>p. Inr (flip_item p))) (py_range k)) (\<lambda>items. state_init items k)) [0..<m]"
    using assms(1,4) by (simp add: initial_states_def rmap_map)
  also have "\<dots> = Inr sts"
    unfolding sts_def by (rule rmap_all_Inr) (simp add: one state_init_many [OF assms(1)] li)
  finally have "initial_states seqlens k True = Inr sts" .
  moreover have "m \<noteq> 0" using m assms(2) by (metis length_0_conv mult_0)
  then have "sts \<noteq> []" by (simp add: sts_def)
  moreover have "\<forall>st\<in>set sts. good_state (nat k) M st \<and> even_state st"
  proof
    fix st assume "st \<in> set sts"
    then obtain j where j: "j < m" "st = sort_sets (map (\<lambda>p. KKSet (snd p) [p]) (items j))" by (auto simp: sts_def)
    have "\<forall>p\<in>set (items j). 0 \<le> snd p \<and> snd p \<le> M"
      using sorted_seqlens_bounds [OF _ assms(3)] by (auto simp: items_def dest!: in_set_takeD in_set_dropD)
    then show "good_state (nat k) M st \<and> even_state st" using good_many [OF li [OF j(1)]] j(2) by blast
  qed
  moreover have "(\<Sum>st\<in>#mset sts. state_items st) = seqlen_items seqlens"
  proof -
    have "(\<Sum>st\<in>#mset sts. state_items st) = (\<Sum>j\<in>#mset [0..<m]. mset (items j))"
      by (simp only: sts_def mset_map image_mset.compositionality comp_def state_items_initial)
    also have "\<dots> = (\<Sum>j\<in>#mset [0..<m]. mset (take ?n (drop (j * ?n) (map flip_item ?sl))))"
      by (simp only: items_def take_map drop_map)
    also have "\<dots> = mset (map flip_item ?sl)" by (simp only: chunks_mset) (simp add: len m)
    finally show ?thesis by (simp add: seqlen_items_def)
  qed
  ultimately show ?thesis by blast
qed

section \<open>The partitions\<close>

lemma heap_push_all: "foldl heap_push pq xs = pq @ xs"
  by (induction xs arbitrary: pq) (auto simp: heap_push_def)

text \<open>The part of the contract of a partition that does not mention the bins.\<close>

definition partitions_of :: "nat \<Rightarrow> int list list \<Rightarrow> bool" where
  "partitions_of n ps = ((\<forall>p\<in>set ps. p \<noteq> []) \<and> mset (concat ps) = mset (map int [0..<n]))"

definition part_len :: "int list \<Rightarrow> int list \<Rightarrow> int" where
  "part_len seqlens p = sum_list (map (\<lambda>i. seqlens ! nat i) p)"

lemma concat_get_partitions: "mset (concat (get_partitions st)) = image_mset fst (state_items st)"
  by (induction st) (auto simp: get_partitions_def state_items_def)

lemma get_partitions_len:
  assumes "state_items st = seqlen_items seqlens" "s \<in> set st" "sums_up s"
  shows "part_len seqlens (map fst (kk_items s)) = kk_sum s"
proof -
  have "set_mset (state_items st) = (\<lambda>i. (int i, seqlens ! i)) ` {..<length seqlens}"
    unfolding assms(1) seqlen_items_eq by (auto simp: atLeast0LessThan)
  moreover have "set (kk_items s) \<subseteq> set_mset (state_items st)" using assms(2) by (auto simp: state_items_def)
  ultimately have "\<forall>p\<in>set (kk_items s). seqlens ! nat (fst p) = snd p" by auto
  then have "map (\<lambda>i. seqlens ! nat i) (map fst (kk_items s)) = map snd (kk_items s)"
    unfolding map_map comp_def by (intro map_cong) auto
  then have "part_len seqlens (map fst (kk_items s)) = sum_list (map snd (kk_items s))" by (simp only: part_len_def)
  then show ?thesis using assms(3) by (simp only: sums_up_def)
qed

lemma kk_partitions:
  assumes "0 < k" "k \<le> int (length seqlens)" "\<forall>x\<in>set seqlens. 0 \<le> x \<and> x \<le> M"
    and "equal_size \<Longrightarrow> k dvd int (length seqlens)"
  shows "\<exists>ps. karmarkar_karp seqlens k equal_size = Inr ps \<and> length ps = nat k \<and> partitions_of (length seqlens) ps
    \<and> (\<forall>p\<in>set ps. \<forall>q\<in>set ps. part_len seqlens p - part_len seqlens q \<le> M)
    \<and> (equal_size \<longrightarrow> (\<forall>p\<in>set ps. int (length p) * k = int (length seqlens)))"
proof -
  let ?P = "\<lambda>st. good_state (nat k) M st \<and> (equal_size \<longrightarrow> even_state st)"
  have ne: "seqlens \<noteq> []" using assms(1,2) by auto
  obtain sts where sts: "initial_states seqlens k equal_size = Inr sts" "sts \<noteq> []" "\<forall>st\<in>set sts. ?P st"
      "(\<Sum>st\<in>#mset sts. state_items st) = seqlen_items seqlens"
    using initial_states_single [OF assms(1) ne assms(3)] initial_states_even [OF assms(1) ne assms(3)] assms(4)
    by (cases equal_size) auto
  obtain st where st: "merge_states sts = [st]" "?P st" "state_items st = seqlen_items seqlens"
  proof -
    have "\<exists>st. merge_states sts = [st] \<and> ?P st \<and> state_items st = (\<Sum>st\<in>#mset sts. state_items st)"
    proof (rule merge_states_result [OF _ _ sts(2,3)])
      show "?P (state_merge a b)" if "?P a" "?P b" for a b
        using that good_state_merge even_state_merge by blast
      show "length a = nat k" if "?P a" for a using that by (simp add: good_state_def)
    qed
    with sts(4) that show thesis by (metis (no_types, lifting))
  qed
  let ?ps = "get_partitions st"
  have g: "length st = nat k" "\<forall>s\<in>set st. sums_up s" "\<forall>s\<in>set st. \<forall>t\<in>set st. kk_sum s - kk_sum t \<le> M"
      "min (nat k) (size (state_items st)) \<le> filled st"
    using st(2) by (auto simp: good_state_def)
  have size: "size (state_items st) = length seqlens" using st(3) by (simp add: seqlen_items_eq)
  have "filled st = length st" using g(1,4) size assms(2)
    by (metis filled_def length_filter_le min_absorb1 nat_le_iff le_antisym)
  then have "\<forall>s\<in>set st. kk_items s \<noteq> []"
    unfolding filled_def by (metis (mono_tags, lifting) filter_id_conv length_filter_less less_irrefl)
  then have nonempty: "\<forall>p\<in>set ?ps. p \<noteq> []" by (simp add: get_partitions_def)
  have ms: "mset (concat ?ps) = mset (map int [0..<length seqlens])"
    unfolding concat_get_partitions st(3) seqlen_items_eq by (simp add: image_mset.compositionality comp_def)
  have lens: "\<forall>p\<in>set ?ps. \<forall>q\<in>set ?ps. part_len seqlens p - part_len seqlens q \<le> M"
    using g(2,3) get_partitions_len [OF st(3)] by (simp add: get_partitions_def)
  have even: "int (length p) * k = int (length seqlens)" if "equal_size" "p \<in> set ?ps" for p
  proof -
    have "length q = length p" if "q \<in> set ?ps" for q
    proof -
      obtain s t where "s \<in> set st" "p = map fst (kk_items s)" "t \<in> set st" "q = map fst (kk_items t)"
        using \<open>p \<in> set ?ps\<close> \<open>q \<in> set ?ps\<close> unfolding get_partitions_def set_map by blast
      moreover from this have "length (kk_items t) = length (kk_items s)"
        using st(2) \<open>equal_size\<close> unfolding even_state_def by blast
      ultimately show ?thesis by simp
    qed
    then have "map length ?ps = replicate (length ?ps) (length p)" by (simp add: map_replicate_const [symmetric])
    then have "length (concat ?ps) = length ?ps * length p" by (simp add: length_concat sum_list_replicate)
    moreover have "length (concat ?ps) = length seqlens" using arg_cong [OF ms, of size] by simp
    moreover have "length ?ps = nat k" by (simp add: get_partitions_def g(1))
    ultimately show ?thesis using assms(1) by (metis int_nat_eq less_imp_le mult.commute of_nat_mult)
  qed
  have "karmarkar_karp seqlens k equal_size = Inr ?ps"
    using even unfolding karmarkar_karp_def sts(1) by (simp add: st(1) heap_push_all Let_def list_all_iff)
  moreover have "length ?ps = nat k" by (simp add: get_partitions_def g(1))
  ultimately show ?thesis using nonempty ms lens even unfolding partitions_of_def by blast
qed

lemma check_and_sort_ok:
  assumes "partitions_of n ps" "int (length ps) = k"
  shows "check_and_sort_partitions n k ps = Inr (map sort ps)"
proof -
  have "set (concat ps) = set (map int [0..<n])" using assms(1) unfolding partitions_of_def by (metis set_mset_mset)
  then show ?thesis using assms by (simp add: check_and_sort_partitions_def partitions_of_def list_all_iff)
qed

lemma sort_partitions:
  "partitions_of n (map sort ps) = partitions_of n ps" "part_len seqlens (sort p) = part_len seqlens p"
proof -
  have "mset (concat (map sort ps)) = mset (concat ps)" by (induction ps) auto
  moreover have "sort p = [] \<longleftrightarrow> p = []" for p :: "int list" by (metis length_0_conv length_sort)
  ultimately show "partitions_of n (map sort ps) = partitions_of n ps" by (simp add: partitions_of_def)
  show "part_len seqlens (sort p) = part_len seqlens p"
      by (simp only: part_len_def flip: sum_mset_sum_list) (simp only: mset_map mset_sort)
qed

lemma balanced_ok:
  assumes "0 < k" "k \<le> int (length seqlens)" "\<forall>x\<in>set seqlens. 0 \<le> x"
    and "equal_size \<Longrightarrow> k dvd int (length seqlens)"
  shows "\<exists>ps. get_seqlen_balanced_partitions seqlens k equal_size = Inr ps \<and> int (length ps) = k
    \<and> (\<forall>p\<in>set ps. p \<noteq> [] \<and> sorted p) \<and> mset (concat ps) = mset (map int [0..<length seqlens])
    \<and> (equal_size \<longrightarrow> (\<forall>p\<in>set ps. int (length p) * k = int (length seqlens)))"
proof -
  have "\<forall>x\<in>set seqlens. 0 \<le> x \<and> x \<le> Max (set seqlens)" using assms(3) by simp
  note r = kk_partitions [OF assms(1,2) this, of equal_size]
  obtain ps where
    ps: "karmarkar_karp seqlens k equal_size = Inr ps" "length ps = nat k" "partitions_of (length seqlens) ps"
      "equal_size \<longrightarrow> (\<forall>p\<in>set ps. int (length p) * k = int (length seqlens))"
    using r assms(4) by blast
  then have "get_seqlen_balanced_partitions seqlens k equal_size = Inr (map sort ps)"
    using assms(1,2) by (simp add: get_seqlen_balanced_partitions_def check_and_sort_ok)
  moreover have "partitions_of (length seqlens) (map sort ps)" using ps(3) by (simp only: sort_partitions)
  ultimately show ?thesis using ps(2,4) assms(1) by (auto simp: partitions_of_def)
qed

lemma balanced_range:
  assumes "get_seqlen_balanced_partitions seqlens k False = Inr ps"
  shows "0 < k" "k \<le> int (length seqlens)" "int (length ps) = k"
proof -
  show "k \<le> int (length seqlens)" using assms by (auto simp: get_seqlen_balanced_partitions_def split: if_splits)
  show "int (length ps) = k"
    using assms by (auto simp: get_seqlen_balanced_partitions_def check_and_sort_partitions_def res_elims split: if_splits)
  show "0 < k"
  proof (rule ccontr)
    assume "\<not> 0 < k"
    then have "state_init [p] k = Inl IndexError" for p by (cases p) (simp add: state_init_def)
    then have "karmarkar_karp seqlens k False = Inl IndexError"
      by (cases "sorted_seqlens seqlens")
        (auto simp: karmarkar_karp_def initial_states_def merge_states.simps Let_def)
    with assms show False by (auto simp: get_seqlen_balanced_partitions_def split: if_splits)
  qed
qed

interpretation kk: partitioner "\<lambda>lens k. get_seqlen_balanced_partitions lens k False"
  "\<lambda>lens k. 0 < k \<and> k \<le> int (length lens) \<and> (\<forall>x\<in>set lens. 0 \<le> x)"
proof
  fix lens :: "int list" and k :: int and ps p
  assume ok: "0 < k \<and> k \<le> int (length lens) \<and> (\<forall>x\<in>set lens. 0 \<le> x)"
  note r = balanced_ok [of k lens False] ok
  show "\<exists>ps. get_seqlen_balanced_partitions lens k False = Inr ps" using r by blast
  assume ps: "get_seqlen_balanced_partitions lens k False = Inr ps"
  show "mset (concat ps) = mset (map int [0..<length lens])" using r ps by auto
  show "p \<noteq> []" if "p \<in> set ps" using r ps that by auto
qed

text \<open>
  C32. For non-negative lengths and \<open>1 \<le> k \<le> n\<close> (and \<open>k\<close> dividing \<open>n\<close> when equal
  sizes are asked for) \<open>get_seqlen_balanced_partitions\<close> raises nothing: it returns
  exactly \<open>k\<close> non-empty, sorted partitions that together hold every index once,
  of equal sizes if asked for.
\<close>

theorem balanced_partitions_total:
  assumes "0 < k" "k \<le> int (length seqlens)" "\<forall>x\<in>set seqlens. 0 \<le> x"
    and "equal_size \<Longrightarrow> k dvd int (length seqlens)"
  shows "\<exists>ps. get_seqlen_balanced_partitions seqlens k equal_size = Inr ps \<and> int (length ps) = k
    \<and> (\<forall>p\<in>set ps. p \<noteq> [] \<and> sorted p) \<and> mset (concat ps) = mset (map int [0..<length seqlens])
    \<and> (equal_size \<longrightarrow> (\<forall>p\<in>set ps. int (length p) * k = int (length seqlens)))"
  using assms by (rule balanced_ok)

theorem balanced_partitions_total_witness:
  "\<exists>ps. get_seqlen_balanced_partitions [5, 0, 5, 4, 3, 3] 3 True = Inr ps \<and> int (length ps) = 3
    \<and> list_all (\<lambda>p. p \<noteq> [] \<and> sorted p \<and> length p = 2) ps \<and> mset (concat ps) = {#0, 1, 2, 3, 4, 5#}"
  using balanced_partitions_total [of 3 "[5, 0, 5, 4, 3, 3]" True] by (auto simp: list_all_iff)

text \<open>
  C37. The partitions are balanced: the total lengths of any two of them differ by
  at most the longest sequence.
\<close>

theorem balanced_partitions_balance:
  assumes "0 < k" "k \<le> int (length seqlens)" "\<forall>x\<in>set seqlens. 0 \<le> x \<and> x \<le> M"
    and "equal_size \<Longrightarrow> k dvd int (length seqlens)"
    and "get_seqlen_balanced_partitions seqlens k equal_size = Inr ps" "p \<in> set ps" "q \<in> set ps"
  shows "sum_list (map (\<lambda>i. seqlens ! nat i) p) - sum_list (map (\<lambda>i. seqlens ! nat i) q) \<le> M"
proof -
  note r = kk_partitions [OF assms(1-3), of equal_size]
  obtain rs where
    rs: "karmarkar_karp seqlens k equal_size = Inr rs" "length rs = nat k" "partitions_of (length seqlens) rs"
      "\<forall>p\<in>set rs. \<forall>q\<in>set rs. part_len seqlens p - part_len seqlens q \<le> M" using r assms(4) by blast
  then have "ps = map sort rs"
    using assms(1,2,5) by (simp add: get_seqlen_balanced_partitions_def check_and_sort_ok)
  then have "part_len seqlens p - part_len seqlens q \<le> M" using assms(6,7) rs(4) sort_partitions(2) by auto
  then show ?thesis by (simp add: part_len_def)
qed

lemma kk_example: "get_seqlen_balanced_partitions [5, 1, 4] 2 False = Inr [[1, 2], [0]]"
  by code_simp

theorem balanced_partitions_balance_witness:
  "get_seqlen_balanced_partitions [5, 1, 4] 2 False = Inr [[1, 2], [0]] \<and> (1::int) + 4 - 5 \<le> 5"
  using balanced_partitions_balance [of 2 "[5, 1, 4]" 5 False "[[1, 2], [0]]" "[1, 2]" "[0]"] kk_example by simp

end
