(* ===== verification/Bin_Packing.thy ===== *)
theory Bin_Packing
  imports Partitioning
begin

text \<open>
  Best-fit-decreasing packing of sequences into micro-batches of bounded token
  count: \<open>get_seqlen_BFD_partitions\<close> of \<^verbatim>\<open>rlinf/utils/data_iter_utils.py\<close>. The
  lemmas follow the loop: no group overflows, every index is in one group, and no
  two groups would fit together, so that at most twice as many groups are opened
  as any packing needs.
\<close>

section \<open>The packing loop\<close>

text \<open>\<open>indexed_lengths\<close>: pairs of length and index, longest first; Python's sort is stable.\<close>

definition indexed_lengths :: "int list \<Rightarrow> (int \<times> int) list" where
  "indexed_lengths seq_lengths = sort_key (\<lambda>x. - fst x) (zip seq_lengths (map int [0..<length seq_lengths]))"

text \<open>
  The search for the tightest group. \<open>None\<close> stands for the initial \<open>float("inf")\<close>
  of \<open>min_remaining_after_fit\<close>, and for \<open>best_group_idx = -1\<close>.
\<close>

fun best_fit :: "int \<Rightarrow> int list \<Rightarrow> nat \<Rightarrow> (nat \<times> int) option \<Rightarrow> nat option" where
  "best_fit seq_len [] group_idx best = map_option fst best"
| "best_fit seq_len (remaining # caps) group_idx best =
     best_fit seq_len caps (Suc group_idx)
       (if remaining \<ge> seq_len
        then (let remaining_after_fit = remaining - seq_len in
              if (case best of None \<Rightarrow> True | Some (_, m) \<Rightarrow> remaining_after_fit < m)
              then Some (group_idx, remaining_after_fit) else best)
        else best)"

record bins =
  partitions :: "int list list"
  group_remaining_capacity :: "int list"

definition place :: "int \<Rightarrow> bins \<Rightarrow> int \<times> int \<Rightarrow> bins" where
  "place max_tokens g item =
     (case item of (seq_len, original_idx) \<Rightarrow>
      case best_fit seq_len (group_remaining_capacity g) 0 None of
        Some b \<Rightarrow> \<lparr>partitions = (partitions g)[b := partitions g ! b @ [original_idx]],
                    group_remaining_capacity =
                      (group_remaining_capacity g)[b := group_remaining_capacity g ! b - seq_len]\<rparr>
      | None \<Rightarrow> \<lparr>partitions = partitions g @ [[original_idx]],
                  group_remaining_capacity = group_remaining_capacity g @ [max_tokens - seq_len]\<rparr>)"

text \<open>The assertions after the loop.\<close>

definition group_total :: "int list \<Rightarrow> int list \<Rightarrow> int res" where
  "group_total seq_lengths grp = rbind (rmap (py_index seq_lengths) grp) (\<lambda>ls. Inr (sum_list ls))"

fun check_totals :: "int list \<Rightarrow> int \<Rightarrow> int list list \<Rightarrow> unit res" where
  "check_totals seq_lengths max_tokens [] = Inr ()"
| "check_totals seq_lengths max_tokens (grp # ps) =
     rbind (group_total seq_lengths grp) (\<lambda>t.
     if t \<le> max_tokens then check_totals seq_lengths max_tokens ps else Inl AssertionError)"

fun assign_indices :: "int set \<Rightarrow> int list \<Rightarrow> int set res" where
  "assign_indices assigned [] = Inr assigned"
| "assign_indices assigned (idx # idxs) =
     (if idx \<in> assigned then Inl AssertionError else assign_indices (insert idx assigned) idxs)"

definition get_seqlen_BFD_partitions :: "int list \<Rightarrow> int \<Rightarrow> int list list res" where
  "get_seqlen_BFD_partitions seq_len_list max_tokens =
     (if \<exists>x\<in>set seq_len_list. x > max_tokens then Inl ValueError
      else let ps = partitions (foldl (place max_tokens) \<lparr>partitions = [], group_remaining_capacity = []\<rparr>
                                  (indexed_lengths seq_len_list)) in
        rbind (check_totals seq_len_list max_tokens ps) (\<lambda>_.
        rbind (assign_indices {} (concat ps)) (\<lambda>assigned.
        if card assigned = length seq_len_list then Inr ps else Inl AssertionError)))"

section \<open>What the search finds\<close>

lemma best_fit_general:
  assumes "case best of None \<Rightarrow> True | Some (b, m) \<Rightarrow> b < length pre \<and> seq_len \<le> pre ! b"
    and "best = None \<Longrightarrow> \<forall>r\<in>set pre. r < seq_len"
  shows "case best_fit seq_len caps (length pre) best of
           None \<Rightarrow> \<forall>r\<in>set (pre @ caps). r < seq_len
         | Some b \<Rightarrow> b < length (pre @ caps) \<and> seq_len \<le> (pre @ caps) ! b"
  using assms
proof (induction caps arbitrary: pre best)
  case Nil
  then show ?case by (auto split: option.splits)
next
  case (Cons r caps)
  let ?best = "if r \<ge> seq_len
        then (let remaining_after_fit = r - seq_len in
              if (case best of None \<Rightarrow> True | Some (_, m) \<Rightarrow> remaining_after_fit < m)
              then Some (length pre, remaining_after_fit) else best)
        else best"
  have 1: "case ?best of None \<Rightarrow> True | Some (b, m) \<Rightarrow> b < length (pre @ [r]) \<and> seq_len \<le> (pre @ [r]) ! b"
    using Cons.prems(1) by (auto simp: nth_append Let_def split: option.splits)
  have 2: "\<forall>x\<in>set (pre @ [r]). x < seq_len" if "?best = None"
    using Cons.prems(2) that by (auto simp: Let_def split: if_splits option.splits)
  from Cons.IH [OF 1 2] show ?case
    by (simp only: best_fit.simps length_append list.size append_assoc append.simps One_nat_def add_Suc_right add_0_right)
qed

lemma best_fit_spec:
  "best_fit seq_len caps 0 None = None \<Longrightarrow> r \<in> set caps \<Longrightarrow> r < seq_len"
  "best_fit seq_len caps 0 None = Some b \<Longrightarrow> b < length caps \<and> seq_len \<le> caps ! b"
  using best_fit_general [where best = None and pre = "[]" and seq_len = seq_len and caps = caps] by simp_all

section \<open>The invariant of the loop\<close>

definition group_len :: "(int \<Rightarrow> int) \<Rightarrow> int list \<Rightarrow> int" where
  "group_len len p = sum_list (map len p)"

text \<open>Two groups that are open never fit into one: their free room is less than a whole group.\<close>

definition no_two_fit :: "int \<Rightarrow> int list \<Rightarrow> bool" where
  "no_two_fit cap caps = sorted_wrt (\<lambda>r s. r + s < cap) caps"

definition packed :: "(int \<Rightarrow> int) \<Rightarrow> int \<Rightarrow> int list \<Rightarrow> bins \<Rightarrow> bool" where
  "packed len cap placed g = (group_remaining_capacity g = map (\<lambda>p. cap - group_len len p) (partitions g)
     \<and> (\<forall>r\<in>set (group_remaining_capacity g). 0 \<le> r) \<and> (\<forall>p\<in>set (partitions g). p \<noteq> [])
     \<and> mset (concat (partitions g)) = mset placed)"

lemma mset_concat_update:
  "b < length xss \<Longrightarrow> mset (concat (xss[b := xss ! b @ [x]])) = add_mset x (mset (concat xss))"
  by (induction xss arbitrary: b) (auto split: nat.splits)

lemma packed_place:
  assumes "packed len cap placed g" "len i \<le> cap"
  shows "packed len cap (placed @ [i]) (place cap g (len i, i))"
proof (cases "best_fit (len i) (group_remaining_capacity g) 0 None")
  case None
  then show ?thesis using assms by (auto simp: packed_def place_def group_len_def)
next
  case (Some b)
  have caps: "group_remaining_capacity g = map (\<lambda>p. cap - group_len len p) (partitions g)"
    using assms(1) by (simp add: packed_def)
  from best_fit_spec(2) [OF Some] have b: "b < length (partitions g)" "len i \<le> group_remaining_capacity g ! b"
    by (auto simp: caps)
  let ?ps = "(partitions g)[b := partitions g ! b @ [i]]"
  have "(group_remaining_capacity g)[b := group_remaining_capacity g ! b - len i] = map (\<lambda>p. cap - group_len len p) ?ps"
    using b(1) by (simp add: caps map_update group_len_def algebra_simps)
  moreover have "\<forall>r\<in>set ((group_remaining_capacity g)[b := group_remaining_capacity g ! b - len i]). 0 \<le> r"
    using assms(1) b(2) set_update_subset_insert [of "group_remaining_capacity g" b] by (fastforce simp: packed_def)
  moreover have "\<forall>p\<in>set ?ps. p \<noteq> []"
    using assms(1) set_update_subset_insert [of "partitions g" b] by (fastforce simp: packed_def)
  moreover have "mset (concat ?ps) = mset (placed @ [i])"
    using assms(1) mset_concat_update [OF b(1)] by (simp add: packed_def)
  ultimately show ?thesis using Some by (simp add: packed_def place_def)
qed

lemma no_two_fit_place:
  assumes "no_two_fit cap (group_remaining_capacity g)" "0 \<le> l"
  shows "no_two_fit cap (group_remaining_capacity (place cap g (l, i)))"
proof (cases "best_fit l (group_remaining_capacity g) 0 None")
  case None
  then have "\<forall>r\<in>set (group_remaining_capacity g). r < l" using best_fit_spec(1) by blast
  then have "\<forall>r\<in>set (group_remaining_capacity g). r + (cap - l) < cap" by auto
  with None assms(1) show ?thesis by (simp add: no_two_fit_def place_def sorted_wrt_append)
next
  case (Some b)
  let ?c = "group_remaining_capacity g"
  have le: "?c[b := ?c ! b - l] ! j \<le> ?c ! j" if "j < length ?c" for j
    using assms(2) that by (cases "j = b") auto
  have "sorted_wrt (\<lambda>r s. r + s < cap) (?c[b := ?c ! b - l])"
    unfolding sorted_wrt_iff_nth_less
  proof (intro allI impI)
    fix i j assume ij: "i < j" "j < length (?c[b := ?c ! b - l])"
    then have "?c ! i + ?c ! j < cap" using assms(1) by (simp add: no_two_fit_def sorted_wrt_iff_nth_less)
    with le [of i] le [of j] ij show "?c[b := ?c ! b - l] ! i + ?c[b := ?c ! b - l] ! j < cap" by simp
  qed
  with Some show ?thesis by (simp add: place_def no_two_fit_def)
qed

lemma place_all:
  assumes "\<forall>(l, i)\<in>set items. l = len i \<and> l \<le> cap" "packed len cap placed g"
  shows "packed len cap (placed @ map snd items) (foldl (place cap) g items)"
  using assms
proof (induction items arbitrary: g placed)
  case (Cons x items)
  obtain l i where x: "x = (l, i)" by fastforce
  then have "packed len cap (placed @ [i]) (place cap g x)" using Cons.prems packed_place by auto
  from Cons.IH [OF _ this] Cons.prems(1) show ?case by (simp add: x)
qed simp

lemma no_two_fit_all:
  assumes "\<forall>(l, i)\<in>set items. 0 \<le> l" "no_two_fit cap (group_remaining_capacity g)"
  shows "no_two_fit cap (group_remaining_capacity (foldl (place cap) g items))"
  using assms
proof (induction items arbitrary: g)
  case (Cons x items)
  then show ?case using no_two_fit_place [of cap g "fst x" "snd x"] by (cases x) auto
qed simp

section \<open>The groups returned\<close>

definition seq_len_of :: "int list \<Rightarrow> int \<Rightarrow> int" where
  "seq_len_of seqlens i = seqlens ! nat i"

lemma indexed_lengths_spec:
  "mset (map snd (indexed_lengths seqlens)) = mset (map int [0..<length seqlens])"
  "\<forall>(l, i)\<in>set (indexed_lengths seqlens). l = seq_len_of seqlens i \<and> l \<in> set seqlens"
proof -
  have "map snd (zip seqlens (map int [0..<length seqlens])) = map int [0..<length seqlens]" by simp
  then show "mset (map snd (indexed_lengths seqlens)) = mset (map int [0..<length seqlens])"
    unfolding indexed_lengths_def mset_map mset_sort by (metis mset_map)
  show "\<forall>(l, i)\<in>set (indexed_lengths seqlens). l = seq_len_of seqlens i \<and> l \<in> set seqlens"
    by (auto simp: indexed_lengths_def seq_len_of_def set_zip)
qed

lemma group_total_ok:
  assumes "\<forall>i\<in>set p. 0 \<le> i \<and> i < int (length seqlens)"
  shows "group_total seqlens p = Inr (group_len (seq_len_of seqlens) p)"
proof -
  have "rmap (py_index seqlens) p = Inr (map (seq_len_of seqlens) p)"
    by (rule rmap_all_Inr) (use assms in \<open>auto simp: seq_len_of_def\<close>)
  then show ?thesis by (simp add: group_total_def group_len_def)
qed

lemma check_totals_ok:
  assumes "\<forall>p\<in>set ps. (\<forall>i\<in>set p. 0 \<le> i \<and> i < int (length seqlens)) \<and> group_len (seq_len_of seqlens) p \<le> cap"
  shows "check_totals seqlens cap ps = Inr ()"
  using assms by (induction ps) (auto simp: group_total_ok)

lemma assign_indices_ok: "distinct idxs \<Longrightarrow> set idxs \<inter> S = {} \<Longrightarrow> assign_indices S idxs = Inr (S \<union> set idxs)"
  by (induction S idxs rule: assign_indices.induct) auto

lemma bfd_groups:
  assumes "\<forall>x\<in>set seqlens. x \<le> cap"
  shows "\<exists>g. get_seqlen_BFD_partitions seqlens cap = Inr (partitions g)
    \<and> packed (seq_len_of seqlens) cap (map int [0..<length seqlens]) g
    \<and> ((\<forall>x\<in>set seqlens. 0 \<le> x) \<longrightarrow> no_two_fit cap (group_remaining_capacity g))"
proof -
  let ?items = "indexed_lengths seqlens" and ?start = "\<lparr>partitions = [], group_remaining_capacity = []\<rparr>"
  let ?g = "foldl (place cap) ?start ?items"
  have "\<forall>(l, i)\<in>set ?items. l = seq_len_of seqlens i \<and> l \<le> cap"
    using indexed_lengths_spec(2) [of seqlens] assms by fastforce
  moreover have "packed (seq_len_of seqlens) cap [] ?start" by (simp add: packed_def)
  ultimately have "packed (seq_len_of seqlens) cap ([] @ map snd ?items) ?g" by (rule place_all)
  then have p: "packed (seq_len_of seqlens) cap (map int [0..<length seqlens]) ?g"
    unfolding packed_def append_Nil indexed_lengths_spec(1) by blast
  then have ms: "mset (concat (partitions ?g)) = mset (map int [0..<length seqlens])" by (simp add: packed_def)
  then have st: "set (concat (partitions ?g)) = set (map int [0..<length seqlens])" by (metis set_mset_mset)
  have d: "distinct (concat (partitions ?g))" using mset_eq_imp_distinct_iff [OF ms] by (simp add: distinct_map)
  have caps: "\<forall>q\<in>set (partitions ?g). group_len (seq_len_of seqlens) q \<le> cap"
    using p by (auto simp: packed_def)
  have rng: "\<forall>q\<in>set (partitions ?g). \<forall>i\<in>set q. 0 \<le> i \<and> i < int (length seqlens)"
  proof (intro ballI)
    fix q i assume "q \<in> set (partitions ?g)" "i \<in> set q"
    then have "i \<in> set (concat (partitions ?g))" by auto
    then show "0 \<le> i \<and> i < int (length seqlens)" unfolding st by auto
  qed
  have chk: "check_totals seqlens cap (partitions ?g) = Inr ()" by (rule check_totals_ok) (use caps rng in blast)
  have asg: "assign_indices {} (concat (partitions ?g)) = Inr (set (map int [0..<length seqlens]))"
    using assign_indices_ok [OF d, of "{}"] st by simp
  have "card (set (map int [0..<length seqlens])) = length seqlens" by (simp add: card_image)
  then have "get_seqlen_BFD_partitions seqlens cap = Inr (partitions ?g)"
    using assms chk asg by (auto simp: get_seqlen_BFD_partitions_def Let_def not_less)
  moreover have "no_two_fit cap (group_remaining_capacity ?g)" if "\<forall>x\<in>set seqlens. 0 \<le> x"
    using indexed_lengths_spec(2) [of seqlens] that by (intro no_two_fit_all) (auto simp: no_two_fit_def)
  ultimately show ?thesis using p by blast
qed

lemma bfd_ok:
  assumes "\<forall>x\<in>set seqlens. x \<le> cap"
  shows "\<exists>ps. get_seqlen_BFD_partitions seqlens cap = Inr ps \<and> mset (concat ps) = mset (map int [0..<length seqlens])
    \<and> (\<forall>p\<in>set ps. p \<noteq> [] \<and> sum_list (map (\<lambda>i. seqlens ! nat i) p) \<le> cap)"
proof -
  obtain g where g: "get_seqlen_BFD_partitions seqlens cap = Inr (partitions g)"
      "packed (seq_len_of seqlens) cap (map int [0..<length seqlens]) g"
    using bfd_groups [OF assms] by blast
  then have "\<forall>p\<in>set (partitions g). p \<noteq> [] \<and> sum_list (map (\<lambda>i. seqlens ! nat i) p) \<le> cap"
    by (auto simp: packed_def group_len_def seq_len_of_def [abs_def])
  then show ?thesis using g by (auto simp: packed_def)
qed

interpretation bfd: partitioner get_seqlen_BFD_partitions "\<lambda>lens cap. \<forall>x\<in>set lens. x \<le> cap"
proof
  fix lens :: "int list" and cap :: int and ps p
  assume ok: "\<forall>x\<in>set lens. x \<le> cap"
  note r = bfd_ok [OF ok]
  show "\<exists>ps. get_seqlen_BFD_partitions lens cap = Inr ps" using r by blast
  assume ps: "get_seqlen_BFD_partitions lens cap = Inr ps"
  show "mset (concat ps) = mset (map int [0..<length lens])" using r ps by auto
  show "p \<noteq> []" if "p \<in> set ps" using r ps that by auto
qed

text \<open>
  When no sequence is longer than the threshold, \<open>get_seqlen_BFD_partitions\<close>
  passes all its own assertions: it returns non-empty groups that together hold
  every index once and whose total lengths stay within the threshold.
\<close>

lemma bfd_partitions_total:
  assumes "\<forall>x\<in>set seqlens. x \<le> cap"
  shows "\<exists>ps. get_seqlen_BFD_partitions seqlens cap = Inr ps \<and> mset (concat ps) = mset (map int [0..<length seqlens])
    \<and> (\<forall>p\<in>set ps. p \<noteq> [] \<and> sum_list (map (\<lambda>i. seqlens ! nat i) p) \<le> cap)"
  using assms by (rule bfd_ok)

lemma pairwise_sum_bound:
  fixes xs :: "int list"
  assumes "\<And>i j. i < j \<Longrightarrow> j < length xs \<Longrightarrow> c < xs ! i + xs ! j" "2 \<le> length xs"
  shows "int (length xs) * c < 2 * sum_list xs"
proof -
  let ?n = "length xs"
  have 1: "c < xs ! i + rotate1 xs ! i" if "i < ?n" for i
  proof -
    have "rotate1 xs ! i = xs ! (Suc i mod ?n)" using that by (simp add: nth_rotate1)
    moreover have "c < xs ! i + xs ! (Suc i mod ?n)"
    proof (cases "Suc i < ?n")
      case True then show ?thesis using assms(1) [of i "Suc i"] by simp
    next
      case False
      then have "Suc i = ?n" using that by simp
      then show ?thesis using assms(1) [of 0 i] assms(2) by (simp add: add.commute)
    qed
    ultimately show ?thesis by simp
  qed
  have "2 * sum_list xs = sum_list xs + sum_list (rotate1 xs)"
    by (cases xs) auto
  also have "\<dots> = (\<Sum>i<?n. xs ! i + rotate1 xs ! i)"
    by (simp add: sum_list_sum_nth atLeast0LessThan sum.distrib)
  also have "\<dots> > (\<Sum>i<?n. c)" 
  proof (rule sum_strict_mono)
    show "{..<?n} \<noteq> {}" using assms(2) by (auto simp: lessThan_def intro!: exI [of _ 0])
  qed (use 1 in auto)
  finally show ?thesis by simp
qed

text \<open>
  The number of micro-batches is within a factor of two of any packing:
  if the sequences can be packed into the groups \<open>qs\<close> within the threshold, fewer
  than \<open>2 * length qs\<close> groups are opened.
\<close>

lemma bfd_two_approximation:
  assumes "\<forall>x\<in>set seqlens. 0 \<le> x"
    and "get_seqlen_BFD_partitions seqlens cap = Inr ps" "ps \<noteq> []"
    and "mset (concat qs) = mset (map int [0..<length seqlens])"
    and "\<forall>q\<in>set qs. sum_list (map (\<lambda>i. seqlens ! nat i) q) \<le> cap"
  shows "length ps < 2 * length qs"
proof -
  let ?len = "seq_len_of seqlens"
  have "\<forall>x\<in>set seqlens. x \<le> cap"
    using assms(2) by (metis get_seqlen_BFD_partitions_def not_less sum.distinct(1))
  then obtain g where "get_seqlen_BFD_partitions seqlens cap = Inr (partitions g)"
      "packed ?len cap (map int [0..<length seqlens]) g" "no_two_fit cap (group_remaining_capacity g)"
    using bfd_groups assms(1) by blast
  with assms(2) have ps: "mset (concat ps) = mset (map int [0..<length seqlens])" "\<forall>p\<in>set ps. p \<noteq> []"
      "no_two_fit cap (map (\<lambda>p. cap - group_len ?len p) ps)"
    by (auto simp: packed_def)
  have "sum_list (map ?len (concat ps)) = sum_list (map ?len (concat qs))"
    unfolding sum_mset_sum_list [symmetric] mset_map ps(1) assms(4) ..
  then have tot: "sum_list (map (group_len ?len) ps) = sum_list (map (group_len ?len) qs)"
    by (simp add: sum_list_concat_map group_len_def [abs_def])
  have "\<forall>q\<in>set qs. group_len ?len q \<le> cap" using assms(5) by (simp add: group_len_def seq_len_of_def [abs_def])
  then have le: "sum_list (map (group_len ?len) qs) \<le> int (length qs) * cap"
    using sum_list_mono [of qs "group_len ?len" "\<lambda>_. cap"] by (simp add: sum_list_triv)
  show ?thesis
  proof (cases "2 \<le> length ps")
    case True
    have "cap < group_len ?len (ps ! i) + group_len ?len (ps ! j)" if "i < j" "j < length ps" for i j
      using ps(3) that by (force simp: no_two_fit_def sorted_wrt_iff_nth_less)
    then have "int (length ps) * cap < 2 * sum_list (map (group_len ?len) ps)"
      using pairwise_sum_bound [of "map (group_len ?len) ps" cap] True by simp
    also have "\<dots> \<le> int (2 * length qs) * cap" using le by (simp add: tot)
    finally have lt: "int (length ps) * cap < int (2 * length qs) * cap" .
    have "0 \<le> cap"
    proof -
      have "seqlens \<noteq> []" using ps(1,2) assms(3) by (cases ps) auto
      then obtain x where "x \<in> set seqlens" by (cases seqlens) auto
      then show ?thesis using assms(1) \<open>\<forall>x\<in>set seqlens. x \<le> cap\<close> by force
    qed
    with lt show ?thesis using mult_less_cancel_right [of "int (length ps)" cap "int (2 * length qs)"] by linarith
  next
    case False
    then have "length ps = 1" using assms(3) length_0_conv [of ps] by linarith
    moreover have "qs \<noteq> []" using ps(1,2) assms(3,4) by (cases ps) auto
    ultimately show ?thesis by (cases qs) auto
  qed
qed

lemma bfd_example: "get_seqlen_BFD_partitions [5, 5, 4, 3, 3] 10 = Inr [[0, 1], [2, 3, 4]]"
  by code_simp

end
