(* ===== verification/Dynamic_Batch.thy ===== *)
theory Dynamic_Batch
  imports Karmarkar_Karp Bin_Packing
begin

text \<open>
  Dynamic micro-batching: \<open>get_iterator_dynamic\<close> and \<open>split_dynamic_batch_size\<close> of
  \<^verbatim>\<open>rlinf/utils/data_iter_utils.py\<close>. A batch is a dictionary from names to
  columns, one entry per sequence. What comes from torch is a parameter, in the
  record \<open>dyn_env\<close>: the entry a row contributes to a sum, the sum of an attention
  mask row and the width of the mask, and the two reductions over the data
  parallel group; the second one gets the current number of micro-batches too,
  because every round of the loop is a different call.
\<close>

section \<open>Batches and micro-batches\<close>

datatype 'r batch_value = TensorVal "'r list" | ListVal "'r list" | OtherVal

type_synonym 'r batch = "(string \<times> 'r batch_value) list"
type_synonym 'r micro = "(string \<times> 'r list) list"

record 'r dyn_env =
  is_initialized :: bool
  row_int :: "'r \<Rightarrow> int"
  mask_sum :: "'r \<Rightarrow> int"
  mask_width :: "'r list \<Rightarrow> int"
  all_reduce_max :: "int \<Rightarrow> int"
  all_reduce_min :: "int \<Rightarrow> int \<Rightarrow> int"

definition dict_get :: "(string \<times> 'v) list \<Rightarrow> string \<Rightarrow> 'v res" where
  "dict_get d k = (case map_of d k of None \<Rightarrow> Inl KeyError | Some v \<Rightarrow> Inr v)"

fun columns :: "'r batch \<Rightarrow> (string \<times> 'r list) list" where
  "columns [] = []"
| "columns ((k, TensorVal rows) # b) = (k, rows) # columns b"
| "columns ((k, ListVal rows) # b) = (k, rows) # columns b"
| "columns ((k, OtherVal) # b) = columns b"

definition curr_batch :: "'r batch \<Rightarrow> int list \<Rightarrow> 'r micro res" where
  "curr_batch batch p =
     rmap (\<lambda>(key, rows). rbind (rmap (py_index rows) p) (\<lambda>rs. Inr (key, rs))) (columns batch)"

definition micro_tokens :: "('r \<Rightarrow> int) \<Rightarrow> 'r micro \<Rightarrow> int res" where
  "micro_tokens tok cur =
     rbind (dict_get cur ''prompt_lengths'') (\<lambda>ps.
     rbind (dict_get cur ''response_lengths'') (\<lambda>rs.
     Inr (sum_list (map tok ps) + sum_list (map tok rs))))"

text \<open>The loop over the partitions, with its \<open>break\<close>; the flag is \<open>valid_max_token\<close>.\<close>

fun micro_loop :: "('r \<Rightarrow> int) \<Rightarrow> int \<Rightarrow> 'r batch \<Rightarrow> int list list \<Rightarrow> ('r micro list \<times> bool) res" where
  "micro_loop tok max_tokens batch [] = Inr ([], True)"
| "micro_loop tok max_tokens batch (p # ps) =
     rbind (curr_batch batch p) (\<lambda>cur.
     rbind (micro_tokens tok cur) (\<lambda>t.
     if t > max_tokens then Inr ([cur], False)
     else rbind (micro_loop tok max_tokens batch ps) (\<lambda>(ms, valid). Inr (cur # ms, valid))))"

text \<open>The \<open>while\<close> loop. It ends because one more partition than rows is refused.\<close>

function partition_loop ::
  "'r dyn_env \<Rightarrow> int \<Rightarrow> 'r batch \<Rightarrow> int list \<Rightarrow> int \<Rightarrow> ('r micro list \<times> int list list) res" where
  "partition_loop env max_tokens batch seqlens num_micro_batches =
     rbind (get_seqlen_balanced_partitions seqlens num_micro_batches False) (\<lambda>ps.
     rbind (micro_loop (row_int env) max_tokens batch ps) (\<lambda>r.
     if all_reduce_min env num_micro_batches (if snd r then 1 else 0) = 0
     then partition_loop env max_tokens batch seqlens (num_micro_batches + 1)
     else Inr (fst r, ps)))"
  by pat_completeness auto
termination
  by (relation "measure (\<lambda>(env, m, b, seqlens, k). nat (int (length seqlens) + 1 - k))")
    (auto dest: balanced_range(2))

declare partition_loop.simps [simp del]

definition ceildiv :: "int \<Rightarrow> int \<Rightarrow> int res" where
  "ceildiv a b = rbind (py_div a (- b)) (\<lambda>q. Inr (- q))"

definition roundup_divisible :: "int \<Rightarrow> int \<Rightarrow> int res" where
  "roundup_divisible a b = rbind (py_div (a + b - 1) b) (\<lambda>q. Inr (q * b))"

definition attention_column :: "'r batch \<Rightarrow> 'r list res" where
  "attention_column batch = rbind (dict_get batch ''attention_mask'') (\<lambda>v.
     case v of TensorVal rows \<Rightarrow> Inr rows | _ \<Rightarrow> Inl AttributeError)"

text \<open>How many micro-batches the loop starts with.\<close>

definition start_micro_batches ::
  "'r dyn_env \<Rightarrow> int list \<Rightarrow> int \<Rightarrow> int option \<Rightarrow> bool \<Rightarrow> int option \<Rightarrow> int res" where
  "start_micro_batches env seqlens max_tokens num_batches_divided_by same_micro_num_in_dp min_num_micro_batch =
     rbind (get_seqlen_BFD_partitions seqlens max_tokens) (\<lambda>bins.
     let n0 = int (length bins);
         n1 = (case min_num_micro_batch of None \<Rightarrow> n0 | Some m \<Rightarrow> max m n0);
         n2 = (if same_micro_num_in_dp then all_reduce_max env n1 else n1)
     in case num_batches_divided_by of None \<Rightarrow> Inr n2 | Some b \<Rightarrow> roundup_divisible n2 b)"

definition get_iterator_dynamic ::
  "'r dyn_env \<Rightarrow> 'r batch \<Rightarrow> int \<Rightarrow> int option \<Rightarrow> bool \<Rightarrow> int option \<Rightarrow>
   ('r micro list \<times> int list list \<times> int) res" where
  "get_iterator_dynamic env batch max_tokens num_batches_divided_by same_micro_num_in_dp min_num_micro_batch =
     (if \<not> is_initialized env then Inl AssertionError
      else rbind (attention_column batch) (\<lambda>mrows.
      if \<not> max_tokens \<ge> mask_width env mrows then Inl AssertionError
      else let seqlens = map (mask_sum env) mrows in
      rbind (start_micro_batches env seqlens max_tokens num_batches_divided_by
               same_micro_num_in_dp min_num_micro_batch) (\<lambda>k.
      rbind (partition_loop env max_tokens batch seqlens k) (\<lambda>(microbatches, ps).
      Inr (microbatches, ps, int (length microbatches))))))"

definition split_dynamic_batch_size ::
  "'r dyn_env \<Rightarrow> 'r batch \<Rightarrow> int \<Rightarrow> int option \<Rightarrow> int \<Rightarrow> int \<Rightarrow>
   ('r micro list \<times> int \<times> int \<times> int list list) res" where
  "split_dynamic_batch_size env batch cp_world_size vpp_world_size max_tokens_per_mbs group_size =
     (let max_tokens = max_tokens_per_mbs * cp_world_size in
      if (case vpp_world_size of None \<Rightarrow> False | Some v \<Rightarrow> v > 1)
      then rbind (get_iterator_dynamic env batch max_tokens (Some group_size) True None) (\<lambda>(data_iter, indices, n).
           rbind (py_mod n group_size) (\<lambda>m.
           if m \<noteq> 0 then Inl AssertionError else Inr (data_iter, max_tokens, n, indices)))
      else rbind (get_iterator_dynamic env batch max_tokens None True None) (\<lambda>(data_iter, indices, n).
           Inr (data_iter, max_tokens, n, indices)))"

section \<open>The branch for a list of tensors\<close>

text \<open>
  The other branch of \<open>get_iterator_dynamic\<close>. Its loop indexes the micro-batch,
  which is a list here, with the names \<open>"prompt_lengths"\<close> and \<open>"response_lengths"\<close>.
  A result \<open>None\<close> is the bare empty iterator of the early return.
\<close>

datatype 'r batch_item = TensorItem "'r list" | ListItem "'r list" | NoneItem | OtherItem

definition curr_item :: "int list \<Rightarrow> 'r batch_item \<Rightarrow> 'r list option res" where
  "curr_item p item =
     (case item of
        TensorItem rows \<Rightarrow> rbind (rmap (py_index rows) p) (\<lambda>rs. Inr (Some rs))
      | ListItem rows \<Rightarrow>
          if rows = [] then Inl IndexError else rbind (rmap (py_index rows) p) (\<lambda>rs. Inr (Some rs))
      | NoneItem \<Rightarrow> Inr None
      | OtherItem \<Rightarrow> Inl ValueError)"

definition list_index_str :: "'a list \<Rightarrow> string \<Rightarrow> 'a list res" where
  "list_index_str xs name = Inl TypeError"

fun item_loop :: "('r \<Rightarrow> int) \<Rightarrow> int \<Rightarrow> 'r batch_item list \<Rightarrow> int list list \<Rightarrow> ('r list option list list \<times> bool) res" where
  "item_loop tok max_tokens batch [] = Inr ([], True)"
| "item_loop tok max_tokens batch (p # ps) =
     rbind (rmap (curr_item p) batch) (\<lambda>cur.
     rbind (list_index_str cur ''prompt_lengths'') (\<lambda>pl.
     rbind (list_index_str cur ''response_lengths'') (\<lambda>rl.
     if (\<Sum>c\<leftarrow>pl @ rl. case c of None \<Rightarrow> 0 | Some rows \<Rightarrow> sum_list (map tok rows)) > max_tokens then Inr ([cur], False)
     else rbind (item_loop tok max_tokens batch ps) (\<lambda>(ms, valid). Inr (cur # ms, valid)))))"

function item_partition_loop ::
  "'r dyn_env \<Rightarrow> int \<Rightarrow> 'r batch_item list \<Rightarrow> int list \<Rightarrow> int \<Rightarrow> ('r list option list list \<times> int list list) res" where
  "item_partition_loop env max_tokens batch seqlens num_micro_batches =
     rbind (get_seqlen_balanced_partitions seqlens num_micro_batches False) (\<lambda>ps.
     rbind (item_loop (row_int env) max_tokens batch ps) (\<lambda>r.
     if all_reduce_min env num_micro_batches (if snd r then 1 else 0) = 0
     then item_partition_loop env max_tokens batch seqlens (num_micro_batches + 1)
     else Inr (fst r, ps)))"
  by pat_completeness auto
termination
  by (relation "measure (\<lambda>(env, m, b, seqlens, k). nat (int (length seqlens) + 1 - k))")
    (auto dest: balanced_range(2))

declare item_partition_loop.simps [simp del]

definition get_iterator_dynamic_items ::
  "'r dyn_env \<Rightarrow> 'r batch_item list \<Rightarrow> int \<Rightarrow> int option \<Rightarrow> bool \<Rightarrow> int option \<Rightarrow>
   ('r list option list list \<times> int list list \<times> int) option res" where
  "get_iterator_dynamic_items env batch max_tokens num_batches_divided_by same_micro_num_in_dp min_num_micro_batch =
     (if \<not> is_initialized env then Inl AssertionError
      else if batch = [] then Inr None
      else rbind (py_index batch 1) (\<lambda>item.
      case item of
        TensorItem mrows \<Rightarrow>
          if \<not> max_tokens \<ge> mask_width env mrows then Inl AssertionError
          else let seqlens = map (mask_sum env) mrows in
          rbind (start_micro_batches env seqlens max_tokens num_batches_divided_by
                   same_micro_num_in_dp min_num_micro_batch) (\<lambda>k.
          rbind (item_partition_loop env max_tokens batch seqlens k) (\<lambda>(microbatches, ps).
          Inr (Some (microbatches, ps, int (length microbatches)))))
      | _ \<Rightarrow> Inl AttributeError))"

text \<open>
  The branch for a list of tensors never produces micro-batches: on every
  non-empty list it raises, because \<open>curr_batch["prompt_lengths"]\<close> indexes a list
  with a string.
\<close>

lemma list_batch_always_raises:
  assumes "batch \<noteq> []"
  shows "\<exists>e. get_iterator_dynamic_items env batch max_tokens div_by same min_num = Inl e"
proof -
  have "item_partition_loop env max_tokens batch seqlens k \<noteq> Inr r" for seqlens k r
  proof
    assume "item_partition_loop env max_tokens batch seqlens k = Inr r"
    then obtain ps r' where ps: "get_seqlen_balanced_partitions seqlens k False = Inr ps"
        "item_loop (row_int env) max_tokens batch ps = Inr r'"
      by (subst (asm) item_partition_loop.simps) (auto simp: res_elims)
    have "ps \<noteq> []" using balanced_range(1,3) [OF ps(1)] by auto
    with ps(2) show False by (cases ps) (auto simp: res_elims list_index_str_def)
  qed
  then have "get_iterator_dynamic_items env batch max_tokens div_by same min_num \<noteq> Inr r" for r
    using assms by (auto simp: get_iterator_dynamic_items_def res_elims Let_def split: if_splits batch_item.splits)
  then show ?thesis by (metis obj_sumE)
qed

section \<open>What the loop returns\<close>

definition rectangular :: "nat \<Rightarrow> 'r batch \<Rightarrow> bool" where
  "rectangular n batch = (\<forall>(key, rows)\<in>set (columns batch). length rows = n)"

text \<open>The rows of a batch that one partition selects.\<close>

definition select_rows :: "'r batch \<Rightarrow> int list \<Rightarrow> 'r micro" where
  "select_rows batch p = map (\<lambda>(key, rows). (key, map (row_of rows) p)) (columns batch)"

lemma curr_batch_ok:
  assumes "rectangular n batch" "\<forall>i\<in>set p. 0 \<le> i \<and> i < int n"
  shows "curr_batch batch p = Inr (select_rows batch p)"
  unfolding curr_batch_def select_rows_def
proof (rule rmap_all_Inr)
  fix x assume "x \<in> set (columns batch)"
  moreover obtain key rows where x: "x = (key, rows)" by fastforce
  ultimately have "length rows = n" using assms(1) by (auto simp: rectangular_def)
  then have "rmap (py_index rows) p = Inr (map (row_of rows) p)"
    by (intro rmap_all_Inr) (use assms(2) in \<open>auto simp: row_of_def\<close>)
  then show "(case x of (key, rows) \<Rightarrow> rbind (rmap (py_index rows) p) (\<lambda>rs. Inr (key, rs))) =
      Inr (case x of (key, rows) \<Rightarrow> (key, map (row_of rows) p))" by (simp add: x)
qed

lemma columns_tensor: "map_of batch key = Some (TensorVal rows) \<Longrightarrow> (key, rows) \<in> set (columns batch)"
  by (induction batch rule: columns.induct) (auto split: if_splits)

lemma attention_column_length:
  assumes "attention_column batch = Inr mrows" "rectangular n batch"
  shows "length mrows = n"
proof -
  have "map_of batch ''attention_mask'' = Some (TensorVal mrows)"
    using assms(1) by (auto simp: attention_column_def dict_get_def res_elims split: option.splits batch_value.splits)
  from columns_tensor [OF this] show ?thesis using assms(2) by (auto simp: rectangular_def)
qed

text \<open>A partition fits when its prompts and responses stay within the threshold.\<close>

definition fits :: "('r \<Rightarrow> int) \<Rightarrow> int \<Rightarrow> 'r micro \<Rightarrow> bool" where
  "fits tok max_tokens m = (case micro_tokens tok m of Inl _ \<Rightarrow> False | Inr t \<Rightarrow> t \<le> max_tokens)"

lemma fits_iff: "fits tok max_tokens m \<longleftrightarrow> (\<exists>t. micro_tokens tok m = Inr t \<and> t \<le> max_tokens)"
  by (auto simp: fits_def split: sum.splits)

lemma micro_loop_valid:
  assumes "micro_loop tok max_tokens batch ps = Inr (ms, True)" "rectangular n batch"
    and "\<forall>p\<in>set ps. \<forall>i\<in>set p. 0 \<le> i \<and> i < int n"
  shows "ms = map (select_rows batch) ps \<and> (\<forall>m\<in>set ms. fits tok max_tokens m)"
  using assms
proof (induction ps arbitrary: ms)
  case (Cons p ps)
  then have "curr_batch batch p = Inr (select_rows batch p)" by (intro curr_batch_ok) auto
  with Cons show ?case by (auto simp: res_elims fits_def split: if_splits)
qed simp

lemma micro_loop_total:
  assumes "rectangular n batch" "\<forall>p\<in>set ps. \<forall>i\<in>set p. 0 \<le> i \<and> i < int n"
    and "\<forall>p\<in>set ps. \<exists>t. micro_tokens tok (select_rows batch p) = Inr t"
  shows "\<exists>ms valid. micro_loop tok max_tokens batch ps = Inr (ms, valid)
    \<and> (valid \<longleftrightarrow> (\<forall>p\<in>set ps. fits tok max_tokens (select_rows batch p)))"
  using assms
proof (induction ps)
  case (Cons p ps)
  then have 1: "curr_batch batch p = Inr (select_rows batch p)" by (intro curr_batch_ok) auto
  from Cons.prems obtain t where 2: "micro_tokens tok (select_rows batch p) = Inr t" by auto
  obtain ms valid where "micro_loop tok max_tokens batch ps = Inr (ms, valid)"
      "valid \<longleftrightarrow> (\<forall>p\<in>set ps. fits tok max_tokens (select_rows batch p))"
    using Cons by auto
  with 1 2 show ?case by (auto simp: fits_def)
qed auto

lemma kk_accepted:
  assumes "get_seqlen_balanced_partitions seqlens k False = Inr ps" "\<forall>x\<in>set seqlens. 0 \<le> x"
  shows "0 < k \<and> k \<le> int (length seqlens) \<and> (\<forall>x\<in>set seqlens. 0 \<le> x)"
  using balanced_range [OF assms(1)] assms(2) by blast

lemma partition_loop_sound:
  assumes "partition_loop env max_tokens batch seqlens k = Inr (ms, ps)" "rectangular (length seqlens) batch"
    and "\<forall>x\<in>set seqlens. 0 \<le> x" "\<forall>k. all_reduce_min env k 0 = 0"
  shows "ms = map (select_rows batch) ps \<and> (\<forall>m\<in>set ms. fits (row_int env) max_tokens m)
    \<and> mset (concat ps) = mset (map int [0..<length seqlens])"
  using assms
proof (induction env max_tokens batch seqlens k rule: partition_loop.induct)
  case (1 env max_tokens batch seqlens k)
  from "1.prems"(1) obtain qs r where qs: "get_seqlen_balanced_partitions seqlens k False = Inr qs"
    and r: "micro_loop (row_int env) max_tokens batch qs = Inr r"
    and out: "(if all_reduce_min env k (if snd r then 1 else 0) = 0
       then partition_loop env max_tokens batch seqlens (k + 1) else Inr (fst r, qs)) = Inr (ms, ps)"
    by (subst (asm) partition_loop.simps) (auto simp: res_elims)
  show ?case
  proof (cases "all_reduce_min env k (if snd r then 1 else 0) = 0")
    case True
    then show ?thesis using "1.IH" [OF qs r True] out "1.prems" by simp
  next
    case False
    with "1.prems"(4) have "snd r" by (cases "snd r") auto
    with False out r have "micro_loop (row_int env) max_tokens batch ps = Inr (ms, True)" "qs = ps"
      by (cases r; simp)+
    moreover note acc = kk_accepted [OF qs "1.prems"(3)]
    ultimately show ?thesis
      using micro_loop_valid [of "row_int env" max_tokens batch ps ms "length seqlens"] "1.prems"(2)
        kk.parts_range [OF acc qs] kk.parts_cover [OF acc qs] by blast
  qed
qed

text \<open>
  C38. When \<open>get_iterator_dynamic\<close> returns, its micro-batches are the rows that its
  partitions select, every row is in exactly one of them, their number is the
  number it reports, and none of them has more tokens than the threshold.
\<close>

theorem dynamic_iterator_sound:
  assumes "get_iterator_dynamic env batch max_tokens div_by same min_num = Inr (ms, ps, n)"
    and "attention_column batch = Inr mrows" "rectangular (length mrows) batch"
    and "\<forall>r\<in>set mrows. 0 \<le> mask_sum env r" "\<forall>k. all_reduce_min env k 0 = 0"
  shows "n = int (length ms) \<and> ms = map (select_rows batch) ps
    \<and> mset (concat ps) = mset (map int [0..<length mrows])
    \<and> (\<forall>m\<in>set ms. \<exists>t. micro_tokens (row_int env) m = Inr t \<and> t \<le> max_tokens)"
proof -
  let ?lens = "map (mask_sum env) mrows"
  obtain k where "partition_loop env max_tokens batch ?lens k = Inr (ms, ps)" and n: "n = int (length ms)"
    using assms(1,2) by (auto simp: get_iterator_dynamic_def Let_def res_elims split: if_splits)
  from partition_loop_sound [OF this(1)] assms(3-5) show ?thesis
    by (simp add: n fits_iff)
qed

section \<open>A process on its own always gets its micro-batches\<close>

definition single_process :: "'r dyn_env \<Rightarrow> bool" where
  "single_process env = (is_initialized env \<and> all_reduce_max env = (\<lambda>n. n) \<and> all_reduce_min env = (\<lambda>k v. v))"

definition row_tokens :: "('r \<Rightarrow> int) \<Rightarrow> 'r batch \<Rightarrow> int \<Rightarrow> int res" where
  "row_tokens tok batch i = micro_tokens tok (select_rows batch [i])"

lemma dict_get_select:
  "dict_get (select_rows batch p) key = rbind (dict_get (columns batch) key) (\<lambda>rows. Inr (map (row_of rows) p))"
  by (simp add: dict_get_def select_rows_def map_of_map [of "\<lambda>rows. map (row_of rows) p", simplified] split: option.split)

lemma micro_tokens_total:
  assumes "dict_get (columns batch) ''prompt_lengths'' = Inr prompts"
    and "dict_get (columns batch) ''response_lengths'' = Inr responses"
  shows "micro_tokens tok (select_rows batch p)
    = Inr (\<Sum>i\<leftarrow>p. tok (row_of prompts i) + tok (row_of responses i))"
  by (simp add: micro_tokens_def dict_get_select assms comp_def sum_list_addf)

lemma partition_loop_returns:
  assumes "rectangular (length seqlens) batch" "\<forall>x\<in>set seqlens. 0 \<le> x" "all_reduce_min env = (\<lambda>k v. v)"
    and "dict_get (columns batch) ''prompt_lengths'' = Inr prompts"
    and "dict_get (columns batch) ''response_lengths'' = Inr responses"
    and "\<forall>i. 0 \<le> i \<and> i < int (length seqlens) \<longrightarrow>
      row_int env (row_of prompts i) + row_int env (row_of responses i) \<le> max_tokens"
    and "0 < k" "k \<le> int (length seqlens)"
  shows "\<exists>ms ps. partition_loop env max_tokens batch seqlens k = Inr (ms, ps)"
  using assms
proof (induction env max_tokens batch seqlens k rule: partition_loop.induct)
  case (1 env max_tokens batch seqlens k)
  have acc: "0 < k \<and> k \<le> int (length seqlens) \<and> (\<forall>x\<in>set seqlens. 0 \<le> x)" using "1.prems" by blast
  obtain ps where ps: "get_seqlen_balanced_partitions seqlens k False = Inr ps" using kk.parts_total [OF acc] by blast
  have rng: "\<forall>p\<in>set ps. \<forall>i\<in>set p. 0 \<le> i \<and> i < int (length seqlens)" using kk.parts_range [OF acc ps] by blast
  note mt = micro_tokens_total [OF "1.prems"(4,5), of "row_int env"]
  obtain ms valid where ms: "micro_loop (row_int env) max_tokens batch ps = Inr (ms, valid)"
    and valid: "valid \<longleftrightarrow> (\<forall>p\<in>set ps. fits (row_int env) max_tokens (select_rows batch p))"
    using micro_loop_total [OF "1.prems"(1) rng] mt by blast
  show ?case
  proof (cases valid)
    case True
    with ps ms "1.prems"(3) show ?thesis by (subst partition_loop.simps) simp
  next
    case False
    have "k \<noteq> int (length seqlens)"
    proof
      assume "k = int (length seqlens)"
      then have "length ps = length seqlens" using balanced_range(3) [OF ps] by simp
      have "fits (row_int env) max_tokens (select_rows batch p)" if "p \<in> set ps" for p
      proof -
        have "length p = 1" by (rule kk.parts_singletons [OF acc ps]) fact+
        then obtain i where "p = [i]" by (cases p) auto
        then show ?thesis using rng that "1.prems"(6) by (simp add: fits_def mt)
      qed
      with valid False show False by blast
    qed
    then have "\<exists>ms ps. partition_loop env max_tokens batch seqlens (k + 1) = Inr (ms, ps)"
      using "1.IH" [OF ps ms] "1.prems" False by simp
    with ps ms False "1.prems"(3) show ?thesis by (subst partition_loop.simps) simp
  qed
qed

lemma roundup_divisible_bounds:
  assumes "0 < b" "b dvd n" "0 < a" "a \<le> n"
  shows "\<exists>k. roundup_divisible a b = Inr k \<and> a \<le> k \<and> k \<le> n \<and> b dvd k"
proof -
  let ?q = "(a + b - 1) div b"
  have eq: "?q = ceil_div a b"
  proof -
    have "?q * b \<le> a + b - 1" using le_div_iff_int [OF assms(1), of ?q "a + b - 1"] by simp
    moreover have "a + b - 1 < (?q + 1) * b" using div_less_iff_int [OF assms(1), of "a + b - 1" "?q + 1"] by simp
    ultimately have "a \<le> ?q * b" "\<not> a \<le> (?q - 1) * b" by (simp_all add: algebra_simps)
    then have "ceil_div a b \<le> ?q" "\<not> ceil_div a b \<le> ?q - 1"
      using ceil_div_le_iff [OF assms(1), of a ?q] ceil_div_le_iff [OF assms(1), of a "?q - 1"] by blast+
    then show ?thesis by simp
  qed
  obtain m where m: "n = m * b" using assms(2) by (metis dvdE mult.commute)
  have "a \<le> ?q * b" using ceil_div_le_iff [OF assms(1), of a ?q] by (simp add: eq)
  moreover have "?q \<le> m" using ceil_div_le_iff [OF assms(1), of a m] assms(4) by (simp add: eq m)
  then have "?q * b \<le> n" using assms(1) by (simp add: m mult_right_mono)
  ultimately show ?thesis using assms(1) by (simp add: roundup_divisible_def)
qed

lemma start_micro_batches_bounds:
  assumes "all_reduce_max env = (\<lambda>n. n)" "seqlens \<noteq> []" "\<forall>x\<in>set seqlens. x \<le> max_tokens"
    and "case min_num of None \<Rightarrow> True | Some m \<Rightarrow> m \<le> int (length seqlens)"
    and "case div_by of None \<Rightarrow> True | Some b \<Rightarrow> 0 < b \<and> b dvd int (length seqlens)"
  shows "\<exists>k. start_micro_batches env seqlens max_tokens div_by same min_num = Inr k
    \<and> 0 < k \<and> k \<le> int (length seqlens) \<and> (case div_by of None \<Rightarrow> True | Some b \<Rightarrow> b dvd k)"
proof -
  obtain bins where bins: "get_seqlen_BFD_partitions seqlens max_tokens = Inr bins"
    using bfd.parts_total [OF assms(3)] by blast
  have "length bins \<le> length seqlens" by (rule bfd.parts_count [OF assms(3) bins])
  moreover have "bins \<noteq> []"
    using arg_cong [OF bfd.parts_cover [OF assms(3) bins], of size] assms(2) by auto
  ultimately have n1: "0 < (case min_num of None \<Rightarrow> int (length bins) | Some m \<Rightarrow> max m (int (length bins)))"
      "(case min_num of None \<Rightarrow> int (length bins) | Some m \<Rightarrow> max m (int (length bins))) \<le> int (length seqlens)"
    using assms(4) length_0_conv [of bins] by (auto split: option.splits simp: less_max_iff_disj)
  show ?thesis
  proof (cases div_by)
    case None
    then show ?thesis using bins n1 assms(1) by (simp add: start_micro_batches_def Let_def)
  next
    case (Some b)
    let ?n1 = "case min_num of None \<Rightarrow> int (length bins) | Some m \<Rightarrow> max m (int (length bins))"
    obtain k where k: "roundup_divisible ?n1 b = Inr k" "?n1 \<le> k" "k \<le> int (length seqlens)" "b dvd k"
      using roundup_divisible_bounds [of b "int (length seqlens)", OF _ _ n1] assms(5) Some by auto
    have "start_micro_batches env seqlens max_tokens div_by same min_num = Inr k"
      using bins assms(1) Some k(1) by (simp add: start_micro_batches_def Let_def)
    moreover have "0 < k" using n1(1) k(2) by linarith
    ultimately show ?thesis using k Some by simp
  qed
qed

text \<open>
  In a group of one process, a non-empty batch whose rows each fit into the
  threshold is always split: the retry loop ends with a result.
\<close>

lemma dynamic_iterator_returns:
  assumes "single_process env" "attention_column batch = Inr mrows" "mrows \<noteq> []"
    and "rectangular (length mrows) batch" "mask_width env mrows \<le> max_tokens"
    and "\<forall>r\<in>set mrows. 0 \<le> mask_sum env r \<and> mask_sum env r \<le> max_tokens"
    and "dict_get (columns batch) ''prompt_lengths'' = Inr prompts"
    and "dict_get (columns batch) ''response_lengths'' = Inr responses"
    and "\<forall>i. 0 \<le> i \<and> i < int (length mrows) \<longrightarrow>
      row_int env (row_of prompts i) + row_int env (row_of responses i) \<le> max_tokens"
    and "case min_num of None \<Rightarrow> True | Some m \<Rightarrow> m \<le> int (length mrows)"
    and "case div_by of None \<Rightarrow> True | Some b \<Rightarrow> 0 < b \<and> b dvd int (length mrows)"
  shows "\<exists>ms ps n. get_iterator_dynamic env batch max_tokens div_by same min_num = Inr (ms, ps, n)"
proof -
  let ?lens = "map (mask_sum env) mrows"
  have sp: "is_initialized env" "all_reduce_max env = (\<lambda>n. n)" "all_reduce_min env = (\<lambda>k v. v)"
    using assms(1) by (simp_all add: single_process_def)
  obtain k where k: "start_micro_batches env ?lens max_tokens div_by same min_num = Inr k"
      "0 < k" "k \<le> int (length ?lens)"
    using start_micro_batches_bounds [OF sp(2), of ?lens max_tokens min_num div_by same] assms(3,6,10,11)
    unfolding length_map by auto
  have "\<exists>ms ps. partition_loop env max_tokens batch ?lens k = Inr (ms, ps)"
    by (rule partition_loop_returns [OF _ _ sp(3) assms(7,8) _ k(2,3)]) (use assms(4,6,9) in simp_all)
  then show ?thesis using sp(1) assms(2,5) k(1) by (auto simp: get_iterator_dynamic_def Let_def)
qed

section \<open>An example\<close>

text \<open>Rows are lists of integers: an attention mask row, or a length in a list of its own.\<close>

definition example_env :: "int list dyn_env" where
  "example_env = \<lparr>is_initialized = True, row_int = hd, mask_sum = sum_list, mask_width = (\<lambda>rs. int (length (hd rs))),
     all_reduce_max = (\<lambda>n. n), all_reduce_min = (\<lambda>k v. v)\<rparr>"

definition example_batch :: "int list batch" where
  "example_batch =
     [(''attention_mask'', TensorVal [[1,1,1,1,1], [1,1,1,1,1], [1,1,1,1,0], [1,1,1,0,0], [1,1,1,0,0]]),
      (''prompt_lengths'', TensorVal [[2], [2], [2], [2], [2]]), (''uid'', OtherVal),
      (''response_lengths'', ListVal [[3], [3], [2], [1], [1]])]"

lemma example_columns:
  "columns example_batch =
     [(''attention_mask'', [[1,1,1,1,1], [1,1,1,1,1], [1,1,1,1,0], [1,1,1,0,0], [1,1,1,0,0]]),
      (''prompt_lengths'', [[2], [2], [2], [2], [2]]), (''response_lengths'', [[3], [3], [2], [1], [1]])]"
  by (simp add: example_batch_def)

lemma example_run:
  "get_iterator_dynamic example_env example_batch 10 None True None
     = Inr (map (select_rows example_batch) [[0, 3], [2, 4], [1]], [[0, 3], [2, 4], [1]], 3)"
  by code_simp

lemma example_attention:
  "attention_column example_batch = Inr [[1,1,1,1,1], [1,1,1,1,1], [1,1,1,1,0], [1,1,1,0,0], [1,1,1,0,0]]"
  "rectangular 5 example_batch"
  by (simp_all add: attention_column_def dict_get_def example_batch_def rectangular_def)

theorem dynamic_iterator_sound_witness:
  "mset (concat [[0, 3], [2, 4], [1]]) = mset (map int [0..<5])
    \<and> (\<exists>t. micro_tokens hd (select_rows example_batch [2, 4]) = Inr t \<and> t \<le> 10)"
proof -
  note d = dynamic_iterator_sound [OF example_run example_attention(1)]
  have "example_env = example_env \<and> row_int example_env = hd \<and> all_reduce_min example_env = (\<lambda>k v. v)
      \<and> mask_sum example_env = sum_list" by (simp add: example_env_def)
  then show ?thesis using d example_attention(2) by (simp add: numeral_eq_Suc)
qed

text \<open>
  With virtual pipeline stages the retry loop can break what the rounding
  established: it grows the number of micro-batches by one, which is then no
  multiple of the group size, and \<open>split_dynamic_batch_size\<close> raises on a batch that
  it could have split (five rows of 5, 5, 4, 3 and 3 tokens, threshold 10, groups
  of two: four micro-batches would do).
\<close>

lemma retry_breaks_divisibility:
  "split_dynamic_batch_size example_env example_batch 1 (Some 2) 10 2 = Inl AssertionError
    \<and> (\<exists>ms ps. get_iterator_dynamic example_env example_batch 10 (Some 2) True (Some 4) = Inr (ms, ps, 4))"
proof
  show "split_dynamic_batch_size example_env example_batch 1 (Some 2) 10 2 = Inl AssertionError"
    by code_simp
  have "get_iterator_dynamic example_env example_batch 10 (Some 2) True (Some 4)
      = Inr (map (select_rows example_batch) [[3, 4], [1], [0], [2]], [[3, 4], [1], [0], [2]], 4)"
    by code_simp
  then show "\<exists>ms ps. get_iterator_dynamic example_env example_batch 10 (Some 2) True (Some 4) = Inr (ms, ps, 4)"
    by blast
qed

end
