(* ===== verification/Batch_Split.thy ===== *)
theory Batch_Split
  imports Dynamic_Batch
begin

text \<open>
  Fixed splitting of lists and batches: \<open>split_list\<close>, \<open>merge_list\<close>,
  \<open>get_reverse_idx\<close> and, for a dictionary batch, \<open>get_iterator_k_split\<close> of
  \<^verbatim>\<open>rlinf/utils/data_iter_utils.py\<close>. The operations of torch on a column
  (\<open>torch.split\<close>, \<open>torch.tensor_split\<close>, the permutation drawn from a seed) are the
  fields of \<open>tensor_ops\<close>.
\<close>

section \<open>Lists\<close>

datatype chunks = Count int | Sizes "int list"

fun take_sizes :: "'a list \<Rightarrow> int \<Rightarrow> int list \<Rightarrow> 'a list list" where
  "take_sizes inputs passed [] = []"
| "take_sizes inputs passed (len # lens) =
     py_slice inputs passed (passed + len) # take_sizes inputs (passed + len) lens"

definition split_list_chunks :: "'a list \<Rightarrow> chunks \<Rightarrow> bool \<Rightarrow> 'a list list res" where
  "split_list_chunks inputs num_chunks enforce_divisible_batch =
     (case num_chunks of
        Sizes lens \<Rightarrow>
          if list_all (\<lambda>i. i > 0) lens \<and> sum_list lens = int (length inputs)
          then Inr (take_sizes inputs 0 lens) else Inl AssertionError
      | Count n \<Rightarrow>
          if enforce_divisible_batch
          then rbind (py_div (int (length inputs)) n) (\<lambda>chunk_size.
               rbind (py_mod (int (length inputs)) chunk_size) (\<lambda>m.
               if m \<noteq> 0 then Inl AssertionError
               else Inr (map (\<lambda>i. py_slice inputs i (i + chunk_size))
                          (py_range3 0 (int (length inputs)) chunk_size))))
          else rbind (py_div (int (length inputs)) n) (\<lambda>k.
               rbind (py_mod (int (length inputs)) n) (\<lambda>m.
               Inr (map (\<lambda>i. py_slice inputs (i * k + min i m) ((i + 1) * k + min (i + 1) m)) (py_range n)))))"

text \<open>\<open>merge_list\<close>, on arguments that are lists; \<open>None\<close> is the initial destination.\<close>

definition merge_list :: "'a list option \<Rightarrow> 'a list \<Rightarrow> 'a list" where
  "merge_list dst src = (case dst of None \<Rightarrow> src | Some d \<Rightarrow> d @ src)"

definition list_store :: "'a list \<Rightarrow> int \<Rightarrow> 'a \<Rightarrow> 'a list res" where
  "list_store xs i x =
     (let j = (if i < 0 then i + int (length xs) else i) in
      if 0 \<le> j \<and> j < int (length xs) then Inr (xs[nat j := x]) else Inl IndexError)"

definition get_reverse_idx :: "int list \<Rightarrow> int list res" where
  "get_reverse_idx idx_map =
     rfold (\<lambda>rev p. list_store rev (snd p) (fst p)) idx_map (zip (map int [0..<length idx_map]) idx_map)"

lemma reverse_idx_loop:
  assumes "\<forall>(i, j)\<in>set ps. 0 \<le> j \<and> j < int (length r)" "distinct (map snd ps)"
  shows "\<exists>r'. rfold (\<lambda>rev p. list_store rev (snd p) (fst p)) r ps = Inr r' \<and> length r' = length r
    \<and> (\<forall>(i, j)\<in>set ps. r' ! nat j = i) \<and> (\<forall>m < length r. int m \<notin> snd ` set ps \<longrightarrow> r' ! m = r ! m)"
  using assms
proof (induction ps arbitrary: r)
  case (Cons p ps)
  obtain i j where p: "p = (i, j)" by fastforce
  with Cons.prems have j: "0 \<le> j" "j < int (length r)" by auto
  let ?r = "r[nat j := i]"
  obtain r' where r': "rfold (\<lambda>rev p. list_store rev (snd p) (fst p)) ?r ps = Inr r'" "length r' = length r"
      "\<forall>(i, j)\<in>set ps. r' ! nat j = i" "\<forall>m < length r. int m \<notin> snd ` set ps \<longrightarrow> r' ! m = ?r ! m"
    using Cons.IH [of ?r] Cons.prems by auto
  have "j \<notin> snd ` set ps" using Cons.prems(2) p by simp
  then have "r' ! nat j = i" using r'(4) j by simp
  moreover have "rfold (\<lambda>rev p. list_store rev (snd p) (fst p)) r (p # ps) = Inr r'"
    using r'(1) j by (simp add: p list_store_def)
  ultimately show ?case using r' j by (auto simp: p nth_list_update)
qed simp

text \<open>
  \<open>get_reverse_idx\<close> inverts a permutation: for every index map that holds each
  of \<open>0..n-1\<close> once, entry \<open>idx_map[i]\<close> of the result is \<open>i\<close>, and entry \<open>i\<close> of
  the result is mapped back to \<open>i\<close>.
\<close>

lemma reverse_idx_inverse:
  assumes "mset idx_map = mset (map int [0..<length idx_map])"
  shows "\<exists>r. get_reverse_idx idx_map = Inr r \<and> length r = length idx_map
    \<and> (\<forall>i < length idx_map. r ! nat (idx_map ! i) = int i \<and> idx_map ! nat (r ! i) = int i)"
proof -
  let ?n = "length idx_map" and ?ps = "zip (map int [0..<length idx_map]) idx_map"
  have st: "set idx_map = int ` {..<?n}"
    using assms by (metis atLeast_upt set_map set_mset_mset)
  have d: "distinct idx_map" using mset_eq_imp_distinct_iff [OF assms] by (simp add: distinct_map)
  have "\<forall>(i, j)\<in>set ?ps. 0 \<le> j \<and> j < int (length idx_map)"
    using st by (auto dest!: set_zip_rightD)
  from reverse_idx_loop [OF this] d obtain r where
    r: "get_reverse_idx idx_map = Inr r" "length r = ?n" "\<forall>(i, j)\<in>set ?ps. r ! nat j = i"
    by (auto simp: get_reverse_idx_def)
  have inv: "r ! nat (idx_map ! i) = int i" if "i < ?n" for i
  proof -
    have "?ps ! i \<in> set ?ps" using that by (intro nth_mem) simp
    then have "(int i, idx_map ! i) \<in> set ?ps" using that by simp
    with r(3) show ?thesis by auto
  qed
  moreover have "idx_map ! nat (r ! i) = int i" if "i < ?n" for i
  proof -
    have "int i \<in> set idx_map" using st that by auto
    then obtain m where "m < ?n" "idx_map ! m = int i" by (metis in_set_conv_nth)
    with inv [of m] show ?thesis by simp
  qed
  ultimately show ?thesis using r by blast
qed

section \<open>Chunks put together again\<close>

lemma py_slice_int: "0 \<le> a \<Longrightarrow> a \<le> b \<Longrightarrow> py_slice xs a b = take (nat (b - a)) (drop (nat a) xs)"
  using py_slice_nat [of xs "nat a" "nat b"] by (simp add: nat_diff_distrib)

lemma concat_take_sizes:
  assumes "0 \<le> passed" "\<forall>l\<in>set lens. 0 \<le> l" "passed + sum_list lens = int (length inputs)"
  shows "concat (take_sizes inputs passed lens) = drop (nat passed) inputs"
  using assms
proof (induction lens arbitrary: passed)
  case (Cons l lens)
  then have l: "0 \<le> l" by simp
  have "concat (take_sizes inputs (passed + l) lens) = drop (nat (passed + l)) inputs"
    using Cons by (intro Cons.IH) auto
  then show ?case using Cons.prems(1) l
    by (simp add: py_slice_int nat_add_distrib add.commute [of "nat passed"] flip: drop_drop)
qed simp

lemma map_length_take_sizes:
  assumes "0 \<le> passed" "\<forall>l\<in>set lens. 0 \<le> l" "passed + sum_list lens = int (length inputs)"
  shows "map length (take_sizes inputs passed lens) = map nat lens"
  using assms
proof (induction lens arbitrary: passed)
  case (Cons l lens)
  have "0 \<le> sum_list lens" using Cons.prems(2) by (intro sum_list_nonneg) auto
  with Cons show ?case by (auto simp: py_slice_int nat_le_iff min_def nat_add_distrib)
qed simp

text \<open>Cutting at increasing positions from the first element to the last loses nothing.\<close>

lemma concat_cuts:
  assumes "\<And>i. i < n \<Longrightarrow> bnd i \<le> bnd (Suc i)" "bnd 0 = 0" "bnd n = length xs"
  shows "concat (map (\<lambda>i. take (bnd (Suc i) - bnd i) (drop (bnd i) xs)) [0..<n]) = xs"
proof -
  have "concat (map (\<lambda>i. take (bnd (Suc i) - bnd i) (drop (bnd i) xs)) [0..<m]) = take (bnd m) xs" if "m \<le> n" for m
    using that
  proof (induction m)
    case (Suc m)
    then have "bnd m \<le> bnd (Suc m)" using assms(1) by simp
    then have "take (bnd m) xs @ take (bnd (Suc m) - bnd m) (drop (bnd m) xs) = take (bnd (Suc m)) xs"
      by (metis le_add_diff_inverse take_add)
    with Suc show ?case by simp
  qed (simp add: assms(2))
  from this [of n] show ?thesis by (simp add: assms(3))
qed

lemma split_list_spec:
  assumes "0 < n" and "enforce \<Longrightarrow> inputs \<noteq> [] \<and> n dvd int (length inputs)"
  shows "\<exists>cs. split_list_chunks inputs (Count n) enforce = Inr cs \<and> concat cs = inputs \<and> int (length cs) = n
    \<and> (\<forall>c\<in>set cs. length c = length inputs div nat n \<or> \<not> enforce \<and> length c = Suc (length inputs div nat n))"
proof -
  define N k m where "N = length inputs" and "k = length inputs div nat n" and "m = length inputs mod nat n"
  have nn: "0 < nat n" using assms(1) by simp
  have mk: "N = nat n * k + m" by (simp add: N_def k_def m_def)
  have m: "m < nat n" using nn by (simp add: m_def)
  have km: "int N div n = int k" "int N mod n = int m"
    using assms(1) by (simp_all add: N_def k_def m_def zdiv_int zmod_int)
  define bnd where "bnd i = i * k + min i m" for i
  have bnd: "bnd i \<le> bnd (Suc i)" "bnd 0 = 0" "bnd (nat n) = length inputs" for i
    using mk m by (auto simp: bnd_def N_def)
  have cs: "concat (map (\<lambda>i. take (bnd (Suc i) - bnd i) (drop (bnd i) inputs)) [0..<nat n]) = inputs"
    by (rule concat_cuts) (use bnd in auto)
  have size: "length (take (bnd (Suc i) - bnd i) (drop (bnd i) inputs)) = (if i < m then Suc k else k)" if "i < nat n" for i
  proof -
    have "bnd (Suc i) \<le> bnd (nat n)" unfolding bnd_def
      using that by (intro add_mono mult_le_mono) auto
    then show ?thesis using bnd by (auto simp: bnd_def min_def)
  qed
  show ?thesis
  proof (cases enforce)
    case False
    have "split_list_chunks inputs (Count n) enforce
        = Inr (map (\<lambda>i. py_slice inputs (i * int k + min i (int m)) ((i + 1) * int k + min (i + 1) (int m))) (py_range n))"
      using assms(1) False km by (simp add: split_list_chunks_def N_def)
    also have "map (\<lambda>i. py_slice inputs (i * int k + min i (int m)) ((i + 1) * int k + min (i + 1) (int m))) (py_range n)
        = map (\<lambda>i. take (bnd (Suc i) - bnd i) (drop (bnd i) inputs)) [0..<nat n]"
    proof -
      have "py_slice inputs (int i * int k + min (int i) (int m)) ((int i + 1) * int k + min (int i + 1) (int m))
          = py_slice inputs (int (bnd i)) (int (bnd (Suc i)))" for i
        by (simp add: bnd_def of_nat_min algebra_simps)
      then show ?thesis using assms(1) py_range_int [of "nat n"] by (simp add: py_slice_nat comp_def)
    qed
    finally show ?thesis using cs size assms(1) False by (fastforce simp: k_def)
  next
    case True
    with assms have inp: "inputs \<noteq> []" "n dvd int (length inputs)" by auto
    then have m0: "m = 0" using km assms(1) by (simp add: N_def dvd_eq_mod_eq_0)
    have k0: "0 < k" using inp(1) mk m0 by (cases k) (auto simp: N_def)
    have len: "int (length inputs) = n * int k" using mk m0 assms(1) by (simp add: N_def)
    have "py_range3 0 (int (length inputs)) (int k) = map (\<lambda>i. int i * int k) [0..<nat n]"
      using py_range3_mult [of "int k" n 0] k0 assms(1) by (simp add: len)
    then have "split_list_chunks inputs (Count n) enforce
        = Inr (map (\<lambda>i. py_slice inputs (int i * int k) (int i * int k + int k)) [0..<nat n])"
      using assms(1) True km k0 by (simp add: split_list_chunks_def N_def len comp_def)
    also have "map (\<lambda>i. py_slice inputs (int i * int k) (int i * int k + int k)) [0..<nat n]
        = map (\<lambda>i. take (bnd (Suc i) - bnd i) (drop (bnd i) inputs)) [0..<nat n]"
    proof (rule map_cong [OF refl])
      fix i
      have "py_slice inputs (int i * int k) (int i * int k + int k) = py_slice inputs (int (bnd i)) (int (bnd (Suc i)))"
        by (simp add: bnd_def m0 algebra_simps)
      then show "py_slice inputs (int i * int k) (int i * int k + int k) = take (bnd (Suc i) - bnd i) (drop (bnd i) inputs)"
        by (simp add: py_slice_nat)
    qed
    finally show ?thesis using cs size assms(1) m0 by (fastforce simp: k_def)
  qed
qed

text \<open>
  \<open>split_list\<close> without the divisibility check cuts a list into exactly the
  number of chunks asked for, in order, with sizes that differ by at most one; with
  the check it returns that many chunks of one size when the number divides the length.
\<close>

lemma split_list_chunks_spec:
  assumes "0 < n" and "enforce \<Longrightarrow> inputs \<noteq> [] \<and> n dvd int (length inputs)"
  shows "\<exists>cs. split_list_chunks inputs (Count n) enforce = Inr cs \<and> concat cs = inputs \<and> int (length cs) = n
    \<and> (\<forall>c\<in>set cs. length c = length inputs div nat n \<or> \<not> enforce \<and> length c = Suc (length inputs div nat n))"
  using assms by (rule split_list_spec)

text \<open>
  With the divisibility check, a number of chunks that does not divide the
  length can still pass it: six elements in four chunks become six chunks of one
  element, and asking for more chunks than elements is a division by zero.
\<close>

lemma split_list_check_is_weak:
  "split_list_chunks [1, 2, 3, 4, 5, 6::int] (Count 4) True = Inr [[1], [2], [3], [4], [5], [6]]
    \<and> split_list_chunks [1, 2::int] (Count 3) True = Inl ZeroDivisionError"
  by code_simp

section \<open>Splitting a dictionary batch\<close>

record 'r tensor_ops =
  randperm :: "int option \<Rightarrow> int \<Rightarrow> int list res"
  split_sizes :: "'r list \<Rightarrow> int list \<Rightarrow> 'r list list res"
  tensor_split :: "'r list \<Rightarrow> int \<Rightarrow> 'r list list res"

fun tensor_items :: "'r batch \<Rightarrow> (string \<times> 'r list) list" where
  "tensor_items [] = []"
| "tensor_items ((k, TensorVal rows) # b) = (k, rows) # tensor_items b"
| "tensor_items ((k, _) # b) = tensor_items b"

fun list_items :: "'r batch \<Rightarrow> (string \<times> 'r list) list" where
  "list_items [] = []"
| "list_items ((k, ListVal rows) # b) = (k, rows) # list_items b"
| "list_items ((k, _) # b) = list_items b"

definition shuffle_size :: "'r batch \<Rightarrow> int res" where
  "shuffle_size batch =
     (case tensor_items batch of
        (_, rows) # _ \<Rightarrow> Inr (int (length rows))
      | [] \<Rightarrow> (case list_items batch of (_, rows) # _ \<Rightarrow> Inr (int (length rows)) | [] \<Rightarrow> Inl ValueError))"

definition shuffle_value :: "int list \<Rightarrow> 'r batch_value \<Rightarrow> 'r batch_value res" where
  "shuffle_value indices v =
     (case v of
        TensorVal rows \<Rightarrow> rbind (rmap (py_index rows) indices) (\<lambda>rs. Inr (TensorVal rs))
      | ListVal rows \<Rightarrow> rbind (rmap (py_index rows) indices) (\<lambda>rs. Inr (ListVal rs))
      | OtherVal \<Rightarrow> Inr OtherVal)"

definition shuffle_batch :: "'r tensor_ops \<Rightarrow> int option \<Rightarrow> 'r batch \<Rightarrow> 'r batch res" where
  "shuffle_batch ops shuffle_seed batch =
     rbind (shuffle_size batch) (\<lambda>batch_size.
     rbind (randperm ops shuffle_seed batch_size) (\<lambda>indices.
     rmap (\<lambda>(k, v). rbind (shuffle_value indices v) (\<lambda>v'. Inr (k, v'))) batch))"

definition split_tensors :: "'r tensor_ops \<Rightarrow> chunks \<Rightarrow> bool \<Rightarrow> int \<Rightarrow> (string \<times> 'r list) list \<Rightarrow> (string \<times> 'r list list) list res" where
  "split_tensors ops num_splits enforce_divisible_batch batch_size items =
     (case num_splits of
        Sizes lens \<Rightarrow>
          if list_all (\<lambda>i. i > 0) lens \<and> sum_list lens = batch_size
          then rmap (\<lambda>(k, v). rbind (split_sizes ops v lens) (\<lambda>cs. Inr (k, cs))) items
          else Inl AssertionError
      | Count n \<Rightarrow>
          rbind (if enforce_divisible_batch
                 then rbind (py_mod batch_size n) (\<lambda>m. if m = 0 then Inr () else Inl AssertionError)
                 else Inr ()) (\<lambda>_.
          rbind (rmap (\<lambda>(k, v). rbind (tensor_split ops v n) (\<lambda>cs. Inr (k, cs))) items) (\<lambda>split.
          rbind (py_mod batch_size n) (\<lambda>m.
          if m \<noteq> 0
          then rbind (py_div batch_size n) (\<lambda>chunk_size. Inr (map (\<lambda>(k, cs). (k, py_slice cs 0 chunk_size)) split))
          else Inr split))))"

definition split_dict_batch :: "'r tensor_ops \<Rightarrow> 'r batch \<Rightarrow> chunks \<Rightarrow> bool \<Rightarrow> 'r micro list res" where
  "split_dict_batch ops batch num_splits enforce_divisible_batch =
     (case tensor_items batch of
        [] \<Rightarrow> Inl StopIteration
      | (_, first) # _ \<Rightarrow>
          rbind (split_tensors ops num_splits enforce_divisible_batch (int (length first)) (tensor_items batch)) (\<lambda>tensors.
          rbind (rmap (\<lambda>(k, v). rbind (split_list_chunks v num_splits enforce_divisible_batch) (\<lambda>cs. Inr (k, cs)))
                   (list_items batch)) (\<lambda>lists.
          rmap (\<lambda>i. rmap (\<lambda>(k, cs). rbind (py_index cs i) (\<lambda>c. Inr (k, c))) (tensors @ lists))
            (py_range (case num_splits of Sizes lens \<Rightarrow> int (length lens) | Count n \<Rightarrow> n)))))"

definition get_iterator_k_split ::
  "'r tensor_ops \<Rightarrow> 'r batch \<Rightarrow> chunks \<Rightarrow> bool \<Rightarrow> bool \<Rightarrow> int option \<Rightarrow> 'r micro list res" where
  "get_iterator_k_split ops batch num_splits enforce_divisible_batch shuffle shuffle_seed =
     rbind (if shuffle then shuffle_batch ops shuffle_seed batch else Inr batch) (\<lambda>batch'.
     split_dict_batch ops batch' num_splits enforce_divisible_batch)"

section \<open>What a split batch holds\<close>

text \<open>What torch documents: \<open>tensor_split\<close> into a positive number of sections returns that many, in order.\<close>

definition tensor_split_law :: "'r tensor_ops \<Rightarrow> bool" where
  "tensor_split_law ops = (\<forall>v n. 0 < n \<longrightarrow> (case tensor_split ops v n of
     Inl _ \<Rightarrow> False | Inr cs \<Rightarrow> concat cs = v \<and> int (length cs) = n))"

lemma rmap_pieces:
  assumes "\<forall>(k, v)\<in>set xs. \<exists>cs. f v = Inr cs \<and> concat cs = v \<and> int (length cs) = n"
  shows "\<exists>ys. rmap (\<lambda>(k, v). rbind (f v) (\<lambda>cs. Inr (k, cs))) xs = Inr ys \<and> map fst ys = map fst xs
    \<and> map (\<lambda>(k, cs). (k, concat cs)) ys = xs \<and> (\<forall>(k, cs)\<in>set ys. int (length cs) = n)"
  using assms
proof (induction xs)
  case (Cons x xs)
  obtain k v where x: "x = (k, v)" by fastforce
  from Cons.prems obtain cs where cs: "f v = Inr cs" "concat cs = v" "int (length cs) = n" by (auto simp: x)
  from Cons obtain ys where ys: "rmap (\<lambda>(k, v). rbind (f v) (\<lambda>cs. Inr (k, cs))) xs = Inr ys" "map fst ys = map fst xs"
      "map (\<lambda>(k, cs). (k, concat cs)) ys = xs" "\<forall>(k, cs)\<in>set ys. int (length cs) = n" by auto
  then show ?case using cs by (intro exI [of _ "(k, cs) # ys"]) (simp add: x)
qed simp

lemma micro_batches_of_pieces:
  assumes "\<forall>(k, cs)\<in>set ys. length cs = n" "distinct (map fst ys)"
  shows "\<exists>ms. rmap (\<lambda>i. rmap (\<lambda>(k, cs). rbind (py_index cs i) (\<lambda>c. Inr (k, c))) ys) (map int [0..<n]) = Inr ms
    \<and> length ms = n \<and> (\<forall>(k, cs)\<in>set ys. concat (map (\<lambda>m. the (map_of m k)) ms) = concat cs)"
proof -
  let ?m = "\<lambda>i. map (\<lambda>(k, cs). (k, cs ! nat i)) ys"
  have "rmap (\<lambda>(k, cs). rbind (py_index cs i) (\<lambda>c. Inr (k, c))) ys = Inr (?m i)" if "i \<in> set (map int [0..<n])" for i
    by (rule rmap_all_Inr) (use assms(1) that in \<open>auto simp: py_index_def split: prod.splits\<close>)
  then have "rmap (\<lambda>i. rmap (\<lambda>(k, cs). rbind (py_index cs i) (\<lambda>c. Inr (k, c))) ys) (map int [0..<n]) = Inr (map ?m (map int [0..<n]))"
    by (rule rmap_all_Inr)
  moreover have "concat (map (\<lambda>m. the (map_of m k)) (map ?m (map int [0..<n]))) = concat cs" if "(k, cs) \<in> set ys" for k cs
  proof -
    have mo: "map_of (?m i) k = Some (cs ! nat i)" for i
    proof -
      have fst_eq: "map fst (?m i) = map fst ys" by (simp add: case_prod_unfold comp_def)
      have "distinct (map fst (?m i))" unfolding fst_eq by (rule assms(2))
      moreover have "(k, cs ! nat i) \<in> set (?m i)" using that by (force intro: rev_image_eqI)
      ultimately show ?thesis by (rule map_of_is_SomeI)
    qed
    have "length cs = n" using that assms(1) by auto
    then have "map (\<lambda>m. the (map_of m k)) (map ?m (map int [0..<n])) = cs"
      using mo [of "int _", unfolded nat_int] by (intro nth_equalityI) simp_all
    then show ?thesis by (simp only:)
  qed
  ultimately show ?thesis by (intro exI [of _ "map ?m (map int [0..<n])"]) auto
qed

lemma columns_items: "set (columns batch) = set (tensor_items batch) \<union> set (list_items batch)"
  "mset (map fst (columns batch)) = mset (map fst (tensor_items batch @ list_items batch))"
proof -
  show "set (columns batch) = set (tensor_items batch) \<union> set (list_items batch)"
    by (induction batch rule: columns.induct) auto
  show "mset (map fst (columns batch)) = mset (map fst (tensor_items batch @ list_items batch))"
    by (induction batch rule: columns.induct) auto
qed

lemma split_dict_batch_spec:
  assumes "tensor_split_law ops" "0 < n" "0 < N" "n dvd int N" "rectangular N batch"
    and "tensor_items batch \<noteq> []" "distinct (map fst (columns batch))"
  shows "\<exists>ms. split_dict_batch ops batch (Count n) True = Inr ms \<and> int (length ms) = n
    \<and> (\<forall>(key, rows)\<in>set (columns batch). concat (map (\<lambda>m. the (map_of m key)) ms) = rows)"
proof -
  obtain key first rest where ti: "tensor_items batch = (key, first) # rest" using assms(6) by (cases "tensor_items batch") auto
  have len: "length rows = N" if "(k, rows) \<in> set (columns batch)" for k rows
    using assms(5) that by (auto simp: rectangular_def)
  have first: "length first = N" using len [of key first] ti columns_items(1) [of batch] by auto
  have "\<forall>(k, v)\<in>set (tensor_items batch). \<exists>cs. tensor_split ops v n = Inr cs \<and> concat cs = v \<and> int (length cs) = n"
  proof (clarify)
    fix v
    from assms(1,2) have "case tensor_split ops v n of Inl _ \<Rightarrow> False | Inr cs \<Rightarrow> concat cs = v \<and> int (length cs) = n"
      unfolding tensor_split_law_def by blast
    then show "\<exists>cs. tensor_split ops v n = Inr cs \<and> concat cs = v \<and> int (length cs) = n"
      by (auto split: sum.splits)
  qed
  from rmap_pieces [OF this] obtain ts where
    ts: "rmap (\<lambda>(k, v). rbind (tensor_split ops v n) (\<lambda>cs. Inr (k, cs))) (tensor_items batch) = Inr ts"
      "map fst ts = map fst (tensor_items batch)" "map (\<lambda>(k, cs). (k, concat cs)) ts = tensor_items batch"
      "\<forall>(k, cs)\<in>set ts. int (length cs) = n" by blast
  have "\<forall>(k, v)\<in>set (list_items batch). \<exists>cs. split_list_chunks v (Count n) True = Inr cs \<and> concat cs = v \<and> int (length cs) = n"
  proof (clarify)
    fix k v assume "(k, v) \<in> set (list_items batch)"
    then have "length v = N" using len columns_items(1) [of batch] by blast
    then have "v \<noteq> [] \<and> n dvd int (length v)" using assms(3,4) by auto
    then show "\<exists>cs. split_list_chunks v (Count n) True = Inr cs \<and> concat cs = v \<and> int (length cs) = n"
      using split_list_spec [OF assms(2), of True v] by blast
  qed
  from rmap_pieces [OF this] obtain ls where
    ls: "rmap (\<lambda>(k, v). rbind (split_list_chunks v (Count n) True) (\<lambda>cs. Inr (k, cs))) (list_items batch) = Inr ls"
      "map fst ls = map fst (list_items batch)" "map (\<lambda>(k, cs). (k, concat cs)) ls = list_items batch"
      "\<forall>(k, cs)\<in>set ls. int (length cs) = n" by blast
  have "distinct (map fst (ts @ ls))"
    using assms(7) mset_eq_imp_distinct_iff [OF columns_items(2) [of batch]] ts(2) ls(2) by simp
  moreover have "\<forall>(k, cs)\<in>set (ts @ ls). length cs = nat n" using ts(4) ls(4) by fastforce
  ultimately obtain ms where
    ms: "rmap (\<lambda>i. rmap (\<lambda>(k, cs). rbind (py_index cs i) (\<lambda>c. Inr (k, c))) (ts @ ls)) (map int [0..<nat n]) = Inr ms"
      "length ms = nat n" "\<forall>(k, cs)\<in>set (ts @ ls). concat (map (\<lambda>m. the (map_of m k)) ms) = concat cs"
    using micro_batches_of_pieces by blast
  have "int N mod n = 0" using assms(4) by simp
  then have "split_tensors ops (Count n) True (int (length first)) (tensor_items batch) = Inr ts"
    using assms(2) ts(1) by (simp add: split_tensors_def first)
  then have "split_dict_batch ops batch (Count n) True = Inr ms"
    using ls(1) ms(1) assms(2) py_range_int [of "nat n"] by (simp add: split_dict_batch_def ti del: py_range_int)
  moreover have "concat (map (\<lambda>m. the (map_of m k)) ms) = rows" if "(k, rows) \<in> set (columns batch)" for k rows
  proof -
    from that consider "(k, rows) \<in> set (tensor_items batch)" | "(k, rows) \<in> set (list_items batch)"
      using columns_items(1) [of batch] by auto
    then obtain cs where "(k, cs) \<in> set (ts @ ls)" "concat cs = rows"
    proof cases
      case 1
      then have "(k, rows) \<in> set (map (\<lambda>(k, cs). (k, concat cs)) ts)" unfolding ts(3) .
      then show ?thesis using that by auto
    next
      case 2
      then have "(k, rows) \<in> set (map (\<lambda>(k, cs). (k, concat cs)) ls)" unfolding ls(3) .
      then show ?thesis using that by auto
    qed
    then show ?thesis using ms(3) by auto
  qed
  ultimately show ?thesis using ms(2) assms(2) by auto
qed

text \<open>A shuffle applies one permutation to every column.\<close>

definition permute_rows :: "int list \<Rightarrow> 'r list \<Rightarrow> 'r list" where
  "permute_rows perm rows = map (row_of rows) perm"

lemma shuffle_batch_columns:
  assumes "rectangular N batch" "tensor_items batch \<noteq> []" "randperm ops seed (int N) = Inr perm"
    and "\<forall>i\<in>set perm. 0 \<le> i \<and> i < int N"
  shows "\<exists>batch'. shuffle_batch ops seed batch = Inr batch'
    \<and> columns batch' = map (\<lambda>(k, rows). (k, permute_rows perm rows)) (columns batch)
    \<and> tensor_items batch' = map (\<lambda>(k, rows). (k, permute_rows perm rows)) (tensor_items batch)"
proof -
  have one: "rmap (py_index rows) perm = Inr (permute_rows perm rows)" if "length rows = N" for rows :: "'a list"
    unfolding permute_rows_def by (rule rmap_all_Inr) (use assms(4) that in \<open>auto simp: row_of_def\<close>)
  have "\<exists>b'. rmap (\<lambda>(k, v). rbind (shuffle_value perm v) (\<lambda>v'. Inr (k, v'))) b = Inr b'
      \<and> columns b' = map (\<lambda>(k, rows). (k, permute_rows perm rows)) (columns b)
      \<and> tensor_items b' = map (\<lambda>(k, rows). (k, permute_rows perm rows)) (tensor_items b)"
    if "rectangular N b" for b :: "'a batch"
    using that
  proof (induction b rule: columns.induct)
    case (2 k rows b)
    then have "rectangular N b" "length rows = N" by (auto simp: rectangular_def)
    then show ?case using 2(1) one [of rows] by (auto simp: shuffle_value_def)
  next
    case (3 k rows b)
    then have "rectangular N b" "length rows = N" by (auto simp: rectangular_def)
    then show ?case using 3(1) one [of rows] by (auto simp: shuffle_value_def)
  next
    case (4 k b)
    then show ?case by (auto simp: shuffle_value_def rectangular_def)
  qed simp
  from this [OF assms(1)] obtain b' where
    b': "rmap (\<lambda>(k, v). rbind (shuffle_value perm v) (\<lambda>v'. Inr (k, v'))) batch = Inr b'"
      "columns b' = map (\<lambda>(k, rows). (k, permute_rows perm rows)) (columns batch)"
      "tensor_items b' = map (\<lambda>(k, rows). (k, permute_rows perm rows)) (tensor_items batch)" by blast
  obtain key first rest where ti: "tensor_items batch = (key, first) # rest" using assms(2) by (cases "tensor_items batch") auto
  then have "length first = N" using assms(1) columns_items(1) [of batch] by (auto simp: rectangular_def)
  then have "shuffle_size batch = Inr (int N)" by (simp add: shuffle_size_def ti)
  then show ?thesis using b' assms(3) by (auto simp: shuffle_batch_def)
qed

text \<open>
  \<open>get_iterator_k_split\<close> on a dictionary batch: when the number of splits
  divides the number of rows, it returns that many micro-batches, and putting the
  pieces of any column together again gives the column, or, with a shuffle, the
  column under the one permutation that all columns share.
\<close>

lemma k_split_rows:
  fixes ops :: "'r tensor_ops"
  assumes "tensor_split_law ops" "0 < n" "0 < N" "n dvd int N" "rectangular N batch"
    and "tensor_items batch \<noteq> []" "distinct (map fst (columns batch))"
    and "shuffle \<Longrightarrow> randperm ops seed (int N) = Inr perm"
    and "length perm = N" "\<forall>i\<in>set perm. 0 \<le> i \<and> i < int N"
  shows "\<exists>ms. get_iterator_k_split ops batch (Count n) True shuffle seed = Inr ms \<and> int (length ms) = n
    \<and> (\<forall>(key, rows)\<in>set (columns batch).
         concat (map (\<lambda>m. the (map_of m key)) ms) = (if shuffle then map (row_of rows) perm else rows))"
proof (cases shuffle)
  case False
  then show ?thesis using split_dict_batch_spec [OF assms(1-7)] by (simp add: get_iterator_k_split_def)
next
  case True
  obtain b' where b': "shuffle_batch ops seed batch = Inr b'"
      "columns b' = map (\<lambda>(k, rows). (k, permute_rows perm rows)) (columns batch)"
      "tensor_items b' = map (\<lambda>(k, rows). (k, permute_rows perm rows)) (tensor_items batch)"
    using shuffle_batch_columns [OF assms(5,6) assms(8) [OF True] assms(10)] by blast
  have "rectangular N b'" using assms(9) by (auto simp: rectangular_def b'(2) permute_rows_def)
  moreover have "tensor_items b' \<noteq> []" using assms(6) by (simp add: b'(3))
  moreover have "map fst (columns b') = map fst (columns batch)" by (simp add: b'(2) case_prod_unfold comp_def)
  then have "distinct (map fst (columns b'))" using assms(7) by (simp only:)
  ultimately obtain ms where ms: "split_dict_batch ops b' (Count n) True = Inr ms" "int (length ms) = n"
      "\<forall>(key, rows)\<in>set (columns b'). concat (map (\<lambda>m. the (map_of m key)) ms) = rows"
    using split_dict_batch_spec [OF assms(1-4)] by blast
  have "\<forall>(key, rows)\<in>set (columns batch). concat (map (\<lambda>m. the (map_of m key)) ms) = map (row_of rows) perm"
    using ms(3) by (auto simp: b'(2) permute_rows_def)
  then show ?thesis using True b'(1) ms(1,2) by (auto simp: get_iterator_k_split_def)
qed

definition list_tensor_ops :: "int list tensor_ops" where
  "list_tensor_ops = \<lparr>randperm = (\<lambda>seed n. Inr (rev (py_range n))),
     split_sizes = (\<lambda>v lens. Inr (take_sizes v 0 lens)),
     tensor_split = (\<lambda>v n. split_list_chunks v (Count n) False)\<rparr>"

lemma list_tensor_ops_law: "tensor_split_law list_tensor_ops"
  unfolding tensor_split_law_def
proof (intro allI impI)
  fix v :: "int list list" and n :: int assume "0 < n"
  then obtain cs where "split_list_chunks v (Count n) False = Inr cs" "concat cs = v" "int (length cs) = n"
    using split_list_spec [of n False v] by auto
  then show "case tensor_split list_tensor_ops v n of Inl _ \<Rightarrow> False | Inr cs \<Rightarrow> concat cs = v \<and> int (length cs) = n"
    by (simp add: list_tensor_ops_def)
qed

end
