(* ===== verification/Node_Group.thy ===== *)
theory Node_Group
  imports Py_Text "HOL-Library.Multiset" "HOL-Library.AList"
begin

text \<open>
  Nodes, node groups and the numbering of their hardware: \<open>NodeInfo\<close> and
  \<open>NodeGroupInfo\<close> of \<^verbatim>\<open>rlinf/scheduler/cluster/node.py\<close>, \<open>Cluster.get_node_group\<close>
  and \<open>Cluster.get_node_info\<close> of \<^verbatim>\<open>rlinf/scheduler/cluster/cluster.py\<close>, and
  \<open>MultiNodeGroupResolver\<close> of \<^verbatim>\<open>rlinf/scheduler/placement/placement.py\<close>.

  The fields that only describe a machine (labels, processors, interpreter,
  environment) play no part here and are left out of the record of a node.
\<close>

section \<open>Nodes\<close>

record hw_resource =
  res_type :: string
  res_models :: "string list"

record node_info =
  node_rank :: int
  ray_id :: string
  node_ip :: string
  hardware_resources :: "hw_resource list"

definition accelerator_hw_type :: string where
  "accelerator_hw_type = ''Accelerator''"

definition res_count :: "hw_resource \<Rightarrow> int" where
  "res_count r = int (length (res_models r))"

definition get_hw_resource_count :: "node_info \<Rightarrow> string option \<Rightarrow> int" where
  "get_hw_resource_count node hw_type =
     (case hw_type of
        None \<Rightarrow> 0
      | Some t \<Rightarrow> (case find (\<lambda>r. res_type r = t) (hardware_resources node) of
          None \<Rightarrow> 0 | Some r \<Rightarrow> res_count r))"

definition num_accelerators :: "node_info \<Rightarrow> int" where
  "num_accelerators node = get_hw_resource_count node (Some accelerator_hw_type)"

definition accelerator_model :: "node_info \<Rightarrow> string" where
  "accelerator_model node =
     (case find (\<lambda>r. res_type r = accelerator_hw_type \<and> res_count r > 0) (hardware_resources node) of
        Some r \<Rightarrow> hd (res_models r) | None \<Rightarrow> [])"

definition accelerator_type_from_model :: "string \<Rightarrow> string res" where
  "accelerator_type_from_model model =
     (case py_split (CHR '':'') model of [t, _] \<Rightarrow> Inr t | _ \<Rightarrow> Inl AssertionError)"

definition accelerator_type :: "node_info \<Rightarrow> string res" where
  "accelerator_type node =
     (case find (\<lambda>r. res_type r = accelerator_hw_type \<and> res_count r > 0) (hardware_resources node) of
        Some r \<Rightarrow> accelerator_type_from_model (hd (res_models r)) | None \<Rightarrow> Inr ''NO_ACCEL'')"

section \<open>Node groups\<close>

text \<open>An environment variable of a configuration is a dictionary of exactly one pair.\<close>

record env_config =
  ec_node_ranks :: "int list"
  ec_env_vars :: "(string \<times> string) list option"
  ec_interpreter :: "string option"

record node_group =
  label :: string
  nodes :: "node_info list"
  hardware_type :: "string option"
  ignore_hardware :: bool
  env_configs :: "env_config list"

text \<open>\<open>NodeGroupInfo.__post_init__\<close>: the default hardware type, when some node has it.\<close>

definition post_init :: "node_group \<Rightarrow> node_group" where
  "post_init g =
     (if hardware_type g = None \<and> \<not> ignore_hardware g
         \<and> accelerator_hw_type \<in> set (map res_type (concat (map hardware_resources (nodes g))))
      then g\<lparr>hardware_type := Some accelerator_hw_type\<rparr> else g)"

definition node_ranks :: "node_group \<Rightarrow> int list" where
  "node_ranks g = map node_rank (nodes g)"

definition hardware_resource_count :: "node_group \<Rightarrow> int" where
  "hardware_resource_count g =
     (case hardware_type g of
        None \<Rightarrow> int (length (nodes g))
      | Some t \<Rightarrow> sum_list (map (\<lambda>n. get_hw_resource_count n (Some t)) (nodes g)))"

definition get_hardware_models :: "node_group \<Rightarrow> int \<Rightarrow> string list" where
  "get_hardware_models g rank =
     concat (map (\<lambda>n. concat (map (\<lambda>r. if Some (res_type r) = hardware_type g then res_models r else [])
                                  (hardware_resources n)))
       (filter (\<lambda>n. node_rank n = rank) (nodes g)))"

fun hardware_ranks_from :: "string option \<Rightarrow> int \<Rightarrow> node_info list \<Rightarrow> int list list" where
  "hardware_ranks_from t start [] = []"
| "hardware_ranks_from t start (n # ns) =
     py_range3 start (start + get_hw_resource_count n t) 1
       # hardware_ranks_from t (start + get_hw_resource_count n t) ns"

definition local_hardware_ranks :: "node_group \<Rightarrow> int list list" where
  "local_hardware_ranks g = hardware_ranks_from (hardware_type g) 0 (nodes g)"

definition group_ranks_to_global_ranks :: "node_group \<Rightarrow> int list \<Rightarrow> int list res" where
  "group_ranks_to_global_ranks g group_ranks =
     rmap (\<lambda>r. rbind (py_index (nodes g) r) (\<lambda>n. Inr (node_rank n))) group_ranks"

text \<open>\<open>None\<close> is the value that Python returns at the end of a function.\<close>

fun index_of :: "'a \<Rightarrow> 'a list \<Rightarrow> int" where
  "index_of x [] = 0"
| "index_of x (y # ys) = (if x = y then 0 else 1 + index_of x ys)"

definition find_rank :: "node_group \<Rightarrow> int \<Rightarrow> (node_info \<times> int list) option" where
  "find_rank g rank = find (\<lambda>(n, ranks). rank \<in> set ranks) (zip (nodes g) (local_hardware_ranks g))"

definition get_node_by_hardware_rank :: "node_group \<Rightarrow> int \<Rightarrow> node_info option" where
  "get_node_by_hardware_rank g rank = map_option fst (find_rank g rank)"

definition get_local_hardware_rank :: "node_group \<Rightarrow> int \<Rightarrow> int option" where
  "get_local_hardware_rank g rank = map_option (\<lambda>p. index_of rank (snd p)) (find_rank g rank)"

text \<open>
  The environment of a node. The function returns after the first configuration
  that names the node and has variables; the check for duplicates looks at the
  keys that this configuration has added so far.
\<close>

fun add_env_vars :: "(string \<times> string) list \<Rightarrow> string list \<Rightarrow> (string \<times> string) list \<Rightarrow> (string \<times> string) list res" where
  "add_env_vars env keys [] = Inr env"
| "add_env_vars env keys ((k, v) # vars) =
     (if k \<in> set keys then Inl AssertionError
      else add_env_vars (AList.update k v env) (keys @ [k]) vars)"

fun env_vars_loop :: "int \<Rightarrow> env_config list \<Rightarrow> (string \<times> string) list res" where
  "env_vars_loop rank [] = Inr []"
| "env_vars_loop rank (c # cs) =
     (case ec_env_vars c of
        Some vars \<Rightarrow> if rank \<in> set (ec_node_ranks c) then add_env_vars [] [] vars else env_vars_loop rank cs
      | None \<Rightarrow> env_vars_loop rank cs)"

definition get_node_env_vars :: "node_group \<Rightarrow> int \<Rightarrow> (string \<times> string) list res" where
  "get_node_env_vars g rank = env_vars_loop rank (env_configs g)"

definition get_node_python_interpreter_path :: "node_group \<Rightarrow> int \<Rightarrow> string option res" where
  "get_node_python_interpreter_path g rank =
     (let paths = concat (map (\<lambda>c. if rank \<in> set (ec_node_ranks c)
                                    then (case ec_interpreter c of None \<Rightarrow> [] | Some p \<Rightarrow> [p]) else [])
                           (env_configs g))
      in case paths of
           [] \<Rightarrow> Inr None
         | p # ps \<Rightarrow> if card (set paths) > 1 then Inl ValueError else Inr (Some p))"

section \<open>The cluster\<close>

record cluster =
  cluster_nodes :: "node_info list"
  node_groups :: "node_group list"

definition get_node_group :: "cluster \<Rightarrow> string option \<Rightarrow> node_group option" where
  "get_node_group c lab = find (\<lambda>g. label g = (case lab of None \<Rightarrow> ''cluster'' | Some l \<Rightarrow> l)) (node_groups c)"

definition get_node_info :: "cluster \<Rightarrow> int \<Rightarrow> node_info res" where
  "get_node_info c rank =
     (if rank < 0 \<or> rank \<ge> int (length (cluster_nodes c)) then Inl ValueError
      else let n = cluster_nodes c ! nat rank in if node_rank n = rank then Inr n else Inl AssertionError)"

section \<open>Ranks across several groups\<close>

text \<open>
  The resolver keeps the groups and, for every global rank, the index of its group
  and its rank in the group. The keys of that dictionary are counted up from 0, so
  the dictionary is the list of its values.
\<close>

record resolver =
  res_groups :: "node_group list"
  total_hardware_count :: int
  rank_to_group :: "(nat \<times> int) list"

definition make_resolver :: "node_group list \<Rightarrow> resolver" where
  "make_resolver gs =
     \<lparr>res_groups = gs, total_hardware_count = sum_list (map hardware_resource_count gs),
      rank_to_group =
        concat (map (\<lambda>(idx, g). map (\<lambda>l. (idx, l)) (py_range (hardware_resource_count g))) (enumerate 0 gs))\<rparr>"

definition hardware_types :: "resolver \<Rightarrow> string list option" where
  "hardware_types rs =
     (if None \<in> set (map hardware_type (res_groups rs)) then None
      else Some (map (\<lambda>g. the (hardware_type g)) (res_groups rs)))"

definition lookup_rank :: "resolver \<Rightarrow> int \<Rightarrow> (nat \<times> int) res" where
  "lookup_rank rs rank =
     (if 0 \<le> rank \<and> rank < int (length (rank_to_group rs)) then Inr (rank_to_group rs ! nat rank) else Inl ValueError)"

definition resolve_node :: "resolver \<Rightarrow> int \<Rightarrow> node_info option res" where
  "resolve_node rs rank =
     rbind (lookup_rank rs rank) (\<lambda>(idx, l). Inr (get_node_by_hardware_rank (res_groups rs ! idx) l))"

definition resolve_group :: "resolver \<Rightarrow> int \<Rightarrow> node_group res" where
  "resolve_group rs rank = rbind (lookup_rank rs rank) (\<lambda>(idx, l). Inr (res_groups rs ! idx))"

definition resolve_local_rank :: "resolver \<Rightarrow> int \<Rightarrow> int option res" where
  "resolve_local_rank rs rank =
     rbind (lookup_rank rs rank) (\<lambda>(idx, l). Inr (get_local_hardware_rank (res_groups rs ! idx) l))"

definition resolve_hardware_type :: "resolver \<Rightarrow> int \<Rightarrow> string option res" where
  "resolve_hardware_type rs rank =
     rbind (lookup_rank rs rank) (\<lambda>(idx, l). Inr (hardware_type (res_groups rs ! idx)))"

definition resolve_label :: "resolver \<Rightarrow> int \<Rightarrow> string res" where
  "resolve_label rs rank = rbind (lookup_rank rs rank) (\<lambda>(idx, l). Inr (label (res_groups rs ! idx)))"

section \<open>The resolver enumerates the hardware\<close>

lemma get_hw_resource_count_nonneg [simp]: "0 \<le> get_hw_resource_count n t"
  by (simp add: get_hw_resource_count_def res_count_def split: option.split)

lemma py_range3_unit: "0 \<le> c \<Longrightarrow> py_range3 a (a + c) 1 = map (\<lambda>i. a + int i) [0..<nat c]"
  using py_range3_mult [of 1 c a] by simp

lemma py_range_shift: "0 \<le> c \<Longrightarrow> map ((+) a) (py_range c) = py_range3 a (a + c) 1"
  using py_range_int [of "nat c"] by (simp add: py_range3_unit)

lemma py_range3_split:
  assumes "0 \<le> c" "0 \<le> d"
  shows "py_range3 a (a + (c + d)) 1 = py_range3 a (a + c) 1 @ py_range3 (a + c) (a + c + d) 1"
proof -
  have "map (\<lambda>i. a + int i) [0..<m + n] = map (\<lambda>i. a + int i) [0..<m] @ map (\<lambda>i. a + int m + int i) [0..<n]" for m n
    by (rule nth_equalityI) (auto simp: nth_append)
  from this [of "nat c" "nat d"] show ?thesis using assms
    by (simp add: py_range3_unit nat_add_distrib)
qed

lemma set_py_range3_unit: "0 \<le> c \<Longrightarrow> set (py_range3 a (a + c) 1) = {a..<a + c}"
proof -
  assume c: "0 \<le> c"
  have "x \<in> (\<lambda>i. a + int i) ` {0..<nat c}" if "a \<le> x" "x < a + c" for x
    using that by (intro rev_image_eqI [of "nat (x - a)"]) auto
  with c show ?thesis by (auto simp: py_range3_unit)
qed

lemma index_of_nth: "distinct xs \<Longrightarrow> i < length xs \<Longrightarrow> index_of (xs ! i) xs = int i"
  by (induction xs arbitrary: i) (auto simp: nth_Cons split: nat.splits)

lemma index_of_range3:
  assumes "0 \<le> c" "a \<le> r" "r < a + c"
  shows "index_of r (py_range3 a (a + c) 1) = r - a"
proof -
  let ?xs = "py_range3 a (a + c) 1"
  have "distinct ?xs" by (simp add: py_range3_unit [OF assms(1)] distinct_map inj_on_def)
  moreover have "nat (r - a) < length ?xs" "?xs ! nat (r - a) = r"
    using assms by (simp_all add: py_range3_unit)
  ultimately show ?thesis using index_of_nth [of ?xs "nat (r - a)"] assms(2) by simp
qed

text \<open>The slots of a list of nodes: every node with each of its local ranks, in order.\<close>

definition node_slots :: "string option \<Rightarrow> node_info list \<Rightarrow> (node_info \<times> int) list" where
  "node_slots t ns = concat (map (\<lambda>n. map (Pair n) (py_range (get_hw_resource_count n t))) ns)"

definition hardware_slots :: "node_group list \<Rightarrow> (nat \<times> node_info \<times> int) list" where
  "hardware_slots gs =
     concat (map (\<lambda>(idx, g). map (Pair idx) (node_slots (hardware_type g) (nodes g))) (enumerate 0 gs))"

lemma hardware_ranks_from_ge:
  "r \<in> set (concat (hardware_ranks_from t start ns)) \<Longrightarrow> start \<le> r"
proof (induction ns arbitrary: start)
  case (Cons n ns)
  then consider "r \<in> set (py_range3 start (start + get_hw_resource_count n t) 1)"
    | "r \<in> set (concat (hardware_ranks_from t (start + get_hw_resource_count n t) ns))" by auto
  then show ?case
  proof cases
    case 2
    then have "start + get_hw_resource_count n t \<le> r" by (rule Cons.IH)
    then show ?thesis using get_hw_resource_count_nonneg [of n t] by linarith
  qed (simp add: set_py_range3_unit)
qed simp

lemma find_in_ranks:
  "map (\<lambda>r. map_option (\<lambda>(n, ranks). (n, index_of r ranks))
        (find (\<lambda>(n, ranks). r \<in> set ranks) (zip ns (hardware_ranks_from t start ns))))
     (py_range3 start (start + sum_list (map (\<lambda>n. get_hw_resource_count n t) ns)) 1)
   = map Some (node_slots t ns)"
proof (induction ns arbitrary: start)
  case Nil
  show ?case by (simp add: node_slots_def py_range3_def)
next
  case (Cons n ns)
  let ?c = "get_hw_resource_count n t" and ?s = "sum_list (map (\<lambda>n. get_hw_resource_count n t) ns)"
  have c: "0 \<le> ?c" by simp
  have s: "0 \<le> ?s" by (intro sum_list_nonneg) auto
  let ?f = "\<lambda>r. map_option (\<lambda>(n, ranks). (n, index_of r ranks))
        (find (\<lambda>(n, ranks). r \<in> set ranks) (zip (n # ns) (hardware_ranks_from t start (n # ns))))"
  have split: "py_range3 start (start + (?c + ?s)) 1 = py_range3 start (start + ?c) 1 @ py_range3 (start + ?c) (start + ?c + ?s) 1"
    by (rule py_range3_split [OF c s])
  have "map ?f (py_range3 start (start + ?c) 1) = map (\<lambda>r. Some (n, r - start)) (py_range3 start (start + ?c) 1)"
    by (rule map_cong [OF refl]) (use c in \<open>auto simp: set_py_range3_unit index_of_range3\<close>)
  also have "\<dots> = map Some (map (Pair n) (py_range ?c))"
    using c py_range_int [of "nat ?c"] by (simp add: py_range3_unit)
  finally have 1: "map ?f (py_range3 start (start + ?c) 1) = map Some (map (Pair n) (py_range ?c))" .
  have "map ?f (py_range3 (start + ?c) (start + ?c + ?s) 1)
      = map (\<lambda>r. map_option (\<lambda>(n, ranks). (n, index_of r ranks))
          (find (\<lambda>(n, ranks). r \<in> set ranks) (zip ns (hardware_ranks_from t (start + ?c) ns))))
        (py_range3 (start + ?c) (start + ?c + ?s) 1)"
    by (rule map_cong [OF refl]) (use s c in \<open>auto simp: set_py_range3_unit\<close>)
  also have "\<dots> = map Some (node_slots t ns)" by (rule Cons.IH)
  finally have 2: "map ?f (py_range3 (start + ?c) (start + ?c + ?s) 1) = map Some (node_slots t ns)" .
  have "map ?f (py_range3 start (start + (?c + ?s)) 1) = map Some (map (Pair n) (py_range ?c)) @ map Some (node_slots t ns)"
    unfolding split map_append 1 2 ..
  then show ?case by (simp add: node_slots_def)
qed

lemma group_slots:
  assumes "hardware_type g \<noteq> None"
  shows "map (\<lambda>l. (get_node_by_hardware_rank g l, get_local_hardware_rank g l)) (py_range (hardware_resource_count g))
    = map (\<lambda>(n, l). (Some n, Some l)) (node_slots (hardware_type g) (nodes g))"
proof -
  let ?h = "\<lambda>x :: (node_info \<times> int) option. (map_option fst x, map_option snd x)"
  have count: "hardware_resource_count g = sum_list (map (\<lambda>n. get_hw_resource_count n (hardware_type g)) (nodes g))"
    using assms by (auto simp: hardware_resource_count_def)
  have nn: "0 \<le> hardware_resource_count g" unfolding count by (intro sum_list_nonneg) auto
  have rng: "py_range (hardware_resource_count g) = py_range3 0 (hardware_resource_count g) 1"
    using py_range_shift [OF nn, of 0] by (simp add: map_idI)
  have "map (\<lambda>l. (get_node_by_hardware_rank g l, get_local_hardware_rank g l)) (py_range (hardware_resource_count g))
    = map ?h (map (\<lambda>r. map_option (\<lambda>(n, ranks). (n, index_of r ranks)) (find_rank g r)) (py_range (hardware_resource_count g)))"
    by (simp add: get_node_by_hardware_rank_def get_local_hardware_rank_def option.map_comp comp_def case_prod_unfold)
  also have "\<dots> = map ?h (map Some (node_slots (hardware_type g) (nodes g)))"
    unfolding rng find_rank_def local_hardware_ranks_def
    using find_in_ranks [of "nodes g" "hardware_type g" 0] by (simp add: count)
  finally show ?thesis by (simp add: comp_def case_prod_unfold)
qed

lemma hardware_resource_count_nonneg [simp]: "0 \<le> hardware_resource_count g"
  by (auto simp: hardware_resource_count_def intro!: sum_list_nonneg split: option.split)

lemma rank_to_group_length:
  "int (length (rank_to_group (make_resolver gs))) = total_hardware_count (make_resolver gs)"
proof -
  have "int (length (concat (map (\<lambda>(idx, g). map (\<lambda>l. (idx, l)) (py_range (hardware_resource_count g))) (enumerate k gs))))
      = sum_list (map hardware_resource_count gs)" for k
    by (induction gs arbitrary: k) auto
  then show ?thesis by (simp add: make_resolver_def)
qed

lemma resolver_slots:
  assumes "\<forall>g\<in>set gs. hardware_type g \<noteq> None" "rs = make_resolver gs"
  shows "rmap (\<lambda>r. rbind (lookup_rank rs r) (\<lambda>(idx, _). rbind (resolve_node rs r) (\<lambda>n.
      rbind (resolve_local_rank rs r) (\<lambda>l. Inr (idx, n, l))))) (py_range (total_hardware_count rs))
    = Inr (map (\<lambda>(idx, n, l). (idx, Some n, Some l)) (hardware_slots gs))"
proof -
  let ?L = "rank_to_group rs" and ?E = "enumerate 0 gs"
  let ?f = "\<lambda>(idx, l). (idx, get_node_by_hardware_rank (gs ! idx) l, get_local_hardware_rank (gs ! idx) l)"
  have total: "total_hardware_count rs = int (length ?L)" using rank_to_group_length [of gs] assms(2) by simp
  have groups: "res_groups rs = gs" by (simp add: assms(2) make_resolver_def)
  have "rmap (\<lambda>r. rbind (lookup_rank rs r) (\<lambda>(idx, _). rbind (resolve_node rs r) (\<lambda>n.
      rbind (resolve_local_rank rs r) (\<lambda>l. Inr (idx, n, l))))) (py_range (total_hardware_count rs))
    = Inr (map (\<lambda>r. ?f (?L ! nat r)) (py_range (total_hardware_count rs)))"
    by (rule rmap_all_Inr) (auto simp: total lookup_rank_def resolve_node_def resolve_local_rank_def groups case_prod_unfold)
  also have "map (\<lambda>r. ?f (?L ! nat r)) (py_range (total_hardware_count rs)) = map ?f ?L"
    unfolding total by (rule nth_equalityI) simp_all
  also have "\<dots> = concat (map (\<lambda>(idx, g). map ?f (map (Pair idx) (py_range (hardware_resource_count g)))) ?E)"
    by (simp add: assms(2) make_resolver_def map_concat comp_def case_prod_unfold)
  also have "\<dots> = concat (map (\<lambda>(idx, g). map (\<lambda>(n, l). (idx, Some n, Some l)) (node_slots (hardware_type g) (nodes g))) ?E)"
  proof (intro arg_cong [where f = concat] map_cong [OF refl], clarify)
    fix idx g assume "(idx, g) \<in> set ?E"
    then have g: "gs ! idx = g" "hardware_type g \<noteq> None" using assms(1) by (auto simp: in_set_enumerate_eq)
    have "map ?f (map (Pair idx) (py_range (hardware_resource_count g)))
        = map (Pair idx) (map (\<lambda>l. (get_node_by_hardware_rank g l, get_local_hardware_rank g l)) (py_range (hardware_resource_count g)))"
      by (simp add: g)
    also have "\<dots> = map (\<lambda>(n, l). (idx, Some n, Some l)) (node_slots (hardware_type g) (nodes g))"
      unfolding group_slots [OF g(2)] by (simp add: case_prod_unfold)
    finally show "map ?f (map (Pair idx) (py_range (hardware_resource_count g)))
        = map (\<lambda>(n, l). (idx, Some n, Some l)) (node_slots (hardware_type g) (nodes g))" .
  qed
  also have "\<dots> = map (\<lambda>(idx, n, l). (idx, Some n, Some l)) (hardware_slots gs)"
    by (simp add: hardware_slots_def map_concat comp_def case_prod_unfold)
  finally show ?thesis .
qed

lemma slot_at:
  assumes "\<forall>g\<in>set gs. hardware_type g \<noteq> None" "0 \<le> r" "r < total_hardware_count (make_resolver gs)"
  shows "\<exists>idx n l. hardware_slots gs ! nat r = (idx, n, l) \<and> resolve_node (make_resolver gs) r = Inr (Some n)
    \<and> resolve_local_rank (make_resolver gs) r = Inr (Some l) \<and> nat r < length (hardware_slots gs)
    \<and> (\<exists>l'. lookup_rank (make_resolver gs) r = Inr (idx, l'))"
proof -
  let ?rs = "make_resolver gs"
  note m = resolver_slots [OF assms(1) refl]
  let ?r = "py_range (total_hardware_count ?rs)"
  have "nat r < length ?r" "?r ! nat r = r"
    using assms(2,3) py_range_int [of "nat (total_hardware_count ?rs)"] by (simp_all add: nat_less_iff)
  moreover have len: "length (hardware_slots gs) = length ?r" using rmap_length [OF m] by simp
  ultimately have "rbind (lookup_rank ?rs r) (\<lambda>(idx, _). rbind (resolve_node ?rs r) (\<lambda>n.
      rbind (resolve_local_rank ?rs r) (\<lambda>l. Inr (idx, n, l))))
    = Inr ((\<lambda>(idx, n, l). (idx, Some n, Some l)) (hardware_slots gs ! nat r))"
    using rmap_nth [OF m, of "nat r"] by simp
  moreover obtain idx n l where "hardware_slots gs ! nat r = (idx, n, l)" by (metis prod_cases3)
  ultimately show ?thesis using len \<open>nat r < length ?r\<close> by (auto simp: res_elims)
qed

text \<open>
  C31. When every selected group has a hardware type, the global ranks \<open>0\<close> to
  \<open>total - 1\<close> enumerate the hardware of the groups in order: group by group, in a
  group node by node, on a node by local rank. Each rank is resolved to its group,
  node and local rank without an error, and every slot has exactly one rank.
\<close>

theorem resolver_enumerates:
  assumes "\<forall>g\<in>set gs. hardware_type g \<noteq> None" "rs = make_resolver gs"
  shows "rmap (\<lambda>r. rbind (lookup_rank rs r) (\<lambda>(idx, _). rbind (resolve_node rs r) (\<lambda>n.
      rbind (resolve_local_rank rs r) (\<lambda>l. Inr (idx, n, l))))) (py_range (total_hardware_count rs))
    = Inr (map (\<lambda>(idx, n, l). (idx, Some n, Some l)) (hardware_slots gs))"
  using assms by (rule resolver_slots)

text \<open>An example: two nodes with two and one accelerators, and a robot.\<close>

definition gpu_node :: "int \<Rightarrow> nat \<Rightarrow> node_info" where
  "gpu_node r n = \<lparr>node_rank = r, ray_id = int_str r, node_ip = ''10.0.0.'' @ int_str r, hardware_resources = [\<lparr>res_type = ''Accelerator'', res_models = replicate n ''NV_GPU:A100''\<rparr>]\<rparr>"

definition gpu_group :: "string \<Rightarrow> node_info list \<Rightarrow> node_group" where
  "gpu_group l ns = \<lparr>label = l, nodes = ns, hardware_type = Some ''Accelerator'', ignore_hardware = False, env_configs = []\<rparr>"

theorem resolver_enumerates_witness:
  "rmap (\<lambda>r. rbind (lookup_rank (make_resolver [gpu_group ''a'' [gpu_node 0 2, gpu_node 1 1]]) r) (\<lambda>(idx, _).
      rbind (resolve_node (make_resolver [gpu_group ''a'' [gpu_node 0 2, gpu_node 1 1]]) r) (\<lambda>n.
      rbind (resolve_local_rank (make_resolver [gpu_group ''a'' [gpu_node 0 2, gpu_node 1 1]]) r) (\<lambda>l. Inr (idx, n, l)))))
      (py_range 3)
    = Inr [(0, Some (gpu_node 0 2), Some 0), (0, Some (gpu_node 0 2), Some 1), (0, Some (gpu_node 1 1), Some 0)]"
proof -
  let ?gs = "[gpu_group ''a'' [gpu_node 0 2, gpu_node 1 1]]"
  have "total_hardware_count (make_resolver ?gs) = 3" by code_simp
  moreover have "map (\<lambda>(idx, n, l). (idx, Some n, Some l)) (hardware_slots ?gs)
      = [(0, Some (gpu_node 0 2), Some 0), (0, Some (gpu_node 0 2), Some 1), (0, Some (gpu_node 1 1), Some 0)]"
    by code_simp
  ultimately show ?thesis
    using resolver_enumerates [of ?gs, OF _ refl] by (simp add: gpu_group_def)
qed

end
