(* ===== verification/Placements.thy ===== *)
theory Placements
  imports Node_Group
begin

text \<open>
  The placement strategies: \<open>NodePlacementStrategy\<close> and \<open>FlexiblePlacementStrategy\<close>
  of \<^verbatim>\<open>rlinf/scheduler/placement/node.py\<close> and \<^verbatim>\<open>flexible.py\<close>, with the numbering of
  processes on their nodes that both end with, and the contract that the launcher
  of a worker group relies on.
\<close>

record placement =
  rank :: int
  cluster_node_rank :: int
  placement_node_rank :: int
  accel_type :: string
  local_accelerator_rank :: int
  local_rank :: int
  local_world_size :: int
  visible_accelerators :: "string list"
  isolate_accelerator :: bool
  local_hw_ranks :: "int list"
  node_group_label :: string

section \<open>Numbering the processes of a node\<close>

text \<open>
  The loop over the placements. Its state is the current node, its index, the next
  local rank and world size, and the dictionary of world sizes of finished nodes.
\<close>

fun local_loop ::
  "int \<Rightarrow> int \<Rightarrow> int \<Rightarrow> int \<Rightarrow> (int \<rightharpoonup> int) \<Rightarrow> placement list \<Rightarrow> (placement list \<times> (int \<rightharpoonup> int)) res" where
  "local_loop current nr lr lws d [] = Inr ([], d(current \<mapsto> lws))"
| "local_loop current nr lr lws d (p # ps) =
     (if cluster_node_rank p \<noteq> current
      then (if \<not> cluster_node_rank p > current then Inl AssertionError
            else rbind (local_loop (cluster_node_rank p) (nr + 1) 1 1 (d(current \<mapsto> lws)) ps) (\<lambda>(qs, d').
                 Inr (p\<lparr>placement_node_rank := nr + 1, local_rank := 0\<rparr> # qs, d')))
      else rbind (local_loop current nr (lr + 1) (lws + 1) d ps) (\<lambda>(qs, d').
           Inr (p\<lparr>placement_node_rank := nr, local_rank := lr\<rparr> # qs, d')))"

definition number_placements :: "placement list \<Rightarrow> placement list res" where
  "number_placements ps =
     (case ps of
        [] \<Rightarrow> Inl IndexError
      | p # _ \<Rightarrow>
          rbind (local_loop (cluster_node_rank p) 0 0 0 Map.empty ps) (\<lambda>(qs, d).
          rmap (\<lambda>q. case d (cluster_node_rank q) of
                  None \<Rightarrow> Inl KeyError
                | Some n \<Rightarrow> Inr (q\<lparr>local_world_size := n\<rparr>)) qs))"

text \<open>What the numbering promises, from the nodes of the processes alone.\<close>

definition well_ranked :: "placement list \<Rightarrow> bool" where
  "well_ranked ps =
     (let cs = map cluster_node_rank ps in sorted cs \<and>
      (\<forall>i < length ps.
         rank (ps ! i) = int i
       \<and> local_rank (ps ! i) = int (count_list (take i cs) (cs ! i))
       \<and> local_world_size (ps ! i) = int (count_list cs (cs ! i))
       \<and> placement_node_rank (ps ! i) = int (card {c \<in> set cs. c < cs ! i})))"

section \<open>Placement on nodes\<close>

text \<open>A strategy with its constructor arguments; the constructor sorts the ranks.\<close>

record node_strategy =
  ns_node_ranks :: "int list"
  ns_labels :: "string list option"

definition make_node_strategy :: "int list \<Rightarrow> string list option \<Rightarrow> node_strategy res" where
  "make_node_strategy ranks labels =
     (if \<not> length ranks > 0 then Inl AssertionError
      else Inr \<lparr>ns_node_ranks = sort ranks, ns_labels = labels\<rparr>)"

fun node_resolve_loop :: "cluster \<Rightarrow> int set \<Rightarrow> string list \<Rightarrow> node_group list res" where
  "node_resolve_loop c seen [] = Inr []"
| "node_resolve_loop c seen (l # ls) =
     (case get_node_group c (Some l) of
        None \<Rightarrow> Inl AssertionError
      | Some g \<Rightarrow>
          if seen \<inter> set (Node_Group.node_ranks g) \<noteq> {} then Inl AssertionError
          else rbind (node_resolve_loop c (seen \<union> set (Node_Group.node_ranks g)) ls) (\<lambda>gs. Inr (g # gs)))"

text \<open>Without labels, the default group; a cluster without one makes the next use of it fail.\<close>

definition default_group :: "cluster \<Rightarrow> node_group list res" where
  "default_group c = (case get_node_group c None of None \<Rightarrow> Inl AttributeError | Some g \<Rightarrow> Inr [g])"

definition node_resolve_groups :: "node_strategy \<Rightarrow> cluster \<Rightarrow> node_group list res" where
  "node_resolve_groups s c =
     (case ns_labels s of
        None \<Rightarrow> default_group c
      | Some ls \<Rightarrow> if ls = [] then default_group c else node_resolve_loop c {} ls)"

definition flat_nodes :: "node_group list \<Rightarrow> (int \<times> string) list" where
  "flat_nodes gs = concat (map (\<lambda>g. map (\<lambda>r. (r, label g)) (Node_Group.node_ranks g)) gs)"

definition accelerator_ids :: "int \<Rightarrow> string list" where
  "accelerator_ids n = map int_str (py_range n)"

text \<open>
  One process on a node. The code stores the text of the first accelerator as
  \<open>local_accelerator_rank\<close>, where the record declares an integer; its value is 0.
\<close>

definition node_placement :: "cluster \<Rightarrow> bool \<Rightarrow> int \<Rightarrow> int \<times> string \<Rightarrow> placement res" where
  "node_placement c isolate r nl =
     rbind (get_node_info c (fst nl)) (\<lambda>info.
     rbind (accelerator_type info) (\<lambda>t.
     Inr \<lparr>rank = r, cluster_node_rank = fst nl, placement_node_rank = -1, accel_type = t,
          local_accelerator_rank = (if num_accelerators info \<le> 0 then -1 else 0),
          local_rank = -1, local_world_size = 0,
          visible_accelerators = accelerator_ids (num_accelerators info),
          isolate_accelerator = isolate, local_hw_ranks = [], node_group_label = snd nl\<rparr>))"

definition node_get_placement :: "node_strategy \<Rightarrow> cluster \<Rightarrow> bool \<Rightarrow> placement list res" where
  "node_get_placement s c isolate =
     rbind (node_resolve_groups s c) (\<lambda>gs.
     let flat = flat_nodes gs in
     if \<exists>r\<in>set (ns_node_ranks s). r < 0 \<or> r \<ge> int (length flat) then Inl IndexError
     else rbind (rmap (\<lambda>(i, r). node_placement c isolate (int i) (flat ! nat r)) (enumerate 0 (ns_node_ranks s)))
            number_placements)"

section \<open>Placement on chosen hardware\<close>

record flexible_strategy =
  fs_ranks_list :: "int list list"
  fs_labels :: "string list option"

definition make_flexible_strategy :: "int list list \<Rightarrow> string list option \<Rightarrow> flexible_strategy res" where
  "make_flexible_strategy ranks_list labels =
     (if \<not> length ranks_list > 0 then Inl AssertionError
      else case sort (concat ranks_list) of
        [] \<Rightarrow> Inl IndexError
      | a # as \<Rightarrow>
          if \<not> a \<ge> 0 then Inl AssertionError
          else if \<not> last (a # as) \<ge> 0 then Inl AssertionError
          else if \<not> last (a # as) \<ge> a then Inl AssertionError
          else Inr \<lparr>fs_ranks_list = ranks_list, fs_labels = labels\<rparr>)"

definition resolve_groups :: "string list option \<Rightarrow> cluster \<Rightarrow> node_group list res" where
  "resolve_groups labels c =
     (case labels of
        None \<Rightarrow> default_group c
      | Some ls \<Rightarrow> if ls = [] then default_group c
                   else rmap (\<lambda>l. case get_node_group c (Some l) of None \<Rightarrow> Inl AssertionError | Some g \<Rightarrow> Inr g) ls)"

text \<open>\<open>resolver.get_node_by_hardware_rank(r).node_rank\<close>: the node may be Python's \<open>None\<close>.\<close>

definition node_rank_of :: "resolver \<Rightarrow> int \<Rightarrow> int res" where
  "node_rank_of rs r = rbind (resolve_node rs r) (\<lambda>n. case n of None \<Rightarrow> Inl AttributeError | Some n \<Rightarrow> Inr (node_rank n))"

definition verify_hw_ranks :: "resolver \<Rightarrow> int list \<Rightarrow> unit res" where
  "verify_hw_ranks rs hw_ranks =
     (if \<not> list_all (\<lambda>r. 0 \<le> r \<and> r < total_hardware_count rs) hw_ranks then Inl AssertionError
      else rbind (rmap (node_rank_of rs) hw_ranks) (\<lambda>node_ranks.
        if card (set node_ranks) \<noteq> 1 then Inl AssertionError
        else if \<not> distinct hw_ranks then Inl AssertionError
        else rbind (rmap (resolve_hardware_type rs) hw_ranks) (\<lambda>hw_types.
          if None \<notin> set hw_types \<and> card (set hw_types) \<noteq> 1 then Inl AssertionError else Inr ())))"

definition flexible_placement :: "cluster \<Rightarrow> resolver \<Rightarrow> bool \<Rightarrow> int \<Rightarrow> int \<Rightarrow> int list \<Rightarrow> placement res" where
  "flexible_placement c rs isolate r cnr hw_ranks =
     rbind (rmap (resolve_local_rank rs) hw_ranks) (\<lambda>locals.
     rbind (py_index hw_ranks 0) (\<lambda>h.
     rbind (resolve_label rs h) (\<lambda>lab.
     rbind (resolve_hardware_type rs h) (\<lambda>hw_type.
     rbind (get_node_info c cnr) (\<lambda>info.
     rbind (accelerator_type info) (\<lambda>t.
     let hw_locals = map the locals;
         accel_ranks = (if isolate \<and> hw_type = Some accelerator_hw_type then hw_locals
                        else py_range (num_accelerators info))
     in Inr \<lparr>rank = r, cluster_node_rank = cnr, placement_node_rank = -1, accel_type = t,
          local_accelerator_rank = (case accel_ranks of [] \<Rightarrow> -1 | a # _ \<Rightarrow> a),
          local_rank = -1, local_world_size = 0,
          visible_accelerators = map int_str accel_ranks,
          isolate_accelerator = isolate, local_hw_ranks = hw_locals, node_group_label = lab\<rparr>))))))"

definition flexible_get_placement :: "flexible_strategy \<Rightarrow> cluster \<Rightarrow> bool \<Rightarrow> placement list res" where
  "flexible_get_placement s c isolate =
     rbind (resolve_groups (fs_labels s) c) (\<lambda>gs.
     let rs = make_resolver gs in
     if \<not> total_hardware_count rs > 0 then Inl AssertionError
     else rbind (rmap (verify_hw_ranks rs) (fs_ranks_list s)) (\<lambda>_.
     let ranks_list = sort_key hd (map sort (fs_ranks_list s)) in
     rbind (rmap (\<lambda>hw. node_rank_of rs (hd hw)) ranks_list) (\<lambda>cnrs.
     rbind (rmap (\<lambda>(i, cnr, hw). flexible_placement c rs isolate (int i) cnr hw) (enumerate 0 (zip cnrs ranks_list)))
       number_placements)))"

section \<open>The numbering is right\<close>

definition numbered :: "int list \<Rightarrow> nat \<Rightarrow> placement \<Rightarrow> placement" where
  "numbered cs i p = p\<lparr>placement_node_rank := int (card {c \<in> set cs. c < cluster_node_rank p}),
     local_rank := int (count_list (take i cs) (cluster_node_rank p))\<rparr>"

lemma local_loop_spec:
  assumes "sorted cs" "cs \<noteq> []" "current = last cs"
    and "lr = int (count_list cs current)" "lws = lr" "nr = int (card {c \<in> set cs. c < current})"
    and "\<forall>c\<in>set cs. c \<noteq> current \<longrightarrow> d c = Some (int (count_list cs c))"
  shows "if sorted (cs @ map cluster_node_rank ps)
    then \<exists>d'. local_loop current nr lr lws d ps
        = Inr (map (\<lambda>(i, p). numbered (cs @ map cluster_node_rank ps) i p) (enumerate (length cs) ps), d')
      \<and> (\<forall>c\<in>set (cs @ map cluster_node_rank ps). d' c = Some (int (count_list (cs @ map cluster_node_rank ps) c)))
    else local_loop current nr lr lws d ps = Inl AssertionError"
  using assms
proof (induction ps arbitrary: cs current nr lr lws d)
  case Nil
  then show ?case by auto
next
  case (Cons p ps)
  let ?c = "cluster_node_rank p"
  let ?full = "cs @ map cluster_node_rank (p # ps)"
  have full: "(cs @ [?c]) @ map cluster_node_rank ps = ?full" by simp
  have cur: "current \<in> set cs" using Cons.prems(2,3) by simp
  have le: "\<forall>c\<in>set cs. c \<le> current" using Cons.prems(1,2,3)
    by (cases cs rule: rev_cases) (auto simp: sorted_append)
  have take: "take (length cs) ?full = cs" by simp
  have rest: "\<forall>c\<in>set (map cluster_node_rank ps). ?c \<le> c" if "sorted ?full" using that by (auto simp: sorted_append)
  have node: "{c \<in> set ?full. c < ?c} = {c \<in> set cs. c < ?c}" if "sorted ?full" using rest [OF that] by auto
  consider "?c = current" | "?c > current" | "?c < current" by linarith
  then show ?case
  proof cases
    case 1
    have srt: "sorted (cs @ [?c])" using Cons.prems(1) le 1 by (simp add: sorted_append)
    have small: "{c \<in> set (cs @ [?c]). c < ?c} = {c \<in> set cs. c < current}" using 1 cur by auto
    have d: "\<forall>c\<in>set (cs @ [?c]). c \<noteq> current \<longrightarrow> d c = Some (int (count_list (cs @ [?c]) c))"
      using Cons.prems(7) 1 by auto
    have IH: "if sorted ?full
      then \<exists>d'. local_loop current nr (lr + 1) (lws + 1) d ps
          = Inr (map (\<lambda>(i, p). numbered ?full i p) (enumerate (length (cs @ [?c])) ps), d')
        \<and> (\<forall>c\<in>set ?full. d' c = Some (int (count_list ?full c)))
      else local_loop current nr (lr + 1) (lws + 1) d ps = Inl AssertionError"
      by (rule Cons.IH [of "cs @ [?c]", unfolded full, OF srt _ _ _ _ _ d])
        (use Cons.prems 1 small in simp_all)
    show ?thesis
    proof (cases "sorted ?full")
      case True
      with IH obtain d' where d': "local_loop current nr (lr + 1) (lws + 1) d ps
          = Inr (map (\<lambda>(i, p). numbered ?full i p) (enumerate (length (cs @ [?c])) ps), d')"
        "\<forall>c\<in>set ?full. d' c = Some (int (count_list ?full c))" by (simp only: if_True) blast
      have "numbered ?full (length cs) p = p\<lparr>placement_node_rank := nr, local_rank := lr\<rparr>"
        unfolding numbered_def node [OF True] take using Cons.prems 1 by simp
      then have "local_loop current nr lr lws d (p # ps)
          = Inr (map (\<lambda>(i, p). numbered ?full i p) (enumerate (length cs) (p # ps)), d')"
        using d'(1) 1 by simp
      then show ?thesis using True d'(2) by (simp only: if_True) blast
    next
      case False
      then show ?thesis using IH 1 by (simp only: if_False local_loop.simps) simp
    qed
  next
    case 2
    have srt: "sorted (cs @ [?c])" using Cons.prems(1) le 2 by (auto simp: sorted_append)
    have notin: "?c \<notin> set cs" using le 2 by auto
    have small: "{c \<in> set cs. c < ?c} = insert current {c \<in> set cs. c < current}" using le 2 cur by auto
    have smallc: "int (card {c \<in> set cs. c < ?c}) = nr + 1" unfolding small using Cons.prems(6) by simp
    have d: "\<forall>c\<in>set (cs @ [?c]). c \<noteq> ?c \<longrightarrow> (d(current \<mapsto> lws)) c = Some (int (count_list (cs @ [?c]) c))"
      using Cons.prems(4,5,7) by auto
    have eq: "{c \<in> set (cs @ [?c]). c < ?c} = {c \<in> set cs. c < ?c}" by auto
    have nr2: "nr + 1 = int (card {c \<in> set (cs @ [?c]). c < ?c})" unfolding eq smallc ..
    have IH: "if sorted ?full
      then \<exists>d'. local_loop ?c (nr + 1) 1 1 (d(current \<mapsto> lws)) ps
          = Inr (map (\<lambda>(i, p). numbered ?full i p) (enumerate (length (cs @ [?c])) ps), d')
        \<and> (\<forall>c\<in>set ?full. d' c = Some (int (count_list ?full c)))
      else local_loop ?c (nr + 1) 1 1 (d(current \<mapsto> lws)) ps = Inl AssertionError"
      by (rule Cons.IH [of "cs @ [?c]", unfolded full, OF srt _ _ _ _ _ d])
        (use notin nr2 in \<open>simp_all add: count_notin\<close>)
    show ?thesis
    proof (cases "sorted ?full")
      case True
      with IH obtain d' where d': "local_loop ?c (nr + 1) 1 1 (d(current \<mapsto> lws)) ps
          = Inr (map (\<lambda>(i, p). numbered ?full i p) (enumerate (length (cs @ [?c])) ps), d')"
        "\<forall>c\<in>set ?full. d' c = Some (int (count_list ?full c))" by (simp only: if_True) blast
      have "numbered ?full (length cs) p = p\<lparr>placement_node_rank := nr + 1, local_rank := 0\<rparr>"
        unfolding numbered_def node [OF True] take using smallc notin by (simp add: count_notin)
      then have "local_loop current nr lr lws d (p # ps)
          = Inr (map (\<lambda>(i, p). numbered ?full i p) (enumerate (length cs) (p # ps)), d')"
        using d'(1) 2 by simp
      then show ?thesis using True d'(2) by (simp only: if_True) blast
    next
      case False
      then show ?thesis using IH 2 by (simp only: if_False local_loop.simps) simp
    qed
  next
    case 3
    then have "\<not> sorted ?full" using cur by (force simp: sorted_append)
    then show ?thesis using 3 by (simp only: if_False local_loop.simps) simp
  qed
qed

lemma number_placements_normal:
  assumes "ps \<noteq> []"
  shows "number_placements ps =
    (let cs = map cluster_node_rank ps in
     if sorted cs
     then Inr (map (\<lambda>(i, p). (numbered cs i p)\<lparr>local_world_size := int (count_list cs (cluster_node_rank p))\<rparr>) (enumerate 0 ps))
     else Inl AssertionError)"
proof -
  obtain p ps' where ps: "ps = p # ps'" using assms by (cases ps) auto
  let ?c = "cluster_node_rank p" and ?cs = "map cluster_node_rank ps"
  have cs: "[?c] @ map cluster_node_rank ps' = ?cs" by (simp add: ps)
  have "int (card {c. c = ?c \<and> c < ?c}) = 0" by simp
  have step: "local_loop ?c 0 0 0 Map.empty ps = rbind (local_loop ?c 0 1 1 Map.empty ps') (\<lambda>(qs, d').
      Inr (p\<lparr>placement_node_rank := 0, local_rank := 0\<rparr> # qs, d'))"
    by (simp add: ps)
  have z: "{c \<in> set [?c]. c < ?c} = {}" by auto
  note spec = local_loop_spec [of "[?c]" ?c 1 1 0 Map.empty ps', unfolded cs z]
  show ?thesis
  proof (cases "sorted ?cs")
    case True
    with spec obtain d' where d': "local_loop ?c 0 1 1 Map.empty ps' = Inr (map (\<lambda>(i, p). numbered ?cs i p) (enumerate 1 ps'), d')"
      "\<forall>c\<in>set ?cs. d' c = Some (int (count_list ?cs c))" by auto
    have "{c \<in> set ?cs. c < ?c} = {}" using True by (auto simp: ps)
    then have "numbered ?cs 0 p = p\<lparr>placement_node_rank := 0, local_rank := 0\<rparr>"
      unfolding numbered_def by simp
    then have loop: "local_loop ?c 0 0 0 Map.empty ps = Inr (map (\<lambda>(i, p). numbered ?cs i p) (enumerate 0 ps), d')"
      unfolding step by (simp add: d'(1)) (simp add: ps)
    have "rmap (\<lambda>q. case d' (cluster_node_rank q) of None \<Rightarrow> Inl KeyError | Some n \<Rightarrow> Inr (q\<lparr>local_world_size := n\<rparr>))
        (map (\<lambda>(i, p). numbered ?cs i p) (enumerate 0 ps))
      = Inr (map (\<lambda>q. q\<lparr>local_world_size := int (count_list ?cs (cluster_node_rank q))\<rparr>) (map (\<lambda>(i, p). numbered ?cs i p) (enumerate 0 ps)))"
    proof (rule rmap_all_Inr)
      fix q assume "q \<in> set (map (\<lambda>(i, p). numbered ?cs i p) (enumerate 0 ps))"
      then have "cluster_node_rank q \<in> set ?cs" by (auto simp: numbered_def in_set_enumerate_eq)
      with d'(2) have "d' (cluster_node_rank q) = Some (int (count_list ?cs (cluster_node_rank q)))" by blast
      then show "(case d' (cluster_node_rank q) of None \<Rightarrow> Inl KeyError | Some n \<Rightarrow> Inr (q\<lparr>local_world_size := n\<rparr>))
          = Inr (q\<lparr>local_world_size := int (count_list ?cs (cluster_node_rank q))\<rparr>)" by simp
    qed
    also have "map (\<lambda>q. q\<lparr>local_world_size := int (count_list ?cs (cluster_node_rank q))\<rparr>) (map (\<lambda>(i, p). numbered ?cs i p) (enumerate 0 ps))
        = map (\<lambda>(i, p). (numbered ?cs i p)\<lparr>local_world_size := int (count_list ?cs (cluster_node_rank p))\<rparr>) (enumerate 0 ps)"
      by (simp add: numbered_def case_prod_unfold)
    finally show ?thesis using True loop by (simp only: number_placements_def ps list.case Let_def rbind_simps prod.case if_True)
  next
    case False
    with spec have "local_loop ?c 0 1 1 Map.empty ps' = Inl AssertionError" by auto
    then have "local_loop ?c 0 0 0 Map.empty ps = Inl AssertionError" unfolding step by simp
    then show ?thesis using False by (simp only: number_placements_def ps list.case Let_def rbind_simps if_False)
  qed
qed

lemma number_placements_well_ranked:
  assumes "number_placements ps = Inr qs" "\<forall>i < length ps. rank (ps ! i) = int i"
  shows "qs \<noteq> [] \<and> well_ranked qs \<and> length qs = length ps \<and> map cluster_node_rank qs = map cluster_node_rank ps
    \<and> map local_hw_ranks qs = map local_hw_ranks ps \<and> map visible_accelerators qs = map visible_accelerators ps
    \<and> map node_group_label qs = map node_group_label ps"
proof -
  have ne: "ps \<noteq> []" using assms(1) by (auto simp: number_placements_def)
  let ?cs = "map cluster_node_rank ps"
  from assms(1) number_placements_normal [OF ne] have srt: "sorted ?cs"
    and qs: "qs = map (\<lambda>(i, p). (numbered ?cs i p)\<lparr>local_world_size := int (count_list ?cs (cluster_node_rank p))\<rparr>) (enumerate 0 ps)"
    by (simp_all add: Let_def split: if_splits)
  have len: "length qs = length ps" by (simp add: qs)
  have nth: "qs ! i = (numbered ?cs i (ps ! i))\<lparr>local_world_size := int (count_list ?cs (cluster_node_rank (ps ! i)))\<rparr>"
    if "i < length ps" for i
    using that by (simp add: qs nth_enumerate_eq)
  have cs: "map cluster_node_rank qs = ?cs"
    by (rule nth_equalityI) (simp_all add: len nth numbered_def)
  have others: "map local_hw_ranks qs = map local_hw_ranks ps" "map visible_accelerators qs = map visible_accelerators ps"
    "map node_group_label qs = map node_group_label ps"
    by (rule nth_equalityI; simp add: len nth numbered_def)+
  have "well_ranked qs"
    unfolding well_ranked_def Let_def cs len
    using srt assms(2) by (auto simp: nth numbered_def)
  then show ?thesis using ne len cs others by auto
qed

section \<open>The contract of a placement strategy\<close>

text \<open>
  What the launcher of a worker group relies on: the processes are numbered in
  order, node by node. The lemmas are proved for any strategy that keeps the
  contract.
\<close>

lemma count_list_take_mono: "i \<le> j \<Longrightarrow> count_list (take i cs) x \<le> count_list (take j cs) x"
  by (metis count_list_append le_add1 min.absorb1 take_add le_add_diff_inverse)

lemma count_list_take_less:
  assumes "i < j" "i < length cs"
  shows "count_list (take i cs) (cs ! i) < count_list (take j cs) (cs ! i)"
proof -
  have "count_list (take (Suc i) cs) (cs ! i) = Suc (count_list (take i cs) (cs ! i))"
    using assms(2) by (simp add: take_Suc_conv_app_nth)
  moreover have "count_list (take (Suc i) cs) (cs ! i) \<le> count_list (take j cs) (cs ! i)"
    using assms(1) by (intro count_list_take_mono) simp
  ultimately show ?thesis by linarith
qed

lemma count_list_ranks:
  "(\<lambda>i. count_list (take i cs) x) ` {i. i < length cs \<and> cs ! i = x} = {..<count_list cs x}"
proof (induction cs rule: rev_induct)
  case (snoc c cs)
  have "{i. i < length (cs @ [c]) \<and> (cs @ [c]) ! i = x}
      = {i. i < length cs \<and> cs ! i = x} \<union> (if c = x then {length cs} else {})"
    by (auto simp: nth_append less_Suc_eq)
  then have "(\<lambda>i. count_list (take i (cs @ [c])) x) ` {i. i < length (cs @ [c]) \<and> (cs @ [c]) ! i = x}
      = (\<lambda>i. count_list (take i cs) x) ` {i. i < length cs \<and> cs ! i = x} \<union> (if c = x then {count_list cs x} else {})"
    by (auto simp: image_iff)
  then show ?case unfolding snoc by auto
qed simp

locale placement_strategy =
  fixes place :: "'s \<Rightarrow> cluster \<Rightarrow> bool \<Rightarrow> placement list res"
    and accepts :: "'s \<Rightarrow> cluster \<Rightarrow> bool"
  assumes place_ranked: "accepts s c \<Longrightarrow> place s c isolate = Inr ps \<Longrightarrow> ps \<noteq> [] \<and> well_ranked ps"
begin

lemma process_ranks:
  assumes "accepts s c" "place s c isolate = Inr ps"
  shows "map rank ps = map int [0..<length ps]"
  using place_ranked [OF assms] by (intro nth_equalityI) (auto simp: well_ranked_def Let_def)

lemma local_rank_bounds:
  assumes "accepts s c" "place s c isolate = Inr ps" "p \<in> set ps"
  shows "0 \<le> local_rank p \<and> local_rank p < local_world_size p"
proof -
  obtain i where i: "i < length ps" "p = ps ! i" using assms(3) by (metis in_set_conv_nth)
  let ?cs = "map cluster_node_rank ps"
  have "count_list (take i ?cs) (?cs ! i) < count_list (take (length ?cs) ?cs) (?cs ! i)"
    using i(1) by (intro count_list_take_less) auto
  then show ?thesis using place_ranked [OF assms(1,2)] i by (simp add: well_ranked_def Let_def)
qed

text \<open>No two processes share a node and a local rank, and the local ranks of a node have no gap.\<close>

lemma local_rank_unique:
  assumes "accepts s c" "place s c isolate = Inr ps" "i < length ps" "j < length ps"
    and "cluster_node_rank (ps ! i) = cluster_node_rank (ps ! j)" "local_rank (ps ! i) = local_rank (ps ! j)"
  shows "i = j"
proof (rule ccontr)
  let ?cs = "map cluster_node_rank ps"
  have w: "local_rank (ps ! i) = int (count_list (take i ?cs) (?cs ! i))" if "i < length ps" for i
    using place_ranked [OF assms(1,2)] that by (simp add: well_ranked_def Let_def)
  have eq: "?cs ! i = ?cs ! j" using assms(3-5) by simp
  assume "i \<noteq> j"
  then consider "i < j" | "j < i" by linarith
  then show False
  proof cases
    case 1
    then have "count_list (take i ?cs) (?cs ! i) < count_list (take j ?cs) (?cs ! i)"
      using assms(3) by (intro count_list_take_less) auto
    then show False using w [OF assms(3)] w [OF assms(4)] assms(6) eq by simp
  next
    case 2
    then have "count_list (take j ?cs) (?cs ! j) < count_list (take i ?cs) (?cs ! j)"
      using assms(4) by (intro count_list_take_less) auto
    then show False using w [OF assms(3)] w [OF assms(4)] assms(6) eq by simp
  qed
qed

lemma local_ranks_of_node:
  assumes "accepts s c" "place s c isolate = Inr ps" "p \<in> set ps"
  shows "local_rank ` {q \<in> set ps. cluster_node_rank q = cluster_node_rank p} = {0..<local_world_size p}"
proof -
  let ?cs = "map cluster_node_rank ps" and ?x = "cluster_node_rank p"
  have w: "local_rank (ps ! i) = int (count_list (take i ?cs) (?cs ! i))"
    "local_world_size (ps ! i) = int (count_list ?cs (?cs ! i))" if "i < length ps" for i
    using place_ranked [OF assms(1,2)] that by (simp_all add: well_ranked_def Let_def)
  obtain i where i: "i < length ps" "p = ps ! i" using assms(3) by (metis in_set_conv_nth)
  have "{q \<in> set ps. cluster_node_rank q = ?x} = (\<lambda>i. ps ! i) ` {i. i < length ?cs \<and> ?cs ! i = ?x}"
    by (auto simp: in_set_conv_nth image_iff)
  then have "local_rank ` {q \<in> set ps. cluster_node_rank q = ?x}
      = (\<lambda>i. int (count_list (take i ?cs) ?x)) ` {i. i < length ?cs \<and> ?cs ! i = ?x}"
    using w(1) by (auto simp: image_image intro!: image_cong)
  also have "\<dots> = int ` {..<count_list ?cs ?x}"
    unfolding count_list_ranks [symmetric] image_image ..
  also have "\<dots> = {0..<local_world_size p}"
    using w(2) [OF i(1)] i by (simp add: image_int_atLeastLessThan flip: atLeast0LessThan)
  finally show ?thesis .
qed

end

section \<open>Both strategies keep the contract\<close>

lemma node_placement_fields:
  assumes "node_placement c isolate r nl = Inr p"
  shows "rank p = r \<and> cluster_node_rank p = fst nl \<and> node_group_label p = snd nl \<and> local_hw_ranks p = []"
  using assms by (auto simp: node_placement_def res_elims)

lemma node_placements_fields:
  assumes "rmap (\<lambda>(i, r). node_placement c isolate (int i) (flat ! nat r)) (enumerate 0 ranks) = Inr ps"
  shows "length ps = length ranks \<and> (\<forall>i < length ps. rank (ps ! i) = int i
    \<and> cluster_node_rank (ps ! i) = fst (flat ! nat (ranks ! i)) \<and> node_group_label (ps ! i) = snd (flat ! nat (ranks ! i)))"
proof -
  have len: "length ps = length ranks" using rmap_length [OF assms] by simp
  moreover have "node_placement c isolate (int i) (flat ! nat (ranks ! i)) = Inr (ps ! i)" if "i < length ps" for i
    using rmap_nth [OF assms, of i] that len by (simp add: nth_enumerate_eq)
  ultimately show ?thesis using node_placement_fields by blast
qed

lemma node_get_placement_parts:
  assumes "node_get_placement s c isolate = Inr ps"
  obtains gs qs where "node_resolve_groups s c = Inr gs" "length qs = length (ns_node_ranks s)"
    "\<forall>r\<in>set (ns_node_ranks s). 0 \<le> r \<and> r < int (length (flat_nodes gs))"
    "\<forall>i < length qs. rank (qs ! i) = int i \<and> cluster_node_rank (qs ! i) = fst (flat_nodes gs ! nat (ns_node_ranks s ! i))
       \<and> node_group_label (qs ! i) = snd (flat_nodes gs ! nat (ns_node_ranks s ! i))"
    "number_placements qs = Inr ps"
proof -
  from assms obtain gs where gs: "node_resolve_groups s c = Inr gs"
    "\<forall>r\<in>set (ns_node_ranks s). 0 \<le> r \<and> r < int (length (flat_nodes gs))"
    and "rbind (rmap (\<lambda>(i, r). node_placement c isolate (int i) (flat_nodes gs ! nat r)) (enumerate 0 (ns_node_ranks s)))
      number_placements = Inr ps"
    by (auto simp: node_get_placement_def Let_def res_elims not_le not_less split: if_splits)
  then obtain qs where qs: "rmap (\<lambda>(i, r). node_placement c isolate (int i) (flat_nodes gs ! nat r)) (enumerate 0 (ns_node_ranks s)) = Inr qs"
    "number_placements qs = Inr ps" by (auto simp: res_elims)
  from node_placements_fields [OF qs(1)] show ?thesis using that gs qs(2) by blast
qed

interpretation node_strategy: placement_strategy node_get_placement "\<lambda>s c. True"
proof
  fix s c isolate ps assume "node_get_placement s c isolate = Inr ps"
  then obtain qs where "number_placements qs = Inr ps" "\<forall>i < length qs. rank (qs ! i) = int i"
    by (rule node_get_placement_parts) blast
  then show "ps \<noteq> [] \<and> well_ranked ps" using number_placements_well_ranked by blast
qed

lemma flexible_placement_fields:
  assumes "flexible_placement c rs isolate r cnr hw = Inr p"
  shows "rank p = r \<and> cluster_node_rank p = cnr
    \<and> (\<exists>ls. rmap (resolve_local_rank rs) hw = Inr ls \<and> local_hw_ranks p = map the ls)"
  using assms by (auto simp: flexible_placement_def Let_def res_elims)

lemma flexible_get_placement_parts:
  assumes "flexible_get_placement s c isolate = Inr ps"
  obtains gs qs hws where "resolve_groups (fs_labels s) c = Inr gs"
    "hws = sort_key hd (map sort (fs_ranks_list s))" "length qs = length hws"
    "\<forall>hw\<in>set (fs_ranks_list s). verify_hw_ranks (make_resolver gs) hw = Inr ()"
    "\<forall>i < length qs. rank (qs ! i) = int i
       \<and> node_rank_of (make_resolver gs) (hd (hws ! i)) = Inr (cluster_node_rank (qs ! i))
       \<and> (\<exists>ls. rmap (resolve_local_rank (make_resolver gs)) (hws ! i) = Inr ls \<and> local_hw_ranks (qs ! i) = map the ls)"
    "number_placements qs = Inr ps"
proof -
  let ?hws = "sort_key hd (map sort (fs_ranks_list s))"
  from assms obtain gs where gs: "resolve_groups (fs_labels s) c = Inr gs"
    and rest: "(let rs = make_resolver gs in
       if \<not> total_hardware_count rs > 0 then Inl AssertionError
       else rbind (rmap (verify_hw_ranks rs) (fs_ranks_list s)) (\<lambda>_.
       let ranks_list = ?hws in
       rbind (rmap (\<lambda>hw. node_rank_of rs (hd hw)) ranks_list) (\<lambda>cnrs.
       rbind (rmap (\<lambda>(i, cnr, hw). flexible_placement c rs isolate (int i) cnr hw) (enumerate 0 (zip cnrs ranks_list)))
         number_placements))) = Inr ps"
    by (auto simp: flexible_get_placement_def res_elims)
  let ?rs = "make_resolver gs"
  from rest obtain vs cnrs qs where
    vs: "rmap (verify_hw_ranks ?rs) (fs_ranks_list s) = Inr vs"
    and cnrs: "rmap (\<lambda>hw. node_rank_of ?rs (hd hw)) ?hws = Inr cnrs"
    and qs: "rmap (\<lambda>(i, cnr, hw). flexible_placement c ?rs isolate (int i) cnr hw) (enumerate 0 (zip cnrs ?hws)) = Inr qs"
    and ps: "number_placements qs = Inr ps"
    by (auto simp: Let_def res_elims split: if_splits)
  have "verify_hw_ranks ?rs hw = Inr ()" if "hw \<in> set (fs_ranks_list s)" for hw
  proof -
    from that obtain i where "i < length (fs_ranks_list s)" "hw = fs_ranks_list s ! i" by (metis in_set_conv_nth)
    with rmap_nth [OF vs, of i] show ?thesis by simp
  qed
  moreover have len: "length cnrs = length ?hws" "length qs = length ?hws"
    using rmap_length [OF cnrs] rmap_length [OF qs] by simp_all
  moreover have "rank (qs ! i) = int i \<and> node_rank_of ?rs (hd (?hws ! i)) = Inr (cluster_node_rank (qs ! i))
      \<and> (\<exists>ls. rmap (resolve_local_rank ?rs) (?hws ! i) = Inr ls \<and> local_hw_ranks (qs ! i) = map the ls)"
    if i: "i < length qs" for i
  proof -
    have "flexible_placement c ?rs isolate (int i) (cnrs ! i) (?hws ! i) = Inr (qs ! i)"
      using rmap_nth [OF qs, of i] i len by (simp add: nth_enumerate_eq)
    moreover have "node_rank_of ?rs (hd (?hws ! i)) = Inr (cnrs ! i)" using rmap_nth [OF cnrs, of i] i len by simp
    ultimately show ?thesis using flexible_placement_fields by metis
  qed
  ultimately show ?thesis using that gs ps by blast
qed

interpretation flexible_strategy: placement_strategy flexible_get_placement "\<lambda>s c. True"
proof
  fix s c isolate ps assume "flexible_get_placement s c isolate = Inr ps"
  then obtain qs where "number_placements qs = Inr ps" "\<forall>i < length qs. rank (qs ! i) = int i"
    by (rule flexible_get_placement_parts) blast
  then show "ps \<noteq> [] \<and> well_ranked ps" using number_placements_well_ranked by blast
qed

section \<open>What the placements are\<close>

definition example_cluster :: cluster where
  "example_cluster =
     \<lparr>cluster_nodes = [gpu_node 0 2, gpu_node 1 2],
      node_groups = [gpu_group ''cluster'' [gpu_node 0 2, gpu_node 1 2], gpu_group ''a'' [gpu_node 0 2], gpu_group ''b'' [gpu_node 1 2]]\<rparr>"

text \<open>
  \<open>NodePlacementStrategy\<close> puts process \<open>i\<close> on the node at the \<open>i\<close>-th of the
  sorted node ranks, counted through the selected groups in order.
\<close>

lemma node_placement_nodes:
  assumes "make_node_strategy ranks labels = Inr s" "node_get_placement s c isolate = Inr ps"
  shows "\<exists>gs. node_resolve_groups s c = Inr gs
    \<and> map cluster_node_rank ps = map (\<lambda>r. fst (flat_nodes gs ! nat r)) (sort ranks)"
proof -
  have s: "ns_node_ranks s = sort ranks" using assms(1) by (auto simp: make_node_strategy_def split: if_splits)
  from assms(2) show ?thesis
  proof (rule node_get_placement_parts)
    fix gs qs
    assume gs: "node_resolve_groups s c = Inr gs" and len: "length qs = length (ns_node_ranks s)"
      and f: "\<forall>i < length qs. rank (qs ! i) = int i \<and> cluster_node_rank (qs ! i) = fst (flat_nodes gs ! nat (ns_node_ranks s ! i))
        \<and> node_group_label (qs ! i) = snd (flat_nodes gs ! nat (ns_node_ranks s ! i))"
      and n: "number_placements qs = Inr ps"
    have "map cluster_node_rank ps = map cluster_node_rank qs" using number_placements_well_ranked [OF n] f by blast
    also have "\<dots> = map (\<lambda>r. fst (flat_nodes gs ! nat r)) (sort ranks)"
      by (rule nth_equalityI) (use len f s in auto)
    finally show ?thesis using gs by blast
  qed
qed

lemma node_example:
  "node_get_placement \<lparr>ns_node_ranks = [0, 0, 1], ns_labels = Some [''a'', ''b'']\<rparr> example_cluster True
   = Inr [
     \<lparr>rank = 0, cluster_node_rank = 0, placement_node_rank = 0, accel_type = ''NV_GPU'', local_accelerator_rank = 0,
       local_rank = 0, local_world_size = 2, visible_accelerators = [''0'', ''1''], isolate_accelerator = True,
       local_hw_ranks = [], node_group_label = ''a''\<rparr>,
     \<lparr>rank = 1, cluster_node_rank = 0, placement_node_rank = 0, accel_type = ''NV_GPU'', local_accelerator_rank = 0,
       local_rank = 1, local_world_size = 2, visible_accelerators = [''0'', ''1''], isolate_accelerator = True,
       local_hw_ranks = [], node_group_label = ''a''\<rparr>,
     \<lparr>rank = 2, cluster_node_rank = 1, placement_node_rank = 1, accel_type = ''NV_GPU'', local_accelerator_rank = 0,
       local_rank = 0, local_world_size = 1, visible_accelerators = [''0'', ''1''], isolate_accelerator = True,
       local_hw_ranks = [], node_group_label = ''b''\<rparr>]"
  by code_simp

lemma verify_hw_ranks_slots:
  assumes "verify_hw_ranks (make_resolver gs) hw = Inr ()" "\<forall>g\<in>set gs. hardware_type g \<noteq> None"
  shows "\<forall>r\<in>set hw. node_rank_of (make_resolver gs) r = Inr (node_rank (fst (snd (hardware_slots gs ! nat r))))
      \<and> resolve_local_rank (make_resolver gs) r = Inr (Some (snd (snd (hardware_slots gs ! nat r))))"
    and "\<forall>r\<in>set hw. \<forall>r'\<in>set hw. node_rank (fst (snd (hardware_slots gs ! nat r))) = node_rank (fst (snd (hardware_slots gs ! nat r')))"
proof -
  let ?rs = "make_resolver gs" and ?f = "\<lambda>r. node_rank (fst (snd (hardware_slots gs ! nat r)))"
  have rng: "\<forall>r\<in>set hw. 0 \<le> r \<and> r < total_hardware_count ?rs"
    using assms(1) by (auto simp: verify_hw_ranks_def list_all_iff split: if_splits)
  show 1: "\<forall>r\<in>set hw. node_rank_of ?rs r = Inr (?f r)
      \<and> resolve_local_rank ?rs r = Inr (Some (snd (snd (hardware_slots gs ! nat r))))"
  proof
    fix r assume "r \<in> set hw"
    with rng slot_at [OF assms(2), of r] show "node_rank_of ?rs r = Inr (?f r)
        \<and> resolve_local_rank ?rs r = Inr (Some (snd (snd (hardware_slots gs ! nat r))))"
      by (force simp: node_rank_of_def)
  qed
  then have "rmap (node_rank_of ?rs) hw = Inr (map ?f hw)" by (intro rmap_all_Inr) blast
  with assms(1) have "card (?f ` set hw) = 1"
    by (auto simp: verify_hw_ranks_def split: if_splits)
  then obtain x where x: "?f ` set hw = {x}" by (metis card_1_singletonE)
  show "\<forall>r\<in>set hw. \<forall>r'\<in>set hw. ?f r = ?f r'" using x by (metis imageI singletonD)
qed

lemma flexible_hardware_ok:
  assumes "flexible_get_placement s c isolate = Inr ps" "resolve_groups (fs_labels s) c = Inr gs"
    and "\<forall>g\<in>set gs. hardware_type g \<noteq> None" and hws_def: "hws = sort_key hd (map sort (fs_ranks_list s))"
  shows "length ps = length hws
    \<and> (\<forall>i < length ps. hws ! i \<noteq> []
         \<and> (\<forall>r\<in>set (hws ! i). node_rank (fst (snd (hardware_slots gs ! nat r))) = cluster_node_rank (ps ! i))
         \<and> local_hw_ranks (ps ! i) = map (\<lambda>r. snd (snd (hardware_slots gs ! nat r))) (hws ! i))"
  using assms(1)
proof (rule flexible_get_placement_parts)
  fix gs' qs hws'
  let ?rs = "make_resolver gs" and ?slot = "\<lambda>r. hardware_slots gs ! nat r"
  assume "resolve_groups (fs_labels s) c = Inr gs'"
  then have gs': "gs' = gs" using assms(2) by simp
  assume hws': "hws' = sort_key hd (map sort (fs_ranks_list s))" and len': "length qs = length hws'"
    and v: "\<forall>hw\<in>set (fs_ranks_list s). verify_hw_ranks (make_resolver gs') hw = Inr ()"
    and f': "\<forall>i < length qs. rank (qs ! i) = int i
       \<and> node_rank_of (make_resolver gs') (hd (hws' ! i)) = Inr (cluster_node_rank (qs ! i))
       \<and> (\<exists>ls. rmap (resolve_local_rank (make_resolver gs')) (hws' ! i) = Inr ls \<and> local_hw_ranks (qs ! i) = map the ls)"
    and n: "number_placements qs = Inr ps"
  have hws: "hws = sort_key hd (map sort (fs_ranks_list s))" by (rule hws_def)
  have hh: "hws' = hws" using hws hws' by simp
  note len = len' [unfolded hh] and f = f' [unfolded hh]
  have w: "length ps = length qs" "map cluster_node_rank ps = map cluster_node_rank qs" "map local_hw_ranks ps = map local_hw_ranks qs"
    using number_placements_well_ranked [OF n] f by auto
  have "hws ! i \<noteq> [] \<and> (\<forall>r\<in>set (hws ! i). node_rank (fst (snd (?slot r))) = cluster_node_rank (ps ! i))
      \<and> local_hw_ranks (ps ! i) = map (\<lambda>r. snd (snd (?slot r))) (hws ! i)" if i: "i < length ps" for i
  proof -
    have eq: "cluster_node_rank (ps ! i) = cluster_node_rank (qs ! i)" "local_hw_ranks (ps ! i) = local_hw_ranks (qs ! i)"
      using w i by (metis nth_map)+
    have "hws ! i \<in> set hws" using i w(1) len by simp
    then obtain hw where hw: "hw \<in> set (fs_ranks_list s)" "hws ! i = sort hw" by (auto simp: hws)
    have ver: "verify_hw_ranks ?rs hw = Inr ()" using v hw(1) gs' by blast
    then have "hw \<noteq> []" by (auto simp: verify_hw_ranks_def)
    then have ne: "hws ! i \<noteq> []" by (metis hw(2) length_0_conv length_sort)
    have st: "set (hws ! i) = set hw" by (simp add: hw(2))
    have hd: "hd (hws ! i) \<in> set hw" unfolding st [symmetric] using ne by (rule hd_in_set)
    note sl = verify_hw_ranks_slots [OF ver assms(3)]
    have fi: "node_rank_of ?rs (hd (hws ! i)) = Inr (cluster_node_rank (qs ! i))"
      "\<exists>ls. rmap (resolve_local_rank ?rs) (hws ! i) = Inr ls \<and> local_hw_ranks (qs ! i) = map the ls"
      using f i w(1) gs' by auto
    have "node_rank (fst (snd (?slot (hd (hws ! i))))) = cluster_node_rank (qs ! i)"
      using sl(1) hd fi(1) by auto
    then have nodes: "\<forall>r\<in>set (hws ! i). node_rank (fst (snd (?slot r))) = cluster_node_rank (ps ! i)"
      unfolding st eq using sl(2) hd by metis
    have "rmap (resolve_local_rank ?rs) (hws ! i) = Inr (map (\<lambda>r. Some (snd (snd (?slot r)))) (hws ! i))"
      by (rule rmap_all_Inr) (use sl(1) st in auto)
    then have "local_hw_ranks (ps ! i) = map (\<lambda>r. snd (snd (?slot r))) (hws ! i)"
      using fi(2) by (simp add: eq comp_def)
    with ne nodes show ?thesis by blast
  qed
  then show ?thesis using w(1) len by simp
qed

text \<open>
  \<open>FlexiblePlacementStrategy\<close> gives every process exactly the hardware that was
  asked for: there is one process for each list of ranks (sorted, and ordered by its
  first rank), it runs on the one node that holds all of that hardware, and its local
  hardware ranks are the local ranks of that hardware on the node.
\<close>

lemma flexible_placement_hardware:
  assumes "flexible_get_placement s c isolate = Inr ps" "resolve_groups (fs_labels s) c = Inr gs"
    and "\<forall>g\<in>set gs. hardware_type g \<noteq> None"
  shows "\<exists>hws. mset hws = mset (map sort (fs_ranks_list s)) \<and> length ps = length hws
    \<and> (\<forall>i < length ps. hws ! i \<noteq> []
         \<and> (\<forall>r\<in>set (hws ! i). node_rank (fst (snd (hardware_slots gs ! nat r))) = cluster_node_rank (ps ! i))
         \<and> local_hw_ranks (ps ! i) = map (\<lambda>r. snd (snd (hardware_slots gs ! nat r))) (hws ! i))"
proof -
  define hws where "hws = sort_key hd (map sort (fs_ranks_list s))"
  have "mset hws = mset (map sort (fs_ranks_list s))" by (simp add: hws_def flip: mset_map)
  with flexible_hardware_ok [OF assms hws_def] show ?thesis by blast
qed

definition flexible_example :: flexible_strategy where
  "flexible_example = \<lparr>fs_ranks_list = [[3], [1, 0]], fs_labels = Some [''a'', ''b'']\<rparr>"

lemma flexible_example_run:
  "flexible_get_placement flexible_example example_cluster True
   = Inr [
     \<lparr>rank = 0, cluster_node_rank = 0, placement_node_rank = 0, accel_type = ''NV_GPU'', local_accelerator_rank = 0,
       local_rank = 0, local_world_size = 1, visible_accelerators = [''0'', ''1''], isolate_accelerator = True,
       local_hw_ranks = [0, 1], node_group_label = ''a''\<rparr>,
     \<lparr>rank = 1, cluster_node_rank = 1, placement_node_rank = 1, accel_type = ''NV_GPU'', local_accelerator_rank = 1,
       local_rank = 0, local_world_size = 1, visible_accelerators = [''1''], isolate_accelerator = True,
       local_hw_ranks = [1], node_group_label = ''b''\<rparr>]"
  by code_simp

text \<open>
  Under both strategies the processes of a node have the local ranks
  \<open>0\<close> to \<open>local_world_size - 1\<close>, each exactly once.
\<close>

lemma placement_local_ranks:
  assumes "node_get_placement s c isolate = Inr ps \<or> flexible_get_placement t c isolate = Inr ps"
    and "p \<in> set ps"
  shows "local_rank ` {q \<in> set ps. cluster_node_rank q = cluster_node_rank p} = {0..<local_world_size p}
    \<and> length (filter (\<lambda>q. cluster_node_rank q = cluster_node_rank p \<and> local_rank q = local_rank p) ps) = 1"
proof -
  from assms(1) have 1: "local_rank ` {q \<in> set ps. cluster_node_rank q = cluster_node_rank p} = {0..<local_world_size p}"
    using node_strategy.local_ranks_of_node [OF TrueI _ assms(2)] flexible_strategy.local_ranks_of_node [OF TrueI _ assms(2)] by blast
  from assms(1) have u: "i = j" if "i < length ps" "j < length ps"
    "cluster_node_rank (ps ! i) = cluster_node_rank (ps ! j)" "local_rank (ps ! i) = local_rank (ps ! j)" for i j
    using that node_strategy.local_rank_unique [OF TrueI, of s c isolate ps i j]
      flexible_strategy.local_rank_unique [OF TrueI, of t c isolate ps i j] by blast
  obtain i where i: "i < length ps" "p = ps ! i" using assms(2) by (metis in_set_conv_nth)
  have "{j. j < length ps \<and> cluster_node_rank (ps ! j) = cluster_node_rank p \<and> local_rank (ps ! j) = local_rank p} = {i}"
    using u i by blast
  then have "length (filter (\<lambda>q. cluster_node_rank q = cluster_node_rank p \<and> local_rank q = local_rank p) ps) = 1"
    by (simp add: length_filter_conv_card)
  with 1 show ?thesis by blast
qed

end
