(* ===== verification/Packed_Placement.thy ===== *)
theory Packed_Placement
  imports Placements
begin

text \<open>
  \<open>PackedPlacementStrategy\<close> of \<^verbatim>\<open>rlinf/scheduler/placement/packed.py\<close>: consecutive
  processes take \<open>n\<close> pieces of hardware each, \<open>stride\<close> apart, until the range of
  ranks is used up. The \<open>while True\<close> loop of \<open>get_placement\<close> is a partial function
  over a record of its local variables; one round is \<open>packed_step\<close>.
\<close>

section \<open>The strategy\<close>

record packed_strategy =
  start_hw_rank :: int
  end_hw_rank :: int
  num_hardware_per_process :: int
  stride :: int
  pk_labels :: "string list option"

definition make_packed_strategy :: "int \<Rightarrow> int \<Rightarrow> int \<Rightarrow> int \<Rightarrow> string list option \<Rightarrow> packed_strategy res" where
  "make_packed_strategy start end_rank n st labels =
     (if \<not> start \<ge> 0 then Inl AssertionError
      else if \<not> end_rank \<ge> 0 then Inl AssertionError
      else if \<not> end_rank \<ge> start then Inl AssertionError
      else rbind (py_mod (end_rank - start + 1) (n * st)) (\<lambda>m.
        if m \<noteq> 0 then Inl AssertionError
        else Inr \<lparr>start_hw_rank = start, end_hw_rank = end_rank, num_hardware_per_process = n, stride = st,
                  pk_labels = labels\<rparr>))"

section \<open>One round of the loop\<close>

text \<open>The local variables; \<open>hw_usage\<close> is the dictionary \<open>hw_usage_map\<close> in insertion order.\<close>

record packed_state =
  pk_rank :: int
  pk_start :: int
  pk_node_rank :: int
  pk_cnr :: int
  pk_local_rank :: int
  pk_lws :: int
  hw_usage :: "(int \<times> bool) list"
  pk_placements :: "placement list"

definition mark_used :: "(int \<times> bool) list \<Rightarrow> int list \<Rightarrow> (int \<times> bool) list" where
  "mark_used usage ranks = foldl (\<lambda>u r. AList.update r True u) usage ranks"

definition next_unused :: "(int \<times> bool) list \<Rightarrow> int option" where
  "next_unused usage = find (\<lambda>r. map_of usage r = Some False) (sort (map fst usage))"

text \<open>The backward loop that fills in the world size of the node just finished.\<close>

definition fill_world_size :: "int \<Rightarrow> placement list \<Rightarrow> placement list" where
  "fill_world_size n ps =
     rev (map (\<lambda>p. p\<lparr>local_world_size := n\<rparr>) (takeWhile (\<lambda>p. local_world_size p = 0) (rev ps))
          @ dropWhile (\<lambda>p. local_world_size p = 0) (rev ps))"

text \<open>The placement of one process, with the checks before it.\<close>

definition packed_process ::
  "packed_strategy \<Rightarrow> cluster \<Rightarrow> resolver \<Rightarrow> bool \<Rightarrow> packed_state \<Rightarrow> placement res" where
  "packed_process s c rs isolate st =
     (let n = num_hardware_per_process s; stp = stride s; start = pk_start st in
      rbind (resolve_group rs start) (\<lambda>g.
      rbind (resolve_hardware_type rs start) (\<lambda>hw_type.
      if hw_type = None then Inl AssertionError
      else rbind (resolve_local_rank rs start) (\<lambda>lo.
        case lo of None \<Rightarrow> Inl TypeError
        | Some local_hw_rank \<Rightarrow>
      rbind (get_node_info c (pk_cnr st)) (\<lambda>info.
      if \<not> local_hw_rank + (n - 1) * stp \<le> get_hw_resource_count info hw_type then Inl AssertionError
      else rbind (rmap (\<lambda>r. rbind (resolve_hardware_type rs r) (\<lambda>t. if t = hw_type then Inr () else Inl AssertionError))
                   (py_range3 start (start + n * stp) stp)) (\<lambda>_.
      let local_ranks = py_range3 local_hw_rank (local_hw_rank + n * stp) stp;
          accel_ranks = (if isolate \<and> hw_type = Some accelerator_hw_type then local_ranks
                         else py_range (num_accelerators info))
      in rbind (accelerator_type info) (\<lambda>t.
         Inr \<lparr>rank = pk_rank st, cluster_node_rank = pk_cnr st, placement_node_rank = pk_node_rank st, accel_type = t,
              local_accelerator_rank = (case accel_ranks of [] \<Rightarrow> -1 | a # _ \<Rightarrow> a),
              local_rank = pk_local_rank st, local_world_size = 0,
              visible_accelerators = map int_str accel_ranks, isolate_accelerator = isolate,
              local_hw_ranks = local_ranks, node_group_label = label g\<rparr>)))))))"

text \<open>A round: \<open>Inl\<close> of the finished placements, or \<open>Inr\<close> of the state for the next round.\<close>

definition packed_step ::
  "packed_strategy \<Rightarrow> cluster \<Rightarrow> resolver \<Rightarrow> bool \<Rightarrow> packed_state \<Rightarrow> (placement list + packed_state) res" where
  "packed_step s c rs isolate st =
     rbind (packed_process s c rs isolate st) (\<lambda>p.
     let n = num_hardware_per_process s; stp = stride s; start = pk_start st;
         usage = mark_used (hw_usage st) (py_range3 start (start + n * stp) stp);
         ps = pk_placements st @ [p]
     in case next_unused usage of
          None \<Rightarrow> Inr (Inl (fill_world_size (pk_lws st) ps))
        | Some start' \<Rightarrow>
            rbind (node_rank_of rs start') (\<lambda>next_cnr.
            let next_node = (next_cnr \<noteq> pk_cnr st);
                st' = \<lparr>pk_rank = pk_rank st + 1, pk_start = start',
                       pk_node_rank = (if next_node then pk_node_rank st + 1 else pk_node_rank st),
                       pk_cnr = next_cnr,
                       pk_local_rank = (if next_node then 0 else pk_local_rank st + 1),
                       pk_lws = (if next_node then 1 else pk_lws st + 1),
                       hw_usage = usage,
                       pk_placements = (if next_node then fill_world_size (pk_lws st) ps else ps)\<rparr>
            in rbind (resolve_group rs start') (\<lambda>g.
               if next_cnr \<in> set (Node_Group.node_ranks g) then Inr (Inr st') else Inl AssertionError)))"

partial_function (option) packed_loop ::
  "packed_strategy \<Rightarrow> cluster \<Rightarrow> resolver \<Rightarrow> bool \<Rightarrow> packed_state \<Rightarrow> placement list comp" where
  "packed_loop s c rs isolate st =
     (case packed_step s c rs isolate st of
        Inl e \<Rightarrow> Some (Inl e)
      | Inr (Inl ps) \<Rightarrow> Some (Inr ps)
      | Inr (Inr st') \<Rightarrow> packed_loop s c rs isolate st')"

definition packed_start :: "packed_strategy \<Rightarrow> cluster \<Rightarrow> (resolver \<times> packed_state) res" where
  "packed_start s c =
     rbind (resolve_groups (pk_labels s) c) (\<lambda>gs.
     let rs = make_resolver gs in
     if \<not> (start_hw_rank s < total_hardware_count rs \<and> end_hw_rank s < total_hardware_count rs) then Inl AssertionError
     else if hardware_types rs = None then Inl AssertionError
     else rbind (resolve_node rs (start_hw_rank s)) (\<lambda>node.
       case node of None \<Rightarrow> Inl AssertionError
       | Some nd \<Rightarrow>
           Inr (rs, \<lparr>pk_rank = 0, pk_start = start_hw_rank s, pk_node_rank = 0, pk_cnr = node_rank nd,
                     pk_local_rank = 0, pk_lws = 1,
                     hw_usage = map (\<lambda>r. (r, False)) (py_range3 (start_hw_rank s) (end_hw_rank s + 1) 1),
                     pk_placements = []\<rparr>)))"

definition packed_get_placement :: "packed_strategy \<Rightarrow> cluster \<Rightarrow> bool \<Rightarrow> placement list comp" where
  "packed_get_placement s c isolate =
     cbind (Some (packed_start s c)) (\<lambda>(rs, st). packed_loop s c rs isolate st)"

section \<open>A process across two nodes\<close>

text \<open>
  Two nodes of three accelerators each, two accelerators per process: the second
  process starts at the last accelerator of the first node. The check before it
  compares its last local rank with \<open>\<le>\<close> against the number of accelerators.
\<close>

definition two_by_three :: cluster where
  "two_by_three =
     \<lparr>cluster_nodes = [gpu_node 0 3, gpu_node 1 3], node_groups = [gpu_group ''cluster'' [gpu_node 0 3, gpu_node 1 3]]\<rparr>"

declare packed_loop.simps [code]

definition crossing_placements :: "placement list" where
  "crossing_placements =
     [\<lparr>rank = 0, cluster_node_rank = 0, placement_node_rank = 0, accel_type = ''NV_GPU'', local_accelerator_rank = 0,
       local_rank = 0, local_world_size = 2, visible_accelerators = [''0'', ''1''], isolate_accelerator = True,
       local_hw_ranks = [0, 1], node_group_label = ''cluster''\<rparr>,
      \<lparr>rank = 1, cluster_node_rank = 0, placement_node_rank = 0, accel_type = ''NV_GPU'', local_accelerator_rank = 2,
       local_rank = 1, local_world_size = 2, visible_accelerators = [''2'', ''3''], isolate_accelerator = True,
       local_hw_ranks = [2, 3], node_group_label = ''cluster''\<rparr>,
      \<lparr>rank = 2, cluster_node_rank = 1, placement_node_rank = 1, accel_type = ''NV_GPU'', local_accelerator_rank = 1,
       local_rank = 0, local_world_size = 1, visible_accelerators = [''1'', ''2''], isolate_accelerator = True,
       local_hw_ranks = [1, 2], node_group_label = ''cluster''\<rparr>]"

text \<open>
  The check that a process stays on one node is off by one: on two nodes of
  three accelerators, packing two per process puts the second process on node 0
  with the local accelerators 2 and 3, where there is no accelerator 3.
\<close>

lemma packed_crosses_node:
  "\<exists>ps. packed_get_placement
      \<lparr>start_hw_rank = 0, end_hw_rank = 5, num_hardware_per_process = 2, stride = 1, pk_labels = None\<rparr> two_by_three True
      = Some (Inr ps)
    \<and> length ps = 3 \<and> cluster_node_rank (ps ! 1) = 0 \<and> local_hw_ranks (ps ! 1) = [2, 3]
    \<and> num_accelerators (cluster_nodes two_by_three ! 0) = 3"
proof -
  have "packed_get_placement
      \<lparr>start_hw_rank = 0, end_hw_rank = 5, num_hardware_per_process = 2, stride = 1, pk_labels = None\<rparr> two_by_three True
      = Some (Inr crossing_placements)"
    by code_simp
  moreover have "length crossing_placements = 3 \<and> cluster_node_rank (crossing_placements ! 1) = 0
      \<and> local_hw_ranks (crossing_placements ! 1) = [2, 3] \<and> num_accelerators (cluster_nodes two_by_three ! 0) = 3"
    by code_simp
  ultimately show ?thesis by blast
qed

section \<open>Which process takes which rank\<close>

definition block :: "packed_strategy \<Rightarrow> int" where
  "block s = num_hardware_per_process s * stride s"

definition first_rank :: "packed_strategy \<Rightarrow> nat \<Rightarrow> int" where
  "first_rank s m = start_hw_rank s + (int m div stride s) * block s + int m mod stride s"

definition process_ranks :: "packed_strategy \<Rightarrow> nat \<Rightarrow> int list" where
  "process_ranks s m = map (\<lambda>i. first_rank s m + int i * stride s) [0..<nat (num_hardware_per_process s)]"

definition proc_of :: "packed_strategy \<Rightarrow> int \<Rightarrow> int" where
  "proc_of s r = ((r - start_hw_rank s) div block s) * stride s + ((r - start_hw_rank s) mod block s) mod stride s"

definition packed_shape :: "packed_strategy \<Rightarrow> nat \<Rightarrow> bool" where
  "packed_shape s q = (0 < num_hardware_per_process s \<and> 0 < stride s \<and> 0 \<le> start_hw_rank s \<and> 0 < q
     \<and> end_hw_rank s - start_hw_rank s + 1 = int q * block s)"

lemma block_pos: "packed_shape s q \<Longrightarrow> 0 < block s"
  by (simp add: packed_shape_def block_def)

lemma offset_in_block:
  assumes "0 < n" "0 < st" "0 \<le> t" "t < st" "0 \<le> i" "i < n"
  shows "t + i * st < n * (st :: int)"
proof -
  have "t + i * st < st + i * st" using assms(4) by simp
  also have "\<dots> = (i + 1) * st" by (simp add: algebra_simps)
  also have "\<dots> \<le> n * st" using assms by (intro mult_right_mono) auto
  finally show ?thesis .
qed

lemma proc_of_rank:
  assumes "packed_shape s q" "0 \<le> i" "i < num_hardware_per_process s"
  shows "proc_of s (first_rank s m + i * stride s) = int m"
proof -
  let ?st = "stride s" and ?B = "block s" and ?n = "num_hardware_per_process s"
  have p: "0 < ?st" "0 < ?n" "0 < ?B" using assms(1) block_pos by (auto simp: packed_shape_def)
  have t: "0 \<le> int m mod ?st" "int m mod ?st < ?st" using p(1) by simp_all
  have off: "0 \<le> int m mod ?st + i * ?st" "int m mod ?st + i * ?st < ?B"
    using t p assms(2,3) offset_in_block [OF p(2,1) t assms(2,3)] by (simp_all add: block_def)
  have d: "first_rank s m + i * ?st - start_hw_rank s = (int m mod ?st + i * ?st) + (int m div ?st) * ?B"
    by (simp add: first_rank_def)
  have "(first_rank s m + i * ?st - start_hw_rank s) div ?B = int m div ?st"
    "(first_rank s m + i * ?st - start_hw_rank s) mod ?B = int m mod ?st + i * ?st"
    unfolding d using off p(3) by simp_all
  then show ?thesis by (simp add: proc_of_def)
qed

lemma rank_of_proc:
  assumes "packed_shape s q" "start_hw_rank s \<le> r" "proc_of s r = int m"
  shows "\<exists>i. 0 \<le> i \<and> i < num_hardware_per_process s \<and> r = first_rank s m + i * stride s"
proof -
  let ?st = "stride s" and ?B = "block s" and ?n = "num_hardware_per_process s" and ?d = "r - start_hw_rank s"
  have p: "0 < ?st" "0 < ?n" "0 < ?B" using assms(1) block_pos by (auto simp: packed_shape_def)
  have m: "int m = (?d mod ?B) mod ?st + (?d div ?B) * ?st" using assms(3) by (simp add: proc_of_def)
  have "int m div ?st = ?d div ?B" "int m mod ?st = (?d mod ?B) mod ?st"
    unfolding m using p(1) by simp_all
  then have "first_rank s m = start_hw_rank s + (?d div ?B) * ?B + (?d mod ?B) mod ?st" by (simp add: first_rank_def)
  moreover have "r = start_hw_rank s + (?d div ?B) * ?B + ?d mod ?B" by simp
  moreover have "?d mod ?B = (?d mod ?B) mod ?st + ((?d mod ?B) div ?st) * ?st" by simp
  ultimately have "r = first_rank s m + ((?d mod ?B) div ?st) * ?st" by linarith
  moreover have "0 \<le> (?d mod ?B) div ?st" using p by (simp add: pos_imp_zdiv_nonneg_iff)
  moreover have "(?d mod ?B) div ?st < ?n" using div_less_iff_int [OF p(1)] p(3) by (simp add: block_def)
  ultimately show ?thesis by blast
qed

lemma proc_of_bounds:
  assumes "packed_shape s q" "start_hw_rank s \<le> r" "r \<le> end_hw_rank s"
  shows "0 \<le> proc_of s r" "proc_of s r < int q * stride s"
proof -
  let ?st = "stride s" and ?B = "block s" and ?d = "r - start_hw_rank s"
  have p: "0 < ?st" "0 < ?B" using assms(1) block_pos by (auto simp: packed_shape_def)
  have "?d < int q * ?B" using assms by (simp add: packed_shape_def)
  then have "?d div ?B \<le> int q - 1" using div_less_iff_int [OF p(2), of ?d "int q"] by simp
  then have "(?d div ?B) * ?st \<le> (int q - 1) * ?st" using p(1) by (simp add: mult_right_mono)
  moreover have "(?d mod ?B) mod ?st < ?st" using p(1) by simp
  ultimately show "proc_of s r < int q * stride s" by (simp add: proc_of_def algebra_simps)
  show "0 \<le> proc_of s r" using p assms(2) by (simp add: proc_of_def pos_imp_zdiv_nonneg_iff)
qed

lemma proc_of_less:
  assumes "packed_shape s q" "start_hw_rank s \<le> r" "r < first_rank s m"
  shows "proc_of s r < int m"
proof -
  let ?st = "stride s" and ?B = "block s" and ?d = "r - start_hw_rank s"
  have p: "0 < ?st" "0 < ?B" "0 < num_hardware_per_process s" using assms(1) block_pos by (auto simp: packed_shape_def)
  have stB: "?st \<le> ?B" using p by (simp add: block_def)
  have d: "?d < (int m div ?st) * ?B + int m mod ?st" using assms(3) by (simp add: first_rank_def)
  have t: "0 \<le> int m mod ?st" "int m mod ?st < ?st" using p(1) by simp_all
  have m: "int m = (int m div ?st) * ?st + int m mod ?st" by simp
  have "?d < (int m div ?st + 1) * ?B" using d t stB by (simp add: algebra_simps)
  then have le: "?d div ?B \<le> int m div ?st" using div_less_iff_int [OF p(2), of ?d "int m div ?st + 1"] by linarith
  show ?thesis
  proof (cases "?d div ?B = int m div ?st")
    case True
    have "?d = (?d div ?B) * ?B + ?d mod ?B" by simp
    then have "?d mod ?B < int m mod ?st" using d True by simp
    moreover have "(?d mod ?B) mod ?st \<le> ?d mod ?B" using p by (simp add: zmod_le_nonneg_dividend)
    ultimately have "(?d mod ?B) mod ?st < int m mod ?st" by linarith
    moreover have "proc_of s r = (int m div ?st) * ?st + (?d mod ?B) mod ?st" by (simp add: proc_of_def True)
    ultimately show ?thesis using m by linarith
  next
    case False
    with le have "?d div ?B + 1 \<le> int m div ?st" by linarith
    then have "(?d div ?B + 1) * ?st \<le> (int m div ?st) * ?st" using p(1) by (simp add: mult_right_mono)
    moreover have "(?d mod ?B) mod ?st < ?st" using p(1) by simp
    ultimately have "proc_of s r < (int m div ?st) * ?st" by (simp add: proc_of_def algebra_simps)
    with m t show ?thesis by linarith
  qed
qed

lemma process_ranks_elem:
  assumes "r \<in> set (process_ranks s m)" "0 < num_hardware_per_process s"
  obtains i where "0 \<le> i" "i < num_hardware_per_process s" "r = first_rank s m + i * stride s"
proof -
  obtain k where k: "k < nat (num_hardware_per_process s)" "r = first_rank s m + int k * stride s"
    using assms(1) by (auto simp: process_ranks_def)
  show ?thesis by (rule that [of "int k"]) (use k in auto)
qed

lemma process_ranks_in_range:
  assumes "packed_shape s q" "int m < int q * stride s" "r \<in> set (process_ranks s m)"
  shows "start_hw_rank s \<le> r \<and> r \<le> end_hw_rank s"
proof -
  let ?st = "stride s" and ?B = "block s" and ?n = "num_hardware_per_process s"
  have p: "0 < ?st" "0 < ?n" "0 < ?B" using assms(1) block_pos by (auto simp: packed_shape_def)
  obtain i where i: "0 \<le> i" "i < ?n" "r = first_rank s m + i * ?st"
    using assms(3) p(2) by (rule process_ranks_elem)
  have t: "0 \<le> int m mod ?st" "int m mod ?st < ?st" using p(1) by simp_all
  have off: "int m mod ?st + i * ?st < ?B" using offset_in_block [OF p(2,1) t i(1,2)] by (simp add: block_def)
  have "int m div ?st \<le> int q - 1" using div_less_iff_int [OF p(1), of "int m" "int q"] assms(2) by simp
  then have "(int m div ?st) * ?B \<le> (int q - 1) * ?B" using p(3) by (simp add: mult_right_mono)
  then have "r < start_hw_rank s + int q * ?B" using off i(3) by (simp add: first_rank_def algebra_simps)
  moreover have "0 \<le> (int m div ?st) * ?B" using p by (simp add: pos_imp_zdiv_nonneg_iff)
  then have "start_hw_rank s \<le> r" using t(1) i p(1) by (simp add: first_rank_def)
  ultimately show ?thesis using assms(1) by (simp add: packed_shape_def)
qed

lemma mem_process_ranks:
  assumes "packed_shape s q" "start_hw_rank s \<le> r"
  shows "r \<in> set (process_ranks s m) \<longleftrightarrow> proc_of s r = int m"
proof
  assume "r \<in> set (process_ranks s m)"
  then obtain i where "0 \<le> i" "i < num_hardware_per_process s" "r = first_rank s m + i * stride s"
    using assms(1) by (auto simp: packed_shape_def elim: process_ranks_elem)
  then show "proc_of s r = int m" using proc_of_rank [OF assms(1)] by simp
next
  assume "proc_of s r = int m"
  then obtain i where "0 \<le> i" "i < num_hardware_per_process s" "r = first_rank s m + i * stride s"
    using rank_of_proc [OF assms] by blast
  then show "r \<in> set (process_ranks s m)"
    by (auto simp: process_ranks_def intro!: image_eqI [of _ _ "nat i"])
qed

lemma process_ranks_range3:
  "packed_shape s q \<Longrightarrow> py_range3 (first_rank s m) (first_rank s m + num_hardware_per_process s * stride s) (stride s) = process_ranks s m"
  by (simp add: packed_shape_def process_ranks_def py_range3_mult)

section \<open>The usage map\<close>

definition usage_inv :: "packed_strategy \<Rightarrow> nat \<Rightarrow> (int \<times> bool) list \<Rightarrow> bool" where
  "usage_inv s m usage = (set (map fst usage) = {start_hw_rank s..end_hw_rank s}
     \<and> (\<forall>r. start_hw_rank s \<le> r \<and> r \<le> end_hw_rank s \<longrightarrow> map_of usage r = Some (proc_of s r < int m)))"

lemma mark_used_keys: "set (map fst (mark_used usage rs)) = set (map fst usage) \<union> set rs"
proof (induction rs arbitrary: usage)
  case (Cons r rs)
  then show ?case by (simp add: mark_used_def dom_update)
qed (simp add: mark_used_def)

lemma mark_used_map: "map_of (mark_used usage rs) r = (if r \<in> set rs then Some True else map_of usage r)"
proof (induction rs arbitrary: usage)
  case (Cons x rs)
  then show ?case by (simp add: mark_used_def update_conv')
qed (simp add: mark_used_def)

lemma usage_inv_step:
  assumes "packed_shape s q" "int m < int q * stride s" "usage_inv s m usage"
  shows "usage_inv s (Suc m) (mark_used usage (process_ranks s m))"
proof -
  have "set (process_ranks s m) \<subseteq> {start_hw_rank s..end_hw_rank s}"
    using process_ranks_in_range [OF assms(1,2)] by auto
  then have keys: "set (map fst (mark_used usage (process_ranks s m))) = {start_hw_rank s..end_hw_rank s}"
    using assms(3) unfolding mark_used_keys usage_inv_def by blast
  have "map_of (mark_used usage (process_ranks s m)) r = Some (proc_of s r < int (Suc m))"
    if "start_hw_rank s \<le> r" "r \<le> end_hw_rank s" for r
    using that assms(3) mem_process_ranks [OF assms(1) that(1), of m]
    by (auto simp: mark_used_map usage_inv_def)
  with keys show ?thesis by (simp add: usage_inv_def)
qed

lemma find_sorted:
  assumes "sorted xs" "x \<in> set xs" "P x" "\<And>y. y \<in> set xs \<Longrightarrow> y < x \<Longrightarrow> \<not> P y"
  shows "find P xs = Some (x :: int)"
  using assms
proof (induction xs)
  case (Cons y xs)
  show ?case
  proof (cases "y = x")
    case False
    then have "y < x" using Cons.prems(1,2) by (auto simp: less_le)
    then have "\<not> P y" using Cons.prems(4) by simp
    then show ?thesis using Cons False by auto
  qed (use Cons.prems in simp)
qed simp

lemma next_unused_spec:
  assumes "packed_shape s q" "usage_inv s m usage" "int m \<le> int q * stride s"
  shows "next_unused usage = (if int m < int q * stride s then Some (first_rank s m) else None)"
proof -
  have keys: "set (map fst usage) = {start_hw_rank s..end_hw_rank s}"
    and val: "\<And>r. start_hw_rank s \<le> r \<Longrightarrow> r \<le> end_hw_rank s \<Longrightarrow> map_of usage r = Some (proc_of s r < int m)"
    using assms(2) by (auto simp: usage_inv_def)
  have n: "0 < num_hardware_per_process s" using assms(1) by (simp add: packed_shape_def)
  show ?thesis
  proof (cases "int m < int q * stride s")
    case True
    have "first_rank s m + int 0 * stride s \<in> set (process_ranks s m)"
      unfolding process_ranks_def set_map by (rule imageI) (use n in auto)
    then have f: "first_rank s m \<in> set (process_ranks s m)" by simp
    then have rng: "start_hw_rank s \<le> first_rank s m" "first_rank s m \<le> end_hw_rank s"
      using process_ranks_in_range [OF assms(1) True] by auto
    have pm: "proc_of s (first_rank s m) = int m" using mem_process_ranks [OF assms(1) rng(1)] f by blast
    have "find (\<lambda>r. map_of usage r = Some False) (sort (map fst usage)) = Some (first_rank s m)"
    proof (rule find_sorted)
      show "first_rank s m \<in> set (sort (map fst usage))" unfolding set_sort keys using rng by simp
      show "map_of usage (first_rank s m) = Some False" using val [OF rng] pm by simp
      fix y assume "y \<in> set (sort (map fst usage))" and less: "y < first_rank s m"
      then have y: "start_hw_rank s \<le> y" "y \<le> end_hw_rank s" unfolding set_sort keys by auto
      then show "map_of usage y \<noteq> Some False" using val [OF y] proc_of_less [OF assms(1) y(1) less] by simp
    qed simp
    then show ?thesis using True by (simp add: next_unused_def)
  next
    case False
    then have m: "int m = int q * stride s" using assms(3) by simp
    have "find (\<lambda>r. map_of usage r = Some False) (sort (map fst usage)) = None"
      unfolding find_None_iff
    proof
      assume "\<exists>r. r \<in> set (sort (map fst usage)) \<and> map_of usage r = Some False"
      then obtain r where "r \<in> set (map fst usage)" and u: "map_of usage r = Some False" by auto
      then have r: "start_hw_rank s \<le> r" "r \<le> end_hw_rank s" unfolding keys by auto
      then show False using val [OF r] u proc_of_bounds(2) [OF assms(1) r] m by simp
    qed
    then show ?thesis using False by (simp add: next_unused_def)
  qed
qed

lemma fill_world_size_fields:
  "map cluster_node_rank (fill_world_size n ps) = map cluster_node_rank ps"
  "map local_hw_ranks (fill_world_size n ps) = map local_hw_ranks ps"
  "map rank (fill_world_size n ps) = map rank ps"
  "length (fill_world_size n ps) = length ps"
proof -
  have "map f (fill_world_size n ps) = map f ps" if "\<And>p. f (p\<lparr>local_world_size := n\<rparr>) = f p" for f :: "placement \<Rightarrow> 'b"
  proof -
    let ?z = "\<lambda>p. local_world_size p = 0"
    have "map f (map (\<lambda>p. p\<lparr>local_world_size := n\<rparr>) xs) = map f xs" for xs by (simp add: that)
    then have "map f (fill_world_size n ps) = rev (map f (takeWhile ?z (rev ps)) @ map f (dropWhile ?z (rev ps)))"
      by (simp only: fill_world_size_def rev_map [symmetric] map_append)
    also have "\<dots> = rev (map f (rev ps))" by (simp only: map_append [symmetric] takeWhile_dropWhile_id)
    finally show ?thesis by (simp add: rev_map)
  qed
  note m = this
  show "map cluster_node_rank (fill_world_size n ps) = map cluster_node_rank ps"
    "map local_hw_ranks (fill_world_size n ps) = map local_hw_ranks ps"
    "map rank (fill_world_size n ps) = map rank ps" by (rule m; simp)+
  then show "length (fill_world_size n ps) = length ps" by (metis length_map)
qed

section \<open>Aligned processes\<close>

definition slot :: "node_group list \<Rightarrow> int \<Rightarrow> nat \<times> node_info \<times> int" where
  "slot gs r = hardware_slots gs ! nat r"

definition slot_node :: "node_group list \<Rightarrow> int \<Rightarrow> int" where
  "slot_node gs r = node_rank (fst (snd (slot gs r)))"

definition slot_local :: "node_group list \<Rightarrow> int \<Rightarrow> int" where
  "slot_local gs r = snd (snd (slot gs r))"

text \<open>
  Every block of \<open>n * stride\<close> ranks lies on one node of one group, the groups have
  hardware, and the cluster knows their nodes.
\<close>

definition packed_aligned :: "packed_strategy \<Rightarrow> cluster \<Rightarrow> node_group list \<Rightarrow> nat \<Rightarrow> bool" where
  "packed_aligned s c gs q =
     (packed_shape s q \<and> (\<forall>g\<in>set gs. hardware_type g \<noteq> None)
      \<and> end_hw_rank s < total_hardware_count (make_resolver gs)
      \<and> (\<forall>g\<in>set gs. \<forall>nd\<in>set (nodes g). get_node_info c (node_rank nd) = Inr nd \<and> (\<exists>t. accelerator_type nd = Inr t))
      \<and> (\<forall>b<q. \<exists>idx nd l. \<forall>j. 0 \<le> j \<and> j < block s \<longrightarrow>
           slot gs (start_hw_rank s + int b * block s + j) = (idx, nd, l + j)))"

lemma hardware_slots_elem:
  assumes "(idx, nd, l) \<in> set (hardware_slots gs)"
  shows "idx < length gs \<and> nd \<in> set (nodes (gs ! idx)) \<and> 0 \<le> l \<and> l < get_hw_resource_count nd (hardware_type (gs ! idx))"
  using assms by (auto simp: hardware_slots_def node_slots_def in_set_enumerate_eq)

lemma slot_facts:
  assumes "packed_aligned s c gs q" "0 \<le> r" "r < total_hardware_count (make_resolver gs)" "slot gs r = (idx, nd, l)"
  shows "resolve_group (make_resolver gs) r = Inr (gs ! idx)"
    "resolve_hardware_type (make_resolver gs) r = Inr (hardware_type (gs ! idx))"
    "resolve_local_rank (make_resolver gs) r = Inr (Some l)"
    "node_rank_of (make_resolver gs) r = Inr (node_rank nd)"
    "node_rank nd \<in> set (Node_Group.node_ranks (gs ! idx))"
    "hardware_type (gs ! idx) \<noteq> None" "l < get_hw_resource_count nd (hardware_type (gs ! idx))"
    "get_node_info c (node_rank nd) = Inr nd" "\<exists>t. accelerator_type nd = Inr t"
proof -
  have typed: "\<forall>g\<in>set gs. hardware_type g \<noteq> None" using assms(1) by (simp add: packed_aligned_def)
  from slot_at [OF typed assms(2,3)] obtain l' where
    f: "resolve_node (make_resolver gs) r = Inr (Some nd)" "resolve_local_rank (make_resolver gs) r = Inr (Some l)"
       "nat r < length (hardware_slots gs)" "lookup_rank (make_resolver gs) r = Inr (idx, l')"
    using assms(4) by (auto simp: slot_def)
  have "(idx, nd, l) \<in> set (hardware_slots gs)" using assms(4) f(3) by (metis nth_mem slot_def)
  note el = hardware_slots_elem [OF this]
  have gs: "res_groups (make_resolver gs) = gs" by (simp add: make_resolver_def)
  show "resolve_group (make_resolver gs) r = Inr (gs ! idx)"
    "resolve_hardware_type (make_resolver gs) r = Inr (hardware_type (gs ! idx))"
    "resolve_local_rank (make_resolver gs) r = Inr (Some l)"
    "node_rank_of (make_resolver gs) r = Inr (node_rank nd)"
    using f by (simp_all add: resolve_group_def resolve_hardware_type_def node_rank_of_def gs)
  show "node_rank nd \<in> set (Node_Group.node_ranks (gs ! idx))" using el by (simp add: Node_Group.node_ranks_def)
  have g: "gs ! idx \<in> set gs" using el by simp
  show "hardware_type (gs ! idx) \<noteq> None" using typed g by blast
  show "l < get_hw_resource_count nd (hardware_type (gs ! idx))" using el by blast
  show "get_node_info c (node_rank nd) = Inr nd" "\<exists>t. accelerator_type nd = Inr t"
    using assms(1) g el by (auto simp: packed_aligned_def)
qed

lemma process_slots:
  assumes "packed_aligned s c gs q" "int m < int q * stride s"
  obtains idx nd lo where
    "\<And>i. 0 \<le> i \<Longrightarrow> i < num_hardware_per_process s \<Longrightarrow> slot gs (first_rank s m + i * stride s) = (idx, nd, lo + i * stride s)"
proof -
  let ?st = "stride s" and ?n = "num_hardware_per_process s" and ?b = "nat (int m div stride s)"
  have sh: "packed_shape s q" using assms(1) by (simp add: packed_aligned_def)
  then have p: "0 < ?st" "0 < ?n" by (auto simp: packed_shape_def)
  have t: "0 \<le> int m mod ?st" "int m mod ?st < ?st" using p(1) by simp_all
  have b: "int ?b = int m div ?st" using p(1) by (simp add: pos_imp_zdiv_nonneg_iff)
  have "int m div ?st < int q" using div_less_iff_int [OF p(1), of "int m" "int q"] assms(2) by simp
  then have "?b < q" using b by linarith
  then obtain idx nd l where bl: "\<forall>j. 0 \<le> j \<and> j < block s \<longrightarrow>
      slot gs (start_hw_rank s + int ?b * block s + j) = (idx, nd, l + j)"
    using assms(1) unfolding packed_aligned_def by meson
  show ?thesis
  proof (rule that [of idx nd "l + int m mod ?st"])
    fix i assume i: "0 \<le> i" "i < ?n"
    let ?j = "int m mod ?st + i * ?st"
    have "0 \<le> ?j" "?j < block s" using t i p offset_in_block [OF p(2,1) t i] by (simp_all add: block_def)
    with bl have "slot gs (start_hw_rank s + int ?b * block s + ?j) = (idx, nd, l + ?j)" by blast
    moreover have "start_hw_rank s + int ?b * block s + ?j = first_rank s m + i * ?st" unfolding b first_rank_def by simp
    ultimately have "slot gs (first_rank s m + i * ?st) = (idx, nd, l + ?j)" by (simp only:)
    then show "slot gs (first_rank s m + i * ?st) = (idx, nd, l + int m mod ?st + i * ?st)" by (simp only: add.assoc)
  qed
qed

lemma process_rank_total:
  assumes "packed_aligned s c gs q" "int m < int q * stride s" "r \<in> set (process_ranks s m)"
  shows "0 \<le> r \<and> r < total_hardware_count (make_resolver gs)"
proof -
  have sh: "packed_shape s q" using assms(1) by (simp add: packed_aligned_def)
  from process_ranks_in_range [OF sh assms(2,3)] assms(1) sh show ?thesis
    by (auto simp: packed_aligned_def packed_shape_def)
qed

lemma first_rank_mem: "packed_shape s q \<Longrightarrow> first_rank s m \<in> set (process_ranks s m)"
  by (auto simp: packed_shape_def process_ranks_def intro!: image_eqI [of _ _ 0])

lemma packed_process_ok:
  assumes al: "packed_aligned s c gs q" and m: "int m < int q * stride s"
    and st: "pk_start st = first_rank s m" "pk_cnr st = slot_node gs (first_rank s m)"
  shows "\<exists>p. packed_process s c (make_resolver gs) isolate st = Inr p \<and> rank p = pk_rank st
    \<and> cluster_node_rank p = slot_node gs (first_rank s m) \<and> local_hw_ranks p = map (slot_local gs) (process_ranks s m)"
proof -
  let ?rs = "make_resolver gs" and ?n = "num_hardware_per_process s" and ?st = "stride s" and ?f = "first_rank s m"
  have sh: "packed_shape s q" using al by (simp add: packed_aligned_def)
  then have p: "0 < ?st" "0 < ?n" by (auto simp: packed_shape_def)
  obtain idx nd lo where sl: "\<And>i. 0 \<le> i \<Longrightarrow> i < ?n \<Longrightarrow> slot gs (?f + i * ?st) = (idx, nd, lo + i * ?st)"
    using process_slots [OF al m] by blast
  have f0: "slot gs ?f = (idx, nd, lo)" using sl [of 0] p by simp
  have rng: "0 \<le> r \<and> r < total_hardware_count ?rs" if "r \<in> set (process_ranks s m)" for r
    using process_rank_total [OF al m that] .
  have el: "?f + i * ?st \<in> set (process_ranks s m)" if "0 \<le> i" "i < ?n" for i
    using that by (auto simp: process_ranks_def intro!: image_eqI [of _ _ "nat i"])
  note F = slot_facts [OF al _ _ f0]
  have ff: "0 \<le> ?f" "?f < total_hardware_count ?rs" using rng [OF first_rank_mem [OF sh]] by auto
  note F = F [OF ff]
  have types: "rmap (\<lambda>r. rbind (resolve_hardware_type ?rs r) (\<lambda>t. if t = hardware_type (gs ! idx) then Inr () else Inl AssertionError))
      (process_ranks s m) = Inr (map (\<lambda>_. ()) (process_ranks s m))"
  proof (rule rmap_all_Inr)
    fix r assume r: "r \<in> set (process_ranks s m)"
    then obtain i where i: "0 \<le> i" "i < ?n" "r = ?f + i * ?st" using p(2) by (rule process_ranks_elem)
    then have "slot gs r = (idx, nd, lo + i * ?st)" using sl by simp
    from slot_facts(2) [OF al _ _ this] rng [OF r]
    show "rbind (resolve_hardware_type ?rs r) (\<lambda>t. if t = hardware_type (gs ! idx) then Inr () else Inl AssertionError) = Inr ()"
      by simp
  qed
  have last: "lo + (?n - 1) * ?st < get_hw_resource_count nd (hardware_type (gs ! idx))"
  proof -
    have i: "0 \<le> ?n - 1" "?n - 1 < ?n" using p by auto
    show ?thesis using slot_facts(7) [OF al _ _ sl [OF i]] rng [OF el [OF i]] by blast
  qed
  have locals: "py_range3 lo (lo + ?n * ?st) ?st = map (slot_local gs) (process_ranks s m)"
  proof -
    have "py_range3 lo (lo + ?n * ?st) ?st = map (\<lambda>i. lo + int i * ?st) [0..<nat ?n]" using p by (simp add: py_range3_mult)
    also have "\<dots> = map (slot_local gs) (process_ranks s m)"
      by (simp add: process_ranks_def slot_local_def sl)
    finally show ?thesis .
  qed
  obtain t where t: "accelerator_type nd = Inr t" using F(9) by blast
  have cnr: "slot_node gs ?f = node_rank nd" by (simp add: slot_node_def f0)
  show ?thesis
    unfolding packed_process_def Let_def st
    using F(1,2,3,6,8) types last t by (simp add: process_ranks_range3 [OF sh] locals cnr)
qed

section \<open>The loop\<close>

definition packed_output :: "packed_strategy \<Rightarrow> node_group list \<Rightarrow> nat \<Rightarrow> placement list \<Rightarrow> bool" where
  "packed_output s gs m ps =
     (map rank ps = map int [0..<m]
      \<and> map cluster_node_rank ps = map (\<lambda>i. slot_node gs (first_rank s i)) [0..<m]
      \<and> map local_hw_ranks ps = map (\<lambda>i. map (slot_local gs) (process_ranks s i)) [0..<m])"

definition packed_inv :: "packed_strategy \<Rightarrow> node_group list \<Rightarrow> nat \<Rightarrow> packed_state \<Rightarrow> bool" where
  "packed_inv s gs m st =
     (pk_rank st = int m \<and> pk_start st = first_rank s m \<and> pk_cnr st = slot_node gs (first_rank s m)
      \<and> usage_inv s m (hw_usage st) \<and> packed_output s gs m (pk_placements st))"

lemma packed_output_fill [simp]: "packed_output s gs m (fill_world_size n ps) = packed_output s gs m ps"
  by (simp add: packed_output_def fill_world_size_fields)

lemma packed_step_ok:
  assumes al: "packed_aligned s c gs q" and m: "int m < int q * stride s" and inv: "packed_inv s gs m st"
  shows "if int (Suc m) < int q * stride s
    then \<exists>st'. packed_step s c (make_resolver gs) isolate st = Inr (Inr st') \<and> packed_inv s gs (Suc m) st'
    else \<exists>ps. packed_step s c (make_resolver gs) isolate st = Inr (Inl ps) \<and> packed_output s gs (Suc m) ps"
proof -
  let ?rs = "make_resolver gs" and ?u = "mark_used (hw_usage st) (process_ranks s m)"
  have sh: "packed_shape s q" using al by (simp add: packed_aligned_def)
  have st: "pk_rank st = int m" "pk_start st = first_rank s m" "pk_cnr st = slot_node gs (first_rank s m)"
    and us: "usage_inv s m (hw_usage st)" and out: "packed_output s gs m (pk_placements st)"
    using inv by (simp_all add: packed_inv_def)
  obtain p where p: "packed_process s c ?rs isolate st = Inr p" "rank p = pk_rank st"
      "cluster_node_rank p = slot_node gs (first_rank s m)" "local_hw_ranks p = map (slot_local gs) (process_ranks s m)"
    using packed_process_ok [OF al m st(2,3)] by blast
  have out': "packed_output s gs (Suc m) (pk_placements st @ [p])"
    using out p(2-4) st(1) by (simp add: packed_output_def)
  have us': "usage_inv s (Suc m) ?u" by (rule usage_inv_step [OF sh m us])
  have next_u: "next_unused ?u = (if int (Suc m) < int q * stride s then Some (first_rank s (Suc m)) else None)"
    by (rule next_unused_spec [OF sh us']) (use m in simp)
  have step: "packed_step s c ?rs isolate st =
     (case next_unused ?u of
          None \<Rightarrow> Inr (Inl (fill_world_size (pk_lws st) (pk_placements st @ [p])))
        | Some start' \<Rightarrow>
            rbind (node_rank_of ?rs start') (\<lambda>next_cnr.
            let next_node = (next_cnr \<noteq> pk_cnr st);
                st' = \<lparr>pk_rank = pk_rank st + 1, pk_start = start',
                       pk_node_rank = (if next_node then pk_node_rank st + 1 else pk_node_rank st),
                       pk_cnr = next_cnr,
                       pk_local_rank = (if next_node then 0 else pk_local_rank st + 1),
                       pk_lws = (if next_node then 1 else pk_lws st + 1),
                       hw_usage = ?u,
                       pk_placements = (if next_node then fill_world_size (pk_lws st) (pk_placements st @ [p])
                                        else pk_placements st @ [p])\<rparr>
            in rbind (resolve_group ?rs start') (\<lambda>g.
               if next_cnr \<in> set (Node_Group.node_ranks g) then Inr (Inr st') else Inl AssertionError)))"
    unfolding packed_step_def p(1) rbind_simps Let_def st(2) process_ranks_range3 [OF sh] ..
  show ?thesis
  proof (cases "int (Suc m) < int q * stride s")
    case True
    let ?f = "first_rank s (Suc m)"
    obtain idx nd l where sl: "slot gs ?f = (idx, nd, l)" by (metis prod_cases3)
    have "0 \<le> ?f" "?f < total_hardware_count ?rs"
      using process_rank_total [OF al True first_rank_mem [OF sh]] by auto
    note F = slot_facts [OF al this sl]
    have "slot_node gs ?f = node_rank nd" by (simp add: slot_node_def sl)
    then have "\<exists>st'. packed_step s c ?rs isolate st = Inr (Inr st') \<and> packed_inv s gs (Suc m) st'"
      unfolding step next_u using True F(1,4,5) us' out' st(1)
      by (simp add: Let_def packed_inv_def)
    then show ?thesis using True by (simp only: if_True)
  next
    case False
    then show ?thesis unfolding step next_u using out' by simp
  qed
qed

lemma packed_loop_ok:
  assumes "packed_aligned s c gs q" "int m < int q * stride s" "packed_inv s gs m st"
  shows "\<exists>ps. packed_loop s c (make_resolver gs) isolate st = Some (Inr ps)
    \<and> packed_output s gs (nat (int q * stride s)) ps"
  using assms
proof (induction "nat (int q * stride s) - m" arbitrary: m st)
  case 0
  then show ?case by linarith
next
  case (Suc k)
  note step = packed_step_ok [OF Suc.prems, of isolate]
  show ?case
  proof (cases "int (Suc m) < int q * stride s")
    case True
    with step obtain st' where st': "packed_step s c (make_resolver gs) isolate st = Inr (Inr st')" "packed_inv s gs (Suc m) st'"
      by (simp only: if_True) blast
    have "k = nat (int q * stride s) - Suc m" using Suc.hyps(2) by linarith
    from Suc.hyps(1) [OF this Suc.prems(1) True st'(2)] show ?thesis
      by (subst packed_loop.simps) (simp add: st'(1))
  next
    case False
    then have "Suc m = nat (int q * stride s)" using Suc.prems(2) by linarith
    moreover from False step obtain ps where "packed_step s c (make_resolver gs) isolate st = Inr (Inl ps)" "packed_output s gs (Suc m) ps"
      by (simp only: if_False) blast
    ultimately show ?thesis by (subst packed_loop.simps) simp
  qed
qed

lemma process_ranks_cover:
  assumes sh: "packed_shape s q"
  shows "mset (concat (map (process_ranks s) [0..<nat (int q * stride s)])) = mset [start_hw_rank s..end_hw_rank s]"
proof (rule set_eq_iff_mset_eq_distinct [THEN iffD1])
  let ?Q = "nat (int q * stride s)"
  have p: "0 < stride s" using sh by (simp add: packed_shape_def)
  have in_range: "start_hw_rank s \<le> r \<and> r \<le> end_hw_rank s" if "r \<in> set (process_ranks s m)" "m < ?Q" for r m
    using process_ranks_in_range [OF sh _ that(1)] that(2) by linarith
  have d: "distinct (process_ranks s m)" for m
    using p by (simp add: process_ranks_def distinct_map inj_on_def)
  have disj: "set (process_ranks s m) \<inter> set (process_ranks s m') = {}" if "m < ?Q" "m \<noteq> m'" for m m'
    using mem_process_ranks [OF sh] in_range that by fastforce
  have dk: "distinct (concat (map (process_ranks s) [0..<k]))" if "k \<le> ?Q" for k
    using that
  proof (induction k)
    case (Suc k)
    have "set (concat (map (process_ranks s) [0..<k])) \<inter> set (process_ranks s k) = {}"
      using disj [of k] Suc.prems by fastforce
    then show ?case using Suc d by simp
  qed simp
  show "distinct (concat (map (process_ranks s) [0..<?Q]))" using dk [of ?Q] by simp
  show "distinct [start_hw_rank s..end_hw_rank s]" by simp
  have "\<exists>m<?Q. r \<in> set (process_ranks s m)" if "start_hw_rank s \<le> r" "r \<le> end_hw_rank s" for r
  proof -
    have b: "0 \<le> proc_of s r" "proc_of s r < int q * stride s" using proc_of_bounds [OF sh that] by auto
    then have "r \<in> set (process_ranks s (nat (proc_of s r)))" using mem_process_ranks [OF sh that(1)] by simp
    then show ?thesis using b by (intro exI [of _ "nat (proc_of s r)"]) auto
  qed
  then show "set (concat (map (process_ranks s) [0..<?Q])) = set [start_hw_rank s..end_hw_rank s]"
    using in_range by (force simp: Bex_def)
qed

lemma fresh_usage:
  assumes sh: "packed_shape s q" and p: "start_hw_rank s \<le> end_hw_rank s"
  shows "usage_inv s 0 (map (\<lambda>r. (r, False)) (py_range3 (start_hw_rank s) (end_hw_rank s + 1) 1))" (is "usage_inv s 0 ?u")
proof -
  have keys: "set (py_range3 (start_hw_rank s) (end_hw_rank s + 1) 1) = {start_hw_rank s..end_hw_rank s}"
    using set_py_range3_unit [of "end_hw_rank s + 1 - start_hw_rank s" "start_hw_rank s"] p
    by (simp add: atLeastLessThanPlusOne_atLeastAtMost_int)
  have "map_of ?u r = Some (proc_of s r < int 0)" if "start_hw_rank s \<le> r" "r \<le> end_hw_rank s" for r
  proof -
    have all_False: "map_of (map (\<lambda>r. (r, False)) xs) r = Some False" if "r \<in> set xs" for xs :: "int list"
      using that by (induction xs) auto
    have "map_of ?u r = Some False" by (rule all_False) (unfold keys, use that in simp)
    then show ?thesis using proc_of_bounds(1) [OF sh that] by simp
  qed
  then show ?thesis using keys by (simp add: usage_inv_def image_image)
qed

text \<open>
  C30. When no process has to cross a node, the packed strategy terminates with
  \<open>(end - start + 1) / n\<close> processes: process \<open>m\<close> runs on the node of its first rank and
  gets the local ranks of \<open>n\<close> ranks that are \<open>stride\<close> apart, and these ranks of all
  processes are exactly the ranks from start to end, each once.
\<close>

theorem packed_placement_correct:
  assumes "resolve_groups (pk_labels s) c = Inr gs" "packed_aligned s c gs q"
  shows "\<exists>ps. packed_get_placement s c isolate = Some (Inr ps)
    \<and> map rank ps = map int [0..<nat (int q * stride s)]
    \<and> map cluster_node_rank ps = map (\<lambda>m. slot_node gs (first_rank s m)) [0..<nat (int q * stride s)]
    \<and> map local_hw_ranks ps = map (\<lambda>m. map (slot_local gs) (process_ranks s m)) [0..<nat (int q * stride s)]
    \<and> mset (concat (map (process_ranks s) [0..<nat (int q * stride s)])) = mset [start_hw_rank s..end_hw_rank s]"
proof -
  let ?rs = "make_resolver gs" and ?Q = "nat (int q * stride s)"
  have sh: "packed_shape s q" using assms(2) by (simp add: packed_aligned_def)
  then have "0 < int q" "0 < stride s" and e: "end_hw_rank s - start_hw_rank s + 1 = int q * block s"
    by (auto simp: packed_shape_def)
  then have p: "0 < int q * stride s" "start_hw_rank s \<le> end_hw_rank s"
    using mult_pos_pos [OF \<open>0 < int q\<close> block_pos [OF sh]] by auto
  have f0: "first_rank s 0 = start_hw_rank s" by (simp add: first_rank_def)
  have m0: "int 0 < int q * stride s" using p by simp
  have rng: "0 \<le> start_hw_rank s" "start_hw_rank s < total_hardware_count ?rs" "end_hw_rank s < total_hardware_count ?rs"
    using process_rank_total [OF assms(2) m0 first_rank_mem [OF sh]] assms(2) by (auto simp: f0 packed_aligned_def)
  obtain idx nd l where sl: "slot gs (start_hw_rank s) = (idx, nd, l)" by (metis prod_cases3)
  have rn: "resolve_node ?rs (start_hw_rank s) = Inr (Some nd)"
    using slot_at [of gs "start_hw_rank s"] rng sl assms(2) by (auto simp: slot_def packed_aligned_def)
  have ht: "hardware_types ?rs \<noteq> None"
    using assms(2) by (force simp: hardware_types_def make_resolver_def packed_aligned_def)
  let ?u = "map (\<lambda>r. (r, False)) (py_range3 (start_hw_rank s) (end_hw_rank s + 1) 1)"
  let ?st = "\<lparr>pk_rank = 0, pk_start = start_hw_rank s, pk_node_rank = 0, pk_cnr = node_rank nd, pk_local_rank = 0, pk_lws = 1,
    hw_usage = ?u, pk_placements = []\<rparr>"
  have "packed_inv s gs 0 ?st"
    using fresh_usage [OF sh p(2)] by (simp add: packed_inv_def f0 slot_node_def sl packed_output_def)
  from packed_loop_ok [OF assms(2) m0 this] obtain ps where
    ps: "packed_loop s c ?rs isolate ?st = Some (Inr ps)" "packed_output s gs ?Q ps" by blast
  have "packed_start s c = Inr (?rs, ?st)"
    using assms(1) rng rn ht by (simp add: packed_start_def Let_def)
  then have "packed_get_placement s c isolate = Some (Inr ps)" using ps(1) by (simp add: packed_get_placement_def)
  then show ?thesis using ps(2) process_ranks_cover [OF sh] by (auto simp: packed_output_def)
qed

text \<open>Two nodes of four accelerators, two per process with stride two.\<close>

definition four_cluster :: cluster where
  "four_cluster =
     \<lparr>cluster_nodes = [gpu_node 0 4, gpu_node 1 4], node_groups = [gpu_group ''cluster'' [gpu_node 0 4, gpu_node 1 4]]\<rparr>"

definition four_strategy :: packed_strategy where
  "four_strategy = \<lparr>start_hw_rank = 0, end_hw_rank = 7, num_hardware_per_process = 2, stride = 2, pk_labels = None\<rparr>"

lemma four_aligned: "packed_aligned four_strategy four_cluster [gpu_group ''cluster'' [gpu_node 0 4, gpu_node 1 4]] 2"
proof -
  let ?gs = "[gpu_group ''cluster'' [gpu_node 0 4, gpu_node 1 4]]"
  have slots: "hardware_slots ?gs = [(0, gpu_node 0 4, 0), (0, gpu_node 0 4, 1), (0, gpu_node 0 4, 2), (0, gpu_node 0 4, 3),
      (0, gpu_node 1 4, 0), (0, gpu_node 1 4, 1), (0, gpu_node 1 4, 2), (0, gpu_node 1 4, 3)]" by code_simp
  have total: "total_hardware_count (make_resolver ?gs) = 8" by code_simp
  have info: "get_node_info four_cluster 0 = Inr (gpu_node 0 4)" "get_node_info four_cluster 1 = Inr (gpu_node 1 4)"
    "accelerator_type (gpu_node 0 4) = Inr ''NV_GPU''" "accelerator_type (gpu_node 1 4) = Inr ''NV_GPU''"
    by code_simp+
  have blk: "block four_strategy = 4" by (simp add: block_def four_strategy_def)
  have "slot ?gs (int b * 4 + j) = (0, gpu_node (int b) 4, 0 + j)" if "b < 2" "0 \<le> j" "j < 4" for b :: nat and j :: int
  proof -
    from that have "b \<in> {0, 1}" "j \<in> {0, 1, 2, 3}" by auto
    then show ?thesis by (auto simp: slot_def slots)
  qed
  then have "\<forall>b<2. \<exists>idx nd l. \<forall>j. 0 \<le> j \<and> j < block four_strategy \<longrightarrow>
      slot ?gs (start_hw_rank four_strategy + int b * block four_strategy + j) = (idx, nd, l + j)"
    unfolding blk by (simp add: four_strategy_def)
  moreover have "packed_shape four_strategy 2" by (simp add: packed_shape_def block_def four_strategy_def)
  moreover have "\<forall>g\<in>set ?gs. hardware_type g \<noteq> None" by (simp add: gpu_group_def)
  moreover have "\<forall>g\<in>set ?gs. \<forall>nd\<in>set (nodes g). get_node_info four_cluster (node_rank nd) = Inr nd \<and> (\<exists>t. accelerator_type nd = Inr t)"
    using info by (simp add: gpu_group_def) (simp add: gpu_node_def)
  moreover have "end_hw_rank four_strategy < total_hardware_count (make_resolver ?gs)" by (simp add: total four_strategy_def)
  ultimately show ?thesis unfolding packed_aligned_def by blast
qed

theorem packed_placement_correct_witness:
  "\<exists>ps. packed_get_placement four_strategy four_cluster True = Some (Inr ps) \<and> map rank ps = [0, 1, 2, 3]
    \<and> mset (concat (map (process_ranks four_strategy) [0..<4])) = mset [0..7]"
proof -
  have "resolve_groups (pk_labels four_strategy) four_cluster = Inr [gpu_group ''cluster'' [gpu_node 0 4, gpu_node 1 4]]"
    by code_simp
  from packed_placement_correct [OF this four_aligned, of True] show ?thesis
    by (auto simp: four_strategy_def upt_rec)
qed

end
