(* ===== verification/Rank_Config.thy ===== *)
theory Rank_Config
  imports Py_Text "HOL-Library.Multiset"
begin

text \<open>
  Rank configuration strings such as \<open>0-3,5,7-9\<close> or \<open>all\<close>:
  \<open>parse_rank_config\<close> of \<^verbatim>\<open>rlinf/scheduler/cluster/utils.py\<close>. A configuration that
  is an integer is converted to its text by the code itself, so the model starts
  from the text. The set of ranks is a list without order; only its sorted,
  duplicate-free form is returned.
\<close>

section \<open>The parser\<close>

text \<open>One range: its two ends, with every format error turned into a \<open>ValueError\<close>.\<close>

definition parse_range :: "string \<Rightarrow> (int \<times> int) res" where
  "parse_range rank_range =
     (case py_split (CHR ''-'') rank_range of
        [a] \<Rightarrow> rbind (py_int a) (\<lambda>start. Inr (start, start))
      | [a, b] \<Rightarrow> rbind (py_int a) (\<lambda>start. rbind (py_int b) (\<lambda>end_rank. Inr (start, end_rank)))
      | _ \<Rightarrow> Inl ValueError)"

text \<open>\<open>available_ranks[0] <= rank <= available_ranks[-1]\<close>; an empty list cannot be indexed.\<close>

definition check_available :: "int list option \<Rightarrow> int \<Rightarrow> unit res" where
  "check_available available rank =
     (case available of
        None \<Rightarrow> Inr ()
      | Some [] \<Rightarrow> Inl IndexError
      | Some (a # as) \<Rightarrow> if a \<le> rank \<and> rank \<le> last (a # as) then Inr () else Inl AssertionError)"

definition add_range :: "int list option \<Rightarrow> int list \<Rightarrow> string \<Rightarrow> int list res" where
  "add_range available ranks part =
     (let rank_range = py_strip part in
      if rank_range = [] then Inr ranks
      else rbind (parse_range rank_range) (\<lambda>(start_rank, end_rank).
        if \<not> end_rank \<ge> start_rank then Inl AssertionError
        else rbind (check_available available start_rank) (\<lambda>_.
             rbind (check_available available end_rank) (\<lambda>_.
             Inr (ranks @ py_range3 start_rank (end_rank + 1) 1)))))"

definition parse_rank_config :: "string \<Rightarrow> int list option \<Rightarrow> int list res" where
  "parse_rank_config rank_config available_ranks =
     (let available = map_option sort available_ranks in
      if py_lower rank_config = ''all''
      then (case available of None \<Rightarrow> Inl AssertionError | Some as \<Rightarrow> Inr (sort (remdups as)))
      else rbind (rfold (add_range available) [] (py_split (CHR '','') rank_config)) (\<lambda>ranks.
           Inr (sort (remdups ranks))))"

section \<open>Reading back a printed configuration\<close>

text \<open>A configuration as an abstract list of ranges, and its text.\<close>

definition range_text :: "int \<times> int \<Rightarrow> string" where
  "range_text r = (if fst r = snd r then int_str (fst r) else int_str (fst r) @ CHR ''-'' # int_str (snd r))"

fun config_text :: "(int \<times> int) list \<Rightarrow> string" where
  "config_text [] = []"
| "config_text [r] = range_text r"
| "config_text (r # rs) = range_text r @ CHR '','' # config_text rs"

definition config_ranks :: "(int \<times> int) list \<Rightarrow> int set" where
  "config_ranks rs = (\<Union>r\<in>set rs. {fst r..snd r})"

definition config_ok :: "(int \<times> int) list \<Rightarrow> bool" where
  "config_ok rs = (\<forall>r\<in>set rs. 0 \<le> fst r \<and> fst r \<le> snd r)"

lemma sorted_hd_Min: "sorted xs \<Longrightarrow> xs \<noteq> [] \<Longrightarrow> hd xs = Min (set xs)" for xs :: "int list"
  by (cases xs) (auto intro!: Min_eqI [symmetric])

lemma sorted_last_Max: "sorted xs \<Longrightarrow> xs \<noteq> [] \<Longrightarrow> last xs = Max (set xs)" for xs :: "int list"
  by (cases xs rule: rev_cases) (auto intro!: Max_eqI [symmetric] simp: sorted_append)

lemma int_str_nonneg_digits: "0 \<le> i \<Longrightarrow> list_all is_digit (int_str i)"
  by (simp add: int_str_def nat_str_digits)

lemma int_str_no_minus: "0 \<le> i \<Longrightarrow> CHR ''-'' \<notin> set (int_str i)"
  using int_str_nonneg_digits [of i] digit_neq_sign by (auto simp: list_all_iff)

lemma range_text_chars: "c \<in> set (range_text r) \<Longrightarrow> is_digit c \<or> c = CHR ''-''"
  using int_str_chars by (auto simp: range_text_def split: if_splits)

lemma range_text_no_comma: "CHR '','' \<notin> set (range_text r)"
  using range_text_chars digit_neq_sign by fastforce

lemma range_text_not_Nil [simp]: "range_text r \<noteq> []"
  by (simp add: range_text_def)

lemma py_strip_range_text [simp]: "py_strip (range_text r) = range_text r"
proof (rule py_strip_id)
  show "\<not> is_space (hd (range_text r))" "\<not> is_space (last (range_text r))"
    using range_text_chars is_digit_not_space minus_not_space by (metis hd_in_set last_in_set range_text_not_Nil)+
qed simp

lemma parse_range_text:
  assumes "0 \<le> fst r" "fst r \<le> snd r"
  shows "parse_range (range_text r) = Inr r"
proof (cases "fst r = snd r")
  case True
  then show ?thesis using int_str_no_minus [of "fst r"] assms
    by (auto simp: range_text_def parse_range_def py_split_single prod_eq_iff)
next
  case False
  then show ?thesis using int_str_no_minus [of "fst r"] int_str_no_minus [of "snd r"] assms
    by (simp add: range_text_def parse_range_def py_split_cut py_split_single)
qed

lemma split_config_text: "rs \<noteq> [] \<Longrightarrow> py_split (CHR '','') (config_text rs) = map range_text rs"
  by (induction rs rule: config_text.induct) (simp_all add: py_split_single py_split_cut range_text_no_comma)

lemma config_text_not_all:
  assumes "config_ok rs"
  shows "py_lower (config_text rs) \<noteq> ''all''"
proof (cases rs)
  case (Cons r rs')
  have "0 \<le> fst r" using assms Cons by (simp add: config_ok_def)
  then have d: "list_all is_digit (int_str (fst r))" by (rule int_str_nonneg_digits)
  obtain c cs where c: "int_str (fst r) = c # cs" by (cases "int_str (fst r)") auto
  then have "\<exists>cs'. config_text rs = c # cs'" using Cons by (cases rs') (auto simp: range_text_def)
  moreover have "lower_char c \<noteq> CHR ''a''" using d c by (auto simp: lower_char_def is_digit_def Let_def)
  ultimately show ?thesis by (auto simp: py_lower_def)
qed (simp add: py_lower_def)

lemma set_py_range_1: "set (py_range3 a (b + 1) 1) = {a..b}"
proof -
  have "\<exists>i\<in>{0..<nat (1 + (b - a))}. x = a + int i" if "a \<le> x" "x \<le> b" for x
    using that by (intro bexI [of _ "nat (x - a)"]) auto
  then show ?thesis by (auto simp: py_range3_def image_iff)
qed

lemma add_range_text:
  assumes "0 \<le> fst r" "fst r \<le> snd r"
    and "case available of None \<Rightarrow> True | Some as \<Rightarrow> as \<noteq> [] \<and> sorted as \<and> hd as \<le> fst r \<and> snd r \<le> last as"
  shows "add_range available ranks (range_text r) = Inr (ranks @ py_range3 (fst r) (snd r + 1) 1)"
proof -
  have "check_available available x = Inr ()" if "fst r \<le> x" "x \<le> snd r" for x
    using assms(3) that by (auto simp: check_available_def split: option.splits list.splits)
  then show ?thesis using assms(1,2) parse_range_text [OF assms(1,2)]
    by (simp add: add_range_def Let_def case_prod_unfold)
qed

lemma add_ranges_text:
  assumes "config_ok rs"
    and "case available of None \<Rightarrow> True | Some as \<Rightarrow>
      as \<noteq> [] \<and> sorted as \<and> (\<forall>r\<in>set rs. hd as \<le> fst r \<and> snd r \<le> last as)"
  shows "\<exists>out. rfold (add_range available) ranks (map range_text rs) = Inr out \<and> set out = set ranks \<union> config_ranks rs"
  using assms
proof (induction rs arbitrary: ranks)
  case (Cons r rs)
  let ?new = "ranks @ py_range3 (fst r) (snd r + 1) 1"
  have "add_range available ranks (range_text r) = Inr ?new"
    using Cons.prems by (intro add_range_text) (auto simp: config_ok_def split: option.splits)
  moreover obtain out where "rfold (add_range available) ?new (map range_text rs) = Inr out"
      "set out = set ?new \<union> config_ranks rs"
    using Cons.IH [of ?new] Cons.prems by (auto simp: config_ok_def split: option.splits)
  ultimately show ?case by (auto simp: config_ranks_def set_py_range_1)
qed (simp add: config_ranks_def)

lemma finite_config_ranks [simp]: "finite (config_ranks rs)"
  by (simp add: config_ranks_def)

lemma sort_remdups_set: "set xs = S \<Longrightarrow> sort (remdups xs) = sorted_list_of_set S" for S :: "int set"
  by (metis sorted_list_of_set_sort_remdups)

lemma parse_printed:
  assumes "config_ok rs"
    and "case available of None \<Rightarrow> True | Some as \<Rightarrow>
      as \<noteq> [] \<and> (\<forall>r\<in>set rs. Min (set as) \<le> fst r \<and> snd r \<le> Max (set as))"
  shows "parse_rank_config (config_text rs) available = Inr (sorted_list_of_set (config_ranks rs))"
proof (cases "rs = []")
  case True
  then show ?thesis
    by (simp add: parse_rank_config_def py_lower_def add_range_def py_strip_def config_ranks_def)
next
  case False
  have ends: "hd (sort as) = Min (set as)" "last (sort as) = Max (set as)" "sort as \<noteq> []"
    if "as \<noteq> []" for as :: "int list"
  proof -
    show ne: "sort as \<noteq> []" using that by (metis length_0_conv length_sort)
    show "hd (sort as) = Min (set as)" "last (sort as) = Max (set as)"
      using sorted_hd_Min [OF sorted_sort ne] sorted_last_Max [OF sorted_sort ne] by simp_all
  qed
  have "case map_option sort available of None \<Rightarrow> True | Some as \<Rightarrow>
      as \<noteq> [] \<and> sorted as \<and> (\<forall>r\<in>set rs. hd as \<le> fst r \<and> snd r \<le> last as)"
    using assms(2) ends by (auto split: option.splits)
  from add_ranges_text [OF assms(1) this, of "[]"] obtain out where
    "rfold (add_range (map_option sort available)) [] (map range_text rs) = Inr out" "set out = config_ranks rs"
    by auto
  then show ?thesis using config_text_not_all [OF assms(1)] split_config_text [OF False]
    by (simp add: parse_rank_config_def sort_remdups_set)
qed

text \<open>
  Round trip: a configuration printed from ranges \<open>a-b\<close> (or \<open>a\<close>) of
  non-negative ranks is parsed to the ranks of the ranges, sorted and without
  duplicates, provided they lie between the least and the greatest available rank.
\<close>

lemma rank_config_roundtrip:
  assumes "config_ok rs"
    and "case available of None \<Rightarrow> True | Some as \<Rightarrow>
      as \<noteq> [] \<and> (\<forall>r\<in>set rs. Min (set as) \<le> fst r \<and> snd r \<le> Max (set as))"
  shows "parse_rank_config (config_text rs) available = Inr (sorted_list_of_set (\<Union>r\<in>set rs. {fst r..snd r}))"
  using parse_printed [OF assms] by (simp add: config_ranks_def)

section \<open>Any configuration\<close>

lemma check_available_bounds:
  assumes "check_available (Some as) rank = Inr ()" "sorted as"
  shows "Min (set as) \<le> rank \<and> rank \<le> Max (set as)"
  using assms sorted_hd_Min [of as] sorted_last_Max [of as]
  by (auto simp: check_available_def split: list.splits if_splits)

lemma add_ranges_bounds:
  assumes "rfold (add_range (Some as)) ranks parts = Inr out" "sorted as"
    and "\<forall>r\<in>set ranks. Min (set as) \<le> r \<and> r \<le> Max (set as)"
  shows "\<forall>r\<in>set out. Min (set as) \<le> r \<and> r \<le> Max (set as)"
proof (rule rfold_invariant [OF assms(1)])
  fix s x s'
  assume inv: "\<forall>r\<in>set s. Min (set as) \<le> r \<and> r \<le> Max (set as)" and step: "add_range (Some as) s x = Inr s'"
  show "\<forall>r\<in>set s'. Min (set as) \<le> r \<and> r \<le> Max (set as)"
  proof (cases "py_strip x = []")
    case False
    with step obtain a b where "check_available (Some as) a = Inr ()" "check_available (Some as) b = Inr ()"
        "s' = s @ py_range3 a (b + 1) 1"
      by (auto simp: add_range_def Let_def res_elims split: if_splits)
    with inv check_available_bounds [OF _ assms(2)] show ?thesis by (fastforce simp: set_py_range_1)
  qed (use inv step in \<open>simp add: add_range_def\<close>)
qed (rule assms(3))

lemma rank_config_ok:
  assumes "parse_rank_config rank_config available = Inr ranks"
  shows "sorted ranks \<and> distinct ranks \<and>
    (case available of None \<Rightarrow> True | Some as \<Rightarrow> list_all (\<lambda>r. Min (set as) \<le> r \<and> r \<le> Max (set as)) ranks)"
proof -
  have "list_all (\<lambda>r. Min (set as) \<le> r \<and> r \<le> Max (set as)) ranks" if av: "available = Some as" for as
  proof (cases "py_lower rank_config = ''all''")
    case True
    then have "set ranks = set as" using assms av by (auto simp: parse_rank_config_def)
    then show ?thesis by (simp add: list_all_iff)
  next
    case False
    then obtain out where out: "rfold (add_range (Some (sort as))) [] (py_split (CHR '','') rank_config) = Inr out"
        "ranks = sort (remdups out)"
      using assms av by (auto simp: parse_rank_config_def res_elims)
    from add_ranges_bounds [OF out(1)] show ?thesis by (simp add: out(2) list_all_iff)
  qed
  moreover have "sorted ranks \<and> distinct ranks"
    using assms by (auto simp: parse_rank_config_def Let_def res_elims split: if_splits option.splits)
  ultimately show ?thesis by (simp split: option.split)
qed

text \<open>
  Whatever the text, a successful parse gives sorted, distinct ranks, all of them
  between the least and the greatest available rank.
\<close>

lemma rank_config_sound:
  assumes "parse_rank_config rank_config available = Inr ranks"
  shows "sorted ranks \<and> distinct ranks \<and>
    (case available of None \<Rightarrow> True | Some as \<Rightarrow> list_all (\<lambda>r. Min (set as) \<le> r \<and> r \<le> Max (set as)) ranks)"
  using assms by (rule rank_config_ok)

text \<open>
  Only the two ends of the available ranks are compared: a rank in a gap of a list
  of available ranks is accepted. A caller that needs more checks it itself, as the
  cluster configuration does.
\<close>

lemma rank_config_gap_accepted: "parse_rank_config ''3'' (Some [0, 5]) = Inr [3]"
  by code_simp

end
