(* ===== verification/Cluster_Config.thy ===== *)
theory Cluster_Config
  imports Rank_Config Node_Group "HOL-Library.List_Lexorder"
begin

text \<open>
  From the configuration to the node groups of a cluster: \<open>NodeGroupConfig\<close> and
  \<open>ClusterConfig\<close> of \<^verbatim>\<open>rlinf/scheduler/cluster/config.py\<close> (the parsing of ranks, the
  validation of environments and hardware), and from \<open>NodeProbe\<close> of
  \<^verbatim>\<open>rlinf/scheduler/cluster/node.py\<close> the numbering of the probed nodes and the
  construction of the groups. The nodes themselves, and the identity of the head
  node, come from Ray and are arguments.
\<close>

section \<open>Node group configurations\<close>

text \<open>The raw configuration, before the rank texts are parsed. Hardware: its type and the nodes it is on.\<close>

record env_text =
  et_ranks :: string
  et_env_vars :: "(string \<times> string) list option"
  et_interpreter :: "string option"

record group_text =
  gt_label :: string
  gt_ranks :: string
  gt_envs :: "env_text list option"
  gt_hardware :: "(string \<times> int list) option"
  gt_hardware_type :: "string option"
  gt_ignore :: bool

record group_config =
  gc_label :: string
  gc_ranks :: "int list"
  gc_envs :: "env_config list option"
  gc_hardware :: "(string \<times> int list) option"
  gc_hardware_type :: "string option"
  gc_ignore :: bool

definition reserved_labels :: "string list" where
  "reserved_labels = [''cluster'', ''node'']"

text \<open>\<open>NodeGroupConfig.__post_init__\<close> on fields that have passed the check of their names.\<close>

definition group_post_init :: "group_text \<Rightarrow> group_text res" where
  "group_post_init g =
     (case gt_hardware g of
        Some (t, _) \<Rightarrow>
          if gt_hardware_type g \<noteq> None then Inl AssertionError
          else if gt_ignore g then Inl AssertionError
          else if gt_label g \<in> set reserved_labels then Inl AssertionError
          else Inr (g\<lparr>gt_hardware_type := Some t\<rparr>)
      | None \<Rightarrow> if gt_label g \<in> set reserved_labels then Inl AssertionError else Inr g)"

text \<open>\<open>_validate_env_configs\<close>: ranks inside the group, no rank and no variable twice.\<close>

fun check_ranks :: "int list \<Rightarrow> int set \<Rightarrow> int list \<Rightarrow> int set res" where
  "check_ranks group_ranks seen [] = Inr seen"
| "check_ranks group_ranks seen (r # rs) =
     (if r \<notin> set group_ranks then Inl AssertionError
      else if r \<in> seen then Inl AssertionError
      else check_ranks group_ranks (insert r seen) rs)"

fun check_keys :: "string set \<Rightarrow> (string \<times> string) list \<Rightarrow> string set res" where
  "check_keys seen [] = Inr seen"
| "check_keys seen ((k, v) # vars) =
     (if k \<in> seen then Inl AssertionError else check_keys (insert k seen) vars)"

fun validate_env_configs :: "int list \<Rightarrow> int set \<Rightarrow> string set \<Rightarrow> env_config list \<Rightarrow> unit res" where
  "validate_env_configs group_ranks ranks keys [] = Inr ()"
| "validate_env_configs group_ranks ranks keys (c # cs) =
     rbind (check_ranks group_ranks ranks (ec_node_ranks c)) (\<lambda>ranks'.
     rbind (case ec_env_vars c of None \<Rightarrow> Inr keys | Some vars \<Rightarrow> check_keys keys vars) (\<lambda>keys'.
     validate_env_configs group_ranks ranks' keys' cs))"

definition parse_env :: "int list \<Rightarrow> env_text \<Rightarrow> env_config res" where
  "parse_env group_ranks e =
     rbind (parse_rank_config (et_ranks e) (Some group_ranks)) (\<lambda>ranks.
     if \<not> set ranks \<subseteq> set group_ranks then Inl AssertionError
     else Inr \<lparr>ec_node_ranks = ranks, ec_env_vars = et_env_vars e, ec_interpreter = et_interpreter e\<rparr>)"

definition parse_group :: "int \<Rightarrow> group_text \<Rightarrow> group_config res" where
  "parse_group num_nodes g =
     rbind (parse_rank_config (gt_ranks g) (Some (py_range num_nodes))) (\<lambda>ranks.
     rbind (case gt_envs g of
              None \<Rightarrow> Inr None
            | Some es \<Rightarrow> rbind (rmap (parse_env ranks) es) (\<lambda>cs. Inr (Some cs))) (\<lambda>envs.
     rbind (case envs of None \<Rightarrow> Inr () | Some cs \<Rightarrow> validate_env_configs ranks {} {} cs) (\<lambda>_.
     Inr \<lparr>gc_label = gt_label g, gc_ranks = ranks, gc_envs = envs, gc_hardware = gt_hardware g,
          gc_hardware_type = gt_hardware_type g, gc_ignore = gt_ignore g\<rparr>)))"

text \<open>Hardware is defined on nodes of its own group, and by one group for a node and a type.\<close>

fun check_hardware ::
  "int list \<Rightarrow> string \<Rightarrow> string \<Rightarrow> (int \<times> string \<rightharpoonup> string) \<Rightarrow> int list \<Rightarrow> (int \<times> string \<rightharpoonup> string) res" where
  "check_hardware group_ranks lab t m [] = Inr m"
| "check_hardware group_ranks lab t m (r # rs) =
     (if r \<notin> set group_ranks then Inl AssertionError
      else case m (r, t) of
        Some l \<Rightarrow> if l = lab then check_hardware group_ranks lab t m rs else Inl AssertionError
      | None \<Rightarrow> check_hardware group_ranks lab t (m((r, t) \<mapsto> lab)) rs)"

fun check_all_hardware :: "(int \<times> string \<rightharpoonup> string) \<Rightarrow> group_config list \<Rightarrow> (int \<times> string \<rightharpoonup> string) res" where
  "check_all_hardware m [] = Inr m"
| "check_all_hardware m (g # gs) =
     (case gc_hardware g of
        None \<Rightarrow> check_all_hardware m gs
      | Some (t, rs) \<Rightarrow>
          rbind (check_hardware (gc_ranks g) (gc_label g) t m rs) (\<lambda>m'. check_all_hardware m' gs))"

text \<open>\<open>ClusterConfig.__post_init__\<close>, for an integer number of nodes and without profiling.\<close>

definition cluster_config :: "int \<Rightarrow> group_text list option \<Rightarrow> group_config list option res" where
  "cluster_config num_nodes groups =
     rbind (case groups of
              None \<Rightarrow> Inr None
            | Some gs \<Rightarrow>
                rbind (rmap group_post_init gs) (\<lambda>gs'.
                rbind (rmap (parse_group num_nodes) gs') (\<lambda>cs.
                rbind (check_all_hardware Map.empty cs) (\<lambda>_. Inr (Some cs))))) (\<lambda>out.
     if num_nodes > 0 then Inr out else Inl AssertionError)"

definition get_node_labels_by_rank :: "group_config list option \<Rightarrow> int \<Rightarrow> string list" where
  "get_node_labels_by_rank groups r =
     (case groups of None \<Rightarrow> [] | Some gs \<Rightarrow> map gc_label (filter (\<lambda>g. r \<in> set (gc_ranks g)) gs))"

definition get_node_interpreters_by_rank :: "group_config list option \<Rightarrow> int \<Rightarrow> string list" where
  "get_node_interpreters_by_rank groups r =
     concat (map (\<lambda>g. case gc_envs g of
         None \<Rightarrow> []
       | Some cs \<Rightarrow> if r \<in> set (gc_ranks g)
                    then concat (map (\<lambda>c. if r \<in> set (ec_node_ranks c)
                        then (case ec_interpreter c of None \<Rightarrow> [] | Some p \<Rightarrow> [p]) else []) cs)
                    else [])
       (case groups of None \<Rightarrow> [] | Some gs \<Rightarrow> gs))"

section \<open>Numbering the probed nodes\<close>

text \<open>Grouping by accelerator type in order of first appearance, as the dictionary does.\<close>

fun group_insert :: "string \<Rightarrow> node_info \<Rightarrow> (string \<times> node_info list) list \<Rightarrow> (string \<times> node_info list) list" where
  "group_insert t n [] = [(t, [n])]"
| "group_insert t n ((u, ns) # gs) = (if t = u then (u, ns @ [n]) # gs else (u, ns) # group_insert t n gs)"

definition group_by_accel :: "node_info list \<Rightarrow> (string \<times> node_info list) list res" where
  "group_by_accel ns = rfold (\<lambda>gs n. rbind (accelerator_type n) (\<lambda>t. Inr (group_insert t n gs))) [] ns"

definition renumber :: "node_info list \<Rightarrow> node_info list" where
  "renumber ns = map (\<lambda>(i, n). n\<lparr>node_rank := int i\<rparr>) (enumerate 0 ns)"

definition find_head :: "string \<Rightarrow> node_info list \<Rightarrow> node_info res" where
  "find_head current_id ns = (case find (\<lambda>n. ray_id n = current_id) ns of None \<Rightarrow> Inl AssertionError | Some n \<Rightarrow> Inr n)"

text \<open>Addresses are compared as Python strings, by code points.\<close>

definition ip_key :: "node_info \<Rightarrow> nat list" where
  "ip_key n = map of_char (node_ip n)"

definition ranked_nodes :: "string \<Rightarrow> int \<Rightarrow> node_info list \<Rightarrow> node_info list res" where
  "ranked_nodes current_id cluster_num_nodes ns =
     (if \<not> list_all (\<lambda>n. node_rank n \<ge> 0) ns then Inl AssertionError
      else if \<not> list_all (\<lambda>n. node_rank n < int (length ns)) ns then Inl AssertionError
      else if int (length ns) > cluster_num_nodes
      then rbind (find_head current_id (sort_key node_rank ns)) (\<lambda>h.
           if node_rank h < cluster_num_nodes then Inr (sort_key node_rank ns) else Inl AssertionError)
      else Inr (sort_key node_rank ns))"

definition unranked_nodes :: "string \<Rightarrow> node_info list \<Rightarrow> node_info list res" where
  "unranked_nodes current_id ns =
     (if \<not> list_all (\<lambda>n. node_rank n = -1) ns then Inl AssertionError
      else rbind (group_by_accel ns) (\<lambda>gs.
           let ordered = concat (map (\<lambda>g. sort_key ip_key (snd g)) gs) in
           rbind (find_head current_id ordered) (\<lambda>h. Inr (renumber (h # remove1 h ordered)))))"

definition sort_nodes :: "string \<Rightarrow> int \<Rightarrow> node_info list \<Rightarrow> node_info list res" where
  "sort_nodes current_id cluster_num_nodes ns =
     rbind
      (if list_all (\<lambda>n. node_rank n \<noteq> -1) ns then ranked_nodes current_id cluster_num_nodes ns
       else unranked_nodes current_id ns)
      (\<lambda>ordered.
        let used = (if int (length ordered) > cluster_num_nodes then py_slice ordered 0 cluster_num_nodes else ordered) in
        if sort (map node_rank used) = map int [0..<length used] then Inr used else Inl AssertionError)"

section \<open>The node groups\<close>

definition config_groups :: "node_info list \<Rightarrow> group_config list option \<Rightarrow> node_group list" where
  "config_groups ns cfg =
     (case cfg of None \<Rightarrow> []
      | Some gs \<Rightarrow>
          map (\<lambda>(g, members). post_init
                 \<lparr>label = gc_label g, nodes = members, hardware_type = gc_hardware_type g, ignore_hardware = gc_ignore g,
                  env_configs = (case gc_envs g of None \<Rightarrow> [] | Some cs \<Rightarrow> cs)\<rparr>)
            (filter (\<lambda>(g, members). members \<noteq> [])
              (map (\<lambda>g. (g, filter (\<lambda>n. node_rank n \<in> set (gc_ranks g)) ns)) gs)))"

definition probe_groups :: "node_info list \<Rightarrow> group_config list option \<Rightarrow> node_group list res" where
  "probe_groups ns cfg =
     (let gs = config_groups ns cfg @
        [post_init \<lparr>label = ''cluster'', nodes = ns, hardware_type = None, ignore_hardware = False, env_configs = []\<rparr>,
         post_init \<lparr>label = ''node'', nodes = ns, hardware_type = None, ignore_hardware = True, env_configs = []\<rparr>]
      in if distinct (map label gs) then Inr gs else Inl AssertionError)"

definition probe_cluster :: "string \<Rightarrow> int \<Rightarrow> node_info list \<Rightarrow> group_config list option \<Rightarrow> cluster res" where
  "probe_cluster current_id cluster_num_nodes probed cfg =
     rbind (sort_nodes current_id cluster_num_nodes probed) (\<lambda>ns.
     rbind (probe_groups ns cfg) (\<lambda>gs. Inr \<lparr>cluster_nodes = ns, node_groups = gs\<rparr>))"

section \<open>The nodes of a probed cluster\<close>

lemma node_rank_renumber: "map node_rank (renumber ns) = map int [0..<length ns]"
  by (simp add: renumber_def comp_def case_prod_unfold) (simp add: enumerate_eq_zip flip: map_map [of int fst, unfolded comp_def])

lemma length_renumber [simp]: "length (renumber ns) = length ns"
  by (simp add: renumber_def)

lemma group_by_accel_nodes:
  assumes "group_by_accel ns = Inr gs"
  shows "mset (concat (map snd gs)) = mset ns"
proof -
  have ins: "mset (concat (map snd (group_insert t n gs))) = add_mset n (mset (concat (map snd gs)))" for t n gs
    by (induction t n gs rule: group_insert.induct) auto
  have "rfold (\<lambda>gs n. rbind (accelerator_type n) (\<lambda>t. Inr (group_insert t n gs))) hs ns = Inr gs
      \<Longrightarrow> mset (concat (map snd gs)) = mset (concat (map snd hs)) + mset ns" for hs
  proof (induction ns arbitrary: hs)
    case (Cons n ns)
    from Cons.prems obtain t where "rfold (\<lambda>gs n. rbind (accelerator_type n) (\<lambda>t. Inr (group_insert t n gs))) (group_insert t n hs) ns = Inr gs"
      by (auto simp: res_elims)
    from Cons.IH [OF this] show ?case by (simp add: ins)
  qed simp
  with assms show ?thesis by (fastforce simp: group_by_accel_def)
qed

lemma length_concat_sorted: "length (concat (map (\<lambda>g. sort_key f (snd g)) gs)) = length (concat (map snd gs))"
  by (induction gs) auto

lemma find_head_in: "find_head i ns = Inr h \<Longrightarrow> h \<in> set ns \<and> ray_id h = i"
  by (auto simp: find_head_def find_Some_iff split: option.splits)

lemma ranked_nodes_Inr: "ranked_nodes i k ns = Inr ordered \<Longrightarrow> ordered = sort_key node_rank ns"
  by (auto simp: ranked_nodes_def res_elims split: if_splits)

lemma unranked_nodes_Inr:
  assumes "unranked_nodes i ns = Inr ordered"
  shows "map node_rank ordered = map int [0..<length ordered] \<and> length ordered = length ns"
proof -
  from assms obtain gs h where g: "group_by_accel ns = Inr gs" "find_head i (concat (map (\<lambda>g. sort_key ip_key (snd g)) gs)) = Inr h"
    and o: "ordered = renumber (h # remove1 h (concat (map (\<lambda>g. sort_key ip_key (snd g)) gs)))"
  proof -
    have "list_all (\<lambda>n. node_rank n = - 1) ns" by (rule ccontr) (use assms in \<open>simp add: unranked_nodes_def\<close>)
    then have "rbind (group_by_accel ns) (\<lambda>gs. rbind (find_head i (concat (map (\<lambda>g. sort_key ip_key (snd g)) gs)))
      (\<lambda>h. Inr (renumber (h # remove1 h (concat (map (\<lambda>g. sort_key ip_key (snd g)) gs)))))) = Inr ordered"
      using assms by (simp add: unranked_nodes_def Let_def)
    then show ?thesis using that unfolding rbind_Inr_iff by blast
  qed
  have "h \<in> set (concat (map (\<lambda>g. sort_key ip_key (snd g)) gs))" using find_head_in [OF g(2)] by blast
  then have "length ordered = length (concat (map (\<lambda>g. sort_key ip_key (snd g)) gs))"
    unfolding o length_renumber using length_remove1 [of h "concat (map (\<lambda>g. sort_key ip_key (snd g)) gs)"] length_pos_if_in_set
    by fastforce
  then have "length ordered = length ns"
    using mset_eq_length [OF group_by_accel_nodes [OF g(1)]] by (simp only: length_concat_sorted)
  moreover have "map node_rank ordered = map int [0..<length ordered]" unfolding o node_rank_renumber by simp
  ultimately show ?thesis by blast
qed

lemma sort_nodes_ok:
  assumes "sort_nodes current_id k ns = Inr used" "0 \<le> k"
  shows "map node_rank used = map int [0..<length used] \<and> length used = min (length ns) (nat k)"
proof -
  from assms(1) obtain ordered where u: "ranked_nodes current_id k ns = Inr ordered \<or> unranked_nodes current_id ns = Inr ordered"
    and used: "used = (if int (length ordered) > k then py_slice ordered 0 k else ordered)"
      "sort (map node_rank used) = map int [0..<length used]"
  proof -
    from assms(1) obtain x where x: "(if list_all (\<lambda>n. node_rank n \<noteq> - 1) ns then ranked_nodes current_id k ns else unranked_nodes current_id ns) = Inr x"
      "(if sort (map node_rank (if int (length x) > k then py_slice x 0 k else x))
          = map int [0..<length (if int (length x) > k then py_slice x 0 k else x)]
        then Inr (if int (length x) > k then py_slice x 0 k else x) else Inl AssertionError) = Inr used"
      unfolding sort_nodes_def rbind_Inr_iff Let_def by blast
    show ?thesis by (rule that [of x]) (use x in \<open>simp_all split: if_splits\<close>)
  qed
  have o: "ordered = sort_key node_rank ns \<or> map node_rank ordered = map int [0..<length ordered] \<and> length ordered = length ns"
    using u ranked_nodes_Inr unranked_nodes_Inr by blast
  have take: "used = take (nat k) ordered" using used(1) assms(2) py_slice_nat [of ordered 0 "nat k"] by auto
  from o show ?thesis
  proof
    assume o: "ordered = sort_key node_rank ns"
    then have "sorted (map node_rank used)" by (simp add: take take_map [symmetric] sorted_wrt_take)
    with used(2) take o show ?thesis by (simp add: sorted_sort_id)
  next
    assume o: "map node_rank ordered = map int [0..<length ordered] \<and> length ordered = length ns"
    then have "map node_rank used = map int [0..<min (length ordered) (nat k)]"
      by (simp add: take take_map [symmetric]) (simp add: take_map min_def)
    with o take show ?thesis by simp
  qed
qed

lemma find_distinct:
  assumes "distinct (map f xs)" "x \<in> set xs"
  shows "find (\<lambda>y. f y = f x) xs = Some x"
  using assms by (induction xs) (auto simp: rev_image_eqI)

lemma post_init_fields [simp]: "label (post_init g) = label g" "nodes (post_init g) = nodes g" "env_configs (post_init g) = env_configs g"
  by (simp_all add: post_init_def)

text \<open>
  C36. A cluster that has been probed is well formed, whether the ranks come from the
  environment or are assigned: its nodes are numbered from 0 in their order, as many
  as were asked for or as there are; every one is found by its rank, so that the
  assertion in \<open>get_node_info\<close> never fails; the labels of the groups are unique and
  each group lists nodes of the cluster by ascending rank; and without a label the
  group of all nodes is found.
\<close>

theorem probed_cluster:
  assumes "probe_cluster current_id num_nodes probed cfg = Inr c" "0 < num_nodes"
  shows "map node_rank (cluster_nodes c) = map int [0..<length (cluster_nodes c)]
    \<and> length (cluster_nodes c) = min (length probed) (nat num_nodes)
    \<and> list_all (\<lambda>i. get_node_info c (int i) = Inr (cluster_nodes c ! i)) [0..<length (cluster_nodes c)]
    \<and> distinct (map label (node_groups c))
    \<and> list_all (\<lambda>g. sorted_wrt (<) (node_ranks g) \<and> set (nodes g) \<subseteq> set (cluster_nodes c)) (node_groups c)
    \<and> map_option nodes (get_node_group c None) = Some (cluster_nodes c)"
proof -
  from assms(1) obtain ns gs where s: "sort_nodes current_id num_nodes probed = Inr ns" and g: "probe_groups ns cfg = Inr gs"
    and c: "c = \<lparr>cluster_nodes = ns, node_groups = gs\<rparr>" by (auto simp: probe_cluster_def res_elims)
  from sort_nodes_ok [OF s] assms(2) have r: "map node_rank ns = map int [0..<length ns]" and l: "length ns = min (length probed) (nat num_nodes)" by auto
  have "node_rank (ns ! i) = int i" if "i < length ns" for i
    using arg_cong [OF r, of "\<lambda>xs. xs ! i"] that by simp
  then have info: "list_all (\<lambda>i. get_node_info c (int i) = Inr (cluster_nodes c ! i)) [0..<length (cluster_nodes c)]"
    by (auto simp: list_all_iff get_node_info_def c)
  let ?all = "post_init \<lparr>label = ''cluster'', nodes = ns, hardware_type = None, ignore_hardware = False, env_configs = []\<rparr>"
  let ?node = "post_init \<lparr>label = ''node'', nodes = ns, hardware_type = None, ignore_hardware = True, env_configs = []\<rparr>"
  from g have gs: "gs = config_groups ns cfg @ [?all, ?node]" and d: "distinct (map label gs)"
    by (auto simp: probe_groups_def Let_def split: if_splits)
  have find: "get_node_group c None = Some ?all"
    using find_distinct [OF d, of ?all] by (simp add: get_node_group_def c gs)
  have sorted: "sorted_wrt (<) (map node_rank ns)" unfolding r by (simp add: sorted_wrt_map sorted_wrt_upt)
  have "sorted_wrt (<) (node_ranks x) \<and> set (nodes x) \<subseteq> set ns" if "x \<in> set gs" for x
  proof -
    from that consider "nodes x = ns" | P where "nodes x = filter P ns"
      by (auto simp: gs config_groups_def split: option.splits)
    then show ?thesis using sorted by cases (auto simp: node_ranks_def sorted_wrt_map sorted_wrt_filter)
  qed
  then show ?thesis using r l info d find by (auto simp: c list_all_iff)
qed

text \<open>Three nodes without ranks, of which two are asked for; the third in the list is the head node.\<close>

definition fresh_node :: "string \<Rightarrow> nat \<Rightarrow> node_info" where
  "fresh_node i n = (gpu_node (-1) n)\<lparr>ray_id := i, node_ip := i\<rparr>"

definition two_groups :: "group_config list" where
  "two_groups = [\<lparr>gc_label = ''a800'', gc_ranks = [1], gc_envs = None, gc_hardware = None, gc_hardware_type = None, gc_ignore = False\<rparr>]"

lemma probe_run:
  "probe_cluster ''c'' 2 [fresh_node ''b'' 2, fresh_node ''a'' 1, fresh_node ''c'' 0] (Some two_groups)
   = Inr \<lparr>cluster_nodes = [(fresh_node ''c'' 0)\<lparr>node_rank := 0\<rparr>, (fresh_node ''a'' 1)\<lparr>node_rank := 1\<rparr>],
      node_groups =
        [\<lparr>label = ''a800'', nodes = [(fresh_node ''a'' 1)\<lparr>node_rank := 1\<rparr>], hardware_type = Some ''Accelerator'', ignore_hardware = False, env_configs = []\<rparr>,
         \<lparr>label = ''cluster'', nodes = [(fresh_node ''c'' 0)\<lparr>node_rank := 0\<rparr>, (fresh_node ''a'' 1)\<lparr>node_rank := 1\<rparr>],
           hardware_type = Some ''Accelerator'', ignore_hardware = False, env_configs = []\<rparr>,
         \<lparr>label = ''node'', nodes = [(fresh_node ''c'' 0)\<lparr>node_rank := 0\<rparr>, (fresh_node ''a'' 1)\<lparr>node_rank := 1\<rparr>],
           hardware_type = None, ignore_hardware = True, env_configs = []\<rparr>]\<rparr>"
  by code_simp

theorem probed_cluster_witness:
  "map_option nodes (get_node_group
     \<lparr>cluster_nodes = [(fresh_node ''c'' 0)\<lparr>node_rank := 0\<rparr>, (fresh_node ''a'' 1)\<lparr>node_rank := 1\<rparr>],
      node_groups =
        [\<lparr>label = ''a800'', nodes = [(fresh_node ''a'' 1)\<lparr>node_rank := 1\<rparr>], hardware_type = Some ''Accelerator'', ignore_hardware = False, env_configs = []\<rparr>,
         \<lparr>label = ''cluster'', nodes = [(fresh_node ''c'' 0)\<lparr>node_rank := 0\<rparr>, (fresh_node ''a'' 1)\<lparr>node_rank := 1\<rparr>],
           hardware_type = Some ''Accelerator'', ignore_hardware = False, env_configs = []\<rparr>,
         \<lparr>label = ''node'', nodes = [(fresh_node ''c'' 0)\<lparr>node_rank := 0\<rparr>, (fresh_node ''a'' 1)\<lparr>node_rank := 1\<rparr>],
           hardware_type = None, ignore_hardware = True, env_configs = []\<rparr>]\<rparr> None)
   = Some [(fresh_node ''c'' 0)\<lparr>node_rank := 0\<rparr>, (fresh_node ''a'' 1)\<lparr>node_rank := 1\<rparr>]"
  using probed_cluster [OF probe_run] by simp

section \<open>The environments of a validated configuration\<close>

definition env_keys :: "env_config \<Rightarrow> string list" where
  "env_keys c = (case ec_env_vars c of None \<Rightarrow> [] | Some vars \<Rightarrow> map fst vars)"

lemma check_ranks_Inr:
  "check_ranks R seen rs = Inr seen' \<longleftrightarrow> set rs \<subseteq> set R \<and> distinct rs \<and> set rs \<inter> seen = {} \<and> seen' = seen \<union> set rs"
  by (induction R seen rs rule: check_ranks.induct) auto

lemma check_keys_Inr:
  "check_keys seen vars = Inr seen' \<longleftrightarrow> distinct (map fst vars) \<and> fst ` set vars \<inter> seen = {} \<and> seen' = seen \<union> fst ` set vars"
  by (induction seen vars rule: check_keys.induct) (auto simp: image_iff)

lemma check_ranks_Inl: "check_ranks R seen rs = Inl e \<Longrightarrow> e = AssertionError"
  by (induction R seen rs rule: check_ranks.induct) (auto split: if_splits)

lemma check_keys_Inl: "check_keys seen vars = Inl e \<Longrightarrow> e = AssertionError"
  by (induction seen vars rule: check_keys.induct) (auto split: if_splits)

lemma validate_keys: "(case ec_env_vars c of None \<Rightarrow> Inr keys | Some vars \<Rightarrow> check_keys keys vars) = Inr keys'
    \<longleftrightarrow> distinct (env_keys c) \<and> set (env_keys c) \<inter> keys = {} \<and> keys' = keys \<union> set (env_keys c)"
  by (auto simp: env_keys_def check_keys_Inr split: option.split)

lemma validate_env_Inr:
  "validate_env_configs R ranks keys cs = Inr () \<longleftrightarrow>
     set (concat (map ec_node_ranks cs)) \<subseteq> set R
     \<and> distinct (concat (map ec_node_ranks cs)) \<and> (\<forall>x\<in>set (concat (map ec_node_ranks cs)). x \<notin> ranks)
     \<and> distinct (concat (map env_keys cs)) \<and> (\<forall>x\<in>set (concat (map env_keys cs)). x \<notin> keys)"
proof (induction cs arbitrary: ranks keys)
  case (Cons c cs)
  have "validate_env_configs R ranks keys (c # cs) = Inr () \<longleftrightarrow>
     set (ec_node_ranks c) \<subseteq> set R \<and> distinct (ec_node_ranks c) \<and> (\<forall>x\<in>set (ec_node_ranks c). x \<notin> ranks)
     \<and> distinct (env_keys c) \<and> (\<forall>x\<in>set (env_keys c). x \<notin> keys)
     \<and> validate_env_configs R (ranks \<union> set (ec_node_ranks c)) (keys \<union> set (env_keys c)) cs = Inr ()"
    by (auto simp: rbind_Inr_iff check_ranks_Inr validate_keys simp del: not_None_eq)
  then show ?case unfolding Cons.IH by auto
qed simp

lemma validate_env_Inl: "validate_env_configs R ranks keys cs = Inl e \<Longrightarrow> e = AssertionError"
  by (induction R ranks keys cs rule: validate_env_configs.induct)
    (auto simp: rbind_Inl_iff split: option.splits dest: check_ranks_Inl check_keys_Inl)

lemma add_env_vars_distinct:
  assumes "distinct (keys @ map fst vars)" "set (map fst env) \<subseteq> set keys"
  shows "add_env_vars env keys vars = Inr (env @ vars)"
  using assms
proof (induction env keys vars rule: add_env_vars.induct)
  case (2 env keys k v vars)
  then have "k \<notin> fst ` set env" by auto
  then have "AList.update k v env = env @ [(k, v)]" by (induction env) auto
  with 2 show ?case by auto
qed simp

lemma env_vars_unique:
  assumes "distinct (concat (map ec_node_ranks cs))" "c \<in> set cs" "r \<in> set (ec_node_ranks c)" "distinct (env_keys c)"
  shows "env_vars_loop r cs = Inr (case ec_env_vars c of None \<Rightarrow> [] | Some vars \<Rightarrow> vars)"
  using assms
proof (induction cs)
  case (Cons d cs)
  have others: "env_vars_loop r ds = Inr []" if "r \<notin> set (concat (map ec_node_ranks ds))" for ds
    using that by (induction ds) (auto split: option.split)
  show ?case
  proof (cases "d = c")
    case True
    with Cons.prems have "r \<notin> set (concat (map ec_node_ranks cs))" by auto
    with True Cons.prems others show ?thesis
      by (auto simp: env_keys_def add_env_vars_distinct split: option.splits)
  next
    case False
    with Cons.prems have "c \<in> set cs" by simp
    moreover from this Cons.prems have "r \<notin> set (ec_node_ranks d)" by auto
    ultimately show ?thesis using Cons by (auto split: option.split)
  qed
qed simp

lemma interpreter_unique:
  assumes "distinct (concat (map ec_node_ranks cs))" "c \<in> set cs" "r \<in> set (ec_node_ranks c)"
  shows "concat (map (\<lambda>c. if r \<in> set (ec_node_ranks c) then (case ec_interpreter c of None \<Rightarrow> [] | Some p \<Rightarrow> [p]) else []) cs)
    = (case ec_interpreter c of None \<Rightarrow> [] | Some p \<Rightarrow> [p])"
  using assms
proof (induction cs)
  case (Cons d cs)
  have others: "concat (map (\<lambda>c. if r \<in> set (ec_node_ranks c) then (case ec_interpreter c of None \<Rightarrow> [] | Some p \<Rightarrow> [p]) else []) ds) = []"
    if "r \<notin> set (concat (map ec_node_ranks ds))" for ds
    using that by (induction ds) auto
  show ?case
  proof (cases "d = c")
    case True
    with Cons.prems have "r \<notin> set (concat (map ec_node_ranks cs))" by auto
    from others [OF this] show ?thesis using True Cons.prems by simp
  next
    case False
    with Cons.prems have "c \<in> set cs" by simp
    moreover from this Cons.prems have "r \<notin> set (ec_node_ranks d)" by auto
    ultimately show ?thesis using Cons by auto
  qed
qed simp

lemma parse_group_valid:
  assumes "parse_group n g = Inr c" "gc_envs c = Some es"
  shows "validate_env_configs (gc_ranks c) {} {} es = Inr ()"
proof -
  from assms(1) obtain ranks envs where "(case envs of None \<Rightarrow> Inr () | Some cs \<Rightarrow> validate_env_configs ranks {} {} cs) = Inr ()"
    "gc_ranks c = ranks" "gc_envs c = envs"
    unfolding parse_group_def rbind_Inr_iff by force
  with assms(2) show ?thesis by simp
qed

text \<open>
  In a configuration that has passed its checks, every environment of a group is
  what its nodes get: the variables of a node are those of the one environment that
  names it, its interpreter the one of this environment, and neither query raises an
  exception.
\<close>

lemma config_environments:
  assumes "cluster_config n (Some gs) = Inr (Some cs)" "g \<in> set cs" "gc_envs g = Some es" "e \<in> set es" "r \<in> set (ec_node_ranks e)"
    and "env_configs grp = es"
  shows "r \<in> set (gc_ranks g)
    \<and> get_node_env_vars grp r = Inr (case ec_env_vars e of None \<Rightarrow> [] | Some vars \<Rightarrow> vars)
    \<and> get_node_python_interpreter_path grp r = Inr (ec_interpreter e)"
proof -
  from assms(1) obtain gs' where "rmap (parse_group n) gs' = Inr cs"
    by (auto simp: cluster_config_def res_elims split: if_splits)
  with assms(2) obtain g' where "parse_group n g' = Inr g"
    by (auto simp: rmap_list_all2 list_all2_conv_all_nth in_set_conv_nth [of g])
  then have v: "validate_env_configs (gc_ranks g) {} {} es = Inr ()" using assms(3) by (rule parse_group_valid)
  then have d: "distinct (concat (map ec_node_ranks es))" "set (concat (map ec_node_ranks es)) \<subseteq> set (gc_ranks g)"
    "distinct (concat (map env_keys es))" by (auto simp: validate_env_Inr)
  then have k: "distinct (env_keys e)" using assms(4) by (auto simp: distinct_concat_iff)
  show ?thesis
    using env_vars_unique [OF d(1) assms(4,5) k] interpreter_unique [OF d(1) assms(4,5)] d(2) assms(4-6)
    by (auto simp: get_node_env_vars_def get_node_python_interpreter_path_def Let_def split: option.split)
qed

definition env_example :: "group_text list" where
  "env_example = [\<lparr>gt_label = ''a800'', gt_ranks = ''0-3'',
     gt_envs = Some [\<lparr>et_ranks = ''0-1'', et_env_vars = Some [(''IF'', ''eth0'')], et_interpreter = None\<rparr>,
                     \<lparr>et_ranks = ''2'', et_env_vars = None, et_interpreter = Some ''py''\<rparr>],
     gt_hardware = None, gt_hardware_type = None, gt_ignore = False\<rparr>]"

lemma env_example_run:
  "cluster_config 4 (Some env_example) = Inr (Some [\<lparr>gc_label = ''a800'', gc_ranks = [0, 1, 2, 3],
     gc_envs = Some [\<lparr>ec_node_ranks = [0, 1], ec_env_vars = Some [(''IF'', ''eth0'')], ec_interpreter = None\<rparr>,
                     \<lparr>ec_node_ranks = [2], ec_env_vars = None, ec_interpreter = Some ''py''\<rparr>],
     gc_hardware = None, gc_hardware_type = None, gc_ignore = False\<rparr>])"
  by code_simp

text \<open>
  The names of environment variables must be unique in the whole group: two
  environments of one group that set the same variable are rejected, also when they
  are for different nodes.
\<close>

lemma env_keys_group_wide:
  assumes "i < j" "j < length es" "k \<in> set (env_keys (es ! i))" "k \<in> set (env_keys (es ! j))"
  shows "validate_env_configs ranks {} {} es = Inl AssertionError"
proof -
  have "\<not> distinct (concat (map env_keys es))"
  proof
    assume d: "distinct (concat (map env_keys es))"
    have "map env_keys es ! i \<noteq> []" "map env_keys es ! j \<noteq> []" using assms by auto
    have "es = take j es @ es ! j # drop (Suc j) es" using assms(2) by (rule id_take_nth_drop)
    then have "distinct (concat (map env_keys (take j es @ es ! j # drop (Suc j) es)))" using d by simp
    then have "set (concat (map env_keys (take j es))) \<inter> set (env_keys (es ! j)) = {}" by auto
    moreover have "es ! i \<in> set (take j es)" using assms(1,2) by (auto simp: in_set_conv_nth intro: exI [of _ i])
    ultimately show False using assms(3,4) by auto
  qed
  then have "validate_env_configs ranks {} {} es \<noteq> Inr ()" by (simp add: validate_env_Inr)
  then show ?thesis using validate_env_Inl by (cases "validate_env_configs ranks {} {} es") auto
qed

end
