(* ===== verification/Worker_Registry.thy ===== *)
theory Worker_Registry
  imports Py_Text
begin

text \<open>
  Worker addresses and the registry of all workers: \<open>WorkerAddress\<close>, \<open>WorkerNode\<close> and
  \<open>WorkerManager\<close> of \<^verbatim>\<open>rlinf/scheduler/manager/worker_manager.py\<close>. An address is the
  name of a group and a path of ranks; the registry is a list of trees, one for each
  group, whose nodes hold what is known of a worker. The information itself is only
  stored and returned, so its type is a parameter.
\<close>

section \<open>Addresses\<close>

datatype address = WorkerAddress (root_group_name: string) (rank_path: "int list")

text \<open>The constructor, and the text of an address.\<close>

definition make_address :: "string \<Rightarrow> int list \<Rightarrow> address res" where
  "make_address g ranks = (if CHR '':'' \<in> set g then Inl AssertionError else Inr (WorkerAddress g ranks))"

definition address_rank :: "address \<Rightarrow> int" where
  "address_rank a = (if rank_path a = [] then 0 else last (rank_path a))"

definition get_name :: "address \<Rightarrow> string" where
  "get_name a = root_group_name a @ concat (map (\<lambda>r. CHR '':'' # int_str r) (rank_path a))"

definition get_parent_rank :: "address \<Rightarrow> int" where
  "get_parent_rank a = (if length (rank_path a) > 1 then rank_path a ! (length (rank_path a) - 2) else 0)"

definition get_parent_address :: "address \<Rightarrow> address option" where
  "get_parent_address a =
     (if rank_path a = [] then None else Some (WorkerAddress (root_group_name a) (butlast (rank_path a))))"

definition get_child_address :: "address \<Rightarrow> int \<Rightarrow> address" where
  "get_child_address a r = WorkerAddress (root_group_name a) (rank_path a @ [r])"

definition from_name :: "string \<Rightarrow> address res" where
  "from_name worker_name =
     (case py_split (CHR '':'') worker_name of
        [] \<Rightarrow> Inl IndexError
      | g # ranks \<Rightarrow> rbind (rmap py_int ranks) (\<lambda>rs. make_address g rs))"

definition from_parent_name_rank :: "string \<Rightarrow> int \<Rightarrow> address res" where
  "from_parent_name_rank parent_name r = rbind (from_name parent_name) (\<lambda>a. Inr (get_child_address a r))"

lemma int_str_no_colon: "CHR '':'' \<notin> set (int_str r)"
proof
  assume "CHR '':'' \<in> set (int_str r)"
  then have "is_digit (CHR '':'')" using nat_str_digits [of "nat r"] nat_str_digits [of "nat (- r)"]
    by (auto simp: int_str_def list_all_iff split: if_splits)
  then show False by (simp add: is_digit_def)
qed

lemma split_name:
  "CHR '':'' \<notin> set s \<Longrightarrow> py_split (CHR '':'') (s @ concat (map (\<lambda>r. CHR '':'' # int_str r) rs)) = s # map int_str rs"
  by (induction rs arbitrary: s) (auto simp: py_split_single py_split_cut int_str_no_colon)

text \<open>
  The name of a worker determines its address: parsing the name of an address that
  the constructor accepts gives the address back, and the name of a parent with a rank
  gives the child.
\<close>

lemma worker_name_roundtrip:
  assumes "make_address g ranks = Inr a"
  shows "from_name (get_name a) = Inr a \<and> from_parent_name_rank (get_name a) r = Inr (get_child_address a r)
    \<and> get_parent_address (get_child_address a r) = Some a"
proof -
  from assms have a: "a = WorkerAddress g ranks" "CHR '':'' \<notin> set g" by (auto simp: make_address_def split: if_splits)
  have "rmap py_int (map int_str ranks) = Inr ranks"
    using rmap_all_Inr [of ranks "\<lambda>r. py_int (int_str r)" "\<lambda>r. r"] by (simp add: rmap_map)
  then have "from_name (get_name a) = Inr a" using a by (simp add: from_name_def get_name_def split_name make_address_def)
  then show ?thesis by (simp add: from_parent_name_rank_def get_parent_address_def get_child_address_def)
qed

section \<open>The trees of workers\<close>

datatype 'i worker_node =
  WorkerNode (node_address: address) (node_info: "'i option") (node_children: "'i worker_node list")

text \<open>A root may lack an address: \<open>register_worker\<close> makes such a root for an address without ranks.\<close>

datatype 'i root_worker = Nameless 'i | Rooted "'i worker_node"

definition child_rank :: "'i worker_node \<Rightarrow> int" where
  "child_rank n = address_rank (node_address n)"

text \<open>The walk of \<open>find_node\<close> along a path, taking the first child with the rank.\<close>

fun find_path :: "'i worker_node \<Rightarrow> int list \<Rightarrow> 'i worker_node option" where
  "find_path n [] = Some n"
| "find_path n (r # rs) =
     (case find (\<lambda>c. child_rank c = r) (node_children n) of None \<Rightarrow> None | Some c \<Rightarrow> find_path c rs)"

definition find_node :: "'i root_worker \<Rightarrow> address \<Rightarrow> 'i worker_node option res" where
  "find_node root a =
     (case root of
        Nameless i \<Rightarrow> Inl AttributeError
      | Rooted n \<Rightarrow>
          if get_name (node_address n) \<noteq> root_group_name a then Inr None else Inr (find_path n (rank_path a)))"

text \<open>\<open>bisect.insort\<close>: after all children of smaller or equal rank.\<close>

definition insort_child :: "'i worker_node \<Rightarrow> 'i worker_node list \<Rightarrow> 'i worker_node list" where
  "insort_child c cs =
     takeWhile (\<lambda>d. child_rank d \<le> child_rank c) cs @ c # dropWhile (\<lambda>d. child_rank d \<le> child_rank c) cs"

definition add_child :: "int \<Rightarrow> 'i \<Rightarrow> 'i worker_node \<Rightarrow> 'i worker_node" where
  "add_child r i n =
     (case n of WorkerNode a x cs \<Rightarrow>
        WorkerNode a x (insort_child (WorkerNode (get_child_address a r) (Some i) []) cs))"

text \<open>The child is added to the node at the end of a path; the nodes on the way are the ones the walk finds.\<close>

fun modify_first :: "('a \<Rightarrow> bool) \<Rightarrow> ('a \<Rightarrow> 'a) \<Rightarrow> 'a list \<Rightarrow> 'a list" where
  "modify_first P f [] = []"
| "modify_first P f (x # xs) = (if P x then f x # xs else x # modify_first P f xs)"

primrec add_at :: "int list \<Rightarrow> int \<Rightarrow> 'i \<Rightarrow> 'i worker_node \<Rightarrow> 'i worker_node" where
  "add_at [] r i = add_child r i"
| "add_at (q # qs) r i =
     (\<lambda>n. case n of WorkerNode a x cs \<Rightarrow> WorkerNode a x (modify_first (\<lambda>c. child_rank c = q) (add_at qs r i) cs))"

section \<open>The registry\<close>

text \<open>The loop over the roots; \<open>None\<close> when no root knows the parent.\<close>

fun register_in :: "address \<Rightarrow> int \<Rightarrow> 'i \<Rightarrow> 'i root_worker list \<Rightarrow> 'i root_worker list option res" where
  "register_in parent r i [] = Inr None"
| "register_in parent r i (root # roots) =
     rbind (find_node root parent) (\<lambda>found.
     case (found, root) of
       (Some _, Rooted n) \<Rightarrow> Inr (Some (Rooted (add_at (rank_path parent) r i n) # roots))
     | _ \<Rightarrow> rbind (register_in parent r i roots) (\<lambda>rest. Inr (map_option (Cons root) rest)))"

definition register_worker :: "address \<Rightarrow> 'i \<Rightarrow> 'i root_worker list \<Rightarrow> 'i root_worker list res" where
  "register_worker a i roots =
     (case get_parent_address a of
        None \<Rightarrow> Inr (roots @ [Nameless i])
      | Some parent \<Rightarrow>
          rbind (register_in parent (address_rank a) i roots) (\<lambda>res.
          case res of
            Some roots' \<Rightarrow> Inr roots'
          | None \<Rightarrow> Inr (roots @ [Rooted (add_child (address_rank a) i (WorkerNode parent None []))])))"

fun get_worker_info :: "address \<Rightarrow> 'i root_worker list \<Rightarrow> 'i option res" where
  "get_worker_info a [] = Inr None"
| "get_worker_info a (root # roots) =
     rbind (find_node root a) (\<lambda>found. case found of Some n \<Rightarrow> Inr (node_info n) | None \<Rightarrow> get_worker_info a roots)"

section \<open>The registry is a map\<close>

inductive sorted_tree :: "'i worker_node \<Rightarrow> bool" where
  "sorted (map child_rank cs) \<Longrightarrow> (\<forall>c\<in>set cs. sorted_tree c) \<Longrightarrow> sorted_tree (WorkerNode a x cs)"

inductive_simps sorted_tree_simps [simp]: "sorted_tree (WorkerNode a x cs)"

lemma find_insort:
  assumes "sorted (map child_rank cs)"
  shows "find (\<lambda>d. child_rank d = q) (insort_child c cs)
    = (case find (\<lambda>d. child_rank d = q) cs of Some d \<Rightarrow> Some d | None \<Rightarrow> if child_rank c = q then Some c else None)"
  using assms
proof (induction cs)
  case (Cons d ds)
  have none: "find (\<lambda>d. child_rank d = q) (d # ds) = None" if "q < child_rank d"
    using Cons.prems that by (auto simp: find_None_iff)
  show ?case
  proof (cases "child_rank d \<le> child_rank c")
    case True
    with Cons show ?thesis by (auto simp: insort_child_def)
  next
    case False
    with none show ?thesis by (auto simp: insort_child_def split: option.split)
  qed
qed (simp add: insort_child_def)

lemma set_insort: "set (insort_child c cs) = insert c (set cs)"
proof -
  have "set cs = set (takeWhile (\<lambda>d. child_rank d \<le> child_rank c) cs @ dropWhile (\<lambda>d. child_rank d \<le> child_rank c) cs)"
    by (simp only: takeWhile_dropWhile_id)
  then show ?thesis unfolding insort_child_def set_append by auto
qed

lemma sorted_insort: "sorted (map child_rank cs) \<Longrightarrow> sorted (map child_rank (insort_child c cs))"
proof (induction cs)
  case (Cons d ds)
  show ?case
  proof (cases "child_rank d \<le> child_rank c")
    case True
    then have "insort_child c (d # ds) = d # insort_child c ds" by (simp add: insort_child_def)
    with Cons True show ?thesis by (auto simp: set_insort)
  next
    case False
    with Cons.prems show ?thesis by (auto simp: insort_child_def)
  qed
qed (simp add: insort_child_def)

lemma child_rank_child [simp]: "child_rank (WorkerNode (get_child_address a r) x cs) = r"
  by (simp add: child_rank_def address_rank_def get_child_address_def)

lemma node_address_add [simp]: "node_address (add_at ps r i n) = node_address n"
  by (cases ps; cases n) (auto simp: add_child_def)

lemma child_rank_add [simp]: "child_rank (add_at ps r i n) = child_rank n"
  by (simp add: child_rank_def)

lemma map_modify_first: "(\<And>x. g (f x) = g x) \<Longrightarrow> map g (modify_first P f xs) = map g xs"
  by (induction xs) auto

lemma set_modify_first: "set (modify_first P f xs) \<subseteq> set xs \<union> f ` set xs"
  by (induction xs) auto

lemma find_modify_first:
  assumes "\<And>x. P (f x) = P x" "\<And>x. Q (f x) = Q x" "\<And>x. P x \<Longrightarrow> Q x = (q = p)" "\<And>x. \<not> P x \<Longrightarrow> q = p \<Longrightarrow> \<not> Q x"
  shows "find Q (modify_first P f xs) = (if q = p then map_option f (find Q xs) else find Q xs)"
  using assms by (induction xs) auto

lemma sorted_tree_add: "sorted_tree n \<Longrightarrow> sorted_tree (add_at ps r i n)"
proof (induction ps arbitrary: n)
  case Nil
  then show ?case by (cases n) (auto simp: add_child_def sorted_insort set_insort)
next
  case (Cons p ps)
  obtain a x cs where n: "n = WorkerNode a x cs" by (cases n)
  have "map child_rank (modify_first (\<lambda>c. child_rank c = p) (add_at ps r i) cs) = map child_rank cs"
    by (rule map_modify_first) simp
  with Cons n set_modify_first [of "\<lambda>c. child_rank c = p" "add_at ps r i" cs] show ?case by auto
qed

lemma find_path_add:
  assumes "sorted_tree n" "find_path n ps \<noteq> None"
  shows "map_option node_info (find_path (add_at ps r i n) qs)
    = (if qs = ps @ [r] \<and> find_path n qs = None then Some (Some i) else map_option node_info (find_path n qs))"
  using assms
proof (induction ps arbitrary: n qs)
  case Nil
  obtain a x cs where n: "n = WorkerNode a x cs" by (cases n)
  let ?c = "WorkerNode (get_child_address a r) (Some i) []"
  show ?case
  proof (cases qs)
    case (Cons q qs')
    have "find_path ?c qs' = (if qs' = [] then Some ?c else None)" by (cases qs') auto
    with Cons n Nil.prems show ?thesis by (auto simp: add_child_def find_insort split: option.split)
  qed (simp add: n add_child_def)
next
  case (Cons p ps)
  obtain a x cs where n: "n = WorkerNode a x cs" by (cases n)
  from Cons.prems(2) obtain c where c: "find (\<lambda>c. child_rank c = p) cs = Some c" "find_path c ps \<noteq> None"
    by (auto simp: n split: option.splits)
  then have "c \<in> set cs" by (auto simp: find_Some_iff)
  then have sc: "sorted_tree c" using Cons.prems(1) n by simp
  have f: "find (\<lambda>d. child_rank d = q) (modify_first (\<lambda>c. child_rank c = p) (add_at ps r i) cs)
      = (if q = p then map_option (add_at ps r i) (find (\<lambda>d. child_rank d = q) cs) else find (\<lambda>d. child_rank d = q) cs)" for q
    by (rule find_modify_first) auto
  show ?case
  proof (cases qs)
    case (Cons q qs')
    then show ?thesis using c f [of q] Cons.IH [OF sc c(2), of qs'] by (cases "q = p") (auto simp: n split: option.split)
  qed (simp add: n)
qed

text \<open>The roots are the groups, each once.\<close>

fun root_group :: "'i root_worker \<Rightarrow> string" where
  "root_group (Nameless i) = []"
| "root_group (Rooted n) = root_group_name (node_address n)"

definition root_ok :: "'i root_worker \<Rightarrow> bool" where
  "root_ok r \<longleftrightarrow> (\<exists>n. r = Rooted n \<and> rank_path (node_address n) = [] \<and> sorted_tree n \<and> node_info n = None)"

definition registry_ok :: "'i root_worker list \<Rightarrow> bool" where
  "registry_ok roots \<longleftrightarrow> list_all root_ok roots \<and> distinct (map root_group roots)"

definition known :: "address \<Rightarrow> 'i root_worker list \<Rightarrow> bool" where
  "known a roots \<longleftrightarrow> (\<exists>n. Rooted n \<in> set roots \<and> root_group_name (node_address n) = root_group_name a \<and> find_path n (rank_path a) \<noteq> None)"

definition info_of :: "address \<Rightarrow> 'i root_worker list \<Rightarrow> 'i option" where
  "info_of a roots = (case get_worker_info a roots of Inr x \<Rightarrow> x | Inl e \<Rightarrow> None)"

lemma known_Nil [simp]: "\<not> known a []"
  by (simp add: known_def)

lemma known_Cons [simp]: "known a (Rooted m # roots) \<longleftrightarrow>
    (root_group_name (node_address m) = root_group_name a \<and> find_path m (rank_path a) \<noteq> None) \<or> known a roots"
  by (auto simp: known_def)

lemma root_okE:
  assumes "root_ok root"
  obtains n where "root = Rooted n" "rank_path (node_address n) = []" "sorted_tree n" "node_info n = None"
  using assms by (auto simp: root_ok_def)

lemma find_node_root: "rank_path (node_address n) = [] \<Longrightarrow> find_node (Rooted n) a =
    Inr (if root_group_name (node_address n) = root_group_name a then find_path n (rank_path a) else None)"
  by (simp add: find_node_def get_name_def)

lemma get_worker_info_ok: "list_all root_ok roots \<Longrightarrow> \<exists>x. get_worker_info a roots = Inr x"
  by (induction roots) (auto simp: find_node_root elim!: root_okE split: option.split)

lemma get_worker_info_not_group:
  "list_all root_ok roots \<Longrightarrow> root_group_name a \<notin> set (map root_group roots) \<Longrightarrow> get_worker_info a roots = Inr None"
  by (induction roots) (auto simp: find_node_root elim!: root_okE)

lemma get_worker_info_unknown:
  "list_all root_ok roots \<Longrightarrow> \<not> known a roots \<Longrightarrow> get_worker_info a roots = Inr None"
  by (induction roots) (auto simp: find_node_root elim!: root_okE)

lemma get_worker_info_append:
  "list_all root_ok roots \<Longrightarrow> get_worker_info a (roots @ [root])
    = (if known a roots then get_worker_info a roots else get_worker_info a [root])"
  by (induction roots) (auto simp: find_node_root elim!: root_okE split: option.split)

lemma register_in_unknown: "list_all root_ok roots \<Longrightarrow> \<not> known p roots \<Longrightarrow> register_in p r i roots = Inr None"
  by (induction roots) (auto simp: find_node_root elim!: root_okE)

lemma known_group: "list_all root_ok roots \<Longrightarrow> known (WorkerAddress g []) roots \<longleftrightarrow> g \<in> set (map root_group roots)"
  by (induction roots) (auto elim!: root_okE)

lemma register_in_known:
  assumes "registry_ok roots" "known p roots"
  shows "\<exists>roots'. register_in p r i roots = Inr (Some roots') \<and> registry_ok roots' \<and> map root_group roots' = map root_group roots
    \<and> (\<forall>a. known a roots' \<longleftrightarrow> known a roots \<or> a = get_child_address p r)
    \<and> (\<forall>a. get_worker_info a roots' = (if a = get_child_address p r \<and> \<not> known a roots then Inr (Some i) else get_worker_info a roots))"
  using assms
proof (induction roots)
  case (Cons root roots)
  from Cons.prems(1) obtain n where n: "root = Rooted n" "rank_path (node_address n) = []" "sorted_tree n" "node_info n = None"
    and ok: "registry_ok roots" "list_all root_ok roots" "root_group root \<notin> set (map root_group roots)"
    by (auto simp: registry_ok_def root_ok_def)
  have info_Cons: "get_worker_info a (Rooted m # roots) = (if root_group_name (node_address m) = root_group_name a
      then (case map_option node_info (find_path m (rank_path a)) of Some x \<Rightarrow> Inr x | None \<Rightarrow> get_worker_info a roots)
      else get_worker_info a roots)"
    if "rank_path (node_address m) = []" for a m
    using that by (simp add: find_node_root split: option.split)
  have other: "\<not> known a roots \<and> get_worker_info a roots = Inr None" if "root_group_name (node_address n) = root_group_name a" for a
    using that ok(2,3) get_worker_info_not_group [of roots a] by (auto simp: known_def n(1) image_iff)
  show ?case
  proof (cases "root_group_name (node_address n) = root_group_name p")
    case True
    then have p: "find_path n (rank_path p) \<noteq> None" using Cons.prems(2) other [OF True] by (simp add: n(1))
    let ?n = "add_at (rank_path p) r i n"
    have reg: "register_in p r i (root # roots) = Inr (Some (Rooted ?n # roots))"
      using True p by (auto simp: n find_node_def get_name_def split: option.split)
    note add = find_path_add [OF n(3) p, of r i]
    have E: "find_path ?n qs \<noteq> None \<longleftrightarrow> qs = rank_path p @ [r] \<or> find_path n qs \<noteq> None" for qs
      using arg_cong [OF add [of qs], of "\<lambda>x. x = None"] by (auto split: if_splits)
    have ni: "node_info ?n = None" using n(4) by (cases "rank_path p"; cases n) (auto simp: add_child_def)
    have "registry_ok (Rooted ?n # roots)"
      using Cons.prems(1) n ni by (auto simp: registry_ok_def root_ok_def sorted_tree_add)
    moreover have K: "known a (Rooted ?n # roots) \<longleftrightarrow> known a (root # roots) \<or> a = get_child_address p r" for a
    proof (cases "root_group_name (node_address n) = root_group_name a")
      case True
      have c: "a = get_child_address p r \<longleftrightarrow> rank_path a = rank_path p @ [r]"
        using True \<open>root_group_name (node_address n) = root_group_name p\<close> by (cases a) (auto simp: get_child_address_def)
      show ?thesis unfolding n(1) c known_Cons node_address_add using E [of "rank_path a"] other [OF True] True by blast
    next
      case False
      then show ?thesis using True by (auto simp: n(1) get_child_address_def)
    qed
    moreover have "get_worker_info a (Rooted ?n # roots)
        = (if a = get_child_address p r \<and> \<not> known a (root # roots) then Inr (Some i) else get_worker_info a (root # roots))" for a
    proof (cases "root_group_name (node_address n) = root_group_name a")
      case True
      have c: "a = get_child_address p r \<longleftrightarrow> rank_path a = rank_path p @ [r]"
        using True \<open>root_group_name (node_address n) = root_group_name p\<close> by (cases a) (auto simp: get_child_address_def)
      show ?thesis using other [OF True] True n(2) unfolding n(1) c
        by (auto simp: info_Cons add simp del: get_worker_info.simps)
    next
      case False
      then show ?thesis using True n(2) by (auto simp: n(1) info_Cons get_child_address_def simp del: get_worker_info.simps)
    qed
    ultimately show ?thesis using reg by (auto simp: n(1))
  next
    case False
    then have kp: "known p roots" using Cons.prems(2) by (simp add: n(1))
    from Cons.IH [OF ok(1) this] obtain roots' where r: "register_in p r i roots = Inr (Some roots')" "registry_ok roots'"
      "map root_group roots' = map root_group roots" "\<And>a. known a roots' \<longleftrightarrow> known a roots \<or> a = get_child_address p r"
      "\<And>a. get_worker_info a roots' = (if a = get_child_address p r \<and> \<not> known a roots then Inr (Some i) else get_worker_info a roots)" by blast
    have "register_in p r i (root # roots) = Inr (Some (root # roots'))"
      using False r(1) by (simp add: n find_node_def get_name_def)
    moreover have "registry_ok (root # roots')"
      using Cons.prems(1) r(2) ok(3) unfolding registry_ok_def by (simp add: r(3) flip: set_map)
    moreover have "known a (root # roots') \<longleftrightarrow> known a (root # roots) \<or> a = get_child_address p r" for a
      using r(4) [of a] by (auto simp: n(1) known_def)
    moreover have "get_worker_info a (root # roots')
        = (if a = get_child_address p r \<and> \<not> known a (root # roots) then Inr (Some i) else get_worker_info a (root # roots))" for a
      using r(5) [of a] False n(2) known_Cons [of a n]
      by (auto simp: n(1) find_node_def get_name_def get_child_address_def split: option.splits)
    ultimately show ?thesis using r(3) by auto
  qed
qed (simp add: known_def)

lemma register_worker_ok:
  assumes "registry_ok roots" "get_parent_address a = Some p" "rank_path p = [] \<or> known p roots"
  shows "\<exists>roots'. register_worker a i roots = Inr roots' \<and> registry_ok roots'
    \<and> (\<forall>b. rank_path b \<noteq> [] \<longrightarrow> (known b roots' \<longleftrightarrow> known b roots \<or> b = a))
    \<and> (\<forall>b. get_worker_info b roots' = (if b = a \<and> \<not> known b roots then Inr (Some i) else get_worker_info b roots))"
proof (cases "known p roots")
  case True
  from assms(2) have "a = get_child_address p (address_rank a)"
    by (cases a) (auto simp: get_parent_address_def get_child_address_def address_rank_def split: if_splits)
  with register_in_known [OF assms(1) True, of "address_rank a" i] show ?thesis
    by (auto simp: register_worker_def assms(2))
next
  case False
  then have "rank_path p = []" using assms(3) by simp
  with assms(2) obtain g x where a: "a = WorkerAddress g [x]" and p: "p = WorkerAddress g []"
    by (cases a; cases "rank_path a" rule: rev_cases) (auto simp: get_parent_address_def split: if_splits)
  have ok: "list_all root_ok roots" using assms(1) by (simp add: registry_ok_def)
  let ?n = "WorkerNode p None [WorkerNode a (Some i) []]"
  have "register_worker a i roots = Inr (roots @ [Rooted ?n])"
    by (simp add: register_worker_def assms(2) register_in_unknown [OF ok False] add_child_def insort_child_def)
      (simp add: a p get_child_address_def address_rank_def)
  moreover have new: "g \<notin> set (map root_group roots)" using False known_group [OF ok] p by simp
  then have "registry_ok (roots @ [Rooted ?n])" using assms(1) by (simp add: registry_ok_def root_ok_def p)
  moreover have path: "find_path ?n qs = (if qs = [] then Some ?n else if qs = [x] then Some (WorkerNode a (Some i) []) else None)" for qs
    by (cases qs; cases "tl qs") (auto simp: child_rank_def address_rank_def a)
  have "known b (roots @ [Rooted ?n]) \<longleftrightarrow> known b roots \<or> (root_group_name b = g \<and> (rank_path b = [] \<or> rank_path b = [x]))" for b
    using path [of "rank_path b"] by (auto simp: known_def p)
  then have "known b (roots @ [Rooted ?n]) \<longleftrightarrow> known b roots \<or> b = a" if "rank_path b \<noteq> []" for b
    using that by (cases b) (auto simp: a)
  moreover have "get_worker_info b (roots @ [Rooted ?n])
      = (if b = a \<and> \<not> known b roots then Inr (Some i) else get_worker_info b roots)" for b
  proof (cases "known b roots")
    case True
    then show ?thesis by (simp add: get_worker_info_append [OF ok])
  next
    case False
    have "get_worker_info b [Rooted ?n] = Inr (if b = a then Some i else None)"
      using path [of "rank_path b"] by (cases b) (auto simp: find_node_root p a)
    with False show ?thesis by (simp add: get_worker_info_append [OF ok] get_worker_info_unknown [OF ok False])
  qed
  ultimately show ?thesis by blast
qed

text \<open>
  Workers are registered in an order in which every parent comes before its children;
  workers at the first level need no parent.
\<close>

fun parents_first :: "address list \<Rightarrow> address list \<Rightarrow> bool" where
  "parents_first seen [] \<longleftrightarrow> True"
| "parents_first seen (a # as) \<longleftrightarrow>
     (case get_parent_address a of None \<Rightarrow> False | Some p \<Rightarrow> rank_path p = [] \<or> p \<in> set seen) \<and> parents_first (a # seen) as"

lemma register_all:
  assumes "registry_ok roots" "parents_first seen (map fst regs)" "\<forall>b. rank_path b \<noteq> [] \<longrightarrow> (known b roots \<longleftrightarrow> b \<in> set seen)"
  shows "\<exists>roots'. rfold (\<lambda>rs (a, i). register_worker a i rs) roots regs = Inr roots' \<and> registry_ok roots'
    \<and> (\<forall>b. rank_path b \<noteq> [] \<longrightarrow> get_worker_info b roots' = (if b \<in> set seen then get_worker_info b roots else Inr (map_of regs b)))"
  using assms
proof (induction regs arbitrary: roots seen)
  case Nil
  then show ?case by (auto simp: registry_ok_def get_worker_info_unknown)
next
  case (Cons reg regs)
  obtain a i where reg: "reg = (a, i)" by (cases reg)
  from Cons.prems(2) obtain p where p: "get_parent_address a = Some p" "rank_path p = [] \<or> p \<in> set seen"
    by (auto simp: reg split: option.splits)
  have "rank_path p = [] \<or> known p roots" using p(2) Cons.prems(3) by blast
  from register_worker_ok [OF Cons.prems(1) p(1) this, of i] obtain roots1 where r1: "register_worker a i roots = Inr roots1" "registry_ok roots1"
    "\<And>b. rank_path b \<noteq> [] \<Longrightarrow> known b roots1 \<longleftrightarrow> known b roots \<or> b = a"
    "\<And>b. get_worker_info b roots1 = (if b = a \<and> \<not> known b roots then Inr (Some i) else get_worker_info b roots)" by blast
  have ne: "rank_path a \<noteq> []" using p(1) by (auto simp: get_parent_address_def split: if_splits)
  have k: "\<forall>b. rank_path b \<noteq> [] \<longrightarrow> (known b roots1 \<longleftrightarrow> b \<in> set (a # seen))" using r1(3) Cons.prems(3) by auto
  have pf: "parents_first (a # seen) (map fst regs)" using Cons.prems(2) by (simp add: reg)
  from Cons.IH [OF r1(2) pf k] obtain roots' where r': "rfold (\<lambda>rs (a, i). register_worker a i rs) roots1 regs = Inr roots'" "registry_ok roots'"
    "\<And>b. rank_path b \<noteq> [] \<Longrightarrow> get_worker_info b roots' = (if b \<in> set (a # seen) then get_worker_info b roots1 else Inr (map_of regs b))" by blast
  have "get_worker_info b roots' = (if b \<in> set seen then get_worker_info b roots else Inr (map_of (reg # regs) b))" if "rank_path b \<noteq> []" for b
    using r'(3) [OF that] r1(4) [of b] Cons.prems(3) that ne by (auto simp: reg)
  with r'(1,2) r1(1) show ?case by (auto simp: reg)
qed

text \<open>
  The registry is the list of registrations: when every parent is registered
  before its children, no registration fails, and the information of any worker
  address is that of its first registration, or none; the trees, their order and
  their search cannot be told from this map.
\<close>

lemma registry_is_map:
  assumes "parents_first [] (map fst regs)"
  shows "\<exists>roots. rfold (\<lambda>rs (a, i). register_worker a i rs) [] regs = Inr roots
    \<and> (\<forall>b. rank_path b \<noteq> [] \<longrightarrow> get_worker_info b roots = Inr (map_of regs b))"
  using register_all [of "[]" "[]" regs] assms by (auto simp: registry_ok_def)

text \<open>
  Outside this order the registry fails without saying so. A worker whose parent is
  not registered gets a root of its own under the parent's address, whose name is
  never the name of a group: it cannot be found. A worker without ranks gets a root
  without an address, and every search that comes to it raises.
\<close>

lemma orphan_is_lost:
  assumes "rank_path p \<noteq> []" "get_parent_address a = Some p"
  shows "\<exists>roots. register_worker a i [] = Inr roots \<and> get_worker_info a roots = Inr None"
proof -
  have "root_group_name a = root_group_name p" using assms(2) by (auto simp: get_parent_address_def split: if_splits)
  moreover have "get_name p \<noteq> root_group_name p" using assms(1) by (cases "rank_path p") (auto simp: get_name_def)
  ultimately show ?thesis by (simp add: register_worker_def assms(2) add_child_def find_node_def)
qed

lemma root_registration_breaks:
  "register_worker (WorkerAddress g []) i roots = Inr (roots @ [Nameless i])
   \<and> get_worker_info a [Nameless i] = Inl AttributeError"
  by (simp add: register_worker_def get_parent_address_def find_node_def)

end
