(* ===== verification/Device_Locks.thy ===== *)
theory Device_Locks
  imports Worker_Registry
begin

text \<open>
  The lock of one device, \<open>WorkerDeviceLock\<close> of
  \<^verbatim>\<open>rlinf/scheduler/manager/lock_manager.py\<close>.

  The locks live in one asyncio actor, so the code between two awaits is one step.
  A coroutine that waits for a lock is a \<open>waiter\<close> in the deque of the lock; the
  state of its future is what \<open>asyncio.Future\<close> and \<open>Task.cancel\<close> of Python's library
  document. Every step that can happen to a lock is modelled, cancellation included.
\<close>

section \<open>One lock\<close>

text \<open>
  \<open>Result\<close> is a future that has been woken and \<open>Cancelled\<close> one that was cancelled
  while it was pending; a task cancelled after its future was woken is \<open>Interrupted\<close>:
  it gets \<open>CancelledError\<close> when it resumes, but its future is not cancelled.
\<close>

datatype future_state = Pending | Result | Cancelled | Interrupted

record waiter =
  ticket :: nat
  requester :: address
  fut :: future_state

record device_lock =
  locked :: bool
  owner :: "address option"
  waiters :: "waiter list"

definition new_lock :: device_lock where
  "new_lock = \<lparr>locked = False, owner = None, waiters = []\<rparr>"

definition wake_up_first :: "device_lock \<Rightarrow> device_lock" where
  "wake_up_first l =
     (case waiters l of
        [] \<Rightarrow> l
      | w # ws \<Rightarrow> if fut w = Pending then l\<lparr>waiters := w\<lparr>fut := Result\<rparr> # ws\<rparr> else l)"

text \<open>\<open>acquire\<close> up to its \<open>await\<close>: the lock, and whether the call has returned.\<close>

definition lock_acquire :: "nat \<Rightarrow> address \<Rightarrow> device_lock \<Rightarrow> device_lock \<times> bool" where
  "lock_acquire t a l =
     (if owner l = Some a then (l, True)
      else if \<not> locked l \<and> list_all (\<lambda>w. fut w = Cancelled) (waiters l)
      then (l\<lparr>locked := True, owner := Some a\<rparr>, True)
      else (l\<lparr>waiters := waiters l @ [\<lparr>ticket = t, requester = a, fut = Pending\<rparr>]\<rparr>, False))"

text \<open>\<open>acquire\<close> from its \<open>await\<close> on.\<close>

definition lock_resume :: "waiter \<Rightarrow> device_lock \<Rightarrow> device_lock \<times> bool res" where
  "lock_resume w l =
     (let l' = l\<lparr>waiters := remove1 w (waiters l)\<rparr> in
      if fut w = Result
      then let l'' = l'\<lparr>locked := True\<rparr> in
           if owner l'' = None then (l''\<lparr>owner := Some (requester w)\<rparr>, Inr True) else (l'', Inl AssertionError)
      else (if locked l' then l' else wake_up_first l', Inl CancelledError))"

definition lock_release :: "address \<Rightarrow> device_lock \<Rightarrow> device_lock \<times> unit res" where
  "lock_release a l =
     (if owner l \<noteq> None \<and> owner l \<noteq> Some a then (l, Inl RuntimeError)
      else if locked l then (wake_up_first (l\<lparr>locked := False, owner := None\<rparr>), Inr ())
      else (l, Inl RuntimeError))"

text \<open>\<open>Task.cancel\<close> on a task that waits.\<close>

definition cancel_waiter :: "waiter \<Rightarrow> waiter" where
  "cancel_waiter w = w\<lparr>fut := (case fut w of Pending \<Rightarrow> Cancelled | Result \<Rightarrow> Interrupted | s \<Rightarrow> s)\<rparr>"

definition lock_cancel :: "waiter \<Rightarrow> device_lock \<Rightarrow> device_lock" where
  "lock_cancel w l = l\<lparr>waiters := map (\<lambda>v. if v = w then cancel_waiter v else v) (waiters l)\<rparr>"

datatype lock_event = Acquire nat address | Resume waiter | Cancel waiter | Release address

inductive lock_step :: "device_lock \<Rightarrow> lock_event \<Rightarrow> device_lock \<Rightarrow> bool" where
  step_acquire: "t \<notin> ticket ` set (waiters l) \<Longrightarrow> lock_step l (Acquire t a) (fst (lock_acquire t a l))"
| step_resume: "w \<in> set (waiters l) \<Longrightarrow> fut w \<noteq> Pending \<Longrightarrow> lock_step l (Resume w) (fst (lock_resume w l))"
| step_cancel: "w \<in> set (waiters l) \<Longrightarrow> lock_step l (Cancel w) (lock_cancel w l)"
| step_release: "lock_step l (Release a) (fst (lock_release a l))"

inductive_cases lock_stepE: "lock_step l e l'"

inductive lock_reachable :: "device_lock \<Rightarrow> bool" where
  reach_new: "lock_reachable new_lock"
| reach_step: "lock_reachable l \<Longrightarrow> lock_step l e l' \<Longrightarrow> lock_reachable l'"

subsection \<open>The invariant of a lock\<close>

text \<open>
  Only the first waiter can have been woken, and only while the lock is free; the
  first waiter of a free lock is never left pending.
\<close>

definition woken :: "waiter \<Rightarrow> bool" where
  "woken w \<longleftrightarrow> fut w = Result \<or> fut w = Interrupted"

fun queue_ok :: "bool \<Rightarrow> waiter list \<Rightarrow> bool" where
  "queue_ok lk [] \<longleftrightarrow> True"
| "queue_ok lk (w # ws) \<longleftrightarrow> (woken w \<longrightarrow> \<not> lk) \<and> (fut w = Pending \<longrightarrow> lk) \<and> list_all (\<lambda>v. \<not> woken v) ws"

definition lock_inv :: "device_lock \<Rightarrow> bool" where
  "lock_inv l \<longleftrightarrow> (owner l = None \<longleftrightarrow> \<not> locked l) \<and> distinct (map ticket (waiters l)) \<and> queue_ok (locked l) (waiters l)"

lemma wake_up_first_simps [simp]:
  "locked (wake_up_first l) = locked l" "owner (wake_up_first l) = owner l"
  "map ticket (waiters (wake_up_first l)) = map ticket (waiters l)"
  "map requester (waiters (wake_up_first l)) = map requester (waiters l)"
  by (auto simp: wake_up_first_def split: list.splits)

lemma lock_inv_new [simp]: "lock_inv new_lock"
  by (simp add: lock_inv_def new_lock_def)

lemma queue_ok_wake:
  "list_all (\<lambda>v. \<not> woken v) (waiters l) \<Longrightarrow> queue_ok False (waiters (wake_up_first l))"
  by (cases "waiters l") (auto simp: wake_up_first_def woken_def)

lemma queue_ok_tail: "queue_ok lk (w # ws) \<Longrightarrow> list_all (\<lambda>v. \<not> woken v) ws"
  by simp

lemma queue_ok_append:
  "queue_ok lk ws \<Longrightarrow> lk \<or> ws \<noteq> [] \<Longrightarrow> fut w = Pending \<Longrightarrow> queue_ok lk (ws @ [w])"
  by (cases ws) (auto simp: woken_def)

lemma queue_ok_remove:
  assumes "queue_ok lk ws" "w \<in> set ws"
  shows "(\<exists>vs. ws = w # vs) \<or> (\<exists>v vs. ws = v # vs \<and> v \<noteq> w \<and> remove1 w ws = v # remove1 w vs \<and> queue_ok lk (remove1 w ws))"
  using assms by (cases ws) (auto simp: list_all_iff dest: notin_set_remove1 [rotated])

lemma distinct_ticket_remove1: "distinct (map ticket ws) \<Longrightarrow> distinct (map ticket (remove1 w ws))"
  by (induction ws) (auto dest: set_mp [OF set_remove1_subset])

lemma lock_inv_acquire:
  "lock_inv l \<Longrightarrow> t \<notin> ticket ` set (waiters l) \<Longrightarrow> lock_inv (fst (lock_acquire t a l))"
proof -
  assume l: "lock_inv l" and t: "t \<notin> ticket ` set (waiters l)"
  consider (own) "owner l = Some a"
    | (free) "owner l \<noteq> Some a" "\<not> locked l" "list_all (\<lambda>w. fut w = Cancelled) (waiters l)"
    | (wait) "owner l \<noteq> Some a" "\<not> (\<not> locked l \<and> list_all (\<lambda>w. fut w = Cancelled) (waiters l))" by blast
  then show ?thesis
  proof cases
    case own
    with l show ?thesis by (simp add: lock_acquire_def)
  next
    case free
    then have "queue_ok True (waiters l)" by (cases "waiters l") (auto simp: woken_def list_all_iff)
    with free l show ?thesis by (simp add: lock_acquire_def lock_inv_def)
  next
    case wait
    from wait(2) have "locked l \<or> waiters l \<noteq> []" by (cases "waiters l") auto
    with l have "queue_ok (locked l) (waiters l @ [\<lparr>ticket = t, requester = a, fut = Pending\<rparr>])"
      by (simp add: lock_inv_def queue_ok_append)
    with wait l t show ?thesis by (auto simp: lock_acquire_def lock_inv_def)
  qed
qed

lemma lock_resume_woken:
  assumes "lock_inv l" "w \<in> set (waiters l)" "fut w = Result"
  shows "locked l = False \<and> owner l = None \<and> waiters l = w # remove1 w (waiters l)
    \<and> lock_resume w l = (l\<lparr>locked := True, owner := Some (requester w), waiters := remove1 w (waiters l)\<rparr>, Inr True)"
proof -
  from assms have "woken w" by (simp add: woken_def)
  moreover obtain v vs where v: "waiters l = v # vs" using assms(2) by (cases "waiters l") auto
  ultimately have "w = v" using assms(1,2) by (auto simp: lock_inv_def list_all_iff)
  with assms v \<open>woken w\<close> show ?thesis by (simp add: lock_inv_def lock_resume_def Let_def)
qed

lemma lock_inv_resume:
  assumes l: "lock_inv l" and w: "w \<in> set (waiters l)" "fut w \<noteq> Pending"
  shows "lock_inv (fst (lock_resume w l))"
proof (cases "fut w = Result")
  case True
  from lock_resume_woken [OF l w(1) True] obtain vs where vs: "waiters l = w # vs" by metis
  have "queue_ok True vs" if "list_all (\<lambda>v. \<not> woken v) vs"
    using that by (cases vs) auto
  with vs l lock_resume_woken [OF l w(1) True] show ?thesis by (simp add: lock_inv_def)
next
  case False
  let ?l = "l\<lparr>waiters := remove1 w (waiters l)\<rparr>"
  have q: "queue_ok (locked l) (waiters l)" using l by (simp add: lock_inv_def)
  have d: "distinct (map ticket (remove1 w (waiters l)))" using l by (simp add: lock_inv_def distinct_ticket_remove1)
  have "queue_ok (locked l) (waiters (if locked l then ?l else wake_up_first ?l))"
    using queue_ok_remove [OF q w(1)]
  proof (elim disjE exE conjE)
    fix vs assume "waiters l = w # vs"
    then show ?thesis using q queue_ok_wake [of ?l] by (cases vs) auto
  next
    fix v vs assume v: "remove1 w (waiters l) = v # remove1 w vs" "queue_ok (locked l) (remove1 w (waiters l))"
    then show ?thesis by (auto simp: wake_up_first_def)
  qed
  with False l d show ?thesis by (auto simp: lock_resume_def lock_inv_def Let_def)
qed

lemma cancel_waiter_simps [simp]:
  "ticket (cancel_waiter w) = ticket w" "requester (cancel_waiter w) = requester w"
  "woken (cancel_waiter w) = woken w" "fut (cancel_waiter w) \<noteq> Pending"
  by (auto simp: cancel_waiter_def woken_def split: future_state.split future_state.splits)

lemma queue_ok_map:
  assumes "\<And>v. woken (f v) = woken v" "\<And>v. fut (f v) = Pending \<Longrightarrow> fut v = Pending" "queue_ok lk ws"
  shows "queue_ok lk (map f ws)"
proof (cases ws)
  case (Cons w vs)
  with assms show ?thesis by (simp add: list.pred_map comp_def)
qed simp

lemma lock_inv_cancel: "lock_inv l \<Longrightarrow> lock_inv (lock_cancel w l)"
proof -
  assume l: "lock_inv l"
  let ?f = "\<lambda>v. if v = w then cancel_waiter v else v"
  have "queue_ok (locked l) (map ?f (waiters l))"
    by (rule queue_ok_map) (use l in \<open>auto simp: lock_inv_def split: if_splits\<close>)
  moreover have "map ticket (map ?f (waiters l)) = map ticket (waiters l)" by (simp add: if_distrib cong: if_cong)
  ultimately show ?thesis using l by (simp add: lock_inv_def lock_cancel_def del: map_map)
qed

lemma lock_inv_release: "lock_inv l \<Longrightarrow> lock_inv (fst (lock_release a l))"
proof -
  assume l: "lock_inv l"
  have "queue_ok False (waiters (wake_up_first (l\<lparr>locked := False, owner := None\<rparr>)))" if "locked l"
    using l that by (intro queue_ok_wake) (cases "waiters l"; auto simp: lock_inv_def)
  with l show ?thesis by (auto simp: lock_release_def lock_inv_def)
qed

lemma lock_inv_step: "lock_inv l \<Longrightarrow> lock_step l e l' \<Longrightarrow> lock_inv l'"
  by (erule lock_stepE) (simp_all add: lock_inv_acquire lock_inv_resume lock_inv_cancel lock_inv_release)

lemma lock_inv_reachable: "lock_reachable l \<Longrightarrow> lock_inv l"
  by (induction rule: lock_reachable.induct) (auto intro: lock_inv_step)

text \<open>
  C28. In every state that a lock can reach, with any number of callers and
  cancellations at any moment: it is locked exactly when it has an owner, a woken
  coroutine finds it free, so that the assertion after the \<open>await\<close> of \<open>acquire\<close> never
  fails, and when it is free its first waiter can resume, so that no wake-up is lost.
\<close>

theorem lock_sound:
  assumes "lock_reachable l"
  shows "(locked l \<longleftrightarrow> owner l \<noteq> None)
    \<and> list_all (\<lambda>w. fut w = Pending \<or> snd (lock_resume w l) \<noteq> Inl AssertionError) (waiters l)
    \<and> (locked l \<or> waiters l = [] \<or> fut (hd (waiters l)) \<noteq> Pending)"
proof -
  note l = lock_inv_reachable [OF assms]
  have "snd (lock_resume w l) \<noteq> Inl AssertionError" if "w \<in> set (waiters l)" for w
    using lock_resume_woken [OF l that] by (cases "fut w = Result") (auto simp: lock_resume_def Let_def)
  moreover have "locked l \<or> waiters l = [] \<or> fut (hd (waiters l)) \<noteq> Pending"
    using l by (cases "waiters l") (auto simp: lock_inv_def)
  ultimately show ?thesis using l by (auto simp: lock_inv_def list_all_iff)
qed

definition worker :: "nat \<Rightarrow> address" where
  "worker i = WorkerAddress ''actor'' [int i]"

lemma lock_run:
  "lock_reachable \<lparr>locked = False, owner = None,
     waiters = [\<lparr>ticket = 1, requester = worker 1, fut = Result\<rparr>, \<lparr>ticket = 2, requester = worker 2, fut = Pending\<rparr>]\<rparr>"
proof -
  let ?l1 = "fst (lock_acquire 0 (worker 0) new_lock)"
  let ?l2 = "fst (lock_acquire 1 (worker 1) ?l1)"
  let ?l3 = "fst (lock_acquire 2 (worker 2) ?l2)"
  have "lock_reachable ?l1" by (rule reach_step [OF reach_new step_acquire]) (simp add: new_lock_def)
  then have "lock_reachable ?l2" by (rule reach_step [OF _ step_acquire]) (simp add: lock_acquire_def new_lock_def)
  then have "lock_reachable ?l3" by (rule reach_step [OF _ step_acquire]) (simp add: lock_acquire_def new_lock_def worker_def)
  then have "lock_reachable (fst (lock_release (worker 0) ?l3))" by (rule reach_step [OF _ step_release])
  then show ?thesis
    by (simp add: lock_acquire_def lock_release_def new_lock_def wake_up_first_def worker_def)
qed

theorem lock_sound_witness:
  "snd (lock_resume \<lparr>ticket = 1, requester = worker 1, fut = Result\<rparr>
     \<lparr>locked = False, owner = None,
      waiters = [\<lparr>ticket = 1, requester = worker 1, fut = Result\<rparr>, \<lparr>ticket = 2, requester = worker 2, fut = Pending\<rparr>]\<rparr>)
   \<noteq> Inl AssertionError"
  using lock_sound [OF lock_run] by simp

text \<open>
  Mutual exclusion: a worker that owns a lock keeps it until it releases it.
  Whatever other workers do, and whatever is cancelled, the owner only changes by a
  \<open>release\<close> of the owner itself.
\<close>

lemma lock_exclusive:
  assumes "lock_reachable l" "owner l = Some a" "lock_step l e l'" "e \<noteq> Release a"
  shows "owner l' = Some a"
proof -
  note l = lock_inv_reachable [OF assms(1)]
  from assms(2) l have lk: "locked l" by (auto simp: lock_inv_def)
  from assms(3) show ?thesis
  proof (cases rule: lock_step.cases)
    case (step_resume w)
    then have "fut w \<noteq> Result" using lock_resume_woken [OF l] lk by auto
    then show ?thesis using step_resume lk assms(2) by (simp add: lock_resume_def Let_def)
  qed (use assms lk in \<open>auto simp: lock_acquire_def lock_cancel_def lock_release_def\<close>)
qed

subsection \<open>A first-in first-out queue\<close>

text \<open>
  What the lock promises: a holder and a queue of workers that wait, served in the
  order of their requests. A worker may leave the queue when its request is
  cancelled.
\<close>

type_synonym fifo_lock = "address option \<times> address list"

inductive fifo_step :: "fifo_lock \<Rightarrow> fifo_lock \<Rightarrow> bool" where
  fifo_stay: "fifo_step q q"
| fifo_take: "fifo_step (None, []) (Some a, [])"
| fifo_join: "h \<noteq> Some a \<Longrightarrow> fifo_step (h, q) (h, q @ [a])"
| fifo_grant: "fifo_step (None, a # q) (Some a, q)"
| fifo_leave: "fifo_step (h, q @ a # r) (h, q @ r)"
| fifo_free: "fifo_step (Some a, q) (None, q)"

definition fifo_of :: "device_lock \<Rightarrow> fifo_lock" where
  "fifo_of l = (owner l, map requester (filter (\<lambda>w. fut w \<noteq> Cancelled) (waiters l)))"

lemma fifo_wake [simp]: "fifo_of (wake_up_first l) = fifo_of l"
  by (auto simp: fifo_of_def wake_up_first_def split: list.split)

lemma fifo_remove:
  assumes "w \<in> set ws"
  shows "fifo_step (h, map requester (filter P ws)) (h, map requester (filter P (remove1 w ws)))"
proof (cases "P w")
  case True
  from split_list_first [OF assms] obtain xs ys where ws: "ws = xs @ w # ys" "w \<notin> set xs" by blast
  then show ?thesis using True by (simp add: remove1_append fifo_leave)
next
  case False
  then have "filter P (remove1 w ws) = filter P ws" by (induction ws) auto
  then show ?thesis by (simp add: fifo_stay)
qed

lemma fifo_cancel:
  assumes "w \<in> set ws" "distinct (map ticket ws)"
  shows "fifo_step (h, map requester (filter (\<lambda>w. fut w \<noteq> Cancelled) ws))
    (h, map requester (filter (\<lambda>w. fut w \<noteq> Cancelled) (map (\<lambda>v. if v = w then cancel_waiter v else v) ws)))"
proof -
  from split_list_first [OF assms(1)] obtain xs ys where ws: "ws = xs @ w # ys" "w \<notin> set xs" by blast
  moreover from this assms(2) have "w \<notin> set ys" by auto
  ultimately have m: "map (\<lambda>v. if v = w then cancel_waiter v else v) ws = xs @ cancel_waiter w # ys"
    by (auto intro!: map_idI)
  show ?thesis
  proof (cases "fut w")
    case Pending
    then show ?thesis unfolding m unfolding ws(1) by (simp add: cancel_waiter_def fifo_leave)
  qed (unfold m, unfold ws(1), simp_all add: cancel_waiter_def fifo_stay)
qed

text \<open>
  C34. The lock refines the queue: every step of the lock in a reachable state,
  seen as its owner and the requests that have not been cancelled, is a step of a
  first-in first-out lock. So the lock is granted in the order of the requests.
\<close>

theorem lock_refines_fifo:
  assumes "lock_reachable l" "lock_step l e l'"
  shows "fifo_step (fifo_of l) (fifo_of l')"
proof -
  note l = lock_inv_reachable [OF assms(1)]
  from assms(2) show ?thesis
  proof (cases rule: lock_step.cases)
    case (step_acquire t a)
    have "filter (\<lambda>w. fut w \<noteq> Cancelled) (waiters l) = []" if "list_all (\<lambda>w. fut w = Cancelled) (waiters l)"
      using that by (induction "waiters l") (auto simp: filter_empty_conv list_all_iff)
    then show ?thesis using l step_acquire
      by (auto simp: lock_acquire_def fifo_of_def lock_inv_def intro: fifo_step.intros)
  next
    case (step_resume w)
    show ?thesis
    proof (cases "fut w = Result")
      case True
      note r = lock_resume_woken [OF l step_resume(3) True]
      then obtain ws where ws: "waiters l = w # ws" "owner l = None" by blast
      with r step_resume(2) True show ?thesis by (simp add: fifo_of_def fifo_grant)
    next
      case False
      then have "fifo_of l' = fifo_of (l\<lparr>waiters := remove1 w (waiters l)\<rparr>)"
        using step_resume by (simp add: lock_resume_def Let_def)
      then show ?thesis using fifo_remove [OF step_resume(3)] by (simp add: fifo_of_def)
    qed
  next
    case (step_cancel w)
    then show ?thesis using fifo_cancel l by (simp add: fifo_of_def lock_cancel_def lock_inv_def)
  next
    case (step_release a)
    then show ?thesis by (auto simp: lock_release_def fifo_of_def [of "l\<lparr>locked := _, owner := _\<rparr>"] fifo_of_def [of l] intro: fifo_step.intros)
  qed
qed

theorem lock_refines_fifo_witness:
  "fifo_step (None, [worker 1, worker 2]) (Some (worker 1), [worker 2])"
  using lock_refines_fifo [OF lock_run step_resume [of "\<lparr>ticket = 1, requester = worker 1, fut = Result\<rparr>"]]
  by (simp add: fifo_of_def lock_resume_def)

end
