(* ===== verification/Lock_Manager.thy ===== *)
theory Lock_Manager
  imports Device_Locks
begin

text \<open>
  The locks of all devices, \<open>DeviceLockManager\<close> of
  \<^verbatim>\<open>rlinf/scheduler/manager/lock_manager.py\<close>, and the workers that use them through
  \<open>DeviceLock\<close> of \<^verbatim>\<open>rlinf/scheduler/worker/lock.py\<close>: every lock on its own is the
  lock of the theory \<open>Device_Locks\<close>; here is what holds of all of them together.
\<close>

section \<open>The manager of all devices\<close>

text \<open>
  \<open>self._device_locks[accel_id]\<close> is evaluated for every id before a coroutine starts;
  then \<open>asyncio.gather\<close> makes one task for every id, and the tasks run to their first
  await one after the other, before any other task of the event loop does.
\<close>

definition device_index :: "nat \<Rightarrow> int \<Rightarrow> nat res" where
  "device_index n i = py_index [0..<n] i"

fun acquire_each :: "nat \<Rightarrow> address \<Rightarrow> nat list \<Rightarrow> device_lock list \<Rightarrow> device_lock list \<times> bool list" where
  "acquire_each t a [] ls = (ls, [])"
| "acquire_each t a (p # ps) ls =
     (let (l, b) = lock_acquire t a (ls ! p);
          (ls', bs) = acquire_each t a ps (ls[p := l])
      in (ls', b # bs))"

definition acquire_devices :: "nat \<Rightarrow> address \<Rightarrow> int list \<Rightarrow> device_lock list \<Rightarrow> (device_lock list \<times> bool list) res" where
  "acquire_devices t a accel_ids ls =
     rbind (rmap (device_index (length ls)) accel_ids) (\<lambda>ps. Inr (acquire_each t a ps ls))"

fun release_each :: "address \<Rightarrow> nat list \<Rightarrow> device_lock list \<Rightarrow> device_lock list \<times> unit res list" where
  "release_each a [] ls = (ls, [])"
| "release_each a (p # ps) ls =
     (let (l, r) = lock_release a (ls ! p);
          (ls', rs) = release_each a ps (ls[p := l])
      in (ls', r # rs))"

text \<open>\<open>gather\<close> lets every task run and then raises the first exception.\<close>

definition gather_result :: "unit res list \<Rightarrow> unit res" where
  "gather_result rs = (case find (\<lambda>r. r \<noteq> Inr ()) rs of None \<Rightarrow> Inr () | Some r \<Rightarrow> r)"

definition release_devices :: "address \<Rightarrow> int list \<Rightarrow> device_lock list \<Rightarrow> (device_lock list \<times> unit res) res" where
  "release_devices a accel_ids ls =
     rbind (rmap (device_index (length ls)) accel_ids) (\<lambda>ps.
       let (ls', rs) = release_each a ps ls in Inr (ls', gather_result rs))"

text \<open>\<open>DeviceLock.acquire\<close> and \<open>release\<close>; outside a worker there is no worker to act for.\<close>

definition device_lock_acquire ::
  "nat \<Rightarrow> (address \<times> int list) option \<Rightarrow> device_lock list \<Rightarrow> (device_lock list \<times> bool list) res" where
  "device_lock_acquire t w ls =
     (case w of Some (a, accel_ids) \<Rightarrow> acquire_devices t a accel_ids ls | None \<Rightarrow> Inl RuntimeError)"

definition device_lock_release ::
  "(address \<times> int list) option \<Rightarrow> device_lock list \<Rightarrow> (device_lock list \<times> unit res) res" where
  "device_lock_release w ls =
     (case w of Some (a, accel_ids) \<Rightarrow> release_devices a accel_ids ls | None \<Rightarrow> Inl RuntimeError)"

subsection \<open>The effect on every lock\<close>

lemma rmap_device_index:
  "list_all (\<lambda>i. 0 \<le> i \<and> i < int n) ids \<Longrightarrow> rmap (device_index n) ids = Inr (map nat ids)"
  by (rule rmap_all_Inr) (auto simp: device_index_def list_all_iff)

lemma acquire_each_nth:
  assumes "distinct ps" "set ps \<subseteq> {0..<length ls}"
  shows "length (fst (acquire_each t a ps ls)) = length ls
    \<and> (\<forall>q<length ls. fst (acquire_each t a ps ls) ! q = (if q \<in> set ps then fst (lock_acquire t a (ls ! q)) else ls ! q))
    \<and> snd (acquire_each t a ps ls) = map (\<lambda>p. snd (lock_acquire t a (ls ! p))) ps"
  using assms
proof (induction ps arbitrary: ls)
  case (Cons p ps)
  let ?ls = "ls[p := fst (lock_acquire t a (ls ! p))]"
  have "length (fst (acquire_each t a ps ?ls)) = length ?ls
    \<and> (\<forall>q<length ?ls. fst (acquire_each t a ps ?ls) ! q = (if q \<in> set ps then fst (lock_acquire t a (?ls ! q)) else ?ls ! q))
    \<and> snd (acquire_each t a ps ?ls) = map (\<lambda>p. snd (lock_acquire t a (?ls ! p))) ps"
    using Cons.prems by (intro Cons.IH) auto
  with Cons.prems show ?case by (auto simp: case_prod_unfold Let_def nth_list_update)
qed simp

lemma release_each_nth:
  assumes "distinct ps" "set ps \<subseteq> {0..<length ls}"
  shows "length (fst (release_each a ps ls)) = length ls
    \<and> (\<forall>q<length ls. fst (release_each a ps ls) ! q = (if q \<in> set ps then fst (lock_release a (ls ! q)) else ls ! q))
    \<and> snd (release_each a ps ls) = map (\<lambda>p. snd (lock_release a (ls ! p))) ps"
  using assms
proof (induction ps arbitrary: ls)
  case (Cons p ps)
  let ?ls = "ls[p := fst (lock_release a (ls ! p))]"
  have "length (fst (release_each a ps ?ls)) = length ?ls
    \<and> (\<forall>q<length ?ls. fst (release_each a ps ?ls) ! q = (if q \<in> set ps then fst (lock_release a (?ls ! q)) else ?ls ! q))
    \<and> snd (release_each a ps ?ls) = map (\<lambda>p. snd (lock_release a (?ls ! p))) ps"
    using Cons.prems by (intro Cons.IH) auto
  with Cons.prems show ?case by (auto simp: case_prod_unfold Let_def nth_list_update)
qed simp

section \<open>Workers that share devices\<close>

text \<open>
  The workers use the locks as \<open>DeviceLock\<close> does: every worker always asks for and
  releases all of its own accelerators, waits while its \<open>acquire\<close> has not returned,
  and releases what it has acquired. \<open>devs\<close> gives the accelerators of a worker. A
  state is the list of locks and the next ticket.
\<close>

type_synonym lock_system = "device_lock list \<times> nat"

definition waiting :: "address \<Rightarrow> device_lock \<Rightarrow> bool" where
  "waiting a l \<longleftrightarrow> a \<in> requester ` set (waiters l)"

definition blocked :: "address \<Rightarrow> device_lock list \<Rightarrow> bool" where
  "blocked a ls \<longleftrightarrow> list_ex (waiting a) ls"

definition owns_all :: "(address \<Rightarrow> int list) \<Rightarrow> address \<Rightarrow> device_lock list \<Rightarrow> bool" where
  "owns_all devs a ls \<longleftrightarrow> list_all (\<lambda>i. owner (ls ! nat i) = Some a) (devs a)"

inductive enter_step :: "(address \<Rightarrow> int list) \<Rightarrow> lock_system \<Rightarrow> lock_system \<Rightarrow> bool" for devs where
  "\<not> blocked a ls \<Longrightarrow> device_lock_acquire t (Some (a, devs a)) ls = Inr (ls', bs)
    \<Longrightarrow> enter_step devs (ls, t) (ls', Suc t)"

text \<open>The steps that need no new request: a woken coroutine resumes, or an owner that waits for nothing releases.\<close>

inductive drain_step :: "(address \<Rightarrow> int list) \<Rightarrow> lock_system \<Rightarrow> lock_system \<Rightarrow> bool" for devs where
  drain_wake: "p < length ls \<Longrightarrow> w \<in> set (waiters (ls ! p)) \<Longrightarrow> fut w \<noteq> Pending
    \<Longrightarrow> drain_step devs (ls, t) (ls[p := fst (lock_resume w (ls ! p))], t)"
| drain_exit: "\<not> blocked a ls \<Longrightarrow> devs a \<noteq> [] \<Longrightarrow> owns_all devs a ls
    \<Longrightarrow> device_lock_release (Some (a, devs a)) ls = Inr (ls', Inr ())
    \<Longrightarrow> drain_step devs (ls, t) (ls', t)"

inductive system_reachable :: "(address \<Rightarrow> int list) \<Rightarrow> nat \<Rightarrow> lock_system \<Rightarrow> bool" for devs n where
  sys_start: "system_reachable devs n (replicate n new_lock, 0)"
| sys_enter: "system_reachable devs n s \<Longrightarrow> enter_step devs s s' \<Longrightarrow> system_reachable devs n s'"
| sys_drain: "system_reachable devs n s \<Longrightarrow> drain_step devs s s' \<Longrightarrow> system_reachable devs n s'"

inductive_cases enter_stepE: "enter_step devs (ls, t) s'"
inductive_cases drain_stepE: "drain_step devs (ls, t) s'"

definition valid_devs :: "(address \<Rightarrow> int list) \<Rightarrow> nat \<Rightarrow> bool" where
  "valid_devs devs n \<longleftrightarrow> (\<forall>a. distinct (devs a) \<and> set (devs a) \<subseteq> {0..<int n})"

subsection \<open>The invariant of the system\<close>

text \<open>
  Every queue is sorted by ticket; what a worker waits for is all under one ticket;
  an owner that still waits for other locks has a smaller ticket than everyone who
  waits for what it owns; and a worker either has nothing to do with any lock, or it
  owns or waits for exactly its devices.
\<close>

definition queue_inv :: "nat \<Rightarrow> device_lock \<Rightarrow> bool" where
  "queue_inv t l \<longleftrightarrow> lock_inv l \<and> sorted_wrt (<) (map ticket (waiters l))
     \<and> (\<forall>w\<in>set (waiters l). (fut w = Pending \<or> fut w = Result) \<and> ticket w < t)"

definition tickets_inv :: "device_lock list \<Rightarrow> bool" where
  "tickets_inv ls \<longleftrightarrow> (\<forall>p<length ls. \<forall>q<length ls. \<forall>w\<in>set (waiters (ls ! p)). \<forall>v\<in>set (waiters (ls ! q)).
     (requester w = requester v \<longrightarrow> ticket w = ticket v)
     \<and> (owner (ls ! q) = Some (requester w) \<longrightarrow> ticket w < ticket v))"

definition role :: "address \<Rightarrow> device_lock \<Rightarrow> bool" where
  "role a l \<longleftrightarrow> owner l = Some a \<or> waiting a l"

definition engaged_inv :: "(address \<Rightarrow> int list) \<Rightarrow> device_lock list \<Rightarrow> address \<Rightarrow> bool" where
  "engaged_inv devs ls a \<longleftrightarrow> (\<forall>p<length ls. \<not> role a (ls ! p))
     \<or> (\<forall>p<length ls. (role a (ls ! p) \<longleftrightarrow> int p \<in> set (devs a)) \<and> \<not> (owner (ls ! p) = Some a \<and> waiting a (ls ! p)))"

definition system_inv :: "(address \<Rightarrow> int list) \<Rightarrow> nat \<Rightarrow> lock_system \<Rightarrow> bool" where
  "system_inv devs n s \<longleftrightarrow> length (fst s) = n \<and> (\<forall>p<n. queue_inv (snd s) (fst s ! p)) \<and> tickets_inv (fst s)
     \<and> (\<forall>a. engaged_inv devs (fst s) a)"

lemma queue_inv_Suc: "queue_inv t l \<Longrightarrow> queue_inv (Suc t) l"
  by (auto simp: queue_inv_def)

lemma acquire_cases:
  assumes "queue_inv t l"
  obtains (own) "owner l = Some a" "fst (lock_acquire t a l) = l"
  | (take) "owner l = None" "waiters l = []" "fst (lock_acquire t a l) = l\<lparr>locked := True, owner := Some a\<rparr>"
  | (queue) "owner l \<noteq> Some a"
      "fst (lock_acquire t a l) = l\<lparr>waiters := waiters l @ [\<lparr>ticket = t, requester = a, fut = Pending\<rparr>]\<rparr>"
proof -
  have "waiters l = []" if "list_all (\<lambda>w. fut w = Cancelled) (waiters l)"
    using that assms by (cases "waiters l") (auto simp: queue_inv_def)
  then show ?thesis using assms that
    by (cases "owner l = Some a"; cases "\<not> locked l \<and> list_all (\<lambda>w. fut w = Cancelled) (waiters l)")
      (auto simp: lock_acquire_def queue_inv_def lock_inv_def)
qed

lemma queue_inv_acquire:
  assumes "queue_inv t l"
  shows "queue_inv (Suc t) (fst (lock_acquire t a l))"
proof -
  have t: "t \<notin> ticket ` set (waiters l)" using assms by (auto simp: queue_inv_def)
  then have "lock_inv (fst (lock_acquire t a l))" using assms by (simp add: queue_inv_def lock_inv_acquire)
  with assms show ?thesis
    by (cases rule: acquire_cases [OF assms, where a = a, case_names own take queue])
      (auto simp: queue_inv_def sorted_wrt_append less_Suc_eq)
qed

lemma resume_unfold:
  assumes "queue_inv t l" "w \<in> set (waiters l)" "fut w \<noteq> Pending"
  obtains ws where "waiters l = w # ws" "owner l = None"
    "fst (lock_resume w l) = l\<lparr>locked := True, owner := Some (requester w), waiters := ws\<rparr>"
proof -
  have "fut w = Result" "lock_inv l" using assms by (auto simp: queue_inv_def)
  from lock_resume_woken [OF this(2) assms(2) this(1)] show ?thesis using that by auto
qed

lemma queue_inv_resume:
  assumes "queue_inv t l" "w \<in> set (waiters l)" "fut w \<noteq> Pending"
  shows "queue_inv t (fst (lock_resume w l))"
proof -
  have "lock_inv (fst (lock_resume w l))" using assms by (simp add: queue_inv_def lock_inv_resume)
  then show ?thesis using assms(1) by (rule_tac resume_unfold [OF assms]) (auto simp: queue_inv_def)
qed

lemma release_unfold:
  assumes "lock_inv l" "owner l = Some a"
  shows "lock_release a l = (wake_up_first (l\<lparr>locked := False, owner := None\<rparr>), Inr ())"
  using assms by (auto simp: lock_release_def lock_inv_def)

lemma wake_waiters:
  "v \<in> set (waiters (wake_up_first l)) \<Longrightarrow>
   \<exists>w\<in>set (waiters l). ticket w = ticket v \<and> requester w = requester v \<and> (fut v = fut w \<or> fut v = Result)"
  by (cases "waiters l") (auto simp: wake_up_first_def split: if_splits)

lemma waiting_wake [simp]: "waiting a (wake_up_first l) = waiting a l"
  unfolding waiting_def set_map [symmetric] by simp

lemma queue_inv_release:
  assumes "queue_inv t l" "owner l = Some a"
  shows "queue_inv t (fst (lock_release a l))"
proof -
  have l: "lock_inv l" using assms(1) by (simp add: queue_inv_def)
  have "lock_inv (fst (lock_release a l))" using l by (rule lock_inv_release)
  with release_unfold [OF l assms(2)] assms(1) show ?thesis
    by (fastforce simp: queue_inv_def dest: wake_waiters)
qed

lemma waiting_not_blocked: "\<not> blocked a ls \<Longrightarrow> p < length ls \<Longrightarrow> \<not> waiting a (ls ! p)"
  by (auto simp: blocked_def list_ex_iff)

lemma system_inv_start: "system_inv devs n (replicate n new_lock, 0)"
  by (simp add: system_inv_def queue_inv_def tickets_inv_def engaged_inv_def role_def waiting_def)
    (simp add: new_lock_def)

lemma acquire_waiters:
  assumes "queue_inv t l"
  shows "w \<in> set (waiters (fst (lock_acquire t a l))) \<Longrightarrow> w \<in> set (waiters l) \<or> (ticket w = t \<and> requester w = a \<and> owner l \<noteq> Some a)"
    and "owner (fst (lock_acquire t a l)) = Some b \<Longrightarrow> owner l = Some b \<or> (b = a \<and> waiters (fst (lock_acquire t a l)) = [])"
  by (rule acquire_cases [OF assms, of a]; auto)+

lemma acquire_role:
  assumes "queue_inv t l" "\<not> waiting a l"
  shows "role b (fst (lock_acquire t a l)) \<longleftrightarrow> role b l \<or> b = a"
    "owner (fst (lock_acquire t a l)) = Some b \<and> waiting b (fst (lock_acquire t a l)) \<Longrightarrow> owner l = Some b \<and> waiting b l"
  by (rule acquire_cases [OF assms(1), of a]; use assms(2) in \<open>auto simp: role_def waiting_def\<close>)+

lemma valid_devs_positions:
  assumes "valid_devs devs n" "length ls = n"
  shows "rmap (device_index (length ls)) (devs a) = Inr (map nat (devs a))"
    "distinct (map nat (devs a))" "set (map nat (devs a)) \<subseteq> {0..<length ls}"
    "int p \<in> set (devs a) \<longleftrightarrow> p \<in> set (map nat (devs a))"
proof -
  from assms have d: "distinct (devs a)" and i: "\<And>i. i \<in> set (devs a) \<Longrightarrow> 0 \<le> i \<and> i < int (length ls)"
    by (auto simp: valid_devs_def) (meson atLeastLessThan_iff subset_iff)+
  show "rmap (device_index (length ls)) (devs a) = Inr (map nat (devs a))"
    by (rule rmap_device_index) (use i in \<open>simp add: list_all_iff\<close>)
  have "inj_on nat (set (devs a))" using i by (simp add: inj_on_def eq_nat_nat_iff)
  with d show "distinct (map nat (devs a))" by (simp add: distinct_map)
  show "set (map nat (devs a)) \<subseteq> {0..<length ls}" using i by force
  show "int p \<in> set (devs a) \<longleftrightarrow> p \<in> set (map nat (devs a))" using i by force
qed

lemma system_inv_enter:
  assumes s: "system_inv devs n (ls, t)" and d: "valid_devs devs n" and e: "enter_step devs (ls, t) s'"
  shows "system_inv devs n s'"
proof -
  from s have len: "length ls = n" and qi: "\<And>p. p < n \<Longrightarrow> queue_inv t (ls ! p)" and ti: "tickets_inv ls"
    and ei: "\<And>a. engaged_inv devs ls a" by (auto simp: system_inv_def)
  from e obtain a ls' bs where a: "\<not> blocked a ls" "acquire_devices t a (devs a) ls = Inr (ls', bs)" "s' = (ls', Suc t)"
    by (auto elim!: enter_stepE simp: device_lock_acquire_def)
  let ?P = "set (map nat (devs a))"
  note pos = valid_devs_positions [OF d len]
  have P: "int p \<in> set (devs a) \<longleftrightarrow> p \<in> ?P" for p by (rule pos(4))
  have "ls' = fst (acquire_each t a (map nat (devs a)) ls)" using a(2) pos(1) by (simp add: acquire_devices_def)
  then have len': "length ls' = n" and nth: "\<And>q. q < n \<Longrightarrow> ls' ! q = (if q \<in> ?P then fst (lock_acquire t a (ls ! q)) else ls ! q)"
    using acquire_each_nth [OF pos(2,3), of t a] len by auto
  note nw = waiting_not_blocked [OF a(1), unfolded len]
  have q': "queue_inv (Suc t) (ls' ! p)" if "p < n" for p
    using qi [OF that] by (simp add: nth [OF that] queue_inv_acquire queue_inv_Suc)
  have W: "w \<in> set (waiters (ls ! p)) \<or> (ticket w = t \<and> requester w = a \<and> owner (ls ! p) \<noteq> Some a \<and> p \<in> ?P)"
    if "p < n" "w \<in> set (waiters (ls' ! p))" for p w
    using that nth [OF that(1)] acquire_waiters(1) [OF qi [OF that(1)], of w a] by (auto split: if_splits)
  have O: "owner (ls ! p) = Some b \<or> waiters (ls' ! p) = []" if "p < n" "owner (ls' ! p) = Some b" for p b
    using that nth [OF that(1)] acquire_waiters(2) [OF qi [OF that(1)], of a b] by (auto split: if_splits)
  have owns: "owner (ls ! p) = Some a" if "p < n" "p \<in> ?P" "q < n" "owner (ls ! q) = Some a" for p q
    using ei [of a] that P nw [OF that(1)] len unfolding engaged_inv_def role_def by blast
  have "tickets_inv ls'"
    unfolding tickets_inv_def len'
  proof (intro allI ballI impI conjI)
    fix p q w v assume pq: "p < n" "q < n" and w: "w \<in> set (waiters (ls' ! p))" and v: "v \<in> set (waiters (ls' ! q))"
    have old: "w \<in> set (waiters (ls ! p)) \<Longrightarrow> v \<in> set (waiters (ls ! q)) \<Longrightarrow>
      (requester w = requester v \<longrightarrow> ticket w = ticket v) \<and> (owner (ls ! q) = Some (requester w) \<longrightarrow> ticket w < ticket v)"
      using ti pq len unfolding tickets_inv_def by blast
    have na: "w \<in> set (waiters (ls ! p)) \<Longrightarrow> requester w \<noteq> a" "v \<in> set (waiters (ls ! q)) \<Longrightarrow> requester v \<noteq> a"
      using nw pq by (auto simp: waiting_def)
    note Ww = W [OF pq(1) w] and Wv = W [OF pq(2) v]
    show "ticket w = ticket v" if "requester w = requester v"
      using that Ww Wv old na by auto
    assume o: "owner (ls' ! q) = Some (requester w)"
    then have o: "owner (ls ! q) = Some (requester w)" using O [OF pq(2) o] v by auto
    from Ww show "ticket w < ticket v"
    proof
      assume "w \<in> set (waiters (ls ! p))"
      moreover from this have "ticket w < t" using qi [OF pq(1)] by (auto simp: queue_inv_def)
      ultimately show ?thesis using Wv old o by auto
    next
      assume "ticket w = t \<and> requester w = a \<and> owner (ls ! p) \<noteq> Some a \<and> p \<in> ?P"
      then show ?thesis using owns [OF pq(1) _ pq(2)] o by auto
    qed
  qed
  moreover have "engaged_inv devs ls' b" for b
  proof -
    have R: "role b (ls' ! p) \<longleftrightarrow> role b (ls ! p) \<or> (b = a \<and> p \<in> ?P)"
      "owner (ls' ! p) = Some b \<and> waiting b (ls' ! p) \<Longrightarrow> owner (ls ! p) = Some b \<and> waiting b (ls ! p)" if "p < n" for p
      using acquire_role [OF qi [OF that] nw [OF that], of b] nth [OF that] by (auto split: if_splits)
    from ei [of b] consider "\<And>p. p < n \<Longrightarrow> \<not> role b (ls ! p)"
      | "\<And>p. p < n \<Longrightarrow> (role b (ls ! p) \<longleftrightarrow> int p \<in> set (devs b)) \<and> \<not> (owner (ls ! p) = Some b \<and> waiting b (ls ! p))"
      unfolding engaged_inv_def len by blast
    then show ?thesis
    proof cases
      case 1
      then have "\<not> (owner (ls ! p) = Some b \<and> waiting b (ls ! p))" if "p < n" for p using that by (auto simp: role_def)
      with 1 R P show ?thesis unfolding engaged_inv_def len' by blast
    next
      case 2
      with R P show ?thesis unfolding engaged_inv_def len' by blast
    qed
  qed
  ultimately show ?thesis using q' len' by (simp add: system_inv_def a(3))
qed

lemma tickets_inv_mono:
  assumes "tickets_inv ls" "length ls' = length ls"
    and "\<And>p w. p < length ls \<Longrightarrow> w \<in> set (waiters (ls' ! p)) \<Longrightarrow>
      \<exists>v\<in>set (waiters (ls ! p)). ticket v = ticket w \<and> requester v = requester w"
    and "\<And>p q w v. p < length ls \<Longrightarrow> q < length ls \<Longrightarrow> w \<in> set (waiters (ls' ! p)) \<Longrightarrow> v \<in> set (waiters (ls' ! q))
      \<Longrightarrow> owner (ls' ! q) = Some (requester w) \<Longrightarrow> owner (ls ! q) = Some (requester w) \<or> ticket w < ticket v"
  shows "tickets_inv ls'"
  unfolding tickets_inv_def
proof (intro allI ballI impI conjI)
  fix p q w v assume pq: "p < length ls'" "q < length ls'" and w: "w \<in> set (waiters (ls' ! p))" and v: "v \<in> set (waiters (ls' ! q))"
  from pq have pq: "p < length ls" "q < length ls" using assms(2) by auto
  from assms(3) [OF pq(1) w] obtain w0 where w0: "w0 \<in> set (waiters (ls ! p))" "ticket w0 = ticket w" "requester w0 = requester w" by blast
  from assms(3) [OF pq(2) v] obtain v0 where v0: "v0 \<in> set (waiters (ls ! q))" "ticket v0 = ticket v" "requester v0 = requester v" by blast
  have old: "(requester w0 = requester v0 \<longrightarrow> ticket w0 = ticket v0) \<and> (owner (ls ! q) = Some (requester w0) \<longrightarrow> ticket w0 < ticket v0)"
    using assms(1) pq w0(1) v0(1) unfolding tickets_inv_def by blast
  show "ticket w = ticket v" if "requester w = requester v" using that old w0(2,3) v0(2,3) by simp
  show "ticket w < ticket v" if "owner (ls' ! q) = Some (requester w)"
    using assms(4) [OF pq w v that] old w0(2,3) v0(2) by auto
qed

lemma system_inv_wake:
  assumes s: "system_inv devs n (ls, t)" and p: "p < length ls" "w \<in> set (waiters (ls ! p))" "fut w \<noteq> Pending"
  shows "system_inv devs n (ls[p := fst (lock_resume w (ls ! p))], t)"
proof -
  from s have len: "length ls = n" and qi: "\<And>p. p < n \<Longrightarrow> queue_inv t (ls ! p)" and ti: "tickets_inv ls"
    and ei: "\<And>a. engaged_inv devs ls a" by (auto simp: system_inv_def)
  let ?l = "fst (lock_resume w (ls ! p))"
  from p(1) len have q: "queue_inv t (ls ! p)" using qi by simp
  obtain ws where ws: "waiters (ls ! p) = w # ws" "owner (ls ! p) = None" "waiters ?l = ws" "owner ?l = Some (requester w)"
    by (rule resume_unfold [OF q p(2,3)]) simp
  have nth: "ls[p := ?l] ! q = (if q = p then ?l else ls ! q)" if "q < n" for q
    using that len by (simp add: nth_list_update)
  have later: "ticket w < ticket v" if "v \<in> set ws" for v using q ws(1) that by (auto simp: queue_inv_def)
  have same: "requester x = requester v \<Longrightarrow> ticket x = ticket v"
    if "q < n" "x \<in> set (waiters (ls ! q))" "v \<in> set (waiters (ls ! p))" for q x v
    using ti p(1) that len unfolding tickets_inv_def by blast
  have "tickets_inv (ls[p := ?l])"
  proof (rule tickets_inv_mono [OF ti])
    fix q x assume "q < length ls" "x \<in> set (waiters (ls[p := ?l] ! q))"
    then show "\<exists>v\<in>set (waiters (ls ! q)). ticket v = ticket x \<and> requester v = requester x"
      using nth ws len by (auto split: if_splits)
  next
    fix q r x v assume h: "q < length ls" "r < length ls" "x \<in> set (waiters (ls[p := ?l] ! q))"
      "v \<in> set (waiters (ls[p := ?l] ! r))" "owner (ls[p := ?l] ! r) = Some (requester x)"
    show "owner (ls ! r) = Some (requester x) \<or> ticket x < ticket v"
    proof (cases "r = p")
      case True
      then have "v \<in> set ws" "requester x = requester w" using h(4,5) nth ws len h(2) by auto
      moreover have "x \<in> set (waiters (ls ! q))" using h(1,3) nth ws len by (auto split: if_splits)
      ultimately show ?thesis using same [of q x w] h(1) len p(2) later by auto
    qed (use h nth len in auto)
  qed simp
  moreover have "engaged_inv devs (ls[p := ?l]) a" for a
  proof -
    have R: "role a ?l \<longleftrightarrow> role a (ls ! p)" using ws by (auto simp: role_def waiting_def)
    have X: "\<not> (owner ?l = Some a \<and> waiting a ?l)"
    proof
      assume "owner ?l = Some a \<and> waiting a ?l"
      then obtain v where v: "v \<in> set ws" "requester v = requester w" using ws by (auto simp: waiting_def)
      then have "ticket w = ticket v" using same [of p w v] ws(1) p(1,2) len by auto
      with later [OF v(1)] show False by simp
    qed
    have "role a (ls[p := ?l] ! q) \<longleftrightarrow> role a (ls ! q)"
      "owner (ls[p := ?l] ! q) = Some a \<and> waiting a (ls[p := ?l] ! q) \<Longrightarrow> owner (ls ! q) = Some a \<and> waiting a (ls ! q)" if "q < n" for q
      using R X nth [OF that] by (auto split: if_splits)
    then show ?thesis using ei [of a] unfolding engaged_inv_def length_list_update len by blast
  qed
  moreover have "queue_inv t (ls[p := ?l] ! q)" if "q < n" for q
    using nth [OF that] qi [OF that] queue_inv_resume [OF q p(2,3)] by auto
  ultimately show ?thesis using len by (simp add: system_inv_def)
qed

lemma release_owned:
  assumes s: "system_inv devs n (ls, t)" and d: "valid_devs devs n" and o: "owns_all devs a ls"
    and r: "device_lock_release (Some (a, devs a)) ls = Inr (ls', r)"
  shows "length ls' = n \<and> r = Inr () \<and> (\<forall>q<n. ls' ! q = (if int q \<in> set (devs a) then fst (lock_release a (ls ! q)) else ls ! q))"
proof -
  from s have len: "length ls = n" and qi: "\<And>p. p < n \<Longrightarrow> queue_inv t (ls ! p)" by (auto simp: system_inv_def)
  note pos = valid_devs_positions [OF d len]
  from r pos(1) have "ls' = fst (release_each a (map nat (devs a)) ls)" "r = gather_result (snd (release_each a (map nat (devs a)) ls))"
    by (auto simp: device_lock_release_def release_devices_def case_prod_unfold Let_def)
  moreover note release_each_nth [OF pos(2,3), of a]
  moreover have "snd (lock_release a (ls ! p)) = Inr ()" if "p \<in> set (map nat (devs a))" for p
  proof -
    have "p < n" using subsetD [OF pos(3) that] len by simp
    moreover have "owner (ls ! p) = Some a" using o that by (auto simp: owns_all_def list_all_iff)
    ultimately show ?thesis using release_unfold [of "ls ! p" a] qi by (simp add: queue_inv_def)
  qed
  then have "gather_result (map (\<lambda>p. snd (lock_release a (ls ! p))) (map nat (devs a))) = Inr ()"
    by (auto simp: gather_result_def find_None_iff split: option.split dest!: find_Some_iff [THEN iffD1])
  ultimately show ?thesis using len pos(4) by auto
qed

lemma release_waiters:
  assumes "queue_inv t l" "owner l = Some a"
  shows "v \<in> set (waiters (fst (lock_release a l))) \<Longrightarrow> \<exists>w\<in>set (waiters l). ticket w = ticket v \<and> requester w = requester v"
    "owner (fst (lock_release a l)) = None" "waiting b (fst (lock_release a l)) = waiting b l"
proof -
  have l: "lock_inv l" using assms(1) by (simp add: queue_inv_def)
  show "v \<in> set (waiters (fst (lock_release a l))) \<Longrightarrow> \<exists>w\<in>set (waiters l). ticket w = ticket v \<and> requester w = requester v"
    using wake_waiters [of v "l\<lparr>locked := False, owner := None\<rparr>"] by (auto simp: release_unfold [OF l assms(2)])
  show "owner (fst (lock_release a l)) = None" "waiting b (fst (lock_release a l)) = waiting b l"
    by (simp_all add: release_unfold [OF l assms(2)] waiting_def [of b "l\<lparr>locked := False, owner := None\<rparr>"] waiting_def [of b l])
qed

lemma system_inv_exit:
  assumes s: "system_inv devs n (ls, t)" and d: "valid_devs devs n" and a: "\<not> blocked a ls" "owns_all devs a ls"
    and r: "device_lock_release (Some (a, devs a)) ls = Inr (ls', Inr ())"
  shows "system_inv devs n (ls', t)"
proof -
  from s have len: "length ls = n" and qi: "\<And>p. p < n \<Longrightarrow> queue_inv t (ls ! p)" and ti: "tickets_inv ls"
    and ei: "\<And>a. engaged_inv devs ls a" by (auto simp: system_inv_def)
  from release_owned [OF s d a(2) r] have len': "length ls' = n"
    and nth: "\<And>q. q < n \<Longrightarrow> ls' ! q = (if int q \<in> set (devs a) then fst (lock_release a (ls ! q)) else ls ! q)" by auto
  have own: "owner (ls ! q) = Some a" if "q < n" "int q \<in> set (devs a)" for q
    using a(2) that by (auto simp: owns_all_def list_all_iff dest: bspec [of _ _ "int q"])
  note nw = waiting_not_blocked [OF a(1), unfolded len]
  have F: "v \<in> set (waiters (ls' ! q)) \<Longrightarrow> \<exists>w\<in>set (waiters (ls ! q)). ticket w = ticket v \<and> requester w = requester v"
    "owner (ls' ! q) = (if int q \<in> set (devs a) then None else owner (ls ! q))" "waiting b (ls' ! q) = waiting b (ls ! q)"
    if "q < n" for q v b
    using release_waiters [OF qi [OF that] own [OF that]] nth [OF that] by (cases "int q \<in> set (devs a)"; auto)+
  have "tickets_inv ls'"
    by (rule tickets_inv_mono [OF ti]) (use F len len' in \<open>auto split: if_splits\<close>)
  moreover have "queue_inv t (ls' ! q)" if "q < n" for q
    using nth [OF that] qi [OF that] queue_inv_release [OF qi [OF that] own [OF that]] by auto
  moreover have "engaged_inv devs ls' b" for b
  proof (cases "b = a")
    case True
    have "\<not> role a (ls' ! q)" if "q < n" for q
    proof (cases "int q \<in> set (devs a)")
      case False
      have "\<not> role a (ls ! q)"
      proof
        assume "role a (ls ! q)"
        then show False using ei [of a] that False unfolding engaged_inv_def len by blast
      qed
      then show ?thesis using F(2,3) [OF that] False by (auto simp: role_def)
    qed (use F(2,3) [OF that] nw [OF that] in \<open>auto simp: role_def\<close>)
    then show ?thesis using True unfolding engaged_inv_def len' by blast
  next
    case False
    have "owner (ls' ! q) = Some b \<longleftrightarrow> owner (ls ! q) = Some b" "waiting b (ls' ! q) = waiting b (ls ! q)" if "q < n" for q
      using F(2,3) [OF that] own [OF that] False by auto
    then show ?thesis using ei [of b] unfolding engaged_inv_def len' len role_def by auto
  qed
  ultimately show ?thesis using len' by (simp add: system_inv_def)
qed

lemma system_inv_drain:
  assumes "system_inv devs n (ls, t)" "valid_devs devs n" "drain_step devs (ls, t) s'"
  shows "system_inv devs n s'"
  using assms(3) by (rule drain_stepE) (use assms(1,2) in \<open>auto intro: system_inv_wake system_inv_exit\<close>)

lemma system_inv_reachable:
  assumes "valid_devs devs n"
  shows "system_reachable devs n s \<Longrightarrow> system_inv devs n s"
proof (induction rule: system_reachable.induct)
  case sys_start
  show ?case by (rule system_inv_start)
next
  case (sys_enter s s')
  then show ?case using system_inv_enter assms by (cases s) blast
next
  case (sys_drain s s')
  then show ?case using system_inv_drain assms by (cases s) blast
qed

lemma blocked_iff: "blocked a ls \<longleftrightarrow> (\<exists>p<length ls. \<exists>w\<in>set (waiters (ls ! p)). requester w = a)"
proof
  assume "blocked a ls"
  then obtain l where "l \<in> set ls" "waiting a l" by (auto simp: blocked_def list_ex_iff)
  then show "\<exists>p<length ls. \<exists>w\<in>set (waiters (ls ! p)). requester w = a" by (auto simp: in_set_conv_nth [of l] waiting_def)
next
  assume "\<exists>p<length ls. \<exists>w\<in>set (waiters (ls ! p)). requester w = a"
  then show "blocked a ls" by (auto simp: blocked_def list_ex_iff waiting_def intro!: bexI [where P = "\<lambda>l. a \<in> requester ` set (waiters l)"])
qed

text \<open>What is left to do, as a number: each waiter has to become an owner, and each owner to leave.\<close>

definition lock_work :: "device_lock \<Rightarrow> nat" where
  "lock_work l = 2 * length (waiters l) + (if owner l = None then 0 else 1)"

definition pending_work :: "device_lock list \<Rightarrow> nat" where
  "pending_work ls = (\<Sum>p<length ls. lock_work (ls ! p))"

lemma pending_work_less:
  assumes "length ls' = length ls" "p < length ls"
    and "\<And>q. q < length ls \<Longrightarrow> lock_work (ls' ! q) \<le> lock_work (ls ! q)"
    and "lock_work (ls' ! p) < lock_work (ls ! p)"
  shows "pending_work ls' < pending_work ls"
  unfolding pending_work_def assms(1)
  by (rule sum_strict_mono_ex1) (use assms(2-4) in blast)+

lemma wake_less:
  assumes "system_inv devs n (ls, t)" "p < length ls" "w \<in> set (waiters (ls ! p))" "fut w \<noteq> Pending"
  shows "pending_work (ls[p := fst (lock_resume w (ls ! p))]) < pending_work ls"
    "role a (ls[p := fst (lock_resume w (ls ! p))] ! q) \<longleftrightarrow> role a (ls ! q)"
proof -
  have q: "queue_inv t (ls ! p)" using assms(1,2) by (auto simp: system_inv_def)
  obtain ws where ws: "waiters (ls ! p) = w # ws" "owner (ls ! p) = None"
    "waiters (fst (lock_resume w (ls ! p))) = ws" "owner (fst (lock_resume w (ls ! p))) = Some (requester w)"
    by (rule resume_unfold [OF q assms(3,4)]) simp
  show "pending_work (ls[p := fst (lock_resume w (ls ! p))]) < pending_work ls"
    by (rule pending_work_less [where p = p]) (use ws assms(2) in \<open>auto simp: nth_list_update lock_work_def\<close>)
  show "role a (ls[p := fst (lock_resume w (ls ! p))] ! q) \<longleftrightarrow> role a (ls ! q)"
    using ws assms(2) by (auto simp: nth_list_update role_def waiting_def)
qed

lemma exit_less:
  assumes s: "system_inv devs n (ls, t)" and d: "valid_devs devs n" and o: "owns_all devs a ls" "devs a \<noteq> []"
    and r: "device_lock_release (Some (a, devs a)) ls = Inr (ls', r)"
  shows "pending_work ls' < pending_work ls" "q < n \<Longrightarrow> b \<noteq> a \<Longrightarrow> role b (ls' ! q) \<longleftrightarrow> role b (ls ! q)"
proof -
  from s have len: "length ls = n" and qi: "\<And>p. p < n \<Longrightarrow> queue_inv t (ls ! p)" by (auto simp: system_inv_def)
  from release_owned [OF s d o(1) r] have len': "length ls' = n"
    and nth: "\<And>q. q < n \<Longrightarrow> ls' ! q = (if int q \<in> set (devs a) then fst (lock_release a (ls ! q)) else ls ! q)" by auto
  have own: "owner (ls ! q) = Some a" if "q < n" "int q \<in> set (devs a)" for q
    using o(1) that by (auto simp: owns_all_def list_all_iff dest: bspec [of _ _ "int q"])
  have L: "length (waiters (fst (lock_release a (ls ! q)))) = length (waiters (ls ! q))"
    "owner (fst (lock_release a (ls ! q))) = None" if "q < n" "int q \<in> set (devs a)" for q
  proof -
    have l: "lock_inv (ls ! q)" using qi [OF that(1)] by (simp add: queue_inv_def)
    show "owner (fst (lock_release a (ls ! q))) = None" by (simp add: release_unfold [OF l own [OF that]])
    show "length (waiters (fst (lock_release a (ls ! q)))) = length (waiters (ls ! q))"
      unfolding release_unfold [OF l own [OF that]] length_map [of ticket, symmetric] by simp
  qed
  obtain p where p: "p < n" "int p \<in> set (devs a)"
    using o(2) valid_devs_positions(3) [OF d len, of a] valid_devs_positions(4) [OF d len, of _ a] len
    by (metis atLeastLessThan_iff list.set_intros(1) list.set_sel(1) map_is_Nil_conv subsetD)
  show "pending_work ls' < pending_work ls"
  proof (rule pending_work_less [where p = p])
    fix q assume "q < length ls"
    then show "lock_work (ls' ! q) \<le> lock_work (ls ! q)"
      using nth L len by (cases "int q \<in> set (devs a)") (auto simp: lock_work_def)
  qed (use nth L own p len len' in \<open>auto simp: lock_work_def\<close>)
  show "role b (ls' ! q) \<longleftrightarrow> role b (ls ! q)" if "q < n" "b \<noteq> a"
    using nth [OF that(1)] own [OF that(1)] release_waiters(2,3) [OF qi [OF that(1)] own [OF that(1)]] that(2)
    by (auto simp: role_def)
qed

lemma drain_less:
  assumes "system_inv devs n (ls, t)" "valid_devs devs n" "drain_step devs (ls, t) (ls', t')"
  shows "pending_work ls' < pending_work ls"
  using assms(3) by (rule drain_stepE) (use wake_less(1) [OF assms(1)] exit_less(1) [OF assms(1,2)] in auto)

lemma drain_role:
  assumes "system_inv devs n (ls, t)" "valid_devs devs n" "drain_step devs (ls, t) (ls', t')" "blocked a ls" "q < n"
  shows "role a (ls' ! q) \<longleftrightarrow> role a (ls ! q)"
  using assms(3)
proof (rule drain_stepE)
  fix p w assume "(ls', t') = (ls[p := fst (lock_resume w (ls ! p))], t)"
    "p < length ls" "w \<in> set (waiters (ls ! p))" "fut w \<noteq> Pending"
  then show ?thesis using wake_less(2) [OF assms(1)] by simp
next
  fix b ls'' assume "(ls', t') = (ls'', t)" "\<not> blocked b ls" "devs b \<noteq> []" "owns_all devs b ls"
    "device_lock_release (Some (b, devs b)) ls = Inr (ls'', Inr ())"
  then show ?thesis using exit_less(2) [OF assms(1,2) _ _ _ assms(5), of b ls'' "Inr ()" a] assms(4) by auto
qed

text \<open>A worker with a role that is not blocked owns all of its devices.\<close>

lemma unblocked_owns:
  assumes "system_inv devs n (ls, t)" "valid_devs devs n" "\<not> blocked a ls" "p < n" "role a (ls ! p)"
  shows "owns_all devs a ls"
proof -
  from assms(1) have len: "length ls = n" and ei: "engaged_inv devs ls a" by (auto simp: system_inv_def)
  have "owner (ls ! nat i) = Some a" if "i \<in> set (devs a)" for i
  proof -
    have "0 \<le> i" "nat i < n" using assms(2) that by (auto simp: valid_devs_def subset_iff) (metis atLeastLessThan_iff nat_less_iff)
    then have "role a (ls ! nat i)" using ei assms(4,5) that unfolding engaged_inv_def len
      by (metis int_nat_eq)
    then show ?thesis using waiting_not_blocked [OF assms(3)] \<open>nat i < n\<close> len by (auto simp: role_def)
  qed
  then show ?thesis by (simp add: owns_all_def list_all_iff)
qed

lemma drain_progress:
  assumes s: "system_inv devs n (ls, t)" and d: "valid_devs devs n" and b: "blocked a ls"
  shows "\<exists>ls'. drain_step devs (ls, t) (ls', t)"
proof -
  from s have len: "length ls = n" and qi: "\<And>p. p < n \<Longrightarrow> queue_inv t (ls ! p)" and ti: "tickets_inv ls" by (auto simp: system_inv_def)
  let ?W = "\<lambda>(p, w). p < n \<and> w \<in> set (waiters (ls ! p))"
  from b obtain p0 w0 where "?W (p0, w0)" using len by (auto simp: blocked_iff)
  then obtain x where x: "?W x" "\<forall>y. ?W y \<longrightarrow> ticket (snd x) \<le> ticket (snd y)"
    using ex_has_least_nat [of ?W "(p0, w0)" "\<lambda>x. ticket (snd x)"] by blast
  obtain p w where pw: "x = (p, w)" by (cases x)
  with x have p: "p < n" "w \<in> set (waiters (ls ! p))" by auto
  have min: "ticket w \<le> ticket v" if "q < n" "v \<in> set (waiters (ls ! q))" for q v
    using x(2) that unfolding pw by fastforce
  show ?thesis
  proof (cases "owner (ls ! p)")
    case None
    then have nl: "\<not> locked (ls ! p)" using qi [OF p(1)] by (simp add: queue_inv_def lock_inv_def)
    obtain v vs where v: "waiters (ls ! p) = v # vs" using p(2) by (cases "waiters (ls ! p)") auto
    with nl have "fut v \<noteq> Pending" using qi [OF p(1)] by (auto simp: queue_inv_def lock_inv_def)
    with v p(1) len show ?thesis using drain_wake [of p ls v devs t] by auto
  next
    case (Some c)
    have c: "\<not> blocked c ls"
    proof
      assume "blocked c ls"
      then obtain q v where v: "q < n" "v \<in> set (waiters (ls ! q))" "requester v = c"
        using len by (auto simp: blocked_iff)
      then have "ticket v < ticket w" using ti p Some len unfolding tickets_inv_def by blast
      with min [OF v(1,2)] show False by simp
    qed
    have o: "owns_all devs c ls" by (rule unblocked_owns [OF s d c p(1)]) (simp add: role_def Some)
    have "engaged_inv devs ls c" using s by (simp add: system_inv_def)
    then have "int p \<in> set (devs c)" using p(1) Some len unfolding engaged_inv_def role_def by blast
    then have ne: "devs c \<noteq> []" by auto
    obtain ls' r where r: "device_lock_release (Some (c, devs c)) ls = Inr (ls', r)"
      using valid_devs_positions(1) [OF d len, of c] by (simp add: device_lock_release_def release_devices_def case_prod_unfold Let_def)
    with release_owned [OF s d o r] have "device_lock_release (Some (c, devs c)) ls = Inr (ls', Inr ())" by simp
    with c ne o show ?thesis by (blast intro: drain_exit)
  qed
qed

lemma drain_serves:
  assumes "valid_devs devs n" "system_inv devs n (ls, t)" "blocked a ls"
  shows "\<exists>ls'. (drain_step devs)\<^sup>*\<^sup>* (ls, t) (ls', t) \<and> \<not> blocked a ls' \<and> owns_all devs a ls'"
  using assms(2,3)
proof (induction "pending_work ls" arbitrary: ls rule: less_induct)
  case less
  from drain_progress [OF less.prems(1) assms(1) less.prems(2)] obtain ls1 where st: "drain_step devs (ls, t) (ls1, t)" by blast
  have inv: "system_inv devs n (ls1, t)" by (rule system_inv_drain [OF less.prems(1) assms(1) st])
  have dec: "pending_work ls1 < pending_work ls" by (rule drain_less [OF less.prems(1) assms(1) st])
  from less.prems obtain p where p: "p < n" "role a (ls ! p)"
    by (auto simp: blocked_iff role_def waiting_def system_inv_def)
  then have "role a (ls1 ! p)" using drain_role [OF less.prems(1) assms(1) st less.prems(2)] by simp
  then show ?case
    using less.hyps [OF dec inv] unblocked_owns [OF inv assms(1) _ p(1)] st
    by (cases "blocked a ls1") (auto intro: converse_rtranclp_into_rtranclp)
qed

text \<open>
  C26. Deadlock freedom and service. Take workers that use any sets of devices,
  overlapping in any way and listed in any order, in any reachable state in which
  some worker waits. Without any new request, some coroutine can resume or some owner
  that waits for nothing can release; every such step leaves less to do, so these
  steps come to an end, and that is when nobody waits; and they can lead to a state
  in which the waiting worker owns all of its devices.
\<close>

theorem waiters_served:
  assumes "valid_devs devs n" "system_reachable devs n (ls, t)" "blocked a ls"
  shows "(\<exists>ls'. drain_step devs (ls, t) (ls', t))
    \<and> (\<forall>ls' t'. drain_step devs (ls, t) (ls', t') \<longrightarrow> pending_work ls' < pending_work ls)
    \<and> (\<exists>ls'. (drain_step devs)\<^sup>*\<^sup>* (ls, t) (ls', t) \<and> \<not> blocked a ls' \<and> owns_all devs a ls')"
proof -
  note inv = system_inv_reachable [OF assms(1,2)]
  show ?thesis
    using drain_progress [OF inv assms(1,3)] drain_less [OF inv assms(1)] drain_serves [OF assms(1) inv assms(3)] by blast
qed

text \<open>Three workers on two devices, two of them on both devices in opposite orders.\<close>

definition example_devs :: "address \<Rightarrow> int list" where
  "example_devs a = (if a = worker 0 then [0, 1] else if a = worker 1 then [1, 0] else if a = worker 2 then [1] else [])"

lemma valid_example: "valid_devs example_devs 2"
  by (simp add: valid_devs_def example_devs_def)

definition held :: "nat \<Rightarrow> (nat \<times> nat) list \<Rightarrow> device_lock" where
  "held i ws = \<lparr>locked = True, owner = Some (worker i),
     waiters = map (\<lambda>(t, j). \<lparr>ticket = t, requester = worker j, fut = Pending\<rparr>) ws\<rparr>"

lemma worker_eq [simp]: "worker i = worker j \<longleftrightarrow> i = j"
  by (simp add: worker_def)

lemma reach_example: "system_reachable example_devs 2 ([held 0 [(1, 1)], held 0 [(1, 1)]], 2)"
proof -
  have 0: "system_reachable example_devs 2 ([new_lock, new_lock], 0)"
    using sys_start [of example_devs 2] by (simp add: numeral_2_eq_2)
  have "system_reachable example_devs 2 ([held 0 [], held 0 []], 1)"
    by (rule sys_enter [OF 0], unfold One_nat_def, rule enter_step.intros [where a = "worker 0" and bs = "[True, True]"])
      (simp_all add: blocked_def waiting_def new_lock_def device_lock_acquire_def acquire_devices_def example_devs_def
        device_index_def py_index_def lock_acquire_def held_def)
  then have "system_reachable example_devs 2 ([held 0 [(1, 1)], held 0 [(1, 1)]], Suc 1)"
    by (rule sys_enter, intro enter_step.intros [where a = "worker 1" and bs = "[False, False]"])
      (simp_all add: blocked_def waiting_def new_lock_def device_lock_acquire_def acquire_devices_def example_devs_def
        device_index_def py_index_def lock_acquire_def held_def)
  then show ?thesis by (simp add: numeral_2_eq_2)
qed

theorem waiters_served_witness:
  "\<exists>ls'. (drain_step example_devs)\<^sup>*\<^sup>* ([held 0 [(1, 1)], held 0 [(1, 1)]], 2) (ls', 2)
     \<and> \<not> blocked (worker 1) ls' \<and> owns_all example_devs (worker 1) ls'"
proof -
  have "blocked (worker 1) [held 0 [(1, 1)], held 0 [(1, 1)]]"
    by (simp add: blocked_def waiting_def held_def)
  from waiters_served [OF valid_example reach_example this] show ?thesis by blast
qed

text \<open>
  C35. Isolation: as long as a worker takes part, it either waits or owns every one of
  its devices; two workers whose \<open>acquire\<close> has returned never share a device.
\<close>

theorem devices_exclusive:
  assumes "valid_devs devs n" "system_reachable devs n (ls, t)"
    and "p < n" "role a (ls ! p)" "\<not> blocked a ls" "q < n" "role b (ls ! q)" "\<not> blocked b ls" "a \<noteq> b"
  shows "owns_all devs a ls \<and> owns_all devs b ls \<and> set (devs a) \<inter> set (devs b) = {}"
proof -
  note inv = system_inv_reachable [OF assms(1,2)]
  have a: "owns_all devs a ls" by (rule unblocked_owns [OF inv assms(1,5,3,4)])
  have b: "owns_all devs b ls" by (rule unblocked_owns [OF inv assms(1,8,6,7)])
  with a assms(9) show ?thesis by (fastforce simp: owns_all_def list_all_iff)
qed

definition split_devs :: "address \<Rightarrow> int list" where
  "split_devs a = (if a = worker 0 then [0] else if a = worker 1 then [1] else [])"

theorem devices_exclusive_witness:
  "set (split_devs (worker 0)) \<inter> set (split_devs (worker 1)) = {}"
proof -
  have v: "valid_devs split_devs 2" by (simp add: valid_devs_def split_devs_def)
  note d = device_lock_acquire_def acquire_devices_def split_devs_def device_index_def py_index_def lock_acquire_def held_def
  have 0: "system_reachable split_devs 2 ([new_lock, new_lock], 0)"
    using sys_start [of split_devs 2] by (simp add: numeral_2_eq_2)
  have "system_reachable split_devs 2 ([held 0 [], new_lock], Suc 0)"
    by (rule sys_enter [OF 0], intro enter_step.intros [where a = "worker 0" and bs = "[True]"])
      (simp_all add: blocked_def waiting_def new_lock_def d)
  then have "system_reachable split_devs 2 ([held 0 [], held 1 []], Suc (Suc 0))"
    by (rule sys_enter, intro enter_step.intros [where a = "worker 1" and bs = "[True]"])
      (simp_all add: blocked_def waiting_def new_lock_def d)
  from devices_exclusive [OF v this, of 0 "worker 0" 1 "worker 1"]
  show ?thesis by (simp add: role_def blocked_def waiting_def held_def)
qed

end
