(* ===== verification/Port_Locks.thy ===== *)
theory Port_Locks
  imports Py_Prelude
begin

text \<open>
  The locks of network ports, \<open>PortLockManager\<close> of
  \<^verbatim>\<open>rlinf/scheduler/manager/lock_manager.py\<close> with its release daemon, and \<open>PortLock\<close>
  of \<^verbatim>\<open>rlinf/scheduler/worker/lock.py\<close>.
\<close>

section \<open>Port locks\<close>

text \<open>
  \<open>PortLockManager\<close>: the dictionary from a node rank and a port to the name of a
  worker, as an association list in the order of insertion. The release daemon holds
  the mutex for its snapshot and for its sweep, and asks in between, one worker after
  the other, who is still alive: a worker is found dead only if it is, and taken as
  alive when the query fails.
\<close>

type_synonym port_locks = "((int \<times> int) \<times> string) list"

definition port_acquire :: "int \<Rightarrow> string \<Rightarrow> int \<Rightarrow> port_locks \<Rightarrow> port_locks \<times> bool" where
  "port_acquire node_rank worker_name port locks =
     (if map_of locks (node_rank, port) \<noteq> None then (locks, False)
      else (locks @ [((node_rank, port), worker_name)], True))"

definition port_lock_acquire :: "(int \<times> string) option \<Rightarrow> int \<Rightarrow> port_locks \<Rightarrow> (port_locks \<times> bool) res" where
  "port_lock_acquire w port locks =
     (case w of Some (node_rank, name) \<Rightarrow> Inr (port_acquire node_rank name port locks) | None \<Rightarrow> Inl RuntimeError)"

definition snapshot_workers :: "port_locks \<Rightarrow> string list" where
  "snapshot_workers locks = remdups (map snd locks)"

definition sweep_dead :: "string list \<Rightarrow> port_locks \<Rightarrow> port_locks" where
  "sweep_dead dead locks = filter (\<lambda>(k, name). name \<notin> set dead) locks"

text \<open>The names the daemon has still to check, and those it has found dead.\<close>

record port_system =
  port_map :: port_locks
  alive_workers :: "string set"
  ever_started :: "string set"
  daemon :: "(string list \<times> string list) option"

inductive port_step :: "port_system \<Rightarrow> port_system \<Rightarrow> bool" where
  port_start: "name \<notin> ever_started s \<Longrightarrow>
     port_step s (s\<lparr>alive_workers := insert name (alive_workers s), ever_started := insert name (ever_started s)\<rparr>)"
| port_die: "port_step s (s\<lparr>alive_workers := alive_workers s - {name}\<rparr>)"
| port_take: "name \<in> alive_workers s \<Longrightarrow> port_lock_acquire (Some (node, name)) port (port_map s) = Inr (m, b)
     \<Longrightarrow> port_step s (s\<lparr>port_map := m\<rparr>)"
| daemon_snapshot: "daemon s = None \<Longrightarrow> port_step s (s\<lparr>daemon := Some (snapshot_workers (port_map s), [])\<rparr>)"
| daemon_dead: "daemon s = Some (name # names, dead) \<Longrightarrow> name \<notin> alive_workers s \<Longrightarrow>
     port_step s (s\<lparr>daemon := Some (names, name # dead)\<rparr>)"
| daemon_alive: "daemon s = Some (name # names, dead) \<Longrightarrow> port_step s (s\<lparr>daemon := Some (names, dead)\<rparr>)"
| daemon_sweep: "daemon s = Some ([], dead) \<Longrightarrow>
     port_step s (s\<lparr>port_map := sweep_dead dead (port_map s), daemon := None\<rparr>)"

inductive_cases port_stepE: "port_step s s'"

inductive port_reachable :: "port_system \<Rightarrow> bool" where
  port_init: "port_reachable \<lparr>port_map = [], alive_workers = {}, ever_started = {}, daemon = None\<rparr>"
| port_next: "port_reachable s \<Longrightarrow> port_step s s' \<Longrightarrow> port_reachable s'"

definition port_inv :: "port_system \<Rightarrow> bool" where
  "port_inv s \<longleftrightarrow> distinct (map fst (port_map s)) \<and> alive_workers s \<subseteq> ever_started s
     \<and> snd ` set (port_map s) \<subseteq> ever_started s
     \<and> (case daemon s of None \<Rightarrow> True
        | Some (todo, dead) \<Rightarrow> set todo \<union> set dead \<subseteq> ever_started s \<and> set dead \<inter> alive_workers s = {})"

lemma port_acquire_locks:
  "fst (port_acquire r n p m) = m \<or> map_of m (r, p) = None \<and> fst (port_acquire r n p m) = m @ [((r, p), n)]"
  by (auto simp: port_acquire_def)

lemma port_inv_step: "port_inv s \<Longrightarrow> port_step s s' \<Longrightarrow> port_inv s'"
proof (erule port_stepE)
  fix name node port m b
  assume s: "port_inv s" "s' = s\<lparr>port_map := m\<rparr>" "name \<in> alive_workers s"
    "port_lock_acquire (Some (node, name)) port (port_map s) = Inr (m, b)"
  then have "m = fst (port_acquire node name port (port_map s))" by (simp add: port_lock_acquire_def)
  moreover have "name \<in> ever_started s" using s(1,3) by (auto simp: port_inv_def)
  ultimately have "distinct (map fst m) \<and> snd ` set m \<subseteq> ever_started s"
    using s(1) port_acquire_locks [of node name port "port_map s"] by (elim disjE conjE; simp add: port_inv_def map_of_eq_None_iff)
  with s(1,2) show "port_inv s'" by (cases "daemon s") (auto simp: port_inv_def split: prod.splits)
next
  fix dead assume "port_inv s" "s' = s\<lparr>port_map := sweep_dead dead (port_map s), daemon := None\<rparr>"
  then show "port_inv s'" by (auto simp: port_inv_def sweep_dead_def distinct_map_filter)
qed (auto simp: port_inv_def snapshot_workers_def split: option.splits)

lemma port_inv_reachable: "port_reachable s \<Longrightarrow> port_inv s"
  by (induction rule: port_reachable.induct) (auto intro: port_inv_step, simp add: port_inv_def)

lemma map_of_filter_value:
  assumes "map_of m k = Some v" "P v" "distinct (map fst m)"
  shows "map_of (filter (\<lambda>(k, v). P v) m) k = Some v"
proof (rule map_of_is_SomeI)
  show "distinct (map fst (filter (\<lambda>(k, v). P v) m))" using assms(3) by (rule distinct_map_filter)
  show "(k, v) \<in> set (filter (\<lambda>(k, v). P v) m)" using map_of_SomeD [OF assms(1)] assms(2) by simp
qed

text \<open>
  Ports: when the name of a worker is not used again after the worker has died, a
  port that a worker has locked stays locked by it as long as the worker lives,
  whatever the others and the release daemon do, even if the daemon's snapshot is
  out of date when it sweeps.
\<close>

lemma port_kept:
  assumes "port_reachable s" "port_step s s'" "map_of (port_map s) k = Some name" "name \<in> alive_workers s'"
  shows "map_of (port_map s') k = Some name"
proof -
  note inv = port_inv_reachable [OF assms(1)]
  from assms(2) show ?thesis
  proof (rule port_stepE)
    fix n node port m b assume "s' = s\<lparr>port_map := m\<rparr>" "port_lock_acquire (Some (node, n)) port (port_map s) = Inr (m, b)"
    then have "port_map s' = fst (port_acquire node n port (port_map s))" by (simp add: port_lock_acquire_def)
    then show ?thesis using port_acquire_locks [of node n port "port_map s"] assms(3) by auto
  next
    fix dead assume d: "s' = s\<lparr>port_map := sweep_dead dead (port_map s), daemon := None\<rparr>" "daemon s = Some ([], dead)"
    then have "name \<notin> set dead" using inv assms(4) by (auto simp: port_inv_def)
    then show ?thesis using d inv assms(3)
      by (simp add: sweep_dead_def port_inv_def map_of_filter_value [where P = "\<lambda>n. n \<notin> set dead"])
  qed (use assms(3) in auto)
qed

lemma port_run:
  "port_reachable \<lparr>port_map = [((0, 8000), ''a''), ((0, 8001), ''b'')], alive_workers = {''a''}, ever_started = {''a'', ''b''},
     daemon = Some ([], [''b''])\<rparr>"
proof -
  have "port_reachable \<lparr>port_map = [], alive_workers = {''a''}, ever_started = {''a''}, daemon = None\<rparr>"
    using port_next [OF port_init port_start [of "''a''"]] by simp
  from port_next [OF this port_start [of "''b''"]]
  have "port_reachable \<lparr>port_map = [], alive_workers = {''b'', ''a''}, ever_started = {''b'', ''a''}, daemon = None\<rparr>" by simp
  from port_next [OF this port_take [of "''a''" _ 0 8000 "[((0, 8000), ''a'')]" True]]
  have "port_reachable \<lparr>port_map = [((0, 8000), ''a'')], alive_workers = {''b'', ''a''}, ever_started = {''b'', ''a''}, daemon = None\<rparr>"
    by (simp add: port_lock_acquire_def port_acquire_def)
  from port_next [OF this port_take [of "''b''" _ 0 8001 "[((0, 8000), ''a''), ((0, 8001), ''b'')]" True]]
  have "port_reachable \<lparr>port_map = [((0, 8000), ''a''), ((0, 8001), ''b'')], alive_workers = {''b'', ''a''}, ever_started = {''b'', ''a''}, daemon = None\<rparr>"
    by (simp add: port_lock_acquire_def port_acquire_def)
  from port_next [OF this port_die [of _ "''b''"]]
  have "port_reachable \<lparr>port_map = [((0, 8000), ''a''), ((0, 8001), ''b'')], alive_workers = {''a''}, ever_started = {''b'', ''a''}, daemon = None\<rparr>"
    by (simp add: insert_Diff_if)
  from port_next [OF this daemon_snapshot]
  have "port_reachable \<lparr>port_map = [((0, 8000), ''a''), ((0, 8001), ''b'')], alive_workers = {''a''}, ever_started = {''b'', ''a''},
      daemon = Some ([''a'', ''b''], [])\<rparr>"
    by (simp add: snapshot_workers_def)
  from port_next [OF this daemon_alive [of _ "''a''" "[''b'']" "[]"]]
  have "port_reachable \<lparr>port_map = [((0, 8000), ''a''), ((0, 8001), ''b'')], alive_workers = {''a''}, ever_started = {''b'', ''a''},
      daemon = Some ([''b''], [])\<rparr>" by simp
  from port_next [OF this daemon_dead [of _ "''b''" "[]" "[]"]]
  show ?thesis by (simp add: insert_commute)
qed

end
