(* ===== verification/Channel_Queue.thy ===== *)
theory Channel_Queue
  imports Py_Prelude "HOL-Library.AList" "HOL-Library.Multiset"
begin

text \<open>
  The queues of a channel, \<^verbatim>\<open>rlinf/scheduler/channel/channel_worker.py\<close>: the
  \<open>asyncio.Queue\<close> of Python's library as far as the module relies on it, the
  dictionary of queues that \<open>LocalChannel\<close> and \<open>ChannelWorker\<close> both keep, and every
  operation of \<open>LocalChannel\<close>.

  A queue holds weighted items, first in first out. A key is a string here: the code
  only compares keys.
\<close>

section \<open>One queue\<close>

type_synonym 'a weighted = "int \<times> 'a"

record 'a chan_queue =
  contents :: "'a weighted list"
  capacity :: int

definition new_queue :: "int \<Rightarrow> 'a chan_queue" where
  "new_queue maxsize = \<lparr>contents = [], capacity = maxsize\<rparr>"

definition q_full :: "'a chan_queue \<Rightarrow> bool" where
  "q_full q \<longleftrightarrow> capacity q > 0 \<and> int (length (contents q)) \<ge> capacity q"

definition put_nowait :: "'a weighted \<Rightarrow> 'a chan_queue \<Rightarrow> 'a chan_queue res" where
  "put_nowait x q = (if q_full q then Inl QueueFull else Inr (q\<lparr>contents := contents q @ [x]\<rparr>))"

definition get_nowait :: "'a chan_queue \<Rightarrow> ('a chan_queue \<times> 'a weighted) res" where
  "get_nowait q = (case contents q of [] \<Rightarrow> Inl QueueEmpty | x # xs \<Rightarrow> Inr (q\<lparr>contents := xs\<rparr>, x))"

section \<open>The queues by key\<close>

type_synonym 'a queue_map = "(string \<times> 'a chan_queue) list"

definition default_key :: string where
  "default_key = ''default_queue''"

definition new_channel :: "int \<Rightarrow> 'a queue_map" where
  "new_channel maxsize = [(default_key, new_queue maxsize)]"

definition create_queue :: "string \<Rightarrow> int \<Rightarrow> 'a queue_map \<Rightarrow> 'a queue_map" where
  "create_queue key maxsize m = (if map_of m key \<noteq> None then m else m @ [(key, new_queue maxsize)])"

definition queue_at :: "'a queue_map \<Rightarrow> string \<Rightarrow> 'a chan_queue res" where
  "queue_at m key = (case map_of m key of None \<Rightarrow> Inl KeyError | Some q \<Rightarrow> Inr q)"

definition chan_qsize :: "string \<Rightarrow> 'a queue_map \<Rightarrow> int" where
  "chan_qsize key m = (case map_of m key of None \<Rightarrow> 0 | Some q \<Rightarrow> int (length (contents q)))"

definition chan_empty :: "string \<Rightarrow> 'a queue_map \<Rightarrow> bool" where
  "chan_empty key m = (case map_of m key of None \<Rightarrow> True | Some q \<Rightarrow> contents q = [])"

definition chan_full :: "string \<Rightarrow> 'a queue_map \<Rightarrow> bool" where
  "chan_full key m = (case map_of m key of None \<Rightarrow> False | Some q \<Rightarrow> q_full q)"

definition chan_maxsize :: "string \<Rightarrow> 'a queue_map \<Rightarrow> int res" where
  "chan_maxsize key m =
     (case map_of m key of
        None \<Rightarrow> rbind (queue_at m default_key) (\<lambda>q. Inr (capacity q))
      | Some q \<Rightarrow> Inr (capacity q))"

text \<open>Every operation first creates the queue of its key, with the default queue's size.\<close>

definition ensure_queue :: "string \<Rightarrow> 'a queue_map \<Rightarrow> 'a queue_map res" where
  "ensure_queue key m = rbind (chan_maxsize default_key m) (\<lambda>s. Inr (create_queue key s m))"

text \<open>
  Waiting in a local channel is \<open>while full: continue\<close>: in the thread that runs it,
  the condition does not change, and the loop ends at once or never.
\<close>

partial_function (option) busy_wait :: "bool \<Rightarrow> 'a res \<Rightarrow> 'a comp" where
  "busy_wait b r = (if b then busy_wait b r else Some r)"

definition local_put :: "string \<Rightarrow> 'a weighted \<Rightarrow> bool \<Rightarrow> 'a queue_map \<Rightarrow> 'a queue_map comp" where
  "local_put key x nowait m =
     cbind (Some (ensure_queue key m)) (\<lambda>m'.
     cbind (Some (queue_at m' key)) (\<lambda>q.
     busy_wait (\<not> nowait \<and> q_full q) (rbind (put_nowait x q) (\<lambda>q'. Inr (AList.update key q' m')))))"

definition local_get :: "string \<Rightarrow> bool \<Rightarrow> 'a queue_map \<Rightarrow> ('a queue_map \<times> 'a) comp" where
  "local_get key nowait m =
     cbind (Some (ensure_queue key m)) (\<lambda>m'.
     cbind (Some (queue_at m' key)) (\<lambda>q.
     busy_wait (\<not> nowait \<and> contents q = [])
       (rbind (get_nowait q) (\<lambda>(q', x). Inr (AList.update key q' m', snd x)))))"

definition peek_all :: "string \<Rightarrow> 'a queue_map \<Rightarrow> ('a queue_map \<times> 'a weighted list) res" where
  "peek_all key m =
     rbind (ensure_queue key m) (\<lambda>m'. rbind (queue_at m' key) (\<lambda>q. Inr (m', contents q)))"

text \<open>The loop of \<open>get_batch\<close> over the items that are in the queue when it starts.\<close>

fun local_batch ::
  "int \<Rightarrow> int \<Rightarrow> 'a list \<Rightarrow> 'a weighted list \<Rightarrow> 'a chan_queue \<Rightarrow> ('a chan_queue \<times> 'a list) res" where
  "local_batch target current batch [] q = Inr (q, batch)"
| "local_batch target current batch (x # xs) q =
     (if current + fst x > target then Inr (q, batch)
      else rbind (get_nowait q) (\<lambda>(q', y).
        if current + fst x \<ge> target then Inr (q', batch @ [snd y])
        else local_batch target (current + fst x) (batch @ [snd y]) xs q'))"

definition local_get_batch :: "int \<Rightarrow> string \<Rightarrow> 'a queue_map \<Rightarrow> ('a queue_map \<times> 'a list) res" where
  "local_get_batch target key m =
     rbind (peek_all key m) (\<lambda>(m', items).
     rbind (queue_at m' key) (\<lambda>q.
     rbind (local_batch target 0 [] items q) (\<lambda>(q', batch). Inr (AList.update key q' m', batch))))"

section \<open>What a channel promises\<close>

text \<open>
  The contract of a channel, for clients that do not wait: \<open>view\<close> is the list of
  items under a key. The lemmas below are about any provider.
\<close>

locale keyed_channel =
  fixes put :: "'c \<Rightarrow> 'k \<Rightarrow> 'a \<Rightarrow> 'c res"
    and get :: "'c \<Rightarrow> 'k \<Rightarrow> ('c \<times> 'a) res"
    and view :: "'c \<Rightarrow> 'k \<Rightarrow> 'a list"
    and room :: "'c \<Rightarrow> int"
    and good :: "'c \<Rightarrow> bool"
  assumes put_ok: "good c \<Longrightarrow> put c k x = Inr c' \<Longrightarrow> good c' \<and> room c' = room c \<and> view c' = (view c)(k := view c k @ [x])"
    and put_room: "good c \<Longrightarrow> room c \<le> 0 \<or> int (length (view c k)) < room c \<Longrightarrow> \<exists>c'. put c k x = Inr c'"
    and get_ok: "good c \<Longrightarrow> get c k = Inr (c', x) \<Longrightarrow>
      good c' \<and> room c' = room c \<and> view c k = x # view c' k \<and> (\<forall>j. j \<noteq> k \<longrightarrow> view c' j = view c j)"
    and get_some: "good c \<Longrightarrow> view c k \<noteq> [] \<Longrightarrow> \<exists>c' x. get c k = Inr (c', x)"
begin

definition put_all :: "'c \<Rightarrow> ('k \<times> 'a) list \<Rightarrow> 'c res" where
  "put_all c xs = rfold (\<lambda>c (k, x). put c k x) c xs"

fun get_all :: "'c \<Rightarrow> 'k list \<Rightarrow> ('c \<times> 'a list) res" where
  "get_all c [] = Inr (c, [])"
| "get_all c (k # ks) = rbind (get c k) (\<lambda>(c', x). rbind (get_all c' ks) (\<lambda>(c'', xs). Inr (c'', x # xs)))"

lemma put_all_view:
  "good c \<Longrightarrow> put_all c xs = Inr c' \<Longrightarrow>
   good c' \<and> room c' = room c \<and> (\<forall>k. view c' k = view c k @ map snd (filter (\<lambda>p. fst p = k) xs))"
proof (induction xs arbitrary: c)
  case (Cons p xs)
  obtain k x where p: "p = (k, x)" by (cases p)
  from Cons.prems(2) obtain c1 where c1: "put c k x = Inr c1" "put_all c1 xs = Inr c'"
    by (auto simp: put_all_def p res_elims)
  from put_ok [OF Cons.prems(1) c1(1)] Cons.IH [OF _ c1(2)] show ?case by (simp add: p)
qed (simp add: put_all_def)

lemma put_all_ok:
  assumes "good c" "room c \<le> 0 \<or> (\<forall>k. int (length (view c k) + length (filter (\<lambda>p. fst p = k) xs)) \<le> room c)"
  shows "\<exists>c'. put_all c xs = Inr c'"
  using assms
proof (induction xs arbitrary: c)
  case (Cons p xs)
  obtain k x where p: "p = (k, x)" by (cases p)
  have "room c \<le> 0 \<or> int (length (view c k)) < room c" using Cons.prems(2) by (auto simp: p dest: spec [of _ k])
  from put_room [OF Cons.prems(1) this] obtain c1 where c1: "put c k x = Inr c1" by blast
  from put_ok [OF Cons.prems(1) c1] have g: "good c1" "room c1 = room c" "view c1 = (view c)(k := view c k @ [x])" by auto
  have "room c1 \<le> 0 \<or> (\<forall>j. int (length (view c1 j) + length (filter (\<lambda>p. fst p = j) xs)) \<le> room c1)"
    using Cons.prems(2) unfolding g(2,3) p by (force split: if_splits)
  from Cons.IH [OF g(1) this] c1 show ?case by (auto simp: put_all_def p)
qed (simp add: put_all_def)

lemma get_all_view:
  assumes "good c" "\<And>k. view c k = map snd (filter (\<lambda>p. fst p = k) xs) @ rest k"
  shows "\<exists>c'. get_all c (map fst xs) = Inr (c', map snd xs) \<and> good c' \<and> view c' = rest"
  using assms
proof (induction xs arbitrary: c)
  case Nil
  then show ?case by auto
next
  case (Cons p xs)
  obtain k x where p: "p = (k, x)" by (cases p)
  have v: "view c k = x # map snd (filter (\<lambda>p. fst p = k) xs) @ rest k" using Cons.prems(2) [of k] by (simp add: p)
  then obtain c1 y where c1: "get c k = Inr (c1, y)" using get_some [OF Cons.prems(1)] by fastforce
  from get_ok [OF Cons.prems(1) c1] v have g: "good c1" "y = x"
    "\<And>j. view c1 j = map snd (filter (\<lambda>p. fst p = j) xs) @ rest j"
    using Cons.prems(2) by (auto simp: p) (metis (mono_tags, lifting) append_Cons list.inject v)
  from Cons.IH [OF g(1,3)] c1 g(2) show ?case by (auto simp: p)
qed

text \<open>What has been put comes back, in the order of the puts, also when several keys are mixed.\<close>

lemma put_get_all:
  assumes "good c" "\<forall>k. view c k = []" "room c \<le> 0 \<or> (\<forall>k. int (length (filter (\<lambda>p. fst p = k) xs)) \<le> room c)"
  shows "\<exists>c' c''. put_all c xs = Inr c' \<and> get_all c' (map fst xs) = Inr (c'', map snd xs) \<and> (\<forall>k. view c'' k = [])"
proof -
  from assms put_all_ok [OF assms(1), of xs] obtain c' where c': "put_all c xs = Inr c'" by auto
  from put_all_view [OF assms(1) this] assms(2) have "good c'" "\<And>k. view c' k = map snd (filter (\<lambda>p. fst p = k) xs) @ []" by auto
  from get_all_view [where rest = "\<lambda>_. []", OF this] c' show ?thesis by auto
qed

end

section \<open>The dictionary of queues keeps the contract\<close>

text \<open>The operations without waiting, also those of \<open>ChannelWorker.put_via_ray\<close> and \<open>get_via_ray\<close>.\<close>

definition chan_put_nowait :: "string \<Rightarrow> 'a weighted \<Rightarrow> 'a queue_map \<Rightarrow> 'a queue_map res" where
  "chan_put_nowait key x m =
     rbind (ensure_queue key m) (\<lambda>m'.
     rbind (queue_at m' key) (\<lambda>q. rbind (put_nowait x q) (\<lambda>q'. Inr (AList.update key q' m'))))"

definition chan_get_nowait :: "string \<Rightarrow> 'a queue_map \<Rightarrow> ('a queue_map \<times> 'a) res" where
  "chan_get_nowait key m =
     rbind (ensure_queue key m) (\<lambda>m'.
     rbind (queue_at m' key) (\<lambda>q. rbind (get_nowait q) (\<lambda>(q', x). Inr (AList.update key q' m', snd x))))"

lemma busy_wait_simps [simp]:
  "busy_wait False r = Some r" "busy_wait True r = None"
proof -
  show "busy_wait False r = Some r" by (subst busy_wait.simps) simp
  have "busy_wait b r = Some y \<Longrightarrow> \<not> b" for b y
    by (erule busy_wait.raw_induct [rotated]) (auto split: if_splits)
  then show "busy_wait True r = None" by (cases "busy_wait True r") auto
qed

lemma comp_rbind: "cbind (Some r) (\<lambda>x. Some (f x)) = Some (rbind r f)"
  by (cases r) auto

lemma local_put_nowait: "local_put key x True m = Some (chan_put_nowait key x m)"
  by (simp add: local_put_def chan_put_nowait_def comp_rbind)

lemma local_get_nowait: "local_get key True m = Some (chan_get_nowait key m)"
  by (simp add: local_get_def chan_get_nowait_def comp_rbind)

definition chan_view :: "'a queue_map \<Rightarrow> string \<Rightarrow> 'a list" where
  "chan_view m k = (case map_of m k of None \<Rightarrow> [] | Some q \<Rightarrow> map snd (contents q))"

definition chan_room :: "'a queue_map \<Rightarrow> int" where
  "chan_room m = (case map_of m default_key of None \<Rightarrow> 0 | Some q \<Rightarrow> capacity q)"

definition chan_good :: "'a queue_map \<Rightarrow> bool" where
  "chan_good m \<longleftrightarrow> map_of m default_key \<noteq> None \<and> (\<forall>k q. map_of m k = Some q \<longrightarrow> capacity q = chan_room m)"

lemma new_channel_good [simp]: "chan_good (new_channel n)" "chan_room (new_channel n) = n" "chan_view (new_channel n) k = []"
  by (auto simp: chan_good_def chan_room_def chan_view_def new_channel_def new_queue_def split: if_splits)

lemma ensure_queue_ok:
  assumes "chan_good m"
  obtains m' q where "ensure_queue k m = Inr m'" "queue_at m' k = Inr q" "map_of m' k = Some q" "chan_good m'"
    "chan_room m' = chan_room m" "chan_view m' = chan_view m" "chan_view m k = map snd (contents q)" "capacity q = chan_room m"
proof -
  let ?m = "create_queue k (chan_room m) m"
  from assms obtain d where d: "map_of m default_key = Some d" "capacity d = chan_room m" by (auto simp: chan_good_def)
  then have e: "ensure_queue k m = Inr ?m" by (simp add: ensure_queue_def chan_maxsize_def)
  have look: "map_of ?m j = (if map_of m j = None \<and> j = k then Some (new_queue (chan_room m)) else map_of m j)" for j
    by (auto simp: create_queue_def map_add_def split: option.splits)
  have room: "chan_room ?m = chan_room m" using d by (simp add: chan_room_def [of ?m] look)
  have view: "chan_view ?m = chan_view m" by (rule ext) (auto simp: chan_view_def look new_queue_def split: option.splits)
  have good: "chan_good ?m" using assms by (auto simp: chan_good_def room look new_queue_def)
  obtain q where q: "map_of ?m k = Some q" using look [of k] by (cases "map_of m k") auto
  moreover have "capacity q = chan_room m" using good q room by (simp add: chan_good_def)
  moreover have "chan_view m k = map snd (contents q)" using q unfolding view [symmetric] by (simp add: chan_view_def)
  ultimately show ?thesis using that [OF e _ q good room view] by (simp add: queue_at_def)
qed

lemma queue_update:
  assumes "chan_good m" "map_of m k = Some q" "capacity q' = capacity q"
  shows "chan_good (AList.update k q' m)" "chan_room (AList.update k q' m) = chan_room m"
    "chan_view (AList.update k q' m) = (chan_view m)(k := map snd (contents q'))"
proof -
  have look: "map_of (AList.update k q' m) = (map_of m)(k \<mapsto> q')" by (rule update_conv')
  show room: "chan_room (AList.update k q' m) = chan_room m" using assms(2,3) by (auto simp: chan_room_def look)
  show "chan_good (AList.update k q' m)" using assms by (auto simp: chan_good_def room look)
  show "chan_view (AList.update k q' m) = (chan_view m)(k := map snd (contents q'))" by (auto simp: chan_view_def look)
qed

lemma chan_put_cases:
  assumes "chan_good m"
  shows "if chan_room m > 0 \<and> int (length (chan_view m k)) \<ge> chan_room m then chan_put_nowait k x m = Inl QueueFull
    else (\<exists>m'. chan_put_nowait k x m = Inr m' \<and> chan_good m' \<and> chan_room m' = chan_room m
      \<and> chan_view m' = (chan_view m)(k := chan_view m k @ [snd x]))"
proof -
  obtain m' q where e: "ensure_queue k m = Inr m'" "queue_at m' k = Inr q" "map_of m' k = Some q" "chan_good m'"
    "chan_room m' = chan_room m" "chan_view m' = chan_view m" "chan_view m k = map snd (contents q)" "capacity q = chan_room m"
    by (rule ensure_queue_ok [OF assms])
  show ?thesis
    using e queue_update [OF e(4,3), of "q\<lparr>contents := contents q @ [x]\<rparr>"]
    by (auto simp: chan_put_nowait_def put_nowait_def q_full_def)
qed

lemma chan_get_cases:
  assumes "chan_good m"
  shows "case chan_view m k of [] \<Rightarrow> chan_get_nowait k m = Inl QueueEmpty
    | y # ys \<Rightarrow> (\<exists>m'. chan_get_nowait k m = Inr (m', y) \<and> chan_good m' \<and> chan_room m' = chan_room m
      \<and> chan_view m' = (chan_view m)(k := ys))"
proof -
  obtain m' q where e: "ensure_queue k m = Inr m'" "queue_at m' k = Inr q" "map_of m' k = Some q" "chan_good m'"
    "chan_room m' = chan_room m" "chan_view m' = chan_view m" "chan_view m k = map snd (contents q)" "capacity q = chan_room m"
    by (rule ensure_queue_ok [OF assms])
  show ?thesis
    using e queue_update [OF e(4,3), of "q\<lparr>contents := tl (contents q)\<rparr>"]
    by (cases "contents q") (auto simp: chan_get_nowait_def get_nowait_def)
qed

interpretation lc: keyed_channel "\<lambda>c k x. chan_put_nowait k (w, x) c" "\<lambda>c k. chan_get_nowait k c" chan_view chan_room chan_good
  for w :: int
proof
  fix c :: "'a queue_map" and k x c'
  assume "chan_good c" "chan_put_nowait k (w, x) c = Inr c'"
  then show "chan_good c' \<and> chan_room c' = chan_room c \<and> chan_view c' = (chan_view c)(k := chan_view c k @ [x])"
    using chan_put_cases [of c k "(w, x)"] by (auto split: if_splits)
next
  fix c :: "'a queue_map" and k x
  assume "chan_good c" "chan_room c \<le> 0 \<or> int (length (chan_view c k)) < chan_room c"
  then show "\<exists>c'. chan_put_nowait k (w, x) c = Inr c'"
    using chan_put_cases [of c k "(w, x)"] by (auto split: if_splits)
next
  fix c :: "'a queue_map" and k c' x
  assume "chan_good c" "chan_get_nowait k c = Inr (c', x)"
  then show "chan_good c' \<and> chan_room c' = chan_room c \<and> chan_view c k = x # chan_view c' k \<and> (\<forall>j. j \<noteq> k \<longrightarrow> chan_view c' j = chan_view c j)"
    using chan_get_cases [of c k] by (auto split: list.splits)
next
  fix c :: "'a queue_map" and k
  assume "chan_good c" "chan_view c k \<noteq> []"
  then show "\<exists>c' x. chan_get_nowait k c = Inr (c', x)"
    using chan_get_cases [of c k] by (cases "chan_view c k") auto
qed

text \<open>
  A channel keeps the items of every key apart and in order: after any puts
  under any keys into a new channel that is large enough, taking an item for each of
  these keys in the same order gives exactly the items that were put, without an
  error, and leaves every queue empty.
\<close>

lemma channel_fifo:
  assumes "n \<le> 0 \<or> (\<forall>k. int (length (filter (\<lambda>p. fst p = k) xs)) \<le> n)"
  shows "\<exists>c c'. rfold (\<lambda>c (k, x). chan_put_nowait k (w, x) c) (new_channel n) xs = Inr c
    \<and> lc.get_all c (map fst xs) = Inr (c', map snd xs) \<and> (\<forall>k. chan_view c' k = [])"
  using lc.put_get_all [of "new_channel n" xs w] assms by (simp add: lc.put_all_def)

text \<open>
  The limits of a channel: a put into a full queue raises \<open>QueueFull\<close> and a get
  from an empty one \<open>QueueEmpty\<close> when they must not wait; when they may, the busy loop
  of a local channel never ends, and in all other cases they return at once.
\<close>

lemma local_channel_limits:
  assumes "chan_good m"
  shows "(chan_room m > 0 \<and> int (length (chan_view m k)) \<ge> chan_room m \<longrightarrow>
      local_put k x True m = Some (Inl QueueFull) \<and> local_put k x False m = None)
    \<and> (\<not> (chan_room m > 0 \<and> int (length (chan_view m k)) \<ge> chan_room m) \<longrightarrow>
      (\<exists>m'. local_put k x b m = Some (Inr m') \<and> chan_view m' = (chan_view m)(k := chan_view m k @ [snd x])))
    \<and> (chan_view m k = [] \<longrightarrow> local_get k True m = Some (Inl QueueEmpty) \<and> local_get k False m = None)
    \<and> (\<forall>y ys. chan_view m k = y # ys \<longrightarrow>
      (\<exists>m'. local_get k b m = Some (Inr (m', y)) \<and> chan_view m' = (chan_view m)(k := ys)))"
proof -
  obtain m' q where e: "ensure_queue k m = Inr m'" "queue_at m' k = Inr q" "map_of m' k = Some q" "chan_good m'"
    "chan_room m' = chan_room m" "chan_view m' = chan_view m" "chan_view m k = map snd (contents q)" "capacity q = chan_room m"
    by (rule ensure_queue_ok [OF assms])
  have full: "q_full q \<longleftrightarrow> chan_room m > 0 \<and> int (length (chan_view m k)) \<ge> chan_room m" using e by (simp add: q_full_def)
  have empty: "contents q = [] \<longleftrightarrow> chan_view m k = []" using e by simp
  have p: "local_put k x b m = (if \<not> b \<and> q_full q then None else Some (chan_put_nowait k x m))" for b
    using e by (simp add: local_put_def chan_put_nowait_def)
  have g: "local_get k b m = (if \<not> b \<and> contents q = [] then None else Some (chan_get_nowait k m))" for b
    using e by (simp add: local_get_def chan_get_nowait_def)
  show ?thesis unfolding p g full empty using chan_put_cases [OF assms, of k x] chan_get_cases [OF assms, of k]
    by (auto split: if_splits)
qed

section \<open>Batches by weight\<close>

text \<open>The specification: as many items from the front as the target weight allows, and none once it is reached.\<close>

fun weight_prefix :: "int \<Rightarrow> 'a weighted list \<Rightarrow> nat" where
  "weight_prefix budget [] = 0"
| "weight_prefix budget (x # xs) =
     (if fst x > budget then 0 else if fst x = budget then 1 else Suc (weight_prefix (budget - fst x) xs))"

lemma local_batch_prefix:
  "contents q = items \<Longrightarrow>
   local_batch target current batch items q
   = Inr (q\<lparr>contents := drop (weight_prefix (target - current) items) items\<rparr>,
          batch @ map snd (take (weight_prefix (target - current) items) items))"
proof (induction items arbitrary: current batch q)
  case (Cons x xs)
  show ?case
  proof (cases "current + fst x \<ge> target")
    case False
    then have "local_batch target (current + fst x) (batch @ [snd x]) xs (q\<lparr>contents := xs\<rparr>)
      = Inr (q\<lparr>contents := drop (weight_prefix (target - (current + fst x)) xs) xs\<rparr>,
          (batch @ [snd x]) @ map snd (take (weight_prefix (target - (current + fst x)) xs) xs))"
      using Cons.IH [of "q\<lparr>contents := xs\<rparr>"] by simp
    with False Cons.prems show ?thesis by (simp add: get_nowait_def algebra_simps)
  next
    case True
    with Cons.prems show ?thesis by (cases q) (auto simp: get_nowait_def)
  qed
qed (cases q; simp)

lemma weight_prefix_le: "weight_prefix b xs \<le> length xs"
  by (induction b xs rule: weight_prefix.induct) auto

lemma weight_prefix_sum:
  "0 \<le> b \<Longrightarrow> sum_list (map fst (take (weight_prefix b xs) xs)) \<le> b"
proof (induction b xs rule: weight_prefix.induct)
  case (2 b x xs)
  then show ?case by (cases "fst x < b") auto
qed simp

lemma weight_prefix_maximal:
  assumes "\<forall>x\<in>set xs. 0 \<le> fst x" "weight_prefix b xs < j" "j \<le> length xs" "sum_list (map fst (take (weight_prefix b xs) xs)) \<noteq> b"
  shows "b < sum_list (map fst (take j xs))"
  using assms
proof (induction b xs arbitrary: j rule: weight_prefix.induct)
  case (2 b x xs)
  then obtain i where j: "j = Suc i" by (cases j) auto
  have nn: "0 \<le> sum_list (map fst (take i xs))"
    using 2(2) by (intro sum_list_nonneg) (auto dest: in_set_takeD)
  show ?case
  proof (cases "fst x < b")
    case True
    with 2 j have "b - fst x < sum_list (map fst (take i xs))" by (intro 2(1)) auto
    then show ?thesis by (simp add: j)
  next
    case False
    with 2(5) nn show ?thesis by (auto simp: j split: if_splits)
  qed
qed simp

text \<open>
  A batch from a local channel: with weights that are not negative, it is the
  longest run of items from the front of the queue whose weights add up to no more
  than the target, cut where the target is reached exactly; the rest of the queue and
  all other queues stay as they are, and no item is ever too much.
\<close>

lemma local_get_batch_longest:
  assumes "chan_good m" "ensure_queue k m = Inr m'" "queue_at m' k = Inr q" "\<forall>x\<in>set (contents q). 0 \<le> fst x" "0 \<le> target"
  shows "\<exists>n m''. local_get_batch target k m = Inr (m'', map snd (take n (contents q)))
    \<and> n \<le> length (contents q) \<and> chan_view m'' = (chan_view m)(k := map snd (drop n (contents q)))
    \<and> sum_list (map fst (take n (contents q))) \<le> target
    \<and> (sum_list (map fst (take n (contents q))) = target
       \<or> (\<forall>j>n. j \<le> length (contents q) \<longrightarrow> target < sum_list (map fst (take j (contents q)))))"
proof -
  let ?n = "weight_prefix target (contents q)" and ?q = "q\<lparr>contents := drop (weight_prefix target (contents q)) (contents q)\<rparr>"
  obtain m1 q1 where e: "ensure_queue k m = Inr m1" "queue_at m1 k = Inr q1" "map_of m1 k = Some q1" "chan_good m1"
    "chan_view m1 = chan_view m" by (rule ensure_queue_ok [OF assms(1)])
  then have eq: "m1 = m'" "q1 = q" using assms(2,3) by auto
  have "local_get_batch target k m = Inr (AList.update k ?q m', map snd (take ?n (contents q)))"
    using e local_batch_prefix [OF refl, of target 0 "[]" q] by (simp add: local_get_batch_def peek_all_def eq)
  moreover have "chan_view (AList.update k ?q m') = (chan_view m)(k := map snd (drop ?n (contents q)))"
    using queue_update(3) [OF e(4,3), of ?q] e(5) eq by simp
  ultimately show ?thesis
    using weight_prefix_le weight_prefix_sum [OF assms(5)] weight_prefix_maximal [OF assms(4), of target] by blast
qed

end
