(* ===== verification/Channel_Worker.thy ===== *)
theory Channel_Worker
  imports Channel_Queue
begin

text \<open>
  The queue of one key in \<open>ChannelWorker\<close>
  (\<^verbatim>\<open>rlinf/scheduler/channel/channel_worker.py\<close>), used by any number of coroutines:
  \<open>put\<close>, \<open>get\<close> and \<open>get_batch\<close> with the waiting of \<open>asyncio.Queue\<close> and of
  \<open>PeekQueue.peek\<close>, and the choice of the replica that hosts a key.

  The worker is one asyncio actor, so what a coroutine does between two awaits is one
  step. The futures of the library are represented by the tasks that wait for them:
  \<open>getters\<close> and \<open>putters\<close> hold the tasks that sleep, \<open>ready\<close> those that have been
  woken and not yet run. No task is cancelled. The fields \<open>accepted\<close>, \<open>taken\<close> and
  \<open>replies\<close> are the history of the queue; no step reads them.
\<close>

section \<open>The coroutines\<close>

text \<open>A task and what it has so far: a batch keeps its target, its items and their weight.\<close>

datatype 'a task =
    TPut nat "'a weighted"
  | TGet nat
  | TBatch nat int "'a weighted list" int

record 'a worker_queue = "'a chan_queue" +
  getters :: "'a task list"
  putters :: "'a task list"
  ready :: "'a task list"
  accepted :: "'a weighted list"
  taken :: "'a weighted list"
  replies :: "(nat \<times> 'a weighted list) list"

definition start_queue :: "int \<Rightarrow> 'a worker_queue" where
  "start_queue maxsize = \<lparr>contents = [], capacity = maxsize, getters = [], putters = [], ready = [],
     accepted = [], taken = [], replies = []\<rparr>"

definition w_full :: "'a worker_queue \<Rightarrow> bool" where
  "w_full q \<longleftrightarrow> capacity q > 0 \<and> int (length (contents q)) \<ge> capacity q"

text \<open>\<open>_wakeup_next\<close> on the getters and on the putters.\<close>

definition wake_getter :: "'a worker_queue \<Rightarrow> 'a worker_queue" where
  "wake_getter q = (case getters q of [] \<Rightarrow> q | t # ts \<Rightarrow> q\<lparr>getters := ts, ready := ready q @ [t]\<rparr>)"

definition wake_putter :: "'a worker_queue \<Rightarrow> 'a worker_queue" where
  "wake_putter q = (case putters q of [] \<Rightarrow> q | t # ts \<Rightarrow> q\<lparr>putters := ts, ready := ready q @ [t]\<rparr>)"

definition add_item :: "'a weighted \<Rightarrow> 'a worker_queue \<Rightarrow> 'a worker_queue" where
  "add_item x q = wake_getter (q\<lparr>contents := contents q @ [x], accepted := accepted q @ [x]\<rparr>)"

definition remove_item :: "'a weighted \<Rightarrow> 'a weighted list \<Rightarrow> 'a worker_queue \<Rightarrow> 'a worker_queue" where
  "remove_item x xs q = wake_putter (q\<lparr>contents := xs, taken := taken q @ [x]\<rparr>)"

definition reply :: "nat \<Rightarrow> 'a weighted list \<Rightarrow> 'a worker_queue \<Rightarrow> 'a worker_queue" where
  "reply i xs q = q\<lparr>replies := replies q @ [(i, xs)]\<rparr>"

definition run_put :: "nat \<Rightarrow> 'a weighted \<Rightarrow> 'a worker_queue \<Rightarrow> 'a worker_queue" where
  "run_put i x q = (if w_full q then q\<lparr>putters := putters q @ [TPut i x]\<rparr> else add_item x q)"

definition run_get :: "nat \<Rightarrow> 'a worker_queue \<Rightarrow> 'a worker_queue" where
  "run_get i q =
     (case contents q of
        [] \<Rightarrow> q\<lparr>getters := getters q @ [TGet i]\<rparr>
      | x # xs \<Rightarrow> reply i [x] (remove_item x xs q))"

text \<open>
  The loop of \<open>get_batch\<close>: \<open>peek\<close> waits among the getters when the queue is empty;
  the \<open>get\<close> that follows finds an item and does not wait.
\<close>

lemma remove_item_contents [simp]: "contents (remove_item x xs q) = xs"
  by (simp add: remove_item_def wake_putter_def split: list.split)

function run_batch :: "nat \<Rightarrow> int \<Rightarrow> 'a weighted list \<Rightarrow> int \<Rightarrow> 'a worker_queue \<Rightarrow> 'a worker_queue" where
  "run_batch i target batch current q =
     (case contents q of
        [] \<Rightarrow> q\<lparr>getters := getters q @ [TBatch i target batch current]\<rparr>
      | x # xs \<Rightarrow>
          if current + fst x > target then reply i batch q
          else if current + fst x \<ge> target then reply i (batch @ [x]) (remove_item x xs q)
          else run_batch i target (batch @ [x]) (current + fst x) (remove_item x xs q))"
  by pat_completeness auto
termination
  by (relation "measure (\<lambda>(i, target, batch, current, q). length (contents q))") auto

declare run_batch.simps [simp del]

fun run_task :: "'a task \<Rightarrow> 'a worker_queue \<Rightarrow> 'a worker_queue" where
  "run_task (TPut i x) q = run_put i x q"
| "run_task (TGet i) q = run_get i q"
| "run_task (TBatch i target batch current) q = run_batch i target batch current q"

text \<open>With \<open>nowait\<close> a request is answered at once: an error, or what the waiting one does without waiting.\<close>

definition run_put_nowait :: "'a weighted \<Rightarrow> 'a worker_queue \<Rightarrow> 'a worker_queue \<times> unit res" where
  "run_put_nowait x q = (if w_full q then (q, Inl QueueFull) else (add_item x q, Inr ()))"

definition run_get_nowait :: "nat \<Rightarrow> 'a worker_queue \<Rightarrow> 'a worker_queue \<times> unit res" where
  "run_get_nowait i q =
     (case contents q of
        [] \<Rightarrow> (q, Inl QueueEmpty)
      | x # xs \<Rightarrow> (reply i [x] (remove_item x xs q), Inr ()))"

lemma run_put_nowait_cases: "fst (run_put_nowait x q) = q \<or> fst (run_put_nowait x q) = run_task (TPut i x) q"
  by (simp add: run_put_nowait_def run_put_def)

lemma run_get_nowait_cases: "fst (run_get_nowait i q) = q \<or> fst (run_get_nowait i q) = run_task (TGet i) q"
  by (simp add: run_get_nowait_def run_get_def split: list.split)

text \<open>A request begins, or a woken task runs on, in any order. \<open>ok\<close> is the set of requests that are made.\<close>

inductive worker_step :: "('a task \<Rightarrow> bool) \<Rightarrow> 'a worker_queue \<Rightarrow> 'a worker_queue \<Rightarrow> bool" for ok where
  begin_put: "ok (TPut i x) \<Longrightarrow> worker_step ok q (run_task (TPut i x) q)"
| begin_get: "ok (TGet i) \<Longrightarrow> worker_step ok q (run_task (TGet i) q)"
| begin_batch: "ok (TBatch i target [] 0) \<Longrightarrow> worker_step ok q (run_task (TBatch i target [] 0) q)"
| try_put: "ok (TPut i x) \<Longrightarrow> run_put_nowait x q = (q', r) \<Longrightarrow> worker_step ok q q'"
| try_get: "ok (TGet i) \<Longrightarrow> run_get_nowait i q = (q', r) \<Longrightarrow> worker_step ok q q'"
| run_ready: "t \<in> set (ready q) \<Longrightarrow> worker_step ok q (run_task t (q\<lparr>ready := remove1 t (ready q)\<rparr>))"

inductive worker_reachable :: "('a task \<Rightarrow> bool) \<Rightarrow> int \<Rightarrow> 'a worker_queue \<Rightarrow> bool" for ok n where
  worker_start: "worker_reachable ok n (start_queue n)"
| worker_next: "worker_reachable ok n q \<Longrightarrow> worker_step ok q q' \<Longrightarrow> worker_reachable ok n q'"

text \<open>
  A proof rule: what holds of every queue that a task leaves behind, whether it is
  woken or new, holds of every reachable queue. \<open>P q t\<close> says that \<open>q\<close> is fine with
  the task \<open>t\<close> in hand.
\<close>

lemma worker_reachable_induct:
  assumes "worker_reachable ok n q" "I (start_queue n)"
    and new: "\<And>q i x. I q \<Longrightarrow> ok (TPut i x) \<Longrightarrow> P q (TPut i x)" "\<And>q i. I q \<Longrightarrow> ok (TGet i) \<Longrightarrow> P q (TGet i)"
      "\<And>q i target. I q \<Longrightarrow> ok (TBatch i target [] 0) \<Longrightarrow> P q (TBatch i target [] 0)"
    and ready: "\<And>q t. I q \<Longrightarrow> t \<in> set (ready q) \<Longrightarrow> P (q\<lparr>ready := remove1 t (ready q)\<rparr>) t"
    and run: "\<And>q t. P q t \<Longrightarrow> I (run_task t q)"
  shows "I q"
  using assms(1)
proof induction
  case (worker_next q q')
  from worker_next(2) show ?case
  proof cases
    case (begin_put i x)
    then show ?thesis using run [OF new(1) [OF worker_next(3)]] by simp
  next
    case (begin_get i)
    then show ?thesis using run [OF new(2) [OF worker_next(3)]] by simp
  next
    case (begin_batch i target)
    then show ?thesis using run [OF new(3) [OF worker_next(3)]] by simp
  next
    case (try_put i x r)
    then show ?thesis using run [OF new(1) [OF worker_next(3)], of i x] run_put_nowait_cases [of x q i] worker_next(3) by force
  next
    case (try_get i r)
    then show ?thesis using run [OF new(2) [OF worker_next(3)], of i] run_get_nowait_cases [of i q] worker_next(3) by force
  next
    case (run_ready t)
    then show ?thesis using run [OF ready [OF worker_next(3)]] by simp
  qed
qed (rule assms(2))

section \<open>Nothing is lost\<close>

fun task_items :: "'a task \<Rightarrow> 'a weighted list" where
  "task_items (TBatch i target batch current) = batch"
| "task_items t = []"

definition held_items :: "'a worker_queue \<Rightarrow> 'a weighted multiset" where
  "held_items q = (\<Sum>t\<in>#mset (getters q @ ready q). mset (task_items t))"

definition replied_items :: "'a worker_queue \<Rightarrow> 'a weighted multiset" where
  "replied_items q = (\<Sum>r\<in>#mset (replies q). mset (snd r))"

fun task_ok :: "'a task \<Rightarrow> bool" where
  "task_ok (TBatch i target batch current) \<longleftrightarrow> current = sum_list (map fst batch) \<and> current \<le> max 0 target"
| "task_ok t \<longleftrightarrow> True"

definition flow_inv :: "int \<Rightarrow> 'a worker_queue \<Rightarrow> 'a task option \<Rightarrow> bool" where
  "flow_inv n q t \<longleftrightarrow> capacity q = n \<and> accepted q = taken q @ contents q
     \<and> (n > 0 \<longrightarrow> int (length (contents q)) \<le> n)
     \<and> mset (taken q) = replied_items q + held_items q + (case t of None \<Rightarrow> {#} | Some t \<Rightarrow> mset (task_items t))
     \<and> (\<forall>u\<in>set (getters q) \<union> set (putters q) \<union> set (ready q) \<union> set_option t. task_ok u)
     \<and> (\<forall>u\<in>set (putters q). task_items u = [])"

lemma wake_fields [simp]:
  "contents (wake_getter q) = contents q" "contents (wake_putter q) = contents q"
  "capacity (wake_getter q) = capacity q" "capacity (wake_putter q) = capacity q"
  "accepted (wake_getter q) = accepted q" "accepted (wake_putter q) = accepted q"
  "taken (wake_getter q) = taken q" "taken (wake_putter q) = taken q"
  "replies (wake_getter q) = replies q" "replies (wake_putter q) = replies q"
  "putters (wake_getter q) = putters q" "getters (wake_putter q) = getters q"
  by (simp_all add: wake_getter_def wake_putter_def split: list.split)

lemma held_wake_getter: "held_items (wake_getter q) = held_items q"
  by (auto simp: wake_getter_def held_items_def split: list.split)

lemma held_wake_putter: "\<forall>u\<in>set (putters q). task_items u = [] \<Longrightarrow> held_items (wake_putter q) = held_items q"
  by (auto simp: wake_putter_def held_items_def split: list.split)

lemma tasks_wake:
  "set (getters (wake_getter q)) \<union> set (putters (wake_getter q)) \<union> set (ready (wake_getter q))
   = set (getters q) \<union> set (putters q) \<union> set (ready q)"
  "set (getters (wake_putter q)) \<union> set (putters (wake_putter q)) \<union> set (ready (wake_putter q))
   = set (getters q) \<union> set (putters q) \<union> set (ready q)"
  "set (putters (wake_putter q)) \<subseteq> set (putters q)"
  by (auto simp: wake_getter_def wake_putter_def split: list.splits)

lemma flow_add:
  assumes "flow_inv n q (Some (TPut i x))" "\<not> w_full q"
  shows "flow_inv n (add_item x q) None"
proof -
  let ?q = "q\<lparr>contents := contents q @ [x], accepted := accepted q @ [x]\<rparr>"
  have "held_items ?q = held_items q" "replied_items (wake_getter ?q) = replied_items q"
    by (simp_all add: held_items_def replied_items_def)
  with assms show ?thesis
    using tasks_wake(1) [of ?q] by (auto simp: flow_inv_def add_item_def w_full_def held_wake_getter)
qed

lemma flow_remove:
  assumes "flow_inv n q t" "contents q = x # xs"
  shows "capacity (remove_item x xs q) = n \<and> accepted q = taken (remove_item x xs q) @ xs
    \<and> accepted (remove_item x xs q) = accepted q
    \<and> mset (taken (remove_item x xs q)) = add_mset x (mset (taken q))
    \<and> held_items (remove_item x xs q) = held_items q \<and> replied_items (remove_item x xs q) = replied_items q
    \<and> (n > 0 \<longrightarrow> int (length xs) \<le> n)
    \<and> (\<forall>u\<in>set (getters (remove_item x xs q)) \<union> set (putters (remove_item x xs q)) \<union> set (ready (remove_item x xs q)). task_ok u)
    \<and> (\<forall>u\<in>set (putters (remove_item x xs q)). task_items u = [])"
proof -
  let ?q = "q\<lparr>contents := xs, taken := taken q @ [x]\<rparr>"
  have "held_items ?q = held_items q" "replied_items (wake_putter ?q) = replied_items q"
    by (simp_all add: held_items_def replied_items_def)
  moreover have "\<forall>u\<in>set (getters (wake_putter ?q)) \<union> set (putters (wake_putter ?q)) \<union> set (ready (wake_putter ?q)). task_ok u"
    unfolding tasks_wake(2) using assms(1) by (auto simp: flow_inv_def)
  moreover have "\<forall>u\<in>set (putters (wake_putter ?q)). task_items u = []"
    using tasks_wake(3) [of ?q] assms(1) by (auto simp: flow_inv_def)
  ultimately show ?thesis using assms by (auto simp: flow_inv_def remove_item_def held_wake_putter)
qed

lemma replied_reply: "replied_items (reply i xs q) = replied_items q + mset xs"
  by (simp add: replied_items_def reply_def)

lemma reply_fields [simp]:
  "contents (reply i xs q) = contents q" "capacity (reply i xs q) = capacity q" "accepted (reply i xs q) = accepted q"
  "taken (reply i xs q) = taken q" "getters (reply i xs q) = getters q" "putters (reply i xs q) = putters q"
  "ready (reply i xs q) = ready q" "held_items (reply i xs q) = held_items q"
  by (simp_all add: reply_def held_items_def)

lemma flow_batch:
  "flow_inv n q (Some (TBatch i target batch current)) \<Longrightarrow> flow_inv n (run_batch i target batch current q) None"
proof (induction i target batch current q rule: run_batch.induct)
  case (1 i target batch current q)
  show ?case
  proof (cases "contents q")
    case Nil
    have "held_items (q\<lparr>getters := getters q @ [TBatch i target batch current]\<rparr>) = held_items q + mset batch"
      "replied_items (q\<lparr>getters := getters q @ [TBatch i target batch current]\<rparr>) = replied_items q"
      by (simp_all add: held_items_def replied_items_def)
    with Nil 1(2) show ?thesis by (subst run_batch.simps) (auto simp: flow_inv_def)
  next
    case (Cons x xs)
    note r = flow_remove [OF 1(2) Cons]
    consider "current + fst x > target" | "current + fst x = target" | "current + fst x < target" by linarith
    then show ?thesis
    proof cases
      case 1
      with Cons \<open>flow_inv n q (Some (TBatch i target batch current))\<close> show ?thesis
        by (subst run_batch.simps) (auto simp: flow_inv_def replied_reply)
    next
      case 2
      with r 1(2) have "flow_inv n (reply i (batch @ [x]) (remove_item x xs q)) None"
        by (simp add: flow_inv_def replied_reply)
      with 2 Cons show ?thesis by (subst run_batch.simps) simp
    next
      case 3
      have "flow_inv n (remove_item x xs q) (Some (TBatch i target (batch @ [x]) (current + fst x)))"
        using r 1(2) 3 by (simp add: flow_inv_def)
      from 1(1) [OF Cons _ _ this] 3 have "flow_inv n (run_batch i target (batch @ [x]) (current + fst x) (remove_item x xs q)) None" by simp
      with 3 Cons show ?thesis by (subst run_batch.simps) simp
    qed
  qed
qed

lemma flow_run: "flow_inv n q (Some t) \<Longrightarrow> flow_inv n (run_task t q) None"
proof (cases t)
  case (TPut i x)
  assume q: "flow_inv n q (Some t)"
  show ?thesis
  proof (cases "w_full q")
    case True
    have "held_items (q\<lparr>putters := putters q @ [t]\<rparr>) = held_items q" "replied_items (q\<lparr>putters := putters q @ [t]\<rparr>) = replied_items q"
      by (simp_all add: held_items_def replied_items_def)
    with True q TPut show ?thesis by (auto simp: flow_inv_def run_put_def)
  qed (use q TPut in \<open>simp add: run_put_def flow_add\<close>)
next
  case (TGet i)
  assume q: "flow_inv n q (Some t)"
  show ?thesis
  proof (cases "contents q")
    case Nil
    have "held_items (q\<lparr>getters := getters q @ [t]\<rparr>) = held_items q" "replied_items (q\<lparr>getters := getters q @ [t]\<rparr>) = replied_items q"
      by (simp_all add: held_items_def replied_items_def TGet)
    with Nil q TGet show ?thesis by (auto simp: flow_inv_def run_get_def)
  next
    case (Cons x xs)
    from flow_remove [OF q Cons] q TGet Cons show ?thesis by (simp add: flow_inv_def run_get_def replied_reply)
  qed
next
  case (TBatch i target batch current)
  assume "flow_inv n q (Some t)"
  with TBatch flow_batch show ?thesis by simp
qed

lemma held_remove:
  assumes "t \<in> set (ready q)"
  shows "held_items q = held_items (q\<lparr>ready := remove1 t (ready q)\<rparr>) + mset (task_items t)"
proof -
  from split_list_first [OF assms] obtain xs ys where "ready q = xs @ t # ys" "t \<notin> set xs" by blast
  then show ?thesis by (simp add: held_items_def remove1_append)
qed

lemma flow_ready:
  assumes "flow_inv n q None" "t \<in> set (ready q)"
  shows "flow_inv n (q\<lparr>ready := remove1 t (ready q)\<rparr>) (Some t)"
proof -
  have "replied_items (q\<lparr>ready := remove1 t (ready q)\<rparr>) = replied_items q" by (simp add: replied_items_def)
  with assms held_remove [OF assms(2)] show ?thesis
    by (auto simp: flow_inv_def dest: notin_set_remove1 [rotated])
qed

lemma flow_start: "flow_inv n (start_queue n) None"
  by (simp add: flow_inv_def start_queue_def held_items_def replied_items_def)

lemma flow_reachable: "worker_reachable ok n q \<Longrightarrow> flow_inv n q None"
  by (erule worker_reachable_induct [where P = "\<lambda>q t. flow_inv n q (Some t)"])
    (auto simp: flow_start flow_run flow_ready, auto simp: flow_inv_def)

text \<open>
  C33. The queue of a channel worker loses, duplicates and reorders nothing: in every
  reachable state the items accepted so far are those taken out followed by those
  still inside, in this order; a bounded queue never holds more than its bound; and
  what was taken out is what the replies contain, together with the unfinished
  batches of sleeping or woken tasks.
\<close>

theorem channel_conserves:
  assumes "worker_reachable ok n q"
  shows "accepted q = taken q @ contents q \<and> (n > 0 \<longrightarrow> int (length (contents q)) \<le> n)
    \<and> mset (taken q) = replied_items q + held_items q"
  using flow_reachable [OF assms] by (simp add: flow_inv_def)

text \<open>A run: a batch of weight one and a get wait, and an item of weight five arrives.\<close>

definition any_request :: "'a task \<Rightarrow> bool" where
  "any_request t \<longleftrightarrow> True"

definition stranded :: "nat worker_queue" where
  "stranded = \<lparr>contents = [(5, 7)], capacity = 0, getters = [TGet 1], putters = [], ready = [],
     accepted = [(5, 7)], taken = [], replies = [(0, [])]\<rparr>"

lemma stranded_reachable: "worker_reachable any_request 0 stranded"
proof -
  note d = start_queue_def run_batch.simps [of _ _ _ _ "_ :: nat worker_queue"] run_get_def run_put_def w_full_def
    add_item_def wake_getter_def reply_def
  have "worker_reachable any_request 0 (run_task (TBatch 0 1 [] 0) (start_queue 0 :: nat worker_queue))"
    by (rule worker_next [OF worker_start begin_batch]) (simp add: any_request_def)
  then have "worker_reachable any_request 0 (run_task (TGet 1) (run_task (TBatch 0 1 [] 0) (start_queue 0 :: nat worker_queue)))"
    by (rule worker_next [OF _ begin_get]) (simp add: any_request_def)
  then have "worker_reachable any_request 0
    (run_task (TPut 2 (5, 7)) (run_task (TGet 1) (run_task (TBatch 0 1 [] 0) (start_queue 0 :: nat worker_queue))))"
    by (rule worker_next [OF _ begin_put]) (simp add: any_request_def)
  moreover have "run_task (TPut 2 (5, 7)) (run_task (TGet 1) (run_task (TBatch 0 1 [] 0) (start_queue 0 :: nat worker_queue)))
    = \<lparr>contents = [(5, 7)], capacity = 0, getters = [TGet 1], putters = [], ready = [TBatch 0 1 [] 0],
       accepted = [(5, 7)], taken = [], replies = []\<rparr>" (is "_ = ?q")
    by (simp add: d)
  ultimately have "worker_reachable any_request 0 ?q" by simp
  then have "worker_reachable any_request 0 (run_task (TBatch 0 1 [] 0) (?q\<lparr>ready := remove1 (TBatch 0 1 [] 0) (ready ?q)\<rparr>))"
    by (rule worker_next [OF _ run_ready]) simp
  then show ?thesis by (simp add: d stranded_def)
qed

theorem channel_conserves_witness:
  "accepted stranded = taken stranded @ contents stranded"
  using channel_conserves [OF stranded_reachable] by simp

section \<open>Waking up\<close>

fun is_get :: "'a task \<Rightarrow> bool" where
  "is_get (TGet i) \<longleftrightarrow> True"
| "is_get t \<longleftrightarrow> False"

fun is_put :: "'a task \<Rightarrow> bool" where
  "is_put (TPut i x) \<longleftrightarrow> True"
| "is_put t \<longleftrightarrow> False"

text \<open>The clients that put and get single items.\<close>

definition no_batches :: "'a task \<Rightarrow> bool" where
  "no_batches t \<longleftrightarrow> is_get t \<or> is_put t"

definition gets_ready :: "'a worker_queue \<Rightarrow> nat" where
  "gets_ready q = length (filter is_get (ready q))"

definition puts_ready :: "'a worker_queue \<Rightarrow> nat" where
  "puts_ready q = length (filter is_put (ready q))"

text \<open>
  There is a woken getter for every item, as long as getters sleep, and a woken
  putter for every free place, as long as putters sleep. The task in hand counts as woken.
\<close>

definition wake_inv :: "int \<Rightarrow> 'a worker_queue \<Rightarrow> 'a task option \<Rightarrow> bool" where
  "wake_inv n q t \<longleftrightarrow> capacity q = n \<and> list_all is_get (getters q) \<and> list_all is_put (putters q)
     \<and> list_all no_batches (ready q) \<and> (case t of None \<Rightarrow> True | Some u \<Rightarrow> no_batches u)
     \<and> (putters q \<noteq> [] \<longrightarrow> n > 0)
     \<and> (getters q \<noteq> [] \<longrightarrow> length (contents q) \<le> gets_ready q + (case t of None \<Rightarrow> 0 | Some u \<Rightarrow> if is_get u then 1 else 0))
     \<and> (putters q \<noteq> [] \<longrightarrow> n - int (length (contents q)) \<le> int (puts_ready q) + (case t of None \<Rightarrow> 0 | Some u \<Rightarrow> if is_put u then 1 else 0))"

lemma is_get_not_put [simp]: "is_get t \<Longrightarrow> \<not> is_put t"
  by (cases t) auto

lemma is_put_not_get [simp]: "is_put t \<Longrightarrow> \<not> is_get t"
  by (cases t) auto

lemma wake_run: "wake_inv n q (Some t) \<Longrightarrow> wake_inv n (run_task t q) None"
proof (cases t)
  case (TPut i x)
  assume q: "wake_inv n q (Some t)"
  show ?thesis
  proof (cases "w_full q")
    case False
    with q TPut show ?thesis
      by (cases "getters q")
        (auto simp: wake_inv_def run_put_def add_item_def wake_getter_def gets_ready_def puts_ready_def no_batches_def)
  qed (use q TPut in \<open>auto simp: wake_inv_def run_put_def w_full_def gets_ready_def puts_ready_def\<close>)
next
  case (TGet i)
  assume q: "wake_inv n q (Some t)"
  show ?thesis
  proof (cases "contents q")
    case (Cons x xs)
    with q TGet show ?thesis
      by (cases "putters q")
        (auto simp: wake_inv_def run_get_def remove_item_def reply_def wake_putter_def gets_ready_def puts_ready_def no_batches_def)
  qed (use q TGet in \<open>auto simp: wake_inv_def run_get_def gets_ready_def puts_ready_def\<close>)
next
  case (TBatch i target batch current)
  assume "wake_inv n q (Some t)"
  with TBatch show ?thesis by (simp add: wake_inv_def no_batches_def)
qed

lemma wake_ready:
  assumes "wake_inv n q None" "t \<in> set (ready q)"
  shows "wake_inv n (q\<lparr>ready := remove1 t (ready q)\<rparr>) (Some t)"
proof -
  from split_list_first [OF assms(2)] obtain xs ys where "ready q = xs @ t # ys" "t \<notin> set xs" by blast
  then have "gets_ready q = gets_ready (q\<lparr>ready := remove1 t (ready q)\<rparr>) + (if is_get t then 1 else 0)"
    "puts_ready q = puts_ready (q\<lparr>ready := remove1 t (ready q)\<rparr>) + (if is_put t then 1 else 0)"
    "list_all no_batches (ready q) = (no_batches t \<and> list_all no_batches (remove1 t (ready q)))"
    by (auto simp: remove1_append gets_ready_def puts_ready_def)
  with assms(1) show ?thesis by (cases "is_put t"; simp add: wake_inv_def; linarith?)
qed

lemma wake_reachable: "worker_reachable no_batches n q \<Longrightarrow> wake_inv n q None"
  by (erule worker_reachable_induct [where P = "\<lambda>q t. wake_inv n q (Some t)"])
    (auto simp: wake_run wake_ready, auto simp: wake_inv_def start_queue_def gets_ready_def puts_ready_def no_batches_def)

text \<open>
  C27. With clients that put and get single items, nobody sleeps for no reason: while
  an item is in the queue and a getter sleeps, a woken getter is about to run; while
  there is room and a putter sleeps, a woken putter is about to run.
\<close>

theorem channel_no_lost_wakeup:
  assumes "worker_reachable no_batches n q"
  shows "(contents q = [] \<or> getters q = [] \<or> list_ex is_get (ready q))
    \<and> (w_full q \<or> putters q = [] \<or> list_ex is_put (ready q))"
proof -
  have "list_ex P ts" if "0 < length (filter P ts)" for P :: "'a task \<Rightarrow> bool" and ts
    using that by (induction ts) (auto split: if_splits)
  moreover have "contents q = [] \<or> getters q = [] \<or> 0 < gets_ready q" "w_full q \<or> putters q = [] \<or> 0 < puts_ready q"
    using wake_reachable [OF assms] by (cases "contents q"; auto simp: wake_inv_def w_full_def)+
  ultimately show ?thesis unfolding gets_ready_def puts_ready_def by blast
qed

definition woken_getter :: "nat worker_queue" where
  "woken_getter = \<lparr>contents = [(0, 7)], capacity = 1, getters = [TGet 1], putters = [], ready = [TGet 0],
     accepted = [(0, 7)], taken = [], replies = []\<rparr>"

lemma woken_getter_reachable: "worker_reachable no_batches 1 woken_getter"
proof -
  have "worker_reachable no_batches 1 (run_task (TGet 0) (start_queue 1 :: nat worker_queue))"
    by (rule worker_next [OF worker_start begin_get]) (simp add: no_batches_def)
  then have "worker_reachable no_batches 1 (run_task (TGet 1) (run_task (TGet 0) (start_queue 1 :: nat worker_queue)))"
    by (rule worker_next [OF _ begin_get]) (simp add: no_batches_def)
  then have "worker_reachable no_batches 1 (run_task (TPut 2 (0, 7)) (run_task (TGet 1) (run_task (TGet 0) (start_queue 1 :: nat worker_queue))))"
    by (rule worker_next [OF _ begin_put]) (simp add: no_batches_def)
  then show ?thesis
    by (simp add: start_queue_def run_get_def run_put_def w_full_def add_item_def wake_getter_def woken_getter_def)
qed

theorem channel_no_lost_wakeup_witness:
  "list_ex is_get (ready woken_getter)"
  using channel_no_lost_wakeup [OF woken_getter_reachable] by (simp add: woken_getter_def)

text \<open>
  With batches this fails: \<open>peek\<close> sleeps among the getters and takes the wake-up
  of a put, but a batch that the item would make too heavy leaves the item in the
  queue and wakes nobody. In a reachable state an item is in the queue, a \<open>get\<close>
  sleeps, and no task is about to run.
\<close>

lemma batch_strands_getter:
  "\<exists>q :: nat worker_queue. worker_reachable any_request 0 q \<and> contents q \<noteq> [] \<and> getters q = [TGet 1] \<and> ready q = []"
  using stranded_reachable by (intro exI [of _ stranded]) (simp add: stranded_def)

section \<open>Batches\<close>

lemma run_batch_prefix:
  "let p = weight_prefix (target - current) (contents q);
       q' = run_batch i target batch current q
   in if p < length (contents q) \<or> contents q \<noteq> [] \<and> sum_list (map fst (take p (contents q))) = target - current
      then contents q' = drop p (contents q) \<and> replies q' = replies q @ [(i, batch @ take p (contents q))] \<and> getters q' = getters q
      else contents q' = [] \<and> replies q' = replies q
        \<and> getters q' = getters q @ [TBatch i target (batch @ contents q) (current + sum_list (map fst (contents q)))]"
proof (induction i target batch current q rule: run_batch.induct)
  case (1 i target batch current q)
  have R: "getters (remove_item x xs q) = getters q" "replies (remove_item x xs q) = replies q" for x xs
    by (simp_all add: remove_item_def)
  show ?case
  proof (cases "contents q")
    case Nil
    then show ?thesis by (simp add: run_batch.simps [of i target batch current q])
  next
    case (Cons x xs)
    consider "current + fst x > target" | "current + fst x = target" | "current + fst x < target" by linarith
    then show ?thesis
    proof cases
      case 1
      with Cons show ?thesis by (simp add: run_batch.simps [of i target batch current q] reply_def)
    next
      case 2
      then have "fst x = target - current" by simp
      with 2 Cons show ?thesis by (simp add: run_batch.simps [of i target batch current q] reply_def R)
    next
      case 3
      define q' where "q' = run_batch i target (batch @ [x]) (current + fst x) (remove_item x xs q)"
      define p where "p = weight_prefix (target - current - fst x) xs"
      have budget: "target - (current + fst x) = target - current - fst x" by simp
      have IH: "if p < length xs \<or> xs \<noteq> [] \<and> sum_list (map fst (take p xs)) = target - current - fst x
        then contents q' = drop p xs \<and> replies q' = replies q @ [(i, (batch @ [x]) @ take p xs)] \<and> getters q' = getters q
        else contents q' = [] \<and> replies q' = replies q
          \<and> getters q' = getters q @ [TBatch i target ((batch @ [x]) @ xs) (current + fst x + sum_list (map fst xs))]"
        using 1(1) [OF Cons] 3 unfolding budget by (simp add: R Let_def q'_def p_def split: if_splits)
      have b: "run_batch i target batch current q = q'"
        using 3 Cons by (simp add: q'_def run_batch.simps [of i target batch current q])
      have p: "weight_prefix (target - current) (contents q) = Suc p"
        using 3 Cons by (simp add: p_def)
      have e: "sum_list (map fst (take (Suc p) (x # xs))) = target - current
          \<longleftrightarrow> xs \<noteq> [] \<and> sum_list (map fst (take p xs)) = target - current - fst x"
        using 3 by (cases xs) auto
      show ?thesis unfolding Let_def b p unfolding Cons e using IH by (simp split: if_splits)
    qed
  qed
qed

text \<open>
  The two implementations of \<open>get_batch\<close> agree: the coroutine of the channel
  worker, run on a queue, replies with exactly the run of items that the local
  channel's loop takes, and leaves the same rest, when this run ends before the queue
  does or meets the target exactly; otherwise it has taken everything and sleeps
  among the getters, where the local channel returns an incomplete batch.
\<close>

lemma batch_implementations_agree:
  "local_batch target 0 [] (contents q) \<lparr>contents = contents q, capacity = capacity q\<rparr>
     = Inr (\<lparr>contents = drop (weight_prefix target (contents q)) (contents q), capacity = capacity q\<rparr>,
            map snd (take (weight_prefix target (contents q)) (contents q)))
   \<and> (let p = weight_prefix target (contents q); q' = run_task (TBatch i target [] 0) q
      in if p < length (contents q) \<or> contents q \<noteq> [] \<and> sum_list (map fst (take p (contents q))) = target
         then contents q' = drop p (contents q) \<and> replies q' = replies q @ [(i, take p (contents q))] \<and> getters q' = getters q
         else contents q' = [] \<and> replies q' = replies q
           \<and> getters q' = getters q @ [TBatch i target (contents q) (sum_list (map fst (contents q)))])"
  using run_batch_prefix [of target 0 q i "[]"] local_batch_prefix [OF refl, of target 0 "[]" "\<lparr>contents = contents q, capacity = capacity q\<rparr>"]
  by (simp add: Let_def split: if_splits)

end
