(* ===== verification/Channel_Client.thy ===== *)
theory Channel_Client
  imports Channel_Worker
begin

text \<open>
  The worker's end of a channel, \<^verbatim>\<open>rlinf/scheduler/channel/channel.py\<close>, with
  \<open>AsyncChannelCommWork\<close> and \<open>AsyncChannelWork\<close> of
  \<^verbatim>\<open>rlinf/scheduler/collective/async_work.py\<close>: which replica hosts a key, how the
  replies of the channel worker find the query that they answer, and the order in
  which the puts of one key run.

  Ray and the collective group are outside: a reply is a pair of the data and the
  identifier of its query, and the receives of one worker from one replica are
  matched with the replies in the order in which both are issued.
\<close>

section \<open>The replica of a key\<close>

type_synonym rank_map = "(string \<times> int) list"

text \<open>\<open>ChannelWorker.ensure_key_replica\<close>, run on replica 0.\<close>

definition ensure_key_replica :: "int \<Rightarrow> string \<Rightarrow> int \<Rightarrow> rank_map \<Rightarrow> rank_map \<times> int" where
  "ensure_key_replica world_size key src_node_rank m =
     (let default_rank = (if 0 \<le> src_node_rank \<and> src_node_rank < world_size then src_node_rank else 0) in
      case map_of m key of Some r \<Rightarrow> (m, r) | None \<Rightarrow> (m @ [(key, default_rank)], default_rank))"

text \<open>\<open>Channel._get_channel_rank_by_key\<close>: the client's cache and the map of the server, both updated.\<close>

record channel_client =
  is_local :: bool
  distributed :: bool
  node_of_worker :: "int option"
  rank_cache :: rank_map

definition get_src_node_rank :: "channel_client \<Rightarrow> int" where
  "get_src_node_rank c = (case node_of_worker c of Some r \<Rightarrow> r | None \<Rightarrow> 0)"

definition get_channel_rank_by_key ::
  "int \<Rightarrow> string \<Rightarrow> channel_client \<Rightarrow> rank_map \<Rightarrow> channel_client \<times> rank_map \<times> int" where
  "get_channel_rank_by_key world_size key c server =
     (if is_local c then (c, server, -1)
      else if \<not> distributed c then (c, server, 0)
      else case map_of (rank_cache c) key of
        Some r \<Rightarrow> (c, server, r)
      | None \<Rightarrow>
          let (server', r) = ensure_key_replica world_size key (get_src_node_rank c) server
          in (c\<lparr>rank_cache := rank_cache c @ [(key, r)]\<rparr>, server', r))"

text \<open>\<open>_get_channel_actor\<close>: a rank without an actor falls back to the main one.\<close>

definition get_channel_actor :: "(int \<times> 'h) list \<Rightarrow> 'h \<Rightarrow> int \<Rightarrow> 'h" where
  "get_channel_actor actors main rank = (case map_of actors rank of Some h \<Rightarrow> h | None \<Rightarrow> main)"

text \<open>Any clients look up any keys, one after the other; the log lists what each was told.\<close>

fun rank_lookups ::
  "int \<Rightarrow> (nat \<times> string) list \<Rightarrow> (nat \<Rightarrow> channel_client) \<Rightarrow> rank_map \<Rightarrow> (nat \<times> string \<times> int) list" where
  "rank_lookups world_size [] cs server = []"
| "rank_lookups world_size ((i, key) # ls) cs server =
     (let (c, server', r) = get_channel_rank_by_key world_size key (cs i) server
      in (i, key, r) # rank_lookups world_size ls (cs(i := c)) server')"

definition caches_ok :: "int \<Rightarrow> (nat \<Rightarrow> channel_client) \<Rightarrow> rank_map \<Rightarrow> bool" where
  "caches_ok world_size cs server \<longleftrightarrow>
     (\<forall>i key r. map_of (rank_cache (cs i)) key = Some r \<longrightarrow> map_of server key = Some r)
     \<and> (\<forall>key r. map_of server key = Some r \<longrightarrow> 0 \<le> r \<and> r < world_size)"

lemma map_of_append_new: "map_of m k = None \<Longrightarrow> map_of (m @ [(k, v)]) = (map_of m)(k \<mapsto> v)"
  by (auto simp: map_add_def split: option.splits)

lemma rank_by_key_ok:
  assumes "caches_ok w cs server" "0 < w" "\<not> is_local (cs i)" "distributed (cs i)"
    and "get_channel_rank_by_key w key (cs i) server = (c, server', r)"
  shows "caches_ok w (cs(i := c)) server' \<and> map_of server' key = Some r \<and> map_of server \<subseteq>\<^sub>m map_of server'
    \<and> is_local c = is_local (cs i) \<and> distributed c = distributed (cs i)"
proof (cases "map_of (rank_cache (cs i)) key")
  case (Some q)
  then have "c = cs i" "server' = server" "r = q" using assms(3-5) by (auto simp: get_channel_rank_by_key_def)
  with Some assms(1) show ?thesis by (simp add: caches_ok_def)
next
  case None
  obtain server1 r1 where e: "ensure_key_replica w key (get_src_node_rank (cs i)) server = (server1, r1)" by fastforce
  with None assms(3-5) have c: "c = (cs i)\<lparr>rank_cache := rank_cache (cs i) @ [(key, r)]\<rparr>" "server' = server1" "r = r1"
    by (auto simp: get_channel_rank_by_key_def)
  have s: "map_of server' key = Some r" "map_of server \<subseteq>\<^sub>m map_of server'" "0 \<le> r \<and> r < w"
    "\<And>k v. map_of server' k = Some v \<Longrightarrow> map_of server k = Some v \<or> (k = key \<and> v = r)"
    using e assms(1,2) c by (auto simp: ensure_key_replica_def Let_def caches_ok_def map_of_append_new map_le_def
        simp del: map_of_append split: option.splits if_splits)
  have "map_of (rank_cache c) k = Some v \<Longrightarrow> map_of (rank_cache (cs i)) k = Some v \<or> (k = key \<and> v = r)" for k v
    using None by (auto simp: c map_of_append_new simp del: map_of_append split: if_splits)
  with s assms(1) show ?thesis
    unfolding caches_ok_def by (auto simp: c map_le_def dom_def) (metis option.distinct(1) option.sel)+
qed

lemma rank_lookups_agree:
  assumes "caches_ok w cs server" "0 < w" "\<forall>i. \<not> is_local (cs i) \<and> distributed (cs i)"
  shows "\<exists>m. map_of server \<subseteq>\<^sub>m m \<and> list_all (\<lambda>(i, key, r). m key = Some r \<and> 0 \<le> r \<and> r < w) (rank_lookups w ls cs server)"
  using assms
proof (induction ls arbitrary: cs server)
  case Nil
  then show ?case by (auto intro: map_le_refl)
next
  case (Cons l ls)
  obtain i key where l: "l = (i, key)" by (cases l)
  obtain c server' r where g: "get_channel_rank_by_key w key (cs i) server = (c, server', r)" by (cases "get_channel_rank_by_key w key (cs i) server") auto
  from Cons.prems(3) have d: "\<not> is_local (cs i)" "distributed (cs i)" by auto
  note s = rank_by_key_ok [OF Cons.prems(1,2) d g]
  then have "\<forall>j. \<not> is_local ((cs(i := c)) j) \<and> distributed ((cs(i := c)) j)" using Cons.prems(3) by simp
  from Cons.IH [OF _ Cons.prems(2) this] s obtain m where m: "map_of server' \<subseteq>\<^sub>m m"
    "list_all (\<lambda>(i, key, r). m key = Some r \<and> 0 \<le> r \<and> r < w) (rank_lookups w ls (cs(i := c)) server')" by blast
  from s have mk: "map_of server' key = Some r" by simp
  have "m key = Some r" using m(1) mk by (metis domI map_le_def)
  moreover have "map_of server \<subseteq>\<^sub>m m" using s m(1) map_le_trans by blast
  moreover have "0 \<le> r \<and> r < w" using s mk unfolding caches_ok_def by blast
  ultimately show ?case using m(2) g by (auto simp: l)
qed

text \<open>
  Whatever nodes the clients of a distributed channel are on, and whatever keys
  they look up in whatever order, all of them are told the same replica for the same
  key, now and later, and it is one of the replicas.
\<close>

lemma replica_agreement:
  assumes "0 < w" "\<forall>i. \<not> is_local (cs i) \<and> distributed (cs i) \<and> rank_cache (cs i) = []"
  shows "\<exists>m. list_all (\<lambda>(i, key, r). m key = Some r \<and> 0 \<le> r \<and> r < w) (rank_lookups w ls cs [])"
  using rank_lookups_agree [of w cs "[]" ls] assms by (auto simp: caches_ok_def)

definition client_on :: "nat \<Rightarrow> channel_client" where
  "client_on i = \<lparr>is_local = False, distributed = True, node_of_worker = Some (int i), rank_cache = []\<rparr>"

section \<open>Replies and queries\<close>

text \<open>
  A receive that \<open>get\<close> has issued, with the query it was issued for: a synchronous
  \<open>get\<close> waits for the receive itself and drops the identifier that comes with the
  data; an asynchronous one stores the data under the identifier and waits for its
  own entry in the store.
\<close>

datatype recv_slot = SyncRecv nat | AsyncRecv nat

fun query_of :: "recv_slot \<Rightarrow> nat" where
  "query_of (SyncRecv q) = q"
| "query_of (AsyncRecv q) = q"

record 'a get_state =
  slots :: "recv_slot list"
  store :: "(nat \<times> 'a) list"
  answered :: "(nat \<times> 'a) list"

text \<open>A reply arrives: \<open>_store_channel_data\<close> of an asynchronous receive, or the end of a synchronous \<open>get\<close>.\<close>

fun deliver :: "'a get_state \<Rightarrow> 'a \<times> nat \<Rightarrow> 'a get_state res" where
  "deliver s (data, query_id) =
     (case slots s of
        [] \<Rightarrow> Inl RuntimeError
      | SyncRecv q # rest \<Rightarrow> Inr (s\<lparr>slots := rest, answered := answered s @ [(q, data)]\<rparr>)
      | AsyncRecv q # rest \<Rightarrow> Inr (s\<lparr>slots := rest, store := AList.update query_id data (store s)\<rparr>))"

text \<open>\<open>AsyncChannelCommWork.wait\<close>, which does not return before the entry is there.\<close>

definition async_wait :: "nat \<Rightarrow> 'a get_state \<Rightarrow> 'a get_state comp" where
  "async_wait q s =
     (case map_of (store s) q of
        None \<Rightarrow> None
      | Some data \<Rightarrow> Some (Inr (s\<lparr>store := AList.delete q (store s), answered := answered s @ [(q, data)]\<rparr>)))"

definition issue :: "recv_slot list \<Rightarrow> 'a get_state" where
  "issue qs = \<lparr>slots = qs, store = [], answered = []\<rparr>"

text \<open>All replies arrive, then every asynchronous query is waited for.\<close>

fun wait_all :: "nat list \<Rightarrow> 'a get_state \<Rightarrow> 'a get_state comp" where
  "wait_all [] s = Some (Inr s)"
| "wait_all (q # qs) s = cbind (async_wait q s) (wait_all qs)"

definition run_gets :: "recv_slot list \<Rightarrow> ('a \<times> nat) list \<Rightarrow> nat list \<Rightarrow> (nat \<times> 'a) list comp" where
  "run_gets qs arrivals waits =
     cbind (Some (rfold deliver (issue qs) arrivals)) (\<lambda>s. cbind (wait_all waits s) (\<lambda>s'. Some (Inr (answered s'))))"

lemma deliver_async:
  assumes "length arrivals = length qs" "distinct (map fst st @ map snd arrivals)"
  shows "\<exists>st'. rfold deliver \<lparr>slots = map AsyncRecv qs, store = st, answered = ans\<rparr> arrivals
      = Inr \<lparr>slots = [], store = st', answered = ans\<rparr>
    \<and> map_of st' = map_of (map (\<lambda>(d, q). (q, d)) arrivals @ st)"
  using assms
proof (induction arrivals arbitrary: qs st)
  case (Cons a arrivals)
  obtain d q where a: "a = (d, q)" by (cases a)
  obtain q0 qs' where qs: "qs = q0 # qs'" using Cons.prems(1) by (cases qs) auto
  let ?st = "AList.update q d st"
  have "q \<notin> fst ` set st" using Cons.prems(2) by (auto simp: a)
  then have u: "?st = st @ [(q, d)]" by (induction st) auto
  have "distinct (map fst ?st @ map snd arrivals)" using Cons.prems(2) unfolding u by (auto simp: a)
  from Cons.IH [of qs' ?st, OF _ this] Cons.prems(1) obtain st' where st':
    "rfold deliver \<lparr>slots = map AsyncRecv qs', store = ?st, answered = ans\<rparr> arrivals = Inr \<lparr>slots = [], store = st', answered = ans\<rparr>"
    "map_of st' = map_of (map (\<lambda>(d, q). (q, d)) arrivals @ ?st)" by (auto simp: qs)
  have "q \<notin> fst ` set (map (\<lambda>(d, q). (q, d)) arrivals)" using Cons.prems(2) by (auto simp: a image_iff)
  then have "map_of (map (\<lambda>(d, q). (q, d)) arrivals @ ?st) = map_of (map (\<lambda>(d, q). (q, d)) (a # arrivals) @ st)"
    using \<open>q \<notin> fst ` set st\<close>
    by (intro ext) (auto simp: a u map_add_def map_of_eq_None_iff [THEN iffD2] split: option.splits dest: map_of_SomeD)
  with st' show ?case by (auto simp: a qs)
qed simp

lemma wait_all_store:
  assumes "distinct waits" "\<forall>q\<in>set waits. map_of (store s) q = Some (f q)"
  shows "\<exists>s'. wait_all waits s = Some (Inr s') \<and> answered s' = answered s @ map (\<lambda>q. (q, f q)) waits"
  using assms
proof (induction waits arbitrary: s)
  case (Cons q qs)
  let ?s = "s\<lparr>store := AList.delete q (store s), answered := answered s @ [(q, f q)]\<rparr>"
  have "\<forall>p\<in>set qs. map_of (store ?s) p = Some (f p)" using Cons.prems by (auto simp: delete_conv')
  from Cons.IH [OF _ this] Cons.prems show ?case by (auto simp: async_wait_def)
qed simp

text \<open>
  When a worker only issues asynchronous gets, every one of them returns the data
  of its own query, for any order in which the channel worker answers and any order
  in which the worker waits: the receives are answered out of order, and the store
  puts this right.
\<close>

lemma async_gets_own_data:
  assumes "distinct qs" "mset waits = mset qs" "mset arrivals = mset (map (\<lambda>q. (answer q, q)) qs)"
  shows "run_gets (map AsyncRecv qs) arrivals waits = Some (Inr (map (\<lambda>q. (q, answer q)) waits))"
proof -
  have len: "length arrivals = length qs" using assms(3) by (metis length_map mset_eq_length)
  have "mset (map snd arrivals) = mset (map snd (map (\<lambda>q. (answer q, q)) qs))"
    unfolding mset_map [of snd] assms(3) ..
  then have ids: "mset (map snd arrivals) = mset qs" by (simp add: comp_def)
  then have d: "distinct (map snd arrivals)" using assms(1) by (metis mset_eq_imp_distinct_iff)
  have "distinct waits" using assms(1,2) by (metis mset_eq_imp_distinct_iff)
  moreover have w: "set waits = set qs" using assms(2) by (metis set_mset_mset)
  obtain st where st: "rfold deliver (issue (map AsyncRecv qs)) arrivals = Inr \<lparr>slots = [], store = st, answered = []\<rparr>"
    "map_of st = map_of (map (\<lambda>(d, q). (q, d)) arrivals)"
    using deliver_async [OF len, of "[]" "[]"] d by (auto simp: issue_def)
  have set: "set arrivals = (\<lambda>q. (answer q, q)) ` set qs" using arg_cong [OF assms(3), of set_mset] by simp
  have "map_of st q = Some (answer q)" if "q \<in> set qs" for q
    unfolding st(2) by (rule map_of_is_SomeI) (use d set that in \<open>auto simp: comp_def case_prod_unfold image_image\<close>)
  ultimately obtain s' where "wait_all waits \<lparr>slots = [], store = st, answered = []\<rparr> = Some (Inr s')"
    "answered s' = map (\<lambda>q. (q, answer q)) waits"
    using wait_all_store [of waits "\<lparr>slots = [], store = st, answered = []\<rparr>" answer] w by auto
  with st(1) show ?thesis by (simp add: run_gets_def)
qed

text \<open>
  A synchronous get that is issued while an asynchronous one is outstanding can
  return the wrong item: when the later query is answered first, the synchronous
  \<open>get\<close> returns the data of the asynchronous query, and the asynchronous one never
  returns.
\<close>

lemma mixed_get_swaps:
  "rfold deliver (issue [AsyncRecv 1, SyncRecv 2]) [(b, 2), (a, 1)]
     = Inr \<lparr>slots = [], store = [(2, b)], answered = [(2, a)]\<rparr>
   \<and> run_gets [AsyncRecv 1, SyncRecv 2] [(b, 2), (a, 1)] [1] = None"
  by (simp add: issue_def run_gets_def async_wait_def)

section \<open>The order of puts\<close>

text \<open>
  \<open>AsyncChannelWork\<close>: the call of a put on the channel actor starts when the put of
  the same key before it is done. The state lists, for each key, the puts that are
  not done, oldest first; only the first of them has been sent to the actor.
\<close>

type_synonym put_chains = "(string \<times> nat list) list"

definition chain_of :: "put_chains \<Rightarrow> string \<Rightarrow> nat list" where
  "chain_of m k = (case map_of m k of None \<Rightarrow> [] | Some ps \<Rightarrow> ps)"

text \<open>Both give the put that starts running on the actor, if one does.\<close>

definition chain_enqueue :: "string \<Rightarrow> nat \<Rightarrow> put_chains \<Rightarrow> put_chains \<times> nat option" where
  "chain_enqueue k p m = (AList.update k (chain_of m k @ [p]) m, if chain_of m k = [] then Some p else None)"

definition chain_done :: "string \<Rightarrow> put_chains \<Rightarrow> put_chains \<times> nat option" where
  "chain_done k m =
     (case chain_of m k of
        [] \<Rightarrow> (m, None)
      | p # ps \<Rightarrow> (AList.update k ps m, case ps of [] \<Rightarrow> None | q # qs \<Rightarrow> Some q))"

datatype chain_event = Enqueue string nat | Done string

fun chain_run :: "chain_event list \<Rightarrow> put_chains \<Rightarrow> (string \<times> nat) list" where
  "chain_run [] m = []"
| "chain_run (Enqueue k p # es) m =
     (let (m', s) = chain_enqueue k p m in (case s of None \<Rightarrow> [] | Some q \<Rightarrow> [(k, q)]) @ chain_run es m')"
| "chain_run (Done k # es) m =
     (let (m', s) = chain_done k m in (case s of None \<Rightarrow> [] | Some q \<Rightarrow> [(k, q)]) @ chain_run es m')"

fun enqueued :: "string \<Rightarrow> chain_event list \<Rightarrow> nat list" where
  "enqueued k [] = []"
| "enqueued k (Enqueue j p # es) = (if j = k then p # enqueued k es else enqueued k es)"
| "enqueued k (Done j # es) = enqueued k es"

lemma chain_of_update [simp]: "chain_of (AList.update k ps m) j = (if j = k then ps else chain_of m j)"
  by (simp add: chain_of_def update_conv')

lemma chain_run_prefix:
  "\<exists>rest. tl (chain_of m k) @ enqueued k es = map snd (filter (\<lambda>s. fst s = k) (chain_run es m)) @ rest
    \<or> chain_of m k = [] \<and> enqueued k es = map snd (filter (\<lambda>s. fst s = k) (chain_run es m)) @ rest"
proof (induction es arbitrary: m)
  case (Cons e es)
  show ?case
  proof (cases e)
    case (Enqueue j p)
    show ?thesis
    proof (cases "j = k")
      case True
      then show ?thesis using Cons.IH [of "fst (chain_enqueue k p m)"]
        by (cases "chain_of m k") (auto simp: Enqueue chain_enqueue_def)
    qed (use Cons.IH [of "fst (chain_enqueue j p m)"] in \<open>auto simp: Enqueue chain_enqueue_def split: option.split\<close>)
  next
    case (Done j)
    show ?thesis
    proof (cases "j = k")
      case True
      then show ?thesis using Cons.IH [of "fst (chain_done k m)"]
        by (cases "chain_of m k"; cases "tl (chain_of m k)") (auto simp: Done chain_done_def)
    next
      case False
      then show ?thesis using Cons.IH [of "fst (chain_done j m)"]
        by (cases "chain_of m j") (auto simp: Done chain_done_def split: option.split list.splits)
    qed
  qed
qed auto

text \<open>
  The puts of one key run on the channel actor in the order in which the worker
  issued them, each after the one before it is done, however the puts of other keys
  are mixed with them: what has been started is always a prefix of what was issued.
\<close>

lemma puts_run_in_order:
  "\<exists>rest. enqueued k es = map snd (filter (\<lambda>s. fst s = k) (chain_run es [])) @ rest"
  using chain_run_prefix [of "[]" k es] by (auto simp: chain_of_def)

end
