(* ===== verification/Component_Placement.thy ===== *)
theory Component_Placement
  imports Placements Rank_Config
begin

text \<open>
  The configuration of component placements, \<open>ComponentPlacement\<close> of
  \<^verbatim>\<open>rlinf/scheduler/placement/placement.py\<close>: from a text such as
  \<open>0-1:0-3,3-5,7-10:7-14\<close> (resource ranks, and the process ranks that share them) to
  the rank map, from the rank map to the resources of every process, and from there to
  a placement strategy for each component.

  The dictionaries are association lists in the order of insertion.
\<close>

section \<open>The rank map\<close>

type_synonym rank_map = "(int list \<times> int list) list"

text \<open>The loop state: resource ranks and process ranks parsed so far, and the rank map.\<close>

type_synonym parse_state = "int list \<times> int list \<times> rank_map"

definition parse_process_ranks :: "nat \<Rightarrow> int list \<Rightarrow> string option \<Rightarrow> int list res" where
  "parse_process_ranks num_resources parsed part =
     (case part of
        Some p \<Rightarrow> (let t = py_strip p in if t = ''all'' then Inl AssertionError else parse_rank_config t None)
      | None \<Rightarrow>
          let rs = py_range (int num_resources) in
          Inr (if parsed = [] then rs else map (\<lambda>r. r + Max (set parsed) + 1) rs))"

definition add_ranks :: "parse_state \<Rightarrow> int list \<Rightarrow> int list \<Rightarrow> parse_state res" where
  "add_ranks st resources processes =
     (case st of (parsed_resources, parsed_processes, m) \<Rightarrow>
        if processes = [] then Inl AssertionError
        else if set processes \<inter> set parsed_processes \<noteq> {} then Inl AssertionError
        else if parsed_processes \<noteq> [] \<and> hd processes \<noteq> last parsed_processes + 1 then Inl AssertionError
        else if processes \<noteq> py_range3 (hd processes) (hd processes + int (length processes)) 1 then Inl AssertionError
        else if \<not> (length processes mod length resources = 0 \<or> length resources mod length processes = 0)
        then Inl AssertionError
        else Inr (parsed_resources @ resources, parsed_processes @ processes, AList.update resources processes m))"

definition parse_ranks :: "int \<Rightarrow> parse_state \<Rightarrow> string \<Rightarrow> string option \<Rightarrow> parse_state res" where
  "parse_ranks hw_count st resource_part process_part =
     (case st of (parsed_resources, parsed_processes, m) \<Rightarrow>
        rbind (parse_rank_config (py_strip resource_part) (Some (py_range hw_count))) (\<lambda>resources.
        if resources = [] then Inl AssertionError
        else if set resources \<inter> set parsed_resources \<noteq> {} then Inl AssertionError
        else if parsed_resources \<noteq> [] \<and> \<not> hd resources > last parsed_resources then Inl AssertionError
        else rbind (parse_process_ranks (length resources) parsed_processes process_part) (\<lambda>processes.
             add_ranks st resources processes)))"

definition parse_rank_part :: "int \<Rightarrow> parse_state \<Rightarrow> string \<Rightarrow> parse_state res" where
  "parse_rank_part hw_count st part =
     (let t = py_strip part in
      if t = [] then Inr st
      else case py_split (CHR '':'') t of
        [r] \<Rightarrow> parse_ranks hw_count st r None
      | [r, p] \<Rightarrow> parse_ranks hw_count st r (Some p)
      | _ \<Rightarrow> Inl AssertionError)"

definition parse_rank_map :: "string \<Rightarrow> resolver \<Rightarrow> rank_map res" where
  "parse_rank_map rank_map_str rs =
     rbind (rfold (parse_rank_part (total_hardware_count rs)) ([], [], []) (py_split (CHR '','') (py_strip rank_map_str)))
       (\<lambda>(_, _, m). Inr m)"

section \<open>The resources of a process\<close>

type_synonym process_map = "(int \<times> int list) list"

definition set_resources :: "process_map \<Rightarrow> int \<times> int list \<Rightarrow> process_map" where
  "set_resources pm x = AList.update (fst x) (snd x) pm"

definition append_resource :: "process_map \<Rightarrow> int \<times> int \<Rightarrow> process_map" where
  "append_resource pm x =
     AList.update (fst x) ((case map_of pm (fst x) of None \<Rightarrow> [] | Some rs \<Rightarrow> rs) @ [snd x]) pm"

definition assign_resources :: "process_map \<Rightarrow> int list \<times> int list \<Rightarrow> process_map res" where
  "assign_resources pm part =
     (case part of (resources, processes) \<Rightarrow>
        if length resources \<ge> length processes
        then if processes = [] then Inl ZeroDivisionError
             else let per = length resources div length processes in
               Inr (foldl set_resources pm
                 (map (\<lambda>(i, p). (p, take per (drop (i * per) resources))) (enumerate 0 processes)))
        else if resources = [] then Inl ZeroDivisionError
             else let per = length processes div length resources in
               Inr (foldl append_resource pm
                 (concat (map (\<lambda>(i, r). map (\<lambda>j. (processes ! (i * per + j), r)) [0..<per]) (enumerate 0 resources)))))"

definition rank_map_to_process_resources_map :: "rank_map \<Rightarrow> process_map res" where
  "rank_map_to_process_resources_map m = rfold assign_resources [] m"

text \<open>The resources in the order of the sorted process ranks.\<close>

definition process_lists :: "process_map \<Rightarrow> int list list" where
  "process_lists pm = map (\<lambda>p. the (map_of pm p)) (sort (map fst pm))"

definition gen_node_placement :: "rank_map \<Rightarrow> node_group list \<Rightarrow> node_strategy res" where
  "gen_node_placement m gs =
     rbind (rank_map_to_process_resources_map m) (\<lambda>pm.
     rbind (rmap (\<lambda>rs. if length rs = 1 then Inr (hd rs) else Inl AssertionError) (process_lists pm)) (\<lambda>node_ranks.
     make_node_strategy node_ranks (Some (map label gs))))"

definition gen_resource_placement :: "rank_map \<Rightarrow> node_group list \<Rightarrow> flexible_strategy res" where
  "gen_resource_placement m gs =
     rbind (rank_map_to_process_resources_map m) (\<lambda>pm.
     make_flexible_strategy (process_lists pm) (Some (map label gs)))"

section \<open>Components\<close>

text \<open>A configuration entry: a text, or a text with node groups, as one text or as a list of labels.\<close>

datatype group_choice = Group_Text string | Group_List "string list"

datatype component_config = Placement_Text string | Placement_In "group_choice option" string

datatype strategy = On_Nodes node_strategy | On_Resources flexible_strategy

record component_state =
  placements :: "(string \<times> strategy) list"
  components :: "string list"
  component_world_size :: "(string \<times> int) list"
  component_rank_map :: "(string \<times> rank_map) list"

definition choice_labels :: "group_choice \<Rightarrow> string list" where
  "choice_labels ch =
     (case ch of
        Group_Text t \<Rightarrow> if CHR '','' \<in> set t then map py_strip (py_split (CHR '','') t) else [t]
      | Group_List ls \<Rightarrow> ls)"

definition labelled_groups :: "cluster \<Rightarrow> string list \<Rightarrow> node_group list res" where
  "labelled_groups c ls = rmap (\<lambda>l. case get_node_group c (Some l) of None \<Rightarrow> Inl AssertionError | Some g \<Rightarrow> Inr g) ls"

definition config_node_groups :: "cluster \<Rightarrow> component_config \<Rightarrow> (node_group list \<times> string) res" where
  "config_node_groups c cfg =
     (case cfg of
        Placement_Text t \<Rightarrow> rbind (default_group c) (\<lambda>gs. Inr (gs, t))
      | Placement_In None t \<Rightarrow> rbind (default_group c) (\<lambda>gs. Inr (gs, t))
      | Placement_In (Some ch) t \<Rightarrow> rbind (labelled_groups c (choice_labels ch)) (\<lambda>gs. Inr (gs, t)))"

definition component_strategy :: "cluster \<Rightarrow> component_config \<Rightarrow> (strategy \<times> rank_map) res" where
  "component_strategy c cfg =
     rbind (config_node_groups c cfg) (\<lambda>(gs, t).
     let rs = make_resolver gs in
     rbind (parse_rank_map t rs) (\<lambda>m.
     case hardware_types rs of
       None \<Rightarrow> rbind (gen_node_placement m gs) (\<lambda>s. Inr (On_Nodes s, m))
     | Some _ \<Rightarrow> rbind (gen_resource_placement m gs) (\<lambda>s. Inr (On_Resources s, m))))"

fun add_component :: "strategy \<Rightarrow> rank_map \<Rightarrow> component_state \<Rightarrow> string \<Rightarrow> component_state res" where
  "add_component s m st name =
     (if name \<in> set (map fst (placements st)) then Inl AssertionError
      else Inr (st\<lparr>placements := placements st @ [(name, s)],
        component_world_size := component_world_size st @ [(name, int (sum_list (map (\<lambda>p. length (snd p)) m)))],
        component_rank_map := component_rank_map st @ [(name, m)]\<rparr>))"

definition parse_component_placement :: "cluster \<Rightarrow> component_config \<Rightarrow> string list \<Rightarrow> component_state \<Rightarrow> component_state res" where
  "parse_component_placement c cfg names st =
     rbind (component_strategy c cfg) (\<lambda>(s, m). rfold (add_component s m) st names)"

definition component_placement :: "cluster \<Rightarrow> (string \<times> component_config) list \<Rightarrow> component_state res" where
  "component_placement c cfgs =
     rbind (rfold (\<lambda>st (key, cfg).
         let names = map py_strip (py_split (CHR '','') key) in
         rbind (parse_component_placement c cfg names st) (\<lambda>st'. Inr (st'\<lparr>components := components st' @ names\<rparr>)))
       \<lparr>placements = [], components = [], component_world_size = [], component_rank_map = []\<rparr> cfgs) (\<lambda>st.
     if distinct (components st) then Inr st else Inl AssertionError)"

definition lookup_component :: "(string \<times> 'v) list \<Rightarrow> string \<Rightarrow> 'v res" where
  "lookup_component m name = (case map_of m name of None \<Rightarrow> Inl AssertionError | Some v \<Rightarrow> Inr v)"

definition get_hardware_ranks :: "component_state \<Rightarrow> string \<Rightarrow> int list res" where
  "get_hardware_ranks st name = rbind (lookup_component (component_rank_map st) name) (\<lambda>m. Inr (concat (map fst m)))"

definition get_world_size :: "component_state \<Rightarrow> string \<Rightarrow> int res" where
  "get_world_size st name = lookup_component (component_world_size st) name"

definition get_strategy :: "component_state \<Rightarrow> string \<Rightarrow> strategy res" where
  "get_strategy st name = lookup_component (placements st) name"

section \<open>What a successful parse means\<close>

text \<open>
  Resources ascend within the hardware there is, processes are consecutive, and in
  each part the numbers divide one another.
\<close>

definition part_ok :: "int list \<times> int list \<Rightarrow> bool" where
  "part_ok part \<longleftrightarrow> fst part \<noteq> [] \<and> snd part \<noteq> []
     \<and> (length (snd part) mod length (fst part) = 0 \<or> length (fst part) mod length (snd part) = 0)"

definition consecutive :: "int list \<Rightarrow> bool" where
  "consecutive ps \<longleftrightarrow> ps = map (\<lambda>i. hd ps + int i) [0..<length ps]"

definition rank_map_ok :: "int \<Rightarrow> rank_map \<Rightarrow> bool" where
  "rank_map_ok hw_count m \<longleftrightarrow> sorted_wrt (<) (concat (map fst m)) \<and> set (concat (map fst m)) \<subseteq> {0..<hw_count}
     \<and> consecutive (concat (map snd m)) \<and> list_all part_ok m"

lemma available_ranks:
  assumes "parse_rank_config s (Some (py_range hw_count)) = Inr ranks"
  shows "sorted_wrt (<) ranks \<and> set ranks \<subseteq> {0..<hw_count}"
proof -
  from rank_config_ok [OF assms] have "sorted_wrt (<) ranks" by (simp add: strict_sorted_iff)
  moreover have "set ranks \<subseteq> {0..<hw_count}"
  proof (cases "0 < hw_count")
    case True
    have "Min {0..<hw_count} = 0" using True by (intro Min_eqI) auto
    moreover have "Max {0..<hw_count} = hw_count - 1" using True by (intro Max_eqI) auto
    ultimately show ?thesis using rank_config_ok [OF assms] by (force simp: list_all_iff)
  next
    case False
    then have e: "py_range hw_count = []" by (simp add: py_range_def)
    have "out = []" if "rfold (add_range (Some [])) [] parts = Inr out" for parts out
      using that by (rule rfold_invariant) (auto simp: add_range_def check_available_def Let_def res_elims split: if_splits)
    then show ?thesis using assms by (fastforce simp: e parse_rank_config_def Let_def res_elims split: if_splits)
  qed
  ultimately show ?thesis by blast
qed

lemma update_fresh: "k \<notin> set (map fst m) \<Longrightarrow> AList.update k v m = m @ [(k, v)]"
  by (induction m) auto

lemma consecutive_append:
  assumes "consecutive ps" "consecutive qs" "ps \<noteq> []" "qs \<noteq> []" "hd qs = last ps + 1"
  shows "consecutive (ps @ qs)"
proof -
  have "last ps = hd ps + int (length ps - 1)"
    using assms(1,3) unfolding consecutive_def by (metis diff_less last_conv_nth length_greater_0_conv length_upt minus_nat.diff_0 nth_map nth_upt plus_nat.add_0 zero_less_one)
  then have h: "hd qs = hd ps + int (length ps)" using assms(3,5) by (cases ps) auto
  have q: "qs ! j = hd ps + int (length ps + j)" if "j < length qs" for j
    using assms(2) that h unfolding consecutive_def by (metis add.assoc length_upt minus_nat.diff_0 nth_map nth_upt of_nat_add plus_nat.add_0)
  have p: "ps ! j = hd ps + int j" if "j < length ps" for j
    using assms(1) that unfolding consecutive_def by (metis length_upt minus_nat.diff_0 nth_map nth_upt plus_nat.add_0)
  show ?thesis unfolding consecutive_def
    by (rule nth_equalityI) (use p q assms(3) in \<open>auto simp: nth_append\<close>)
qed

lemma sorted_append_last:
  fixes xs :: "int list"
  assumes "sorted_wrt (<) xs" "sorted_wrt (<) ys" "xs = [] \<or> ys = [] \<or> last xs < hd ys"
  shows "sorted_wrt (<) (xs @ ys)"
proof -
  have "x < y" if "x \<in> set xs" "y \<in> set ys" for x y
  proof -
    have "x \<le> last xs" using assms(1) that(1)
      by (induction xs rule: rev_induct) (auto simp: sorted_wrt_append)
    moreover have "hd ys \<le> y" using assms(2) that(2) by (cases ys) auto
    ultimately show ?thesis using assms(3) that by auto
  qed
  with assms show ?thesis by (simp add: sorted_wrt_append)
qed

definition state_ok :: "int \<Rightarrow> parse_state \<Rightarrow> bool" where
  "state_ok hw_count st \<longleftrightarrow> (case st of (rs, ps, m) \<Rightarrow> rs = concat (map fst m) \<and> ps = concat (map snd m) \<and> rank_map_ok hw_count m)"

lemma parse_ranks_ok:
  assumes "state_ok hw_count st" "parse_ranks hw_count st r p = Inr st'"
  shows "state_ok hw_count st'"
proof -
  obtain rs ps m where st: "st = (rs, ps, m)" by (cases st) auto
  with assms(1) have ok: "rs = concat (map fst m)" "ps = concat (map snd m)" "rank_map_ok hw_count m" by (simp_all add: state_ok_def)
  from assms(2) obtain res proc where res: "parse_rank_config (py_strip r) (Some (py_range hw_count)) = Inr res" "res \<noteq> []"
      "set res \<inter> set rs = {}" "rs = [] \<or> hd res > last rs" and a: "add_ranks st res proc = Inr st'"
    unfolding parse_ranks_def st prod.case rbind_Inr_iff by (auto simp: st res_elims split: if_splits)
  from a have proc: "proc \<noteq> []" "ps = [] \<or> hd proc = last ps + 1" "proc = py_range3 (hd proc) (hd proc + int (length proc)) 1"
      "length proc mod length res = 0 \<or> length res mod length proc = 0"
    and st': "st' = (rs @ res, ps @ proc, AList.update res proc m)"
    unfolding add_ranks_def st prod.case by (auto split: if_splits)
  note av = available_ranks [OF res(1)]
  have "res \<notin> set (map fst m)"
  proof
    assume "res \<in> set (map fst m)"
    then have "set res \<subseteq> set rs" unfolding ok(1) by auto
    with res(2,3) show False by (cases res) auto
  qed
  then have m': "AList.update res proc m = m @ [(res, proc)]" by (rule update_fresh)
  have c: "consecutive proc" using proc(3) py_range3_unit [of "int (length proc)" "hd proc"] by (simp add: consecutive_def)
  have "sorted_wrt (<) (rs @ res)" using ok(1,3) av res(4) by (intro sorted_append_last) (auto simp: rank_map_ok_def)
  moreover have "consecutive ps" using ok(2,3) by (simp add: rank_map_ok_def)
  then have "consecutive (ps @ proc)"
    using c proc(1,2) consecutive_append by (cases "ps = []") auto
  ultimately show ?thesis using ok av res(2) proc(1,4)
    by (simp add: state_ok_def st' m' rank_map_ok_def part_ok_def)
qed

lemma parse_rank_map_ok:
  assumes "parse_rank_map s rs = Inr m"
  shows "rank_map_ok (total_hardware_count rs) m"
proof -
  from assms obtain a b where "rfold (parse_rank_part (total_hardware_count rs)) ([], [], []) (py_split (CHR '','') (py_strip s)) = Inr (a, b, m)"
    by (auto simp: parse_rank_map_def res_elims)
  then have "state_ok (total_hardware_count rs) (a, b, m)"
  proof (rule rfold_invariant)
    show "state_ok (total_hardware_count rs) ([], [], [])" by (simp add: state_ok_def rank_map_ok_def consecutive_def)
    fix st part st' assume "state_ok (total_hardware_count rs) st" "parse_rank_part (total_hardware_count rs) st part = Inr st'"
    then show "state_ok (total_hardware_count rs) st'"
      by (auto simp: parse_rank_part_def Let_def parse_ranks_ok split: if_splits list.splits)
  qed
  then show ?thesis by (simp add: state_ok_def)
qed

section \<open>What every process gets\<close>

text \<open>
  The specification: with at least as many resources as processes, the resources are
  cut into equal blocks; with fewer, every resource is given to equally many
  processes in a row.
\<close>

definition shares :: "int list \<times> int list \<Rightarrow> int list list" where
  "shares part =
     (case part of (resources, processes) \<Rightarrow>
        if length resources \<ge> length processes
        then map (\<lambda>i. take (length resources div length processes) (drop (i * (length resources div length processes)) resources))
               [0..<length processes]
        else concat (map (\<lambda>r. replicate (length processes div length resources) [r]) resources))"

lemma foldl_set_resources:
  "distinct (map fst kvs) \<Longrightarrow> set (map fst kvs) \<inter> set (map fst pm) = {} \<Longrightarrow> foldl set_resources pm kvs = pm @ kvs"
proof (induction kvs arbitrary: pm)
  case (Cons x kvs)
  then have "set_resources pm x = pm @ [x]" by (auto simp: set_resources_def update_fresh)
  with Cons show ?case by auto
qed simp

lemma foldl_append_resource:
  "distinct (map fst kvs) \<Longrightarrow> set (map fst kvs) \<inter> set (map fst pm) = {} \<Longrightarrow>
   foldl append_resource pm kvs = pm @ map (\<lambda>(p, r). (p, [r])) kvs"
proof (induction kvs arbitrary: pm)
  case (Cons x kvs)
  then have "fst x \<notin> set (map fst pm)" by auto
  moreover from this have "map_of pm (fst x) = None" by (simp add: map_of_eq_None_iff)
  ultimately have "append_resource pm x = pm @ [(fst x, [snd x])]" by (simp add: append_resource_def update_fresh)
  with Cons show ?case by (auto simp: case_prod_unfold)
qed simp

lemma shared_pairs:
  "length ps = (n + length rs) * per \<Longrightarrow>
   concat (map (\<lambda>(i, r). map (\<lambda>j. (ps ! (i * per + j), r)) [0..<per]) (enumerate n rs))
   = zip (drop (n * per) ps) (concat (map (\<lambda>r. replicate per r) rs))"
proof (induction rs arbitrary: n)
  case (Cons r rs)
  have l: "n * per + per \<le> length ps" using Cons.prems by (simp add: algebra_simps)
  have "map (\<lambda>j. (ps ! (n * per + j), r)) [0..<per] = zip (take per (drop (n * per) ps)) (replicate per r)"
    by (rule nth_equalityI) (use l in auto)
  moreover have "drop (n * per) ps = take per (drop (n * per) ps) @ drop (Suc n * per) ps"
    by (metis append_take_drop_id drop_drop mult_Suc)
  moreover have "length (take per (drop (n * per) ps)) = per" using l by simp
  moreover have "length ps = (Suc n + length rs) * per" using Cons.prems by simp
  ultimately show ?case using Cons.IH [of "Suc n"] by (simp add: zip_append1 flip: zip_append)
qed simp

lemma length_shares: "part_ok part \<Longrightarrow> length (shares part) = length (snd part)"
proof -
  assume p: "part_ok part"
  obtain rs ps where part: "part = (rs, ps)" by (cases part)
  show ?thesis
  proof (cases "length ps \<le> length rs")
    case False
    then have "length ps mod length rs = 0" using p by (auto simp: part part_ok_def)
    then have "length rs * (length ps div length rs) = length ps" by (metis add.right_neutral mult_div_mod_eq)
    with False show ?thesis by (simp add: part shares_def length_concat comp_def sum_list_triv)
  qed (simp add: part shares_def)
qed

lemma assign_resources_shares:
  assumes "part_ok part" "distinct (snd part)" "set (snd part) \<inter> set (map fst pm) = {}"
  shows "assign_resources pm part = Inr (pm @ zip (snd part) (shares part))"
proof -
  obtain rs ps where part: "part = (rs, ps)" by (cases part)
  show ?thesis
  proof (cases "length ps \<le> length rs")
    case True
    let ?per = "length rs div length ps"
    let ?kvs = "map (\<lambda>(i, p). (p, take ?per (drop (i * ?per) rs))) (enumerate 0 ps)"
    have "?kvs = zip ps (shares part)"
      using True by (intro nth_equalityI) (auto simp: part shares_def nth_enumerate_eq)
    moreover have "map fst ?kvs = ps" by (simp add: comp_def case_prod_unfold)
    then have "foldl set_resources pm ?kvs = pm @ ?kvs"
      using assms(2,3) by (intro foldl_set_resources) (simp_all add: part)
    ultimately show ?thesis using True assms(1) by (simp add: part assign_resources_def Let_def part_ok_def)
  next
    case False
    let ?per = "length ps div length rs"
    have "length ps mod length rs = 0" using assms(1) False by (auto simp: part part_ok_def)
    then have len: "length ps = length rs * ?per" by (metis add.right_neutral mult_div_mod_eq)
    let ?kvs = "concat (map (\<lambda>(i, r). map (\<lambda>j. (ps ! (i * ?per + j), r)) [0..<?per]) (enumerate 0 rs))"
    have k: "?kvs = zip ps (concat (map (\<lambda>r. replicate ?per r) rs))" using shared_pairs [of ps 0 rs ?per] len by simp
    have "length (concat (map (\<lambda>r. replicate ?per r) rs)) = length ps"
      using len by (simp add: length_concat comp_def sum_list_triv)
    then have "map fst ?kvs = ps" unfolding k by simp
    then have "foldl append_resource pm ?kvs = pm @ map (\<lambda>(p, r). (p, [r])) ?kvs"
      using assms(2,3) by (intro foldl_append_resource) (simp_all only: part snd_conv)
    moreover have "concat (map (\<lambda>r. replicate ?per [r]) rs) = map (\<lambda>r. [r]) (concat (map (\<lambda>r. replicate ?per r) rs))"
      by (simp add: map_concat comp_def)
    then have "map (\<lambda>(p, r). (p, [r])) ?kvs = zip ps (shares part)"
      unfolding k using False by (simp only: part shares_def prod.case if_False zip_map2)
    ultimately show ?thesis using False assms(1) by (auto simp: part assign_resources_def Let_def part_ok_def)
  qed
qed

lemma zip_concat_shares:
  "list_all part_ok m \<Longrightarrow> concat (map (\<lambda>p. zip (snd p) (shares p)) m) = zip (concat (map snd m)) (concat (map shares m))"
  by (induction m) (auto simp: length_shares)

lemma process_map_shares:
  assumes "list_all part_ok m" "distinct (concat (map snd m))"
  shows "rank_map_to_process_resources_map m = Inr (zip (concat (map snd m)) (concat (map shares m)))"
proof -
  have "rfold assign_resources pm m = Inr (pm @ concat (map (\<lambda>p. zip (snd p) (shares p)) m))"
    if "set (map fst pm) \<inter> set (concat (map snd m)) = {}" for pm
    using that assms
  proof (induction m arbitrary: pm)
    case (Cons p m)
    have "assign_resources pm p = Inr (pm @ zip (snd p) (shares p))"
      using Cons.prems by (intro assign_resources_shares) auto
    moreover have "set (map fst (pm @ zip (snd p) (shares p))) \<inter> set (concat (map snd m)) = {}"
      using Cons.prems set_zip_leftD [of _ _ "snd p" "shares p"] by fastforce
    ultimately show ?case using Cons.IH [of "pm @ zip (snd p) (shares p)"] Cons.prems by auto
  qed simp
  from this [of "[]"] assms(1) show ?thesis by (simp add: rank_map_to_process_resources_map_def zip_concat_shares)
qed

lemma consecutive_sorted: "consecutive ps \<Longrightarrow> sorted_wrt (<) ps"
  unfolding consecutive_def by (metis (mono_tags, lifting) add_strict_left_mono of_nat_less_iff sorted_wrt_map sorted_wrt_mono_rel sorted_wrt_upt)

lemma length_concat_shares: "list_all part_ok m \<Longrightarrow> length (concat (map shares m)) = length (concat (map snd m))"
  by (induction m) (auto simp: length_shares)

lemma process_lists_shares:
  assumes "rank_map_ok n m"
  shows "rank_map_to_process_resources_map m = Inr (zip (concat (map snd m)) (concat (map shares m)))"
    "process_lists (zip (concat (map snd m)) (concat (map shares m))) = concat (map shares m)"
proof -
  from assms have ok: "list_all part_ok m" and s: "sorted_wrt (<) (concat (map snd m))"
    by (auto simp: rank_map_ok_def consecutive_sorted)
  from s have d: "distinct (concat (map snd m))" and so: "sorted (concat (map snd m))" by (simp_all only: strict_sorted_iff)
  show "rank_map_to_process_resources_map m = Inr (zip (concat (map snd m)) (concat (map shares m)))"
    by (rule process_map_shares [OF ok d])
  have len: "length (concat (map snd m)) = length (concat (map shares m))" using length_concat_shares [OF ok] by simp
  have "map (\<lambda>p. the (map_of (zip ks vs) p)) (sort (map fst (zip ks vs))) = vs"
    if "length ks = length vs" "distinct ks" "sorted ks" for ks :: "int list" and vs :: "int list list"
    using that by (intro nth_equalityI) (auto simp: sorted_sort_id map_of_zip_nth)
  from this [OF len d so] show "process_lists (zip (concat (map snd m)) (concat (map shares m))) = concat (map shares m)"
    unfolding process_lists_def .
qed

lemma concat_blocks: "length xs = n * k \<Longrightarrow> concat (map (\<lambda>i. take k (drop (i * k) xs)) [0..<n]) = xs"
proof (induction n arbitrary: xs)
  case (Suc n)
  have "map (\<lambda>i. take k (drop (i * k) xs)) [0..<Suc n]
      = take k xs # map (\<lambda>i. take k (drop (i * k) (drop k xs))) [0..<n]"
    by (simp add: map_upt_Suc add.commute del: upt_Suc)
  moreover have "concat (map (\<lambda>i. take k (drop (i * k) (drop k xs))) [0..<n]) = drop k xs"
    by (rule Suc.IH) (use Suc.prems in simp)
  ultimately show ?case by simp
qed simp

lemma shares_cases:
  assumes "part_ok (rs, ps)"
  shows "if length ps \<le> length rs
    then concat (shares (rs, ps)) = rs \<and> list_all (\<lambda>s. length s = length rs div length ps) (shares (rs, ps))
    else shares (rs, ps) = concat (map (\<lambda>r. replicate (length ps div length rs) [r]) rs)"
proof (cases "length ps \<le> length rs")
  case True
  have "length rs mod length ps = 0"
    using assms True by (cases "length ps = length rs") (auto simp: part_ok_def)
  then have len: "length rs = length ps * (length rs div length ps)" by (metis add.right_neutral mult_div_mod_eq)
  have "min (length rs - i * (length rs div length ps)) (length rs div length ps) = length rs div length ps" if "i < length ps" for i
  proof -
    have "Suc i * (length rs div length ps) \<le> length ps * (length rs div length ps)" using that by (intro mult_le_mono1) simp
    then show ?thesis using len by simp
  qed
  then show ?thesis using True concat_blocks [OF len] by (auto simp: shares_def list_all_iff)
qed (simp add: shares_def)

lemma shares_nonempty: "part_ok part \<Longrightarrow> s \<in> set (shares part) \<Longrightarrow> s \<noteq> []"
proof -
  assume p: "part_ok part" and s: "s \<in> set (shares part)"
  obtain rs ps where part: "part = (rs, ps)" by (cases part)
  show ?thesis
  proof (cases "length ps \<le> length rs")
    case True
    then have "length s = length rs div length ps" using shares_cases [of rs ps] p s by (auto simp: part list_all_iff)
    moreover have "0 < length rs div length ps" using True p by (simp add: part part_ok_def div_greater_zero_iff)
    ultimately show ?thesis by auto
  qed (use s in \<open>auto simp: part shares_def\<close>)
qed

text \<open>
  A placement text that is accepted is well formed: its resource ranks ascend
  strictly and exist, its process ranks are consecutive integers, and in each part one
  number divides the other; the table of process resources then lists every process
  once, in order, and the resources of a part are dealt out as specified: in equal
  consecutive blocks, or each to equally many processes in a row. No process is left
  without resources, and no exception is raised on the way.
\<close>

lemma placement_text_shares:
  assumes "parse_rank_map t rs = Inr m"
  shows "rank_map_ok (total_hardware_count rs) m
    \<and> rank_map_to_process_resources_map m = Inr (zip (concat (map snd m)) (concat (map shares m)))
    \<and> length (concat (map shares m)) = length (concat (map snd m))
    \<and> list_all (\<lambda>s. s \<noteq> []) (concat (map shares m))
    \<and> list_all (\<lambda>(rs, ps). if length ps \<le> length rs
          then concat (shares (rs, ps)) = rs \<and> list_all (\<lambda>s. length s = length rs div length ps) (shares (rs, ps))
          else shares (rs, ps) = concat (map (\<lambda>r. replicate (length ps div length rs) [r]) rs)) m"
proof -
  note ok = parse_rank_map_ok [OF assms]
  then have p: "list_all part_ok m" by (simp add: rank_map_ok_def)
  then have "list_all (\<lambda>s. s \<noteq> []) (concat (map shares m))" using shares_nonempty by (fastforce simp: list_all_iff)
  moreover have "list_all (\<lambda>(rs, ps). if length ps \<le> length rs
          then concat (shares (rs, ps)) = rs \<and> list_all (\<lambda>s. length s = length rs div length ps) (shares (rs, ps))
          else shares (rs, ps) = concat (map (\<lambda>r. replicate (length ps div length rs) [r]) rs)) m"
    using p shares_cases unfolding list_all_iff by blast
  ultimately show ?thesis using ok process_lists_shares(1) [OF ok] length_concat_shares [OF p] by blast
qed

definition many_gpus :: resolver where
  "many_gpus = make_resolver [gpu_group ''cluster'' [gpu_node 0 8, gpu_node 1 8]]"

lemma doc_example_run:
  "parse_rank_map ''0-1:0-3,3-5,7-10:7-14'' many_gpus
   = Inr [([0, 1], [0, 1, 2, 3]), ([3, 4, 5], [4, 5, 6]), ([7, 8, 9, 10], [7, 8, 9, 10, 11, 12, 13, 14])]"
  by code_simp

text \<open>
  The first process rank of a placement is not checked: a text whose processes
  start at four is accepted, and its four processes are placed as if they were numbered from zero.
\<close>

lemma first_process_unchecked:
  "parse_rank_map ''0-3:4-7'' many_gpus = Inr [([0, 1, 2, 3], [4, 5, 6, 7])]
   \<and> gen_resource_placement [([0, 1, 2, 3], [4, 5, 6, 7])] [] = gen_resource_placement [([0, 1, 2, 3], [0, 1, 2, 3])] []"
  by (rule conjI; code_simp)

section \<open>From the text to the processes\<close>

lemma sorted_concat_parts:
  fixes xss :: "int list list"
  assumes "sorted (concat xss)" "\<forall>xs\<in>set xss. xs \<noteq> []"
  shows "sorted (map hd xss) \<and> (\<forall>xs\<in>set xss. sorted xs)"
  using assms
proof (induction xss)
  case (Cons xs xss)
  have "hd xs \<le> hd ys" if "ys \<in> set xss" for ys
    using Cons.prems that hd_in_set [of xs] hd_in_set [of ys] by (force simp: sorted_append)
  with Cons show ?case by (auto simp: sorted_append)
qed simp

lemma concat_shares_set: "part_ok part \<Longrightarrow> set (concat (shares part)) = set (fst part)"
proof -
  assume p: "part_ok part"
  obtain rs ps where part: "part = (rs, ps)" by (cases part)
  show ?thesis
  proof (cases "length ps \<le> length rs")
    case False
    then have "0 < length ps div length rs" using p by (simp add: part part_ok_def div_greater_zero_iff)
    with False show ?thesis by (auto simp: part shares_def)
  qed (use shares_cases [of rs ps] p in \<open>simp add: part\<close>)
qed

lemma sorted_stretch: "sorted rs \<Longrightarrow> sorted (concat (concat (map (\<lambda>r. replicate n [r]) rs)))"
proof -
  have s: "concat (replicate k [r]) = replicate k r" for k and r :: 'a
    by (induction k) auto
  have "concat (concat (map (\<lambda>r. replicate n [r]) rs)) = concat (map (replicate n) rs)" by (induction rs) (auto simp: s)
  then show "sorted rs \<Longrightarrow> ?thesis" by (induction rs) (auto simp: sorted_append sorted_replicate)
qed

lemma sorted_shares: "part_ok part \<Longrightarrow> sorted (fst part) \<Longrightarrow> sorted (concat (shares part))"
proof -
  assume p: "part_ok part" "sorted (fst part)"
  obtain rs ps where part: "part = (rs, ps)" by (cases part)
  show ?thesis using shares_cases [of rs ps] p sorted_stretch [of rs "length ps div length rs"] by (auto simp: part split: if_splits)
qed

lemma sorted_all_shares:
  assumes "list_all part_ok m" "sorted (concat (map fst m))"
  shows "sorted (concat (concat (map shares m)))"
  using assms
proof (induction m)
  case (Cons part m)
  have "x \<le> y" if "x \<in> set (concat (shares part))" "y \<in> set (concat (concat (map shares m)))" for x y
  proof -
    from that(2) obtain q where "q \<in> set m" "y \<in> set (concat (shares q))" by auto
    then have "y \<in> set (concat (map fst m))" using concat_shares_set [of q] Cons.prems(1) by (auto simp: list_all_iff)
    moreover have "x \<in> set (fst part)" using concat_shares_set [of part] Cons.prems(1) that(1) by simp
    ultimately show ?thesis using Cons.prems(2) by (auto simp: sorted_append)
  qed
  then show ?case using Cons sorted_shares [of part] by (auto simp: sorted_append)
qed simp

lemma sort_by_head_id: "sorted (map hd xss) \<Longrightarrow> \<forall>xs\<in>set xss. sorted xs \<Longrightarrow> sort_key hd (map sort xss) = xss"
  for xss :: "int list list"
proof -
  assume s: "sorted (map hd xss)" "\<forall>xs\<in>set xss. sorted xs"
  have "map sort xss = xss" using s(2) by (intro map_idI) (simp add: sorted_sort_id)
  then show ?thesis using s(1) by (simp add: sort_key_id_if_sorted)
qed

text \<open>
  C29. From the text to the hardware: when a component is placed on hardware and its
  strategy places it in the cluster, there is one process for every process rank of
  the text, and process \<open>k\<close> runs on the node that has the \<open>k\<close>-th share of the
  resources and uses exactly these, by their local ranks.
\<close>

theorem component_hardware:
  assumes "component_strategy c cfg = Inr (On_Resources s, m)" "flexible_get_placement s c isolate = Inr ps"
    and "resolve_groups (fs_labels s) c = Inr gs" "\<forall>g\<in>set gs. hardware_type g \<noteq> None"
  shows "length ps = length (concat (map snd m))
    \<and> (\<forall>k < length ps. let share = concat (map shares m) ! k in
         share \<noteq> []
         \<and> (\<forall>r\<in>set share. node_rank (fst (snd (hardware_slots gs ! nat r))) = cluster_node_rank (ps ! k))
         \<and> local_hw_ranks (ps ! k) = map (\<lambda>r. snd (snd (hardware_slots gs ! nat r))) share)"
proof -
  from assms(1) obtain gs' t where m: "parse_rank_map t (make_resolver gs') = Inr m" "gen_resource_placement m gs' = Inr s"
    by (auto simp: component_strategy_def res_elims Let_def split: option.splits)
  note ok = parse_rank_map_ok [OF m(1)]
  then have p: "list_all part_ok m" and so: "sorted (concat (map fst m))" by (auto simp: rank_map_ok_def strict_sorted_iff)
  have "make_flexible_strategy (concat (map shares m)) (Some (map label gs')) = Inr s"
    using m(2) process_lists_shares [OF ok] by (simp add: gen_resource_placement_def)
  then have f: "fs_ranks_list s = concat (map shares m)" by (auto simp: make_flexible_strategy_def split: if_splits list.splits)
  have "\<forall>xs\<in>set (concat (map shares m)). xs \<noteq> []" using p shares_nonempty by (auto simp: list_all_iff)
  from sorted_concat_parts [OF sorted_all_shares [OF p so] this]
  have "concat (map shares m) = sort_key hd (map sort (fs_ranks_list s))" unfolding f by (simp add: sort_by_head_id)
  from flexible_hardware_ok [OF assms(2-4) this] show ?thesis using length_concat_shares [OF p] by (simp add: Let_def)
qed

definition shared_config :: component_config where
  "shared_config = Placement_In (Some (Group_Text ''a, b'')) ''0-1:0,2-3:1-4''"

lemma shared_config_run:
  "component_strategy example_cluster shared_config
   = Inr (On_Resources \<lparr>fs_ranks_list = [[0, 1], [2], [2], [3], [3]], fs_labels = Some [''a'', ''b'']\<rparr>, [([0, 1], [0]), ([2, 3], [1, 2, 3, 4])])"
  by code_simp

lemma shared_placement_run:
  "flexible_get_placement \<lparr>fs_ranks_list = [[0, 1], [2], [2], [3], [3]], fs_labels = Some [''a'', ''b'']\<rparr> example_cluster False
   = Inr [
     \<lparr>rank = 0, cluster_node_rank = 0, placement_node_rank = 0, accel_type = ''NV_GPU'', local_accelerator_rank = 0,
       local_rank = 0, local_world_size = 1, visible_accelerators = [''0'', ''1''], isolate_accelerator = False,
       local_hw_ranks = [0, 1], node_group_label = ''a''\<rparr>,
     \<lparr>rank = 1, cluster_node_rank = 1, placement_node_rank = 1, accel_type = ''NV_GPU'', local_accelerator_rank = 0,
       local_rank = 0, local_world_size = 4, visible_accelerators = [''0'', ''1''], isolate_accelerator = False,
       local_hw_ranks = [0], node_group_label = ''b''\<rparr>,
     \<lparr>rank = 2, cluster_node_rank = 1, placement_node_rank = 1, accel_type = ''NV_GPU'', local_accelerator_rank = 0,
       local_rank = 1, local_world_size = 4, visible_accelerators = [''0'', ''1''], isolate_accelerator = False,
       local_hw_ranks = [0], node_group_label = ''b''\<rparr>,
     \<lparr>rank = 3, cluster_node_rank = 1, placement_node_rank = 1, accel_type = ''NV_GPU'', local_accelerator_rank = 0,
       local_rank = 2, local_world_size = 4, visible_accelerators = [''0'', ''1''], isolate_accelerator = False,
       local_hw_ranks = [1], node_group_label = ''b''\<rparr>,
     \<lparr>rank = 4, cluster_node_rank = 1, placement_node_rank = 1, accel_type = ''NV_GPU'', local_accelerator_rank = 0,
       local_rank = 3, local_world_size = 4, visible_accelerators = [''0'', ''1''], isolate_accelerator = False,
       local_hw_ranks = [1], node_group_label = ''b''\<rparr>]"
  by code_simp

theorem component_hardware_witness:
  "map (\<lambda>r. snd (snd (hardware_slots [gpu_group ''a'' [gpu_node 0 2], gpu_group ''b'' [gpu_node 1 2]] ! nat r))) [0, 1] = [0, 1]"
proof -
  have "resolve_groups (fs_labels \<lparr>fs_ranks_list = [[0, 1], [2], [2], [3], [3]], fs_labels = Some [''a'', ''b'']\<rparr>) example_cluster
      = Inr [gpu_group ''a'' [gpu_node 0 2], gpu_group ''b'' [gpu_node 1 2]]" by code_simp
  note h = component_hardware [OF shared_config_run shared_placement_run this]
  have "\<forall>g\<in>set [gpu_group ''a'' [gpu_node 0 2], gpu_group ''b'' [gpu_node 1 2]]. hardware_type g \<noteq> None"
    by (simp add: gpu_group_def)
  note h [OF this, THEN conjunct2, rule_format, of 0]
  then show ?thesis by (simp add: shares_def)
qed

section \<open>The tables of a component placement\<close>

definition tables_ok :: "component_state \<Rightarrow> bool" where
  "tables_ok st \<longleftrightarrow> distinct (map fst (placements st))
     \<and> map fst (component_world_size st) = map fst (placements st)
     \<and> map fst (component_rank_map st) = map fst (placements st)
     \<and> list_all2 (\<lambda>(n, w) (n', m). n = n' \<and> w = int (length (concat (map snd m))) \<and> sorted_wrt (<) (concat (map fst m)))
         (component_world_size st) (component_rank_map st)"

lemma add_component_ok:
  assumes "tables_ok st" "sorted_wrt (<) (concat (map fst m))" "add_component s m st name = Inr st'"
  shows "tables_ok st' \<and> map fst (placements st') = map fst (placements st) @ [name] \<and> components st' = components st"
proof -
  have "sum_list (map (\<lambda>p. length (snd p)) m) = length (concat (map snd m))" by (simp add: length_concat comp_def)
  with assms show ?thesis by (auto simp: tables_ok_def intro!: list_all2_appendI split: if_splits)
qed

lemma tables_ok_components [simp]: "tables_ok (st\<lparr>components := ns\<rparr>) = tables_ok st"
  by (simp add: tables_ok_def)

lemma add_components_ok:
  assumes "sorted_wrt (<) (concat (map fst m))"
  shows "tables_ok st \<Longrightarrow> rfold (add_component s m) st names = Inr st' \<Longrightarrow>
    tables_ok st' \<and> map fst (placements st') = map fst (placements st) @ names \<and> components st' = components st"
proof (induction names arbitrary: st)
  case (Cons n ns)
  from Cons.prems(2) obtain st1 where "add_component s m st n = Inr st1" "rfold (add_component s m) st1 ns = Inr st'"
    by (simp only: rfold.simps rbind_Inr_iff) blast
  note n = add_component_ok [OF Cons.prems(1) assms this(1)] and ns = this(2)
  from n have "tables_ok st1" by blast
  from Cons.IH [OF this ns] n show ?case by simp
qed simp

lemma component_placement_ok:
  assumes "component_placement c cfgs = Inr st"
  shows "tables_ok st \<and> components st = map fst (placements st)"
proof -
  let ?f = "\<lambda>st (key, cfg). let names = map py_strip (py_split (CHR '','') key) in
         rbind (parse_component_placement c cfg names st) (\<lambda>st'. Inr (st'\<lparr>components := components st' @ names\<rparr>))"
  from assms have "rfold ?f \<lparr>placements = [], components = [], component_world_size = [], component_rank_map = []\<rparr> cfgs = Inr st"
    by (auto simp: component_placement_def res_elims split: if_splits)
  then show ?thesis
  proof (rule rfold_invariant [where P = "\<lambda>st. tables_ok st \<and> components st = map fst (placements st)"])
    fix st x st' assume I: "tables_ok st \<and> components st = map fst (placements st)" and f: "?f st x = Inr st'"
    obtain key cfg where x: "x = (key, cfg)" by (cases x)
    let ?names = "map py_strip (py_split (CHR '','') key)"
    from f obtain st1 where st1: "parse_component_placement c cfg ?names st = Inr st1" "st' = st1\<lparr>components := components st1 @ ?names\<rparr>"
      by (auto simp: x Let_def res_elims)
    from st1(1) obtain s m where sm: "component_strategy c cfg = Inr (s, m)" "rfold (add_component s m) st ?names = Inr st1"
      by (auto simp: parse_component_placement_def res_elims)
    from sm(1) obtain t gs where "parse_rank_map t (make_resolver gs) = Inr m"
      by (auto simp: component_strategy_def res_elims Let_def split: option.splits)
    from parse_rank_map_ok [OF this] have "sorted_wrt (<) (concat (map fst m))" by (simp add: rank_map_ok_def)
    from add_components_ok [OF this _ sm(2)] I have "tables_ok st1 \<and> map fst (placements st1) = map fst (placements st) @ ?names \<and> components st1 = components st" by blast
    then show "tables_ok st' \<and> components st' = map fst (placements st')" using I by (simp add: st1(2))
  qed (simp add: tables_ok_def)
qed

text \<open>
  Every component of an accepted configuration can be looked up: its name is
  unique, it has a strategy, its world size is the number of its process ranks, and
  its hardware ranks are listed in strictly ascending order; the final check for
  duplicate names never fails after the checks of the single components.
\<close>

lemma component_lookup:
  assumes "component_placement c cfgs = Inr st" "name \<in> set (components st)"
  shows "distinct (components st) \<and> (\<exists>s (m :: rank_map). get_strategy st name = Inr s
    \<and> get_world_size st name = Inr (int (length (concat (map snd m))))
    \<and> get_hardware_ranks st name = Inr (concat (map fst m)) \<and> sorted_wrt (<) (concat (map fst m)))"
proof -
  note ok = component_placement_ok [OF assms(1)]
  then have d: "distinct (map fst (placements st))" "distinct (map fst (component_world_size st))" "distinct (map fst (component_rank_map st))"
    by (auto simp: tables_ok_def)
  have "map fst (component_rank_map st) = map fst (placements st)" using ok by (simp add: tables_ok_def)
  then have n: "name \<in> fst ` set (placements st)" "name \<in> fst ` set (component_rank_map st)"
    using assms(2) ok unfolding set_map [symmetric] by simp_all
  then obtain s m where s: "map_of (placements st) name = Some s" and m: "map_of (component_rank_map st) name = Some m"
    by (metis map_of_eq_None_iff not_Some_eq)
  from map_of_SomeD [OF m] obtain i where i: "i < length (component_rank_map st)" "component_rank_map st ! i = (name, m)" by (auto simp: in_set_conv_nth)
  obtain w where w: "component_world_size st ! i = (name, w)" "w = int (length (concat (map snd m)))" "sorted_wrt (<) (concat (map fst m))"
  proof -
    have l: "list_all2 (\<lambda>(n, w) (n', m). n = n' \<and> w = int (length (concat (map snd m))) \<and> sorted_wrt (<) (concat (map fst m)))
         (component_world_size st) (component_rank_map st)" using ok by (simp add: tables_ok_def)
    show ?thesis using list_all2_nthD2 [OF l i(1)] i(2) that by (cases "component_world_size st ! i") auto
  qed
  have "length (component_world_size st) = length (component_rank_map st)"
    using ok unfolding tables_ok_def by (metis length_map)
  then have "i < length (component_world_size st)" using i(1) by simp
  then have "(name, w) \<in> set (component_world_size st)" using w(1) by (metis nth_mem)
  then have "map_of (component_world_size st) name = Some w" using d(2) by (simp add: map_of_is_SomeI)
  then have "get_strategy st name = Inr s \<and> get_world_size st name = Inr (int (length (concat (map snd m))))
    \<and> get_hardware_ranks st name = Inr (concat (map fst m)) \<and> sorted_wrt (<) (concat (map fst m))"
    using s m w by (simp add: get_strategy_def get_world_size_def get_hardware_ranks_def lookup_component_def)
  moreover have "distinct (components st)" using d(1) ok by simp
  ultimately show ?thesis by blast
qed

lemma two_components_run:
  "component_placement example_cluster [(''actor, rollout'', shared_config), (''env'', Placement_In (Some (Group_Text ''a'')) ''all'')]
   = Inr \<lparr>placements = [(''actor'', On_Resources \<lparr>fs_ranks_list = [[0, 1], [2], [2], [3], [3]], fs_labels = Some [''a'', ''b'']\<rparr>),
        (''rollout'', On_Resources \<lparr>fs_ranks_list = [[0, 1], [2], [2], [3], [3]], fs_labels = Some [''a'', ''b'']\<rparr>),
        (''env'', On_Resources \<lparr>fs_ranks_list = [[0], [1]], fs_labels = Some [''a'']\<rparr>)],
      components = [''actor'', ''rollout'', ''env''],
      component_world_size = [(''actor'', 5), (''rollout'', 5), (''env'', 2)],
      component_rank_map = [(''actor'', [([0, 1], [0]), ([2, 3], [1, 2, 3, 4])]), (''rollout'', [([0, 1], [0]), ([2, 3], [1, 2, 3, 4])]),
        (''env'', [([0, 1], [0, 1])])]\<rparr>"
  by code_simp

end
