(* ===== verification/Seq_Group.thy ===== *)
theory Seq_Group
  imports Py_Prelude "HOL-Library.Multiset"
begin

text \<open>
  Sequence groups: \<open>SeqGroupInfo\<close> of
  \<^verbatim>\<open>rlinf/data/schema/reasoning_requests.py\<close>, and the generation of a group by
  \<open>_async_generate_group\<close> of \<^verbatim>\<open>rlinf/workers/rollout/sglang/sglang_worker.py\<close>. A group
  whose generation was aborted is continued by another instance: its sequences keep
  the tokens they have, and only the aborted ones are generated further.

  The inference engine is a parameter: it answers a request for a sequence (its
  index, its input and the number of new tokens allowed) with a result; another
  parameter gives the order in which the answers arrive.
\<close>

section \<open>The group and its operations\<close>

text \<open>The reason a sequence ended, and a result: its output tokens and that reason.\<close>

datatype finish_reason = ABORT | STOP | LENGTH | OtherReason string

record seq_result =
  output_ids :: "int list"
  finish :: finish_reason

record seq_group =
  group_id :: int
  input_ids :: "int list"
  group_size :: nat
  idx_completed :: "nat set"
  idx_aborted :: "nat set"
  results :: "seq_result option list"

definition make_group :: "int \<Rightarrow> int list \<Rightarrow> nat \<Rightarrow> seq_group res" where
  "make_group i ids n =
     (if n = 0 then Inl AssertionError
      else Inr \<lparr>group_id = i, input_ids = ids, group_size = n, idx_completed = {}, idx_aborted = {},
             results = replicate n None\<rparr>)"

definition num_completed :: "seq_group \<Rightarrow> int" where
  "num_completed g = int (card (idx_completed g))"

definition num_aborted :: "seq_group \<Rightarrow> int" where
  "num_aborted g = int (card (idx_aborted g))"

definition num_returned :: "seq_group \<Rightarrow> int" where
  "num_returned g = num_completed g + num_aborted g"

definition num_running :: "seq_group \<Rightarrow> int" where
  "num_running g = int (group_size g) - num_returned g"

definition all_completed :: "seq_group \<Rightarrow> bool" where
  "all_completed g \<longleftrightarrow> num_completed g = int (group_size g)"

text \<open>\<open>record_sglang_result\<close>. The index is never negative.\<close>

definition record_sglang_result :: "nat \<Rightarrow> seq_result \<Rightarrow> seq_group \<Rightarrow> seq_group res" where
  "record_sglang_result idx r g =
     rbind (case finish r of
              ABORT \<Rightarrow> Inr (g\<lparr>idx_aborted := insert idx (idx_aborted g)\<rparr>)
            | STOP \<Rightarrow> Inr (g\<lparr>idx_completed := insert idx (idx_completed g)\<rparr>)
            | LENGTH \<Rightarrow> Inr (g\<lparr>idx_completed := insert idx (idx_completed g)\<rparr>)
            | OtherReason s \<Rightarrow> Inl ValueError) (\<lambda>g'.
     if idx < length (results g')
     then Inr (g'\<lparr>results := (results g')[idx := Some (case results g' ! idx of
            None \<Rightarrow> r
          | Some old \<Rightarrow> r\<lparr>output_ids := output_ids old @ output_ids r\<rparr>)]\<rparr>)
     else Inl IndexError)"

text \<open>
  The part of \<open>_async_generate_group\<close> before the requests: the aborted sequences are
  gone through in ascending order (Python's order of the set makes no difference); one
  that already has as many tokens as allowed is recorded as ended by its length, the
  others are requested with their input extended by their tokens. A request is an
  index, an input and the number of tokens allowed.
\<close>

type_synonym gen_request = "nat \<times> int list \<times> int"

definition resume_step :: "int \<Rightarrow> seq_group \<times> gen_request list \<Rightarrow> nat \<Rightarrow> (seq_group \<times> gen_request list) res" where
  "resume_step max_new_tokens s idx =
     (case s of (g, reqs) \<Rightarrow>
        if idx < length (results g)
        then (case results g ! idx of
                None \<Rightarrow> Inl TypeError
              | Some r \<Rightarrow>
                  if int (length (output_ids r)) \<ge> max_new_tokens
                  then rbind (record_sglang_result idx (r\<lparr>finish := LENGTH\<rparr>) (g\<lparr>results := (results g)[idx := None]\<rparr>))
                         (\<lambda>g'. Inr (g', reqs))
                  else Inr (g, reqs @ [(idx, input_ids g @ output_ids r, max_new_tokens - int (length (output_ids r)))]))
        else Inl IndexError)"

definition start_requests :: "int \<Rightarrow> seq_group \<Rightarrow> (seq_group \<times> gen_request list) res" where
  "start_requests max_new_tokens g =
     (if num_aborted g = 0
      then if num_returned g \<noteq> 0 then Inl AssertionError
           else Inr (g, map (\<lambda>idx. (idx, input_ids g, max_new_tokens)) [0..<group_size g])
      else rfold (resume_step max_new_tokens) (g\<lparr>idx_aborted := {}\<rparr>, []) (sorted_list_of_set (idx_aborted g)))"

definition generate_group ::
  "(gen_request \<Rightarrow> seq_result) \<Rightarrow> (gen_request list \<Rightarrow> gen_request list) \<Rightarrow> int \<Rightarrow> seq_group \<Rightarrow> seq_group res" where
  "generate_group engine arrival max_new_tokens g =
     rbind (start_requests max_new_tokens g) (\<lambda>(g', reqs).
     rfold (\<lambda>h req. record_sglang_result (fst req) (engine req) h) g' (arrival reqs))"

section \<open>The invariant of a group\<close>

text \<open>
  The completed and the aborted indices are disjoint, exactly these sequences have a
  result, and no result is longer than allowed.
\<close>

definition group_inv :: "int \<Rightarrow> seq_group \<Rightarrow> bool" where
  "group_inv m g \<longleftrightarrow> 0 < group_size g \<and> length (results g) = group_size g
     \<and> idx_completed g \<inter> idx_aborted g = {}
     \<and> (\<forall>i<group_size g. (results g ! i = None) \<longleftrightarrow> i \<notin> idx_completed g \<union> idx_aborted g)
     \<and> idx_completed g \<union> idx_aborted g \<subseteq> {..<group_size g}
     \<and> (\<forall>i<group_size g. \<forall>r. results g ! i = Some r \<longrightarrow> int (length (output_ids r)) \<le> m)"

definition tokens :: "seq_group \<Rightarrow> nat \<Rightarrow> int list" where
  "tokens g i = (case results g ! i of None \<Rightarrow> [] | Some r \<Rightarrow> output_ids r)"

section \<open>Generating and continuing a group\<close>

text \<open>What becomes of sequence \<open>i\<close>: it stays completed, it is cut off at its length, or the engine goes on with it.\<close>

definition cut_off :: "int \<Rightarrow> seq_group \<Rightarrow> nat \<Rightarrow> bool" where
  "cut_off m g i \<longleftrightarrow> i \<in> idx_aborted g \<and> int (length (tokens g i)) \<ge> m"

definition request_of :: "int \<Rightarrow> seq_group \<Rightarrow> nat \<Rightarrow> gen_request" where
  "request_of m g i = (i, input_ids g @ tokens g i, m - int (length (tokens g i)))"

definition final_result :: "(gen_request \<Rightarrow> seq_result) \<Rightarrow> int \<Rightarrow> seq_group \<Rightarrow> nat \<Rightarrow> seq_result" where
  "final_result engine m g i =
     (if i \<in> idx_completed g then the (results g ! i)
      else if cut_off m g i then (the (results g ! i))\<lparr>finish := LENGTH\<rparr>
      else (engine (request_of m g i))\<lparr>output_ids := tokens g i @ output_ids (engine (request_of m g i))\<rparr>)"

definition ends :: "(gen_request \<Rightarrow> seq_result) \<Rightarrow> int \<Rightarrow> seq_group \<Rightarrow> nat \<Rightarrow> bool" where
  "ends engine m g i \<longleftrightarrow> i \<in> idx_completed g \<or> cut_off m g i \<or> finish (engine (request_of m g i)) \<noteq> ABORT"

text \<open>The group while it is generated: the sequences of \<open>S\<close> are finished, the others as they were, none aborted.\<close>

definition part_done :: "(gen_request \<Rightarrow> seq_result) \<Rightarrow> int \<Rightarrow> seq_group \<Rightarrow> nat set \<Rightarrow> seq_group" where
  "part_done engine m g S = g\<lparr>idx_completed := {i \<in> S. ends engine m g i}, idx_aborted := {i \<in> S. \<not> ends engine m g i},
     results := map (\<lambda>i. if i \<in> S then Some (final_result engine m g i) else results g ! i) [0..<group_size g]\<rparr>"

lemma part_done_fields [simp]:
  "input_ids (part_done engine m g S) = input_ids g" "group_size (part_done engine m g S) = group_size g"
  "idx_completed (part_done engine m g S) = {i \<in> S. ends engine m g i}"
  "idx_aborted (part_done engine m g S) = {i \<in> S. \<not> ends engine m g i}"
  "length (results (part_done engine m g S)) = group_size g"
  by (simp_all add: part_done_def)

lemma results_part_done [simp]:
  "i < group_size g \<Longrightarrow> results (part_done engine m g S) ! i = (if i \<in> S then Some (final_result engine m g i) else results g ! i)"
  by (simp add: part_done_def)

lemma part_done_insert:
  assumes "i < group_size g"
  shows "part_done engine m g (insert i S) = (part_done engine m g S)
    \<lparr>idx_completed := (if ends engine m g i then insert i (idx_completed (part_done engine m g S)) else idx_completed (part_done engine m g S)),
     idx_aborted := (if ends engine m g i then idx_aborted (part_done engine m g S) else insert i (idx_aborted (part_done engine m g S))),
     results := (results (part_done engine m g S))[i := Some (final_result engine m g i)]\<rparr>"
proof -
  have "results (part_done engine m g (insert i S)) = (results (part_done engine m g S))[i := Some (final_result engine m g i)]"
    using assms by (intro nth_equalityI) (auto simp: nth_list_update)
  then show ?thesis by (intro seq_group.equality) (auto, simp_all add: part_done_def)
qed

lemma part_done_start:
  assumes "group_inv m g"
  shows "part_done engine m g (idx_completed g) = g\<lparr>idx_aborted := {}\<rparr>"
proof -
  have "results (part_done engine m g (idx_completed g)) = results g"
    using assms by (intro nth_equalityI) (auto simp: group_inv_def final_result_def)
  then show ?thesis by (intro seq_group.equality) (auto simp: ends_def, simp_all add: part_done_def)
qed

lemma record_request:
  assumes "i < group_size g" "i \<notin> S" "i \<notin> idx_completed g" "\<not> cut_off m g i"
    and "finish (engine (request_of m g i)) \<in> {ABORT, STOP, LENGTH}"
  shows "record_sglang_result i (engine (request_of m g i)) (part_done engine m g S) = Inr (part_done engine m g (insert i S))"
  using assms
  by (auto simp: record_sglang_result_def part_done_insert ends_def final_result_def tokens_def split: finish_reason.split option.split)

lemma resume_long:
  assumes "group_inv m g" "i \<in> idx_aborted g" "i \<notin> S" "cut_off m g i"
  shows "resume_step m (part_done engine m g S, reqs) i = Inr (part_done engine m g (insert i S), reqs)"
proof -
  from assms have i: "i < group_size g" and "results g ! i \<noteq> None" "i \<notin> idx_completed g" by (auto simp: group_inv_def)
  then obtain r where r: "results g ! i = Some r" by blast
  with assms i \<open>i \<notin> idx_completed g\<close> show ?thesis
    by (simp add: resume_step_def record_sglang_result_def part_done_insert ends_def final_result_def cut_off_def tokens_def)
qed

lemma resume_short:
  assumes "group_inv m g" "i \<in> idx_aborted g" "i \<notin> S" "\<not> cut_off m g i"
  shows "resume_step m (part_done engine m g S, reqs) i = Inr (part_done engine m g S, reqs @ [request_of m g i])"
proof -
  from assms have i: "i < group_size g" and "results g ! i \<noteq> None" by (auto simp: group_inv_def)
  then obtain r where r: "results g ! i = Some r" by blast
  with assms i show ?thesis by (auto simp: resume_step_def cut_off_def tokens_def request_of_def)
qed

lemma resume_all:
  assumes "group_inv m g" "set xs \<subseteq> idx_aborted g" "distinct xs" "set xs \<inter> S = {}"
  shows "rfold (resume_step m) (part_done engine m g S, reqs) xs
    = Inr (part_done engine m g (S \<union> {i \<in> set xs. cut_off m g i}), reqs @ map (request_of m g) (filter (\<lambda>i. \<not> cut_off m g i) xs))"
  using assms(2-)
proof (induction xs arbitrary: S reqs)
  case (Cons i xs)
  show ?case
  proof (cases "cut_off m g i")
    case True
    with Cons have "rfold (resume_step m) (part_done engine m g S, reqs) (i # xs)
        = rfold (resume_step m) (part_done engine m g (insert i S), reqs) xs"
      using resume_long [OF assms(1)] by auto
    also have "\<dots> = Inr (part_done engine m g (insert i S \<union> {j \<in> set xs. cut_off m g j}),
        reqs @ map (request_of m g) (filter (\<lambda>j. \<not> cut_off m g j) xs))"
      using Cons by auto
    also have "insert i S \<union> {j \<in> set xs. cut_off m g j} = S \<union> {j \<in> set (i # xs). cut_off m g j}" using True by auto
    finally show ?thesis using True by simp
  next
    case False
    with Cons have "rfold (resume_step m) (part_done engine m g S, reqs) (i # xs)
        = rfold (resume_step m) (part_done engine m g S, reqs @ [request_of m g i]) xs"
      using resume_short [OF assms(1)] by auto
    also have "\<dots> = Inr (part_done engine m g (S \<union> {j \<in> set xs. cut_off m g j}),
        (reqs @ [request_of m g i]) @ map (request_of m g) (filter (\<lambda>j. \<not> cut_off m g j) xs))"
      using Cons by auto
    also have "S \<union> {j \<in> set xs. cut_off m g j} = S \<union> {j \<in> set (i # xs). cut_off m g j}" using False by auto
    finally show ?thesis using False by simp
  qed
qed simp

text \<open>The answers, in any order: each request is recorded once.\<close>

lemma record_all:
  assumes "distinct is" "set is \<inter> (S \<union> idx_completed g) = {}" "set is \<subseteq> {..<group_size g}" "\<forall>i\<in>set is. \<not> cut_off m g i"
    and "\<forall>i\<in>set is. finish (engine (request_of m g i)) \<in> {ABORT, STOP, LENGTH}"
  shows "rfold (\<lambda>h req. record_sglang_result (fst req) (engine req) h) (part_done engine m g S) (map (request_of m g) is)
    = Inr (part_done engine m g (S \<union> set is))"
  using assms
proof (induction "is" arbitrary: S)
  case (Cons i js)
  have fst: "fst (request_of m g i) = i" by (simp add: request_of_def)
  have "record_sglang_result i (engine (request_of m g i)) (part_done engine m g S) = Inr (part_done engine m g (insert i S))"
    using Cons.prems by (intro record_request) auto
  moreover have "rfold (\<lambda>h req. record_sglang_result (fst req) (engine req) h) (part_done engine m g (insert i S)) (map (request_of m g) js)
      = Inr (part_done engine m g (insert i S \<union> set js))"
    using Cons.prems by (intro Cons.IH) auto
  ultimately show ?case by (simp add: fst)
qed simp

text \<open>What the engine promises: a reason it knows, and no more tokens than it was allowed.\<close>

definition engine_ok :: "(gen_request \<Rightarrow> seq_result) \<Rightarrow> bool" where
  "engine_ok engine \<longleftrightarrow> (\<forall>req. finish (engine req) \<in> {ABORT, STOP, LENGTH}
     \<and> (0 \<le> snd (snd req) \<longrightarrow> int (length (output_ids (engine req))) \<le> snd (snd req)))"

text \<open>A group that can be generated: a new one, or one whose sequences have all returned, not all of them completed.\<close>

definition ready_group :: "seq_group \<Rightarrow> bool" where
  "ready_group g \<longleftrightarrow> num_returned g = 0 \<or> num_running g = 0 \<and> num_aborted g \<noteq> 0"

lemma arrival_indices:
  assumes "mset reqs = mset (map (request_of m g) ks)"
  shows "\<exists>is. reqs = map (request_of m g) is \<and> mset is = mset ks"
proof (intro exI conjI)
  have "set reqs = request_of m g ` set ks" using arg_cong [OF assms, of set_mset] by simp
  then show "reqs = map (request_of m g) (map fst reqs)"
    by (intro nth_equalityI) (auto simp: request_of_def dest!: nth_mem)
  have "mset (map fst reqs) = image_mset fst (mset (map (request_of m g) ks))" unfolding assms [symmetric] by simp
  also have "\<dots> = mset (map fst (map (request_of m g) ks))" by (simp only: mset_map)
  also have "map fst (map (request_of m g) ks) = ks" by (simp add: request_of_def comp_def)
  finally show "mset (map fst reqs) = mset ks" .
qed

lemma group_inv_finite: "group_inv m g \<Longrightarrow> finite (idx_completed g) \<and> finite (idx_aborted g)"
  by (meson finite_lessThan finite_subset group_inv_def le_sup_iff)

lemma all_returned:
  assumes "group_inv m g" "num_running g = 0"
  shows "idx_completed g \<union> idx_aborted g = {..<group_size g}"
proof (rule card_subset_eq)
  show "idx_completed g \<union> idx_aborted g \<subseteq> {..<group_size g}" using assms(1) by (simp add: group_inv_def)
  show "card (idx_completed g \<union> idx_aborted g) = card {..<group_size g}"
    using assms group_inv_finite [OF assms(1)]
    by (simp add: card_Un_disjoint group_inv_def num_running_def num_returned_def num_completed_def num_aborted_def)
qed simp

lemma start_requests_ok:
  assumes "group_inv m g" "ready_group g"
  shows "\<exists>S ks. start_requests m g = Inr (part_done engine m g S, map (request_of m g) ks)
    \<and> distinct ks \<and> set ks \<inter> S = {} \<and> set ks \<inter> idx_completed g = {} \<and> S \<union> set ks = {..<group_size g} \<and> (\<forall>i\<in>set ks. \<not> cut_off m g i)"
proof (cases "num_aborted g = 0")
  case True
  with assms(2) have "num_returned g = 0" by (simp add: ready_group_def)
  with True have none: "idx_completed g = {}" "idx_aborted g = {}"
    using group_inv_finite [OF assms(1)] by (simp_all add: num_aborted_def num_returned_def num_completed_def)
  then have "map (\<lambda>idx. (idx, input_ids g, m)) [0..<group_size g] = map (request_of m g) [0..<group_size g]"
    using assms(1) by (auto simp: group_inv_def request_of_def tokens_def)
  moreover have "part_done engine m g {} = g" using part_done_start [OF assms(1), of engine] none by simp
  ultimately show ?thesis using True \<open>num_returned g = 0\<close> none
    by (intro exI [of _ "{}"] exI [of _ "[0..<group_size g]"]) (auto simp: start_requests_def cut_off_def)
next
  case False
  then have "num_running g = 0" using assms(2) by (auto simp: ready_group_def num_returned_def num_completed_def num_aborted_def)
  let ?xs = "sorted_list_of_set (idx_aborted g)" and ?C = "idx_completed g"
  have xs: "set ?xs = idx_aborted g" "distinct ?xs" using group_inv_finite [OF assms(1)] by simp_all
  moreover have "?C \<inter> idx_aborted g = {}" using assms(1) by (simp add: group_inv_def)
  ultimately have "start_requests m g = Inr (part_done engine m g (?C \<union> {i \<in> set ?xs. cut_off m g i}),
      map (request_of m g) (filter (\<lambda>i. \<not> cut_off m g i) ?xs))"
    using False resume_all [OF assms(1), of ?xs ?C engine "[]"] part_done_start [OF assms(1), of engine]
    by (auto simp: start_requests_def)
  with all_returned [OF assms(1) \<open>num_running g = 0\<close>] xs \<open>?C \<inter> idx_aborted g = {}\<close> show ?thesis
    by (intro exI [of _ "?C \<union> {i \<in> set ?xs. cut_off m g i}"] exI [of _ "filter (\<lambda>i. \<not> cut_off m g i) ?xs"]) auto
qed

lemma final_length:
  assumes "group_inv m g" "engine_ok engine" "i < group_size g" "0 \<le> m"
  shows "int (length (output_ids (final_result engine m g i))) \<le> m"
proof -
  have len: "int (length (output_ids r)) \<le> m" if "results g ! i = Some r" for r
    using assms(1,3) that by (simp add: group_inv_def)
  have "i \<in> idx_completed g \<or> cut_off m g i \<Longrightarrow> \<exists>r. results g ! i = Some r"
    using assms(1,3) by (auto simp: group_inv_def cut_off_def)
  moreover have "int (length (tokens g i)) \<le> m" using len assms(4) by (auto simp: tokens_def split: option.split)
  then have "int (length (output_ids (engine (request_of m g i)))) \<le> m - int (length (tokens g i))"
    using assms(2) by (simp add: engine_ok_def request_of_def)
  ultimately show ?thesis using len by (auto simp: final_result_def)
qed

lemma part_done_all:
  "idx_completed (part_done engine m g {..<group_size g}) = {i. i < group_size g \<and> ends engine m g i}"
  "num_running (part_done engine m g {..<group_size g}) = 0"
proof -
  show "idx_completed (part_done engine m g {..<group_size g}) = {i. i < group_size g \<and> ends engine m g i}" by auto
  have "card {i \<in> {..<group_size g}. ends engine m g i} + card {i \<in> {..<group_size g}. \<not> ends engine m g i} = group_size g"
    by (subst card_Un_disjoint [symmetric]) (auto intro: arg_cong [of _ "{..<group_size g}" card, simplified])
  then show "num_running (part_done engine m g {..<group_size g}) = 0"
    by (simp add: num_running_def num_returned_def num_completed_def num_aborted_def)
qed

lemma generate_group_ok:
  assumes "group_inv m g" "ready_group g" "0 \<le> m" "engine_ok engine" "\<And>reqs. mset (arrival reqs) = mset reqs"
  shows "generate_group engine arrival m g = Inr (part_done engine m g {..<group_size g})"
    and "group_inv m (part_done engine m g {..<group_size g})"
proof -
  obtain S ks where s: "start_requests m g = Inr (part_done engine m g S, map (request_of m g) ks)"
    "distinct ks" "set ks \<inter> S = {}" "set ks \<inter> idx_completed g = {}" "S \<union> set ks = {..<group_size g}" "\<forall>i\<in>set ks. \<not> cut_off m g i"
    using start_requests_ok [OF assms(1,2)] by blast
  obtain js where js: "arrival (map (request_of m g) ks) = map (request_of m g) js" "mset js = mset ks"
    using arrival_indices [OF assms(5)] by blast
  then have "set js = set ks" "distinct js" using s(2) by (metis mset_eq_setD, metis mset_eq_imp_distinct_iff)
  moreover have "\<forall>i\<in>set js. finish (engine (request_of m g i)) \<in> {ABORT, STOP, LENGTH}"
    using assms(4) unfolding engine_ok_def by blast
  moreover have "S \<union> set js = {..<group_size g}" "set js \<inter> (S \<union> idx_completed g) = {}" "set js \<subseteq> {..<group_size g}"
    using s \<open>set js = set ks\<close> by auto
  ultimately have "rfold (\<lambda>h req. record_sglang_result (fst req) (engine req) h) (part_done engine m g S) (map (request_of m g) js)
      = Inr (part_done engine m g {..<group_size g})"
    using record_all [of js S g m engine] s(6) by simp
  with s(1) js(1) show "generate_group engine arrival m g = Inr (part_done engine m g {..<group_size g})"
    by (simp add: generate_group_def)
  have "\<forall>i<group_size g. int (length (output_ids (final_result engine m g i))) \<le> m"
    using final_length assms by blast
  then show "group_inv m (part_done engine m g {..<group_size g})"
    using assms(1) by (auto simp: group_inv_def)
qed

text \<open>
  C39. Generating or continuing a group ends with every sequence returned, in any
  order of the engine's answers. A sequence that had completed keeps its result; an
  aborted one that already has all its tokens is cut off; any other one has its old
  tokens followed by exactly those the engine produced for it, and never more than
  allowed.
\<close>

theorem generation_continues:
  assumes "group_inv m g" "ready_group g" "0 \<le> m" "engine_ok engine" "\<And>reqs. mset (arrival reqs) = mset reqs"
  shows "\<exists>g'. generate_group engine arrival m g = Inr g' \<and> group_inv m g' \<and> num_running g' = 0
    \<and> idx_completed g' = {i. i < group_size g \<and> ends engine m g i}
    \<and> results g' = map (\<lambda>i. Some (final_result engine m g i)) [0..<group_size g]"
proof (intro exI conjI)
  let ?g = "part_done engine m g {..<group_size g}"
  show "generate_group engine arrival m g = Inr ?g" "group_inv m ?g" by (rule generate_group_ok [OF assms])+
  show "idx_completed ?g = {i. i < group_size g \<and> ends engine m g i}" "num_running ?g = 0" by (rule part_done_all)+
  show "results ?g = map (\<lambda>i. Some (final_result engine m g i)) [0..<group_size g]" by (simp add: part_done_def)
qed

text \<open>A group of three: one sequence is complete, one was aborted after a token, one has all its four tokens.\<close>

definition aborted_group :: seq_group where
  "aborted_group = \<lparr>group_id = 7, input_ids = [1], group_size = 3, idx_completed = {0}, idx_aborted = {1, 2},
     results = [Some \<lparr>output_ids = [5], finish = STOP\<rparr>, Some \<lparr>output_ids = [6], finish = ABORT\<rparr>,
       Some \<lparr>output_ids = [6, 7, 8, 9], finish = ABORT\<rparr>]\<rparr>"

definition two_tokens :: "gen_request \<Rightarrow> seq_result" where
  "two_tokens req = \<lparr>output_ids = (if snd (snd req) \<ge> 2 then [3, 2] else []), finish = STOP\<rparr>"

lemma aborted_group_ok: "group_inv 4 aborted_group" "ready_group aborted_group" "engine_ok two_tokens"
proof -
  show "group_inv 4 aborted_group"
    by (auto simp: group_inv_def aborted_group_def less_Suc_eq nth_Cons' numeral_3_eq_3)
  show "ready_group aborted_group"
    by (simp add: ready_group_def num_running_def num_returned_def num_completed_def num_aborted_def aborted_group_def)
  show "engine_ok two_tokens" by (auto simp: engine_ok_def two_tokens_def)
qed

theorem generation_continues_witness:
  "\<exists>g'. generate_group two_tokens rev 4 aborted_group = Inr g' \<and> map (map_option output_ids) (results g') = [Some [5], Some [6, 3, 2], Some [6, 7, 8, 9]]"
proof -
  obtain g' where "generate_group two_tokens rev 4 aborted_group = Inr g'"
    "results g' = map (\<lambda>i. Some (final_result two_tokens 4 aborted_group i)) [0..<group_size aborted_group]"
    using generation_continues [OF aborted_group_ok(1,2) _ aborted_group_ok(3), of rev] by auto
  then show ?thesis
    by (intro exI [of _ g']) (simp add: aborted_group_def upt_rec final_result_def cut_off_def tokens_def two_tokens_def request_of_def)
qed

end
