(* ===== verification/Dyn_Policy.thy ===== *)
theory Dyn_Policy
  imports Seq_Group
begin

text \<open>
  The decisions of the dynamic scheduler as functions of numbers and lists
  (\<^verbatim>\<open>rlinf/scheduler/dynamic_scheduler/utils.py\<close> and \<^verbatim>\<open>manager.py\<close>): the valid sizes of the
  actor, how far the actor can grow, how many rollout instances are released for it,
  and which instance continues which aborted group.
\<close>

section \<open>The sizes of the actor\<close>

definition get_valid_dp_sizes :: "int \<Rightarrow> int \<Rightarrow> int \<Rightarrow> int \<Rightarrow> int \<Rightarrow> int list res" where
  "get_valid_dp_sizes grp_size n_minibatches rollout_batch_size total_gpus model_parallel_size =
     rbind (py_mod (rollout_batch_size * grp_size) n_minibatches) (\<lambda>r.
     if r \<noteq> 0 then Inl AssertionError
     else
       let trainer_iter_batch_size = (rollout_batch_size * grp_size) div n_minibatches in
       rbind (py_div total_gpus model_parallel_size) (\<lambda>max_dp_size.
       rfold (\<lambda>sizes dp_size.
           rbind (py_mod trainer_iter_batch_size (dp_size * grp_size)) (\<lambda>m.
           Inr (if m = 0 then sizes @ [dp_size] else sizes))) [] [1..max_dp_size]))"

text \<open>
  The loop that \<open>try_allocate\<close> and \<open>find_release_instance_num_needed\<close> share: the
  GPUs for the largest next size within the limit; it stops at the first size that
  is too large. \<open>sizes_after\<close> is the slice behind the index of the current size.
\<close>

fun grow_loop :: "int \<Rightarrow> int \<Rightarrow> int \<Rightarrow> int \<Rightarrow> int list \<Rightarrow> int" where
  "grow_loop limit mp cur inc [] = inc"
| "grow_loop limit mp cur inc (d # ds) =
     (if (d - cur) * mp \<le> limit then grow_loop limit mp cur ((d - cur) * mp) ds else inc)"

definition sizes_after :: "int \<Rightarrow> int list \<Rightarrow> int list" where
  "sizes_after cur ds = tl (dropWhile (\<lambda>d. d \<noteq> cur) ds)"

definition try_allocate :: "int \<Rightarrow> int \<Rightarrow> int \<Rightarrow> int list \<Rightarrow> int res" where
  "try_allocate model_parallel_size current available_gpu_num valid_dp_sizes =
     (if available_gpu_num < model_parallel_size then Inr 0
      else if \<not> (current \<in> set valid_dp_sizes \<and> current \<noteq> last valid_dp_sizes) then Inl AssertionError
      else let inc = grow_loop available_gpu_num model_parallel_size current 0 (sizes_after current valid_dp_sizes)
           in if inc \<le> available_gpu_num then Inr inc else Inl AssertionError)"

text \<open>\<open>ceil_div\<close> is \<open>math.ceil\<close> of the float quotient, exact for operands below \<open>2 ^ 53\<close>.\<close>

definition find_release_instance_num_needed :: "int \<Rightarrow> int \<Rightarrow> int \<Rightarrow> int list \<Rightarrow> int \<Rightarrow> int res" where
  "find_release_instance_num_needed model_parallel_size actor_mp actor_current actor_valid_dp_sizes released_max =
     (if released_max = 0 then Inr 0
      else if actor_current \<notin> set actor_valid_dp_sizes then Inl AssertionError
      else
        let inc = grow_loop (released_max * model_parallel_size) actor_mp actor_current 0
                    (sizes_after actor_current actor_valid_dp_sizes) in
        if model_parallel_size = 0 then Inl ZeroDivisionError
        else if ceil_div inc model_parallel_size \<le> released_max then Inr (ceil_div inc model_parallel_size)
        else Inl AssertionError)"

definition migrate_policy :: "int \<Rightarrow> int \<Rightarrow> int \<Rightarrow> int \<Rightarrow> int \<Rightarrow> int \<Rightarrow> int list \<Rightarrow> int res" where
  "migrate_policy current running_tasks max_running_requests model_parallel_size actor_mp actor_current actor_valid_dp_sizes =
     (if current \<le> 1 then Inr 0
      else if max_running_requests = 0 then Inl ZeroDivisionError
      else find_release_instance_num_needed model_parallel_size actor_mp actor_current actor_valid_dp_sizes
             (max 0 (current - ceil_div running_tasks max_running_requests)))"

section \<open>The assignment of aborted groups\<close>

fun take_batches :: "int \<Rightarrow> int \<Rightarrow> seq_group list \<Rightarrow> seq_group list \<times> seq_group list" where
  "take_batches expected running [] = ([], [])"
| "take_batches expected running (b # bs) =
     (if running < expected
      then (let (taken, rest) = take_batches expected (running + num_aborted b) bs in (b # taken, rest))
      else ([], b # bs))"

fun assign_loop :: "int \<Rightarrow> int list \<Rightarrow> seq_group list \<Rightarrow> seq_group list list \<times> seq_group list" where
  "assign_loop expected [] bs = ([], bs)"
| "assign_loop expected (running # rs) bs =
     (if running \<ge> expected
      then (let (rest_assigned, left) = assign_loop expected rs bs in ([] # rest_assigned, left))
      else (let (taken, rest) = take_batches expected running bs;
                (rest_assigned, left) = assign_loop expected rs rest
            in (taken # rest_assigned, left)))"

text \<open>Of the reports only the running tasks are read.\<close>

definition assign_sequences_sequential ::
  "int \<Rightarrow> int list \<Rightarrow> int list \<Rightarrow> seq_group list \<Rightarrow> seq_group list list res" where
  "assign_sequences_sequential running_tasks instance_ids running_reports batches =
     (if length instance_ids \<noteq> length running_reports then Inl AssertionError
      else rbind (py_div running_tasks (int (length instance_ids))) (\<lambda>q.
        let (assigned, left) = assign_loop (max 0 q) (butlast running_reports) batches in
        Inr (if left \<noteq> [] then assigned @ [left] else assigned)))"

section \<open>Growing the actor\<close>

lemma valid_dp_sizes_eq:
  assumes "n_minibatches \<noteq> 0" "mp \<noteq> 0" "0 < grp"
    and "n_minibatches dvd batch * grp"
  shows "get_valid_dp_sizes grp n_minibatches batch total_gpus mp
    = Inr (filter (\<lambda>d. d * grp dvd (batch * grp) div n_minibatches) [1..total_gpus div mp])"
proof -
  have "rfold (\<lambda>sizes dp_size. rbind (py_mod t (dp_size * grp)) (\<lambda>m. Inr (if m = 0 then sizes @ [dp_size] else sizes))) acc ds
      = Inr (acc @ filter (\<lambda>d. d * grp dvd t) ds)" if "\<forall>d\<in>set ds. 0 < d" for t acc ds
    using that assms(3) by (induction ds arbitrary: acc) (auto simp: dvd_eq_mod_eq_0)
  from this [of "[1..total_gpus div mp]"] assms show ?thesis
    by (simp add: get_valid_dp_sizes_def Let_def dvd_eq_mod_eq_0)
qed

text \<open>The size that \<open>grow_loop\<close> ends with: the largest one within the limit.\<close>

definition best_size :: "int \<Rightarrow> int \<Rightarrow> int \<Rightarrow> int list \<Rightarrow> int" where
  "best_size limit mp cur ds = Max {d \<in> set ds. cur \<le> d \<and> (d - cur) * mp \<le> limit}"

lemma sizes_after_split:
  assumes "cur \<in> set ds"
  obtains xs where "ds = xs @ cur # sizes_after cur ds" "cur \<notin> set xs"
proof -
  obtain xs ys where s: "ds = xs @ cur # ys" "cur \<notin> set xs" using split_list_first [OF assms] by blast
  then have "dropWhile (\<lambda>d. d \<noteq> cur) ds = cur # ys" by (induction xs arbitrary: ds) auto
  then have "sizes_after cur ds = ys" by (simp add: sizes_after_def)
  with s that show ?thesis by metis
qed

lemma sizes_after_greater:
  assumes "sorted_wrt (<) ds" "cur \<in> set ds"
  shows "sorted_wrt (<) (cur # sizes_after cur ds)" "set (cur # sizes_after cur ds) = {d \<in> set ds. cur \<le> d}"
proof -
  obtain xs where xs: "ds = xs @ cur # sizes_after cur ds" by (rule sizes_after_split [OF assms(2)])
  show "sorted_wrt (<) (cur # sizes_after cur ds)" using assms(1) by (subst (asm) xs) (simp add: sorted_wrt_append)
  have "\<forall>x\<in>set xs. x < cur" "\<forall>x\<in>set (sizes_after cur ds). cur < x"
    using assms(1) by (subst (asm) (1) xs, simp add: sorted_wrt_append)+
  then show "set (cur # sizes_after cur ds) = {d \<in> set ds. cur \<le> d}" by (subst xs) force
qed

lemma grow_loop_largest:
  assumes "sorted_wrt (<) (d # ds)" "0 < mp" "cur \<le> d" "(d - cur) * mp \<le> limit"
  shows "grow_loop limit mp cur ((d - cur) * mp) ds = (best_size limit mp cur (d # ds) - cur) * mp"
  using assms
proof (induction ds arbitrary: d)
  case Nil
  then have "{x \<in> set [d]. cur \<le> x \<and> (x - cur) * mp \<le> limit} = {d}" by auto
  then show ?case by (simp add: best_size_def)
next
  case (Cons e ds)
  show ?case
  proof (cases "(e - cur) * mp \<le> limit")
    case True
    let ?S = "\<lambda>xs. {x \<in> set xs. cur \<le> x \<and> (x - cur) * mp \<le> limit}"
    have "?S (d # e # ds) = insert d (?S (e # ds))" "e \<in> ?S (e # ds)" using Cons.prems True by auto
    moreover have "d \<le> Max (?S (e # ds))" using Cons.prems \<open>e \<in> ?S (e # ds)\<close>
      by (intro order.trans [OF _ Max_ge [of _ e]]) auto
    ultimately have "best_size limit mp cur (d # e # ds) = best_size limit mp cur (e # ds)"
      unfolding best_size_def by (subst \<open>?S (d # e # ds) = _\<close>, subst Max_insert) auto
    with Cons.IH [of e] Cons.prems True show ?thesis by simp
  next
    case False
    have "(e - cur) * mp \<le> (x - cur) * mp" if "x \<in> set (e # ds)" for x
      using that Cons.prems(1,2) by (intro mult_right_mono) auto
    then have "{x \<in> set (d # e # ds). cur \<le> x \<and> (x - cur) * mp \<le> limit} = {d}"
      using Cons.prems(3,4) False by force
    with False show ?thesis by (simp add: best_size_def)
  qed
qed

lemma best_size_props:
  assumes "cur \<in> set ds" "0 \<le> limit"
  shows "best_size limit mp cur ds \<in> set ds" "cur \<le> best_size limit mp cur ds" "(best_size limit mp cur ds - cur) * mp \<le> limit"
    "\<And>d. d \<in> set ds \<Longrightarrow> cur \<le> d \<Longrightarrow> (d - cur) * mp \<le> limit \<Longrightarrow> d \<le> best_size limit mp cur ds"
proof -
  let ?S = "{d \<in> set ds. cur \<le> d \<and> (d - cur) * mp \<le> limit}"
  have "cur \<in> ?S" using assms by simp
  then have "Max ?S \<in> ?S" by (intro Max_in) auto
  then show "best_size limit mp cur ds \<in> set ds" "cur \<le> best_size limit mp cur ds" "(best_size limit mp cur ds - cur) * mp \<le> limit"
    by (auto simp: best_size_def)
  show "d \<le> best_size limit mp cur ds" if "d \<in> set ds" "cur \<le> d" "(d - cur) * mp \<le> limit" for d
    unfolding best_size_def using that by (intro Max_ge) auto
qed

lemma grow_loop_best:
  assumes "sorted_wrt (<) ds" "cur \<in> set ds" "0 < mp" "0 \<le> limit"
  shows "grow_loop limit mp cur 0 (sizes_after cur ds) = (best_size limit mp cur ds - cur) * mp"
proof -
  have "best_size limit mp cur (cur # sizes_after cur ds) = best_size limit mp cur ds"
    using sizes_after_greater(2) [OF assms(1,2)] by (auto simp: best_size_def intro!: arg_cong [of _ _ Max])
  with grow_loop_largest [of cur "sizes_after cur ds" mp cur limit] sizes_after_greater(1) [OF assms(1,2)] assms(3,4)
  show ?thesis by simp
qed

lemma try_allocate_best:
  assumes "sorted_wrt (<) ds" "cur \<in> set ds" "0 < mp" "0 \<le> free" "cur = last ds \<Longrightarrow> free < mp"
  shows "try_allocate mp cur free ds = Inr ((best_size free mp cur ds - cur) * mp)"
proof (cases "free < mp")
  case True
  have "best_size free mp cur ds = cur"
  proof (rule ccontr)
    assume "best_size free mp cur ds \<noteq> cur"
    then have "1 \<le> best_size free mp cur ds - cur" using best_size_props(2) [OF assms(2,4), of mp] by simp
    then have "mp \<le> (best_size free mp cur ds - cur) * mp" using mult_right_mono [of 1 _ mp] assms(3) by simp
    then show False using best_size_props(3) [OF assms(2,4), of mp] True by simp
  qed
  with True show ?thesis by (simp add: try_allocate_def)
next
  case False
  with grow_loop_best [OF assms(1-4)] best_size_props(3) [OF assms(2,4), of mp] assms(2,5) show ?thesis
    by (auto simp: try_allocate_def)
qed

text \<open>The instances released are the fewest that free the GPUs for the best size of the actor.\<close>

lemma find_release_needed:
  assumes "sorted_wrt (<) ds" "cur \<in> set ds" "0 < actor_mp" "0 < mp" "0 \<le> n"
  defines "k \<equiv> ceil_div ((best_size (n * mp) actor_mp cur ds - cur) * actor_mp) mp"
  shows "find_release_instance_num_needed mp actor_mp cur ds n = Inr k" "0 \<le> k" "k \<le> n"
proof -
  have lim: "0 \<le> n * mp" using assms(4,5) by simp
  have b: "(best_size (n * mp) actor_mp cur ds - cur) * actor_mp \<le> n * mp" "0 \<le> (best_size (n * mp) actor_mp cur ds - cur) * actor_mp"
    using best_size_props(2,3) [OF assms(2) lim, of actor_mp] assms(3) by auto
  then show k: "0 \<le> k" "k \<le> n" using assms(4) by (simp_all add: k_def ceil_div_nonneg ceil_div_le_iff)
  show "find_release_instance_num_needed mp actor_mp cur ds n = Inr k"
  proof (cases "n = 0")
    case True
    then have "k = 0" using k by simp
    with True show ?thesis by (simp add: find_release_instance_num_needed_def)
  next
    case False
    with grow_loop_best [OF assms(1,2,3) lim] k(2) assms(2,4) show ?thesis
      by (simp add: find_release_instance_num_needed_def k_def)
  qed
qed

lemma migrate_policy_ok:
  assumes "sorted_wrt (<) ds" "cur \<in> set ds" "0 < actor_mp" "0 < mp" "0 < running" "0 < max_running"
  obtains n where "migrate_policy current running max_running mp actor_mp cur ds = Inr n" "0 \<le> n" "n = 0 \<or> n < current"
proof (cases "current \<le> 1")
  case True
  then show ?thesis by (intro that [of 0]) (simp_all add: migrate_policy_def)
next
  case False
  let ?n = "max 0 (current - ceil_div running max_running)"
  have "1 \<le> ceil_div running max_running" using ceil_div_le_iff [OF assms(6), of running 0] assms(5) by linarith
  then have "?n = 0 \<or> ?n < current" by auto
  moreover have "0 \<le> ?n" by simp
  note k = find_release_needed [OF assms(1-4) this]
  ultimately show ?thesis using k(2,3) False assms(6)
    by (intro that [OF _ k(2)]) (auto simp: migrate_policy_def k(1))
qed

text \<open>
  The rollout releases the fewest instances that let the actor grow as far as the
  releasable ones allow: \<open>k\<close> instances free enough GPUs for a valid size \<open>d\<close>, one less
  would not, no larger valid size fits even all \<open>n\<close> of them, and the actor's own
  decision on the GPUs of \<open>k\<close> instances is this size. No assertion fails.
\<close>

lemma release_feeds_actor:
  assumes "sorted_wrt (<) ds" "cur \<in> set ds" "0 < actor_mp" "0 < mp" "0 \<le> n"
  shows "\<exists>k d. find_release_instance_num_needed mp actor_mp cur ds n = Inr k \<and> 0 \<le> k \<and> k \<le> n
    \<and> d \<in> set ds \<and> cur \<le> d \<and> (d - cur) * actor_mp \<le> k * mp \<and> (k = 0 \<or> (k - 1) * mp < (d - cur) * actor_mp)
    \<and> (\<forall>e\<in>set ds. d < e \<longrightarrow> n * mp < (e - cur) * actor_mp)
    \<and> try_allocate actor_mp cur (k * mp) ds = Inr ((d - cur) * actor_mp)"
proof -
  let ?d = "best_size (n * mp) actor_mp cur ds"
  let ?k = "ceil_div ((?d - cur) * actor_mp) mp"
  have lim: "0 \<le> n * mp" using assms(4,5) by simp
  note d = best_size_props [OF assms(2) lim, where mp = actor_mp]
  note k = find_release_needed [OF assms]
  have fits: "(?d - cur) * actor_mp \<le> ?k * mp" using ceil_div_le_iff [OF assms(4)] by blast
  have least: "(?k - 1) * mp < (?d - cur) * actor_mp" using ceil_div_le_iff [OF assms(4), of _ "?k - 1"] by (meson linorder_not_le not_less zle_diff1_eq order_refl)
  have over: "n * mp < (e - cur) * actor_mp" if "e \<in> set ds" "?d < e" for e
    using d(2) d(4) [OF that(1)] that(2) by linarith
  have kn: "?k * mp \<le> n * mp" using k(3) assms(4) by (simp add: mult_right_mono)
  have same: "best_size (?k * mp) actor_mp cur ds = ?d"
  proof (rule antisym)
    have lim': "0 \<le> ?k * mp" using k(2) assms(4) by simp
    note d' = best_size_props [OF assms(2) lim', where mp = actor_mp]
    show "best_size (?k * mp) actor_mp cur ds \<le> ?d" using d(4) [OF d'(1,2)] d'(3) kn by linarith
    show "?d \<le> best_size (?k * mp) actor_mp cur ds" using d'(4) [OF d(1,2) fits] .
  qed
  have "?k * mp < actor_mp" if "cur = last ds"
  proof -
    have "?d \<le> cur"
    proof -
      obtain ys z where "ds = ys @ [z]" using assms(2) by (cases ds rule: rev_cases) auto
      with assms(1) that d(1) show ?thesis by (auto simp: sorted_wrt_append)
    qed
    then have "?d = cur" using d(2) by simp
    then show ?thesis using assms(3) by (simp add: ceil_div_def)
  qed
  then have "try_allocate actor_mp cur (?k * mp) ds = Inr ((?d - cur) * actor_mp)"
    using try_allocate_best [OF assms(1-3), of "?k * mp"] k(2) assms(4) same by simp
  with k d(1,2) fits least over show ?thesis by blast
qed

section \<open>The assigned groups\<close>

lemma take_batches_spec:
  "take_batches expected running bs = (taken, rest) \<Longrightarrow> taken @ rest = bs
    \<and> (rest \<noteq> [] \<longrightarrow> expected \<le> running + sum_list (map num_aborted taken))
    \<and> (taken \<noteq> [] \<longrightarrow> running + sum_list (map num_aborted (butlast taken)) < expected)"
proof (induction expected running bs arbitrary: taken rule: take_batches.induct)
  case (2 expected running b bs)
  show ?case
  proof (cases "running < expected")
    case True
    then obtain t where t: "take_batches expected (running + num_aborted b) bs = (t, rest)" "taken = b # t"
      using 2(2) by (auto split: prod.splits)
    from 2(1) [OF True t(1)] True show ?thesis by (cases t) (auto simp: t(2))
  qed (use 2(2) in auto)
qed simp

lemma assign_loop_spec:
  "assign_loop expected rs bs = (as, left) \<Longrightarrow> concat as @ left = bs \<and> length as = length rs
    \<and> (\<forall>i<length rs.
        (as ! i \<noteq> [] \<longrightarrow> rs ! i + sum_list (map num_aborted (butlast (as ! i))) < expected)
        \<and> (left \<noteq> [] \<longrightarrow> expected \<le> rs ! i + sum_list (map num_aborted (as ! i))))"
proof (induction expected rs bs arbitrary: as rule: assign_loop.induct)
  case (2 expected running rs bs)
  show ?case
  proof (cases "running \<ge> expected")
    case True
    then obtain cs where c: "assign_loop expected rs bs = (cs, left)" "as = [] # cs"
      using 2(3) by (auto split: prod.splits)
    from 2(1) [OF True c(1)] True show ?thesis by (auto simp: c(2) nth_Cons split: nat.split)
  next
    case False
    then obtain taken rest cs where c: "take_batches expected running bs = (taken, rest)"
        "assign_loop expected rs rest = (cs, left)" "as = taken # cs"
      using 2(3) by (auto split: prod.splits)
    note t = take_batches_spec [OF c(1)] and l = 2(2) [OF False c(1) [symmetric] refl c(2)]
    have "rest \<noteq> []" if "left \<noteq> []" using l that by auto
    with t l show ?thesis by (auto simp: c(3) nth_Cons split: nat.split)
  qed
qed simp

lemma assignment_keeps:
  assumes "ids \<noteq> []" "length reports = length ids"
  shows "\<exists>as. assign_sequences_sequential running ids reports batches = Inr as \<and> concat as = batches \<and> length as \<le> length ids"
proof -
  obtain as left where l: "assign_loop (max 0 (running div int (length ids))) (butlast reports) batches = (as, left)" by fastforce
  from assign_loop_spec [OF l] l assms show ?thesis by (auto simp: assign_sequences_sequential_def Suc_le_eq)
qed

text \<open>
  The assignment of aborted groups to the remaining instances loses and duplicates
  nothing and keeps their order. Every instance but the last gets groups only while
  it runs fewer sequences than the average; and when groups are left for the last
  one, all the others have reached the average. The list ends before the last
  instance when nothing is left for it, so it may be one shorter than the list of instances.
\<close>

lemma assignment_balanced:
  assumes "ids \<noteq> []" "length reports = length ids"
  shows "\<exists>as. assign_sequences_sequential running ids reports batches = Inr as \<and> concat as = batches
    \<and> (length as = length ids \<or> length as = length ids - 1)
    \<and> (\<forall>i<length ids - 1.
        (as ! i \<noteq> [] \<longrightarrow> reports ! i + sum_list (map num_aborted (butlast (as ! i))) < max 0 (running div int (length ids)))
        \<and> (length as = length ids \<longrightarrow> max 0 (running div int (length ids)) \<le> reports ! i + sum_list (map num_aborted (as ! i))))"
proof -
  let ?e = "max 0 (running div int (length ids))"
  obtain as left where l: "assign_loop ?e (butlast reports) batches = (as, left)" by fastforce
  note spec = assign_loop_spec [OF l]
  have nth: "butlast reports ! i = reports ! i" if "i < length ids - 1" for i
    using that assms(2) by (simp add: nth_butlast)
  have run: "assign_sequences_sequential running ids reports batches = Inr (if left \<noteq> [] then as @ [left] else as)"
    using assms l by (simp add: assign_sequences_sequential_def)
  have len: "length as = length ids - 1" using spec assms(2) by simp
  show ?thesis
  proof (cases "left = []")
    case True
    with run spec nth len assms show ?thesis by (intro exI [of _ as]) (auto simp: Suc_le_eq)
  next
    case False
    have "(as @ [left]) ! i = as ! i" if "i < length ids - 1" for i using that len by (simp add: nth_append)
    with False run spec nth len assms show ?thesis by (intro exI [of _ "as @ [left]"]) (auto simp: nth_append)
  qed
qed

definition group_with :: "nat \<Rightarrow> seq_group" where
  "group_with n = \<lparr>group_id = 0, input_ids = [], group_size = n, idx_completed = {}, idx_aborted = set [0..<n], results = replicate n None\<rparr>"

end
