(* ===== verification/Dyn_Scheduler.thy ===== *)
theory Dyn_Scheduler
  imports Dyn_Policy
begin

text \<open>
  The dynamic scheduler: \<open>ComponentManager\<close> and its three subclasses
  (\<^verbatim>\<open>rlinf/scheduler/dynamic_scheduler/manager.py\<close>), the scheduler state
  (\<^verbatim>\<open>utils.py\<close>) and \<open>SchedulerWorker\<close> (\<^verbatim>\<open>scheduler_worker.py\<close>). While the actor trains,
  the scheduler takes GPUs from the rollout and the inference and gives them to the actor.

  The other processes are parameters: \<open>answer\<close> gives what a rollout instance replies to
  a request (\<open>None\<close> if it never does), and three flags say whether the inference is
  done, whether it ever will be, and whether the actor asks for its update. The
  messages of the scheduler are collected in \<open>sent\<close>. An operation is \<open>None\<close> when it waits for ever.
\<close>

section \<open>Messages, managers and the state\<close>

datatype role = ROLLOUT | INFERENCE | ACTOR

datatype rollout_action = Default | Report | Migrate_In | Migrate_Out | Finish | Wait_For_Finish | Offloaded

record rollout_report =
  rep_total_tasks :: int
  rep_completed_tasks :: int
  rep_running_tasks :: int

record schedule_info =
  info_id :: int
  info_data :: "seq_group list option"
  info_report :: "rollout_report option"
  info_action :: rollout_action

definition request :: "rollout_action \<Rightarrow> schedule_info" where
  "request act = \<lparr>info_id = -1, info_data = None, info_report = None, info_action = act\<rparr>"

datatype message = ToRollout int schedule_info | ToActor "int option"

record manager =
  init_instance_num :: int
  init_gpu_num :: int
  model_parallel_size :: int
  current_instance_num :: int
  current_gpu_num :: int
  current_instance_offset :: int

definition manager_reset :: "manager \<Rightarrow> manager" where
  "manager_reset m = m\<lparr>current_instance_num := init_instance_num m, current_gpu_num := init_gpu_num m, current_instance_offset := 0\<rparr>"

definition make_manager :: "int \<Rightarrow> int \<Rightarrow> manager res" where
  "make_manager dp_size world_size =
     rbind (py_div world_size dp_size) (\<lambda>mp.
     Inr \<lparr>init_instance_num = dp_size, init_gpu_num = world_size, model_parallel_size = mp,
          current_instance_num = dp_size, current_gpu_num = world_size, current_instance_offset = 0\<rparr>)"

definition manager_update :: "int \<Rightarrow> int \<Rightarrow> int \<Rightarrow> manager \<Rightarrow> manager res" where
  "manager_update cluster_num_gpus released incremental m =
     (if \<not> (released = 0 \<or> incremental = 0) then Inl AssertionError
      else if released = 0 \<and> incremental = 0 then Inr m
      else if released \<noteq> 0
      then if current_instance_num m \<ge> released
           then Inr (m\<lparr>current_gpu_num := current_gpu_num m - released * model_parallel_size m,
                  current_instance_num := current_instance_num m - released,
                  current_instance_offset := current_instance_offset m + released\<rparr>)
           else Inl AssertionError
      else if \<not> incremental > 0 then Inl AssertionError
      else if (current_instance_num m + incremental) * model_parallel_size m \<le> cluster_num_gpus
      then Inr (m\<lparr>current_instance_num := current_instance_num m + incremental,
             current_gpu_num := (current_instance_num m + incremental) * model_parallel_size m,
             current_instance_offset := current_instance_offset m - incremental\<rparr>)
      else Inl AssertionError)"

definition running_instances :: "manager \<Rightarrow> int list" where
  "running_instances m = [current_instance_offset m..init_instance_num m - 1]"

text \<open>The configuration the scheduler reads, and its state.\<close>

record sched_config =
  n_minibatches :: int
  use_pre_process_policy :: bool
  use_wait_before_last_iter_policy :: bool
  rollout_total_tasks :: int
  max_running_requests :: int
  cluster_num_gpus :: int
  actor_world_size :: int
  actor_valid_dp_sizes :: "int list"

record scheduler =
  managers :: "role \<Rightarrow> manager option"
  reports :: "(int \<times> rollout_report) list"
  total_tasks :: int
  running_tasks :: int
  available_gpu_num :: int
  instance_nums :: "role \<Rightarrow> int option"
  sent :: "message list"

record surroundings =
  answer :: "rollout_action \<Rightarrow> int \<Rightarrow> schedule_info option"
  inference_done :: bool
  inference_ends :: bool
  actor_updates :: bool

definition manager_of :: "role \<Rightarrow> scheduler \<Rightarrow> manager res" where
  "manager_of r s = (case managers s r of None \<Rightarrow> Inl KeyError | Some m \<Rightarrow> Inr m)"

definition update_manager :: "sched_config \<Rightarrow> role \<Rightarrow> int \<Rightarrow> int \<Rightarrow> scheduler \<Rightarrow> scheduler res" where
  "update_manager cfg r released incremental s =
     rbind (manager_of r s) (\<lambda>m.
     rbind (manager_update (cluster_num_gpus cfg) released incremental m) (\<lambda>m'.
     Inr (s\<lparr>managers := (managers s)(r \<mapsto> m')\<rparr>)))"

section \<open>The rollout\<close>

definition scatter_requests :: "schedule_info list \<Rightarrow> int list \<Rightarrow> scheduler \<Rightarrow> scheduler res" where
  "scatter_requests requests ids s =
     (if length requests \<noteq> length ids then Inl AssertionError
      else Inr (s\<lparr>sent := sent s @ map (\<lambda>(r, i). ToRollout i r) (zip requests ids)\<rparr>))"

definition gather_responses :: "surroundings \<Rightarrow> rollout_action \<Rightarrow> int list \<Rightarrow> schedule_info list comp" where
  "gather_responses env act ids =
     cbind (cmap (\<lambda>i. map_option Inr (answer env act i)) ids) (\<lambda>responses.
     if map info_id responses = ids then Some (Inr responses) else Some (Inl AssertionError))"

text \<open>A request to all the instances, and their responses.\<close>

definition ask_all :: "surroundings \<Rightarrow> rollout_action \<Rightarrow> int list \<Rightarrow> scheduler \<Rightarrow> (scheduler \<times> schedule_info list) comp" where
  "ask_all env act ids s =
     cbind (Some (scatter_requests (map (\<lambda>_. request act) ids) ids s)) (\<lambda>s'.
     cbind (gather_responses env act ids) (\<lambda>responses. Some (Inr (s', responses))))"

definition rollout_report_all :: "surroundings \<Rightarrow> scheduler \<Rightarrow> scheduler comp" where
  "rollout_report_all env s =
     cbind (Some (manager_of ROLLOUT s)) (\<lambda>m.
     cbind (ask_all env Report (running_instances m) s) (\<lambda>(s', responses).
     cbind (Some (rmap (\<lambda>r. case info_report r of None \<Rightarrow> Inl AttributeError | Some p \<Rightarrow> Inr (info_id r, p)) responses)) (\<lambda>rs.
     Some (Inr (s'\<lparr>reports := rs, total_tasks := sum_list (map (rep_total_tasks \<circ> snd) rs),
       running_tasks := sum_list (map (rep_running_tasks \<circ> snd) rs)\<rparr>)))))"

definition finish_instances ::
  "sched_config \<Rightarrow> surroundings \<Rightarrow> rollout_action \<Rightarrow> int list \<Rightarrow> scheduler \<Rightarrow> (scheduler \<times> int) comp" where
  "finish_instances cfg env act ids s =
     (if act \<notin> {Finish, Wait_For_Finish} then Some (Inl AssertionError)
      else cbind (ask_all env act ids s) (\<lambda>(s', responses).
        if \<not> list_all (\<lambda>r. info_action r = Offloaded) responses then Some (Inl AssertionError)
        else cbind (Some (update_manager cfg ROLLOUT (int (length ids)) 0 s')) (\<lambda>s''.
             cbind (Some (manager_of ROLLOUT s'')) (\<lambda>m.
             Some (Inr (s'', int (length ids) * model_parallel_size m))))))"

definition migrate_out :: "surroundings \<Rightarrow> int list \<Rightarrow> scheduler \<Rightarrow> (scheduler \<times> seq_group list) comp" where
  "migrate_out env ids s =
     cbind (ask_all env Migrate_Out ids s) (\<lambda>(s', responses).
     cbind (Some (rmap (\<lambda>r. case info_data r of None \<Rightarrow> Inl AssertionError | Some gs \<Rightarrow> Inr gs) responses)) (\<lambda>gss.
     Some (Inr (s', concat gss))))"

definition migrate_in :: "int list \<Rightarrow> seq_group list \<Rightarrow> scheduler \<Rightarrow> scheduler res" where
  "migrate_in ids batches s =
     rbind (py_div (running_tasks s) (int (length ids))) (\<lambda>_.
     rbind (rmap (\<lambda>i. case map_of (reports s) i of None \<Rightarrow> Inl KeyError | Some p \<Rightarrow> Inr (rep_running_tasks p)) ids) (\<lambda>rs.
     rbind (assign_sequences_sequential (running_tasks s) ids rs batches) (\<lambda>assigned.
     let used = filter (\<lambda>(i, bs). bs \<noteq> []) (zip ids assigned) in
     scatter_requests (map (\<lambda>(i, bs). (request Migrate_In)\<lparr>info_data := Some bs\<rparr>) used) (map fst used) s)))"

definition migrate :: "sched_config \<Rightarrow> surroundings \<Rightarrow> int \<Rightarrow> scheduler \<Rightarrow> (scheduler \<times> int) comp" where
  "migrate cfg env n s =
     (if n = 0 then Some (Inr (s, 0))
      else cbind (Some (manager_of ROLLOUT s)) (\<lambda>m.
        if \<not> n < current_instance_num m then Some (Inl AssertionError)
        else if int (length (reports s)) \<noteq> current_instance_num m then Some (Inl AssertionError)
        else
          let ids = running_instances m; out = py_slice ids 0 n; rest = py_slice ids n (int (length ids)) in
          cbind (migrate_out env out s) (\<lambda>(s1, batches).
          cbind (Some (migrate_in rest batches s1)) (\<lambda>s2.
          cbind (finish_instances cfg env Finish out s2) (\<lambda>(s3, _).
          Some (Inr (s3, n * model_parallel_size m)))))))"

text \<open>\<open>RolloutManager.pre_process_impl\<close>: it polls until enough is generated; each element of the list is one poll.\<close>

fun pre_process_loop ::
  "sched_config \<Rightarrow> int \<Rightarrow> int \<Rightarrow> surroundings list \<Rightarrow> scheduler \<Rightarrow> scheduler comp" where
  "pre_process_loop cfg n threshold [] s = None"
| "pre_process_loop cfg n threshold (env # envs) s =
     cbind (rollout_report_all env s) (\<lambda>s'.
     if total_tasks s' = rollout_total_tasks cfg \<and> running_tasks s' \<le> threshold
     then cbind (migrate cfg env n s') (\<lambda>(s'', _). Some (Inr s''))
     else pre_process_loop cfg n threshold envs s')"

definition rollout_pre_process :: "sched_config \<Rightarrow> surroundings list \<Rightarrow> scheduler \<Rightarrow> scheduler comp" where
  "rollout_pre_process cfg polls s0 =
     (let s = s0\<lparr>running_tasks := rollout_total_tasks cfg\<rparr> in
      if \<not> use_pre_process_policy cfg then Some (Inr s)
      else cbind (Some (manager_of ROLLOUT s)) (\<lambda>m.
        cbind (Some (py_div (actor_world_size cfg) (model_parallel_size m))) (\<lambda>n.
        if actor_world_size cfg mod model_parallel_size m \<noteq> 0 then Some (Inl AssertionError)
        else if \<not> n > 0 then Some (Inl AssertionError)
        else
          let threshold = rollout_total_tasks cfg div 2 in
          if \<not> (threshold > 0 \<and> threshold < rollout_total_tasks cfg) then Some (Inl AssertionError)
          else pre_process_loop cfg n threshold polls s)))"

definition rollout_release :: "sched_config \<Rightarrow> surroundings \<Rightarrow> int \<Rightarrow> scheduler \<Rightarrow> (scheduler \<times> int) comp" where
  "rollout_release cfg env train_iter s0 =
     cbind (Some (manager_of ROLLOUT s0)) (\<lambda>m.
     if current_instance_num m = 0 then Some (Inr (s0, 0))
     else cbind (rollout_report_all env s0) (\<lambda>s.
       if running_tasks s = 0 then finish_instances cfg env Finish (running_instances m) s
       else if use_wait_before_last_iter_policy cfg \<and> train_iter = n_minibatches cfg - 2
       then finish_instances cfg env Wait_For_Finish (running_instances m) s
       else cbind (Some (manager_of ACTOR s)) (\<lambda>ma.
         cbind (Some (case instance_nums s ACTOR of None \<Rightarrow> Inl KeyError | Some c \<Rightarrow> Inr c)) (\<lambda>actor_current.
         cbind (Some (migrate_policy (current_instance_num m) (running_tasks s) (max_running_requests cfg)
             (model_parallel_size m) (model_parallel_size ma) actor_current (actor_valid_dp_sizes cfg))) (\<lambda>n.
         migrate cfg env n s)))))"

definition rollout_finalize :: "sched_config \<Rightarrow> surroundings \<Rightarrow> scheduler \<Rightarrow> scheduler comp" where
  "rollout_finalize cfg env s =
     cbind (Some (manager_of ROLLOUT s)) (\<lambda>m.
     if current_instance_num m = 0 then Some (Inr s)
     else cbind (finish_instances cfg env Finish (running_instances m) s) (\<lambda>(s', _). Some (Inr s')))"

section \<open>The inference\<close>

definition release_inference :: "sched_config \<Rightarrow> int \<Rightarrow> manager \<Rightarrow> scheduler \<Rightarrow> (scheduler \<times> int) comp" where
  "release_inference cfg n m s =
     cbind (Some (update_manager cfg INFERENCE n 0 s)) (\<lambda>s'. Some (Inr (s', n * model_parallel_size m)))"

definition inference_wait_for_finish :: "sched_config \<Rightarrow> surroundings \<Rightarrow> scheduler \<Rightarrow> (scheduler \<times> int) comp" where
  "inference_wait_for_finish cfg env s =
     cbind (Some (manager_of INFERENCE s)) (\<lambda>m.
     if inference_done env \<or> inference_ends env then release_inference cfg (current_instance_num m) m s else None)"

definition inference_release :: "sched_config \<Rightarrow> surroundings \<Rightarrow> int \<Rightarrow> scheduler \<Rightarrow> (scheduler \<times> int) comp" where
  "inference_release cfg env train_iter s =
     cbind (Some (manager_of INFERENCE s)) (\<lambda>m.
     if current_instance_num m = 0 then Some (Inr (s, 0))
     else if \<not> use_wait_before_last_iter_policy cfg
     then release_inference cfg (if inference_done env then current_instance_num m else 0) m s
     else case instance_nums s ROLLOUT of
            None \<Rightarrow> Some (Inl KeyError)
          | Some rollout_current \<Rightarrow>
              if train_iter = n_minibatches cfg - 2 \<or> rollout_current = 0
              then inference_wait_for_finish cfg env s
              else Some (Inr (s, 0)))"

definition inference_finalize :: "surroundings \<Rightarrow> scheduler \<Rightarrow> scheduler comp" where
  "inference_finalize env s = (if inference_done env \<or> inference_ends env then Some (Inr s) else None)"

section \<open>The actor\<close>

definition actor_pre_process :: "sched_config \<Rightarrow> scheduler \<Rightarrow> scheduler" where
  "actor_pre_process cfg s = (if use_pre_process_policy cfg then s\<lparr>sent := sent s @ [ToActor None]\<rparr> else s)"

definition actor_scale :: "sched_config \<Rightarrow> int \<Rightarrow> scheduler \<Rightarrow> scheduler res" where
  "actor_scale cfg new_gpu_num s0 =
     rbind (manager_of ACTOR s0) (\<lambda>m.
     let s = s0\<lparr>sent := sent s0 @ [ToActor (if new_gpu_num = current_gpu_num m then None else Some new_gpu_num)]\<rparr> in
     if new_gpu_num = current_gpu_num m then Inr s
     else rbind (py_div new_gpu_num (model_parallel_size m)) (\<lambda>n.
       if new_gpu_num > current_gpu_num m
       then update_manager cfg ACTOR 0 (n - current_instance_num m) s
       else update_manager cfg ACTOR (current_instance_num m - n) 0 s))"

definition actor_allocate :: "sched_config \<Rightarrow> scheduler \<Rightarrow> (scheduler \<times> int) res" where
  "actor_allocate cfg s =
     rbind (manager_of ACTOR s) (\<lambda>m.
     rbind (try_allocate (model_parallel_size m) (current_instance_num m) (available_gpu_num s) (actor_valid_dp_sizes cfg)) (\<lambda>inc.
     if \<not> inc \<ge> 0 then Inl AssertionError
     else rbind (actor_scale cfg (inc + current_gpu_num m) s) (\<lambda>s'. Inr (s', inc))))"

definition actor_finalize :: "sched_config \<Rightarrow> scheduler \<Rightarrow> scheduler res" where
  "actor_finalize cfg s = rbind (manager_of ACTOR s) (\<lambda>m. actor_scale cfg (init_gpu_num m) s)"

section \<open>The scheduler worker\<close>

text \<open>\<open>release_or_allocate\<close>, with the operations of the subclass of the role.\<close>

definition release_or_allocate ::
  "sched_config \<Rightarrow> surroundings \<Rightarrow> int \<Rightarrow> role \<Rightarrow> scheduler \<Rightarrow> (scheduler \<times> int \<times> int) comp" where
  "release_or_allocate cfg env train_iter r s =
     (if train_iter = n_minibatches cfg - 1
      then cbind (case r of ROLLOUT \<Rightarrow> rollout_finalize cfg env s | INFERENCE \<Rightarrow> inference_finalize env s
                  | ACTOR \<Rightarrow> Some (actor_finalize cfg s)) (\<lambda>s'. Some (Inr (s', 0, 0)))
      else case r of
          ROLLOUT \<Rightarrow> cbind (rollout_release cfg env train_iter s) (\<lambda>(s', n). Some (Inr (s', n, 0)))
        | INFERENCE \<Rightarrow> cbind (inference_release cfg env train_iter s) (\<lambda>(s', n). Some (Inr (s', n, 0)))
        | ACTOR \<Rightarrow> cbind (Some (actor_allocate cfg s)) (\<lambda>(s', n). Some (Inr (s', 0, n))))"

text \<open>\<open>_DynamicSchedulerState.update\<close> and \<open>reset\<close>.\<close>

definition state_update :: "role \<Rightarrow> int \<Rightarrow> int \<Rightarrow> scheduler \<Rightarrow> scheduler res" where
  "state_update r released incremental s =
     (if \<not> (released = 0 \<or> incremental = 0) then Inl AssertionError
      else rbind (manager_of r s) (\<lambda>m.
        Inr (s\<lparr>available_gpu_num := available_gpu_num s + (released - incremental),
               instance_nums := (instance_nums s)(r \<mapsto> current_instance_num m)\<rparr>)))"

definition state_reset :: "scheduler \<Rightarrow> scheduler" where
  "state_reset s = s\<lparr>available_gpu_num := 0, instance_nums := (\<lambda>r. map_option current_instance_num (managers s r))\<rparr>"

text \<open>The turn of a component in an iteration; a component without a manager is passed over.\<close>

definition component_step :: "sched_config \<Rightarrow> surroundings \<Rightarrow> int \<Rightarrow> role \<Rightarrow> scheduler \<Rightarrow> scheduler comp" where
  "component_step cfg env train_iter r s =
     (if managers s r = None then Some (Inr s)
      else cbind (release_or_allocate cfg env train_iter r s) (\<lambda>(s', released, incremental).
           Some (state_update r released incremental s')))"

fun workflow_loop :: "sched_config \<Rightarrow> surroundings \<Rightarrow> int \<Rightarrow> role list \<Rightarrow> scheduler \<Rightarrow> scheduler comp" where
  "workflow_loop cfg env train_iter [] s = Some (Inr s)"
| "workflow_loop cfg env train_iter (r # rs) s =
     cbind (component_step cfg env train_iter r s) (workflow_loop cfg env train_iter rs)"

fun main_loop :: "sched_config \<Rightarrow> role list \<Rightarrow> (int \<Rightarrow> surroundings) \<Rightarrow> int list \<Rightarrow> scheduler \<Rightarrow> scheduler comp" where
  "main_loop cfg workflow rounds [] s = Some (Inr s)"
| "main_loop cfg workflow rounds (t # ts) s =
     (if actor_updates (rounds t)
      then cbind (workflow_loop cfg (rounds t) t workflow s) (main_loop cfg workflow rounds ts)
      else None)"

definition pre_process :: "sched_config \<Rightarrow> surroundings list \<Rightarrow> scheduler \<Rightarrow> scheduler comp" where
  "pre_process cfg polls s =
     cbind (rollout_pre_process cfg polls (s\<lparr>managers := (managers s)(ROLLOUT := map_option manager_reset (managers s ROLLOUT))\<rparr>)) (\<lambda>s1.
     Some (Inr (state_reset (actor_pre_process cfg
       (s1\<lparr>managers := (\<lambda>r. if r = ROLLOUT then managers s1 r else map_option manager_reset (managers s1 r))\<rparr>)))))"

definition workflow :: "role list" where
  "workflow = [ROLLOUT, INFERENCE, ACTOR]"

text \<open>\<open>SchedulerWorker.schedule\<close>.\<close>

definition schedule :: "sched_config \<Rightarrow> surroundings list \<Rightarrow> (int \<Rightarrow> surroundings) \<Rightarrow> scheduler \<Rightarrow> scheduler comp" where
  "schedule cfg polls rounds s =
     cbind (pre_process cfg polls s) (main_loop cfg workflow rounds (py_range (n_minibatches cfg)))"

section \<open>The rollout's operations in cooperative surroundings\<close>

text \<open>
  Surroundings that cooperate: every request is answered by the instance it was sent
  to, with a report, data or the signal of being offloaded, as the request asks; the
  inference ends and the actor asks for its update.
\<close>

definition reply_ok :: "rollout_action \<Rightarrow> schedule_info \<Rightarrow> bool" where
  "reply_ok act a \<longleftrightarrow> (act = Report \<longrightarrow> (\<exists>p. info_report a = Some p \<and> 0 \<le> rep_running_tasks p))
     \<and> (act = Migrate_Out \<longrightarrow> info_data a \<noteq> None)
     \<and> (act \<in> {Finish, Wait_For_Finish} \<longrightarrow> info_action a = Offloaded)"

definition cooperative :: "surroundings \<Rightarrow> bool" where
  "cooperative env \<longleftrightarrow> (\<forall>act i. \<exists>a. answer env act i = Some a \<and> info_id a = i \<and> reply_ok act a)
     \<and> inference_ends env \<and> actor_updates env"

definition reply :: "surroundings \<Rightarrow> rollout_action \<Rightarrow> int \<Rightarrow> schedule_info" where
  "reply env act i = the (answer env act i)"

lemma cooperative_reply:
  assumes "cooperative env"
  shows "answer env act i = Some (reply env act i)" "info_id (reply env act i) = i" "reply_ok act (reply env act i)"
  using assms unfolding cooperative_def reply_def by (metis option.sel)+

text \<open>A manager whose numbers fit together, and one that has released \<open>k\<close> instances.\<close>

definition manager_ok :: "manager \<Rightarrow> bool" where
  "manager_ok m \<longleftrightarrow> 0 < model_parallel_size m \<and> 0 < init_instance_num m \<and> 0 \<le> current_instance_num m
     \<and> init_gpu_num m = init_instance_num m * model_parallel_size m
     \<and> current_gpu_num m = current_instance_num m * model_parallel_size m
     \<and> current_instance_offset m = init_instance_num m - current_instance_num m"

definition release_num :: "int \<Rightarrow> manager \<Rightarrow> manager" where
  "release_num k m = m\<lparr>current_gpu_num := current_gpu_num m - k * model_parallel_size m,
     current_instance_num := current_instance_num m - k, current_instance_offset := current_instance_offset m + k\<rparr>"

lemma release_num_fields [simp]:
  "model_parallel_size (release_num k m) = model_parallel_size m" "init_instance_num (release_num k m) = init_instance_num m"
  "init_gpu_num (release_num k m) = init_gpu_num m" "current_instance_num (release_num k m) = current_instance_num m - k"
  "current_gpu_num (release_num k m) = current_gpu_num m - k * model_parallel_size m"
  "current_instance_offset (release_num k m) = current_instance_offset m + k" "release_num 0 m = m"
  by (simp_all add: release_num_def)

lemma manager_ok_release: "manager_ok m \<Longrightarrow> k \<le> current_instance_num m \<Longrightarrow> manager_ok (release_num k m)"
  by (simp add: manager_ok_def algebra_simps)

lemma manager_update_release:
  "k \<le> current_instance_num m \<Longrightarrow> manager_update g k 0 m = Inr (release_num k m)"
  by (simp add: manager_update_def release_num_def)

lemma length_running: "manager_ok m \<Longrightarrow> int (length (running_instances m)) = current_instance_num m"
  by (simp add: running_instances_def manager_ok_def)

text \<open>What an operation of the rollout leaves behind: \<open>k\<close> instances are gone; only the scheduler's view changes.\<close>

definition rollout_released :: "int \<Rightarrow> manager \<Rightarrow> scheduler \<Rightarrow> scheduler \<Rightarrow> bool" where
  "rollout_released k m s x \<longleftrightarrow> managers x = (managers s)(ROLLOUT \<mapsto> release_num k m)
     \<and> available_gpu_num x = available_gpu_num s \<and> instance_nums x = instance_nums s"

lemma rollout_released_trans:
  "rollout_released 0 m s x \<Longrightarrow> rollout_released k m x y \<Longrightarrow> rollout_released k m s y"
  by (simp add: rollout_released_def)

lemma rollout_released_manager: "rollout_released k m s x \<Longrightarrow> managers x ROLLOUT = Some (release_num k m)"
  by (simp add: rollout_released_def)

definition asked :: "rollout_action \<Rightarrow> int list \<Rightarrow> message list" where
  "asked act ids = map (\<lambda>i. ToRollout i (request act)) ids"

lemma ask_all_ok:
  assumes "cooperative env"
  shows "ask_all env act ids s = Some (Inr (s\<lparr>sent := sent s @ asked act ids\<rparr>, map (reply env act) ids))"
proof -
  have "cmap (\<lambda>i. map_option Inr (answer env act i)) ids = Some (Inr (map (reply env act) ids))"
    by (rule cmap_all) (simp add: cooperative_reply [OF assms])
  moreover have "map info_id (map (reply env act) ids) = ids"
    by (simp add: comp_def cooperative_reply [OF assms])
  moreover have "map (\<lambda>(r, i). ToRollout i r) (zip (map (\<lambda>_. request act) ids) ids) = asked act ids"
    by (induction ids) (auto simp: asked_def)
  ultimately show ?thesis by (simp add: ask_all_def scatter_requests_def gather_responses_def)
qed

lemma report_ok:
  assumes "cooperative env" "managers s ROLLOUT = Some m"
  obtains x where "rollout_report_all env s = Some (Inr x)" "rollout_released 0 m s x"
    "map fst (reports x) = running_instances m" "0 \<le> running_tasks x" "sent x = sent s @ asked Report (running_instances m)"
    "total_tasks x = sum_list (map (\<lambda>i. rep_total_tasks (the (info_report (reply env Report i)))) (running_instances m))"
    "running_tasks x = sum_list (map (\<lambda>i. rep_running_tasks (the (info_report (reply env Report i)))) (running_instances m))"
proof -
  let ?ids = "running_instances m" and ?p = "\<lambda>i. the (info_report (reply env Report i))"
  have rep: "info_report (reply env Report i) = Some (?p i)" "0 \<le> rep_running_tasks (?p i)" for i
    using cooperative_reply(3) [OF assms(1), of Report i] by (auto simp: reply_ok_def)
  have "(case info_report (reply env Report i) of None \<Rightarrow> Inl AttributeError | Some p \<Rightarrow> Inr (info_id (reply env Report i), p))
      = Inr (i, ?p i)" for i
    using rep(1) [of i] by (cases "info_report (reply env Report i)") (simp_all add: cooperative_reply [OF assms(1)])
  then have "rmap (\<lambda>r. case info_report r of None \<Rightarrow> Inl AttributeError | Some p \<Rightarrow> Inr (info_id r, p)) (map (reply env Report) ?ids)
      = Inr (map (\<lambda>i. (i, ?p i)) ?ids)"
    by (simp add: rmap_map)
  then have run: "rollout_report_all env s = Some (Inr (s\<lparr>sent := sent s @ asked Report ?ids, reports := map (\<lambda>i. (i, ?p i)) ?ids,
      total_tasks := sum_list (map (\<lambda>i. rep_total_tasks (?p i)) ?ids),
      running_tasks := sum_list (map (\<lambda>i. rep_running_tasks (?p i)) ?ids)\<rparr>))"
    using assms(2) by (simp add: rollout_report_all_def manager_of_def ask_all_ok [OF assms(1)] comp_def)
  have "0 \<le> sum_list (map (\<lambda>i. rep_running_tasks (?p i)) ?ids)" by (intro sum_list_nonneg) (auto simp: rep(2))
  then show ?thesis by (intro that [OF run]) (use assms(2) in \<open>simp_all add: rollout_released_def comp_def fun_upd_idem\<close>)
qed

lemma finish_ok:
  assumes "cooperative env" "managers s ROLLOUT = Some m" "int (length ids) \<le> current_instance_num m" "act \<in> {Finish, Wait_For_Finish}"
  obtains x where "finish_instances cfg env act ids s = Some (Inr (x, int (length ids) * model_parallel_size m))"
    "rollout_released (int (length ids)) m s x" "sent x = sent s @ asked act ids"
proof -
  let ?s = "s\<lparr>sent := sent s @ asked act ids\<rparr>"
  let ?x = "?s\<lparr>managers := (managers s)(ROLLOUT \<mapsto> release_num (int (length ids)) m)\<rparr>"
  have "list_all (\<lambda>r. info_action r = Offloaded) (map (reply env act) ids)"
    using cooperative_reply(3) [OF assms(1), of act] assms(4) by (auto simp: list_all_iff reply_ok_def)
  moreover have "update_manager cfg ROLLOUT (int (length ids)) 0 ?s = Inr ?x"
    using assms(2,3) by (simp add: update_manager_def manager_of_def manager_update_release)
  ultimately have "finish_instances cfg env act ids s = Some (Inr (?x, int (length ids) * model_parallel_size m))"
    using assms(4) by (auto simp: finish_instances_def ask_all_ok [OF assms(1)] manager_of_def)
  then show ?thesis by (rule that) (simp_all add: rollout_released_def)
qed

text \<open>Migration: the aborted groups of the first \<open>n\<close> instances go to the others.\<close>

fun carried :: "message list \<Rightarrow> seq_group list" where
  "carried [] = []"
| "carried (ToRollout i r # ms) = (case info_data r of None \<Rightarrow> [] | Some gs \<Rightarrow> gs) @ carried ms"
| "carried (ToActor w # ms) = carried ms"

fun receiver :: "message \<Rightarrow> int option" where
  "receiver (ToRollout i r) = Some i"
| "receiver (ToActor w) = None"

lemma carried_append [simp]: "carried (ms @ ms') = carried ms @ carried ms'"
  by (induction ms rule: carried.induct) auto

lemma carried_asked [simp]: "carried (asked act ids) = []"
  by (induction ids) (auto simp: asked_def request_def)

lemma receiver_asked [simp]: "receiver ` set (asked act ids) = Some ` set ids"
  by (auto simp: asked_def image_image)

definition aborted_groups :: "surroundings \<Rightarrow> int list \<Rightarrow> seq_group list" where
  "aborted_groups env ids = concat (map (\<lambda>i. the (info_data (reply env Migrate_Out i))) ids)"

lemma migrate_out_ok:
  assumes "cooperative env"
  shows "migrate_out env ids s = Some (Inr (s\<lparr>sent := sent s @ asked Migrate_Out ids\<rparr>, aborted_groups env ids))"
proof -
  have "(case info_data (reply env Migrate_Out i) of None \<Rightarrow> Inl AssertionError | Some gs \<Rightarrow> Inr gs)
      = Inr (the (info_data (reply env Migrate_Out i)))" for i
    using cooperative_reply(3) [OF assms, of Migrate_Out i]
    by (cases "info_data (reply env Migrate_Out i)") (simp_all add: reply_ok_def)
  then have "rmap (\<lambda>r. case info_data r of None \<Rightarrow> Inl AssertionError | Some gs \<Rightarrow> Inr gs) (map (reply env Migrate_Out) ids)
      = Inr (map (\<lambda>i. the (info_data (reply env Migrate_Out i))) ids)"
    by (simp add: rmap_map)
  then show ?thesis by (simp add: migrate_out_def ask_all_ok [OF assms] aborted_groups_def)
qed

lemma carried_zip:
  "length bss \<le> length ids \<Longrightarrow> carried (map (\<lambda>(r, i). ToRollout i r)
      (zip (map (\<lambda>(i, bs). (request Migrate_In)\<lparr>info_data := Some bs\<rparr>) (filter (\<lambda>(i, bs). bs \<noteq> []) (zip ids bss)))
        (map fst (filter (\<lambda>(i, bs). bs \<noteq> []) (zip ids bss))))) = concat bss"
  by (induction bss arbitrary: ids) (auto simp: Suc_le_length_iff)

lemma migrate_in_ok:
  assumes "ids \<noteq> []" "set ids \<subseteq> set (map fst (reports s))"
  obtains ms where "migrate_in ids batches s = Inr (s\<lparr>sent := sent s @ ms\<rparr>)"
    "carried ms = batches" "receiver ` set ms \<subseteq> Some ` set ids"
proof -
  let ?rs = "map (\<lambda>i. rep_running_tasks (the (map_of (reports s) i))) ids"
  have rs: "rmap (\<lambda>i. case map_of (reports s) i of None \<Rightarrow> Inl KeyError | Some p \<Rightarrow> Inr (rep_running_tasks p)) ids = Inr ?rs"
  proof (rule rmap_all_Inr)
    fix i assume "i \<in> set ids"
    then have "i \<in> fst ` set (reports s)" using assms(2) by auto
    then have "map_of (reports s) i \<noteq> None" by (simp add: map_of_eq_None_iff)
    then show "(case map_of (reports s) i of None \<Rightarrow> Inl KeyError | Some p \<Rightarrow> Inr (rep_running_tasks p))
        = Inr (rep_running_tasks (the (map_of (reports s) i)))" by auto
  qed
  obtain as where as: "assign_sequences_sequential (running_tasks s) ids ?rs batches = Inr as" "concat as = batches"
    "length as \<le> length ids"
    using assignment_keeps [of ids ?rs "running_tasks s" batches] assms(1) by auto
  let ?used = "filter (\<lambda>(i, bs). bs \<noteq> []) (zip ids as)"
  let ?reqs = "map (\<lambda>(i, bs). (request Migrate_In)\<lparr>info_data := Some bs\<rparr>) ?used"
  let ?ms = "map (\<lambda>(r, i). ToRollout i r) (zip ?reqs (map fst ?used))"
  have "migrate_in ids batches s = Inr (s\<lparr>sent := sent s @ ?ms\<rparr>)"
    using assms(1) by (simp add: migrate_in_def rs as(1) scatter_requests_def Let_def)
  moreover have "carried ?ms = batches" using carried_zip [OF as(3)] as(2) by simp
  moreover have "receiver ` set ?ms \<subseteq> Some ` set ids"
  proof
    fix y assume "y \<in> receiver ` set ?ms"
    then obtain r i where "y = Some i" "(r, i) \<in> set (zip ?reqs (map fst ?used))" by auto
    then have "i \<in> set (map fst ?used)" by (meson set_zip_rightD)
    then have "i \<in> set ids" by (auto dest: set_zip_leftD)
    with \<open>y = Some i\<close> show "y \<in> Some ` set ids" by simp
  qed
  ultimately show ?thesis by (rule that)
qed

lemma migrate_ok:
  assumes "cooperative env" "managers s ROLLOUT = Some m" "manager_ok m" "0 \<le> n" "n = 0 \<or> n < current_instance_num m"
    "map fst (reports s) = running_instances m"
  obtains x ms where "migrate cfg env n s = Some (Inr (x, n * model_parallel_size m))" "rollout_released n m s x"
    "sent x = sent s @ ms" "carried ms = aborted_groups env (take (nat n) (running_instances m))"
proof (cases "n = 0")
  case True
  have "migrate cfg env n s = Some (Inr (s, n * model_parallel_size m))" "rollout_released n m s s"
    using True assms(2) by (simp_all add: migrate_def rollout_released_def fun_upd_idem)
  with True show ?thesis by (intro that [of s "[]"]) (simp_all add: aborted_groups_def)
next
  case False
  let ?ids = "running_instances m"
  let ?out = "take (nat n) ?ids" and ?rest = "drop (nat n) ?ids"
  have n: "0 \<le> n" "n < int (length ?ids)" using assms(3-5) False by (simp_all add: length_running)
  then have slices: "py_slice ?ids 0 n = ?out" "py_slice ?ids n (int (length ?ids)) = ?rest"
    using py_slice_nat [of ?ids 0 "nat n"] py_slice_nat [of ?ids "nat n" "length ?ids"] by simp_all
  have len: "int (length ?out) = n" using n by simp
  define s1 where "s1 = s\<lparr>sent := sent s @ asked Migrate_Out ?out\<rparr>"
  have "?rest \<noteq> []" "set ?rest \<subseteq> set (map fst (reports s1))"
    using n assms(6) set_drop_subset [of "nat n" ?ids] by (simp_all add: s1_def)
  then obtain ms where ms: "migrate_in ?rest (aborted_groups env ?out) s1 = Inr (s1\<lparr>sent := sent s1 @ ms\<rparr>)"
    "carried ms = aborted_groups env ?out" by (rule migrate_in_ok)
  let ?s2 = "s1\<lparr>sent := sent s1 @ ms\<rparr>"
  have "managers ?s2 ROLLOUT = Some m" "int (length ?out) \<le> current_instance_num m" "Finish \<in> {Finish, Wait_For_Finish}"
    using assms(2) len assms(5) False by (simp_all add: s1_def)
  from finish_ok [OF assms(1) this, of cfg] obtain x where
    x: "finish_instances cfg env Finish ?out ?s2 = Some (Inr (x, int (length ?out) * model_parallel_size m))"
      "rollout_released (int (length ?out)) m ?s2 x" "sent x = sent ?s2 @ asked Finish ?out" by blast
  have "int (length (reports s)) = current_instance_num m"
    using arg_cong [OF assms(6), of length] length_running [OF assms(3)] by simp
  then have "migrate cfg env n s = Some (Inr (x, n * model_parallel_size m))"
    using False assms(2,5) slices ms(1) x(1)
    by (simp add: migrate_def manager_of_def Let_def migrate_out_ok [OF assms(1)] flip: s1_def)
  moreover have "rollout_released n m s x" using x(2) len by (simp add: rollout_released_def s1_def)
  ultimately show ?thesis using x(3) ms(2)
    by (intro that [of x "asked Migrate_Out ?out @ ms @ asked Finish ?out"]) (simp_all add: s1_def)
qed

section \<open>The GPUs\<close>

definition gpus :: "scheduler \<Rightarrow> role \<Rightarrow> int" where
  "gpus s r = (case managers s r of None \<Rightarrow> 0 | Some m \<Rightarrow> current_gpu_num m)"

definition init_gpus :: "scheduler \<Rightarrow> role \<Rightarrow> int" where
  "init_gpus s r = (case managers s r of None \<Rightarrow> 0 | Some m \<Rightarrow> init_gpu_num m)"

text \<open>
  The invariant of the scheduler; \<open>base\<close> is the first GPU of the rollout. Every GPU
  is counted once: for a component or as available. With the policy of waiting, the
  inference does not give up its GPUs before the rollout.
\<close>

definition sizes_ok :: "sched_config \<Rightarrow> manager \<Rightarrow> bool" where
  "sizes_ok cfg ma \<longleftrightarrow> sorted_wrt (<) (actor_valid_dp_sizes cfg) \<and> init_instance_num ma \<in> set (actor_valid_dp_sizes cfg)
     \<and> last (actor_valid_dp_sizes cfg) * model_parallel_size ma = cluster_num_gpus cfg"

definition tables_agree :: "sched_config \<Rightarrow> scheduler \<Rightarrow> bool" where
  "tables_agree cfg s \<longleftrightarrow>
     (\<exists>mr. managers s ROLLOUT = Some mr \<and> instance_nums s ROLLOUT = Some (current_instance_num mr))
     \<and> (\<exists>ma. managers s ACTOR = Some ma \<and> instance_nums s ACTOR = Some (current_instance_num ma)
          \<and> sizes_ok cfg ma \<and> current_instance_num ma \<in> set (actor_valid_dp_sizes cfg))
     \<and> (\<forall>r m. managers s r = Some m \<longrightarrow> manager_ok m)"

definition gpus_counted :: "sched_config \<Rightarrow> int \<Rightarrow> scheduler \<Rightarrow> bool" where
  "gpus_counted cfg base s \<longleftrightarrow>
     (gpus s INFERENCE = 0 \<or> gpus s INFERENCE = init_gpus s INFERENCE)
     \<and> init_gpus s ACTOR = actor_world_size cfg
     \<and> base + init_gpus s ROLLOUT + init_gpus s INFERENCE = cluster_num_gpus cfg
     \<and> gpus s ROLLOUT + gpus s INFERENCE + gpus s ACTOR + available_gpu_num s = cluster_num_gpus cfg
     \<and> 0 \<le> available_gpu_num s
     \<and> (use_wait_before_last_iter_policy cfg \<and> gpus s INFERENCE = 0 \<and> init_gpus s INFERENCE \<noteq> 0 \<longrightarrow> gpus s ROLLOUT = 0)"

definition gpu_inv :: "sched_config \<Rightarrow> int \<Rightarrow> scheduler \<Rightarrow> bool" where
  "gpu_inv cfg base s \<longleftrightarrow> tables_agree cfg s \<and> gpus_counted cfg base s"

lemma gpus_simps [simp]:
  "managers s r = Some m \<Longrightarrow> gpus s r = current_gpu_num m" "managers s r = None \<Longrightarrow> gpus s r = 0"
  "managers s r = Some m \<Longrightarrow> init_gpus s r = init_gpu_num m" "managers s r = None \<Longrightarrow> init_gpus s r = 0"
  by (simp_all add: gpus_def init_gpus_def)

lemma gpus_other:
  "managers x r = managers s r \<Longrightarrow> gpus x r = gpus s r" "managers x r = managers s r \<Longrightarrow> init_gpus x r = init_gpus s r"
  by (simp_all add: gpus_def init_gpus_def)

lemma tables_agreeD: "tables_agree cfg s \<Longrightarrow> managers s r = Some m \<Longrightarrow> manager_ok m"
  by (simp add: tables_agree_def)

lemma manager_ok_nonneg: "manager_ok m \<Longrightarrow> 0 \<le> current_gpu_num m"
  by (simp add: manager_ok_def)

lemma gpus_nonneg: "tables_agree cfg s \<Longrightarrow> 0 \<le> gpus s r"
  by (cases "managers s r") (auto dest: tables_agreeD manager_ok_nonneg)

text \<open>The turn of the rollout.\<close>

lemma rollout_step_inv:
  assumes inv: "gpu_inv cfg base s" and r: "managers s ROLLOUT = Some m" "0 \<le> k" "k \<le> current_instance_num m"
    and x: "rollout_released k m s x"
  shows "\<exists>y. state_update ROLLOUT (k * model_parallel_size m) 0 x = Inr y \<and> gpu_inv cfg base y
    \<and> gpus y ROLLOUT = gpus s ROLLOUT - k * model_parallel_size m"
proof (intro exI conjI)
  let ?y = "x\<lparr>available_gpu_num := available_gpu_num x + k * model_parallel_size m,
    instance_nums := (instance_nums x)(ROLLOUT \<mapsto> current_instance_num m - k)\<rparr>"
  have x': "managers x = (managers s)(ROLLOUT \<mapsto> release_num k m)"
      "available_gpu_num x = available_gpu_num s" "instance_nums x = instance_nums s"
    using x by (simp_all add: rollout_released_def)
  then show "state_update ROLLOUT (k * model_parallel_size m) 0 x = Inr ?y"
    by (simp add: state_update_def manager_of_def)
  have m: "manager_ok m" using inv r(1) by (auto simp: gpu_inv_def dest: tables_agreeD)
  have g: "gpus ?y ROLLOUT = gpus s ROLLOUT - k * model_parallel_size m" "gpus ?y INFERENCE = gpus s INFERENCE"
    "gpus ?y ACTOR = gpus s ACTOR" "init_gpus ?y = init_gpus s"
    using x' r(1) by (auto simp: gpus_def init_gpus_def)
  show "gpus ?y ROLLOUT = gpus s ROLLOUT - k * model_parallel_size m" by (rule g)
  have "0 \<le> k * model_parallel_size m" using m r(2) by (simp add: manager_ok_def)
  moreover have "k * model_parallel_size m \<le> gpus s ROLLOUT"
    using m r(1,3) by (simp add: manager_ok_def mult_right_mono)
  ultimately have "gpus_counted cfg base ?y"
    using inv x'(2) unfolding gpu_inv_def gpus_counted_def g by auto
  moreover have "tables_agree cfg ?y"
    using inv x'(1,3) manager_ok_release [OF m r(3)] by (auto simp: gpu_inv_def tables_agree_def)
  ultimately show "gpu_inv cfg base ?y" by (simp add: gpu_inv_def)
qed

lemma rollout_release_ok:
  assumes "cooperative env" "gpu_inv cfg base s" "0 < max_running_requests cfg"
  obtains x k m where "managers s ROLLOUT = Some m" "rollout_release cfg env t s = Some (Inr (x, k * model_parallel_size m))"
    "0 \<le> k" "k \<le> current_instance_num m" "rollout_released k m s x"
    "use_wait_before_last_iter_policy cfg \<Longrightarrow> t = n_minibatches cfg - 2 \<Longrightarrow> k = current_instance_num m"
proof -
  from assms(2) obtain m ma where m: "managers s ROLLOUT = Some m" "manager_ok m" and ma: "managers s ACTOR = Some ma" "manager_ok ma"
      "instance_nums s ACTOR = Some (current_instance_num ma)" "sizes_ok cfg ma" "current_instance_num ma \<in> set (actor_valid_dp_sizes cfg)"
    by (auto simp: gpu_inv_def tables_agree_def)
  note goal = that
  show ?thesis
  proof (cases "current_instance_num m = 0")
    case True
    then show ?thesis using m by (intro that [of m s 0]) (simp_all add: rollout_release_def manager_of_def rollout_released_def fun_upd_idem)
  next
    case cur: False
    obtain r where r: "rollout_report_all env s = Some (Inr r)" "rollout_released 0 m s r"
        "map fst (reports r) = running_instances m" "0 \<le> running_tasks r" by (rule report_ok [OF assms(1) m(1)])
    have mr: "managers r ROLLOUT = Some m" using r(2) by (simp add: rollout_released_def)
    have finish: ?thesis if fin: "act \<in> {Finish, Wait_For_Finish}"
      "rollout_release cfg env t s = finish_instances cfg env act (running_instances m) r" for act
    proof -
      have "int (length (running_instances m)) \<le> current_instance_num m" using length_running [OF m(2)] by simp
      then obtain x where x: "finish_instances cfg env act (running_instances m) r
            = Some (Inr (x, int (length (running_instances m)) * model_parallel_size m))"
          "rollout_released (int (length (running_instances m))) m r x"
        by (rule finish_ok [OF assms(1) mr _ fin(1)])
      show ?thesis
        using x fin(2) m rollout_released_trans [OF r(2) x(2)] unfolding length_running [OF m(2)]
        by (intro goal [of m x "current_instance_num m"]) (simp_all add: manager_ok_def)
    qed
    consider "running_tasks r = 0" | "running_tasks r \<noteq> 0" "use_wait_before_last_iter_policy cfg \<and> t = n_minibatches cfg - 2"
      | "0 < running_tasks r" "\<not> (use_wait_before_last_iter_policy cfg \<and> t = n_minibatches cfg - 2)" using r(4) by linarith
    then show ?thesis
    proof cases
      case 1
      then show ?thesis using cur m r by (intro finish [of Finish]) (simp_all add: rollout_release_def manager_of_def)
    next
      case 2
      then show ?thesis using cur m r by (intro finish [of Wait_For_Finish]) (simp_all add: rollout_release_def manager_of_def)
    next
      case 3
      have "0 < model_parallel_size m" "0 < model_parallel_size ma" using m(2) ma(2) by (simp_all add: manager_ok_def)
      then obtain n where n: "migrate_policy (current_instance_num m) (running_tasks r) (max_running_requests cfg) (model_parallel_size m)
          (model_parallel_size ma) (current_instance_num ma) (actor_valid_dp_sizes cfg) = Inr n" "0 \<le> n" "n = 0 \<or> n < current_instance_num m"
        using migrate_policy_ok [OF _ ma(5), of "model_parallel_size ma" "model_parallel_size m" "running_tasks r" "max_running_requests cfg"]
          ma(4) 3(1) assms(3) by (metis sizes_ok_def)
      obtain x where x: "migrate cfg env n r = Some (Inr (x, n * model_parallel_size m))" "rollout_released n m r x"
        by (rule migrate_ok [OF assms(1) mr m(2) n(2,3) r(3)])
      have "rollout_release cfg env t s = Some (Inr (x, n * model_parallel_size m))"
        using 3 cur m r(1,2) ma n(1) x(1) by (auto simp: rollout_release_def manager_of_def rollout_released_def)
      then show ?thesis using m n(2,3) 3(2) rollout_released_trans [OF r(2) x(2)]
        by (intro that [of m x n]) (auto simp: manager_ok_def)
    qed
  qed
qed

lemma rollout_turn:
  assumes "cooperative env" "gpu_inv cfg base s" "0 < max_running_requests cfg" "t \<noteq> n_minibatches cfg - 1"
  obtains y where "component_step cfg env t ROLLOUT s = Some (Inr y)" "gpu_inv cfg base y"
    "use_wait_before_last_iter_policy cfg \<Longrightarrow> t = n_minibatches cfg - 2 \<Longrightarrow> gpus y ROLLOUT = 0"
proof -
  obtain x k m where k: "managers s ROLLOUT = Some m" "rollout_release cfg env t s = Some (Inr (x, k * model_parallel_size m))"
    "0 \<le> k" "k \<le> current_instance_num m" "rollout_released k m s x"
    "use_wait_before_last_iter_policy cfg \<Longrightarrow> t = n_minibatches cfg - 2 \<Longrightarrow> k = current_instance_num m"
    using rollout_release_ok [OF assms(1-3), where t = t] by blast
  obtain y where y: "state_update ROLLOUT (k * model_parallel_size m) 0 x = Inr y" "gpu_inv cfg base y"
    "gpus y ROLLOUT = gpus s ROLLOUT - k * model_parallel_size m"
    using rollout_step_inv [OF assms(2) k(1,3,4,5)] by blast
  have "manager_ok m" using assms(2) k(1) by (auto simp: gpu_inv_def dest: tables_agreeD)
  with k y assms(4) show ?thesis
    by (intro that [of y]) (simp_all add: component_step_def release_or_allocate_def manager_ok_def)
qed

text \<open>The turn of the inference.\<close>

lemma release_inference_ok:
  assumes inv: "gpu_inv cfg base s" and m: "managers s INFERENCE = Some m"
    and n: "n = 0 \<or> n = current_instance_num m"
    and w: "use_wait_before_last_iter_policy cfg \<Longrightarrow> n \<noteq> 0 \<Longrightarrow> gpus s ROLLOUT = 0"
  obtains x y where "release_inference cfg n m s = Some (Inr (x, n * model_parallel_size m))"
    "state_update INFERENCE (n * model_parallel_size m) 0 x = Inr y" "gpu_inv cfg base y" "gpus y ROLLOUT = gpus s ROLLOUT"
proof -
  have ok: "manager_ok m" using inv m by (auto simp: gpu_inv_def dest: tables_agreeD)
  let ?x = "s\<lparr>managers := (managers s)(INFERENCE \<mapsto> release_num n m)\<rparr>"
  let ?y = "?x\<lparr>available_gpu_num := available_gpu_num s + n * model_parallel_size m,
    instance_nums := (instance_nums s)(INFERENCE \<mapsto> current_instance_num m - n)\<rparr>"
  have n': "n \<le> current_instance_num m" "0 \<le> n" using n ok by (auto simp: manager_ok_def)
  have run: "release_inference cfg n m s = Some (Inr (?x, n * model_parallel_size m))"
    using m n' by (simp add: release_inference_def update_manager_def manager_of_def manager_update_release)
  have upd: "state_update INFERENCE (n * model_parallel_size m) 0 ?x = Inr ?y"
    by (simp add: state_update_def manager_of_def)
  have g: "gpus ?y INFERENCE = gpus s INFERENCE - n * model_parallel_size m" "gpus ?y ROLLOUT = gpus s ROLLOUT"
    "gpus ?y ACTOR = gpus s ACTOR" "init_gpus ?y = init_gpus s"
    using m by (auto simp: gpus_def init_gpus_def)
  have "gpus s INFERENCE = current_instance_num m * model_parallel_size m" "0 \<le> n * model_parallel_size m"
    using ok m n' by (simp_all add: manager_ok_def)
  then have "gpus_counted cfg base ?y"
    using inv n w unfolding gpu_inv_def gpus_counted_def g by auto
  moreover have "tables_agree cfg ?y"
    using inv manager_ok_release [OF ok n'(1)] by (auto simp: gpu_inv_def tables_agree_def)
  ultimately have "gpu_inv cfg base ?y" by (simp add: gpu_inv_def)
  from that [OF run upd this g(2)] show ?thesis .
qed

lemma inference_turn:
  assumes env: "cooperative env" and inv: "gpu_inv cfg base s" and t: "t \<noteq> n_minibatches cfg - 1"
    and last: "use_wait_before_last_iter_policy cfg \<Longrightarrow> t = n_minibatches cfg - 2 \<Longrightarrow> gpus s ROLLOUT = 0"
  obtains y where "component_step cfg env t INFERENCE s = Some (Inr y)" "gpu_inv cfg base y" "gpus y ROLLOUT = gpus s ROLLOUT"
proof (cases "managers s INFERENCE")
  case None
  then show ?thesis using inv by (intro that [of s]) (simp_all add: component_step_def)
next
  case (Some m)
  let ?all = "current_instance_num m"
  have ends: "inference_ends env" using env by (simp add: cooperative_def)
  from inv obtain mr where mr: "managers s ROLLOUT = Some mr" "instance_nums s ROLLOUT = Some (current_instance_num mr)" "manager_ok mr"
    by (auto simp: gpu_inv_def tables_agree_def)
  have rollout0: "gpus s ROLLOUT = 0" if "current_instance_num mr = 0" using mr that by (simp add: manager_ok_def)
  have zero: "release_inference cfg 0 m s = Some (Inr (s, 0))"
    using Some by (simp add: release_inference_def update_manager_def manager_of_def manager_update_def fun_upd_idem)
  have "\<exists>n. inference_release cfg env t s = release_inference cfg n m s \<and> (n = 0 \<or> n = ?all)
      \<and> (use_wait_before_last_iter_policy cfg \<longrightarrow> n \<noteq> 0 \<longrightarrow> gpus s ROLLOUT = 0)"
  proof (cases "use_wait_before_last_iter_policy cfg \<and> (?all = 0 \<or> \<not> (t = n_minibatches cfg - 2 \<or> current_instance_num mr = 0)) \<or> ?all = 0")
    case True
    then show ?thesis using Some mr zero by (intro exI [of _ 0]) (auto simp: inference_release_def manager_of_def)
  next
    case False
    show ?thesis
    proof (cases "use_wait_before_last_iter_policy cfg")
      case True
      with False Some mr last rollout0 ends show ?thesis
        by (intro exI [of _ ?all]) (auto simp: inference_release_def inference_wait_for_finish_def manager_of_def)
    next
      case no_wait: False
      with False Some show ?thesis
        by (intro exI [of _ "if inference_done env then ?all else 0"]) (auto simp: inference_release_def manager_of_def)
    qed
  qed
  then obtain n where n: "inference_release cfg env t s = release_inference cfg n m s" "n = 0 \<or> n = ?all"
      "use_wait_before_last_iter_policy cfg \<Longrightarrow> n \<noteq> 0 \<Longrightarrow> gpus s ROLLOUT = 0" by blast
  obtain x y where "release_inference cfg n m s = Some (Inr (x, n * model_parallel_size m))"
    "state_update INFERENCE (n * model_parallel_size m) 0 x = Inr y" "gpu_inv cfg base y" "gpus y ROLLOUT = gpus s ROLLOUT"
    by (rule release_inference_ok [OF inv Some n(2,3)])
  with Some t n(1) show ?thesis by (intro that [of y]) (simp_all add: component_step_def release_or_allocate_def)
qed

text \<open>The turn of the actor.\<close>

lemma manager_update_grow:
  assumes "manager_ok m" "0 < inc" "(current_instance_num m + inc) * model_parallel_size m \<le> g"
  shows "manager_update g 0 inc m = Inr (release_num (- inc) m)"
  using assms by (simp add: manager_update_def release_num_def manager_ok_def algebra_simps)

lemma manager_ok_grow: "manager_ok m \<Longrightarrow> 0 \<le> inc \<Longrightarrow> manager_ok (release_num (- inc) m)"
  by (simp add: manager_ok_def algebra_simps)

lemma actor_scale_ok:
  assumes "managers s ACTOR = Some m" "manager_ok m" "current_instance_num m \<le> d" "d * model_parallel_size m \<le> cluster_num_gpus cfg"
  obtains x where "actor_scale cfg (d * model_parallel_size m) s = Inr x" "available_gpu_num x = available_gpu_num s"
    "instance_nums x = instance_nums s" "managers x = (managers s)(ACTOR \<mapsto> release_num (current_instance_num m - d) m)"
proof (cases "d = current_instance_num m")
  case True
  then have "d * model_parallel_size m = current_gpu_num m" using assms(2) by (simp add: manager_ok_def)
  with True assms(1) show ?thesis
    by (intro that [of "s\<lparr>sent := sent s @ [ToActor None]\<rparr>"]) (simp_all add: actor_scale_def manager_of_def fun_upd_idem)
next
  case False
  then have "current_instance_num m < d" using assms(3) by simp
  moreover have mp: "0 < model_parallel_size m" "current_gpu_num m = current_instance_num m * model_parallel_size m"
    using assms(2) by (simp_all add: manager_ok_def)
  ultimately have g: "current_gpu_num m < d * model_parallel_size m" by simp
  have "manager_update (cluster_num_gpus cfg) 0 (d - current_instance_num m) m = Inr (release_num (- (d - current_instance_num m)) m)"
    using manager_update_grow [OF assms(2), of "d - current_instance_num m"] \<open>current_instance_num m < d\<close> assms(4) by simp
  with assms(1) g mp show ?thesis
    by (intro that [of "s\<lparr>sent := sent s @ [ToActor (Some (d * model_parallel_size m))],
        managers := (managers s)(ACTOR \<mapsto> release_num (current_instance_num m - d) m)\<rparr>"])
      (simp_all add: actor_scale_def manager_of_def update_manager_def)
qed

lemma actor_turn:
  assumes inv: "gpu_inv cfg base s" and t: "t \<noteq> n_minibatches cfg - 1"
  obtains y where "component_step cfg env t ACTOR s = Some (Inr y)" "gpu_inv cfg base y" "gpus y ROLLOUT = gpus s ROLLOUT"
proof -
  from inv obtain m where m: "managers s ACTOR = Some m" "instance_nums s ACTOR = Some (current_instance_num m)" "sizes_ok cfg m"
      "current_instance_num m \<in> set (actor_valid_dp_sizes cfg)" and ok: "manager_ok m"
    by (auto simp: gpu_inv_def tables_agree_def)
  let ?ds = "actor_valid_dp_sizes cfg" and ?mp = "model_parallel_size m" and ?cur = "current_instance_num m" and ?free = "available_gpu_num s"
  have mp: "0 < ?mp" "gpus s ACTOR = ?cur * ?mp" using ok m(1) by (simp_all add: manager_ok_def)
  have free: "0 \<le> ?free" using inv by (simp add: gpu_inv_def gpus_counted_def)
  have tab: "tables_agree cfg s" using inv by (simp add: gpu_inv_def)
  have total: "gpus s ROLLOUT + gpus s INFERENCE + ?cur * ?mp + ?free = cluster_num_gpus cfg"
    using inv mp(2) by (simp add: gpu_inv_def gpus_counted_def)
  have sum: "?cur * ?mp + ?free \<le> cluster_num_gpus cfg"
    using total gpus_nonneg [OF tab, of ROLLOUT] gpus_nonneg [OF tab, of INFERENCE] by linarith
  have "?free < ?mp" if "?cur = last ?ds"
    using that m(3) sum mp(1) free by (simp add: sizes_ok_def)
  define d where "d = best_size ?free ?mp ?cur ?ds"
  have alloc: "try_allocate ?mp ?cur ?free ?ds = Inr ((d - ?cur) * ?mp)"
    unfolding d_def using m(3,4) mp(1) free \<open>?cur = last ?ds \<Longrightarrow> ?free < ?mp\<close>
    by (intro try_allocate_best) (auto simp: sizes_ok_def)
  have d: "d \<in> set ?ds" "?cur \<le> d" "(d - ?cur) * ?mp \<le> ?free"
    unfolding d_def using best_size_props [OF m(4) free] by auto
  have split: "(d - ?cur) * ?mp = d * ?mp - ?cur * ?mp" by (simp add: algebra_simps)
  have new: "(d - ?cur) * ?mp + current_gpu_num m = d * ?mp" using ok by (simp add: manager_ok_def algebra_simps)
  have "d * ?mp \<le> cluster_num_gpus cfg" using d(3) sum unfolding split by linarith
  then obtain x where x: "actor_scale cfg (d * ?mp) s = Inr x" "available_gpu_num x = ?free" "instance_nums x = instance_nums s"
      "managers x = (managers s)(ACTOR \<mapsto> release_num (?cur - d) m)"
    using actor_scale_ok [OF m(1) ok d(2)] by blast
  have "0 \<le> (d - ?cur) * ?mp" using d(2) mp(1) by simp
  then have run: "actor_allocate cfg s = Inr (x, (d - ?cur) * ?mp)"
    using m(1) alloc x(1) by (simp add: actor_allocate_def manager_of_def new)
  let ?y = "x\<lparr>available_gpu_num := ?free - (d - ?cur) * ?mp, instance_nums := (instance_nums s)(ACTOR \<mapsto> d)\<rparr>"
  have upd: "state_update ACTOR 0 ((d - ?cur) * ?mp) x = Inr ?y"
    using x(2-4) by (simp add: state_update_def manager_of_def)
  have g: "gpus ?y ACTOR = d * ?mp" "gpus ?y ROLLOUT = gpus s ROLLOUT" "gpus ?y INFERENCE = gpus s INFERENCE" "init_gpus ?y = init_gpus s"
    using x(4) m(1) ok by (auto simp: gpus_def init_gpus_def manager_ok_def algebra_simps)
  have "gpus_counted cfg base ?y"
    using inv d(3) mp(2) split unfolding gpu_inv_def gpus_counted_def g by auto
  moreover have "tables_agree cfg ?y"
    using inv x(4) manager_ok_grow [OF ok, of "d - ?cur"] d(1,2) m(3)
    by (auto simp: gpu_inv_def tables_agree_def sizes_ok_def)
  ultimately have inv': "gpu_inv cfg base ?y" by (simp add: gpu_inv_def)
  have step: "component_step cfg env t ACTOR s = Some (Inr ?y)"
    using t m(1) run upd by (simp add: component_step_def release_or_allocate_def)
  show ?thesis by (rule that [OF step inv' g(2)])
qed

text \<open>Iterations before the last one.\<close>

lemma workflow_inv:
  assumes env: "cooperative env" and inv: "gpu_inv cfg base s" and cfg: "0 < max_running_requests cfg" and t: "t \<noteq> n_minibatches cfg - 1"
    and j: "j \<le> 3"
  obtains y where "workflow_loop cfg env t (take j workflow) s = Some (Inr y)" "gpu_inv cfg base y"
proof -
  obtain y1 where y1: "component_step cfg env t ROLLOUT s = Some (Inr y1)" "gpu_inv cfg base y1"
      "use_wait_before_last_iter_policy cfg \<Longrightarrow> t = n_minibatches cfg - 2 \<Longrightarrow> gpus y1 ROLLOUT = 0"
    using rollout_turn [OF env inv cfg t] by blast
  obtain y2 where y2: "component_step cfg env t INFERENCE y1 = Some (Inr y2)" "gpu_inv cfg base y2"
    using inference_turn [OF env y1(2) t y1(3)] by blast
  obtain y3 where y3: "component_step cfg env t ACTOR y2 = Some (Inr y3)" "gpu_inv cfg base y3"
    using actor_turn [OF y2(2) t] by blast
  from j consider "j = 0" | "j = 1" | "j = 2" | "j = 3" by linarith
  then show ?thesis
    by cases (use that inv y1(1,2) y2 y3 in \<open>auto simp: workflow_def numeral_2_eq_2 numeral_3_eq_3\<close>)
qed

lemma main_loop_inv:
  assumes "\<And>t. cooperative (rounds t)" "gpu_inv cfg base s" "0 < max_running_requests cfg" "n_minibatches cfg - 1 \<notin> set ts"
  shows "\<exists>y. main_loop cfg workflow rounds ts s = Some (Inr y) \<and> gpu_inv cfg base y"
  using assms(2,4)
proof (induction ts arbitrary: s)
  case (Cons t ts)
  have "t \<noteq> n_minibatches cfg - 1" using Cons.prems(2) by auto
  then obtain y where y: "workflow_loop cfg (rounds t) t (take 3 workflow) s = Some (Inr y)" "gpu_inv cfg base y"
    using workflow_inv [OF assms(1) Cons.prems(1) assms(3), of t 3] by blast
  obtain z where "main_loop cfg workflow rounds ts y = Some (Inr z)" "gpu_inv cfg base z"
    using Cons.IH [OF y(2)] Cons.prems(2) by auto
  with y(1) assms(1) [of t] show ?case by (simp add: cooperative_def workflow_def)
qed simp

section \<open>The preparation of a step\<close>

text \<open>
  The placement of the automatic mode. With the policy of preparation the rollout
  begins on the GPUs of the actor, which it leaves in \<open>pre_process\<close>; \<open>base\<close> is the
  first GPU of the rollout.
\<close>

definition manager_fits :: "manager \<Rightarrow> bool" where
  "manager_fits m \<longleftrightarrow> 0 < model_parallel_size m \<and> 0 < init_instance_num m \<and> init_gpu_num m = init_instance_num m * model_parallel_size m"

definition rollout_base :: "sched_config \<Rightarrow> int" where
  "rollout_base cfg = (if use_pre_process_policy cfg then 0 else actor_world_size cfg)"

definition auto_placement :: "sched_config \<Rightarrow> scheduler \<Rightarrow> bool" where
  "auto_placement cfg s \<longleftrightarrow>
     (\<exists>mr. managers s ROLLOUT = Some mr \<and>
        (use_pre_process_policy cfg \<longrightarrow> model_parallel_size mr dvd actor_world_size cfg
          \<and> actor_world_size cfg < init_gpu_num mr \<and> 2 \<le> rollout_total_tasks cfg))
     \<and> (\<exists>ma. managers s ACTOR = Some ma \<and> sizes_ok cfg ma \<and> init_gpu_num ma = actor_world_size cfg)
     \<and> (\<forall>r m. managers s r = Some m \<longrightarrow> manager_fits m)
     \<and> rollout_base cfg + init_gpus s ROLLOUT + init_gpus s INFERENCE = cluster_num_gpus cfg
     \<and> 0 < max_running_requests cfg \<and> 0 < n_minibatches cfg"

text \<open>A poll at which enough has been generated.\<close>

definition generated_enough :: "sched_config \<Rightarrow> manager \<Rightarrow> surroundings \<Rightarrow> bool" where
  "generated_enough cfg m env \<longleftrightarrow>
     (let ps = map (\<lambda>i. the (info_report (reply env Report i))) [0..init_instance_num m - 1]
      in sum_list (map rep_total_tasks ps) = rollout_total_tasks cfg
         \<and> sum_list (map rep_running_tasks ps) \<le> rollout_total_tasks cfg div 2)"

lemma manager_ok_reset: "manager_fits m \<Longrightarrow> manager_ok (manager_reset m)"
  by (simp add: manager_fits_def manager_ok_def manager_reset_def)

lemma reset_fields [simp]:
  "current_instance_num (manager_reset m) = init_instance_num m" "init_instance_num (manager_reset m) = init_instance_num m"
  "model_parallel_size (manager_reset m) = model_parallel_size m" "init_gpu_num (manager_reset m) = init_gpu_num m"
  "current_gpu_num (manager_reset m) = init_gpu_num m" "running_instances (manager_reset m) = [0..init_instance_num m - 1]"
  by (simp_all add: manager_reset_def running_instances_def)

lemma pre_process_loop_ok:
  assumes "list_all cooperative polls" "list_ex (generated_enough cfg m0) polls" "managers s ROLLOUT = Some (manager_reset m0)"
    and "manager_fits m0" "0 \<le> n" "n < init_instance_num m0"
  shows "\<exists>x. pre_process_loop cfg n (rollout_total_tasks cfg div 2) polls s = Some (Inr x) \<and> rollout_released n (manager_reset m0) s x"
  using assms(1-3)
proof (induction polls arbitrary: s)
  case (Cons env envs)
  let ?m = "manager_reset m0"
  obtain r where r: "rollout_report_all env s = Some (Inr r)" "rollout_released 0 ?m s r"
    "map fst (reports r) = running_instances ?m" "0 \<le> running_tasks r"
    "total_tasks r = sum_list (map (\<lambda>i. rep_total_tasks (the (info_report (reply env Report i)))) (running_instances ?m))"
    "running_tasks r = sum_list (map (\<lambda>i. rep_running_tasks (the (info_report (reply env Report i)))) (running_instances ?m))"
    using report_ok [OF _ Cons.prems(3), of env] Cons.prems(1) by auto
  have mr: "managers r ROLLOUT = Some ?m" using r(2) by (simp add: rollout_released_def)
  have enough: "(total_tasks r = rollout_total_tasks cfg \<and> running_tasks r \<le> rollout_total_tasks cfg div 2) = generated_enough cfg m0 env"
    by (simp add: generated_enough_def r(5,6) comp_def)
  show ?case
  proof (cases "generated_enough cfg m0 env")
    case True
    obtain x ms where x: "migrate cfg env n r = Some (Inr (x, n * model_parallel_size ?m))" "rollout_released n ?m r x"
      by (rule migrate_ok [OF _ mr manager_ok_reset [OF assms(4)] assms(5) _ r(3), of env])
        (use Cons.prems(1) assms(6) in auto)
    then show ?thesis using True r(1) rollout_released_trans [OF r(2) x(2)] by (simp add: enough)
  next
    case False
    then have "list_ex (generated_enough cfg m0) envs" using Cons.prems(2) by simp
    then obtain x where x: "pre_process_loop cfg n (rollout_total_tasks cfg div 2) envs r = Some (Inr x)" "rollout_released n ?m r x"
      using Cons.IH [OF _ _ mr] Cons.prems(1) by auto
    then show ?thesis using False r(1) rollout_released_trans [OF r(2) x(2)] by (simp add: enough)
  qed
qed simp

text \<open>The surroundings of a run: they cooperate, and with the policy of preparation the rollout generates.\<close>

definition polls_ok :: "sched_config \<Rightarrow> scheduler \<Rightarrow> surroundings list \<Rightarrow> bool" where
  "polls_ok cfg s polls \<longleftrightarrow> list_all cooperative polls
     \<and> (use_pre_process_policy cfg \<longrightarrow> (\<forall>m. managers s ROLLOUT = Some m \<longrightarrow> list_ex (generated_enough cfg m) polls))"

lemma rollout_pre_process_ok:
  assumes "auto_placement cfg s" "polls_ok cfg s polls" "managers s ROLLOUT = Some m" "managers s' ROLLOUT = Some (manager_reset m)"
  defines "k \<equiv> (if use_pre_process_policy cfg then actor_world_size cfg div model_parallel_size m else 0)"
  shows "\<exists>x. rollout_pre_process cfg polls s' = Some (Inr x) \<and> rollout_released k (manager_reset m) s' x"
proof (cases "use_pre_process_policy cfg")
  case False
  with assms(4) show ?thesis
    by (simp add: rollout_pre_process_def k_def rollout_released_def fun_upd_idem)
next
  case True
  have m: "manager_fits m" "model_parallel_size m dvd actor_world_size cfg" "actor_world_size cfg < init_gpu_num m" "2 \<le> rollout_total_tasks cfg"
    using assms(1,3) True by (auto simp: auto_placement_def)
  obtain ma where "manager_fits ma" "init_gpu_num ma = actor_world_size cfg" using assms(1) by (auto simp: auto_placement_def)
  then have "0 < actor_world_size cfg" by (auto simp: manager_fits_def)
  then have k: "0 < k" "k * model_parallel_size m = actor_world_size cfg"
    using m(1,2) True by (auto simp: k_def manager_fits_def zdvd_imp_le pos_imp_zdiv_pos_iff)
  then have "k * model_parallel_size m < init_instance_num m * model_parallel_size m" using m(1,3) by (simp add: manager_fits_def)
  then have "k < init_instance_num m" using m(1) by (simp add: manager_fits_def)
  let ?s = "s'\<lparr>running_tasks := rollout_total_tasks cfg\<rparr>"
  have "managers ?s ROLLOUT = Some (manager_reset m)" using assms(4) by simp
  then obtain x where "pre_process_loop cfg k (rollout_total_tasks cfg div 2) polls ?s = Some (Inr x)"
      "rollout_released k (manager_reset m) ?s x"
    using pre_process_loop_ok [of polls cfg m ?s k] assms(2,3) True m(1) k(1) \<open>k < init_instance_num m\<close> by (auto simp: polls_ok_def)
  moreover have "model_parallel_size m \<noteq> 0" "k = actor_world_size cfg div model_parallel_size m"
    "actor_world_size cfg mod model_parallel_size m = 0" "0 < rollout_total_tasks cfg div 2" "rollout_total_tasks cfg div 2 < rollout_total_tasks cfg"
    using m k True by (auto simp: manager_fits_def k_def)
  ultimately show ?thesis using True assms(4) k(1)
    by (simp add: rollout_pre_process_def manager_of_def Let_def rollout_released_def)
qed

lemma pre_process_ok:
  assumes "auto_placement cfg s" "polls_ok cfg s polls"
  shows "\<exists>y. pre_process cfg polls s = Some (Inr y) \<and> gpu_inv cfg (rollout_base cfg) y"
proof -
  obtain m where m: "managers s ROLLOUT = Some m" "manager_fits m" using assms(1) by (auto simp: auto_placement_def)
  define k where "k = (if use_pre_process_policy cfg then actor_world_size cfg div model_parallel_size m else 0)"
  let ?s = "s\<lparr>managers := (managers s)(ROLLOUT := map_option manager_reset (managers s ROLLOUT))\<rparr>"
  have "managers ?s ROLLOUT = Some (manager_reset m)" using m(1) by simp
  then obtain x where x: "rollout_pre_process cfg polls ?s = Some (Inr x)" "rollout_released k (manager_reset m) ?s x"
    using rollout_pre_process_ok [OF assms m(1)] unfolding k_def by blast
  let ?x = "x\<lparr>managers := (\<lambda>r. if r = ROLLOUT then managers x r else map_option manager_reset (managers x r))\<rparr>"
  let ?y = "state_reset (actor_pre_process cfg ?x)"
  have run: "pre_process cfg polls s = Some (Inr ?y)" by (simp add: pre_process_def x(1))
  have M: "managers ?y r = (if r = ROLLOUT then Some (release_num k (manager_reset m)) else map_option manager_reset (managers s r))" for r
    using x(2) by (simp add: state_reset_def actor_pre_process_def rollout_released_def)
  have I: "instance_nums ?y r = map_option current_instance_num (managers ?y r)" "available_gpu_num ?y = 0" for r
    by (simp_all add: state_reset_def actor_pre_process_def)
  have kmp: "k * model_parallel_size m = actor_world_size cfg - rollout_base cfg" "k \<le> init_instance_num m"
  proof -
    have pre: "k * model_parallel_size m = actor_world_size cfg" "actor_world_size cfg < init_gpu_num m" if "use_pre_process_policy cfg"
      using that assms(1) m by (auto simp: auto_placement_def k_def)
    then show "k * model_parallel_size m = actor_world_size cfg - rollout_base cfg" by (auto simp: rollout_base_def k_def)
    have "k * model_parallel_size m < init_instance_num m * model_parallel_size m" if "use_pre_process_policy cfg"
      using pre [OF that] m(2) by (simp add: manager_fits_def)
    then show "k \<le> init_instance_num m" using m(2) by (cases "use_pre_process_policy cfg") (auto simp: k_def manager_fits_def)
  qed
  have "tables_agree cfg ?y"
    unfolding tables_agree_def I
  proof (intro conjI allI impI)
    show "\<exists>mr. managers ?y ROLLOUT = Some mr \<and> map_option current_instance_num (managers ?y ROLLOUT) = Some (current_instance_num mr)"
      by (simp add: M)
    show "\<exists>ma. managers ?y ACTOR = Some ma \<and> map_option current_instance_num (managers ?y ACTOR) = Some (current_instance_num ma)
        \<and> sizes_ok cfg ma \<and> current_instance_num ma \<in> set (actor_valid_dp_sizes cfg)"
      using assms(1) by (auto simp: M auto_placement_def sizes_ok_def)
    show "manager_ok m'" if "managers ?y r = Some m'" for r m'
      using that assms(1) m kmp(2) manager_ok_release [OF manager_ok_reset [OF m(2)]] manager_ok_reset
      by (auto simp: M auto_placement_def split: if_splits)
  qed
  moreover have "gpus_counted cfg (rollout_base cfg) ?y"
  proof -
    have g: "gpus ?y ROLLOUT = init_gpu_num m - k * model_parallel_size m" "init_gpus ?y ROLLOUT = init_gpus s ROLLOUT"
      "gpus ?y INFERENCE = init_gpus s INFERENCE" "init_gpus ?y INFERENCE = init_gpus s INFERENCE"
      "gpus ?y ACTOR = init_gpus s ACTOR" "init_gpus ?y ACTOR = init_gpus s ACTOR"
      using m(1) by (auto simp: gpus_def init_gpus_def M split: option.split)
    have "init_gpus s ACTOR = actor_world_size cfg" "rollout_base cfg + init_gpu_num m + init_gpus s INFERENCE = cluster_num_gpus cfg"
      using assms(1) m(1) by (auto simp: auto_placement_def)
    then show ?thesis unfolding gpus_counted_def g I(2) kmp(1) using m(1) by simp
  qed
  ultimately show ?thesis using run by (simp add: gpu_inv_def)
qed

section \<open>No GPU has two users\<close>

text \<open>
  The GPUs that a component uses. The actor runs on the first ranks of the cluster;
  the live rollout instances are the last of those it began with; the inference has
  the GPUs at the end.
\<close>

definition gpu_set :: "sched_config \<Rightarrow> scheduler \<Rightarrow> role \<Rightarrow> int set" where
  "gpu_set cfg s r =
     (case managers s r of
        None \<Rightarrow> {}
      | Some m \<Rightarrow>
          (case r of
             ROLLOUT \<Rightarrow> {rollout_base cfg + current_instance_offset m * model_parallel_size m ..< rollout_base cfg + init_gpu_num m}
           | INFERENCE \<Rightarrow> (if current_gpu_num m = 0 then {} else {cluster_num_gpus cfg - init_gpu_num m ..< cluster_num_gpus cfg})
           | ACTOR \<Rightarrow> {0 ..< current_gpu_num m}))"

lemma gpu_sets_disjoint:
  assumes inv: "gpu_inv cfg (rollout_base cfg) s" and wait: "use_wait_before_last_iter_policy cfg"
  shows "gpu_set cfg s ACTOR \<inter> gpu_set cfg s ROLLOUT = {}" "gpu_set cfg s ACTOR \<inter> gpu_set cfg s INFERENCE = {}"
    "gpu_set cfg s ROLLOUT \<inter> gpu_set cfg s INFERENCE = {}"
proof -
  from inv obtain mr ma where r: "managers s ROLLOUT = Some mr" "manager_ok mr" and a: "managers s ACTOR = Some ma" "manager_ok ma"
    by (auto simp: gpu_inv_def tables_agree_def)
  have off: "current_instance_offset mr * model_parallel_size mr = init_gpu_num mr - current_gpu_num mr"
    using r(2) by (simp add: manager_ok_def left_diff_distrib)
  have c: "rollout_base cfg + init_gpu_num mr + init_gpus s INFERENCE = cluster_num_gpus cfg"
      "current_gpu_num mr + gpus s INFERENCE + current_gpu_num ma + available_gpu_num s = cluster_num_gpus cfg"
      "0 \<le> available_gpu_num s" "gpus s INFERENCE = 0 \<or> gpus s INFERENCE = init_gpus s INFERENCE"
      "gpus s INFERENCE = 0 \<and> init_gpus s INFERENCE \<noteq> 0 \<Longrightarrow> current_gpu_num mr = 0"
    using inv r(1) a(1) wait by (auto simp: gpu_inv_def gpus_counted_def)
  have nn: "0 \<le> current_gpu_num mr" "0 \<le> current_gpu_num ma" using r(2) a(2) by (auto dest: manager_ok_nonneg)
  show "gpu_set cfg s ACTOR \<inter> gpu_set cfg s ROLLOUT = {}"
    using c nn r(1) a(1) by (auto simp: gpu_set_def off)
  show "gpu_set cfg s ROLLOUT \<inter> gpu_set cfg s INFERENCE = {}"
    using c r(1) by (cases "managers s INFERENCE") (auto simp: gpu_set_def off)
  show "gpu_set cfg s ACTOR \<inter> gpu_set cfg s INFERENCE = {}"
    using c nn a(1) by (cases "managers s INFERENCE") (auto simp: gpu_set_def)
qed

text \<open>
  C11. When the scheduler runs with \<open>use_wait_before_last_iter_policy\<close>, at every turn of
  every iteration before the last one: no assertion fails and nothing waits for ever,
  every GPU is counted once, for a component or as available, and no GPU is used by two
  of actor, rollout and inference. The last iteration is not
  covered. Without the policy the statement is false
  (\<open>early_inference_overlaps\<close> below).
\<close>

theorem gpus_kept_apart:
  assumes "auto_placement cfg s" "polls_ok cfg s polls" "\<And>t. cooperative (rounds t)"
    and "use_wait_before_last_iter_policy cfg" "t < n_minibatches cfg - 1" "j \<le> 3"
  shows "\<exists>x. cbind (pre_process cfg polls s) (\<lambda>s1. cbind (main_loop cfg workflow rounds (py_range t) s1)
      (workflow_loop cfg (rounds t) t (take j workflow))) = Some (Inr x)
    \<and> gpus x ROLLOUT + gpus x INFERENCE + gpus x ACTOR + available_gpu_num x = cluster_num_gpus cfg \<and> 0 \<le> available_gpu_num x
    \<and> gpu_set cfg x ACTOR \<inter> gpu_set cfg x ROLLOUT = {} \<and> gpu_set cfg x ACTOR \<inter> gpu_set cfg x INFERENCE = {}
    \<and> gpu_set cfg x ROLLOUT \<inter> gpu_set cfg x INFERENCE = {}"
proof -
  have max: "0 < max_running_requests cfg" using assms(1) by (simp add: auto_placement_def)
  obtain y where y: "pre_process cfg polls s = Some (Inr y)" "gpu_inv cfg (rollout_base cfg) y"
    using pre_process_ok [OF assms(1,2)] by blast
  have "n_minibatches cfg - 1 \<notin> set (py_range t)" using assms(5) by simp
  then obtain z where z: "main_loop cfg workflow rounds (py_range t) y = Some (Inr z)" "gpu_inv cfg (rollout_base cfg) z"
    using main_loop_inv [of rounds, OF assms(3) y(2) max] by blast
  obtain x where x: "workflow_loop cfg (rounds t) t (take j workflow) z = Some (Inr x)" "gpu_inv cfg (rollout_base cfg) x"
    using workflow_inv [OF assms(3) z(2) max _ assms(6), of t] assms(5) by auto
  from y(1) z(1) x gpu_sets_disjoint [OF x(2) assms(4)] show ?thesis
    by (intro exI [of _ x]) (simp add: gpu_inv_def gpus_counted_def)
qed

text \<open>The last iteration, and the whole run.\<close>

lemma rollout_last:
  assumes "cooperative env" "gpu_inv cfg base s" "t = n_minibatches cfg - 1"
  obtains y where "component_step cfg env t ROLLOUT s = Some (Inr y)" "gpus y ROLLOUT = 0"
    "managers y ACTOR = managers s ACTOR" "managers y INFERENCE = managers s INFERENCE"
proof -
  obtain m where m: "managers s ROLLOUT = Some m" "manager_ok m" using assms(2) by (auto simp: gpu_inv_def tables_agree_def)
  have gpus: "current_gpu_num m - current_instance_num m * model_parallel_size m = 0" using m(2) by (simp add: manager_ok_def)
  have "\<exists>x. rollout_finalize cfg env s = Some (Inr x) \<and> rollout_released (current_instance_num m) m s x"
  proof (cases "current_instance_num m = 0")
    case True
    with m show ?thesis by (simp add: rollout_finalize_def manager_of_def rollout_released_def fun_upd_idem)
  next
    case False
    have "int (length (running_instances m)) \<le> current_instance_num m" using length_running [OF m(2)] by simp
    then obtain x where "finish_instances cfg env Finish (running_instances m) s
          = Some (Inr (x, int (length (running_instances m)) * model_parallel_size m))"
        "rollout_released (int (length (running_instances m))) m s x"
      using finish_ok [OF assms(1) m(1), of "running_instances m" Finish cfg] by blast
    with False m show ?thesis unfolding length_running [OF m(2)] by (simp add: rollout_finalize_def manager_of_def)
  qed
  then obtain x where x: "rollout_finalize cfg env s = Some (Inr x)" "rollout_released (current_instance_num m) m s x" by blast
  then have M: "managers x = (managers s)(ROLLOUT \<mapsto> release_num (current_instance_num m) m)" by (simp add: rollout_released_def)
  let ?y = "x\<lparr>instance_nums := (instance_nums x)(ROLLOUT \<mapsto> 0)\<rparr>"
  have "component_step cfg env t ROLLOUT s = Some (Inr ?y)"
    using assms(3) m(1) x(1) M by (simp add: component_step_def release_or_allocate_def state_update_def manager_of_def)
  moreover have "gpus ?y ROLLOUT = 0" using M gpus by (simp add: gpus_def)
  ultimately show ?thesis by (rule that) (simp_all add: M)
qed

lemma actor_last:
  assumes "manager_ok m" "managers s ACTOR = Some m" "t = n_minibatches cfg - 1"
    "init_gpu_num m \<le> cluster_num_gpus cfg"
  obtains y where "component_step cfg env t ACTOR s = Some (Inr y)" "gpus y ACTOR = init_gpu_num m" "managers y ROLLOUT = managers s ROLLOUT"
proof -
  let ?n = "init_instance_num m" and ?c = "current_instance_num m" and ?mp = "model_parallel_size m"
  have mp: "0 < ?mp" "init_gpu_num m = ?n * ?mp" "current_gpu_num m = ?c * ?mp" "0 < ?n" using assms(1) by (simp_all add: manager_ok_def)
  have "\<exists>x. actor_finalize cfg s = Inr x \<and> managers x = (managers s)(ACTOR \<mapsto> release_num (?c - ?n) m)"
  proof (cases "?c \<le> ?n")
    case True
    then show ?thesis using actor_scale_ok [OF assms(2,1) True, of cfg] assms(2,4) mp(2)
      by (auto simp: actor_finalize_def manager_of_def)
  next
    case False
    then have "?n * ?mp < ?c * ?mp" using mp(1) by simp
    then have "actor_finalize cfg s = Inr (s\<lparr>sent := sent s @ [ToActor (Some (?n * ?mp))],
        managers := (managers s)(ACTOR \<mapsto> release_num (?c - ?n) m)\<rparr>)"
      using assms(2) mp by (simp add: actor_finalize_def actor_scale_def manager_of_def update_manager_def manager_update_release)
    then show ?thesis by simp
  qed
  then obtain x where x: "actor_finalize cfg s = Inr x" "managers x = (managers s)(ACTOR \<mapsto> release_num (?c - ?n) m)" by blast
  let ?y = "x\<lparr>instance_nums := (instance_nums x)(ACTOR \<mapsto> ?n)\<rparr>"
  have "component_step cfg env t ACTOR s = Some (Inr ?y)"
    using assms(2,3) x by (simp add: component_step_def release_or_allocate_def state_update_def manager_of_def)
  moreover have "gpus ?y ACTOR = init_gpu_num m" using x(2) mp by (simp add: gpus_def algebra_simps)
  ultimately show ?thesis by (rule that) (simp add: x(2))
qed

lemma inference_last:
  assumes "cooperative env" "t = n_minibatches cfg - 1"
  obtains y where "component_step cfg env t INFERENCE s = Some (Inr y)" "managers y = managers s"
  using assms
  by (cases "managers s INFERENCE")
    (auto simp: component_step_def release_or_allocate_def inference_finalize_def state_update_def manager_of_def cooperative_def)

lemma main_loop_append: "main_loop cfg ws rounds (ts @ us) s = cbind (main_loop cfg ws rounds ts s) (main_loop cfg ws rounds us)"
proof (induction ts arbitrary: s)
  case (Cons t ts)
  have assoc: "cbind (cbind w f) g = cbind w (\<lambda>x. cbind (f x) g)" for w :: "scheduler comp" and f g :: "scheduler \<Rightarrow> scheduler comp"
    by (simp add: cbind_def split: option.split sum.split)
  have "main_loop cfg ws rounds (ts @ us) = (\<lambda>x. cbind (main_loop cfg ws rounds ts x) (main_loop cfg ws rounds us))"
    using Cons.IH by blast
  then show ?case by (simp add: assoc)
qed simp

text \<open>
  C12. A step of training is always scheduled to its end: in surroundings that
  cooperate \<open>schedule\<close> returns, with no assertion failed, whatever the reports, the
  aborted groups and the moment at which the inference ends; afterwards no rollout
  instance is left and the actor has exactly the GPUs it began with.
\<close>

theorem schedule_completes:
  assumes "auto_placement cfg s" "polls_ok cfg s polls" "\<And>t. cooperative (rounds t)"
  shows "\<exists>x. schedule cfg polls rounds s = Some (Inr x) \<and> gpus x ROLLOUT = 0 \<and> gpus x ACTOR = actor_world_size cfg"
proof -
  let ?t = "n_minibatches cfg - 1"
  have max: "0 < max_running_requests cfg" "0 < n_minibatches cfg" using assms(1) by (simp_all add: auto_placement_def)
  obtain y where y: "pre_process cfg polls s = Some (Inr y)" "gpu_inv cfg (rollout_base cfg) y"
    using pre_process_ok [OF assms(1,2)] by blast
  obtain z where z: "main_loop cfg workflow rounds (py_range ?t) y = Some (Inr z)" "gpu_inv cfg (rollout_base cfg) z"
    using main_loop_inv [of rounds, OF assms(3) y(2) max(1), of "py_range ?t"] by auto
  obtain m where m: "managers z ACTOR = Some m" "manager_ok m" "sizes_ok cfg m" "init_gpu_num m = actor_world_size cfg"
    using z(2) by (auto simp: gpu_inv_def tables_agree_def gpus_counted_def)
  have "init_instance_num m \<le> last (actor_valid_dp_sizes cfg)"
  proof -
    obtain ds d where "actor_valid_dp_sizes cfg = ds @ [d]" using m(3) by (cases "actor_valid_dp_sizes cfg" rule: rev_cases) (auto simp: sizes_ok_def)
    with m(3) show ?thesis by (auto simp: sizes_ok_def sorted_wrt_append)
  qed
  then have "init_instance_num m * model_parallel_size m \<le> last (actor_valid_dp_sizes cfg) * model_parallel_size m"
    using m(2) by (simp add: manager_ok_def)
  then have le: "init_gpu_num m \<le> cluster_num_gpus cfg" using m(2,3) by (simp add: sizes_ok_def manager_ok_def)
  obtain z1 where z1: "component_step cfg (rounds ?t) ?t ROLLOUT z = Some (Inr z1)" "gpus z1 ROLLOUT = 0" "managers z1 ACTOR = managers z ACTOR"
    using rollout_last [OF assms(3) z(2) refl] by blast
  obtain z2 where z2: "component_step cfg (rounds ?t) ?t INFERENCE z1 = Some (Inr z2)" "managers z2 = managers z1"
    using inference_last [OF assms(3) refl] by blast
  obtain x where x: "component_step cfg (rounds ?t) ?t ACTOR z2 = Some (Inr x)" "gpus x ACTOR = init_gpu_num m" "managers x ROLLOUT = managers z2 ROLLOUT"
    using actor_last [OF m(2) _ refl le, of z2] z1(3) z2(2) m(1) by auto
  have "py_range (n_minibatches cfg) = py_range ?t @ [?t]" using max(2) by (simp add: py_range_def upto_rec2)
  then have "schedule cfg polls rounds s = Some (Inr x)"
    using y(1) z(1) z1(1) z2(1) x(1) assms(3) [of ?t] by (simp add: schedule_def main_loop_append workflow_def cooperative_def)
  moreover have "gpus x ROLLOUT = 0" using x(3) z1(2) z2(2) by (simp add: gpus_def)
  ultimately show ?thesis using x(2) m(4) by simp
qed

section \<open>Concrete runs\<close>

text \<open>
  Six GPUs: the actor has the first two, the rollout begins with the first four, one
  for an instance, and the inference has the last two.
\<close>

definition single_gpu_manager :: "int \<Rightarrow> manager" where
  "single_gpu_manager n = \<lparr>init_instance_num = n, init_gpu_num = n, model_parallel_size = 1,
     current_instance_num = n, current_gpu_num = n, current_instance_offset = 0\<rparr>"

definition six_gpus :: "bool \<Rightarrow> bool \<Rightarrow> int \<Rightarrow> sched_config" where
  "six_gpus prep wait actor = \<lparr>n_minibatches = 3, use_pre_process_policy = prep, use_wait_before_last_iter_policy = wait,
     rollout_total_tasks = 4, max_running_requests = 1, cluster_num_gpus = 6, actor_world_size = actor,
     actor_valid_dp_sizes = [1, 2, 4, 6]\<rparr>"

definition first_state :: "int \<Rightarrow> int \<Rightarrow> int \<Rightarrow> scheduler" where
  "first_state actor rollout inference = \<lparr>managers = (\<lambda>r. Some (single_gpu_manager
       (case r of ROLLOUT \<Rightarrow> rollout | INFERENCE \<Rightarrow> inference | ACTOR \<Rightarrow> actor))),
     reports = [], total_tasks = 0, running_tasks = 0, available_gpu_num = 0, instance_nums = (\<lambda>_. None), sent = []\<rparr>"

definition steady :: "int \<Rightarrow> bool \<Rightarrow> surroundings" where
  "steady running inference_is_done = \<lparr>answer = (\<lambda>act i. Some \<lparr>info_id = i, info_data = Some [],
       info_report = Some \<lparr>rep_total_tasks = 1, rep_completed_tasks = 1 - running, rep_running_tasks = running\<rparr>, info_action = Offloaded\<rparr>),
     inference_done = inference_is_done, inference_ends = True, actor_updates = True\<rparr>"

lemma cooperative_steady: "0 \<le> running \<Longrightarrow> cooperative (steady running d)"
  by (simp add: cooperative_def steady_def reply_ok_def)

lemma six_gpus_ok: "auto_placement (six_gpus True True 2) (first_state 2 4 2)"
  by (auto simp: auto_placement_def six_gpus_def first_state_def single_gpu_manager_def sizes_ok_def manager_fits_def
      rollout_base_def init_gpus_def split: role.split)

lemma six_gpus_polls: "polls_ok (six_gpus True True 2) (first_state 2 4 2) [steady 1 False, steady 0 False]"
proof -
  have "[0..3] = [0, 1, 2, 3 :: int]" by (simp add: upto.simps)
  moreover have "cooperative (steady 1 False)" "cooperative (steady 0 False)" by (simp_all add: cooperative_steady)
  ultimately show ?thesis
    by (simp add: polls_ok_def generated_enough_def six_gpus_def first_state_def single_gpu_manager_def reply_def)
      (simp add: steady_def)
qed

theorem gpus_kept_apart_witness:
  "\<exists>x. cbind (pre_process (six_gpus True True 2) [steady 1 False, steady 0 False] (first_state 2 4 2))
      (\<lambda>s1. cbind (main_loop (six_gpus True True 2) workflow (\<lambda>_. steady 1 False) (py_range 1) s1)
        (workflow_loop (six_gpus True True 2) (steady 1 False) 1 (take 3 workflow))) = Some (Inr x)
    \<and> gpu_set (six_gpus True True 2) x ACTOR \<inter> gpu_set (six_gpus True True 2) x ROLLOUT = {}"
proof -
  have "1 < n_minibatches (six_gpus True True 2) - 1" "use_wait_before_last_iter_policy (six_gpus True True 2)"
    by (simp_all add: six_gpus_def)
  then show ?thesis
    using gpus_kept_apart [OF six_gpus_ok six_gpus_polls, of "\<lambda>_. steady 1 False" 1 3] cooperative_steady [of 1 False] by auto
qed

theorem schedule_completes_witness:
  "\<exists>x. schedule (six_gpus True True 2) [steady 1 False, steady 0 False] (\<lambda>_. steady 1 False) (first_state 2 4 2) = Some (Inr x)
    \<and> gpus x ROLLOUT = 0 \<and> gpus x ACTOR = 2"
  using schedule_completes [OF six_gpus_ok six_gpus_polls, of "\<lambda>_. steady 1 False"] cooperative_steady [of 1 False]
  by (simp add: six_gpus_def)

text \<open>
  Without the policy of waiting the inference may report its end between the report of
  a rollout instance that still runs and the turn of the actor: the actor grows onto
  GPUs of the rollout.
\<close>

lemma early_inference_overlaps:
  "case cbind (pre_process (six_gpus False False 1) [] (first_state 1 2 3))
      (workflow_loop (six_gpus False False 1) (steady 3 True) 0 workflow) of
     Some (Inr x) \<Rightarrow> gpus x ACTOR = 4 \<and> gpus x ROLLOUT = 2
       \<and> 2 \<in> gpu_set (six_gpus False False 1) x ACTOR \<inter> gpu_set (six_gpus False False 1) x ROLLOUT
   | _ \<Rightarrow> False"
  by code_simp

text \<open>
  The scheduler prepares by default, the placement by default does not let the rollout
  begin on the actor's GPUs. Then the rollout gives up as many of its own GPUs as the
  actor has, and nobody gets them: of six GPUs four are accounted for.
\<close>

lemma default_policies_lose_gpus:
  "case pre_process (six_gpus True True 2) [steady 0 False] ((first_state 2 4 0)\<lparr>managers := (managers (first_state 2 4 0))(INFERENCE := None)\<rparr>) of
     Some (Inr x) \<Rightarrow> gpus x ROLLOUT + gpus x INFERENCE + gpus x ACTOR + available_gpu_num x = 4
   | _ \<Rightarrow> False"
  by code_simp

end
