(* ===== verification/Model_Placement.thy ===== *)
theory Model_Placement
  imports Component_Placement Packed_Placement Dyn_Scheduler
begin

text \<open>
  The placement of model-parallel components:
  \<open>ModelParallelComponentPlacement\<close> of \<^verbatim>\<open>rlinf/utils/placement.py\<close>, which reads the
  parsed component placement, decides between the collocated, the disaggregated and
  the automatic mode, and places actor, rollout, inference, critic and reward with
  packed strategies; and the managers of the dynamic scheduler that are built from it.
\<close>

section \<open>Configuration and state\<close>

datatype placement_mode = COLLOCATED | DISAGGREGATED | HYBRID | AUTO

datatype rollout_sync_mode = SYNC_COLLOCATED | SYNC_DISAGGREGATED

definition placement_mode_to_rollout_sync_mode :: "placement_mode \<Rightarrow> rollout_sync_mode" where
  "placement_mode_to_rollout_sync_mode m = (if m = COLLOCATED then SYNC_COLLOCATED else SYNC_DISAGGREGATED)"

text \<open>
  What the code reads of the configuration. \<open>inference_section\<close> is the section
  \<open>inference\<close> or else \<open>actor_inference\<close>, with its tensor and pipeline sizes if they are given.
\<close>

record mp_config =
  auto_scheduler :: bool
  pre_process_policy :: "bool option"
  recompute_logprobs :: bool
  actor_tp_size :: int
  actor_cp_size :: int
  actor_pp_size :: int
  rollout_tp_size :: int
  rollout_pp_size :: int
  inference_section :: "(int option \<times> int option) option"
  critic_tp_size :: int
  critic_cp_size :: int
  critic_pp_size :: int
  critic_inference_tp :: "int option"
  critic_inference_pp :: "int option"

record mp_placement =
  actor_gpus :: "int list"
  rollout_gpus :: "int list"
  inference_gpus :: "int list option"
  critic_inference_gpus :: "int list option"
  reward_gpus :: "int list"
  critic_gpus :: "int list option"
  num_gpus :: int
  mode :: placement_mode
  sync_mode :: rollout_sync_mode
  packed :: "(string \<times> packed_strategy) list"

definition num_of :: "int list option \<Rightarrow> int" where
  "num_of gs = (case gs of None \<Rightarrow> 0 | Some xs \<Rightarrow> int (length xs))"

section \<open>Sizes\<close>

definition inference_tp_size :: "mp_config \<Rightarrow> int" where
  "inference_tp_size cfg =
     (case inference_section cfg of None \<Rightarrow> actor_tp_size cfg
      | Some (tp, _) \<Rightarrow> (case tp of None \<Rightarrow> 1 | Some t \<Rightarrow> t))"

definition inference_pp_size :: "mp_config \<Rightarrow> int" where
  "inference_pp_size cfg =
     (case inference_section cfg of None \<Rightarrow> actor_pp_size cfg
      | Some (_, pp) \<Rightarrow> (case pp of None \<Rightarrow> actor_pp_size cfg | Some p \<Rightarrow> p))"

definition critic_inference_tp_size :: "mp_config \<Rightarrow> int" where
  "critic_inference_tp_size cfg = (case critic_inference_tp cfg of None \<Rightarrow> critic_tp_size cfg | Some t \<Rightarrow> t)"

definition critic_inference_pp_size :: "mp_config \<Rightarrow> int" where
  "critic_inference_pp_size cfg = (case critic_inference_pp cfg of None \<Rightarrow> critic_pp_size cfg | Some p \<Rightarrow> p)"

definition actor_dp_size :: "mp_config \<Rightarrow> mp_placement \<Rightarrow> int res" where
  "actor_dp_size cfg p = py_div (int (length (actor_gpus p))) (actor_tp_size cfg * actor_cp_size cfg * actor_pp_size cfg)"

definition critic_dp_size :: "mp_config \<Rightarrow> mp_placement \<Rightarrow> int res" where
  "critic_dp_size cfg p = py_div (num_of (critic_gpus p)) (critic_tp_size cfg * critic_cp_size cfg * critic_pp_size cfg)"

definition inference_dp_size :: "mp_config \<Rightarrow> mp_placement \<Rightarrow> int res" where
  "inference_dp_size cfg p = py_div (num_of (inference_gpus p)) (inference_tp_size cfg * inference_pp_size cfg)"

definition critic_inference_dp_size :: "mp_config \<Rightarrow> mp_placement \<Rightarrow> int res" where
  "critic_inference_dp_size cfg p =
     py_div (num_of (critic_inference_gpus p)) (critic_inference_tp_size cfg * critic_inference_pp_size cfg)"

definition rollout_dp_size :: "mp_config \<Rightarrow> mp_placement \<Rightarrow> int res" where
  "rollout_dp_size cfg p = py_div (int (length (rollout_gpus p))) (rollout_tp_size cfg * rollout_pp_size cfg)"

section \<open>The modes\<close>

definition component_gpus :: "component_state \<Rightarrow> string \<Rightarrow> int list option res" where
  "component_gpus st name =
     (if name \<notin> set (map fst (component_rank_map st)) then Inr None
      else rbind (get_hardware_ranks st name) (\<lambda>gs. Inr (Some gs)))"

text \<open>\<open>gpus == list(range(gpus[0], gpus[-1] + 1))\<close>, which raises on an empty list.\<close>

definition continuous :: "int list \<Rightarrow> bool res" where
  "continuous gs = (if gs = [] then Inl IndexError else Inr (gs = [hd gs..last gs]))"

definition require :: "bool \<Rightarrow> unit res" where
  "require b = (if b then Inr () else Inl AssertionError)"

definition require_continuous :: "int list option \<Rightarrow> unit res" where
  "require_continuous gs = (case gs of None \<Rightarrow> Inr () | Some xs \<Rightarrow> rbind (continuous xs) require)"

definition disjoint_gpus :: "int list option \<Rightarrow> int list option \<Rightarrow> bool" where
  "disjoint_gpus xs ys =
     (case xs of None \<Rightarrow> True | Some a \<Rightarrow> (case ys of None \<Rightarrow> True | Some b \<Rightarrow> list_all (\<lambda>x. x \<notin> set b) a))"

definition is_disaggregated :: "mp_placement \<Rightarrow> bool" where
  "is_disaggregated p \<longleftrightarrow>
     disjoint_gpus (Some (actor_gpus p)) (Some (rollout_gpus p))
     \<and> disjoint_gpus (Some (actor_gpus p)) (inference_gpus p)
     \<and> disjoint_gpus (Some (rollout_gpus p)) (inference_gpus p)
     \<and> disjoint_gpus (critic_gpus p) (Some (actor_gpus p))
     \<and> disjoint_gpus (critic_gpus p) (Some (rollout_gpus p))
     \<and> disjoint_gpus (critic_gpus p) (critic_inference_gpus p)
     \<and> disjoint_gpus (Some (rollout_gpus p)) (critic_inference_gpus p)"

definition is_auto :: "mp_config \<Rightarrow> mp_placement \<Rightarrow> bool res" where
  "is_auto cfg p =
     (if \<not> auto_scheduler cfg \<or> critic_gpus p \<noteq> None then Inr False
      else if \<not> is_disaggregated p then Inl AssertionError
      else if \<not> (hd (actor_gpus p) = 0 \<and> last (actor_gpus p) = hd (rollout_gpus p) - 1) then Inl AssertionError
      else case inference_gpus p of
          None \<Rightarrow> if last (rollout_gpus p) = num_gpus p - 1 then Inr True else Inl AssertionError
        | Some gs \<Rightarrow> if last (rollout_gpus p) = hd gs - 1 \<and> last gs = num_gpus p - 1 then Inr True else Inl AssertionError)"

text \<open>The multi-agent subclass takes every placement that is not automatic for collocated.\<close>

definition is_collocated :: "bool \<Rightarrow> mp_placement \<Rightarrow> bool" where
  "is_collocated multi_agent p \<longleftrightarrow> multi_agent \<or> actor_gpus p = rollout_gpus p"

definition choose_mode :: "bool \<Rightarrow> mp_config \<Rightarrow> mp_placement \<Rightarrow> placement_mode res" where
  "choose_mode multi_agent cfg p =
     rbind (is_auto cfg p) (\<lambda>a.
     if a then Inr AUTO
     else if is_collocated multi_agent p
     then rbind (require (inference_gpus p = None)) (\<lambda>_. rbind (require (critic_inference_gpus p = None)) (\<lambda>_. Inr COLLOCATED))
     else if is_disaggregated p
     then rbind (case inference_gpus p of
              None \<Rightarrow> Inr ()
            | Some gs \<Rightarrow> rbind (require (inference_tp_size cfg \<le> int (length gs))) (\<lambda>_. require (recompute_logprobs cfg))) (\<lambda>_.
          rbind (case critic_inference_gpus p of
              None \<Rightarrow> Inr ()
            | Some gs \<Rightarrow> require (critic_inference_tp_size cfg \<le> int (length gs))) (\<lambda>_. Inr DISAGGREGATED))
     else Inl ValueError)"

section \<open>The strategies\<close>

definition place_packed :: "string \<Rightarrow> int list \<Rightarrow> int \<Rightarrow> int \<Rightarrow> mp_placement \<Rightarrow> mp_placement res" where
  "place_packed name gs n st p =
     rbind (make_packed_strategy (hd gs) (last gs) n st None) (\<lambda>s. Inr (p\<lparr>packed := AList.update name s (packed p)\<rparr>))"

definition place_optional :: "string \<Rightarrow> int list option \<Rightarrow> mp_placement \<Rightarrow> mp_placement res" where
  "place_optional name gs p = (case gs of None \<Rightarrow> Inr p | Some xs \<Rightarrow> place_packed name xs 1 1 p)"

definition reward_choice :: "mp_placement \<Rightarrow> int list option" where
  "reward_choice p = (if reward_gpus p = [] then None else Some (reward_gpus p))"

definition gpus_per_rollout_dp :: "mp_config \<Rightarrow> mp_placement \<Rightarrow> int res" where
  "gpus_per_rollout_dp cfg p = rbind (rollout_dp_size cfg p) (\<lambda>dp. py_div (int (length (rollout_gpus p))) dp)"

definition generate_collocated :: "mp_config \<Rightarrow> mp_placement \<Rightarrow> mp_placement res" where
  "generate_collocated cfg p =
     rbind (place_packed ''actor'' (actor_gpus p) 1 1 p) (\<lambda>p1.
     rbind (if actor_tp_size cfg > rollout_tp_size cfg
            then rbind (py_mod (actor_tp_size cfg) (rollout_tp_size cfg)) (\<lambda>m. rbind (require (m = 0)) (\<lambda>_.
                 Inr (actor_tp_size cfg div rollout_tp_size cfg)))
            else Inr 1) (\<lambda>st.
     rbind (place_packed ''rollout'' (rollout_gpus p) (rollout_tp_size cfg) st p1) (\<lambda>p2.
     rbind (place_optional ''reward'' (reward_choice p) p2) (\<lambda>p3.
     place_optional ''critic'' (critic_gpus p) p3))))"

definition generate_disaggregated :: "mp_config \<Rightarrow> mp_placement \<Rightarrow> mp_placement res" where
  "generate_disaggregated cfg p =
     rbind (gpus_per_rollout_dp cfg p) (\<lambda>n.
     rbind (place_packed ''rollout'' (rollout_gpus p) n 1 p) (\<lambda>p1.
     rbind (place_optional (if critic_inference_gpus p = None then ''inference'' else ''actor_inference'') (inference_gpus p) p1) (\<lambda>p2.
     rbind (place_optional ''critic_inference'' (critic_inference_gpus p) p2) (\<lambda>p3.
     rbind (place_packed ''actor'' (actor_gpus p) 1 1 p3) (\<lambda>p4.
     rbind (place_optional ''reward'' (reward_choice p) p4) (\<lambda>p5.
     place_optional ''critic'' (critic_gpus p) p5))))))"

text \<open>With the policy of preparation the rollout begins on the GPUs of the actor too.\<close>

definition extend_rollout :: "mp_config \<Rightarrow> mp_placement \<Rightarrow> mp_placement res" where
  "extend_rollout cfg p =
     (if pre_process_policy cfg = Some True
      then rbind (py_mod (last (actor_gpus p) - hd (actor_gpus p) + 1) (rollout_tp_size cfg)) (\<lambda>m.
           rbind (require (m = 0)) (\<lambda>_.
           Inr (p\<lparr>rollout_gpus := py_range (1 + last (actor_gpus p)) @ rollout_gpus p\<rparr>)))
      else Inr p)"

definition generate_auto :: "mp_config \<Rightarrow> mp_placement \<Rightarrow> mp_placement res" where
  "generate_auto cfg p0 =
     rbind (make_packed_strategy 0 (num_gpus p0 - 1) 1 1 None) (\<lambda>s.
     let p1 = p0\<lparr>packed := AList.update ''actor'' s (packed p0)\<rparr> in
     rbind (require (critic_gpus p1 = None)) (\<lambda>_.
     rbind (extend_rollout cfg p1) (\<lambda>p.
     rbind (gpus_per_rollout_dp cfg p) (\<lambda>n.
     rbind (place_packed ''rollout'' (rollout_gpus p) n 1 p) (\<lambda>p2.
     rbind (place_optional ''inference'' (inference_gpus p) p2) (\<lambda>p3.
     place_optional ''reward'' (reward_choice p) p3))))))"

definition generate_placements :: "mp_config \<Rightarrow> mp_placement \<Rightarrow> mp_placement res" where
  "generate_placements cfg p =
     (case mode p of
        COLLOCATED \<Rightarrow> generate_collocated cfg p
      | DISAGGREGATED \<Rightarrow> generate_disaggregated cfg p
      | AUTO \<Rightarrow> generate_auto cfg p
      | HYBRID \<Rightarrow> Inr p)"

section \<open>The constructor\<close>

text \<open>The GPUs of the components, with the assertions on them.\<close>

definition required :: "int list option \<Rightarrow> int list res" where
  "required gs = (case gs of None \<Rightarrow> Inl AssertionError | Some xs \<Rightarrow> Inr xs)"

definition read_gpus :: "component_state \<Rightarrow> int \<Rightarrow> mp_placement res" where
  "read_gpus st total_gpus =
     rbind (component_gpus st ''actor'') (\<lambda>actor.
     rbind (component_gpus st ''rollout'') (\<lambda>rollout.
     rbind (component_gpus st ''inference'') (\<lambda>inf.
     rbind (if inf = None then component_gpus st ''actor_inference'' else Inr inf) (\<lambda>inference.
     rbind (component_gpus st ''critic_inference'') (\<lambda>critic_inference.
     rbind (component_gpus st ''reward'') (\<lambda>reward.
     rbind (component_gpus st ''critic'') (\<lambda>critic.
     rbind (required actor) (\<lambda>a.
     rbind (required rollout) (\<lambda>r.
     rbind (required reward) (\<lambda>w.
     rbind (require_continuous actor) (\<lambda>_.
     rbind (require_continuous rollout) (\<lambda>_.
     rbind (require_continuous inference) (\<lambda>_.
     rbind (require_continuous critic_inference) (\<lambda>_.
     rbind (require_continuous critic) (\<lambda>_.
     Inr \<lparr>actor_gpus = a, rollout_gpus = r, inference_gpus = inference, critic_inference_gpus = critic_inference,
          reward_gpus = w, critic_gpus = critic, num_gpus = total_gpus, mode = HYBRID, sync_mode = SYNC_DISAGGREGATED,
          packed = []\<rparr>)))))))))))))))"

definition model_parallel_placement :: "bool \<Rightarrow> mp_config \<Rightarrow> component_state \<Rightarrow> int \<Rightarrow> mp_placement res" where
  "model_parallel_placement multi_agent cfg st total_gpus =
     rbind (read_gpus st total_gpus) (\<lambda>p.
     rbind (choose_mode multi_agent cfg p) (\<lambda>md.
     let p' = p\<lparr>mode := md, sync_mode := placement_mode_to_rollout_sync_mode md\<rparr> in
     rbind (require (actor_tp_size cfg \<le> int (length (actor_gpus p')))) (\<lambda>_.
     rbind (require (rollout_tp_size cfg \<le> int (length (rollout_gpus p')))) (\<lambda>_.
     generate_placements cfg p'))))"

text \<open>The questions that the workers ask of a placement.\<close>

definition is_pipeline :: "mp_placement \<Rightarrow> bool" where
  "is_pipeline p \<longleftrightarrow> mode p = DISAGGREGATED \<or> mode p = AUTO"

definition has_dedicated_inference :: "mp_placement \<Rightarrow> bool" where
  "has_dedicated_inference p \<longleftrightarrow> is_pipeline p \<and> inference_gpus p \<noteq> None"

definition has_dedicated_critic_inference :: "mp_placement \<Rightarrow> bool" where
  "has_dedicated_critic_inference p \<longleftrightarrow> is_pipeline p \<and> critic_inference_gpus p \<noteq> None"

definition has_dedicated_inference_for_role :: "mp_placement \<Rightarrow> string \<Rightarrow> bool res" where
  "has_dedicated_inference_for_role p name =
     (if name = ''actor'' then Inr (has_dedicated_inference p)
      else if name = ''critic'' then Inr (has_dedicated_critic_inference p)
      else Inl AssertionError)"

section \<open>Evaluation\<close>

text \<open>\<open>ModelParallelEvalComponentPlacement\<close>: the rollout with its tensor size, and the reward.\<close>

definition eval_placement :: "int \<Rightarrow> component_state \<Rightarrow> (int list \<times> (string \<times> packed_strategy) list) res" where
  "eval_placement rollout_tp st =
     rbind (component_gpus st ''rollout'') (\<lambda>rollout.
     rbind (component_gpus st ''reward'') (\<lambda>reward.
     rbind (required rollout) (\<lambda>gs.
     rbind (required reward) (\<lambda>ws.
     rbind (require_continuous rollout) (\<lambda>_.
     rbind (require (rollout_tp \<le> int (length gs))) (\<lambda>_.
     rbind (make_packed_strategy (hd gs) (last gs) rollout_tp 1 None) (\<lambda>s.
     if ws = [] then Inr (gs, [(''rollout'', s)])
     else rbind (make_packed_strategy (hd ws) (last ws) 1 1 None) (\<lambda>w. Inr (gs, [(''rollout'', s), (''reward'', w)])))))))))"

section \<open>Several agents\<close>

text \<open>
  \<open>MultiAgentModelParallelComponentPlacement\<close> with its two validations. The warnings and
  the number of GPUs they mention are left out.
\<close>

definition component_gpu_set :: "component_state \<Rightarrow> string \<Rightarrow> int set" where
  "component_gpu_set st name = (case map_of (component_rank_map st) name of None \<Rightarrow> {} | Some m \<Rightarrow> set (concat (map fst m)))"

definition rollout_components :: "component_state \<Rightarrow> string list" where
  "rollout_components st = filter (\<lambda>name. take 7 name = ''rollout'') (map fst (component_rank_map st))"

definition validate_collocated_placement :: "component_state \<Rightarrow> unit res" where
  "validate_collocated_placement st =
     (let actor = component_gpu_set st ''actor'' in
      rbind (require (actor = component_gpu_set st ''reward'')) (\<lambda>_.
      rbind (require (rollout_components st \<noteq> [])) (\<lambda>_.
      require (list_all (\<lambda>name. component_gpu_set st name \<subseteq> actor) (rollout_components st)))))"

definition shared_names :: "string list" where
  "shared_names = [''actor'', ''rollout'', ''reward'', ''inference'']"

definition validate_resource_coverage :: "component_state \<Rightarrow> unit res" where
  "validate_resource_coverage st =
     rbind (rfold (\<lambda>used (name, m).
         if name \<in> set shared_names then Inr used
         else if used \<inter> set (concat (map fst m)) \<noteq> {} then Inl ValueError
         else Inr (used \<union> set (concat (map fst m)))) {} (component_rank_map st)) (\<lambda>_. Inr ())"

definition multi_agent_placement :: "mp_config \<Rightarrow> component_state \<Rightarrow> int \<Rightarrow> mp_placement res" where
  "multi_agent_placement cfg st total_gpus =
     rbind (model_parallel_placement True cfg st total_gpus) (\<lambda>p.
     rbind (validate_collocated_placement st) (\<lambda>_.
     rbind (validate_resource_coverage st) (\<lambda>_.
     Inr (p\<lparr>sync_mode := if actor_gpus p \<noteq> rollout_gpus p then SYNC_DISAGGREGATED
                         else placement_mode_to_rollout_sync_mode (mode p)\<rparr>))))"

text \<open>
  The strategy of a component. \<open>sizes\<close> gives what the configuration of the component
  has of tensor, pipeline and data parallel sizes; \<open>custom\<close> says whether the caller
  named a strategy class (only the packed one is accepted).
\<close>

datatype component_choice = Packed packed_strategy | Parsed strategy

definition default_strategy :: "component_state \<Rightarrow> mp_placement \<Rightarrow> string \<Rightarrow> component_choice res" where
  "default_strategy st p name =
     (case map_of (packed p) name of
        Some s \<Rightarrow> Inr (Packed s)
      | None \<Rightarrow> rbind (get_strategy st name) (\<lambda>s. Inr (Parsed s)))"

definition check_size :: "int \<Rightarrow> int option \<Rightarrow> unit res" where
  "check_size n choice = (case choice of None \<Rightarrow> Inr () | Some k \<Rightarrow> rbind (py_mod n k) (\<lambda>m. require (m = 0)))"

definition validate_component_placement_strategy ::
  "(string \<Rightarrow> (int option \<times> int option \<times> int option) option) \<Rightarrow> string \<Rightarrow> packed_strategy \<Rightarrow> unit res" where
  "validate_component_placement_strategy sizes name s =
     (case sizes name of
        None \<Rightarrow> Inl AssertionError
      | Some (tp, pp, dp) \<Rightarrow>
          let n = end_hw_rank s - start_hw_rank s + 1 in
          rbind (check_size n tp) (\<lambda>_. rbind (check_size n pp) (\<lambda>_. check_size n dp)))"

definition agent_strategy ::
  "(string \<Rightarrow> (int option \<times> int option \<times> int option) option) \<Rightarrow> component_state \<Rightarrow> mp_placement \<Rightarrow> string \<Rightarrow> bool
    \<Rightarrow> component_choice res" where
  "agent_strategy sizes st p name custom =
     (if \<not> custom \<or> name \<in> set shared_names then default_strategy st p name
      else rbind (component_gpus st name) (\<lambda>gpus.
        case gpus of
          None \<Rightarrow> Inl TypeError
        | Some gs \<Rightarrow>
            if gs = [] then Inl IndexError
            else case map_of (packed p) ''rollout'' of
              None \<Rightarrow> Inl KeyError
            | Some r \<Rightarrow>
                rbind (make_packed_strategy (hd gs) (last gs) (num_hardware_per_process r) (stride r) None) (\<lambda>s.
                rbind (validate_component_placement_strategy sizes name s) (\<lambda>_. Inr (Packed s)))))"

section \<open>The scheduler of the automatic mode\<close>

text \<open>
  \<open>SchedulerWorker.__init__\<close> builds a manager for every component but the reward, from the
  sizes of the placement, and the state with the valid sizes of the actor. The policies
  that are not configured are used.
\<close>

record train_config =
  train_group_size :: int
  train_minibatches :: int
  train_batch_size :: int
  train_running_requests :: int
  train_wait_policy :: "bool option"

definition role_of :: "string \<Rightarrow> role res" where
  "role_of name =
     (if name = ''rollout'' then Inr ROLLOUT else if name = ''actor'' then Inr ACTOR
      else if name = ''inference'' then Inr INFERENCE else Inl ValueError)"

definition sizes_of :: "mp_config \<Rightarrow> mp_placement \<Rightarrow> role \<Rightarrow> (int \<times> int) res" where
  "sizes_of cfg p r =
     (case r of
        ROLLOUT \<Rightarrow> rbind (rollout_dp_size cfg p) (\<lambda>dp. Inr (dp, int (length (rollout_gpus p))))
      | ACTOR \<Rightarrow> rbind (actor_dp_size cfg p) (\<lambda>dp. Inr (dp, int (length (actor_gpus p))))
      | INFERENCE \<Rightarrow> rbind (inference_dp_size cfg p) (\<lambda>dp. Inr (dp, num_of (inference_gpus p))))"

definition add_manager :: "mp_config \<Rightarrow> mp_placement \<Rightarrow> (role \<Rightarrow> manager option) \<Rightarrow> string \<Rightarrow> (role \<Rightarrow> manager option) res" where
  "add_manager cfg p ms name =
     (if name = ''reward'' then Inr ms
      else rbind (role_of name) (\<lambda>r.
           rbind (sizes_of cfg p r) (\<lambda>(dp, n).
           rbind (make_manager dp n) (\<lambda>m. Inr (ms(r \<mapsto> m))))))"

definition make_scheduler :: "mp_config \<Rightarrow> mp_placement \<Rightarrow> string list \<Rightarrow> train_config \<Rightarrow> (sched_config \<times> scheduler) res" where
  "make_scheduler cfg p names t =
     (if ''rollout'' \<notin> set names \<or> ''actor'' \<notin> set names then Inl AssertionError
      else rbind (rfold (add_manager cfg p) Map.empty names) (\<lambda>ms.
        case ms ACTOR of
          None \<Rightarrow> Inl KeyError
        | Some ma \<Rightarrow>
            rbind (get_valid_dp_sizes (train_group_size t) (train_minibatches t) (train_batch_size t) (num_gpus p) (model_parallel_size ma))
              (\<lambda>sizes. Inr (\<lparr>n_minibatches = train_minibatches t,
                 use_pre_process_policy = pre_process_policy cfg \<noteq> Some False,
                 use_wait_before_last_iter_policy = train_wait_policy t \<noteq> Some False,
                 rollout_total_tasks = train_group_size t * train_batch_size t,
                 max_running_requests = train_running_requests t, cluster_num_gpus = num_gpus p,
                 actor_world_size = int (length (actor_gpus p)), actor_valid_dp_sizes = sizes\<rparr>,
               \<lparr>managers = ms, reports = [], total_tasks = 0, running_tasks = 0, available_gpu_num = 0,
                instance_nums = (\<lambda>r. map_option current_instance_num (ms r)), sent = []\<rparr>))))"

section \<open>Accepted placements\<close>

definition contiguous :: "int list \<Rightarrow> bool" where
  "contiguous gs \<longleftrightarrow> gs \<noteq> [] \<and> gs = [hd gs..last gs]"

lemma contiguous_facts:
  assumes "contiguous gs"
  shows "set gs = {hd gs..last gs}" "int (length gs) = last gs - hd gs + 1" "hd gs \<le> last gs"
proof -
  have e: "gs = [hd gs..last gs]" using assms by (simp add: contiguous_def)
  have "set gs = set [hd gs..last gs]" using e by (rule arg_cong)
  then show s: "set gs = {hd gs..last gs}" by simp
  then show le: "hd gs \<le> last gs" using assms by (force simp: contiguous_def)
  have "length gs = length [hd gs..last gs]" using e by (rule arg_cong)
  then show "int (length gs) = last gs - hd gs + 1" using le by simp
qed

lemma upto_ends [simp]: "a \<le> b \<Longrightarrow> hd [a..b] = a" "a \<le> b \<Longrightarrow> last [a..b] = b"
  by (simp add: upto_rec1) (simp add: upto_rec2)

lemma contiguous_upto [simp]: "contiguous [a..b] \<longleftrightarrow> a \<le> b"
  by (cases "a \<le> b") (simp_all add: contiguous_def)

lemma require_Inr [simp]: "require b = Inr u \<longleftrightarrow> b"
  by (simp add: require_def)

lemma require_continuous_Inr: "require_continuous gs = Inr u \<longleftrightarrow> (\<forall>xs. gs = Some xs \<longrightarrow> contiguous xs)"
  by (auto simp: require_continuous_def continuous_def contiguous_def res_elims split: option.splits)

lemma require_total [simp]: "require True = Inr ()"
  by (simp add: require_def)

text \<open>What the constructor knows of the GPUs once it has read them.\<close>

lemma read_gpus_ok:
  assumes "read_gpus st n = Inr p"
  shows "contiguous (actor_gpus p)" "contiguous (rollout_gpus p)"
    "inference_gpus p = Some gs \<Longrightarrow> contiguous gs" "critic_gpus p = Some gs \<Longrightarrow> contiguous gs"
    "critic_inference_gpus p = Some gs \<Longrightarrow> contiguous gs" "num_gpus p = n" "packed p = []"
    "component_gpus st ''inference'' = Inr (Some gs) \<Longrightarrow> inference_gpus p = Some gs"
    "component_gpus st ''actor_inference'' = Inr None \<Longrightarrow> component_gpus st ''inference'' = Inr (inference_gpus p)"
  using assms
  by (auto simp: read_gpus_def res_elims required_def require_continuous_Inr split: option.splits if_splits)

text \<open>The strategies do not change the rest of the placement.\<close>

lemma place_packed_ok:
  assumes "place_packed name gs n st p = Inr p'"
  shows "\<exists>s. make_packed_strategy (hd gs) (last gs) n st None = Inr s \<and> p' = p\<lparr>packed := AList.update name s (packed p)\<rparr>"
  using assms by (auto simp: place_packed_def res_elims)

lemma place_optional_ok:
  assumes "place_optional name gs p = Inr p'"
  shows "\<exists>pk. p' = p\<lparr>packed := pk\<rparr> \<and> (\<forall>other. other \<noteq> name \<longrightarrow> map_of pk other = map_of (packed p) other)"
proof (cases gs)
  case None
  then show ?thesis using assms by (intro exI [of _ "packed p"]) (simp add: place_optional_def)
next
  case (Some xs)
  then show ?thesis using assms place_packed_ok [of name xs 1 1 p p'] by (auto simp: place_optional_def update_conv')
qed

lemma make_packed_ok:
  assumes "make_packed_strategy a b n st ls = Inr s"
  shows "s = \<lparr>start_hw_rank = a, end_hw_rank = b, num_hardware_per_process = n, stride = st, pk_labels = ls\<rparr>"
    "0 \<le> a" "a \<le> b" "n * st \<noteq> 0" "n * st dvd b - a + 1"
  using assms by (auto simp: make_packed_strategy_def py_mod_def split: if_splits)

definition rollout_stride :: "mp_config \<Rightarrow> int" where
  "rollout_stride cfg = (if actor_tp_size cfg > rollout_tp_size cfg then actor_tp_size cfg div rollout_tp_size cfg else 1)"

definition gpu_block :: "int list \<Rightarrow> int \<Rightarrow> int \<Rightarrow> packed_strategy" where
  "gpu_block gs n st = \<lparr>start_hw_rank = hd gs, end_hw_rank = last gs, num_hardware_per_process = n, stride = st, pk_labels = None\<rparr>"

lemma collocated_ok:
  assumes "generate_collocated cfg p = Inr p'"
  shows "\<exists>pk. p' = p\<lparr>packed := pk\<rparr> \<and> map_of pk ''rollout'' = Some (gpu_block (rollout_gpus p) (rollout_tp_size cfg) (rollout_stride cfg))
    \<and> (actor_tp_size cfg > rollout_tp_size cfg \<longrightarrow> rollout_tp_size cfg dvd actor_tp_size cfg)
    \<and> 0 \<le> hd (rollout_gpus p) \<and> rollout_tp_size cfg * rollout_stride cfg \<noteq> 0
    \<and> rollout_tp_size cfg * rollout_stride cfg dvd last (rollout_gpus p) - hd (rollout_gpus p) + 1"
proof -
  from assms obtain p1 st p2 p3 where g: "place_packed ''actor'' (actor_gpus p) 1 1 p = Inr p1" "st = rollout_stride cfg"
      "place_packed ''rollout'' (rollout_gpus p) (rollout_tp_size cfg) st p1 = Inr p2"
      "place_optional ''reward'' (reward_choice p) p2 = Inr p3" "place_optional ''critic'' (critic_gpus p) p3 = Inr p'"
    and d: "actor_tp_size cfg > rollout_tp_size cfg \<longrightarrow> rollout_tp_size cfg dvd actor_tp_size cfg"
    by (auto simp: generate_collocated_def res_elims rollout_stride_def py_mod_def split: if_splits)
  from place_packed_ok [OF g(3)] obtain s where s: "make_packed_strategy (hd (rollout_gpus p)) (last (rollout_gpus p)) (rollout_tp_size cfg) st None = Inr s"
    "p2 = p1\<lparr>packed := AList.update ''rollout'' s (packed p1)\<rparr>" by blast
  note k = make_packed_ok [OF s(1)]
  show ?thesis
    using place_packed_ok [OF g(1)] place_optional_ok [OF g(4)] place_optional_ok [OF g(5)] k d
    by (auto simp: s(2) g(2) gpu_block_def update_conv')
qed

lemma rollout_size_divides:
  assumes "0 < m" "dp = len div m" "dp \<noteq> 0" "n = len div dp" "n dvd (len :: int)" "0 \<le> len"
  shows "dp * n = len" "m \<le> n" "0 < dp" "0 < n"
proof -
  show dp: "0 < dp" using assms by (simp add: pos_imp_zdiv_nonneg_iff less_le)
  then have "m \<le> len" using assms by (metis pos_imp_zdiv_pos_iff)
  moreover have "dp * m \<le> len" using assms(1,2) by (simp add: minus_mod_eq_div_mult [symmetric])
  ultimately show mn: "m \<le> n" using assms(4) dp
    by (metis zdiv_mono1 nonzero_mult_div_cancel_left order_less_irrefl)
  then show n: "0 < n" using assms(1) by simp
  from assms(5) obtain q where q: "len = n * q" by blast
  have "dp \<le> q"
  proof -
    have "dp * n \<le> len" using assms(4) dp by (metis minus_mod_eq_div_mult mult.commute pos_mod_sign diff_ge_0_iff_ge minus_div_mult_eq_mod)
    then have "n * dp \<le> n * q" using q by (simp add: mult.commute)
    then show ?thesis using n by simp
  qed
  moreover have "\<not> dp < q"
  proof
    assume "dp < q"
    then have "n * (dp + 1) \<le> len" using n q by simp
    then have "m * (dp + 1) \<le> len" using mn dp by (smt (verit) mult_right_mono)
    then have "dp + 1 \<le> len div m" using assms(1) by (metis nonzero_mult_div_cancel_left order_less_irrefl zdiv_mono1)
    then show False using assms(2) by simp
  qed
  ultimately show "dp * n = len" using q by (simp add: mult.commute)
qed

text \<open>The rollout of the disaggregated and of the automatic mode.\<close>

definition rollout_placed :: "mp_config \<Rightarrow> mp_placement \<Rightarrow> bool" where
  "rollout_placed cfg p \<longleftrightarrow> contiguous (rollout_gpus p) \<and>
     (\<exists>dp n. rollout_dp_size cfg p = Inr dp \<and> 0 < dp \<and> 0 < n \<and> dp * n = int (length (rollout_gpus p))
       \<and> rollout_tp_size cfg * rollout_pp_size cfg \<le> n \<and> map_of (packed p) ''rollout'' = Some (gpu_block (rollout_gpus p) n 1))"

lemma place_rollout_ok:
  assumes "gpus_per_rollout_dp cfg p = Inr n" "place_packed ''rollout'' (rollout_gpus p) n 1 q = Inr q'"
    and "contiguous (rollout_gpus p)" "0 < rollout_tp_size cfg * rollout_pp_size cfg" "rollout_gpus q = rollout_gpus p"
  shows "rollout_placed cfg q'" "\<exists>pk. q' = q\<lparr>packed := pk\<rparr>"
proof -
  let ?len = "int (length (rollout_gpus p))"
  from assms(1) obtain dp where dp: "rollout_dp_size cfg p = Inr dp" "dp = ?len div (rollout_tp_size cfg * rollout_pp_size cfg)"
    "dp \<noteq> 0" "n = ?len div dp"
    using assms(4) by (auto simp: gpus_per_rollout_dp_def rollout_dp_size_def res_elims py_div_def split: if_splits)
  from place_packed_ok [OF assms(2)] obtain s where s: "make_packed_strategy (hd (rollout_gpus p)) (last (rollout_gpus p)) n 1 None = Inr s"
    "q' = q\<lparr>packed := AList.update ''rollout'' s (packed q)\<rparr>" by blast
  note k = make_packed_ok [OF s(1)]
  have "n dvd ?len" using k(5) contiguous_facts(2) [OF assms(3)] by simp
  note d = rollout_size_divides [OF assms(4) dp(2-4) this]
  have "map_of (packed q') ''rollout'' = Some (gpu_block (rollout_gpus p) n 1)" by (simp add: s(2) k(1) gpu_block_def update_conv')
  moreover have "rollout_dp_size cfg q' = Inr dp" "rollout_gpus q' = rollout_gpus p"
    using dp(1) assms(5) by (simp_all add: s(2) rollout_dp_size_def)
  ultimately show "rollout_placed cfg q'" unfolding rollout_placed_def using d assms(3)
    by (intro conjI exI [of _ dp] exI [of _ n]) simp_all
  show "\<exists>pk. q' = q\<lparr>packed := pk\<rparr>" using s(2) by blast
qed

lemma rollout_placed_optional:
  assumes "rollout_placed cfg p" "place_optional name gs p = Inr p'" "name \<noteq> ''rollout''"
  shows "rollout_placed cfg p'" "\<exists>pk. p' = p\<lparr>packed := pk\<rparr>"
  using assms place_optional_ok [OF assms(2)] by (auto simp: rollout_placed_def rollout_dp_size_def)

lemma disaggregated_ok:
  assumes "generate_disaggregated cfg p = Inr p'" "contiguous (rollout_gpus p)" "0 < rollout_tp_size cfg * rollout_pp_size cfg"
  shows "rollout_placed cfg p' \<and> (\<exists>pk. p' = p\<lparr>packed := pk\<rparr>)"
proof -
  from assms(1) obtain n p1 p2 p3 p4 p5 where g: "gpus_per_rollout_dp cfg p = Inr n"
    "place_packed ''rollout'' (rollout_gpus p) n 1 p = Inr p1"
    "place_optional (if critic_inference_gpus p = None then ''inference'' else ''actor_inference'') (inference_gpus p) p1 = Inr p2"
    "place_optional ''critic_inference'' (critic_inference_gpus p) p2 = Inr p3"
    "place_optional ''actor'' (Some (actor_gpus p)) p3 = Inr p4" "place_optional ''reward'' (reward_choice p) p4 = Inr p5"
    "place_optional ''critic'' (critic_gpus p) p5 = Inr p'"
    by (auto simp: generate_disaggregated_def res_elims place_optional_def)
  note r1 = place_rollout_ok [OF g(1,2) assms(2,3) refl]
  note r2 = rollout_placed_optional [OF r1(1) g(3)]
  have r2: "rollout_placed cfg p2" "\<exists>pk. p2 = p1\<lparr>packed := pk\<rparr>" using r2 by simp_all
  note r3 = rollout_placed_optional [OF r2(1) g(4), simplified]
  note r4 = rollout_placed_optional [OF r3(1) g(5), simplified]
  note r5 = rollout_placed_optional [OF r4(1) g(6), simplified]
  note r6 = rollout_placed_optional [OF r5(1) g(7), simplified]
  show ?thesis using r1(2) r2(2) r3(2) r4(2) r5(2) r6 by auto
qed

lemma auto_ok:
  assumes "generate_auto cfg p = Inr p'" "contiguous (actor_gpus p)" "contiguous (rollout_gpus p)"
    and "0 < rollout_tp_size cfg * rollout_pp_size cfg" "hd (actor_gpus p) = 0" "last (actor_gpus p) = hd (rollout_gpus p) - 1"
  shows "rollout_placed cfg p'"
    "\<exists>pk. p' = p\<lparr>rollout_gpus := (if pre_process_policy cfg = Some True then [0..last (rollout_gpus p)] else rollout_gpus p), packed := pk\<rparr>"
    "critic_gpus p = None" "0 < num_gpus p"
proof -
  let ?gs = "if pre_process_policy cfg = Some True then [0..last (rollout_gpus p)] else rollout_gpus p"
  have "py_range (1 + last (actor_gpus p)) @ rollout_gpus p = [0..last (rollout_gpus p)]"
  proof -
    have e: "rollout_gpus p = [hd (rollout_gpus p)..last (rollout_gpus p)]" using assms(3) by (simp add: contiguous_def)
    have "0 \<le> last (actor_gpus p)" using contiguous_facts(3) [OF assms(2)] assms(5) by simp
    then show ?thesis using contiguous_facts(3) [OF assms(3)] assms(6)
      by (subst e) (simp add: py_range_def upto_split1 [of 0 "hd (rollout_gpus p)" "last (rollout_gpus p)"])
  qed
  note gs = this
  from assms(1) obtain s p1 q n p2 p3 where g: "make_packed_strategy 0 (num_gpus p - 1) 1 1 None = Inr s"
    "p1 = p\<lparr>packed := AList.update ''actor'' s (packed p)\<rparr>" "critic_gpus p = None" "extend_rollout cfg p1 = Inr q"
    and h: "gpus_per_rollout_dp cfg q = Inr n" "place_packed ''rollout'' (rollout_gpus q) n 1 q = Inr p2"
    "place_optional ''inference'' (inference_gpus q) p2 = Inr p3" "place_optional ''reward'' (reward_choice q) p3 = Inr p'"
    by (auto simp: generate_auto_def rbind_Inr_iff Let_def)
  have "q = p1\<lparr>rollout_gpus := ?gs\<rparr>"
    using g(4) gs by (cases "pre_process_policy cfg = Some True") (auto simp: extend_rollout_def g(2) rbind_Inr_iff)
  note g = g(1-3) this h
  have c: "contiguous (rollout_gpus q)"
    using assms(3) contiguous_facts(3) [OF assms(2)] contiguous_facts(3) [OF assms(3)] assms(5,6)
    by (simp add: g(4) g(2))
  note r1 = place_rollout_ok [OF g(5,6) c assms(4) refl]
  note r2 = rollout_placed_optional [OF r1(1) g(7), simplified]
  note r3 = rollout_placed_optional [OF r2(1) g(8), simplified]
  show "rollout_placed cfg p'" by (rule r3)
  show "\<exists>pk. p' = p\<lparr>rollout_gpus := ?gs, packed := pk\<rparr>" using r1(2) r2(2) r3(2) by (auto simp: g(4) g(2))
  show "critic_gpus p = None" by (rule g(3))
  show "0 < num_gpus p" using make_packed_ok(3) [OF g(1)] by simp
qed

lemma accepted:
  assumes "model_parallel_placement multi cfg st n = Inr p"
  shows "\<exists>q md. read_gpus st n = Inr q \<and> choose_mode multi cfg q = Inr md
    \<and> generate_placements cfg (q\<lparr>mode := md, sync_mode := placement_mode_to_rollout_sync_mode md\<rparr>) = Inr p"
  using assms by (auto simp: model_parallel_placement_def rbind_Inr_iff Let_def)

lemma generate_mode:
  assumes "generate_placements cfg q = Inr p"
  shows "mode p = mode q" "sync_mode p = sync_mode q"
  using assms
  by (auto simp: generate_placements_def generate_collocated_def generate_disaggregated_def generate_auto_def extend_rollout_def
      rbind_Inr_iff Let_def dest!: place_packed_ok place_optional_ok split: placement_mode.splits if_splits)

lemma choose_auto:
  assumes "choose_mode multi cfg q = Inr AUTO"
  shows "is_disaggregated q" "hd (actor_gpus q) = 0" "last (actor_gpus q) = hd (rollout_gpus q) - 1"
    "inference_gpus q = None \<Longrightarrow> last (rollout_gpus q) = num_gpus q - 1"
    "inference_gpus q = Some gs \<Longrightarrow> last (rollout_gpus q) = hd gs - 1 \<and> last gs = num_gpus q - 1"
  using assms by (auto simp: choose_mode_def is_auto_def rbind_Inr_iff split: if_splits option.splits)

text \<open>The managers of the scheduler.\<close>

fun role_name :: "role \<Rightarrow> string" where
  "role_name ROLLOUT = ''rollout''"
| "role_name ACTOR = ''actor''"
| "role_name INFERENCE = ''inference''"

lemma role_of_Inr: "role_of name = Inr r \<longleftrightarrow> name = role_name r"
  by (cases r) (auto simp: role_of_def)

lemma role_name_not_reward [simp]: "role_name r \<noteq> ''reward''" "''reward'' \<noteq> role_name r"
  by (cases r; auto)+

lemma role_name_inj [simp]: "role_name r = role_name r' \<longleftrightarrow> r = r'"
  by (cases r; cases r') auto

lemma add_manager_Inr:
  "add_manager cfg p ms name = Inr ms' \<longleftrightarrow>
     (name = ''reward'' \<and> ms' = ms
      \<or> (\<exists>r dp n m. name = role_name r \<and> sizes_of cfg p r = Inr (dp, n) \<and> make_manager dp n = Inr m \<and> ms' = ms(r \<mapsto> m)))"
  by (auto simp: add_manager_def rbind_Inr_iff role_of_Inr)

lemma managers_built:
  assumes "rfold (add_manager cfg p) ms names = Inr ms'"
  shows "set names \<subseteq> insert ''reward'' (range role_name)"
    "ms' r = Some m \<Longrightarrow> ms r = Some m \<or> (\<exists>dp n. sizes_of cfg p r = Inr (dp, n) \<and> make_manager dp n = Inr m)"
    "ms' r = None \<longleftrightarrow> ms r = None \<and> role_name r \<notin> set names"
proof -
  have "set names \<subseteq> insert ''reward'' (range role_name)
      \<and> (\<forall>r m. ms' r = Some m \<longrightarrow> ms r = Some m \<or> (\<exists>dp n. sizes_of cfg p r = Inr (dp, n) \<and> make_manager dp n = Inr m))
      \<and> (\<forall>r. ms' r = None \<longleftrightarrow> ms r = None \<and> role_name r \<notin> set names)"
    using assms
  proof (induction names arbitrary: ms)
    case (Cons name names)
    from Cons.prems obtain ms1 where ms1: "add_manager cfg p ms name = Inr ms1" "rfold (add_manager cfg p) ms1 names = Inr ms'"
      by (auto simp: rbind_Inr_iff)
    note ih = Cons.IH [OF ms1(2)]
    from ms1(1) consider "name = ''reward''" "ms1 = ms"
      | r dp n m where "name = role_name r" "sizes_of cfg p r = Inr (dp, n)" "make_manager dp n = Inr m" "ms1 = ms(r \<mapsto> m)"
      unfolding add_manager_Inr by blast
    then show ?case
    proof cases
      case 1
      with ih show ?thesis by auto
    next
      case 2
      have "ms r' = Some m' \<or> (\<exists>dp n. sizes_of cfg p r' = Inr (dp, n) \<and> make_manager dp n = Inr m')" if "ms' r' = Some m'" for r' m'
        using ih that 2 by (cases "r' = r") force+
      moreover have "ms' r' = None \<longleftrightarrow> ms r' = None \<and> role_name r' \<notin> set (name # names)" for r'
        using ih 2 by (cases "r' = r") auto
      moreover have "set (name # names) \<subseteq> insert ''reward'' (range role_name)" using ih 2(1) by simp
      ultimately show ?thesis by blast
    qed
  qed simp
  then show "set names \<subseteq> insert ''reward'' (range role_name)"
    "ms' r = Some m \<Longrightarrow> ms r = Some m \<or> (\<exists>dp n. sizes_of cfg p r = Inr (dp, n) \<and> make_manager dp n = Inr m)"
    "ms' r = None \<longleftrightarrow> ms r = None \<and> role_name r \<notin> set names" by blast+
qed

lemma make_manager_fits:
  assumes "make_manager dp n = Inr m" "dp * k = n" "0 < dp" "0 < k"
  shows "manager_fits m" "model_parallel_size m = k" "init_gpu_num m = n" "init_instance_num m = dp"
    "current_gpu_num m = n" "current_instance_offset m = 0"
proof -
  from assms have "n div dp = k" by auto
  with assms show "manager_fits m" "model_parallel_size m = k" "init_gpu_num m = n" "init_instance_num m = dp"
    "current_gpu_num m = n" "current_instance_offset m = 0"
    by (auto simp: make_manager_def manager_fits_def)
qed

text \<open>
  What the training engine and the choice of the sizes have to satisfy: the model
  parallel sizes divide the numbers of GPUs (Megatron refuses others), the batch allows
  the actor's first size and a size that uses all GPUs, and with the policy of
  preparation the rollout instances divide the actor's GPUs.
\<close>

definition actor_model_parallel :: "mp_config \<Rightarrow> int" where
  "actor_model_parallel cfg = actor_tp_size cfg * actor_cp_size cfg * actor_pp_size cfg"

definition sizes_divide :: "mp_config \<Rightarrow> mp_placement \<Rightarrow> train_config \<Rightarrow> bool" where
  "sizes_divide cfg p t \<longleftrightarrow>
     (let grp = train_group_size t; total = grp * train_batch_size t; batch = total div train_minibatches t;
          mp = actor_model_parallel cfg; rmp = rollout_tp_size cfg * rollout_pp_size cfg;
          imp = inference_tp_size cfg * inference_pp_size cfg in
      0 < grp \<and> 0 < train_minibatches t \<and> 0 < train_running_requests t
      \<and> 0 < mp \<and> mp dvd int (length (actor_gpus p)) \<and> mp dvd num_gpus p
      \<and> int (length (actor_gpus p)) div mp * grp dvd batch \<and> num_gpus p div mp * grp dvd batch
      \<and> 0 < rmp
      \<and> (pre_process_policy cfg = Some True \<longrightarrow> rmp dvd int (length (actor_gpus p)) \<and> rmp dvd int (length (rollout_gpus p)) \<and> 2 \<le> total)
      \<and> (\<forall>gs. inference_gpus p = Some gs \<longrightarrow> 0 < imp \<and> imp dvd int (length gs)))"

lemma valid_sizes_facts:
  assumes "get_valid_dp_sizes grp mb batch gpu_total mp = Inr sizes" "0 < grp" "0 < mb" "0 < mp"
  shows "sorted_wrt (<) sizes" "d \<in> set sizes \<longleftrightarrow> 1 \<le> d \<and> d \<le> gpu_total div mp \<and> d * grp dvd (batch * grp) div mb"
proof -
  have "mb dvd batch * grp"
    using assms(1,3) by (auto simp: get_valid_dp_sizes_def split: if_splits)
  then have s: "sizes = filter (\<lambda>d. d * grp dvd (batch * grp) div mb) [1..gpu_total div mp]"
    using valid_dp_sizes_eq [of mb mp grp batch gpu_total] assms by simp
  show "sorted_wrt (<) sizes" unfolding s by (intro sorted_wrt_filter) (simp add: strict_sorted_iff)
  show "d \<in> set sizes \<longleftrightarrow> 1 \<le> d \<and> d \<le> gpu_total div mp \<and> d * grp dvd (batch * grp) div mb" unfolding s by auto
qed

lemma last_of_sorted:
  assumes "sorted_wrt (<) (xs :: int list)" "m \<in> set xs" "\<And>x. x \<in> set xs \<Longrightarrow> x \<le> m"
  shows "last xs = m"
proof -
  from assms(2) obtain ys y where ys: "xs = ys @ [y]" by (metis append_butlast_last_id empty_iff empty_set)
  with assms have "y \<le> m" "m \<le> y" by (auto simp: sorted_wrt_append)
  with ys show ?thesis by simp
qed

lemma component_gpus_None:
  "component_gpus st name = Inr gs \<Longrightarrow> gs = None \<longleftrightarrow> name \<notin> set (map fst (component_rank_map st))"
  by (auto simp: component_gpus_def rbind_Inr_iff split: if_splits)

lemma read_gpus_inference:
  assumes "read_gpus st n = Inr p" "''actor_inference'' \<notin> set (map fst (component_rank_map st))"
  shows "inference_gpus p = None \<longleftrightarrow> ''inference'' \<notin> set (map fst (component_rank_map st))"
proof -
  have "component_gpus st ''actor_inference'' = Inr None" using assms(2) by (simp add: component_gpus_def)
  from component_gpus_None [OF read_gpus_ok(9) [OF assms(1) this]] show ?thesis .
qed

lemma read_gpus_num: "read_gpus st n = Inr p \<Longrightarrow> num_gpus p = n"
  by (rule read_gpus_ok(6))

text \<open>
  What is known of a placement accepted in the automatic mode: one component follows
  the other, up to the last GPU.
\<close>

definition in_order :: "mp_config \<Rightarrow> mp_placement \<Rightarrow> bool" where
  "in_order cfg p \<longleftrightarrow> contiguous (actor_gpus p) \<and> hd (actor_gpus p) = 0
     \<and> hd (rollout_gpus p) = (if pre_process_policy cfg = Some True then 0 else last (actor_gpus p) + 1)
     \<and> last (actor_gpus p) < last (rollout_gpus p)
     \<and> (case inference_gpus p of None \<Rightarrow> last (rollout_gpus p) = num_gpus p - 1
        | Some gs \<Rightarrow> contiguous gs \<and> hd gs = last (rollout_gpus p) + 1 \<and> last gs = num_gpus p - 1)"

lemma auto_in_order:
  assumes "model_parallel_placement multi cfg st n = Inr p" "mode p = AUTO" "0 < rollout_tp_size cfg * rollout_pp_size cfg"
  shows "in_order cfg p \<and> rollout_placed cfg p \<and> num_gpus p = n \<and> critic_gpus p = None
    \<and> (''actor_inference'' \<notin> set (map fst (component_rank_map st)) \<longrightarrow>
        (inference_gpus p = None \<longleftrightarrow> ''inference'' \<notin> set (map fst (component_rank_map st))))"
proof -
  from accepted [OF assms(1)] obtain q md where q: "read_gpus st n = Inr q" "choose_mode multi cfg q = Inr md"
      "generate_placements cfg (q\<lparr>mode := md, sync_mode := placement_mode_to_rollout_sync_mode md\<rparr>) = Inr p" by blast
  have md: "md = AUTO" using generate_mode(1) [OF q(3)] assms(2) by simp
  let ?q = "q\<lparr>mode := AUTO, sync_mode := placement_mode_to_rollout_sync_mode AUTO\<rparr>"
  have g: "generate_auto cfg ?q = Inr p" using q(3) by (simp add: md generate_placements_def)
  note c = choose_auto [OF q(2) [unfolded md]] and r = read_gpus_ok [OF q(1)]
  have a: "contiguous (actor_gpus ?q)" "contiguous (rollout_gpus ?q)" "hd (actor_gpus ?q) = 0" "last (actor_gpus ?q) = hd (rollout_gpus ?q) - 1"
    using r(1,2) c(2,3) by simp_all
  note k = auto_ok [OF g a(1,2) assms(3) a(3,4)]
  from k(2) obtain pk where p: "p = ?q\<lparr>rollout_gpus := (if pre_process_policy cfg = Some True then [0..last (rollout_gpus ?q)] else rollout_gpus ?q), packed := pk\<rparr>"
    by blast
  have le: "hd (rollout_gpus q) \<le> last (rollout_gpus q)" "0 \<le> last (actor_gpus q)" using contiguous_facts(3) r(1,2) c(2) by fastforce+
  then have u: "hd [0..last (rollout_gpus q)] = 0" "last [0..last (rollout_gpus q)] = last (rollout_gpus q)"
    using c(3) by simp_all
  have "in_order cfg p"
    using r(1,3) c(2-5) le u by (auto simp: in_order_def p split: option.split)
  moreover have "critic_gpus p = None" using k(3) by (simp add: p)
  ultimately show ?thesis using k(1) r(6) read_gpus_inference [OF q(1)] by (simp add: p)
qed

text \<open>The GPUs of the components in order, as ranges and as counts.\<close>

lemma in_order_facts:
  assumes "in_order cfg p" "rollout_placed cfg p"
  defines "a \<equiv> int (length (actor_gpus p))" and "r \<equiv> int (length (rollout_gpus p))" and "i \<equiv> num_of (inference_gpus p)"
    and "base \<equiv> if pre_process_policy cfg = Some True then 0 else int (length (actor_gpus p))"
  shows "set (actor_gpus p) = {0..<a}" "set (rollout_gpus p) = {base..<base + r}"
    "(case inference_gpus p of None \<Rightarrow> {} | Some gs \<Rightarrow> set gs) = {num_gpus p - i..<num_gpus p}"
    "base + r + i = num_gpus p" "0 < a" "0 < r" "pre_process_policy cfg = Some True \<Longrightarrow> a < r" "0 \<le> i"
    "i = 0 \<longleftrightarrow> inference_gpus p = None"
proof -
  have A: "contiguous (actor_gpus p)" "hd (actor_gpus p) = 0" and R: "contiguous (rollout_gpus p)"
    using assms(1,2) by (auto simp: in_order_def rollout_placed_def)
  note A = A contiguous_facts [OF A(1)] and R = R contiguous_facts [OF R]
  have a: "a = last (actor_gpus p) + 1" and r: "r = last (rollout_gpus p) - hd (rollout_gpus p) + 1"
    using A(2,4) R(3) by (simp_all add: a_def r_def)
  have b: "hd (rollout_gpus p) = base" using assms(1) a by (auto simp: in_order_def base_def a_def)
  show "set (actor_gpus p) = {0..<a}" "set (rollout_gpus p) = {base..<base + r}"
    using A(2,3) R(2) a r b by auto
  show "0 < a" "0 < r" using A(2,5) R(4) a r by simp_all
  show "pre_process_policy cfg = Some True \<Longrightarrow> a < r" using assms(1) a r by (auto simp: in_order_def)
  have I: "(case inference_gpus p of None \<Rightarrow> {} | Some gs \<Rightarrow> set gs) = {num_gpus p - i..<num_gpus p}
      \<and> base + r + i = num_gpus p \<and> 0 \<le> i \<and> (i = 0 \<longleftrightarrow> inference_gpus p = None)"
  proof (cases "inference_gpus p")
    case None
    then show ?thesis using assms(1) r b by (simp add: i_def num_of_def in_order_def)
  next
    case (Some gs)
    then have g: "contiguous gs" "hd gs = last (rollout_gpus p) + 1" "last gs = num_gpus p - 1"
      using assms(1) by (simp_all add: in_order_def)
    note f = contiguous_facts [OF g(1)]
    have i: "i = last gs - hd gs + 1" using f(2) Some by (simp add: i_def num_of_def)
    have "set gs = {num_gpus p - i..<num_gpus p}" unfolding f(1) i using g(3) by auto
    moreover have "base + r + i = num_gpus p" "0 < i" using f(3) g(2,3) i r b by linarith+
    ultimately show ?thesis using Some by simp
  qed
  then show "(case inference_gpus p of None \<Rightarrow> {} | Some gs \<Rightarrow> set gs) = {num_gpus p - i..<num_gpus p}"
    "base + r + i = num_gpus p" "0 \<le> i" "i = 0 \<longleftrightarrow> inference_gpus p = None" by blast+
qed

text \<open>A manager whose model parallel size divides its GPUs has whole instances.\<close>

lemma divided_manager:
  assumes "0 < mp" "mp dvd n" "0 < n" "make_manager (n div mp) n = Inr m"
  shows "manager_fits m" "model_parallel_size m = mp" "init_gpu_num m = n" "init_instance_num m = n div mp"
    "current_gpu_num m = n" "current_instance_offset m = 0"
proof -
  have k: "n div mp * mp = n" "0 < n div mp" using assms by (auto simp: pos_imp_zdiv_pos_iff zdvd_imp_le)
  show "manager_fits m" "model_parallel_size m = mp" "init_gpu_num m = n" "init_instance_num m = n div mp"
    "current_gpu_num m = n" "current_instance_offset m = 0"
    using make_manager_fits [OF assms(4) k assms(1)] by blast+
qed

lemma rollout_manager:
  assumes "rollout_placed cfg p" "0 < rollout_tp_size cfg * rollout_pp_size cfg"
    and "sizes_of cfg p ROLLOUT = Inr (dp, n)" "make_manager dp n = Inr m"
  shows "manager_fits m" "init_gpu_num m = int (length (rollout_gpus p))" "current_instance_offset m = 0"
    "rollout_tp_size cfg * rollout_pp_size cfg dvd int (length (rollout_gpus p))
      \<Longrightarrow> model_parallel_size m = rollout_tp_size cfg * rollout_pp_size cfg"
proof -
  let ?len = "int (length (rollout_gpus p))" and ?m = "rollout_tp_size cfg * rollout_pp_size cfg"
  have "rollout_dp_size cfg p = Inr dp" "n = ?len" using assms(3) by (simp_all add: sizes_of_def rbind_Inr_iff)
  moreover from this(1) obtain k where "0 < dp" "0 < k" "dp * k = ?len" using assms(1) unfolding rollout_placed_def by auto
  ultimately have k: "rollout_dp_size cfg p = Inr dp" "0 < dp" "0 < k" "dp * k = ?len" "n = ?len" by blast+
  note f = make_manager_fits [OF assms(4) _ k(2,3), unfolded k(5), OF k(4)]
  show "manager_fits m" "init_gpu_num m = ?len" "current_instance_offset m = 0" using f by simp_all
  assume d: "?m dvd ?len"
  have "dp = ?len div ?m" using k(1) assms(2) by (auto simp: rollout_dp_size_def py_div_def split: if_splits)
  then have "dp * ?m = ?len" using d by simp
  then have "k = ?m" using k(2,4) by (metis mult_cancel_left order_less_irrefl)
  then show "model_parallel_size m = ?m" using f(2) by simp
qed

text \<open>
  C19. The placement serves the dynamic scheduler: when the constructor accepts a
  configuration in the automatic mode, the sizes divide, and the option
  \<open>use_pre_process_policy\<close> is given in the configuration (true or false; when it is
  missing the placement and the scheduler take different defaults and GPUs are lost,
  \<open>default_policies_lose_gpus\<close> in \<open>Dyn_Scheduler\<close>), the managers that are
  built from it satisfy what the scheduler needs (every model parallel size is positive
  and fits, the sizes of the actor are valid up to all GPUs, all GPUs of the cluster
  are counted), and the first GPU sets of the scheduler are exactly the GPU lists of
  the placement.
\<close>

theorem auto_placement_built:
  assumes "model_parallel_placement False cfg st n = Inr p" "mode p = AUTO" "sizes_divide cfg p t" "pre_process_policy cfg \<noteq> None"
    and "map fst (component_rank_map st) = components st" "make_scheduler cfg p (components st) t = Inr (sc, s)"
  shows "auto_placement sc s \<and> gpu_set sc s ACTOR = set (actor_gpus p) \<and> gpu_set sc s ROLLOUT = set (rollout_gpus p)
    \<and> gpu_set sc s INFERENCE = (case inference_gpus p of None \<Rightarrow> {} | Some gs \<Rightarrow> set gs)"
proof -
  let ?pre = "pre_process_policy cfg = Some True" and ?rmp = "rollout_tp_size cfg * rollout_pp_size cfg"
    and ?amp = "actor_model_parallel cfg" and ?imp = "inference_tp_size cfg * inference_pp_size cfg"
    and ?a = "int (length (actor_gpus p))" and ?r = "int (length (rollout_gpus p))"
    and ?B = "train_batch_size t * train_group_size t div train_minibatches t"
  have d: "0 < train_group_size t" "0 < train_minibatches t" "0 < train_running_requests t" "0 < ?amp" "?amp dvd ?a" "?amp dvd num_gpus p"
    "?a div ?amp * train_group_size t dvd ?B" "num_gpus p div ?amp * train_group_size t dvd ?B" "0 < ?rmp"
    "?pre \<Longrightarrow> ?rmp dvd ?a \<and> ?rmp dvd ?r \<and> 2 \<le> train_group_size t * train_batch_size t"
    "inference_gpus p = Some gs \<Longrightarrow> 0 < ?imp \<and> ?imp dvd int (length gs)" for gs
    using assms(3) by (auto simp: sizes_divide_def Let_def mult.commute)
  note o = auto_in_order [OF assms(1,2) d(9)]
  have "in_order cfg p" "rollout_placed cfg p" using o by blast+
  note f = in_order_facts [OF this]
  from assms(6) obtain ms ma sizes where M: "rfold (add_manager cfg p) Map.empty (components st) = Inr ms" "ms ACTOR = Some ma"
      "get_valid_dp_sizes (train_group_size t) (train_minibatches t) (train_batch_size t) (num_gpus p) (model_parallel_size ma) = Inr sizes"
      "''rollout'' \<in> set (components st)"
    and sc: "sc = \<lparr>n_minibatches = train_minibatches t, use_pre_process_policy = pre_process_policy cfg \<noteq> Some False,
                 use_wait_before_last_iter_policy = train_wait_policy t \<noteq> Some False,
                 rollout_total_tasks = train_group_size t * train_batch_size t,
                 max_running_requests = train_running_requests t, cluster_num_gpus = num_gpus p,
                 actor_world_size = ?a, actor_valid_dp_sizes = sizes\<rparr>"
    and s: "s = \<lparr>managers = ms, reports = [], total_tasks = 0, running_tasks = 0, available_gpu_num = 0,
                instance_nums = (\<lambda>r. map_option current_instance_num (ms r)), sent = []\<rparr>"
    by (auto simp: make_scheduler_def rbind_Inr_iff split: if_splits option.splits)
  have pre: "use_pre_process_policy sc = ?pre" using assms(4) by (cases "pre_process_policy cfg") (auto simp: sc)
  note b = managers_built [OF M(1)]
  from b(2) [of ROLLOUT] b(3) [of ROLLOUT] M(4) obtain mr dp n' where mr: "ms ROLLOUT = Some mr"
    "sizes_of cfg p ROLLOUT = Inr (dp, n')" "make_manager dp n' = Inr mr" by fastforce
  note mr = mr(1) rollout_manager [OF \<open>rollout_placed cfg p\<close> d(9) mr(2,3)]
  from b(2) [OF M(2)] d(4) have "make_manager (?a div ?amp) ?a = Inr ma"
    by (auto simp: sizes_of_def actor_dp_size_def actor_model_parallel_def rbind_Inr_iff py_div_def split: if_splits)
  note ma = divided_manager [OF d(4,5) f(5) this]
  have mi: "manager_fits m \<and> init_gpu_num m = num_of (inference_gpus p) \<and> current_gpu_num m = num_of (inference_gpus p)"
    if m: "ms INFERENCE = Some m" and gs: "inference_gpus p = Some gs" for m gs
  proof -
    have n: "num_of (inference_gpus p) = int (length gs)" "0 < int (length gs)" using f(8,9) gs by (auto simp: num_of_def)
    have "make_manager (int (length gs) div ?imp) (int (length gs)) = Inr m"
      using b(2) [OF m] d(11) [OF gs] n by (auto simp: sizes_of_def inference_dp_size_def rbind_Inr_iff py_div_def split: if_splits)
    from divided_manager [OF _ _ n(2) this] d(11) [OF gs] show ?thesis by (simp add: n)
  qed
  have inf: "ms INFERENCE = None \<longleftrightarrow> inference_gpus p = None"
  proof -
    have "''actor_inference'' \<notin> range role_name"
    proof
      assume "''actor_inference'' \<in> range role_name"
      then obtain r where "''actor_inference'' = role_name r" by blast
      then show False by (cases r) simp_all
    qed
    then have "''actor_inference'' \<notin> set (components st)" using b(1) by auto
    then show ?thesis using o b(3) [of INFERENCE] by (simp add: assms(5))
  qed
  have fits: "manager_fits m" if "ms r = Some m" for r m
    using that mr M(2) ma(1) mi inf by (cases r) auto
  have inf_n: "init_gpus s INFERENCE = num_of (inference_gpus p)"
    using inf mi by (cases "inference_gpus p") (auto simp: init_gpus_def s num_of_def)
  note v = valid_sizes_facts [OF M(3) d(1,2)]
  have mp: "model_parallel_size ma = ?amp" by (rule ma(2))
  have le: "?a \<le> num_gpus p" using f(4,6,7,8) by (cases ?pre) auto
  have sz: "sizes_ok sc ma"
  proof -
    have pos: "0 < model_parallel_size ma" using d(4) mp by simp
    have "0 < num_gpus p" using le f(5) by linarith
    then have "?amp \<le> num_gpus p" by (rule zdvd_imp_le [OF d(6)])
    then have one: "1 \<le> num_gpus p div ?amp" using d(4) by (simp add: int_one_le_iff_zero_less pos_imp_zdiv_pos_iff)
    have "?a div ?amp \<in> set sizes"
      using v(2) [OF pos] d(4,5,7) le f(5) by (auto simp: mp zdiv_mono1 pos_imp_zdiv_pos_iff zdvd_imp_le int_one_le_iff_zero_less)
    moreover have "num_gpus p div ?amp \<in> set sizes" using v(2) [OF pos] d(8) one by (simp add: mp)
    then have "last sizes = num_gpus p div ?amp" using v [OF pos] by (intro last_of_sorted) (simp_all add: mp)
    ultimately show ?thesis using v(1) [OF pos] d(6) ma(4) by (simp add: sizes_ok_def sc mp)
  qed
  have "auto_placement sc s"
    unfolding auto_placement_def
    using mr d(2,3) d(10) f(4,7) inf_n sz ma(3) M(2) fits by (auto simp: s pre rollout_base_def init_gpus_def) (auto simp: sc)
  moreover have "gpu_set sc s ACTOR = set (actor_gpus p)" using M(2) ma(5) f(1) by (simp add: gpu_set_def s)
  moreover have "gpu_set sc s ROLLOUT = set (rollout_gpus p)"
    using mr(1,3,4) f(2) by (simp add: gpu_set_def s rollout_base_def pre) (simp add: sc)
  moreover have "gpu_set sc s INFERENCE = (case inference_gpus p of None \<Rightarrow> {} | Some gs \<Rightarrow> set gs)"
    using inf mi f(3,9) by (cases "inference_gpus p"; cases "ms INFERENCE") (auto simp: gpu_set_def s sc)
  ultimately show ?thesis by blast
qed

section \<open>A concrete placement\<close>

text \<open>Six GPUs: two for the actor, two for the rollout, which begins on four, and two for the inference.\<close>

definition six_config :: mp_config where
  "six_config = \<lparr>auto_scheduler = True, pre_process_policy = Some True, recompute_logprobs = True,
     actor_tp_size = 1, actor_cp_size = 1, actor_pp_size = 1, rollout_tp_size = 1, rollout_pp_size = 1,
     inference_section = Some (Some 1, Some 1), critic_tp_size = 1, critic_cp_size = 1, critic_pp_size = 1, critic_inference_tp = None, critic_inference_pp = None\<rparr>"

definition six_state :: component_state where
  "six_state = \<lparr>placements = [], components = [''actor'', ''rollout'', ''inference'', ''reward''], component_world_size = [],
     component_rank_map = [(''actor'', [([0, 1], [0, 1])]), (''rollout'', [([2, 3], [0, 1])]),
       (''inference'', [([4, 5], [0, 1])]), (''reward'', [([0], [0])])]\<rparr>"

definition six_placement :: mp_placement where
  "six_placement = \<lparr>actor_gpus = [0, 1], rollout_gpus = [0, 1, 2, 3], inference_gpus = Some [4, 5], critic_inference_gpus = None,
     reward_gpus = [0], critic_gpus = None, num_gpus = 6, mode = AUTO, sync_mode = SYNC_DISAGGREGATED,
     packed = [(''actor'', gpu_block [0..5] 1 1), (''rollout'', gpu_block [0, 1, 2, 3] 1 1), (''inference'', gpu_block [4, 5] 1 1),
       (''reward'', gpu_block [0] 1 1)]\<rparr>"

definition six_training :: train_config where
  "six_training = \<lparr>train_group_size = 2, train_minibatches = 1, train_batch_size = 6, train_running_requests = 8, train_wait_policy = None\<rparr>"

lemma six_accepted: "model_parallel_placement False six_config six_state 6 = Inr six_placement"
  by code_simp

theorem auto_placement_built_witness:
  "case make_scheduler six_config six_placement (components six_state) six_training of
     Inr (sc, s) \<Rightarrow> auto_placement sc s \<and> gpu_set sc s ROLLOUT = {0, 1, 2, 3} | Inl e \<Rightarrow> False"
proof -
  have "case make_scheduler six_config six_placement (components six_state) six_training of Inr y \<Rightarrow> True | Inl e \<Rightarrow> False"
    by code_simp
  then obtain sc s where r: "make_scheduler six_config six_placement (components six_state) six_training = Inr (sc, s)"
    by (auto split: sum.splits)
  have "mode six_placement = AUTO" "pre_process_policy six_config \<noteq> None" "map fst (component_rank_map six_state) = components six_state"
    "sizes_divide six_config six_placement six_training"
    by (simp_all add: six_placement_def six_config_def six_state_def six_training_def sizes_divide_def actor_model_parallel_def
        inference_tp_size_def inference_pp_size_def)
  from auto_placement_built [OF six_accepted this(1,4,2,3) r] show ?thesis unfolding r by (simp add: six_placement_def)
qed

section \<open>Separate agents\<close>

lemma coverage_disjoint:
  assumes "rfold (\<lambda>used (name, m).
         if name \<in> set shared_names then Inr used
         else if used \<inter> set (concat (map fst m)) \<noteq> {} then Inl ValueError
         else Inr (used \<union> set (concat (map fst m)))) used xs = Inr used'"
  shows "sorted_wrt (\<lambda>x y. fst x \<in> set shared_names \<or> fst y \<in> set shared_names
      \<or> set (concat (map fst (snd x))) \<inter> set (concat (map fst (snd y))) = {}) (xs :: (string \<times> rank_map) list)
    \<and> (\<forall>y\<in>set xs. fst y \<in> set shared_names \<or> used \<inter> set (concat (map fst (snd y))) = {})"
  using assms
proof (induction xs arbitrary: used)
  case (Cons x xs)
  obtain name m where x: "x = (name, m)" by (cases x)
  show ?case
  proof (cases "name \<in> set shared_names")
    case True
    then show ?thesis using Cons.IH [of used] Cons.prems by (simp add: x)
  next
    case False
    then have d: "used \<inter> set (concat (map fst m)) = {}" using Cons.prems by (auto simp: x split: if_splits)
    with False Cons.prems have "rfold (\<lambda>used (name, m).
         if name \<in> set shared_names then Inr used
         else if used \<inter> set (concat (map fst m)) \<noteq> {} then Inl ValueError
         else Inr (used \<union> set (concat (map fst m)))) (used \<union> set (concat (map fst m))) xs = Inr used'" by (simp add: x)
    from Cons.IH [OF this] d show ?thesis by (auto simp: x Int_Un_distrib2 simp del: set_concat set_map)
  qed
qed simp

lemma multi_agent_separated:
  assumes "multi_agent_placement cfg st n = Inr p"
  shows "sorted_wrt (\<lambda>x y. fst x \<in> set shared_names \<or> fst y \<in> set shared_names
      \<or> set (concat (map fst (snd x))) \<inter> set (concat (map fst (snd y))) = {}) (component_rank_map st)"
    "name \<in> set (rollout_components st) \<Longrightarrow> component_gpu_set st name \<subseteq> component_gpu_set st ''actor''"
    "component_gpu_set st ''reward'' = component_gpu_set st ''actor''"
proof -
  from assms obtain q used where v: "validate_collocated_placement st = Inr ()"
    "rfold (\<lambda>used (name, m).
         if name \<in> set shared_names then Inr used
         else if used \<inter> set (concat (map fst m)) \<noteq> {} then Inl ValueError
         else Inr (used \<union> set (concat (map fst m)))) {} (component_rank_map st) = Inr used"
    by (auto simp: multi_agent_placement_def validate_resource_coverage_def rbind_Inr_iff)
  show "sorted_wrt (\<lambda>x y. fst x \<in> set shared_names \<or> fst y \<in> set shared_names
      \<or> set (concat (map fst (snd x))) \<inter> set (concat (map fst (snd y))) = {}) (component_rank_map st)"
    using coverage_disjoint [OF v(2)] by blast
  show "name \<in> set (rollout_components st) \<Longrightarrow> component_gpu_set st name \<subseteq> component_gpu_set st ''actor''"
    "component_gpu_set st ''reward'' = component_gpu_set st ''actor''"
    using v(1) by (auto simp: validate_collocated_placement_def Let_def rbind_Inr_iff list_all_iff)
qed

text \<open>
  The disaggregated mode does not compare the GPUs of the inference with those of the
  critic or of the critic's inference.
\<close>

lemma inference_shares_with_critic:
  "is_disaggregated (six_placement\<lparr>rollout_gpus := [2, 3], critic_gpus := Some [4, 5], critic_inference_gpus := Some [0, 1]\<rparr>)"
  by code_simp

end
