(* ===== verification/Rank_Mapper.thy ===== *)
theory Rank_Mapper
  imports Model_Placement
begin

text \<open>
  Which actor rank sends its weights to which rollout rank:
  \<open>RankMapper\<close>, \<open>CollocateRankMapper\<close> and \<open>DisaggRankMapper\<close> of
  \<^verbatim>\<open>rlinf/workers/rollout/utils.py\<close>. A rollout rank is a pair of the number of the
  instance (data parallel rank) and the rank within it (tensor parallel rank). The
  dictionaries are association lists in insertion order.
\<close>

section \<open>The mappers\<close>

definition rank_in_rollout :: "int \<Rightarrow> int \<Rightarrow> int \<Rightarrow> (int \<times> int) res" where
  "rank_in_rollout actor_tp rollout_tp actor_rank =
     rbind (py_div actor_tp rollout_tp) (\<lambda>dp_per_group.
     rbind (py_mod actor_rank actor_tp) (\<lambda>tp_rank.
     rbind (py_div actor_rank actor_tp) (\<lambda>group_id.
     rbind (py_mod tp_rank dp_per_group) (\<lambda>offset.
     rbind (py_div tp_rank dp_per_group) (\<lambda>dst_tp.
     Inr (group_id * dp_per_group + offset, dst_tp))))))"

definition collocate_map :: "int \<Rightarrow> int \<Rightarrow> int \<Rightarrow> (int \<times> int \<times> int) list res" where
  "collocate_map actor_tp actor_world rollout_tp =
     (if actor_tp = 1
      then rmap (\<lambda>r. rbind (py_div r rollout_tp) (\<lambda>d. rbind (py_mod r rollout_tp) (\<lambda>t. Inr (r, d, t)))) (py_range actor_world)
      else rmap (\<lambda>r. rbind (rank_in_rollout actor_tp rollout_tp r) (\<lambda>x. Inr (r, x))) (py_range actor_world))"

definition invert_map :: "('a \<times> 'b) list \<Rightarrow> ('b \<times> 'a) list" where
  "invert_map m = fold (\<lambda>(k, v). AList.update v k) m []"

definition collocate_inverse :: "int \<Rightarrow> int \<Rightarrow> int \<Rightarrow> ((int \<times> int) \<times> int) list res" where
  "collocate_inverse actor_tp actor_world rollout_tp =
     rbind (collocate_map actor_tp actor_world rollout_tp) (\<lambda>m. Inr (invert_map m))"

definition disagg_rank :: "int \<Rightarrow> int \<Rightarrow> int \<Rightarrow> (int \<times> int) res" where
  "disagg_rank actor_tp rollout_tp actor_rank =
     rbind (py_mod actor_tp rollout_tp) (\<lambda>m.
     if m \<noteq> 0 then Inl AssertionError else rank_in_rollout actor_tp rollout_tp actor_rank)"

definition disagg_targets :: "int \<Rightarrow> int \<Rightarrow> int \<Rightarrow> int \<Rightarrow> int \<Rightarrow> (int \<times> (int \<times> int) list) res" where
  "disagg_targets actor_tp actor_world rollout_tp rollout_world a =
     rbind (py_div actor_world actor_tp) (\<lambda>actor_dp.
     rbind (py_div actor_tp rollout_tp) (\<lambda>stride.
     if a > rollout_world then Inr (a, [])
     else rbind (disagg_rank actor_tp rollout_tp a) (\<lambda>(gen_dp, gen_tp).
       if actor_world \<le> rollout_world
       then Inr (a, map (\<lambda>i. (gen_dp + i * stride * actor_dp, gen_tp)) (py_range (rollout_world div actor_world)))
       else if a < rollout_world then Inr (a, [(gen_dp, gen_tp)])
       else Inr (a, []))))"

definition disagg_map :: "int \<Rightarrow> int \<Rightarrow> int \<Rightarrow> int \<Rightarrow> (int \<times> (int \<times> int) list) list res" where
  "disagg_map actor_tp actor_world rollout_tp rollout_world =
     (if \<not> rollout_world \<ge> actor_tp then Inl AssertionError
      else rbind (py_mod rollout_world actor_tp) (\<lambda>m.
        if m \<noteq> 0 then Inl AssertionError
        else rbind (py_div actor_world actor_tp) (\<lambda>_.
             rbind (py_div actor_tp rollout_tp) (\<lambda>_.
             rmap (disagg_targets actor_tp actor_world rollout_tp rollout_world) (py_range actor_world)))))"

definition flatten_targets :: "('a \<times> 'b list) list \<Rightarrow> ('a \<times> 'b) list" where
  "flatten_targets m = concat (map (\<lambda>(a, vs). map (Pair a) vs) m)"

definition disagg_inverse :: "int \<Rightarrow> int \<Rightarrow> int \<Rightarrow> int \<Rightarrow> ((int \<times> int) \<times> int) list res" where
  "disagg_inverse actor_tp actor_world rollout_tp rollout_world =
     rbind (disagg_map actor_tp actor_world rollout_tp rollout_world) (\<lambda>m. Inr (invert_map (flatten_targets m)))"

text \<open>
  What an actor rank sends to: one rollout rank in the collocated mode of the weights,
  a list of them otherwise; and the lookup of a rollout rank for its sender.
\<close>

datatype weight_target = One "int \<times> int" | Many "(int \<times> int) list"

definition actor_targets :: "mp_config \<Rightarrow> mp_placement \<Rightarrow> (int \<times> weight_target) list res" where
  "actor_targets cfg p =
     (case sync_mode p of
        SYNC_COLLOCATED \<Rightarrow>
          rbind (collocate_map (actor_tp_size cfg) (int (length (actor_gpus p))) (rollout_tp_size cfg)) (\<lambda>m.
          Inr (map (\<lambda>(a, v). (a, One v)) m))
      | SYNC_DISAGGREGATED \<Rightarrow>
          rbind (disagg_map (actor_tp_size cfg) (int (length (actor_gpus p))) (rollout_tp_size cfg) (int (length (rollout_gpus p)))) (\<lambda>m.
          Inr (map (\<lambda>(a, vs). (a, Many vs)) m)))"

definition rollout_sources :: "mp_config \<Rightarrow> mp_placement \<Rightarrow> ((int \<times> int) \<times> int) list res" where
  "rollout_sources cfg p =
     (case sync_mode p of
        SYNC_COLLOCATED \<Rightarrow> collocate_inverse (actor_tp_size cfg) (int (length (actor_gpus p))) (rollout_tp_size cfg)
      | SYNC_DISAGGREGATED \<Rightarrow>
          disagg_inverse (actor_tp_size cfg) (int (length (actor_gpus p))) (rollout_tp_size cfg) (int (length (rollout_gpus p))))"

definition actor_weight_rank :: "mp_config \<Rightarrow> mp_placement \<Rightarrow> int \<Rightarrow> int \<Rightarrow> int res" where
  "actor_weight_rank cfg p parent_rank tp_rank =
     rbind (rollout_sources cfg p) (\<lambda>m. case map_of m (parent_rank, tp_rank) of None \<Rightarrow> Inl KeyError | Some a \<Rightarrow> Inr a)"

section \<open>The arithmetic of the ranks\<close>

text \<open>With \<open>A = G * R\<close>: the rank that the mapper computes, and its inverse.\<close>

definition fwd :: "int \<Rightarrow> int \<Rightarrow> int \<Rightarrow> int \<times> int" where
  "fwd G R a = (a div (G * R) * G + a mod (G * R) mod G, a mod (G * R) div G)"

definition bwd :: "int \<Rightarrow> int \<Rightarrow> int \<Rightarrow> int \<Rightarrow> int" where
  "bwd G R d t = d div G * (G * R) + (t * G + d mod G)"

lemma below_block: "0 \<le> t \<Longrightarrow> t < R \<Longrightarrow> 0 \<le> o' \<Longrightarrow> o' < G \<Longrightarrow> t * G + o' < G * (R :: int)"
  using mult_right_mono [of "t + 1" R G] by (simp add: algebra_simps)

lemma quotient_below:
  assumes "0 < (k :: int)"
  shows "x div k < M \<longleftrightarrow> x < M * k"
proof -
  have "M \<le> x div k \<longleftrightarrow> M * k \<le> x"
  proof
    assume "M \<le> x div k"
    then have "M * k \<le> x div k * k" using assms by simp
    then show "M * k \<le> x" using assms by (smt (verit) div_mult_mod_eq pos_mod_sign)
  next
    assume "M * k \<le> x"
    from zdiv_mono1 [OF this assms] show "M \<le> x div k" using assms by simp
  qed
  then show ?thesis by auto
qed

lemma fwd_bwd:
  assumes "0 < G" "0 < R" "0 \<le> t" "t < R"
  shows "fwd G R (bwd G R d t) = (d, t)"
proof -
  have o': "0 \<le> d mod G" "d mod G < G" using assms(1) by simp_all
  have b: "0 \<le> t * G + d mod G" "t * G + d mod G < G * R"
    using o' assms below_block [of t R "d mod G" G] by simp_all
  then have "bwd G R d t div (G * R) = d div G" "bwd G R d t mod (G * R) = t * G + d mod G"
    using int_div_pos_eq [of "bwd G R d t" "G * R" "d div G" "t * G + d mod G"]
      int_mod_pos_eq [of "bwd G R d t" "G * R" "d div G" "t * G + d mod G"] b by (simp_all add: bwd_def mult.commute)
  then show ?thesis using assms(1) o' by (simp add: fwd_def)
qed

lemma bwd_fwd:
  assumes "0 < G" "0 < R"
  shows "bwd G R (fst (fwd G R a)) (snd (fwd G R a)) = a" "0 \<le> snd (fwd G R a)" "snd (fwd G R a) < R"
proof -
  let ?t = "a mod (G * R)"
  have t: "0 \<le> ?t" "?t < G * R" using assms by simp_all
  have "(a div (G * R) * G + ?t mod G) div G = a div (G * R)" "(a div (G * R) * G + ?t mod G) mod G = ?t mod G"
    using assms(1) by simp_all
  then have "bwd G R (fst (fwd G R a)) (snd (fwd G R a)) = a div (G * R) * (G * R) + (?t div G * G + ?t mod G)"
    by (simp add: fwd_def bwd_def)
  then show "bwd G R (fst (fwd G R a)) (snd (fwd G R a)) = a" by (simp only: div_mult_mod_eq)
  show "0 \<le> snd (fwd G R a)" using t(1) assms(1) by (simp add: fwd_def pos_imp_zdiv_nonneg_iff)
  show "snd (fwd G R a) < R" using t(2) assms(1) by (simp add: fwd_def quotient_below mult.commute)
qed

lemma bwd_range:
  assumes "0 < G" "0 < R" "0 \<le> t" "t < R" "0 \<le> d" "d < M * G"
  shows "0 \<le> bwd G R d t" "bwd G R d t < M * (G * R)"
proof -
  have o': "0 \<le> d mod G" "d mod G < G" "0 \<le> d div G" using assms(1,5) by (simp_all add: pos_imp_zdiv_nonneg_iff)
  then show "0 \<le> bwd G R d t" using assms by (simp add: bwd_def)
  have "d div G < M" using assms(1,6) by (simp add: quotient_below)
  then have "(d div G + 1) * (G * R) \<le> M * (G * R)" using assms(1,2) by (intro mult_right_mono) auto
  then show "bwd G R d t < M * (G * R)"
    using below_block [of t R "d mod G" G] assms o' by (simp add: bwd_def algebra_simps)
qed

lemma fwd_range:
  assumes "0 < G" "0 < R" "0 \<le> a" "a < M * (G * R)"
  shows "0 \<le> fst (fwd G R a)" "fst (fwd G R a) < M * G"
proof -
  let ?b = "a div (G * R)"
  have b: "0 \<le> ?b" "?b < M" using assms by (simp_all add: pos_imp_zdiv_nonneg_iff quotient_below)
  have o': "0 \<le> a mod (G * R) mod G" "a mod (G * R) mod G < G" using assms(1) by simp_all
  show "0 \<le> fst (fwd G R a)" using b(1) o' assms(1) by (simp add: fwd_def)
  have "(?b + 1) * G \<le> M * G" using b(2) assms(1) by (intro mult_right_mono) auto
  then show "fst (fwd G R a) < M * G" using o' by (simp add: fwd_def algebra_simps)
qed

lemma rank_in_rollout_eq:
  assumes "0 < G" "0 < R"
  shows "rank_in_rollout (G * R) R a = Inr (fwd G R a)"
  using assms by (simp add: rank_in_rollout_def fwd_def)

lemma map_of_invert:
  assumes "distinct (map snd m)"
  shows "map_of (invert_map m) v = Some k \<longleftrightarrow> (k, v) \<in> set m"
proof -
  have "map_of (fold (\<lambda>(k, v). AList.update v k) m acc) v = Some k
      \<longleftrightarrow> (k, v) \<in> set m \<or> (v \<notin> snd ` set m \<and> map_of acc v = Some k)" for acc
    using assms
    by (induction m arbitrary: acc) (force simp: update_conv' image_iff)+
  then show ?thesis by (simp add: invert_map_def)
qed

section \<open>The collocated mode\<close>

definition collocated_rank :: "int \<Rightarrow> int \<Rightarrow> int \<Rightarrow> int \<times> int" where
  "collocated_rank A R a = (if A = 1 then fwd 1 R a else fwd (A div R) R a)"

lemma collocate_map_eq:
  assumes "0 < R" "A = 1 \<or> R dvd A" "0 < A"
  shows "collocate_map A W R = Inr (map (\<lambda>a. (a, collocated_rank A R a)) (py_range W))"
proof -
  have m: "rmap f xs = Inr (map g xs)" if "\<And>x. f x = Inr (g x)" for f :: "int \<Rightarrow> (int \<times> int \<times> int) res" and g xs
    by (induction xs) (simp_all add: that)
  show ?thesis
  proof (cases "A = 1")
    case True
    then show ?thesis using assms(1) by (simp add: collocate_map_def collocated_rank_def fwd_def m)
  next
    case False
    with assms have G: "A = A div R * R" "0 < A div R" by (auto simp: pos_imp_zdiv_pos_iff zdvd_imp_le)
    have "rank_in_rollout A R a = Inr (fwd (A div R) R a)" for a
      using rank_in_rollout_eq [OF G(2) assms(1), of a] G(1) by simp
    then show ?thesis using False by (simp add: collocate_map_def collocated_rank_def m)
  qed
qed

lemma map_of_pairs: "map_of (map (\<lambda>a. (a, f a)) xs) a = (if a \<in> set xs then Some (f a) else None)"
  by (induction xs) auto

text \<open>The GPU of a rank of a rollout instance that is placed with the stride.\<close>

lemma rollout_gpu:
  assumes "0 < G" "0 < R" "0 \<le> d" "0 \<le> t" "t < R"
  shows "process_ranks (gpu_block gs R G) (nat d) ! nat t = hd gs + bwd G R d t"
proof -
  have "nat t < nat R" using assms by simp
  then show ?thesis
    using assms by (simp add: process_ranks_def first_rank_def block_def gpu_block_def bwd_def algebra_simps)
qed

lemma contiguous_nth:
  assumes "contiguous gs" "i < length gs"
  shows "gs ! i = hd gs + int i"
proof -
  have "gs ! i = [hd gs..last gs] ! i" using assms(1) by (simp add: contiguous_def)
  also have "\<dots> = hd gs + int i" using assms contiguous_facts(2) [OF assms(1)] by (intro nth_upto) simp
  finally show ?thesis .
qed

lemma accepted_collocated:
  assumes "model_parallel_placement False cfg st n = Inr p" "mode p = COLLOCATED"
  shows "contiguous (actor_gpus p)" "rollout_gpus p = actor_gpus p" "sync_mode p = SYNC_COLLOCATED"
    "map_of (packed p) ''rollout'' = Some (gpu_block (actor_gpus p) (rollout_tp_size cfg) (rollout_stride cfg))"
    "actor_tp_size cfg > rollout_tp_size cfg \<Longrightarrow> rollout_tp_size cfg dvd actor_tp_size cfg"
    "rollout_tp_size cfg * rollout_stride cfg dvd int (length (actor_gpus p))"
proof -
  from accepted [OF assms(1)] obtain q md where q: "read_gpus st n = Inr q" "choose_mode False cfg q = Inr md"
      "generate_placements cfg (q\<lparr>mode := md, sync_mode := placement_mode_to_rollout_sync_mode md\<rparr>) = Inr p" by blast
  have md: "md = COLLOCATED" using generate_mode(1) [OF q(3)] assms(2) by simp
  have sync: "sync_mode p = SYNC_COLLOCATED"
    using generate_mode(2) [OF q(3)] by (simp add: md placement_mode_to_rollout_sync_mode_def)
  have same: "actor_gpus q = rollout_gpus q"
    using q(2) by (auto simp: md choose_mode_def is_collocated_def rbind_Inr_iff split: if_splits)
  have "generate_collocated cfg (q\<lparr>mode := COLLOCATED, sync_mode := placement_mode_to_rollout_sync_mode COLLOCATED\<rparr>) = Inr p"
    using q(3) by (simp add: md generate_placements_def)
  from collocated_ok [OF this] obtain pk where
    p: "p = q\<lparr>mode := COLLOCATED, sync_mode := placement_mode_to_rollout_sync_mode COLLOCATED, packed := pk\<rparr>"
    and k: "map_of pk ''rollout'' = Some (gpu_block (rollout_gpus q) (rollout_tp_size cfg) (rollout_stride cfg))"
      "actor_tp_size cfg > rollout_tp_size cfg \<longrightarrow> rollout_tp_size cfg dvd actor_tp_size cfg"
      "rollout_tp_size cfg * rollout_stride cfg dvd last (rollout_gpus q) - hd (rollout_gpus q) + 1" by auto
  note c = read_gpus_ok(1) [OF q(1)]
  show "contiguous (actor_gpus p)" "rollout_gpus p = actor_gpus p" "sync_mode p = SYNC_COLLOCATED"
    "map_of (packed p) ''rollout'' = Some (gpu_block (actor_gpus p) (rollout_tp_size cfg) (rollout_stride cfg))"
    "actor_tp_size cfg > rollout_tp_size cfg \<Longrightarrow> rollout_tp_size cfg dvd actor_tp_size cfg"
    "rollout_tp_size cfg * rollout_stride cfg dvd int (length (actor_gpus p))"
    using c k same contiguous_facts(2) [OF c] sync by (simp_all add: p)
qed

text \<open>
  C20. In the collocated mode the weights stay on their GPU: the rank map sends actor
  rank \<open>a\<close> to a rollout rank \<open>(d, t)\<close> such that the \<open>t\<close>-th GPU of the rollout instance
  \<open>d\<close>, as the packed strategy with its stride places it, is the GPU of actor \<open>a\<close>; the
  lookup of \<open>(d, t)\<close> gives \<open>a\<close> back, and every rank of every instance has a sender.
\<close>

theorem weights_stay_on_gpu:
  assumes "model_parallel_placement False cfg st n = Inr p" "mode p = COLLOCATED"
    and "0 < rollout_tp_size cfg" "0 < actor_tp_size cfg" "actor_tp_size cfg = 1 \<or> rollout_tp_size cfg \<le> actor_tp_size cfg"
  shows "\<exists>m s. actor_targets cfg p = Inr m \<and> map_of (packed p) ''rollout'' = Some s
    \<and> (\<forall>a. 0 \<le> a \<and> a < int (length (actor_gpus p)) \<longrightarrow> (\<exists>d t. map_of m a = Some (One (d, t))
         \<and> process_ranks s (nat d) ! nat t = actor_gpus p ! nat a \<and> actor_weight_rank cfg p d t = Inr a))
    \<and> (\<forall>d t. 0 \<le> d \<and> d < int (length (actor_gpus p)) div rollout_tp_size cfg \<and> 0 \<le> t \<and> t < rollout_tp_size cfg \<longrightarrow>
         (\<exists>a. 0 \<le> a \<and> a < int (length (actor_gpus p)) \<and> map_of m a = Some (One (d, t))))"
proof -
  let ?A = "actor_tp_size cfg" and ?R = "rollout_tp_size cfg" and ?G = "rollout_stride cfg" and ?W = "int (length (actor_gpus p))"
  note c = accepted_collocated [OF assms(1,2)]
  have G: "0 < ?G" using assms(3) by (auto simp: rollout_stride_def pos_imp_zdiv_pos_iff)
  have dv: "?A = 1 \<or> ?R dvd ?A" using c(5) assms(5) by fastforce
  have r: "collocated_rank ?A ?R a = fwd ?G ?R a" for a
    using assms(3-5) by (cases "?A = ?R") (auto simp: collocated_rank_def rollout_stride_def)
  define m where "m = map (\<lambda>a. (a, One (fwd ?G ?R a))) (py_range ?W)"
  have t: "actor_targets cfg p = Inr m"
    using collocate_map_eq [OF assms(3) dv assms(4)] by (simp add: actor_targets_def c(3) m_def r comp_def case_prod_beta)
  have lookup: "map_of m a = Some (One (fwd ?G ?R a))" if "0 \<le> a" "a < ?W" for a
    unfolding m_def map_of_pairs using that by (simp del: py_range_int)
  have inj: "inj (fwd ?G ?R)" using bwd_fwd(1) [OF G assms(3)] by (intro inj_on_inverseI [where g = "\<lambda>x. bwd ?G ?R (fst x) (snd x)"])
  have src: "rollout_sources cfg p = Inr (invert_map (map (\<lambda>a. (a, fwd ?G ?R a)) (py_range ?W)))"
    using collocate_map_eq [OF assms(3) dv assms(4)] by (simp add: rollout_sources_def collocate_inverse_def c(3) r)
  have "distinct (map snd (map (\<lambda>a. (a, fwd ?G ?R a)) (py_range ?W)))"
    using inj_on_subset [OF inj subset_UNIV] by (simp add: comp_def distinct_map del: py_range_int)
  note inv = map_of_invert [OF this]
  have w: "actor_weight_rank cfg p (fst (fwd ?G ?R a)) (snd (fwd ?G ?R a)) = Inr a" if "0 \<le> a" "a < ?W" for a
  proof -
    have "map_of (invert_map (map (\<lambda>a. (a, fwd ?G ?R a)) (py_range ?W))) (fwd ?G ?R a) = Some a"
      unfolding inv using that by (auto simp del: py_range_int)
    then show ?thesis by (simp add: actor_weight_rank_def src)
  qed
  obtain M where M: "?W = M * (?G * ?R)" using c(6) by (metis dvd_div_mult_self mult.commute)
  have fwd_gpu: "process_ranks (gpu_block (actor_gpus p) ?R ?G) (nat (fst (fwd ?G ?R a))) ! nat (snd (fwd ?G ?R a)) = actor_gpus p ! nat a"
    if "0 \<le> a" "a < ?W" for a
    using rollout_gpu [OF G assms(3) fwd_range(1) [OF G assms(3) that(1)] bwd_fwd(2,3) [OF G assms(3)], of M "actor_gpus p"]
      bwd_fwd(1) [OF G assms(3)] contiguous_nth [OF c(1), of "nat a"] that M by simp
  have sent_by: "0 \<le> bwd ?G ?R d t \<and> bwd ?G ?R d t < ?W \<and> map_of m (bwd ?G ?R d t) = Some (One (d, t))"
    if "0 \<le> d" "d < ?W div ?R" "0 \<le> t" "t < ?R" for d t
  proof -
    have "?W div ?R = M * ?G" using assms(3) by (simp add: M mult.assoc [symmetric])
    then have "0 \<le> bwd ?G ?R d t" "bwd ?G ?R d t < ?W" using bwd_range [OF G assms(3) that(3,4,1), of M] that(2) M by simp_all
    then show ?thesis using lookup fwd_bwd [OF G assms(3) that(3,4)] by simp
  qed
  have from_actor: "\<exists>d t. map_of m a = Some (One (d, t))
      \<and> process_ranks (gpu_block (actor_gpus p) ?R ?G) (nat d) ! nat t = actor_gpus p ! nat a \<and> actor_weight_rank cfg p d t = Inr a"
    if "0 \<le> a" "a < ?W" for a
    using lookup [OF that] fwd_gpu [OF that] w [OF that] by (cases "fwd ?G ?R a") auto
  show ?thesis
    by (intro exI [of _ m] exI [of _ "gpu_block (actor_gpus p) ?R ?G"] conjI allI impI)
      (use t c(4) from_actor sent_by in blast)+
qed

section \<open>The disaggregated mode\<close>

text \<open>The targets of an actor rank, and the sender of a rollout rank; \<open>A = G * R\<close> and \<open>Wa = D * A\<close>.\<close>

definition targets :: "int \<Rightarrow> int \<Rightarrow> int \<Rightarrow> int \<Rightarrow> int \<Rightarrow> (int \<times> int) list" where
  "targets G R D Wr a =
     (if D * (G * R) \<le> Wr
      then map (\<lambda>i. (fst (fwd G R a) + i * G * D, snd (fwd G R a))) (py_range (Wr div (D * (G * R))))
      else if a < Wr then [fwd G R a] else [])"

definition sender :: "int \<Rightarrow> int \<Rightarrow> int \<Rightarrow> int \<Rightarrow> int \<times> int \<Rightarrow> int" where
  "sender G R D Wr v = (if D * (G * R) \<le> Wr then bwd G R (fst v mod (D * G)) (snd v) else bwd G R (fst v) (snd v))"

lemma disagg_map_eq:
  assumes "0 < G" "0 < R" "0 < D" "G * R \<le> Wr" "G * R dvd Wr"
  shows "disagg_map (G * R) (D * (G * R)) R Wr = Inr (map (\<lambda>a. (a, targets G R D Wr a)) (py_range (D * (G * R))))"
proof -
  have m: "rmap f xs = Inr (map g xs)" if "\<forall>x\<in>set xs. f x = Inr (g x)" for f :: "int \<Rightarrow> (int \<times> (int \<times> int) list) res" and g xs
    using that by (induction xs) simp_all
  have "disagg_targets (G * R) (D * (G * R)) R Wr a = Inr (a, targets G R D Wr a)" if "a \<in> set (py_range (D * (G * R)))" for a
  proof -
    have d: "D * (G * R) div (G * R) = D" "G * R div R = G" using assms by simp_all
    have "disagg_rank (G * R) R a = Inr (fwd G R a)" using assms rank_in_rollout_eq [OF assms(1,2)] by (simp add: disagg_rank_def)
    then show ?thesis using assms that d
      by (cases "fwd G R a") (auto simp: disagg_targets_def targets_def simp del: py_range_int)
  qed
  then show ?thesis using assms m [of "py_range (D * (G * R))"]
    by (simp add: disagg_map_def dvd_imp_mod_0 del: py_range_int)
qed

lemma targets_sender:
  assumes "0 < G" "0 < R" "0 < D" "0 \<le> a" "a < D * (G * R)" "v \<in> set (targets G R D Wr a)"
  shows "sender G R D Wr v = a" "snd v = a mod (G * R) div G"
proof -
  have f: "0 \<le> fst (fwd G R a)" "fst (fwd G R a) < D * G" using fwd_range [OF assms(1,2,4,5)] by blast+
  have s: "snd (fwd G R a) = a mod (G * R) div G" by (simp add: fwd_def)
  show "sender G R D Wr v = a" "snd v = a mod (G * R) div G"
  proof -
    have "fst v = fst (fwd G R a) + i * G * D \<Longrightarrow> fst v mod (D * G) = fst (fwd G R a)" for i
      using f int_mod_pos_eq [of "fst v" "D * G" i "fst (fwd G R a)"] by (simp add: algebra_simps)
    then show "sender G R D Wr v = a" "snd v = a mod (G * R) div G"
      using assms(6) bwd_fwd(1) [OF assms(1,2), of a] s
      by (auto simp: targets_def sender_def simp del: py_range_int split: if_splits)
  qed
qed

lemma sender_targets:
  assumes "0 < G" "0 < R" "0 < D" "G * R dvd Wr" "D * (G * R) \<le> Wr \<Longrightarrow> D * (G * R) dvd Wr"
    and "0 \<le> d" "d < Wr div R" "0 \<le> t" "t < R"
  shows "0 \<le> sender G R D Wr (d, t)" "sender G R D Wr (d, t) < D * (G * R)"
    "(d, t) \<in> set (targets G R D Wr (sender G R D Wr (d, t)))"
proof -
  have GR: "0 < D * (G * R)" "0 < D * G" using assms(1-3) by simp_all
  show "0 \<le> sender G R D Wr (d, t)" "sender G R D Wr (d, t) < D * (G * R)"
    "(d, t) \<in> set (targets G R D Wr (sender G R D Wr (d, t)))"
  proof (atomize (full), cases "D * (G * R) \<le> Wr")
    case True
    obtain N where N: "Wr = N * (D * (G * R))" using assms(5) [OF True] by (metis dvd_div_mult_self)
    have m: "0 \<le> d mod (D * G)" "d mod (D * G) < D * G" using GR(2) by simp_all
    have "Wr div R = N * (D * G)" using assms(2) by (simp add: N mult.assoc [symmetric])
    then have "d div (D * G) < N" "0 \<le> d div (D * G)" using assms(6,7) GR(2) quotient_below by (simp_all add: pos_imp_zdiv_nonneg_iff)
    moreover have "Wr div (D * (G * R)) = N"
      unfolding N using GR(1) by (metis nonzero_mult_div_cancel_right order_less_irrefl)
    moreover have "d = d mod (D * G) + d div (D * G) * G * D" using div_mult_mod_eq [of d "D * G"] by (simp add: algebra_simps)
    ultimately have "(d, t) \<in> set (targets G R D Wr (bwd G R (d mod (D * G)) t))"
      using True fwd_bwd [OF assms(1,2,8,9)] by (auto simp: targets_def simp del: py_range_int)
    then show "0 \<le> sender G R D Wr (d, t) \<and> sender G R D Wr (d, t) < D * (G * R)
        \<and> (d, t) \<in> set (targets G R D Wr (sender G R D Wr (d, t)))"
      using bwd_range [OF assms(1,2,8,9) m] True by (simp add: sender_def)
  next
    case False
    obtain M where M: "Wr = M * (G * R)" using assms(4) by (metis dvd_div_mult_self)
    have "Wr div R = M * G" using assms(2) by (simp add: M mult.assoc [symmetric])
    then have "0 \<le> bwd G R d t" "bwd G R d t < Wr" using bwd_range [OF assms(1,2,8,9,6), of M] assms(7) by (simp_all add: M)
    then show "0 \<le> sender G R D Wr (d, t) \<and> sender G R D Wr (d, t) < D * (G * R)
        \<and> (d, t) \<in> set (targets G R D Wr (sender G R D Wr (d, t)))"
      using False fwd_bwd [OF assms(1,2,8,9)] by (simp add: sender_def targets_def)
  qed
qed

lemma flatten_pairs: "(a, v) \<in> set (flatten_targets (map (\<lambda>a. (a, vs a)) xs)) \<longleftrightarrow> a \<in> set xs \<and> v \<in> set (vs a)"
  by (auto simp: flatten_targets_def)

lemma distinct_flatten:
  assumes "distinct xs" "\<And>a. a \<in> set xs \<Longrightarrow> distinct (vs a)" "\<And>a v. a \<in> set xs \<Longrightarrow> v \<in> set (vs a) \<Longrightarrow> g v = a"
  shows "distinct (map snd (flatten_targets (map (\<lambda>a. (a, vs a)) xs)))"
  using assms
proof (induction xs)
  case (Cons x xs)
  have "set (vs x) \<inter> snd ` set (flatten_targets (map (\<lambda>a. (a, vs a)) xs)) = {}"
  proof (rule equals0I)
    fix v assume "v \<in> set (vs x) \<inter> snd ` set (flatten_targets (map (\<lambda>a. (a, vs a)) xs))"
    then obtain a where "v \<in> set (vs x)" "a \<in> set xs" "v \<in> set (vs a)" using flatten_pairs [of _ v vs xs] by fastforce
    then have "g v = x" "g v = a" using Cons.prems(3) by simp_all
    then show False using Cons.prems(1) \<open>a \<in> set xs\<close> by simp
  qed
  moreover have "flatten_targets (map (\<lambda>a. (a, vs a)) (x # xs)) = map (Pair x) (vs x) @ flatten_targets (map (\<lambda>a. (a, vs a)) xs)"
    by (simp add: flatten_targets_def)
  moreover have "map snd (map (Pair x) (vs x)) = vs x" by (simp add: comp_def)
  ultimately show ?case using Cons by simp
qed (simp add: flatten_targets_def)

lemma distinct_targets: "0 < G \<Longrightarrow> 0 < D \<Longrightarrow> distinct (targets G R D Wr a)"
  by (auto simp: targets_def distinct_map inj_on_def simp del: py_range_int)

text \<open>
  C21. When the weights are synchronised between separate GPUs and the sizes divide, the
  sends and the receives match: every rank \<open>(d, t)\<close> of every rollout instance is in the
  list of exactly one actor rank, this is the rank it receives from, and it holds the
  \<open>t\<close>-th part of the weights.
\<close>

theorem weight_sends_match:
  assumes "sync_mode p = SYNC_DISAGGREGATED" "0 < rollout_tp_size cfg" "0 < actor_tp_size cfg" "rollout_tp_size cfg dvd actor_tp_size cfg"
    and "actor_gpus p \<noteq> []" "actor_tp_size cfg dvd int (length (actor_gpus p))"
    and "rollout_gpus p \<noteq> []" "actor_tp_size cfg dvd int (length (rollout_gpus p))"
    and "length (actor_gpus p) \<le> length (rollout_gpus p) \<longrightarrow> length (actor_gpus p) dvd length (rollout_gpus p)"
    and "0 \<le> d" "d < int (length (rollout_gpus p)) div rollout_tp_size cfg" "0 \<le> t" "t < rollout_tp_size cfg"
  shows "\<exists>m a vs. actor_targets cfg p = Inr m \<and> actor_weight_rank cfg p d t = Inr a
    \<and> 0 \<le> a \<and> a < int (length (actor_gpus p)) \<and> map_of m a = Some (Many vs) \<and> (d, t) \<in> set vs
    \<and> (\<forall>b ws. map_of m b = Some (Many ws) \<and> (d, t) \<in> set ws \<longrightarrow> b = a)
    \<and> t = a mod actor_tp_size cfg div (actor_tp_size cfg div rollout_tp_size cfg)"
proof -
  define G D R Wr where "G = actor_tp_size cfg div rollout_tp_size cfg"
    and "D = int (length (actor_gpus p)) div actor_tp_size cfg" and "R = rollout_tp_size cfg" and "Wr = int (length (rollout_gpus p))"
  have A: "actor_tp_size cfg = G * R" using assms(4) by (simp add: G_def R_def)
  have pos: "0 < R" "0 < G" using assms(2-4) by (auto simp: R_def G_def pos_imp_zdiv_pos_iff zdvd_imp_le)
  have Wa: "int (length (actor_gpus p)) = D * (G * R)" using assms(6) by (simp add: D_def A [symmetric])
  have Dp: "0 < D"
  proof -
    have "0 < D * (G * R)" using assms(5) by (simp add: Wa [symmetric])
    moreover have "0 < G * R" using pos by simp
    ultimately show ?thesis by (rule zero_less_mult_pos2)
  qed
  have W: "G * R dvd Wr" "G * R \<le> Wr" using assms(7,8) by (auto simp: Wr_def A zdvd_imp_le)
  have dv: "D * (G * R) dvd Wr" if "D * (G * R) \<le> Wr" using assms(9) that unfolding Wr_def Wa [symmetric] by simp
  let ?vs = "targets G R D Wr" and ?a = "sender G R D Wr (d, t)" and ?xs = "py_range (D * (G * R))"
  define m where "m = map (\<lambda>a. (a, Many (?vs a))) ?xs"
  note e = disagg_map_eq [OF pos(2,1) Dp W(2,1)]
  have t: "actor_targets cfg p = Inr m"
    using e by (simp add: actor_targets_def assms(1) A Wa Wr_def [symmetric] R_def [symmetric] m_def comp_def del: py_range_int)
  note st = sender_targets [OF pos(2,1) Dp W(1) dv assms(10) assms(11) [folded Wr_def R_def] assms(12) assms(13) [folded R_def]]
  have s1: "sender G R D Wr v = a" if "a \<in> set ?xs" "v \<in> set (?vs a)" for a v
    using targets_sender(1) [OF pos(2,1) Dp _ _ that(2)] that(1) by (simp del: py_range_int)
  have look: "map_of m b = (if b \<in> set ?xs then Some (Many (?vs b)) else None)" for b unfolding m_def map_of_pairs ..
  have "distinct (map snd (flatten_targets (map (\<lambda>a. (a, ?vs a)) ?xs)))"
    using distinct_targets [OF pos(2) Dp] s1 by (intro distinct_flatten) simp_all
  note inv = map_of_invert [OF this]
  have "map_of (invert_map (flatten_targets (map (\<lambda>a. (a, ?vs a)) ?xs))) (d, t) = Some ?a"
    unfolding inv flatten_pairs using st by (simp del: py_range_int)
  then have w: "actor_weight_rank cfg p d t = Inr ?a"
    using e by (simp add: actor_weight_rank_def rollout_sources_def assms(1) disagg_inverse_def A Wa Wr_def [symmetric] R_def [symmetric]
        del: py_range_int)
  have "t = ?a mod (G * R) div G" using targets_sender(2) [OF pos(2,1) Dp st] by simp
  moreover have "?a \<in> set ?xs" using st(1,2) by (simp del: py_range_int)
  ultimately have a: "map_of m ?a = Some (Many (?vs ?a))" "t = ?a mod (G * R) div G" by (simp_all add: look)
  have unique: "b = ?a" if "map_of m b = Some (Many ws)" "(d, t) \<in> set ws" for b ws
    using that s1 [of b "(d, t)"] by (simp add: look del: py_range_int split: if_splits)
  have G': "actor_tp_size cfg div rollout_tp_size cfg = G" by (simp add: G_def)
  have "0 \<le> ?a \<and> ?a < int (length (actor_gpus p)) \<and> map_of m ?a = Some (Many (?vs ?a)) \<and> (d, t) \<in> set (?vs ?a)"
    unfolding Wa using st a(1) by (intro conjI)
  moreover have "t = ?a mod actor_tp_size cfg div (actor_tp_size cfg div rollout_tp_size cfg)" unfolding G' unfolding A by (rule a(2))
  moreover have "\<forall>b ws. map_of m b = Some (Many ws) \<and> (d, t) \<in> set ws \<longrightarrow> b = ?a" using unique by blast
  ultimately show ?thesis using t w by (intro exI [of _ m] exI [of _ ?a] exI [of _ "?vs ?a"]) (elim conjE, intro conjI)
qed

section \<open>Concrete placements\<close>

text \<open>Collocated: actor tensor size 4 on eight GPUs, rollout tensor size 2.\<close>

definition col_config :: mp_config where
  "col_config = \<lparr>auto_scheduler = False, pre_process_policy = None, recompute_logprobs = True,
     actor_tp_size = 4, actor_cp_size = 1, actor_pp_size = 1, rollout_tp_size = 2, rollout_pp_size = 1,
     inference_section = None, critic_tp_size = 1, critic_cp_size = 1, critic_pp_size = 1, critic_inference_tp = None, critic_inference_pp = None\<rparr>"

definition col_state :: component_state where
  "col_state = \<lparr>placements = [], components = [''actor'', ''rollout'', ''reward''], component_world_size = [],
     component_rank_map = [(''actor'', [([0..7], [0..7])]), (''rollout'', [([0..7], [0..7])]), (''reward'', [([0..7], [0..7])])]\<rparr>"

definition col_placement :: mp_placement where
  "col_placement = \<lparr>actor_gpus = [0..7], rollout_gpus = [0..7], inference_gpus = None, critic_inference_gpus = None,
     reward_gpus = [0..7], critic_gpus = None, num_gpus = 8, mode = COLLOCATED, sync_mode = SYNC_COLLOCATED,
     packed = [(''actor'', gpu_block [0..7] 1 1), (''rollout'', gpu_block [0..7] 2 2), (''reward'', gpu_block [0..7] 1 1)]\<rparr>"

lemma col_accepted: "model_parallel_placement False col_config col_state 8 = Inr col_placement"
  by code_simp

theorem weights_stay_on_gpu_witness:
  "\<exists>m s d t. actor_targets col_config col_placement = Inr m \<and> map_of m 5 = Some (One (d, t))
    \<and> map_of (packed col_placement) ''rollout'' = Some s \<and> process_ranks s (nat d) ! nat t = 5
    \<and> actor_weight_rank col_config col_placement d t = Inr 5"
proof -
  have f: "mode col_placement = COLLOCATED" "0 < rollout_tp_size col_config" "0 < actor_tp_size col_config"
    "actor_tp_size col_config = 1 \<or> rollout_tp_size col_config \<le> actor_tp_size col_config"
    "int (length (actor_gpus col_placement)) = 8" "actor_gpus col_placement ! 5 = 5"
    by (simp_all add: col_config_def col_placement_def upto.simps)
  from weights_stay_on_gpu [OF col_accepted f(1-4)] obtain m s where m: "actor_targets col_config col_placement = Inr m"
    "map_of (packed col_placement) ''rollout'' = Some s"
    "\<forall>a. 0 \<le> a \<and> a < 8 \<longrightarrow> (\<exists>d t. map_of m a = Some (One (d, t))
         \<and> process_ranks s (nat d) ! nat t = actor_gpus col_placement ! nat a \<and> actor_weight_rank col_config col_placement d t = Inr a)"
    unfolding f(5) by blast
  from m(3) [rule_format, of 5] obtain d t where "map_of m 5 = Some (One (d, t))" "process_ranks s (nat d) ! nat t = 5"
    "actor_weight_rank col_config col_placement d t = Inr 5" using f(6) by auto
  with m(1,2) show ?thesis by blast
qed

text \<open>Disaggregated: the same sizes, the actor on four GPUs and the rollout on eight.\<close>

definition dis_placement :: mp_placement where
  "dis_placement = col_placement\<lparr>actor_gpus := [0..3], rollout_gpus := [4..11], sync_mode := SYNC_DISAGGREGATED\<rparr>"

theorem weight_sends_match_witness:
  "\<exists>m a vs. actor_targets col_config dis_placement = Inr m \<and> actor_weight_rank col_config dis_placement 3 1 = Inr a
    \<and> map_of m a = Some (Many vs) \<and> (3, 1) \<in> set vs"
proof -
  have f: "sync_mode dis_placement = SYNC_DISAGGREGATED" "0 < rollout_tp_size col_config" "0 < actor_tp_size col_config"
    "rollout_tp_size col_config dvd actor_tp_size col_config" "actor_gpus dis_placement \<noteq> []"
    "actor_tp_size col_config dvd int (length (actor_gpus dis_placement))" "rollout_gpus dis_placement \<noteq> []"
    "actor_tp_size col_config dvd int (length (rollout_gpus dis_placement))"
    "length (actor_gpus dis_placement) \<le> length (rollout_gpus dis_placement)
      \<longrightarrow> length (actor_gpus dis_placement) dvd length (rollout_gpus dis_placement)"
    "(0 :: int) \<le> 3" "3 < int (length (rollout_gpus dis_placement)) div rollout_tp_size col_config" "(0 :: int) \<le> 1"
    "1 < rollout_tp_size col_config"
    by code_simp+
  from weight_sends_match [OF f] show ?thesis by blast
qed

text \<open>
  Where the sizes do not divide. The assertions let through an actor of eight GPUs with
  a rollout of twelve: the instance that begins at rank eight has no sender. And a
  collocated rollout whose tensor size is larger than that of the actor is placed, but
  has no rank map.
\<close>

lemma third_instance_without_sender:
  "actor_weight_rank (col_config\<lparr>rollout_tp_size := 4\<rparr>)
     (col_placement\<lparr>actor_gpus := [0..7], rollout_gpus := [8..19], sync_mode := SYNC_DISAGGREGATED\<rparr>) 2 0 = Inl KeyError"
  by code_simp

lemma wide_rollout_without_map:
  "case model_parallel_placement False (col_config\<lparr>actor_tp_size := 2, rollout_tp_size := 4\<rparr>) col_state 8 of
     Inr p \<Rightarrow> mode p = COLLOCATED \<and> actor_targets (col_config\<lparr>actor_tp_size := 2, rollout_tp_size := 4\<rparr>) p = Inl ZeroDivisionError
   | Inl _ \<Rightarrow> False"
  by code_simp

end
