(* ===== verification/Rollout_Instance.thy ===== *)
theory Rollout_Instance
  imports Dyn_Scheduler
begin

text \<open>
  One rollout instance under the dynamic scheduler: \<open>RunningStatusManager\<close>
  (\<^verbatim>\<open>rlinf/workers/rollout/utils.py\<close>), \<open>RolloutScalingScheduler\<close>
  (\<^verbatim>\<open>rlinf/scheduler/dynamic_scheduler/manager.py\<close>) and \<open>rollout\<close> with the tasks of
  \<open>_async_generate_group\<close> (\<^verbatim>\<open>rlinf/workers/rollout/sglang/sglang_worker.py\<close>). The
  coroutines share the status manager: the rollout loop, which waits for the tasks, one
  task for each group, and the handler of the scheduler's requests. A step is what one
  of them does between two awaits; the engine is a parameter that answers the requests
  of the tasks in any order.
\<close>

section \<open>The state\<close>

text \<open>
  The task of a group has not run yet, or it collects the answers of the engine; the list
  holds the sequences it waits for, and the task is done when none is left.
\<close>

datatype gen_task = Created | Collecting "nat list"

text \<open>
  The rollout loop waits for the tasks it found at its head (given by the ids of their
  groups), goes through the groups that have returned, waits until the result of a group
  has been put, waits for the notification, offloads the engine, or has ended. The
  handler is ready for a request or polls until no task is running.
\<close>

datatype rollout_phase = Generating "int list" | Marking "int list" | Putting int "int list" | Waiting | Offloading | Left

datatype handler_phase = Ready | Migrating_Out | Finishing

text \<open>
  The first nine fields are the state of the code. The dictionary of the running groups
  is the list of its keys in their order, and the task of each by the id of the group.
  \<open>put_results\<close> are the groups whose put into the output channel has returned. \<open>asked\<close>
  and \<open>received\<close> record the requests that want an answer and the ids that came in.
\<close>

record rollout_instance =
  instance_id :: int
  running_groups :: "seq_group list"
  gen_tasks :: "int \<Rightarrow> gen_task"
  aborted_list :: "seq_group list"
  done_groups :: "seq_group list"
  exit_set :: bool
  loop_phase :: rollout_phase
  handler :: handler_phase
  put_results :: "seq_group list"
  responses :: "schedule_info list"
  asked :: "rollout_action list"
  received :: "int list"

record loop_config =
  use_auto_scheduler :: bool
  pipeline_mode :: bool
  reloads_weights :: bool
  collocated_mode :: bool
  max_new_tokens :: int

section \<open>The status manager\<close>

definition ids_of :: "seq_group list \<Rightarrow> int list" where
  "ids_of gs = map group_id gs"

definition add_task :: "seq_group \<Rightarrow> rollout_instance \<Rightarrow> rollout_instance res" where
  "add_task g s =
     (if group_id g \<in> set (ids_of (running_groups s)) then Inl AssertionError
      else Inr (s\<lparr>running_groups := running_groups s @ [g], gen_tasks := (gen_tasks s)(group_id g := Created)\<rparr>))"

definition pop_group :: "int \<Rightarrow> rollout_instance \<Rightarrow> (seq_group \<times> rollout_instance) res" where
  "pop_group i s =
     (case filter (\<lambda>g. group_id g = i) (running_groups s) of
        [] \<Rightarrow> Inl AssertionError
      | g # _ \<Rightarrow> Inr (g, s\<lparr>running_groups := filter (\<lambda>g. group_id g \<noteq> i) (running_groups s)\<rparr>))"

definition mark_done :: "int \<Rightarrow> rollout_instance \<Rightarrow> rollout_instance res" where
  "mark_done i s =
     rbind (pop_group i s) (\<lambda>(g, s').
     if i \<in> set (ids_of (done_groups s)) then Inl AssertionError
     else Inr (s'\<lparr>done_groups := done_groups s @ [g]\<rparr>))"

definition mark_aborted :: "int \<Rightarrow> rollout_instance \<Rightarrow> rollout_instance res" where
  "mark_aborted i s =
     rbind (pop_group i s) (\<lambda>(g, s').
     if i \<in> set (ids_of (aborted_list s)) then Inl AssertionError
     else Inr (s'\<lparr>aborted_list := aborted_list s @ [g]\<rparr>))"

definition notify :: "rollout_instance \<Rightarrow> rollout_instance" where
  "notify s = s\<lparr>exit_set := True\<rparr>"

definition status_clear :: "rollout_instance \<Rightarrow> rollout_instance" where
  "status_clear s = s\<lparr>running_groups := [], aborted_list := [], done_groups := [], exit_set := False\<rparr>"

definition num_seq_group :: "rollout_instance \<Rightarrow> int" where
  "num_seq_group s = int (length (running_groups s) + length (done_groups s) + length (aborted_list s))"

definition num_seq_running :: "rollout_instance \<Rightarrow> int" where
  "num_seq_running s = sum_list (map num_running (running_groups s))"

definition num_seq :: "rollout_instance \<Rightarrow> int" where
  "num_seq s = sum_list (map (int \<circ> group_size) (running_groups s)) + sum_list (map (int \<circ> group_size) (done_groups s))"

definition num_seq_returned :: "rollout_instance \<Rightarrow> int" where
  "num_seq_returned s = num_seq s - num_seq_running s"

section \<open>The generation of a group\<close>

text \<open>
  The task of a group, step by step (as a whole it is \<open>generate_group\<close>): it starts by
  sending the requests of the group, where the aborted sequences of a group that was
  migrated in are no longer aborted but continued, and then records one answer at a time.
\<close>

definition update_group :: "seq_group \<Rightarrow> gen_task \<Rightarrow> rollout_instance \<Rightarrow> rollout_instance" where
  "update_group g t s =
     s\<lparr>running_groups := map (\<lambda>h. if group_id h = group_id g then g else h) (running_groups s),
       gen_tasks := (gen_tasks s)(group_id g := t)\<rparr>"

definition start_task :: "loop_config \<Rightarrow> seq_group \<Rightarrow> rollout_instance \<Rightarrow> rollout_instance res" where
  "start_task cfg g s =
     rbind (start_requests (max_new_tokens cfg) g) (\<lambda>(g', reqs).
     Inr (update_group g' (Collecting (map fst reqs)) s))"

definition take_answer :: "seq_group \<Rightarrow> nat list \<Rightarrow> nat \<Rightarrow> seq_result \<Rightarrow> rollout_instance \<Rightarrow> rollout_instance res" where
  "take_answer g is i r s =
     rbind (record_sglang_result i r g) (\<lambda>g'.
     Inr (update_group g' (Collecting (remove1 i is)) s))"

section \<open>The rollout loop\<close>

text \<open>
  The head of the loop: the tasks to wait for are those that are running now. Without
  tasks the loop is left, the lists are cleared, the engine may be offloaded.
\<close>

definition loop_head :: "loop_config \<Rightarrow> rollout_instance \<Rightarrow> rollout_instance" where
  "loop_head cfg s =
     (if running_groups s \<noteq> [] then s\<lparr>loop_phase := Generating (ids_of (running_groups s))\<rparr>
      else (status_clear s)\<lparr>loop_phase := (if reloads_weights cfg \<and> (collocated_mode cfg \<or> use_auto_scheduler cfg) then Offloading else Left)\<rparr>)"

definition start_rollout :: "loop_config \<Rightarrow> seq_group list \<Rightarrow> rollout_instance \<Rightarrow> rollout_instance res" where
  "start_rollout cfg groups s =
     (if num_seq_group s \<noteq> 0 then Inl AssertionError
      else rbind (rfold (\<lambda>s g. add_task g s) s groups) (\<lambda>s'. Inr (loop_head cfg s')))"

text \<open>
  What \<open>asyncio.wait\<close> may return: some of the tasks waited for that are done, all of them
  unless the mode is pipelined.
\<close>

definition tasks_returned :: "loop_config \<Rightarrow> int list \<Rightarrow> int list \<Rightarrow> rollout_instance \<Rightarrow> bool" where
  "tasks_returned cfg waited ks s \<longleftrightarrow> ks \<noteq> [] \<and> distinct ks \<and> set ks \<subseteq> set waited
     \<and> (\<not> pipeline_mode cfg \<longrightarrow> set waited \<subseteq> set ks)
     \<and> list_all (\<lambda>k. gen_tasks s k = Collecting []) ks"

definition after_mark :: "loop_config \<Rightarrow> int list \<Rightarrow> rollout_instance \<Rightarrow> rollout_instance" where
  "after_mark cfg ks s =
     (if ks \<noteq> [] then s\<lparr>loop_phase := Marking ks\<rparr>
      else if use_auto_scheduler cfg \<and> running_groups s = [] then s\<lparr>loop_phase := Waiting\<rparr>
      else loop_head cfg s)"

text \<open>
  A returned group: if it is completed, its result is put into the channel, which is
  awaited, and only then it is marked; else it is marked as aborted.
\<close>

definition mark_returned :: "loop_config \<Rightarrow> int \<Rightarrow> int list \<Rightarrow> rollout_instance \<Rightarrow> rollout_instance res" where
  "mark_returned cfg k ks s =
     rbind (pop_group k s) (\<lambda>(g, _).
     if all_completed g then Inr (s\<lparr>loop_phase := Putting k ks\<rparr>)
     else rbind (mark_aborted k s) (\<lambda>s'. Inr (after_mark cfg ks s')))"

definition mark_put :: "loop_config \<Rightarrow> int \<Rightarrow> int list \<Rightarrow> rollout_instance \<Rightarrow> rollout_instance res" where
  "mark_put cfg k ks s =
     rbind (pop_group k s) (\<lambda>(g, _).
     rbind (mark_done k s) (\<lambda>s'.
     Inr (after_mark cfg ks (s'\<lparr>put_results := put_results s @ [g]\<rparr>))))"

definition wake :: "loop_config \<Rightarrow> rollout_instance \<Rightarrow> rollout_instance" where
  "wake cfg s = loop_head cfg (s\<lparr>exit_set := False\<rparr>)"

definition offloaded_info :: "rollout_instance \<Rightarrow> schedule_info" where
  "offloaded_info s = \<lparr>info_id = instance_id s, info_data = None, info_report = None, info_action = Offloaded\<rparr>"

definition offload :: "loop_config \<Rightarrow> rollout_instance \<Rightarrow> rollout_instance" where
  "offload cfg s = s\<lparr>loop_phase := Left,
     responses := (if use_auto_scheduler cfg then responses s @ [offloaded_info s] else responses s)\<rparr>"

section \<open>The handler of requests\<close>

definition report_info :: "rollout_instance \<Rightarrow> schedule_info" where
  "report_info s = \<lparr>info_id = instance_id s, info_data = None, info_report = Some \<lparr>rep_total_tasks = num_seq s,
     rep_completed_tasks = num_seq_returned s, rep_running_tasks = num_seq_running s\<rparr>, info_action = Default\<rparr>"

definition take_in :: "seq_group list \<Rightarrow> rollout_instance \<Rightarrow> rollout_instance res" where
  "take_in groups s =
     rbind (rfold (\<lambda>s g. add_task g s) (if running_groups s = [] then notify s else s) groups) (\<lambda>s'.
     Inr (s'\<lparr>received := received s @ ids_of groups\<rparr>))"

definition handle :: "schedule_info \<Rightarrow> rollout_instance \<Rightarrow> rollout_instance res" where
  "handle req s =
     (case info_action req of
        Report \<Rightarrow> Inr (s\<lparr>responses := responses s @ [report_info s], asked := asked s @ [Report]\<rparr>)
      | Migrate_In \<Rightarrow> (case info_data req of None \<Rightarrow> Inl TypeError | Some groups \<Rightarrow> take_in groups s)
      | Migrate_Out \<Rightarrow> Inr (s\<lparr>handler := Migrating_Out, asked := asked s @ [Migrate_Out]\<rparr>)
      | Wait_For_Finish \<Rightarrow> Inr (s\<lparr>handler := Finishing, asked := asked s @ [Wait_For_Finish]\<rparr>)
      | Finish \<Rightarrow> Inr (s\<lparr>handler := Finishing, asked := asked s @ [Finish]\<rparr>)
      | _ \<Rightarrow> Inl ValueError)"

definition migrated_info :: "rollout_instance \<Rightarrow> schedule_info" where
  "migrated_info s = \<lparr>info_id = instance_id s, info_data = Some (aborted_list s), info_report = None, info_action = Default\<rparr>"

text \<open>The handler after it has found that no task is running.\<close>

definition handler_goes_on :: "rollout_instance \<Rightarrow> rollout_instance" where
  "handler_goes_on s =
     (case handler s of
        Ready \<Rightarrow> s
      | Migrating_Out \<Rightarrow> s\<lparr>handler := Ready, responses := responses s @ [migrated_info s]\<rparr>
      | Finishing \<Rightarrow> (notify s)\<lparr>handler := Ready\<rparr>)"

section \<open>Steps\<close>

text \<open>
  The steps of the instance itself: the rollout loop, the handler while it polls, and
  the tasks when they start.
\<close>

inductive internal_step :: "loop_config \<Rightarrow> rollout_instance \<Rightarrow> rollout_instance \<Rightarrow> bool" for cfg where
  returned: "loop_phase s = Generating waited \<Longrightarrow> tasks_returned cfg waited ks s \<Longrightarrow> internal_step cfg s (s\<lparr>loop_phase := Marking ks\<rparr>)"
| marked: "loop_phase s = Marking (k # ks) \<Longrightarrow> mark_returned cfg k ks s = Inr s' \<Longrightarrow> internal_step cfg s s'"
| put: "loop_phase s = Putting k ks \<Longrightarrow> mark_put cfg k ks s = Inr s' \<Longrightarrow> internal_step cfg s s'"
| woken: "loop_phase s = Waiting \<Longrightarrow> exit_set s \<Longrightarrow> internal_step cfg s (wake cfg s)"
| offloaded: "loop_phase s = Offloading \<Longrightarrow> internal_step cfg s (offload cfg s)"
| polled: "handler s \<noteq> Ready \<Longrightarrow> running_groups s = [] \<Longrightarrow> internal_step cfg s (handler_goes_on s)"
| started: "g \<in> set (running_groups s) \<Longrightarrow> gen_tasks s (group_id g) = Created \<Longrightarrow> start_task cfg g s = Inr s' \<Longrightarrow> internal_step cfg s s'"

text \<open>
  What the engine may answer for a sequence: a reason the code knows, no more tokens than
  it was allowed, and an abort only after the handler has called \<open>abort_generation\<close>, which
  it does when it is asked to migrate out.
\<close>

definition engine_answer :: "loop_config \<Rightarrow> rollout_instance \<Rightarrow> seq_group \<Rightarrow> nat \<Rightarrow> seq_result \<Rightarrow> bool" where
  "engine_answer cfg s g i r \<longleftrightarrow> finish r \<in> {ABORT, STOP, LENGTH}
     \<and> (finish r = ABORT \<longrightarrow> Migrate_Out \<in> set (asked s))
     \<and> int (length (output_ids r)) \<le> max_new_tokens cfg - int (length (tokens g i))"

text \<open>
  The groups that a request may bring in: the sequences of each have all returned, and
  some of them were aborted. This is what \<open>Migrate_Out\<close> hands back.
\<close>

definition migratable :: "int \<Rightarrow> seq_group \<Rightarrow> bool" where
  "migratable m g \<longleftrightarrow> group_inv m g \<and> num_running g = 0 \<and> num_aborted g \<noteq> 0"

text \<open>
  What the scheduler asks, as \<open>RolloutManager\<close> does it: one request at a time, no group
  that the instance has had, never an empty list, and after \<open>Migrate_Out\<close> only the end.
\<close>

definition stopping :: "rollout_instance \<Rightarrow> bool" where
  "stopping s \<longleftrightarrow> Finish \<in> set (asked s) \<or> Wait_For_Finish \<in> set (asked s)"

definition request_allowed :: "loop_config \<Rightarrow> schedule_info \<Rightarrow> rollout_instance \<Rightarrow> bool" where
  "request_allowed cfg req s \<longleftrightarrow> handler s = Ready \<and> \<not> stopping s
     \<and> info_action req \<in> {Report, Migrate_In, Migrate_Out, Finish, Wait_For_Finish}
     \<and> (Migrate_Out \<in> set (asked s) \<longrightarrow> info_action req \<in> {Finish, Wait_For_Finish})
     \<and> (info_action req = Migrate_In \<longrightarrow> (\<exists>gs. info_data req = Some gs \<and> gs \<noteq> [] \<and> distinct (ids_of gs)
          \<and> set (ids_of gs) \<inter> set (received s) = {} \<and> list_all (migratable (max_new_tokens cfg)) gs))"

inductive instance_step :: "loop_config \<Rightarrow> rollout_instance \<Rightarrow> rollout_instance \<Rightarrow> bool" for cfg where
  internal: "internal_step cfg s s' \<Longrightarrow> instance_step cfg s s'"
| answered: "g \<in> set (running_groups s) \<Longrightarrow> gen_tasks s (group_id g) = Collecting is \<Longrightarrow> i \<in> set is
     \<Longrightarrow> engine_answer cfg s g i r \<Longrightarrow> take_answer g is i r s = Inr s' \<Longrightarrow> instance_step cfg s s'"
| asked_for: "request_allowed cfg req s \<Longrightarrow> handle req s = Inr s' \<Longrightarrow> instance_step cfg s s'"

inductive_cases internal_stepE: "internal_step cfg s s'"
inductive_cases instance_stepE: "instance_step cfg s s'"

inductive instance_run :: "loop_config \<Rightarrow> rollout_instance \<Rightarrow> rollout_instance \<Rightarrow> bool" for cfg where
  start: "instance_run cfg s s"
| step: "instance_run cfg s t \<Longrightarrow> instance_step cfg t u \<Longrightarrow> instance_run cfg s u"

section \<open>The invariant\<close>

definition live :: "rollout_instance \<Rightarrow> bool" where
  "live s \<longleftrightarrow> loop_phase s \<noteq> Offloading \<and> loop_phase s \<noteq> Left"

text \<open>The groups in the answers, which were handed back to the scheduler.\<close>

definition answer_groups :: "schedule_info \<Rightarrow> seq_group list" where
  "answer_groups a = (case info_data a of None \<Rightarrow> [] | Some gs \<Rightarrow> gs)"

definition handed_back :: "rollout_instance \<Rightarrow> seq_group list" where
  "handed_back s = concat (map answer_groups (responses s))"

text \<open>Every group that came in runs, was put into the channel, or is aborted; at the end the aborted ones were handed back.\<close>

definition ids_ok :: "rollout_instance \<Rightarrow> bool" where
  "ids_ok s \<longleftrightarrow> distinct (received s)
     \<and> mset (received s) = mset (ids_of (running_groups s)) + mset (ids_of (put_results s))
         + mset (ids_of (if live s then aborted_list s else handed_back s))
     \<and> mset (ids_of (done_groups s)) = (if live s then mset (ids_of (put_results s)) else {#})
     \<and> (\<not> live s \<longrightarrow> running_groups s = [] \<and> aborted_list s = [])"

definition out_ok :: "rollout_instance \<Rightarrow> bool" where
  "out_ok s \<longleftrightarrow> (aborted_list s \<noteq> [] \<longrightarrow> Migrate_Out \<in> set (asked s))
     \<and> (live s \<longrightarrow> handed_back s = (if Migrate_Out \<in> set (asked s) \<and> handler s \<noteq> Migrating_Out then aborted_list s else []))
     \<and> (Migrate_Out \<in> set (asked s) \<and> handler s \<noteq> Migrating_Out \<longrightarrow> running_groups s = [])"

text \<open>
  A group and its task. While the answers are collected, the sequences that are not
  waited for have a result and are completed or aborted, and aborted only by a request.
\<close>

definition task_inv :: "int \<Rightarrow> bool \<Rightarrow> seq_group \<Rightarrow> gen_task \<Rightarrow> bool" where
  "task_inv m out g t \<longleftrightarrow>
     (case t of
        Created \<Rightarrow> group_inv m g \<and> ready_group g
      | Collecting is \<Rightarrow> 0 < group_size g \<and> length (results g) = group_size g
          \<and> distinct is \<and> set is \<subseteq> {..<group_size g}
          \<and> idx_completed g \<inter> idx_aborted g = {}
          \<and> idx_completed g \<union> idx_aborted g = {..<group_size g} - set is
          \<and> (\<forall>i<group_size g. i \<notin> set is \<longrightarrow> results g ! i \<noteq> None)
          \<and> (\<forall>i<group_size g. \<forall>r. results g ! i = Some r \<longrightarrow> int (length (output_ids r)) \<le> m)
          \<and> (idx_aborted g \<noteq> {} \<longrightarrow> out))"

abbreviation asked_out :: "rollout_instance \<Rightarrow> bool" where
  "asked_out s \<equiv> Migrate_Out \<in> set (asked s)"

definition groups_ok :: "int \<Rightarrow> rollout_instance \<Rightarrow> bool" where
  "groups_ok m s \<longleftrightarrow> list_all (\<lambda>g. task_inv m (asked_out s) g (gen_tasks s (group_id g))) (running_groups s)
     \<and> list_all (migratable m) (aborted_list s) \<and> list_all all_completed (put_results s)
     \<and> list_all (migratable m) (handed_back s)"

definition returned_ok :: "int list \<Rightarrow> rollout_instance \<Rightarrow> bool" where
  "returned_ok ks s \<longleftrightarrow> ks \<noteq> [] \<and> distinct ks \<and> set ks \<subseteq> set (ids_of (running_groups s))
     \<and> list_all (\<lambda>k. gen_tasks s k = Collecting []) ks"

definition put_ok :: "int \<Rightarrow> rollout_instance \<Rightarrow> bool" where
  "put_ok k s \<longleftrightarrow> list_all (\<lambda>g. group_id g = k \<longrightarrow> all_completed g) (running_groups s)"

definition phase_ok :: "rollout_instance \<Rightarrow> bool" where
  "phase_ok s \<longleftrightarrow>
     (case loop_phase s of
        Generating waited \<Rightarrow> waited \<noteq> [] \<and> distinct waited \<and> set waited \<subseteq> set (ids_of (running_groups s))
      | Marking ks \<Rightarrow> returned_ok ks s
      | Putting k ks \<Rightarrow> returned_ok (k # ks) s \<and> put_ok k s
      | Waiting \<Rightarrow> running_groups s = [] \<or> exit_set s
      | _ \<Rightarrow> stopping s \<and> handler s = Ready)
     \<and> (exit_set s \<longrightarrow> loop_phase s = Waiting) \<and> (exit_set s \<and> running_groups s = [] \<longrightarrow> stopping s \<and> handler s = Ready)"

definition handler_ok :: "rollout_instance \<Rightarrow> bool" where
  "handler_ok s \<longleftrightarrow> (handler s = Migrating_Out \<longrightarrow> Migrate_Out \<in> set (asked s) \<and> \<not> stopping s) \<and> (handler s = Finishing \<longrightarrow> stopping s)
     \<and> (stopping s \<and> live s \<longrightarrow> handler s = Finishing \<or> exit_set s \<and> running_groups s = [])"

text \<open>The answers match the requests in order; at most one request is open.\<close>

definition open_requests :: "rollout_instance \<Rightarrow> rollout_action list" where
  "open_requests s =
     (if handler s = Migrating_Out then [Migrate_Out] else if stopping s \<and> loop_phase s \<noteq> Left then [last (asked s)] else [])"

definition answers :: "rollout_instance \<Rightarrow> rollout_action list \<Rightarrow> schedule_info list \<Rightarrow> bool" where
  "answers s acts as \<longleftrightarrow> list_all2 (\<lambda>act a. reply_ok act a \<and> info_id a = instance_id s) acts as"

definition replies_ok :: "rollout_instance \<Rightarrow> bool" where
  "replies_ok s \<longleftrightarrow> (\<exists>acts. asked s = acts @ open_requests s \<and> answers s acts (responses s))
     \<and> (stopping s \<longrightarrow> last (asked s) \<in> {Finish, Wait_For_Finish})"

definition instance_inv :: "int \<Rightarrow> rollout_instance \<Rightarrow> bool" where
  "instance_inv m s \<longleftrightarrow> ids_ok s \<and> out_ok s \<and> groups_ok m s \<and> phase_ok s \<and> handler_ok s \<and> replies_ok s"

lemmas inv_defs = instance_inv_def ids_ok_def out_ok_def groups_ok_def phase_ok_def handler_ok_def replies_ok_def

lemma ids_of_simps [simp]: "ids_of [] = []" "ids_of (g # gs) = group_id g # ids_of gs" "ids_of (gs @ hs) = ids_of gs @ ids_of hs"
  "ids_of gs = [] \<longleftrightarrow> gs = []"
  by (simp_all add: ids_of_def)

lemma inv_distinct:
  assumes "ids_ok s"
  shows "distinct (ids_of (running_groups s))" "live s \<Longrightarrow> distinct (ids_of (running_groups s) @ ids_of (done_groups s) @ ids_of (aborted_list s))"
proof -
  let ?gone = "ids_of (if live s then aborted_list s else handed_back s)"
  have "mset (received s) = mset (ids_of (running_groups s) @ ids_of (put_results s) @ ?gone)" using assms by (simp add: ids_ok_def)
  from mset_eq_imp_distinct_iff [OF this] assms show "distinct (ids_of (running_groups s))" by (simp add: ids_ok_def)
  assume "live s"
  then have "mset (received s) = mset (ids_of (running_groups s) @ ids_of (done_groups s) @ ids_of (aborted_list s))"
    using assms by (simp add: ids_ok_def)
  from mset_eq_imp_distinct_iff [OF this] assms
  show "distinct (ids_of (running_groups s) @ ids_of (done_groups s) @ ids_of (aborted_list s))" by (simp add: ids_ok_def)
qed

text \<open>Taking a group out of the running ones.\<close>

lemma pop_ok:
  assumes "i \<in> set (ids_of gs)" "distinct (ids_of gs)"
  shows "\<exists>g. filter (\<lambda>h. group_id h = i) gs = [g] \<and> g \<in> set gs \<and> group_id g = i
    \<and> mset (ids_of gs) = {#i#} + mset (ids_of (filter (\<lambda>h. group_id h \<noteq> i) gs))"
  using assms
proof (induction gs)
  case (Cons h gs)
  show ?case
  proof (cases "group_id h = i")
    case True
    then have "i \<notin> group_id ` set gs" using Cons.prems(2) by (simp add: ids_of_def)
    then have n: "\<forall>x\<in>set gs. group_id x \<noteq> i" by blast
    then have "filter (\<lambda>h. group_id h = i) gs = []" "filter (\<lambda>h. group_id h \<noteq> i) gs = gs" by (simp_all add: filter_empty_conv)
    then show ?thesis using True by simp
  next
    case False
    then have "i \<in> set (ids_of gs)" "distinct (ids_of gs)" using Cons.prems by simp_all
    from Cons.IH [OF this] False show ?thesis by auto
  qed
qed simp

section \<open>The steps keep the invariant\<close>

lemma pop_group_ok:
  assumes "i \<in> set (ids_of (running_groups s))" "distinct (ids_of (running_groups s))"
  shows "\<exists>g. pop_group i s = Inr (g, s\<lparr>running_groups := filter (\<lambda>h. group_id h \<noteq> i) (running_groups s)\<rparr>)
    \<and> g \<in> set (running_groups s) \<and> group_id g = i
    \<and> mset (ids_of (running_groups s)) = {#i#} + mset (ids_of (filter (\<lambda>h. group_id h \<noteq> i) (running_groups s)))"
  using pop_ok [OF assms] by (auto simp: pop_group_def)

section \<open>A group and its task\<close>

lemma task_returned:
  assumes "task_inv m out g (Collecting [])"
  shows "group_inv m g" "num_running g = 0" "\<not> all_completed g \<Longrightarrow> migratable m g \<and> out"
proof -
  have t: "0 < group_size g" "length (results g) = group_size g" "idx_completed g \<inter> idx_aborted g = {}"
    "idx_completed g \<union> idx_aborted g = {..<group_size g}" "\<forall>i<group_size g. results g ! i \<noteq> None"
    "\<forall>i<group_size g. \<forall>r. results g ! i = Some r \<longrightarrow> int (length (output_ids r)) \<le> m" "idx_aborted g \<noteq> {} \<longrightarrow> out"
    using assms by (simp_all add: task_inv_def)
  then show g: "group_inv m g" by (simp add: group_inv_def)
  have fin: "finite (idx_completed g)" "finite (idx_aborted g)" using t(4) by (metis finite_Un finite_lessThan)+
  have "card (idx_completed g) + card (idx_aborted g) = group_size g"
    using card_Un_disjoint [OF fin t(3)] t(4) by simp
  then show n: "num_running g = 0" by (simp add: num_running_def num_returned_def num_completed_def num_aborted_def)
  assume "\<not> all_completed g"
  then have "num_aborted g \<noteq> 0" using n by (auto simp: all_completed_def num_running_def num_returned_def)
  moreover from this have "idx_aborted g \<noteq> {}" by (auto simp: num_aborted_def)
  ultimately show "migratable m g \<and> out" using g n t(7) by (simp add: migratable_def)
qed

lemma task_inv_nonneg: "task_inv m out g t \<Longrightarrow> 0 \<le> num_running g"
proof -
  assume t: "task_inv m out g t"
  have d: "idx_completed g \<inter> idx_aborted g = {}" and sub: "idx_completed g \<union> idx_aborted g \<subseteq> {..<group_size g}"
    using t by (auto simp: task_inv_def group_inv_def split: gen_task.splits)
  have "finite (idx_completed g)" "finite (idx_aborted g)" using sub by (auto intro: finite_subset)
  then have "card (idx_completed g) + card (idx_aborted g) = card (idx_completed g \<union> idx_aborted g)"
    using d by (simp add: card_Un_disjoint)
  also have "\<dots> \<le> group_size g" using card_mono [OF _ sub] by simp
  finally show ?thesis by (simp add: num_running_def num_returned_def num_completed_def num_aborted_def)
qed

lemma task_inv_out: "task_inv m out g t \<Longrightarrow> out \<longrightarrow> out' \<Longrightarrow> task_inv m out' g t"
  by (auto simp: task_inv_def split: gen_task.splits)

lemma migratable_created: "migratable m g \<Longrightarrow> task_inv m out g Created"
  by (simp add: migratable_def task_inv_def ready_group_def)

text \<open>Starting a task does not fail: it sends the requests for the sequences that are not yet finished.\<close>

definition stop_engine :: "gen_request \<Rightarrow> seq_result" where
  "stop_engine req = \<lparr>output_ids = [], finish = STOP\<rparr>"

lemma start_task_ok:
  assumes "group_inv m g" "ready_group g" "0 \<le> m"
  shows "\<exists>g' reqs. start_requests m g = Inr (g', reqs) \<and> group_id g' = group_id g \<and> group_size g' = group_size g
    \<and> task_inv m out g' (Collecting (map fst reqs))"
proof -
  obtain S ks where s: "start_requests m g = Inr (part_done stop_engine m g S, map (request_of m g) ks)"
    and k: "distinct ks" "set ks \<inter> S = {}" "S \<union> set ks = {..<group_size g}"
    using start_requests_ok [OF assms(1,2), of stop_engine] by blast
  have ends: "ends stop_engine m g i" for i by (simp add: ends_def stop_engine_def)
  have eng: "engine_ok stop_engine" by (simp add: engine_ok_def stop_engine_def)
  have ks: "map fst (map (request_of m g) ks) = ks" by (simp add: request_of_def comp_def)
  let ?g = "part_done stop_engine m g S"
  have "int (length (output_ids r)) \<le> m" if "i < group_size g" "results ?g ! i = Some r" for i r
    using that final_length [OF assms(1) eng that(1) assms(3)] assms(1) by (auto simp: group_inv_def split: if_splits)
  moreover have "S = {..<group_size g} - set ks" using k(2,3) by blast
  ultimately have "task_inv m out ?g (Collecting ks)" using assms(1) k by (auto simp: task_inv_def ends group_inv_def)
  then show ?thesis using s ks by (intro exI [of _ ?g] exI [of _ "map (request_of m g) ks"]) (simp add: part_done_def)
qed

lemma take_answer_ok:
  assumes "task_inv m out g (Collecting is)" "i \<in> set is" "finish r \<in> {ABORT, STOP, LENGTH}" "finish r = ABORT \<longrightarrow> out"
    and "int (length (output_ids r)) \<le> m - int (length (tokens g i))"
  shows "\<exists>g'. record_sglang_result i r g = Inr g' \<and> group_id g' = group_id g \<and> group_size g' = group_size g
    \<and> task_inv m out g' (Collecting (remove1 i is))"
proof -
  have t: "0 < group_size g" "length (results g) = group_size g" "distinct is" "set is \<subseteq> {..<group_size g}"
    "idx_completed g \<inter> idx_aborted g = {}" "idx_completed g \<union> idx_aborted g = {..<group_size g} - set is"
    "\<forall>i<group_size g. i \<notin> set is \<longrightarrow> results g ! i \<noteq> None"
    "\<forall>i<group_size g. \<forall>r. results g ! i = Some r \<longrightarrow> int (length (output_ids r)) \<le> m" "idx_aborted g \<noteq> {} \<longrightarrow> out"
    using assms(1) by (simp_all add: task_inv_def)
  have i: "i < group_size g" using t(4) assms(2) by blast
  have fresh: "i \<notin> idx_completed g" "i \<notin> idx_aborted g" using t(6) assms(2) by blast+
  define r' where "r' = (case results g ! i of None \<Rightarrow> r | Some old \<Rightarrow> r\<lparr>output_ids := output_ids old @ output_ids r\<rparr>)"
  have len: "int (length (output_ids r')) \<le> m" using assms(5) by (auto simp: r'_def tokens_def split: option.splits)
  define g' where "g' = (if finish r = ABORT then g\<lparr>idx_aborted := insert i (idx_aborted g), results := (results g)[i := Some r']\<rparr>
    else g\<lparr>idx_completed := insert i (idx_completed g), results := (results g)[i := Some r']\<rparr>)"
  have rec: "record_sglang_result i r g = Inr g'"
    using assms(3) i t(2) by (auto simp: record_sglang_result_def g'_def r'_def)
  have f: "group_id g' = group_id g" "group_size g' = group_size g" "results g' = (results g)[i := Some r']"
    "idx_completed g' \<union> idx_aborted g' = insert i (idx_completed g \<union> idx_aborted g)"
    "idx_completed g' \<inter> idx_aborted g' = {}" "idx_aborted g' \<noteq> {} \<longrightarrow> out"
    using fresh t(5,9) assms(4) by (auto simp: g'_def)
  have un: "idx_completed g' \<union> idx_aborted g' = {..<group_size g} - set (remove1 i is)"
    unfolding f(4) t(6) set_remove1_eq [OF t(3)] using i by blast
  have "task_inv m out g' (Collecting (remove1 i is))"
    unfolding task_inv_def gen_task.case f(2,3) un
    using t(1-4,7,8) f(5,6) i len set_remove1_eq [OF t(3)] by (auto simp: nth_list_update)
  then show ?thesis using rec f(1,2) by blast
qed

section \<open>The steps keep the invariant\<close>

text \<open>What becomes of the state when group \<open>g\<close> is marked.\<close>

definition marked_state :: "seq_group \<Rightarrow> rollout_instance \<Rightarrow> rollout_instance" where
  "marked_state g s =
     (if all_completed g
      then s\<lparr>running_groups := filter (\<lambda>h. group_id h \<noteq> group_id g) (running_groups s), done_groups := done_groups s @ [g],
             put_results := put_results s @ [g]\<rparr>
      else s\<lparr>running_groups := filter (\<lambda>h. group_id h \<noteq> group_id g) (running_groups s), aborted_list := aborted_list s @ [g]\<rparr>)"

lemma mark_ok:
  assumes "ids_ok s" "live s" "k \<in> set (ids_of (running_groups s))"
  shows "\<exists>g. g \<in> set (running_groups s) \<and> group_id g = k
    \<and> mset (ids_of (running_groups s)) = {#k#} + mset (ids_of (filter (\<lambda>h. group_id h \<noteq> k) (running_groups s)))
    \<and> mark_returned cfg k ks s = Inr (if all_completed g then s\<lparr>loop_phase := Putting k ks\<rparr> else after_mark cfg ks (marked_state g s))
    \<and> (all_completed g \<longrightarrow> mark_put cfg k ks s = Inr (after_mark cfg ks (marked_state g s)))"
proof -
  note d = inv_distinct [OF assms(1)]
  from d(2) [OF assms(2)] assms(3) have n: "k \<notin> set (ids_of (done_groups s))" "k \<notin> set (ids_of (aborted_list s))" by auto
  obtain g where "pop_group k s = Inr (g, s\<lparr>running_groups := filter (\<lambda>h. group_id h \<noteq> k) (running_groups s)\<rparr>)"
    "g \<in> set (running_groups s)" "group_id g = k"
    "mset (ids_of (running_groups s)) = {#k#} + mset (ids_of (filter (\<lambda>h. group_id h \<noteq> k) (running_groups s)))"
    using pop_group_ok [OF assms(3) d(1)] by blast
  then show ?thesis using n
    by (intro exI [of _ g]) (simp add: mark_returned_def mark_put_def mark_done_def mark_aborted_def marked_state_def)
qed

lemma same_id: "distinct (ids_of gs) \<Longrightarrow> g \<in> set gs \<Longrightarrow> h \<in> set gs \<Longrightarrow> group_id g = group_id h \<Longrightarrow> g = h"
  by (auto simp: ids_of_def distinct_map inj_on_def)

lemma stopping_simps [simp]:
  "stopping (s\<lparr>running_groups := a\<rparr>) = stopping s" "stopping (s\<lparr>loop_phase := b\<rparr>) = stopping s"
  "stopping (s\<lparr>done_groups := c\<rparr>) = stopping s" "stopping (s\<lparr>aborted_list := c\<rparr>) = stopping s"
  "stopping (s\<lparr>exit_set := d\<rparr>) = stopping s" "stopping (s\<lparr>put_results := c\<rparr>) = stopping s"
  "stopping (s\<lparr>responses := f\<rparr>) = stopping s" "stopping (s\<lparr>handler := h\<rparr>) = stopping s"
  "stopping (s\<lparr>received := k\<rparr>) = stopping s"
  "stopping (s\<lparr>gen_tasks := t\<rparr>) = stopping s"
  by (simp_all add: stopping_def)

lemma handed_back_simps [simp]:
  "handed_back (s\<lparr>running_groups := a\<rparr>) = handed_back s" "handed_back (s\<lparr>loop_phase := b\<rparr>) = handed_back s"
  "handed_back (s\<lparr>done_groups := c\<rparr>) = handed_back s" "handed_back (s\<lparr>aborted_list := c\<rparr>) = handed_back s"
  "handed_back (s\<lparr>exit_set := d\<rparr>) = handed_back s" "handed_back (s\<lparr>put_results := c\<rparr>) = handed_back s"
  "handed_back (s\<lparr>handler := h\<rparr>) = handed_back s" "handed_back (s\<lparr>asked := as\<rparr>) = handed_back s"
  "handed_back (s\<lparr>received := k\<rparr>) = handed_back s" "handed_back (s\<lparr>gen_tasks := t\<rparr>) = handed_back s"
  "concat (map answer_groups (responses s)) = handed_back s"
  "handed_back (s\<lparr>responses := as' @ [a']\<rparr>) = concat (map answer_groups as') @ answer_groups a'"
  by (simp_all add: handed_back_def)

lemma answer_groups_simps [simp]:
  "answer_groups (report_info s) = []" "answer_groups (offloaded_info s) = []" "answer_groups (migrated_info s) = aborted_list s"
  by (simp_all add: answer_groups_def report_info_def offloaded_info_def migrated_info_def)

lemma answers_snoc:
  assumes "answers s acts as" "reply_ok act a" "info_id a = instance_id s" "instance_id t = instance_id s"
  shows "answers t (acts @ [act]) (as @ [a])"
  using assms by (auto simp: answers_def intro: list_all2_appendI)

lemma replies_ok_cong:
  assumes "asked t = asked s" "handler t = handler s" "responses t = responses s" "instance_id t = instance_id s"
    and "loop_phase t = Left \<longleftrightarrow> loop_phase s = Left"
  shows "replies_ok t \<longleftrightarrow> replies_ok s"
proof -
  have "stopping t = stopping s" using assms(1) by (simp add: stopping_def)
  then have "open_requests t = open_requests s" using assms by (simp add: open_requests_def)
  then show ?thesis using assms \<open>stopping t = stopping s\<close> by (simp add: replies_ok_def answers_def)
qed

text \<open>A step that only moves the phase of a live loop.\<close>

lemma phase_inv:
  assumes "instance_inv m s" "live s" "p \<noteq> Offloading" "p \<noteq> Left" "phase_ok (s\<lparr>loop_phase := p\<rparr>)"
  shows "instance_inv m (s\<lparr>loop_phase := p\<rparr>)"
proof -
  have live: "live (s\<lparr>loop_phase := p\<rparr>)" using assms(3,4) by (simp add: live_def)
  have "ids_ok (s\<lparr>loop_phase := p\<rparr>)" using assms(1,2) live by (simp add: instance_inv_def ids_ok_def)
  moreover have "out_ok (s\<lparr>loop_phase := p\<rparr>)" using assms(1,2) live by (simp add: instance_inv_def out_ok_def)
  moreover have "groups_ok m (s\<lparr>loop_phase := p\<rparr>)" using assms(1) by (simp add: instance_inv_def groups_ok_def)
  moreover have "handler_ok (s\<lparr>loop_phase := p\<rparr>)" using assms(1,2) live by (simp add: instance_inv_def handler_ok_def)
  moreover have "replies_ok (s\<lparr>loop_phase := p\<rparr>)"
    using assms(1,2,4) by (subst replies_ok_cong [of _ s]) (simp_all add: instance_inv_def live_def)
  ultimately show ?thesis using assms(5) by (simp add: instance_inv_def)
qed

lemma returned_inv:
  assumes "instance_inv m s" "loop_phase s = Generating waited" "tasks_returned cfg waited ks s"
  shows "instance_inv m (s\<lparr>loop_phase := Marking ks\<rparr>)"
proof (rule phase_inv [OF assms(1)])
  show "live s" using assms(2) by (simp add: live_def)
  have "returned_ok ks s"
    using assms by (auto simp: returned_ok_def tasks_returned_def instance_inv_def phase_ok_def)
  then show "phase_ok (s\<lparr>loop_phase := Marking ks\<rparr>)"
    using assms(1,2) by (simp add: instance_inv_def phase_ok_def) (simp add: returned_ok_def)
qed simp_all

lemma popped_inv:
  assumes "instance_inv m s" "live s" "\<not> exit_set s" "returned_ok (k # ks) s" "use_auto_scheduler cfg"
    and "g \<in> set (running_groups s)" "group_id g = k"
    and "mset (ids_of (running_groups s)) = {#k#} + mset (ids_of (filter (\<lambda>h. group_id h \<noteq> k) (running_groups s)))"
  shows "instance_inv m (after_mark cfg ks (marked_state g s))"
proof -
  let ?R = "filter (\<lambda>h. group_id h \<noteq> k) (running_groups s)"
  have i: "ids_ok s" "out_ok s" "groups_ok m s" "handler_ok s" using assms(1) by (simp_all add: instance_inv_def)
  have ids: "set (ids_of ?R) = set (ids_of (running_groups s)) - {k}" by (auto simp: ids_of_def)
  have sub: "set ks \<subseteq> set (ids_of ?R)" unfolding ids using assms(4) by (auto simp: returned_ok_def)
  have dis: "distinct (ids_of ?R)" using inv_distinct(1) [OF i(1)] by (simp add: ids_of_def distinct_map_filter)
  have ne: "running_groups s \<noteq> []" using assms(6) by auto
  have "task_inv m (asked_out s) g (gen_tasks s (group_id g))" using i(3) assms(6) by (simp add: groups_ok_def list_all_iff)
  moreover have "gen_tasks s (group_id g) = Collecting []" using assms(4,7) by (simp add: returned_ok_def)
  ultimately have ab: "\<not> all_completed g \<Longrightarrow> migratable m g \<and> asked_out s" by (metis task_returned(3))
  have mo: "asked_out s \<Longrightarrow> handler s = Migrating_Out" using i(2) ne by (auto simp: out_ok_def)
  define t where "t = after_mark cfg ks (marked_state g s)"
  let ?s = "marked_state g s"
  have run: "running_groups t = ?R" "asked t = asked s" "handler t = handler s" "gen_tasks t = gen_tasks s"
    "exit_set t = exit_set s" "responses t = responses s" "instance_id t = instance_id s"
    "received t = received s" "handed_back t = handed_back s"
    "live t" "put_results t = put_results ?s"
    "done_groups t = done_groups ?s" "aborted_list t = aborted_list ?s"
    "loop_phase t = (if ks \<noteq> [] then Marking ks else if ?R = [] then Waiting else Generating (ids_of ?R))"
    using assms(2,5,7) by (auto simp: t_def after_mark_def loop_head_def marked_state_def live_def)
  have st: "stopping t = stopping s" by (simp add: stopping_def run)
  have "ids_ok t"
    using i(1) assms(2,7,8) run(10) unfolding ids_ok_def run by (auto simp: marked_state_def)
  moreover have "out_ok t"
    using i(2) assms(2) run(10) ab mo ne unfolding out_ok_def run by (auto simp: marked_state_def)
  moreover have "groups_ok m t"
    using i(3) ab unfolding groups_ok_def run by (auto simp: marked_state_def list_all_iff)
  moreover have "phase_ok t"
    using assms(3,4) sub dis unfolding phase_ok_def run returned_ok_def st by (auto simp: ids_of_def)
  moreover have "handler_ok t"
    using i(4) assms(2,3) run(10) unfolding handler_ok_def run st by blast
  moreover have "replies_ok t"
    using assms(1,2) run by (subst replies_ok_cong [of _ s]) (simp_all add: instance_inv_def live_def)
  ultimately show ?thesis by (simp add: instance_inv_def t_def)
qed

lemma marked_inv:
  assumes "instance_inv m s" "loop_phase s = Marking (k # ks)" "mark_returned cfg k ks s = Inr s'" "use_auto_scheduler cfg"
  shows "instance_inv m s'"
proof -
  have live: "live s" using assms(2) by (simp add: live_def)
  have r: "returned_ok (k # ks) s" and no_exit: "\<not> exit_set s" using assms(1,2) by (auto simp: instance_inv_def phase_ok_def)
  then have k: "k \<in> set (ids_of (running_groups s))" by (simp add: returned_ok_def)
  have i: "ids_ok s" using assms(1) by (simp add: instance_inv_def)
  obtain g where g: "g \<in> set (running_groups s)" "group_id g = k"
    "mset (ids_of (running_groups s)) = {#k#} + mset (ids_of (filter (\<lambda>h. group_id h \<noteq> k) (running_groups s)))"
    "mark_returned cfg k ks s = Inr (if all_completed g then s\<lparr>loop_phase := Putting k ks\<rparr> else after_mark cfg ks (marked_state g s))"
    using mark_ok [OF i live k] by blast
  show ?thesis
  proof (cases "all_completed g")
    case False
    then show ?thesis using popped_inv [OF assms(1) live no_exit r assms(4) g(1-3)] g(4) assms(3) by simp
  next
    case True
    have "put_ok k s" using True g(1,2) same_id [OF inv_distinct(1) [OF i]] by (auto simp: put_ok_def list_all_iff)
    then have "phase_ok (s\<lparr>loop_phase := Putting k ks\<rparr>)"
      using r no_exit by (simp add: phase_ok_def put_ok_def) (simp add: returned_ok_def)
    then show ?thesis using phase_inv [OF assms(1) live] True g(4) assms(3) by simp
  qed
qed

lemma put_inv:
  assumes "instance_inv m s" "loop_phase s = Putting k ks" "mark_put cfg k ks s = Inr s'" "use_auto_scheduler cfg"
  shows "instance_inv m s'"
proof -
  have live: "live s" using assms(2) by (simp add: live_def)
  have r: "returned_ok (k # ks) s" "put_ok k s" and no_exit: "\<not> exit_set s"
    using assms(1,2) by (auto simp: instance_inv_def phase_ok_def)
  then have k: "k \<in> set (ids_of (running_groups s))" by (simp add: returned_ok_def)
  have i: "ids_ok s" using assms(1) by (simp add: instance_inv_def)
  obtain g where g: "g \<in> set (running_groups s)" "group_id g = k"
    "mset (ids_of (running_groups s)) = {#k#} + mset (ids_of (filter (\<lambda>h. group_id h \<noteq> k) (running_groups s)))"
    "all_completed g \<longrightarrow> mark_put cfg k ks s = Inr (after_mark cfg ks (marked_state g s))"
    using mark_ok [OF i live k] by blast
  have "all_completed g" using r(2) g(1,2) by (simp add: put_ok_def list_all_iff)
  then show ?thesis using popped_inv [OF assms(1) live no_exit r(1) assms(4) g(1-3)] g(4) assms(3) by simp
qed

lemma woken_inv:
  assumes "instance_inv m s" "loop_phase s = Waiting" "exit_set s" "reloads_weights cfg" "use_auto_scheduler cfg"
  shows "instance_inv m (wake cfg s)"
proof (cases "running_groups s = []")
  case False
  have h: "handler_ok s" using assms(1) by (simp add: instance_inv_def)
  define t where "t = wake cfg s"
  have t: "t = s\<lparr>exit_set := False, loop_phase := Generating (ids_of (running_groups s))\<rparr>" using False by (simp add: t_def wake_def loop_head_def)
  have live: "live s" "live t" using assms(2) by (simp_all add: live_def t)
  have "ids_ok t" using assms(1) live by (simp add: instance_inv_def ids_ok_def t)
  moreover have "out_ok t" using assms(1) live by (simp add: instance_inv_def out_ok_def t)
  moreover have "groups_ok m t" using assms(1) by (simp add: instance_inv_def groups_ok_def t)
  moreover have "phase_ok t" using False inv_distinct(1) assms(1) by (simp add: phase_ok_def t instance_inv_def)
  moreover have th: "handler t = handler s" "asked t = asked s" "running_groups t = running_groups s" "stopping t = stopping s"
    by (simp_all add: t)
  have "handler_ok t" using h live False unfolding handler_ok_def th by blast
  moreover have "replies_ok t" using assms(1,2) by (subst replies_ok_cong [of _ s]) (simp_all add: instance_inv_def t)
  ultimately show ?thesis by (simp add: instance_inv_def t_def)
next
  case True
  define t where "t = wake cfg s"
  have t: "t = s\<lparr>exit_set := False, aborted_list := [], done_groups := [], running_groups := [], loop_phase := Offloading\<rparr>"
    using True assms(4,5) by (simp add: t_def wake_def loop_head_def status_clear_def)
  have st: "stopping s" "handler s = Ready" using assms(1,3) True by (simp_all add: instance_inv_def phase_ok_def)
  have live: "live s" "\<not> live t" using assms(2) by (simp_all add: live_def t)
  have hb: "handed_back s = aborted_list s"
    using assms(1) live(1) st(2) by (auto simp: instance_inv_def out_ok_def)
  have "ids_ok t" using assms(1) live hb True by (simp add: instance_inv_def ids_ok_def) (simp add: t)
  moreover have "out_ok t" using assms(1) live by (simp add: instance_inv_def out_ok_def) (simp add: t)
  moreover have "groups_ok m t" using assms(1) by (simp add: instance_inv_def groups_ok_def t)
  moreover have "phase_ok t" using st by (simp add: phase_ok_def t)
  moreover have "handler_ok t" using st live by (simp add: handler_ok_def) (simp add: t)
  moreover have "replies_ok t" using assms(1,2) by (subst replies_ok_cong [of _ s]) (simp_all add: instance_inv_def t)
  ultimately show ?thesis by (simp add: instance_inv_def t_def)
qed

lemma offloaded_inv:
  assumes "instance_inv m s" "loop_phase s = Offloading" "use_auto_scheduler cfg"
  shows "instance_inv m (offload cfg s)"
proof -
  define t where "t = offload cfg s"
  have t: "t = s\<lparr>loop_phase := Left, responses := responses s @ [offloaded_info s]\<rparr>" using assms(3) by (simp add: t_def offload_def)
  have live: "\<not> live s" "\<not> live t" using assms(2) by (simp_all add: live_def t)
  have st: "stopping s" "handler s = Ready" using assms(1,2) by (simp_all add: instance_inv_def phase_ok_def)
  have "ids_ok t" using assms(1) live by (simp add: instance_inv_def ids_ok_def) (simp add: t)
  moreover have "out_ok t" using assms(1) live by (simp add: instance_inv_def out_ok_def) (simp add: t)
  moreover have "groups_ok m t" using assms(1) by (simp add: instance_inv_def groups_ok_def t)
  moreover have "phase_ok t" using assms(1,2) by (simp add: instance_inv_def phase_ok_def) (simp add: t)
  moreover have "handler_ok t" using st live by (simp add: handler_ok_def) (simp add: t)
  moreover have "replies_ok t"
  proof -
    obtain acts where a: "asked s = acts @ [last (asked s)]" "answers s acts (responses s)" "last (asked s) \<in> {Finish, Wait_For_Finish}"
      using assms(1,2) st by (auto simp: instance_inv_def replies_ok_def open_requests_def)
    have "answers t (asked s) (responses t)"
      using answers_snoc [OF a(2), of "last (asked s)" "offloaded_info s" t] a(1,3) by (auto simp: t offloaded_info_def reply_ok_def)
    then show ?thesis using st a(3) by (simp add: replies_ok_def open_requests_def) (simp add: t)
  qed
  ultimately show ?thesis by (simp add: instance_inv_def t_def)
qed

lemma polled_inv:
  assumes "instance_inv m s" "handler s \<noteq> Ready" "running_groups s = []"
  shows "instance_inv m (handler_goes_on s)"
proof -
  have ph: "loop_phase s = Waiting" "\<not> exit_set s"
    using assms by (auto simp: instance_inv_def phase_ok_def returned_ok_def split: rollout_phase.splits)
  have live: "live s" using ph by (simp add: live_def)
  show ?thesis
  proof (cases "handler s")
    case Migrating_Out
    define t where "t = handler_goes_on s"
    have t: "t = s\<lparr>handler := Ready, responses := responses s @ [migrated_info s]\<rparr>"
      using Migrating_Out by (simp add: t_def handler_goes_on_def)
    have hb: "handed_back s = []" using Migrating_Out assms(1) live by (simp add: instance_inv_def out_ok_def)
    have m: "Migrate_Out \<in> set (asked s)" "\<not> stopping s" using assms(1) Migrating_Out by (simp_all add: instance_inv_def handler_ok_def)
    have lt: "live t" using live by (simp add: live_def t)
    have "ids_ok t" using assms(1) live lt by (simp add: instance_inv_def ids_ok_def) (simp add: t)
    moreover have "out_ok t" using m lt assms(3) hb by (simp add: out_ok_def t)
    moreover have "groups_ok m t" using assms(1,3) by (simp add: instance_inv_def groups_ok_def t)
    moreover have "phase_ok t" using ph assms(3) by (simp add: phase_ok_def t)
    moreover have "handler_ok t" using m by (simp add: handler_ok_def t)
    moreover have "replies_ok t"
    proof -
      obtain acts where a: "asked s = acts @ [Migrate_Out]" "answers s acts (responses s)"
        using assms(1) Migrating_Out by (auto simp: instance_inv_def replies_ok_def open_requests_def)
      then have "answers t (asked s) (responses t)"
        using answers_snoc [OF a(2), of Migrate_Out "migrated_info s" t] by (simp add: t migrated_info_def reply_ok_def)
      then show ?thesis using m by (simp add: replies_ok_def open_requests_def) (simp add: t)
    qed
    ultimately show ?thesis by (simp add: instance_inv_def t_def)
  next
    case Finishing
    define t where "t = handler_goes_on s"
    have t: "t = s\<lparr>exit_set := True, handler := Ready\<rparr>" using Finishing by (simp add: t_def handler_goes_on_def notify_def)
    have m: "stopping s" using assms(1) Finishing by (simp add: instance_inv_def handler_ok_def)
    have lt: "live t" using live by (simp add: live_def t)
    have "ids_ok t" using assms(1) live lt by (simp add: instance_inv_def ids_ok_def) (simp add: t)
    moreover have "out_ok t" using assms(1,3) live lt Finishing by (auto simp: instance_inv_def out_ok_def t)
    moreover have "groups_ok m t" using assms(1,3) by (simp add: instance_inv_def groups_ok_def t)
    moreover have "phase_ok t" using ph m assms(3) by (simp add: phase_ok_def t)
    moreover have "handler_ok t" using m assms(3) by (simp add: handler_ok_def t)
    moreover have "replies_ok t" using assms(1) Finishing m ph
      by (simp add: instance_inv_def replies_ok_def open_requests_def answers_def t)
    ultimately show ?thesis by (simp add: instance_inv_def t_def)
  qed (use assms in simp)
qed

text \<open>A step of a task changes its group, not the identity of it.\<close>

lemma update_inv:
  assumes "instance_inv m s" "h \<in> set (running_groups s)" "group_id g = group_id h"
    and "gen_tasks s (group_id h) \<noteq> Collecting []" "task_inv m (asked_out s) g t"
  shows "instance_inv m (update_group g t s)"
proof -
  define u where "u = update_group g t s"
  let ?f = "\<lambda>h. if group_id h = group_id g then g else h"
  have u: "u = s\<lparr>running_groups := map ?f (running_groups s), gen_tasks := (gen_tasks s)(group_id g := t)\<rparr>"
    by (simp add: u_def update_group_def)
  have ids: "ids_of (running_groups u) = ids_of (running_groups s)" by (simp add: u ids_of_def)
  have e: "running_groups u = [] \<longleftrightarrow> running_groups s = []" by (simp add: u)
  have f: "handler u = handler s" "asked u = asked s" "stopping u = stopping s" "loop_phase u = loop_phase s" "exit_set u = exit_set s"
    "live u = live s" "aborted_list u = aborted_list s" "handed_back u = handed_back s" "received u = received s"
    "put_results u = put_results s" "done_groups u = done_groups s" "responses u = responses s"
    by (simp_all add: u live_def)
  have i: "ids_ok s" "out_ok s" "groups_ok m s" "phase_ok s" "handler_ok s" using assms(1) by (simp_all add: instance_inv_def)
  have "ids_ok u" using i(1) ids e unfolding ids_ok_def f by simp
  moreover have "out_ok u" using i(2) e unfolding out_ok_def f by simp
  moreover have "groups_ok m u" using i(3) assms(5) unfolding groups_ok_def f by (auto simp: u list_all_iff)
  moreover have r: "returned_ok ks u \<and> group_id g \<notin> set ks" if "returned_ok ks s" for ks
  proof -
    have n: "group_id g \<notin> set ks" using that assms(3,4) by (auto simp: returned_ok_def list_all_iff)
    then have "list_all (\<lambda>k. gen_tasks u k = Collecting []) ks" using that by (auto simp: returned_ok_def list_all_iff u)
    then show ?thesis using that ids n unfolding returned_ok_def by simp
  qed
  have p: "put_ok k u" if "put_ok k s" "group_id g \<noteq> k" for k
    using that by (auto simp: put_ok_def list_all_iff u)
  have rp: "put_ok k u" if "returned_ok (k # ks) s" "put_ok k s" for k ks
    using p [OF that(2)] r [OF that(1)] by simp
  have "phase_ok u" using i(4) e r rp ids unfolding phase_ok_def f by (auto split: rollout_phase.splits)
  moreover have "handler_ok u" using i(5) e unfolding handler_ok_def f by simp
  moreover have "replies_ok u" using assms(1) by (subst replies_ok_cong [of _ s]) (simp_all add: instance_inv_def u)
  ultimately show ?thesis by (simp add: instance_inv_def u_def)
qed

lemma started_ok:
  assumes "instance_inv m s" "g \<in> set (running_groups s)" "gen_tasks s (group_id g) = Created" "m = max_new_tokens cfg" "0 \<le> m"
  shows "\<exists>g' is. start_task cfg g s = Inr (update_group g' (Collecting is) s) \<and> group_id g' = group_id g
    \<and> group_size g' = group_size g \<and> task_inv m (asked_out s) g' (Collecting is)"
proof -
  have "task_inv m (asked_out s) g Created" using assms(1-3) by (auto simp: instance_inv_def groups_ok_def list_all_iff)
  then have "group_inv m g" "ready_group g" by (simp_all add: task_inv_def)
  from start_task_ok [OF this assms(5), of "asked_out s"]
  obtain g' reqs where "start_requests m g = Inr (g', reqs)" "group_id g' = group_id g" "group_size g' = group_size g"
    "task_inv m (asked_out s) g' (Collecting (map fst reqs))" by blast
  then show ?thesis using assms(4) by (intro exI [of _ g'] exI [of _ "map fst reqs"]) (simp add: start_task_def)
qed

lemma started_inv:
  assumes "instance_inv m s" "g \<in> set (running_groups s)" "gen_tasks s (group_id g) = Created" "start_task cfg g s = Inr s'"
    and "m = max_new_tokens cfg" "0 \<le> m"
  shows "instance_inv m s'"
proof -
  obtain g' "is" where g': "start_task cfg g s = Inr (update_group g' (Collecting is) s)" "group_id g' = group_id g"
    "task_inv m (asked_out s) g' (Collecting is)"
    using started_ok [OF assms(1-3,5,6)] by blast
  have "instance_inv m (update_group g' (Collecting is) s)"
    using update_inv [OF assms(1,2) g'(2) _ g'(3)] assms(3) by simp
  then show ?thesis using g'(1) assms(4) by simp
qed

lemma answered_ok:
  assumes "instance_inv m s" "g \<in> set (running_groups s)" "gen_tasks s (group_id g) = Collecting is" "i \<in> set is"
    and "engine_answer cfg s g i r" "m = max_new_tokens cfg"
  shows "\<exists>g'. take_answer g is i r s = Inr (update_group g' (Collecting (remove1 i is)) s) \<and> group_id g' = group_id g
    \<and> group_size g' = group_size g \<and> task_inv m (asked_out s) g' (Collecting (remove1 i is))"
proof -
  have "task_inv m (asked_out s) g (Collecting is)" using assms(1-3) by (auto simp: instance_inv_def groups_ok_def list_all_iff)
  moreover have "finish r \<in> {ABORT, STOP, LENGTH}" "finish r = ABORT \<longrightarrow> asked_out s"
    "int (length (output_ids r)) \<le> m - int (length (tokens g i))"
    using assms(5,6) by (simp_all add: engine_answer_def)
  ultimately obtain g' where "record_sglang_result i r g = Inr g'" "group_id g' = group_id g" "group_size g' = group_size g"
    "task_inv m (asked_out s) g' (Collecting (remove1 i is))"
    using take_answer_ok [OF _ assms(4)] by blast
  then show ?thesis by (auto simp: take_answer_def)
qed

lemma answered_inv:
  assumes "instance_inv m s" "g \<in> set (running_groups s)" "gen_tasks s (group_id g) = Collecting is" "i \<in> set is"
    and "engine_answer cfg s g i r" "take_answer g is i r s = Inr s'" "m = max_new_tokens cfg"
  shows "instance_inv m s'"
proof -
  obtain g' where g': "take_answer g is i r s = Inr (update_group g' (Collecting (remove1 i is)) s)" "group_id g' = group_id g"
    "task_inv m (asked_out s) g' (Collecting (remove1 i is))"
    using answered_ok [OF assms(1-5,7)] by blast
  have "gen_tasks s (group_id g) \<noteq> Collecting []" using assms(3,4) by auto
  then have "instance_inv m (update_group g' (Collecting (remove1 i is)) s)"
    using update_inv [OF assms(1,2) g'(2) _ g'(3)] by simp
  then show ?thesis using g'(1) assms(6) by simp
qed

lemma add_all_ok:
  assumes "distinct (ids_of gs)" "set (ids_of gs) \<inter> set (ids_of (running_groups s)) = {}"
  shows "rfold (\<lambda>s g. add_task g s) s gs = Inr (s\<lparr>running_groups := running_groups s @ gs,
    gen_tasks := (\<lambda>i. if i \<in> set (ids_of gs) then Created else gen_tasks s i)\<rparr>)"
  using assms
proof (induction gs arbitrary: s)
  case (Cons g gs)
  let ?s = "s\<lparr>running_groups := running_groups s @ [g], gen_tasks := (gen_tasks s)(group_id g := Created)\<rparr>"
  have "add_task g s = Inr ?s" using Cons.prems by (simp add: add_task_def)
  moreover have "rfold (\<lambda>s g. add_task g s) ?s gs = Inr (?s\<lparr>running_groups := running_groups ?s @ gs,
      gen_tasks := (\<lambda>i. if i \<in> set (ids_of gs) then Created else gen_tasks ?s i)\<rparr>)"
    using Cons.prems by (intro Cons.IH) auto
  moreover have "(\<lambda>i. if i \<in> set (ids_of gs) then Created else gen_tasks ?s i)
      = (\<lambda>i. if i \<in> set (ids_of (g # gs)) then Created else gen_tasks s i)"
    by auto
  ultimately show ?case by simp
qed simp

lemma take_in_inv:
  assumes "instance_inv m s" "request_allowed cfg req s" "info_action req = Migrate_In" "handle req s = Inr t" "m = max_new_tokens cfg"
  shows "instance_inv m t"
proof -
  obtain gs where gs: "info_data req = Some gs" "gs \<noteq> []" "distinct (ids_of gs)" "set (ids_of gs) \<inter> set (received s) = {}"
    "list_all (migratable (max_new_tokens cfg)) gs" and q: "handler s = Ready" "\<not> stopping s" "Migrate_Out \<notin> set (asked s)"
    using assms(2,3) by (auto simp: request_allowed_def)
  have i: "ids_ok s" "out_ok s" "phase_ok s" "handler_ok s" and gr: "groups_ok m s" using assms(1) by (simp_all add: instance_inv_def)
  have "set_mset (mset (received s)) = set (ids_of (running_groups s)) \<union> set (ids_of (put_results s))
      \<union> set (ids_of (if live s then aborted_list s else handed_back s))"
    using i(1) unfolding ids_ok_def by (metis set_mset_mset set_mset_union)
  then have fresh: "set (ids_of gs) \<inter> set (ids_of (running_groups s)) = {}" using gs(4) by auto
  let ?s = "if running_groups s = [] then notify s else s"
  have "running_groups ?s = running_groups s" by (simp add: notify_def)
  then have t: "t = ?s\<lparr>running_groups := running_groups s @ gs,
      gen_tasks := (\<lambda>i. if i \<in> set (ids_of gs) then Created else gen_tasks ?s i), received := received s @ ids_of gs\<rparr>"
    using add_all_ok [OF gs(3), of ?s] fresh assms(4) by (simp add: handle_def assms(3) gs(1) take_in_def)
  have f: "running_groups t = running_groups s @ gs" "received t = received s @ ids_of gs" "handler t = handler s" "asked t = asked s"
    "loop_phase t = loop_phase s" "live t = live s" "aborted_list t = aborted_list s" "handed_back t = handed_back s"
    "put_results t = put_results s" "done_groups t = done_groups s" "exit_set t = (running_groups s = [] \<or> exit_set s)" "stopping t = stopping s"
    "responses t = responses s" "instance_id t = instance_id s"
    "gen_tasks t = (\<lambda>i. if i \<in> set (ids_of gs) then Created else gen_tasks s i)"
    by (auto simp: t notify_def live_def stopping_def)
  have live: "live s" using i(3) q(2) by (auto simp: phase_ok_def live_def split: rollout_phase.splits)
  have "ids_ok t" using i(1) gs(3,4) live unfolding ids_ok_def f by auto
  moreover have "groups_ok m t"
  proof -
    have "task_inv m (asked_out s) g (gen_tasks t (group_id g))" if "g \<in> set (running_groups s @ gs)" for g
    proof (cases "g \<in> set gs")
      case True
      then show ?thesis using gs(5) assms(5) migratable_created [of m g] by (auto simp: f list_all_iff ids_of_def)
    next
      case False
      then have "g \<in> set (running_groups s)" using that by simp
      moreover from this have "group_id g \<notin> set (ids_of gs)" using fresh by (auto simp: ids_of_def)
      ultimately show ?thesis using gr by (simp add: f groups_ok_def list_all_iff)
    qed
    then show ?thesis using gr unfolding groups_ok_def f list_all_iff by simp
  qed
  moreover have "out_ok t" using i(2) q(3) unfolding out_ok_def f by simp
  moreover have r: "returned_ok ks t" if "returned_ok ks s" for ks
  proof -
    have "set ks \<inter> set (ids_of gs) = {}" using fresh that by (auto simp: returned_ok_def)
    then show ?thesis using that unfolding returned_ok_def f by (auto simp: list_all_iff)
  qed
  have rp: "put_ok k t" if "returned_ok (k # ks) s" "put_ok k s" for k ks
  proof -
    have "k \<notin> set (ids_of gs)" using fresh that(1) by (auto simp: returned_ok_def)
    then show ?thesis using that(2) unfolding put_ok_def f by (auto simp: list_all_iff ids_of_def)
  qed
  have ne: "running_groups s \<noteq> []" if "returned_ok ks s" for ks using that by (auto simp: returned_ok_def)
  have "phase_ok t" using i(3) gs(2) q r rp ne unfolding phase_ok_def f by (auto split: rollout_phase.splits)
  moreover have "handler_ok t" using q unfolding handler_ok_def f by simp
  moreover have "replies_ok t"
    using assms(1) by (subst replies_ok_cong [of _ s]) (simp_all add: instance_inv_def f)
  ultimately show ?thesis by (simp add: instance_inv_def)
qed

lemma asked_inv:
  assumes "instance_inv m s" "request_allowed cfg req s" "handle req s = Inr t" "m = max_new_tokens cfg"
  shows "instance_inv m t"
proof (cases "info_action req = Migrate_In")
  case True
  show ?thesis by (rule take_in_inv [OF assms(1,2) True assms(3,4)])
next
  case False
  let ?act = "info_action req"
  have q: "handler s = Ready" "\<not> stopping s" "?act \<in> {Report, Migrate_Out, Finish, Wait_For_Finish}"
    "Migrate_Out \<in> set (asked s) \<Longrightarrow> ?act \<in> {Finish, Wait_For_Finish}"
    using assms(2) False by (auto simp: request_allowed_def)
  have i: "ids_ok s" "out_ok s" "phase_ok s" "handler_ok s" "replies_ok s" and gr: "groups_ok m s" using assms(1) by (simp_all add: instance_inv_def)
  have a: "answers s (asked s) (responses s)" using i(5) q(1,2) by (simp add: replies_ok_def open_requests_def)
  have live: "live s" using i(3) q(2) by (auto simp: phase_ok_def live_def split: rollout_phase.splits)
  then have left: "loop_phase s \<noteq> Left" by (simp add: live_def)
  have nn: "0 \<le> num_seq_running s" using gr unfolding num_seq_running_def by (intro sum_list_nonneg) (auto simp: groups_ok_def list_all_iff dest: task_inv_nonneg)
  have t: "t = (if ?act = Report then s\<lparr>responses := responses s @ [report_info s], asked := asked s @ [Report]\<rparr>
      else s\<lparr>handler := (if ?act = Migrate_Out then Migrating_Out else Finishing), asked := asked s @ [?act]\<rparr>)"
    using assms(3) q(3) by (auto simp: handle_def)
  have f: "running_groups t = running_groups s" "received t = received s" "loop_phase t = loop_phase s" "live t = live s"
    "aborted_list t = aborted_list s" "handed_back t = handed_back s" "put_results t = put_results s" "done_groups t = done_groups s"
    "exit_set t = exit_set s" "gen_tasks t = gen_tasks s" "asked t = asked s @ [?act]" "instance_id t = instance_id s"
    "handler t = (if ?act = Report then Ready else if ?act = Migrate_Out then Migrating_Out else Finishing)"
    "responses t = (if ?act = Report then responses s @ [report_info s] else responses s)"
    using q(1) by (auto simp: t live_def)
  have st: "stopping t \<longleftrightarrow> ?act \<in> {Finish, Wait_For_Finish}" using q(2) unfolding stopping_def f by auto
  have mo: "Migrate_Out \<in> set (asked t) \<longleftrightarrow> Migrate_Out \<in> set (asked s) \<or> ?act = Migrate_Out" unfolding f by auto
  have ex: "\<not> (exit_set s \<and> running_groups s = [])" using i(3) q(2) by (auto simp: phase_ok_def)
  have "ids_ok t" using i(1) unfolding ids_ok_def f .
  moreover have "groups_ok m t"
  proof -
    have "task_inv m (asked_out t) g u" if "task_inv m (asked_out s) g u" for g u
      using task_inv_out [OF that] mo by blast
    then show ?thesis using gr unfolding groups_ok_def f(1,5,7) f(10) list_all_iff by (auto simp: f)
  qed
  moreover have "out_ok t" using i(2) q live unfolding out_ok_def mo f by auto
  moreover have r: "returned_ok ks t" if "returned_ok ks s" for ks
    using that unfolding returned_ok_def f .
  have rp: "put_ok k t" if "put_ok k s" for k using that unfolding put_ok_def f .
  have "phase_ok t" using i(3) q r rp ex live unfolding phase_ok_def f by (auto simp: live_def split: rollout_phase.splits)
  moreover have "handler_ok t" using q(3) unfolding handler_ok_def st mo f by auto
  moreover have "replies_ok t"
  proof (cases "?act = Report")
    case True
    have "answers t (asked s @ [Report]) (responses s @ [report_info s])"
      using nn by (intro answers_snoc [OF a]) (simp_all add: report_info_def reply_ok_def f)
    then show ?thesis unfolding replies_ok_def st open_requests_def f using True by simp
  next
    case False
    have "answers t (asked s) (responses s)" using a by (simp add: answers_def f)
    then show ?thesis unfolding replies_ok_def st open_requests_def f using False q(3) left by auto
  qed
  ultimately show ?thesis by (simp add: instance_inv_def)
qed

lemma internal_inv:
  assumes "internal_step cfg s t" "instance_inv m s" "use_auto_scheduler cfg" "reloads_weights cfg" "m = max_new_tokens cfg" "0 \<le> m"
  shows "instance_inv m t"
  using assms(1)
proof (cases rule: internal_step.cases)
  case (returned waited ks)
  show ?thesis unfolding returned(1) by (rule returned_inv [OF assms(2) returned(2,3)])
next
  case (marked k ks)
  show ?thesis by (rule marked_inv [OF assms(2) marked assms(3)])
next
  case (put k ks)
  show ?thesis by (rule put_inv [OF assms(2) put assms(3)])
next
  case woken
  show ?thesis unfolding woken(1) by (rule woken_inv [OF assms(2) woken(2,3) assms(4,3)])
next
  case offloaded
  show ?thesis unfolding offloaded(1) by (rule offloaded_inv [OF assms(2) offloaded(2) assms(3)])
next
  case polled
  show ?thesis unfolding polled(1) by (rule polled_inv [OF assms(2) polled(2,3)])
next
  case (started g)
  show ?thesis by (rule started_inv [OF assms(2) started assms(5,6)])
qed

lemma step_inv:
  assumes "instance_step cfg s t" "instance_inv m s" "use_auto_scheduler cfg" "reloads_weights cfg" "m = max_new_tokens cfg" "0 \<le> m"
  shows "instance_inv m t"
  using assms(1)
proof (cases rule: instance_step.cases)
  case internal
  show ?thesis by (rule internal_inv [OF internal assms(2-)])
next
  case (answered g "is" i r)
  show ?thesis by (rule answered_inv [OF assms(2) answered assms(5)])
next
  case (asked_for req)
  show ?thesis by (rule asked_inv [OF assms(2) asked_for assms(5)])
qed

lemma run_inv:
  assumes "instance_run cfg s t" "instance_inv m s" "use_auto_scheduler cfg" "reloads_weights cfg" "m = max_new_tokens cfg" "0 \<le> m"
  shows "instance_inv m t"
  using assms by (induction rule: instance_run.induct) (auto intro: step_inv)

section \<open>Runs\<close>

definition fresh_instance :: "int \<Rightarrow> seq_group list \<Rightarrow> rollout_instance" where
  "fresh_instance i groups = \<lparr>instance_id = i, running_groups = [], gen_tasks = (\<lambda>_. Created), aborted_list = [], done_groups = [],
     exit_set = False, loop_phase = Left, handler = Ready, put_results = [], responses = [], asked = [], received = ids_of groups\<rparr>"

definition new_group :: "int \<Rightarrow> seq_group \<Rightarrow> bool" where
  "new_group m g \<longleftrightarrow> group_inv m g \<and> num_returned g = 0"

definition started_instance :: "int \<Rightarrow> seq_group list \<Rightarrow> rollout_instance" where
  "started_instance i groups =
     (fresh_instance i groups)\<lparr>running_groups := groups, loop_phase := Generating (ids_of groups)\<rparr>"

lemma start_inv:
  assumes "groups \<noteq> []" "distinct (ids_of groups)" "list_all (new_group m) groups"
  shows "start_rollout cfg groups (fresh_instance i groups) = Inr (started_instance i groups)"
    "instance_inv m (started_instance i groups)"
proof -
  have "rfold (\<lambda>s g. add_task g s) (fresh_instance i groups) groups
      = Inr ((fresh_instance i groups)\<lparr>running_groups := groups\<rparr>)"
    using add_all_ok [OF assms(2), of "fresh_instance i groups"] by (simp add: fresh_instance_def fun_eq_iff)
  then show "start_rollout cfg groups (fresh_instance i groups) = Inr (started_instance i groups)"
    using assms(1) by (simp add: start_rollout_def num_seq_group_def loop_head_def started_instance_def) (simp add: fresh_instance_def)
  have "list_all (\<lambda>g. task_inv m False g Created) groups"
    using assms(3) by (auto simp: list_all_iff new_group_def task_inv_def ready_group_def)
  then show "instance_inv m (started_instance i groups)"
    using assms(1,2) by (simp add: inv_defs live_def stopping_def open_requests_def answers_def handed_back_def started_instance_def fresh_instance_def)
qed

section \<open>The end of an instance\<close>

text \<open>Every step of an instance that was told to finish brings it nearer to its end.\<close>

definition task_weight :: "rollout_instance \<Rightarrow> seq_group \<Rightarrow> nat" where
  "task_weight s g = (case gen_tasks s (group_id g) of Created \<Rightarrow> Suc (group_size g) | Collecting is \<Rightarrow> length is)"

definition phase_weight :: "rollout_phase \<Rightarrow> nat" where
  "phase_weight p = (case p of Waiting \<Rightarrow> 4 | Generating waited \<Rightarrow> 3 | Marking ks \<Rightarrow> 2 | Putting k ks \<Rightarrow> 1 | Offloading \<Rightarrow> 1 | Left \<Rightarrow> 0)"

definition weight :: "rollout_instance \<Rightarrow> nat" where
  "weight s = sum_list (map (\<lambda>g. 5 + task_weight s g) (running_groups s)) + phase_weight (loop_phase s)
     + (if handler s = Ready then 0 else 1)"

lemma phase_weight_le: "phase_weight p \<le> 4"
  by (simp add: phase_weight_def split: rollout_phase.split)

lemma sum_filter_less:
  fixes w :: "seq_group \<Rightarrow> nat"
  assumes "g \<in> set gs"
  shows "sum_list (map w (filter (\<lambda>h. group_id h \<noteq> group_id g) gs)) + w g \<le> sum_list (map w gs)"
proof -
  have f: "sum_list (map w (filter P xs)) \<le> sum_list (map w xs)" for P xs by (induction xs) auto
  from assms obtain as bs where "gs = as @ g # bs" by (auto simp: in_set_conv_decomp)
  then show ?thesis using f [of _ as] f [of _ bs] by (simp add: add_mono)
qed

lemma sum_update_less:
  fixes w w' :: "seq_group \<Rightarrow> nat"
  assumes "h \<in> set gs" "distinct (ids_of gs)" "group_id g = group_id h" "w' g < w h" "\<And>x. group_id x \<noteq> group_id h \<Longrightarrow> w' x = w x"
  shows "sum_list (map w' (map (\<lambda>x. if group_id x = group_id g then g else x) gs)) < sum_list (map w gs)"
proof -
  obtain as bs where gs: "gs = as @ h # bs" using assms(1) by (auto simp: in_set_conv_decomp)
  have "\<forall>x\<in>set as \<union> set bs. group_id x \<noteq> group_id h" using assms(2) unfolding gs by (auto simp: ids_of_def image_iff)
  then have "map (\<lambda>x. if group_id x = group_id g then g else x) as = as" "map (\<lambda>x. if group_id x = group_id g then g else x) bs = bs"
    and w: "map w' as = map w as" "map w' bs = map w bs"
    using assms(3,5) by (auto simp: map_idI)
  then have "map (\<lambda>x. if group_id x = group_id g then g else x) gs = as @ g # bs" using assms(3) by (simp add: gs)
  then show ?thesis using assms(4) by (simp add: gs w del: map_eq_conv)
qed

lemma loop_head_fields [simp]:
  "handler (loop_head cfg s) = handler s" "asked (loop_head cfg s) = asked s" "running_groups (loop_head cfg s) = running_groups s"
  "gen_tasks (loop_head cfg s) = gen_tasks s" "phase_weight (loop_phase (loop_head cfg s)) \<le> 3"
  by (simp_all add: loop_head_def status_clear_def phase_weight_def)

lemma after_mark_fields [simp]:
  "handler (after_mark cfg ks s) = handler s" "asked (after_mark cfg ks s) = asked s" "running_groups (after_mark cfg ks s) = running_groups s"
  "gen_tasks (after_mark cfg ks s) = gen_tasks s"
  by (simp_all add: after_mark_def)

lemma marked_state_fields [simp]:
  "handler (marked_state g s) = handler s" "asked (marked_state g s) = asked s" "gen_tasks (marked_state g s) = gen_tasks s"
  "running_groups (marked_state g s) = filter (\<lambda>h. group_id h \<noteq> group_id g) (running_groups s)"
  by (simp_all add: marked_state_def)

lemma marked_weight:
  assumes "g \<in> set (running_groups s)" "phase_weight (loop_phase s) \<ge> 1"
  shows "weight (after_mark cfg ks (marked_state g s)) < weight s"
proof -
  let ?t = "after_mark cfg ks (marked_state g s)"
  have "task_weight ?t = task_weight s" by (simp add: task_weight_def fun_eq_iff)
  then show ?thesis
    using sum_filter_less [OF assms(1), of "\<lambda>g. 5 + task_weight s g"] phase_weight_le [of "loop_phase ?t"] assms(2)
    by (simp add: weight_def)
qed

lemma update_weight:
  assumes "instance_inv m s" "h \<in> set (running_groups s)" "group_id g = group_id h"
    and "(case t of Created \<Rightarrow> Suc (group_size g) | Collecting is \<Rightarrow> length is) < task_weight s h"
  shows "weight (update_group g t s) < weight s" "asked (update_group g t s) = asked s"
proof -
  let ?t = "update_group g t s"
  have d: "distinct (ids_of (running_groups s))" using assms(1) inv_distinct by (simp add: instance_inv_def)
  have r: "running_groups ?t = map (\<lambda>x. if group_id x = group_id g then g else x) (running_groups s)"
    and f: "loop_phase ?t = loop_phase s" "handler ?t = handler s" "gen_tasks ?t = (gen_tasks s)(group_id g := t)"
    by (simp_all add: update_group_def)
  have "task_weight ?t g < task_weight s h" using assms(4) by (simp add: task_weight_def f)
  then have "sum_list (map (\<lambda>g. 5 + task_weight ?t g) (running_groups ?t)) < sum_list (map (\<lambda>g. 5 + task_weight s g) (running_groups s))"
    unfolding r by (intro sum_update_less [OF assms(2) d assms(3)]) (auto simp: task_weight_def f assms(3))
  then show "weight ?t < weight s" by (simp add: weight_def f)
  show "asked ?t = asked s" by (simp add: update_group_def)
qed

lemma step_shrinks:
  assumes "instance_step cfg s t" "instance_inv m s" "stopping s" "m = max_new_tokens cfg" "0 \<le> m"
  shows "weight t < weight s \<and> asked t = asked s"
  using assms(1)
proof (cases rule: instance_step.cases)
  case internal
  have i: "ids_ok s" using assms(2) by (simp add: instance_inv_def)
  show ?thesis
    using internal
  proof (cases rule: internal_step.cases)
    case (returned waited ks)
    then show ?thesis by (simp add: weight_def phase_weight_def task_weight_def)
  next
    case (marked k ks)
    have "live s" "k \<in> set (ids_of (running_groups s))"
      using assms(2) marked(1) by (auto simp: live_def instance_inv_def phase_ok_def returned_ok_def)
    then obtain g where "g \<in> set (running_groups s)"
      "t = (if all_completed g then s\<lparr>loop_phase := Putting k ks\<rparr> else after_mark cfg ks (marked_state g s))"
      using mark_ok [OF i, of k cfg ks] marked(2) by auto
    then show ?thesis using marked_weight [of g s cfg ks] marked(1)
      by (cases "all_completed g") (simp_all add: weight_def phase_weight_def task_weight_def)
  next
    case (put k ks)
    have "live s" "k \<in> set (ids_of (running_groups s))" "put_ok k s"
      using assms(2) put(1) by (auto simp: live_def instance_inv_def phase_ok_def returned_ok_def)
    then obtain g where "g \<in> set (running_groups s)" "t = after_mark cfg ks (marked_state g s)"
      using mark_ok [OF i, of k cfg ks] put(2) by (auto simp: put_ok_def list_all_iff)
    then show ?thesis using marked_weight [of g s cfg ks] put(1) by (simp add: phase_weight_def)
  next
    case woken
    have "task_weight t = task_weight s" by (simp add: woken(1) wake_def task_weight_def fun_eq_iff)
    moreover have "phase_weight (loop_phase t) < phase_weight (loop_phase s)"
      by (simp add: woken(1,2) wake_def loop_head_def status_clear_def phase_weight_def)
    ultimately show ?thesis using woken(1) by (simp add: weight_def wake_def)
  next
    case polled
    then show ?thesis by (cases "handler s") (simp_all add: weight_def handler_goes_on_def notify_def)
  next
    case (started g)
    obtain g' "is" where g': "t = update_group g' (Collecting is) s" "group_id g' = group_id g" "group_size g' = group_size g"
      "task_inv m (asked_out s) g' (Collecting is)"
      using started_ok [OF assms(2) started(1,2) assms(4,5)] started(3) by auto
    then have "distinct is" "set is \<subseteq> {..<group_size g}" by (simp_all add: task_inv_def)
    then have "length is \<le> group_size g" using card_mono [of "{..<group_size g}" "set is"] by (simp add: distinct_card)
    then show ?thesis using update_weight [OF assms(2) started(1) g'(2), of "Collecting is"] started(2)
      by (simp add: g'(1) task_weight_def)
  qed (simp add: weight_def phase_weight_def task_weight_def offload_def)
next
  case (answered g "is" i r)
  obtain g' where g': "t = update_group g' (Collecting (remove1 i is)) s" "group_id g' = group_id g"
    using answered_ok [OF assms(2) answered(1-4) assms(4)] answered(5) by auto
  have "length (remove1 i is) < length is" using answered(3) length_pos_if_in_set [OF answered(3)] by (simp add: length_remove1)
  then show ?thesis using update_weight [OF assms(2) answered(1) g'(2), of "Collecting (remove1 i is)"] answered(2)
    by (simp add: g'(1) task_weight_def)
next
  case (asked_for req)
  then show ?thesis using assms(3) by (simp add: request_allowed_def)
qed

text \<open>Whatever steps are taken, the instance comes to its end.\<close>

inductive must_leave :: "loop_config \<Rightarrow> rollout_instance \<Rightarrow> bool" for cfg where
  left: "loop_phase s = Left \<Longrightarrow> must_leave cfg s"
| next_step: "\<exists>t. instance_step cfg s t \<Longrightarrow> (\<And>t. instance_step cfg s t \<Longrightarrow> must_leave cfg t) \<Longrightarrow> must_leave cfg s"

text \<open>A group whose task is not done can go on: its task starts, or the engine can answer.\<close>

lemma task_goes_on:
  assumes "instance_inv m s" "g \<in> set (running_groups s)" "gen_tasks s (group_id g) \<noteq> Collecting []"
    and "m = max_new_tokens cfg" "0 \<le> m"
  shows "\<exists>t. instance_step cfg s t"
proof (cases "gen_tasks s (group_id g)")
  case Created
  then obtain g' "is" where "start_task cfg g s = Inr (update_group g' (Collecting is) s)"
    using started_ok [OF assms(1,2) Created assms(4,5)] by blast
  from internal_step.started [OF assms(2) Created this] show ?thesis by (blast intro: instance_step.internal)
next
  case (Collecting "is")
  then obtain i where i: "i \<in> set is" using assms(3) by (cases "is") auto
  have "task_inv m (asked_out s) g (Collecting is)" using assms(1,2) Collecting by (auto simp: instance_inv_def groups_ok_def list_all_iff)
  then have "int (length (tokens g i)) \<le> m" using i assms(5) by (auto simp: task_inv_def tokens_def split: option.split)
  then have e: "engine_answer cfg s g i \<lparr>output_ids = [], finish = STOP\<rparr>" using assms(4) by (simp add: engine_answer_def)
  then obtain t where "take_answer g is i \<lparr>output_ids = [], finish = STOP\<rparr> s = Inr t"
    using answered_ok [OF assms(1,2) Collecting i _ assms(4)] by blast
  from instance_step.answered [OF assms(2) Collecting i e this] show ?thesis by blast
qed

lemma not_stuck:
  assumes "instance_inv m s" "stopping s" "loop_phase s \<noteq> Left" "m = max_new_tokens cfg" "0 \<le> m"
  shows "\<exists>t. instance_step cfg s t"
proof (cases "loop_phase s")
  case (Generating waited)
  then have w: "waited \<noteq> []" "distinct waited" "set waited \<subseteq> set (ids_of (running_groups s))"
    using assms(1) by (simp_all add: instance_inv_def phase_ok_def)
  show ?thesis
  proof (cases "list_all (\<lambda>k. gen_tasks s k = Collecting []) waited")
    case True
    then have "tasks_returned cfg waited waited s" using w by (simp add: tasks_returned_def)
    then show ?thesis using Generating by (blast intro: internal_step.returned instance_step.internal)
  next
    case False
    then obtain k where "k \<in> set waited" "gen_tasks s k \<noteq> Collecting []" by (auto simp: list_all_iff)
    moreover from this w(3) obtain g where "g \<in> set (running_groups s)" "group_id g = k" by (auto simp: ids_of_def)
    ultimately show ?thesis using task_goes_on [OF assms(1) _ _ assms(4,5)] by blast
  qed
next
  case (Marking ks)
  then have r: "returned_ok ks s" using assms(1) by (simp add: instance_inv_def phase_ok_def)
  then obtain k ks' where ks: "ks = k # ks'" by (cases ks) (auto simp: returned_ok_def)
  have "live s" using Marking by (simp add: live_def)
  then obtain s' where "mark_returned cfg k ks' s = Inr s'"
    using mark_ok [of s k cfg ks'] r ks assms(1) by (auto simp: returned_ok_def instance_inv_def)
  then show ?thesis using Marking ks by (blast intro: internal_step.marked instance_step.internal)
next
  case (Putting k ks)
  then have r: "returned_ok (k # ks) s" "put_ok k s" using assms(1) by (simp_all add: instance_inv_def phase_ok_def)
  have "live s" using Putting by (simp add: live_def)
  then obtain s' where "mark_put cfg k ks s = Inr s'"
    using mark_ok [of s k cfg ks] r assms(1) by (auto simp: returned_ok_def instance_inv_def put_ok_def list_all_iff)
  then show ?thesis using Putting by (blast intro: internal_step.put instance_step.internal)
next
  case Waiting
  show ?thesis
  proof (cases "exit_set s")
    case True
    then show ?thesis using Waiting by (blast intro: internal_step.woken instance_step.internal)
  next
    case False
    then have "running_groups s = []" using assms(1) Waiting by (simp add: instance_inv_def phase_ok_def)
    moreover have "handler s = Finishing" using assms(1,2) False Waiting by (simp add: instance_inv_def handler_ok_def live_def)
    ultimately show ?thesis using internal_step.polled [of s cfg] instance_step.internal by fastforce
  qed
next
  case Offloading
  then show ?thesis by (blast intro: internal_step.offloaded instance_step.internal)
qed (use assms in simp)

lemma leaves:
  assumes "instance_inv m s" "stopping s" "use_auto_scheduler cfg" "reloads_weights cfg" "m = max_new_tokens cfg" "0 \<le> m"
  shows "must_leave cfg s"
  using assms(1,2)
proof (induction "weight s" arbitrary: s rule: less_induct)
  case less
  show ?case
  proof (cases "loop_phase s = Left")
    case False
    show ?thesis
    proof (rule must_leave.next_step)
      show "\<exists>t. instance_step cfg s t" using not_stuck [OF less.prems False assms(5,6)] .
      fix t assume t: "instance_step cfg s t"
      have sh: "weight t < weight s" "asked t = asked s" using step_shrinks [OF t less.prems assms(5,6)] by blast+
      have "instance_inv m t" by (rule step_inv [OF t less.prems(1) assms(3-6)])
      moreover have "stopping t" using less.prems(2) sh(2) by (simp add: stopping_def)
      ultimately show "must_leave cfg t" by (rule less.hyps [OF sh(1)])
    qed
  qed (rule must_leave.left)
qed

text \<open>
  C13. A rollout instance loses no group: whatever the interleaving of the rollout loop,
  the tasks of the groups, the answers of the engine and the scheduler's requests, each
  group that came in, at the start or by migration, is at every moment running, put into
  the channel with all its sequences completed, or aborted, exactly one of these; when
  the instance has been left, none runs and every group was put or handed back to the
  scheduler. A group that is handed back can be taken in by another instance: its
  sequences have all returned and it can be continued. Requests are answered in order
  and in the right form, and at most one is open. The engine is assumed to abort
  sequences only after the instance was asked to migrate out.
\<close>

theorem instance_keeps_groups:
  assumes "groups \<noteq> []" "distinct (ids_of groups)" "list_all (new_group (max_new_tokens cfg)) groups" "0 \<le> max_new_tokens cfg"
    and "start_rollout cfg groups (fresh_instance i groups) = Inr s" "instance_run cfg s t"
    and "use_auto_scheduler cfg" "reloads_weights cfg"
  shows "distinct (received t) \<and> list_all all_completed (put_results t)
    \<and> mset (received t) = mset (ids_of (running_groups t)) + mset (ids_of (put_results t))
         + mset (ids_of (if live t then aborted_list t else handed_back t))
    \<and> (loop_phase t = Left \<longrightarrow> running_groups t = [])
    \<and> list_all (migratable (max_new_tokens cfg)) (handed_back t)
    \<and> (\<exists>acts. asked t = acts @ open_requests t
         \<and> list_all2 (\<lambda>act a. reply_ok act a \<and> info_id a = instance_id t) acts (responses t))"
proof -
  have "instance_inv (max_new_tokens cfg) s" using start_inv [OF assms(1-3), where i = i] assms(5) by auto
  from run_inv [OF assms(6) this assms(7,8) refl assms(4)] show ?thesis
    by (auto simp: instance_inv_def ids_ok_def groups_ok_def replies_ok_def answers_def live_def)
qed

text \<open>
  C14. A rollout instance that was told to finish finishes: from every state that it can
  reach, on every interleaving of the rollout loop, the tasks (those of groups that were
  migrated in too, which are continued), the answers of the engine and the handler, it
  takes finitely many steps, is never stuck, and comes to its end with the engine
  offloaded and the request answered. The engine is assumed to answer every request at
  some time, and to abort sequences only after the instance was asked to migrate out.
\<close>

theorem instance_finishes:
  assumes "groups \<noteq> []" "distinct (ids_of groups)" "list_all (new_group (max_new_tokens cfg)) groups" "0 \<le> max_new_tokens cfg"
    and "start_rollout cfg groups (fresh_instance i groups) = Inr s" "instance_run cfg s t"
    and "use_auto_scheduler cfg" "reloads_weights cfg" "stopping t"
  shows "must_leave cfg t \<and> (loop_phase t = Left \<longrightarrow> responses t \<noteq> [] \<and> info_action (last (responses t)) = Offloaded)"
proof
  have "instance_inv (max_new_tokens cfg) s" using start_inv [OF assms(1-3), where i = i] assms(5) by auto
  note inv = run_inv [OF assms(6) this assms(7,8) refl assms(4)]
  show "must_leave cfg t" by (rule leaves [OF inv assms(9,7,8) refl assms(4)])
  show "loop_phase t = Left \<longrightarrow> responses t \<noteq> [] \<and> info_action (last (responses t)) = Offloaded"
  proof
    assume "loop_phase t = Left"
    then have "handler t = Ready" using inv by (simp add: instance_inv_def phase_ok_def)
    with \<open>loop_phase t = Left\<close> inv have a: "answers t (asked t) (responses t)" "last (asked t) \<in> {Finish, Wait_For_Finish}"
      using assms(9) by (auto simp: instance_inv_def replies_ok_def open_requests_def)
    have "asked t \<noteq> []" using assms(9) by (auto simp: stopping_def)
    then obtain as act where as: "asked t = as @ [act]" by (metis append_butlast_last_id)
    with a(1) obtain bs b where "responses t = bs @ [b]" "reply_ok act b"
      by (auto simp: answers_def list_all2_append1 list_all2_Cons1)
    then show "responses t \<noteq> [] \<and> info_action (last (responses t)) = Offloaded" using a(2) as by (auto simp: reply_ok_def)
  qed
qed

text \<open>
  An instance with a new group of one sequence. A group of two sequences is migrated in,
  one of which was aborted; its task continues that sequence, the engine completes it,
  and the scheduler asks for the end.
\<close>

definition new_one :: seq_group where
  "new_one = \<lparr>group_id = 0, input_ids = [1], group_size = 1, idx_completed = {}, idx_aborted = {}, results = [None]\<rparr>"

definition half_done :: seq_group where
  "half_done = \<lparr>group_id = 7, input_ids = [1], group_size = 2, idx_completed = {0}, idx_aborted = {1},
     results = [Some \<lparr>output_ids = [2], finish = STOP\<rparr>, Some \<lparr>output_ids = [3], finish = ABORT\<rparr>]\<rparr>"

definition all_done :: seq_group where
  "all_done = half_done\<lparr>idx_completed := {0, 1}, idx_aborted := {},
     results := [Some \<lparr>output_ids = [2], finish = STOP\<rparr>, Some \<lparr>output_ids = [3, 4], finish = STOP\<rparr>]\<rparr>"

definition auto_loop :: loop_config where
  "auto_loop = \<lparr>use_auto_scheduler = True, pipeline_mode = True, reloads_weights = True, collocated_mode = False, max_new_tokens = 10\<rparr>"

definition first_instance :: rollout_instance where
  "first_instance = started_instance 3 [new_one]"

definition migrated_instance :: rollout_instance where
  "migrated_instance = first_instance\<lparr>running_groups := [new_one, half_done], received := [0, 7]\<rparr>"

definition asked_instance :: rollout_instance where
  "asked_instance = (update_group all_done (Collecting []) migrated_instance)\<lparr>handler := Finishing, asked := [Finish]\<rparr>"

lemma half_done_simps [simp]:
  "group_id new_one = 0" "group_id half_done = 7" "group_id all_done = 7" "num_running half_done = 0" "num_aborted half_done = 1"
  by (simp_all add: new_one_def half_done_def all_done_def num_running_def num_returned_def num_completed_def num_aborted_def)

lemma half_done_migratable: "migratable 10 half_done"
proof -
  have "group_inv 10 half_done" unfolding group_inv_def by (auto simp: half_done_def less_2_cases_iff numeral_2_eq_2 less_Suc_eq)
  then show ?thesis by (simp add: migratable_def)
qed

lemma asked_run: "instance_run auto_loop first_instance asked_instance"
proof -
  let ?in = "\<lparr>info_id = -1, info_data = Some [half_done], info_report = None, info_action = Migrate_In\<rparr>"
  let ?g = "half_done\<lparr>idx_aborted := {}\<rparr>"
  let ?s2 = "update_group ?g (Collecting [1]) migrated_instance"
  let ?s3 = "update_group all_done (Collecting []) migrated_instance"
  have id: "group_id ?g = 7" by (simp add: half_done_def)
  have r2: "running_groups ?s2 = [new_one, ?g]" "gen_tasks ?s2 7 = Collecting [1]" "asked ?s2 = []"
    by (simp_all add: update_group_def migrated_instance_def id first_instance_def started_instance_def fresh_instance_def)
  have "request_allowed auto_loop ?in first_instance" using half_done_migratable
    by (simp add: request_allowed_def first_instance_def started_instance_def fresh_instance_def stopping_def auto_loop_def)
  moreover have "handle ?in first_instance = Inr migrated_instance"
    by (simp add: handle_def take_in_def add_task_def first_instance_def started_instance_def fresh_instance_def migrated_instance_def)
      (simp add: fun_upd_def)
  ultimately have 1: "instance_step auto_loop first_instance migrated_instance" by (rule instance_step.asked_for)
  have "start_requests 10 half_done = Inr (?g, [(1, [1, 3], 9)])"
    by (simp add: start_requests_def) (simp add: half_done_def resume_step_def)
  then have "start_task auto_loop half_done migrated_instance = Inr ?s2" by (simp add: start_task_def auto_loop_def)
  then have "internal_step auto_loop migrated_instance ?s2"
    by (intro internal_step.started [of half_done])
      (simp_all add: migrated_instance_def first_instance_def started_instance_def fresh_instance_def)
  then have 2: "instance_step auto_loop migrated_instance ?s2" by (rule instance_step.internal)
  have "record_sglang_result 1 \<lparr>output_ids = [4], finish = STOP\<rparr> ?g = Inr all_done"
    by (simp add: record_sglang_result_def half_done_def all_done_def insert_commute)
  moreover have "update_group all_done (Collecting []) ?s2 = ?s3"
    by (simp add: update_group_def id migrated_instance_def)
  ultimately have "take_answer ?g [1] 1 \<lparr>output_ids = [4], finish = STOP\<rparr> ?s2 = Inr ?s3" by (simp add: take_answer_def)
  moreover have "engine_answer auto_loop ?s2 ?g 1 \<lparr>output_ids = [4], finish = STOP\<rparr>"
    by (simp add: engine_answer_def auto_loop_def tokens_def half_done_def)
  moreover have "?g \<in> set (running_groups ?s2)" unfolding r2(1) by simp
  moreover have "gen_tasks ?s2 (group_id ?g) = Collecting [1]" unfolding id by (rule r2(2))
  ultimately have 3: "instance_step auto_loop ?s2 ?s3" by (intro instance_step.answered [of ?g ?s2 "[1]" 1]) simp_all
  have "request_allowed auto_loop (request Finish) ?s3" "handle (request Finish) ?s3 = Inr asked_instance"
    by (simp_all add: request_allowed_def handle_def request_def stopping_def update_group_def asked_instance_def
      migrated_instance_def first_instance_def started_instance_def fresh_instance_def)
  then have 4: "instance_step auto_loop ?s3 asked_instance" by (rule instance_step.asked_for)
  show ?thesis
    by (rule instance_run.step [OF instance_run.step [OF instance_run.step [OF instance_run.step [OF instance_run.start 1] 2] 3] 4])
qed

lemma first_instance_facts:
  "[new_one] \<noteq> []" "distinct (ids_of [new_one])" "list_all (new_group (max_new_tokens auto_loop)) [new_one]" "0 \<le> max_new_tokens auto_loop"
  "start_rollout auto_loop [new_one] (fresh_instance 3 [new_one]) = Inr first_instance"
  "use_auto_scheduler auto_loop" "reloads_weights auto_loop"
proof -
  show a: "[new_one] \<noteq> []" "distinct (ids_of [new_one])" "list_all (new_group (max_new_tokens auto_loop)) [new_one]"
    by (simp_all add: new_group_def group_inv_def new_one_def num_returned_def num_completed_def num_aborted_def auto_loop_def)
  show "start_rollout auto_loop [new_one] (fresh_instance 3 [new_one]) = Inr first_instance"
    unfolding first_instance_def by (rule start_inv(1) [OF a])
qed (simp_all add: auto_loop_def)

theorem instance_keeps_groups_witness:
  "mset (received asked_instance) = mset (ids_of (running_groups asked_instance)) + mset (ids_of (put_results asked_instance))
     + mset (ids_of (aborted_list asked_instance))"
proof -
  have "live asked_instance"
    by (simp add: live_def asked_instance_def update_group_def migrated_instance_def first_instance_def started_instance_def)
  then show ?thesis
    using instance_keeps_groups [OF first_instance_facts(1-5) asked_run first_instance_facts(6,7)] by simp
qed

theorem instance_finishes_witness: "must_leave auto_loop asked_instance"
proof -
  have "stopping asked_instance" by (simp add: stopping_def asked_instance_def)
  from instance_finishes [OF first_instance_facts(1-5) asked_run first_instance_facts(6,7) this] show ?thesis ..
qed

end
