(* ===== verification/Vllm_Group.thy ===== *)
theory Vllm_Group
  imports Seq_Group
begin

text \<open>
  The generation of a group with the vLLM engine: \<open>_async_generate_group\<close> of
  \<^verbatim>\<open>rlinf/workers/rollout/vllm/vllm_worker.py\<close> and \<open>SeqGroupInfo.record_vllm_result\<close> of
  \<^verbatim>\<open>rlinf/data/schema/reasoning_requests.py\<close>, compared with the generation with SGLang.
  A result without a finish reason is represented with \<open>ABORT\<close>, as the code treats it;
  \<open>add_output\<close> stands for vLLM's \<open>RequestOutput.add\<close>.
\<close>

section \<open>The operations\<close>

definition record_vllm_result :: "(seq_result \<Rightarrow> seq_result \<Rightarrow> seq_result) \<Rightarrow> nat \<Rightarrow> seq_result \<Rightarrow> seq_group \<Rightarrow> seq_group res" where
  "record_vllm_result add_output idx r g =
     (let g' = (if finish r = ABORT then g\<lparr>idx_aborted := insert idx (idx_aborted g)\<rparr>
                else g\<lparr>idx_completed := insert idx (idx_completed g)\<rparr>) in
      if idx < length (results g')
      then Inr (g'\<lparr>results := (results g')[idx := Some (case results g' ! idx of
             None \<Rightarrow> r | Some old \<Rightarrow> add_output old r)]\<rparr>)
      else Inl IndexError)"

definition vllm_resume_step :: "int \<Rightarrow> seq_group \<times> gen_request list \<Rightarrow> nat \<Rightarrow> (seq_group \<times> gen_request list) res" where
  "vllm_resume_step max_tokens s idx =
     (case s of (g, reqs) \<Rightarrow>
        if idx < length (results g)
        then (case results g ! idx of
                None \<Rightarrow> Inl AttributeError
              | Some r \<Rightarrow>
                  if int (length (output_ids r)) \<ge> max_tokens
                  then let g' = g\<lparr>results := (results g)[idx := Some (r\<lparr>finish := LENGTH\<rparr>)]\<rparr> in
                       if idx \<notin> idx_aborted g' then Inl KeyError
                       else Inr (g'\<lparr>idx_aborted := idx_aborted g' - {idx}, idx_completed := insert idx (idx_completed g')\<rparr>, reqs)
                  else Inr (g, reqs @ [(idx, input_ids g @ output_ids r, max_tokens - int (length (output_ids r)))]))
        else Inl IndexError)"

definition vllm_start_requests :: "int \<Rightarrow> seq_group \<Rightarrow> (seq_group \<times> gen_request list) res" where
  "vllm_start_requests max_tokens g =
     (if num_aborted g = 0
      then if num_returned g \<noteq> 0 then Inl AssertionError
           else Inr (g, map (\<lambda>idx. (idx, input_ids g, max_tokens)) [0..<group_size g])
      else rfold (vllm_resume_step max_tokens) (g\<lparr>idx_aborted := {}\<rparr>, []) (sorted_list_of_set (idx_aborted g)))"

definition vllm_generate_group ::
  "(seq_result \<Rightarrow> seq_result \<Rightarrow> seq_result) \<Rightarrow> (gen_request \<Rightarrow> seq_result) \<Rightarrow> (gen_request list \<Rightarrow> gen_request list) \<Rightarrow> int
    \<Rightarrow> seq_group \<Rightarrow> seq_group res" where
  "vllm_generate_group add_output engine arrival max_tokens g =
     rbind (vllm_start_requests max_tokens g) (\<lambda>(g', reqs).
     rfold (\<lambda>h req. record_vllm_result add_output (fst req) (engine req) h) g' (arrival reqs))"

section \<open>The two engines\<close>

text \<open>What vLLM documents of \<open>add\<close> with \<open>aggregate\<close>: the tokens are appended, the reason is the new one.\<close>

definition appends :: "(seq_result \<Rightarrow> seq_result \<Rightarrow> seq_result) \<Rightarrow> bool" where
  "appends add_output \<longleftrightarrow> (\<forall>old r. add_output old r = r\<lparr>output_ids := output_ids old @ output_ids r\<rparr>)"

lemma record_vllm_eq:
  assumes "appends add_output" "finish r \<in> {ABORT, STOP, LENGTH}"
  shows "record_vllm_result add_output idx r g = record_sglang_result idx r g"
  using assms by (auto simp: record_vllm_result_def record_sglang_result_def appends_def Let_def split: option.split)

lemma record_vllm_all_eq:
  assumes "appends add_output" "\<And>req. finish (engine req) \<in> {ABORT, STOP, LENGTH}"
  shows "(\<lambda>h req. record_vllm_result add_output (fst req) (engine req) h) = (\<lambda>h req. record_sglang_result (fst req) (engine req) h)"
  by (intro ext record_vllm_eq assms)

text \<open>A sequence that is short enough is resumed in the same way, and the group is not changed.\<close>

lemma vllm_resume_short:
  assumes "i < length (results g)" "results g ! i = Some r" "int (length (output_ids r)) < m"
  shows "vllm_resume_step m (g, reqs) i = Inr (g, reqs @ [(i, input_ids g @ output_ids r, m - int (length (output_ids r)))])"
    "resume_step m (g, reqs) i = vllm_resume_step m (g, reqs) i"
  using assms by (simp_all add: vllm_resume_step_def resume_step_def)

lemma vllm_resume_all:
  assumes "\<forall>i\<in>set xs. i < length (results g) \<and> results g ! i \<noteq> None" "idx_aborted g = {}"
  shows "if \<exists>i\<in>set xs. m \<le> int (length (tokens g i))
    then rfold (vllm_resume_step m) (g, reqs) xs = Inl KeyError
    else rfold (vllm_resume_step m) (g, reqs) xs = rfold (resume_step m) (g, reqs) xs"
  using assms(1)
proof (induction xs arbitrary: reqs)
  case (Cons i xs)
  then obtain r where r: "i < length (results g)" "results g ! i = Some r" by auto
  then have t: "tokens g i = output_ids r" by (simp add: tokens_def)
  show ?case
  proof (cases "m \<le> int (length (output_ids r))")
    case True
    then show ?thesis using r t assms(2) by (simp add: vllm_resume_step_def)
  next
    case False
    then have "int (length (output_ids r)) < m" by simp
    note s = vllm_resume_short [OF r this]
    show ?thesis using Cons s t False by (simp add: s)
  qed
qed simp

text \<open>
  C40. Where no aborted sequence has all its tokens, generating a group with vLLM gives
  the same group as with SGLang. Where one has, SGLang counts it as completed, but vLLM
  fails with a \<open>KeyError\<close>: the index is removed from the set that was just cleared.
\<close>

theorem vllm_agrees_unless_cut_off:
  assumes "group_inv m g" "appends add_output" "\<And>req. finish (engine req) \<in> {ABORT, STOP, LENGTH}"
  shows "vllm_generate_group add_output engine arrival m g =
    (if \<exists>i. cut_off m g i then Inl KeyError else generate_group engine arrival m g)"
proof -
  note r = record_vllm_all_eq [OF assms(2,3)]
  note fin = group_inv_finite [OF assms(1)]
  show ?thesis
  proof (cases "num_aborted g = 0")
    case True
    then have "idx_aborted g = {}" using fin by (simp add: num_aborted_def)
    then have "\<not> (\<exists>i. cut_off m g i)" by (simp add: cut_off_def)
    then show ?thesis using True by (simp add: vllm_generate_group_def generate_group_def vllm_start_requests_def start_requests_def r)
  next
    case False
    let ?g = "g\<lparr>idx_aborted := {}\<rparr>" and ?xs = "sorted_list_of_set (idx_aborted g)"
    have xs: "set ?xs = idx_aborted g" using fin by simp
    have ok: "\<forall>i\<in>set ?xs. i < length (results ?g) \<and> results ?g ! i \<noteq> None" unfolding xs using assms(1) by (auto simp: group_inv_def)
    have t: "tokens ?g = tokens g" by (auto simp: tokens_def)
    have c: "(\<exists>i\<in>set ?xs. m \<le> int (length (tokens ?g i))) \<longleftrightarrow> (\<exists>i. cut_off m g i)" unfolding xs t by (auto simp: cut_off_def)
    note a = vllm_resume_all [OF ok, of m "[]", unfolded c]
    show ?thesis using a False
      by (cases "\<exists>i. cut_off m g i") (simp_all add: vllm_generate_group_def generate_group_def vllm_start_requests_def start_requests_def r)
  qed
qed

definition append_output :: "seq_result \<Rightarrow> seq_result \<Rightarrow> seq_result" where
  "append_output old r = r\<lparr>output_ids := output_ids old @ output_ids r\<rparr>"

theorem vllm_agrees_unless_cut_off_witness:
  "vllm_generate_group append_output two_tokens rev 4 aborted_group = Inl KeyError
   \<and> vllm_generate_group append_output two_tokens rev 4 (aborted_group\<lparr>idx_aborted := {1}, results := (results aborted_group)[2 := None]\<rparr>)
     = generate_group two_tokens rev 4 (aborted_group\<lparr>idx_aborted := {1}, results := (results aborted_group)[2 := None]\<rparr>)"
proof
  have a: "appends append_output" by (simp add: appends_def append_output_def)
  have e: "finish (two_tokens req) \<in> {ABORT, STOP, LENGTH}" for req by (simp add: two_tokens_def)
  have "cut_off 4 aborted_group 2" by (simp add: cut_off_def tokens_def aborted_group_def)
  then show "vllm_generate_group append_output two_tokens rev 4 aborted_group = Inl KeyError"
    using vllm_agrees_unless_cut_off [OF aborted_group_ok(1) a e, where arrival = rev] by auto
  let ?g = "aborted_group\<lparr>idx_aborted := {1}, results := (results aborted_group)[2 := None]\<rparr>"
  have "group_inv 4 ?g" by (auto simp: group_inv_def aborted_group_def less_Suc_eq nth_Cons' numeral_3_eq_3)
  moreover have "\<not> (\<exists>i. cut_off 4 ?g i)" by (simp add: cut_off_def tokens_def aborted_group_def)
  ultimately show "vllm_generate_group append_output two_tokens rev 4 ?g = generate_group two_tokens rev 4 ?g"
    using vllm_agrees_unless_cut_off [OF _ a e, where m = 4 and g = "?g" and arrival = rev] by simp
qed

end
