(* ===== verification/Peer_Process.thy ===== *)
theory Peer_Process
  imports Py_Prelude
begin

text \<open>
  Two communicating workers. The point-to-point operations of
  \<^verbatim>\<open>rlinf/scheduler/collective/collective_group.py\<close> are exchanges of messages
  over numbered streams, one program on each side. A program is a tree of
  actions; the operations of \<^verbatim>\<open>Collective_P2P\<close> build such trees, each with the
  program that follows it as its last argument.

  Sends are rendezvous: a blocking send ends when the peer has posted the
  receive that takes it, which is what the transports of
  \<^verbatim>\<open>torch.distributed\<close> (gloo and NCCL) do. The two programs therefore advance
  together at every message, and freely in between.

  The sender owns a memory. Tensors passed by IPC handle are not copied by the
  message: the receiver looks into the sender's memory later, so a sender that
  writes to it too early changes what the receiver reads.
\<close>

section \<open>Programs\<close>

text \<open>
  \<open>Finish r\<close> has returned or raised; \<open>Give c m p\<close> sends \<open>m\<close> on stream \<open>c\<close>;
  \<open>Take c k\<close> receives from \<open>c\<close>; \<open>Look a k\<close> reads address \<open>a\<close> of the sender's
  memory; \<open>Store mem p\<close> overwrites the own memory.
\<close>

datatype ('c, 'm, 'v, 'a) proc =
    Finish "'a res"
  | Give 'c 'm "('c, 'm, 'v, 'a) proc"
  | Take 'c "'m \<Rightarrow> ('c, 'm, 'v, 'a) proc"
  | Look nat "'v \<Rightarrow> ('c, 'm, 'v, 'a) proc"
  | Store "nat \<Rightarrow> 'v" "('c, 'm, 'v, 'a) proc"

type_synonym ('c, 'm, 'v, 'a, 'b) pair = "('c, 'm, 'v, 'a) proc \<times> ('c, 'm, 'v, 'b) proc \<times> (nat \<Rightarrow> 'v)"

abbreviation Raise :: "py_error \<Rightarrow> ('c, 'm, 'v, 'a) proc" where
  "Raise e \<equiv> Finish (Inl e)"

abbreviation Return :: "'a \<Rightarrow> ('c, 'm, 'v, 'a) proc" where
  "Return x \<equiv> Finish (Inr x)"

text \<open>A configuration is the sender's program, the receiver's program and the sender's memory.\<close>

inductive hstep :: "('c, 'm, 'v, 'a, 'b) pair \<Rightarrow> ('c, 'm, 'v, 'a, 'b) pair \<Rightarrow> bool" where
  give: "hstep (Give c m p, Take c k, mem) (p, k m, mem)"
| take: "hstep (Take c k, Give c m q, mem) (k m, q, mem)"
| look: "hstep (p, Look a k, mem) (p, k (mem a), mem)"
| store: "hstep (Store mem' p, q, mem) (p, q, mem')"

inductive_simps hstep_simps:
  "hstep (Finish r, q, mem) t"
  "hstep (Give c m p, q, mem) t"
  "hstep (Take c k, q, mem) t"
  "hstep (Look a k, q, mem) t"
  "hstep (Store mem' p, q, mem) t"

inductive_simps hstep_iff: "hstep (p, q, mem) (p', q', mem')"

text \<open>Both programs have ended, with these outcomes.\<close>

definition both_end :: "'a res \<Rightarrow> 'b res \<Rightarrow> ('c, 'm, 'v, 'a, 'b) pair \<Rightarrow> bool" where
  "both_end r s = (\<lambda>(p, q, _). p = Finish r \<and> q = Finish s)"

section \<open>Every run ends\<close>

text \<open>Programs are finite trees, so the step relation is well founded.\<close>


definition sender_parts :: "('c, 'm, 'v, 'a) proc \<Rightarrow> ('c, 'm, 'v, 'a) proc set" where
  "sender_parts p = (case p of Give c m p' \<Rightarrow> {p'} | Take c k \<Rightarrow> range k | Store mem p' \<Rightarrow> {p'} | _ \<Rightarrow> {})"

lemma hstep_parts:
  "hstep (p, q, mem) t \<Longrightarrow>
     (\<exists>p' \<in> sender_parts p. \<exists>q' mem'. t = (p', q', mem')) \<or>
     (\<exists>a k. q = Look a k \<and> t = (p, k (mem a), mem))"
  by (cases rule: hstep.cases) (auto simp: sender_parts_def)

lemma runs_end_from_parts:
  fixes q :: "('c, 'm, 'v, 'b) proc"
  assumes parts: "\<And>p' (q :: ('c, 'm, 'v, 'b) proc) mem. p' \<in> sender_parts p \<Longrightarrow> Wellfounded.accp (\<lambda>t s. hstep s t) (p', q, mem)"
  shows "Wellfounded.accp (\<lambda>t s. hstep s t) (p, q, mem)"
proof (induction q arbitrary: mem)
  case (Look a k)
  show ?case
  proof (rule accpI)
    fix t
    assume "hstep (p, Look a k, mem) t"
    from hstep_parts [OF this] show "Wellfounded.accp (\<lambda>t s. hstep s t) t"
      by (auto intro: parts Look.IH)
  qed
qed (rule accpI, drule hstep_parts, use parts in blast)+

lemma runs_end: "Wellfounded.accp (\<lambda>t s. hstep s t) (p, q, mem)"
  by (induction p arbitrary: q mem) (rule runs_end_from_parts, auto simp: sender_parts_def)+

section \<open>Running two programs against each other\<close>

text \<open>
  \<open>settle\<close> performs the reads of a receiver that come before its next message.
  \<open>meet\<close> runs the programs and gives their outcomes. It requires more than
  success of one schedule: whenever the sender ends or writes to its memory,
  the receiver must have no read outstanding.
\<close>

primrec settle :: "(nat \<Rightarrow> 'v) \<Rightarrow> ('c, 'm, 'v, 'a) proc \<Rightarrow> ('c, 'm, 'v, 'a) proc" where
  "settle mem (Finish r) = Finish r"
| "settle mem (Give c m p) = Give c m p"
| "settle mem (Take c k) = Take c k"
| "settle mem (Look a k) = settle mem (k (mem a))"
| "settle mem (Store mem' p) = Store mem' p"

primrec meet :: "('c, 'm, 'v, 'a) proc \<Rightarrow> ('c, 'm, 'v, 'b) proc \<Rightarrow> (nat \<Rightarrow> 'v) \<Rightarrow> ('a res \<times> 'b res) option" where
  "meet (Finish r) q mem = (case q of Finish s \<Rightarrow> Some (r, s) | _ \<Rightarrow> None)"
| "meet (Give c m p) q mem =
     (case settle mem q of Take d k \<Rightarrow> if c = d then meet p (k m) mem else None | _ \<Rightarrow> None)"
| "meet (Take c k) q mem =
     (case settle mem q of Give d m q' \<Rightarrow> if c = d then meet (k m) q' mem else None | _ \<Rightarrow> None)"
| "meet (Look a k) q mem = None"
| "meet (Store mem' p) q mem = (case q of Look a k \<Rightarrow> None | _ \<Rightarrow> meet p q mem')"

lemma meet_simps [simp]:
  "meet (Give c m p) (Take c k) mem = meet p (k m) mem"
  "meet (Take c k') (Give c m q) mem = meet (k' m) q mem"
  "meet (Give c m p) (Look a look) mem = meet (Give c m p) (look (mem a)) mem"
  "meet (Take c k') (Look a look) mem = meet (Take c k') (look (mem a)) mem"
  by simp_all

lemma meet_step:
  assumes "hstep s t" "s = (p, q, mem)" "t = (p', q', mem')" "meet p q mem = Some r"
  shows "meet p' q' mem' = Some r"
  using assms
proof (cases rule: hstep.cases)
  case (look p1 a k mem1)
  with assms show ?thesis by (cases p1) auto
next
  case (store mem1 p1 q1 mem2)
  with assms show ?thesis by (auto split: proc.splits)
qed auto

lemma settled_look: "settle mem q \<noteq> q \<Longrightarrow> \<exists>a k. q = Look a k"
  by (cases q) auto

lemma meet_progress:
  assumes "meet p q mem = Some (r, s)"
  shows "both_end r s (p, q, mem) \<or> (\<exists>t. hstep (p, q, mem) t)"
proof (cases q)
  case (Look a k)
  then show ?thesis using hstep.look by blast
qed (use assms in \<open>(cases p; auto simp: both_end_def hstep_simps split: if_splits proc.splits)+\<close>)

text \<open>The outcome of \<open>meet\<close> is the outcome of every interleaving.\<close>

lemma meet_inevitable:
  assumes "meet p q mem = Some (r, s)"
  shows "inevitable hstep (both_end r s) (p, q, mem)"
proof -
  have "Wellfounded.accp (\<lambda>t s. hstep s t) (p, q, mem)" by (rule runs_end)
  then have "meet p q mem = Some (r, s) \<Longrightarrow> inevitable hstep (both_end r s) (p, q, mem)"
  proof (induction "(p, q, mem)" arbitrary: p q mem rule: accp.induct)
    case (accI p q mem)
    from meet_progress [OF accI.prems] show ?case
    proof (elim disjE exE)
      fix t
      assume "hstep (p, q, mem) t"
      then show ?thesis
      proof (rule inevitable.later)
        fix u
        assume step: "hstep (p, q, mem) u"
        obtain p' q' mem' where u: "u = (p', q', mem')" by (cases u)
        have "meet p' q' mem' = Some (r, s)" by (rule meet_step [OF step refl u accI.prems])
        with accI(2) [OF step [unfolded u]] show "inevitable hstep (both_end r s) u" by (simp add: u)
      qed
    qed (rule inevitable.now)
  qed
  with assms show ?thesis by blast
qed

text \<open>An exchange that both programs wait for is the only step there is.\<close>

lemma inevitable_give:
  "inevitable hstep P (p, k m, mem) \<Longrightarrow> inevitable hstep P (Give c m p, Take c k, mem)"
  by (rule inevitable.later, rule hstep.give) (auto simp: hstep_simps)

lemma inevitable_take:
  "inevitable hstep P (k m, q, mem) \<Longrightarrow> inevitable hstep P (Take c k, Give c m q, mem)"
  by (rule inevitable.later, rule hstep.take) (auto simp: hstep_simps)

end
