(* ===== verification/Dataclass_Fields.thy ===== *)
theory Dataclass_Fields
  imports Py_Prelude "HOL-Library.AList"
begin

text \<open>
  Tensor fields of a dataclass on the wire: \<open>extract_dataclass_tensor_fields\<close>
  and \<open>unflatten_dataclass_tensor_fields\<close> of
  \<^verbatim>\<open>rlinf/scheduler/cluster/utils.py\<close>. The first flattens the tensor fields of
  an object into one list with a description of each field; the second rebuilds
  the fields from the description and the list that arrived.

  A dataclass object is the list of its fields in declaration order. A field
  whose value is a tensor, or a list, tuple or dictionary of tensors only, has
  a constructor of its own; any other value is \<open>F_Plain\<close>, with \<open>F_Plain None\<close>
  for Python's \<open>None\<close>. An empty list, tuple or dictionary passes the test
  \<open>all(isinstance ...)\<close>, so it is \<open>F_List []\<close> and so on.
\<close>

section \<open>Fields and their description\<close>

datatype ('o, 't) field =
    F_Tensor 't
  | F_List "'t list"
  | F_Tuple "'t list"
  | F_Dict "(string \<times> 't) list"
  | F_Plain "'o option"

datatype extra = E_None | E_Int int | E_Keys "string list"

type_synonym field_meta = "string \<times> string \<times> extra"

fun is_tensor_field :: "('o, 't) field \<Rightarrow> bool" where
  "is_tensor_field (F_Plain _) = False"
| "is_tensor_field _ = True"

fun field_tensors :: "('o, 't) field \<Rightarrow> 't list" where
  "field_tensors (F_Tensor t) = [t]"
| "field_tensors (F_List ts) = ts"
| "field_tensors (F_Tuple ts) = ts"
| "field_tensors (F_Dict kvs) = map snd kvs"
| "field_tensors (F_Plain _) = []"

fun field_kind :: "('o, 't) field \<Rightarrow> string \<times> extra" where
  "field_kind (F_Tensor t) = (''tensor'', E_None)"
| "field_kind (F_List ts) = (''list'', E_Int (int (length ts)))"
| "field_kind (F_Tuple ts) = (''tuple'', E_Int (int (length ts)))"
| "field_kind (F_Dict kvs) = (''dict'', E_Keys (map fst kvs))"
| "field_kind (F_Plain _) = ('''', E_None)"

text \<open>The loop over \<open>fields(obj)\<close> collects the fields, their tensors and their descriptions.\<close>

fun extract_dataclass_tensor_fields ::
    "(string \<times> ('o, 't) field) list \<Rightarrow> (string \<times> ('o, 't) field) list \<times> 't list \<times> field_meta list" where
  "extract_dataclass_tensor_fields [] = ([], [], [])"
| "extract_dataclass_tensor_fields ((name, val) # fs) =
     (let (result, tensors_list, metadata) = extract_dataclass_tensor_fields fs
      in if is_tensor_field val
         then ((name, val) # result, field_tensors val @ tensors_list, (name, field_kind val) # metadata)
         else (result, tensors_list, metadata))"

text \<open>Assignments to a dictionary that is kept in insertion order, and \<open>dict(pairs)\<close>.\<close>

definition py_dict :: "('k \<times> 'v) list \<Rightarrow> ('k \<times> 'v) list" where
  "py_dict kvs = fold (\<lambda>(k, v). AList.update k v) kvs []"

definition int_extra :: "extra \<Rightarrow> int" where
  "int_extra e = (case e of E_Int n \<Rightarrow> n | _ \<Rightarrow> 0)"

definition keys_extra :: "extra \<Rightarrow> string list" where
  "keys_extra e = (case e of E_Keys ks \<Rightarrow> ks | _ \<Rightarrow> [])"

definition unflatten_field :: "'t list \<Rightarrow> (string \<times> ('o, 't) field) list \<times> int \<Rightarrow> field_meta
    \<Rightarrow> ((string \<times> ('o, 't) field) list \<times> int) res" where
  "unflatten_field flat s m =
     (let (result, idx) = s; (name, kind, ext) = m
      in if kind = ''tensor''
         then rbind (py_index flat idx) (\<lambda>t. Inr (AList.update name (F_Tensor t) result, idx + 1))
         else if kind = ''list''
         then Inr (AList.update name (F_List (py_slice flat idx (idx + int_extra ext))) result, idx + int_extra ext)
         else if kind = ''tuple''
         then Inr (AList.update name (F_Tuple (py_slice flat idx (idx + int_extra ext))) result, idx + int_extra ext)
         else if kind = ''dict''
         then Inr (AList.update name
                (F_Dict (py_dict (zip (keys_extra ext) (py_slice flat idx (idx + int (length (keys_extra ext))))))) result,
              idx + int (length (keys_extra ext)))
         else Inl ValueError)"

definition unflatten_dataclass_tensor_fields ::
    "field_meta list \<Rightarrow> 't list \<Rightarrow> (string \<times> ('o, 't) field) list res" where
  "unflatten_dataclass_tensor_fields metadata flat =
     rbind (rfold (unflatten_field flat) ([], 0) metadata)
       (\<lambda>(result, idx). if idx \<noteq> int (length flat) then Inl ValueError else Inr result)"

section \<open>Dictionaries in insertion order\<close>

lemma update_new_key: "k \<notin> fst ` set xs \<Longrightarrow> AList.update k v xs = xs @ [(k, v)]"
  by (induction xs) auto

lemma py_dict_distinct: "distinct (map fst kvs) \<Longrightarrow> py_dict kvs = kvs"
proof -
  have "distinct (map fst (acc @ kvs)) \<Longrightarrow> fold (\<lambda>(k, v). AList.update k v) kvs acc = acc @ kvs" for acc
    by (induction kvs arbitrary: acc) (auto simp: update_new_key)
  from this [of "[]"] show "distinct (map fst kvs) \<Longrightarrow> py_dict kvs = kvs" by (simp add: py_dict_def)
qed

section \<open>Flattening and rebuilding\<close>

lemma extract_fields_eq:
  "extract_dataclass_tensor_fields fs =
     (filter (is_tensor_field \<circ> snd) fs, concat (map (field_tensors \<circ> snd) fs),
      map (\<lambda>(n, f). (n, field_kind f)) (filter (is_tensor_field \<circ> snd) fs))"
proof (induction fs)
  case (Cons nf fs)
  obtain n f where nf: "nf = (n, f)" by (cases nf)
  show ?case by (cases f) (simp_all add: nf Cons.IH)
qed simp

text \<open>A dictionary field has each key once.\<close>

fun good_field :: "('o, 't) field \<Rightarrow> bool" where
  "good_field (F_Dict kvs) = distinct (map fst kvs)"
| "good_field _ = True"

lemma slice_middle:
  "py_slice (pre @ xs @ post) (int (length pre)) (int (length pre) + int (length xs)) = xs"
  using py_slice_nat [of "pre @ xs @ post" "length pre" "length pre + length xs"] by simp

lemma index_middle: "py_index (pre @ x # post) (int (length pre)) = Inr x"
  by simp

lemma unflatten_one:
  assumes "is_tensor_field f" "good_field f" "n \<notin> fst ` set acc"
  shows "unflatten_field (pre @ field_tensors f @ post) (acc, int (length pre)) (n, field_kind f) =
      Inr (acc @ [(n, f)], int (length (pre @ field_tensors f)))"
proof (cases f)
  case (F_Dict kvs)
  have "py_slice (pre @ map snd kvs @ post) (int (length pre)) (int (length pre) + int (length kvs)) = map snd kvs"
    using slice_middle [of pre "map snd kvs" post] by simp
  with F_Dict assms show ?thesis
    by (simp add: unflatten_field_def keys_extra_def update_new_key zip_map_fst_snd py_dict_distinct)
qed (use assms in \<open>simp_all add: unflatten_field_def int_extra_def update_new_key slice_middle index_middle\<close>)

lemma unflatten_rest:
  assumes "\<forall>(n, f) \<in> set fs. is_tensor_field f \<and> good_field f" "distinct (map fst (acc @ fs))"
  shows "rfold (unflatten_field (pre @ concat (map (field_tensors \<circ> snd) fs))) (acc, int (length pre))
        (map (\<lambda>(n, f). (n, field_kind f)) fs) =
      Inr (acc @ fs, int (length (pre @ concat (map (field_tensors \<circ> snd) fs))))"
  using assms
proof (induction fs arbitrary: acc pre)
  case (Cons nf fs)
  obtain n f where nf: "nf = (n, f)" by (cases nf)
  from Cons.prems nf have f: "is_tensor_field f" "good_field f" "n \<notin> fst ` set acc" by auto
  from Cons.IH [of "acc @ [nf]" "pre @ field_tensors f"] Cons.prems
  show ?case by (simp add: nf unflatten_one [OF f] del: length_append)
qed simp

lemma concat_tensor_fields:
  "concat (map (field_tensors \<circ> snd) (filter (is_tensor_field \<circ> snd) fs)) = concat (map (field_tensors \<circ> snd) fs)"
proof (induction fs)
  case (Cons nf fs)
  then show ?case by (cases "snd nf") auto
qed simp

text \<open>Flattened fields come back as they were, whatever the tensors are replaced by on the way.\<close>

lemma unflatten_extracted:
  fixes g :: "'t \<Rightarrow> 'u" and fs :: "(string \<times> ('o, 't) field) list"
  assumes "\<forall>(n, f) \<in> set fs. good_field f" "distinct (map fst fs)"
    and "extract_dataclass_tensor_fields fs = (result, tensors, metadata)"
  shows "unflatten_dataclass_tensor_fields metadata (map g tensors) = Inr (map (apsnd (map_field id g)) result)"
proof -
  let ?fs = "map (apsnd (map_field id g)) (filter (is_tensor_field \<circ> snd) fs)"
  have kind: "field_kind (map_field id g f) = field_kind f" for f :: "('o, 't) field"
    by (cases f) (simp_all add: comp_def case_prod_unfold)
  have tensors: "field_tensors (map_field id g f) = map g (field_tensors f)" for f :: "('o, 't) field"
    by (cases f) simp_all
  have is_tensor: "is_tensor_field (map_field id g f) = is_tensor_field f" for f :: "('o, 't) field"
    by (cases f) simp_all
  have good: "good_field (map_field id g f) = good_field f" for f :: "('o, 't) field"
    by (cases f) (simp_all add: comp_def)
  have split: "result = filter (is_tensor_field \<circ> snd) fs"
    "tensors = concat (map (field_tensors \<circ> snd) result)" "metadata = map (\<lambda>(n, f). (n, field_kind f)) result"
    using assms(3) by (auto simp: extract_fields_eq concat_tensor_fields)
  have "\<forall>(n, f) \<in> set ?fs. is_tensor_field f \<and> good_field f"
    using assms(1) by (auto simp: is_tensor good)
  moreover have "distinct (map fst ?fs)"
    using assms(2) by (simp add: comp_def distinct_map_filter)
  moreover have "metadata = map (\<lambda>(n, f). (n, field_kind f)) ?fs"
    unfolding split by (simp add: comp_def case_prod_unfold kind)
  moreover have "map g tensors = concat (map (field_tensors \<circ> snd) ?fs)"
    unfolding split by (simp add: comp_def tensors map_concat)
  ultimately show ?thesis
    using unflatten_rest [of ?fs "[]" "[]"] by (simp add: unflatten_dataclass_tensor_fields_def split(1))
qed

end
