(* ===== verification/Collective_P2P.thy ===== *)
theory Collective_P2P
  imports Peer_Process Dataclass_Fields Py_Text
begin

text \<open>
  Point-to-point communication of two workers: \<open>send\<close>, \<open>recv\<close>,
  \<open>send_tensor\<close> and \<open>recv_tensor\<close> of
  \<^verbatim>\<open>rlinf/scheduler/collective/collective_group.py\<close> and every step below them
  down to the messages on the CPU and accelerator streams. An operation takes
  the program that follows it as its last argument.

  Parameters of the model are pickling (\<open>dumps\<close>, \<open>loads\<close>), the conversion in
  \<open>Tensor.copy_\<close>, the contents of tensors and the UUIDs of devices. Debug
  output, timers, process group initialisation and the emulated link delay
  have no part in what is transferred.
\<close>

section \<open>Tensors, workers and messages\<close>

datatype stream = CPU | ACCEL

datatype device = Cpu | Accel nat

text \<open>A tensor of the sender is a view of its memory at \<open>t_address\<close>.\<close>

record tensor =
  t_shape :: "nat list"
  t_dtype :: string
  t_device :: device
  t_contiguous :: bool
  t_address :: nat

abbreviation is_cpu :: "tensor \<Rightarrow> bool" where
  "is_cpu t \<equiv> t_device t = Cpu"

text \<open>A tensor that the receiver owns.\<close>

record 'v buffer =
  buf_shape :: "nat list"
  buf_dtype :: string
  buf_device :: device
  contents :: 'v

text \<open>
  \<open>node_rank\<close> and \<open>accelerators\<close> are \<open>cluster_node_rank\<close> and
  \<open>available_accelerators\<close> (the worker's \<open>global_accelerator_ids\<close>), \<open>uuid\<close>
  the device UUIDs where the platform has them, \<open>current\<close> the current device.
\<close>

record endpoint =
  node_rank :: int
  accelerators :: "int list"
  uuid :: "nat \<Rightarrow> string option"
  current :: nat

text \<open>
  What is pickled: an IPC handle is the pair of a rebuild function and its
  arguments, \<open>PyListMeta\<close> the dictionary with \<open>meta\<close>, \<open>pb\<close> and
  \<open>cpu_tensor_mask\<close>, \<open>PyFields\<close> the description of tensor fields and
  \<open>PyShell\<close> a dataclass object without tensors.
\<close>

datatype ('o, 'c) pyval =
    PyNone
  | PyObj 'o
  | PyText string
  | PyPair "('o, 'c) pyval" "('o, 'c) pyval"
  | PyList "('o, 'c) pyval list"
  | PyRebuild
  | PyStorage nat "nat list" string
  | PyKeys "string list"
  | PyListMeta "(nat list \<times> string) list" "('o, 'c) pyval" "bool list"
  | PyFields "field_meta list"
  | PyShell 'c "(string \<times> 'o option) list"

record ('o, 'c, 'v, 'b) codec =
  dumps :: "('o, 'c) pyval \<Rightarrow> 'b list"
  loads :: "'b list \<Rightarrow> ('o, 'c) pyval res"
  copy_to :: "nat list \<times> string \<Rightarrow> nat list \<times> string \<Rightarrow> 'v \<Rightarrow> 'v res"

text \<open>
  Unpickling gives back what was pickled, and copying between tensors of equal
  shape and type copies the contents.
\<close>

definition faithful :: "('o, 'c, 'v, 'b) codec \<Rightarrow> bool" where
  "faithful E = ((\<forall>x. loads E (dumps E x) = Inr x) \<and> (\<forall>m v. copy_to E m m v = Inr v))"

datatype ('b, 'v) packet = Number int | Bytes "'b list" | Data "nat list" string 'v

type_synonym ('b, 'v, 'a) prog = "(stream \<times> int, ('b, 'v) packet, 'v, 'a) proc"

section \<open>Messages on the streams\<close>

definition pool_size :: int where
  "pool_size = 1"

definition chan :: "stream \<Rightarrow> int \<Rightarrow> stream \<times> int" where
  "chan s comm_id = (s, comm_id mod pool_size)"

text \<open>Receiving into a buffer of another size is an error of the transport.\<close>

definition send_number :: "int \<Rightarrow> int \<Rightarrow> ('b, 'v, 'a) prog \<Rightarrow> ('b, 'v, 'a) prog" where
  "send_number comm_id n p = Give (chan CPU comm_id) (Number n) p"

definition recv_number :: "int \<Rightarrow> (int \<Rightarrow> ('b, 'v, 'a) prog) \<Rightarrow> ('b, 'v, 'a) prog" where
  "recv_number comm_id k = Take (chan CPU comm_id) (\<lambda>m. case m of Number n \<Rightarrow> k n | _ \<Rightarrow> Raise RuntimeError)"

definition send_bytes :: "int \<Rightarrow> 'b list \<Rightarrow> ('b, 'v, 'a) prog \<Rightarrow> ('b, 'v, 'a) prog" where
  "send_bytes comm_id b p = Give (chan CPU comm_id) (Bytes b) p"

definition recv_bytes :: "int \<Rightarrow> int \<Rightarrow> ('b list \<Rightarrow> ('b, 'v, 'a) prog) \<Rightarrow> ('b, 'v, 'a) prog" where
  "recv_bytes comm_id n k =
     Take (chan CPU comm_id)
       (\<lambda>m. case m of Bytes b \<Rightarrow> if int (length b) = n then k b else Raise RuntimeError | _ \<Rightarrow> Raise RuntimeError)"

definition send_data ::
    "stream \<Rightarrow> int \<Rightarrow> (nat \<Rightarrow> 'v) \<Rightarrow> tensor \<Rightarrow> ('b, 'v, 'a) prog \<Rightarrow> ('b, 'v, 'a) prog" where
  "send_data s comm_id mem t p = Give (chan s comm_id) (Data (t_shape t) (t_dtype t) (mem (t_address t))) p"

definition recv_data :: "stream \<Rightarrow> int \<Rightarrow> nat list \<times> string \<Rightarrow> device
    \<Rightarrow> ('v buffer \<Rightarrow> ('b, 'v, 'a) prog) \<Rightarrow> ('b, 'v, 'a) prog" where
  "recv_data s comm_id sd dev k =
     Take (chan s comm_id)
       (\<lambda>m. case m of
          Data sh dt v \<Rightarrow>
            if (sh, dt) = sd then k \<lparr>buf_shape = sh, buf_dtype = dt, buf_device = dev, contents = v\<rparr>
            else Raise RuntimeError
        | _ \<Rightarrow> Raise RuntimeError)"

text \<open>A pickled object travels as its size and its bytes.\<close>

definition send_pickled ::
    "('o, 'c, 'v, 'b) codec \<Rightarrow> int \<Rightarrow> ('o, 'c) pyval \<Rightarrow> ('b, 'v, 'a) prog \<Rightarrow> ('b, 'v, 'a) prog" where
  "send_pickled E comm_id x p =
     send_number comm_id (int (length (dumps E x))) (send_bytes comm_id (dumps E x) p)"

definition recv_pickled ::
    "('o, 'c, 'v, 'b) codec \<Rightarrow> int \<Rightarrow> (('o, 'c) pyval \<Rightarrow> ('b, 'v, 'a) prog) \<Rightarrow> ('b, 'v, 'a) prog" where
  "recv_pickled E comm_id k =
     recv_number comm_id (\<lambda>n. recv_bytes comm_id n
       (\<lambda>b. case loads E (take (nat n) b) of Inl e \<Rightarrow> Raise e | Inr x \<Rightarrow> k x))"

definition send_object :: "('o, 'c, 'v, 'b) codec \<Rightarrow> int \<Rightarrow> ('o, 'c) pyval \<Rightarrow> ('o, 'c) pyval
    \<Rightarrow> ('b, 'v, 'a) prog \<Rightarrow> ('b, 'v, 'a) prog" where
  "send_object E comm_id obj pb p = send_pickled E comm_id (PyPair obj pb) p"

fun unpack_pair :: "('o, 'c) pyval \<Rightarrow> (('o, 'c) pyval \<times> ('o, 'c) pyval) res" where
  "unpack_pair (PyPair a b) = Inr (a, b)"
| "unpack_pair _ = Inl TypeError"

text \<open>\<open>_recv_object\<close> returns the pair as it was sent.\<close>

definition recv_object :: "('o, 'c, 'v, 'b) codec \<Rightarrow> int \<Rightarrow> (('o, 'c) pyval \<Rightarrow> ('b, 'v, 'a) prog)
    \<Rightarrow> ('b, 'v, 'a) prog" where
  "recv_object E comm_id k = recv_pickled E comm_id k"

definition recv_unpacked :: "('o, 'c, 'v, 'b) codec \<Rightarrow> int
    \<Rightarrow> (('o, 'c) pyval \<Rightarrow> ('o, 'c) pyval \<Rightarrow> ('b, 'v, 'a) prog) \<Rightarrow> ('b, 'v, 'a) prog" where
  "recv_unpacked E comm_id k =
     recv_object E comm_id (\<lambda>x. case unpack_pair x of Inl e \<Rightarrow> Raise e | Inr (a, b) \<Rightarrow> k a b)"

section \<open>Devices\<close>

definition get_global_accelerator_id :: "endpoint \<Rightarrow> nat \<Rightarrow> string" where
  "get_global_accelerator_id w idx =
     (if idx < length (accelerators w) then int_str (accelerators w ! idx) else nat_str idx)"

definition get_accelerator_device_identity :: "endpoint \<Rightarrow> nat \<Rightarrow> string" where
  "get_accelerator_device_identity w idx =
     (case uuid w idx of Some u \<Rightarrow> u | None \<Rightarrow> get_global_accelerator_id w idx)"

text \<open>The identity of the device of an accelerator tensor; it is not asked for CPU tensors.\<close>

definition tensor_identity :: "endpoint \<Rightarrow> tensor \<Rightarrow> string" where
  "tensor_identity w t =
     get_accelerator_device_identity w (case t_device t of Accel i \<Rightarrow> i | Cpu \<Rightarrow> current w)"

definition check_same_device_with_peer :: "endpoint \<Rightarrow> endpoint \<Rightarrow> int" where
  "check_same_device_with_peer me peer =
     (if node_rank peer \<noteq> node_rank me then - 1
      else if set (accelerators peer) \<inter> set (accelerators me) = {} then - 1
      else if length (accelerators peer) = 1 \<and> length (accelerators me) = 1 then 1
      else 0)"

section \<open>Lists of tensors through IPC handles\<close>

definition reduce_tensor :: "tensor \<Rightarrow> ('o, 'c) pyval" where
  "reduce_tensor t = PyPair PyRebuild (PyStorage (t_address t) (t_shape t) (t_dtype t))"

text \<open>
  Calling the rebuild function on its arguments gives a view of the sender's
  memory; anything else in the two places is not callable, or not a list of
  arguments.
\<close>

fun call_rebuild :: "('o, 'c) pyval \<Rightarrow> ('o, 'c) pyval \<Rightarrow> (nat \<times> nat list \<times> string) res" where
  "call_rebuild PyRebuild (PyStorage a sh dt) = Inr (a, sh, dt)"
| "call_rebuild _ _ = Inl TypeError"

definition rebuild_handle :: "('o, 'c) pyval \<Rightarrow> (nat \<times> nat list \<times> string) res" where
  "rebuild_handle h = rbind (unpack_pair h) (\<lambda>(f, args). call_rebuild f args)"

fun clone_all :: "device \<Rightarrow> (nat \<times> nat list \<times> string) list
    \<Rightarrow> ('v buffer list \<Rightarrow> ('b, 'v, 'a) prog) \<Rightarrow> ('b, 'v, 'a) prog" where
  "clone_all dev [] k = k []"
| "clone_all dev ((a, sh, dt) # views) k =
     Look a (\<lambda>v. clone_all dev views
       (\<lambda>bs. k (\<lparr>buf_shape = sh, buf_dtype = dt, buf_device = dev, contents = v\<rparr> # bs)))"

definition send_tensor_list_via_ipc ::
    "('o, 'c, 'v, 'b) codec \<Rightarrow> int \<Rightarrow> tensor list \<Rightarrow> ('b, 'v, 'a) prog \<Rightarrow> ('b, 'v, 'a) prog" where
  "send_tensor_list_via_ipc E comm_id tensors p =
     send_pickled E comm_id (PyList (map reduce_tensor tensors)) (send_number comm_id 0 p)"

definition recv_tensor_list_via_ipc :: "('o, 'c, 'v, 'b) codec \<Rightarrow> endpoint \<Rightarrow> int
    \<Rightarrow> ('v buffer list \<Rightarrow> ('b, 'v, 'a) prog) \<Rightarrow> ('b, 'v, 'a) prog" where
  "recv_tensor_list_via_ipc E me comm_id k =
     recv_pickled E comm_id
       (\<lambda>x. case x of
          PyList handles \<Rightarrow>
            (case rmap rebuild_handle handles of
               Inl e \<Rightarrow> Raise e
             | Inr remote_tensors \<Rightarrow>
                 clone_all (Accel (current me)) remote_tensors (\<lambda>tensors. recv_number comm_id (\<lambda>_. k tensors)))
        | _ \<Rightarrow> Raise TypeError)"

section \<open>Lists of tensors to a peer with several devices\<close>

definition send_each ::
    "stream \<Rightarrow> int \<Rightarrow> (nat \<Rightarrow> 'v) \<Rightarrow> tensor list \<Rightarrow> ('b, 'v, 'a) prog \<Rightarrow> ('b, 'v, 'a) prog" where
  "send_each s comm_id mem tensors p = foldr (send_data s comm_id mem) tensors p"

definition send_tensor_list_to_uncertain_peer :: "('o, 'c, 'v, 'b) codec \<Rightarrow> endpoint \<Rightarrow> (nat \<Rightarrow> 'v) \<Rightarrow> int
    \<Rightarrow> tensor list \<Rightarrow> ('b, 'v, 'a) prog \<Rightarrow> ('b, 'v, 'a) prog" where
  "send_tensor_list_to_uncertain_peer E me mem comm_id tensors p =
     send_pickled E comm_id (PyList (map (\<lambda>t. PyText (tensor_identity me t)) tensors))
       (recv_pickled E comm_id
         (\<lambda>peer_device.
            let tensors_via_ipc = filter (\<lambda>t. PyText (tensor_identity me t) = peer_device) tensors;
                tensors_via_nccl = filter (\<lambda>t. PyText (tensor_identity me t) \<noteq> peer_device) tensors;
                rest = send_each ACCEL comm_id mem tensors_via_nccl p
            in if tensors_via_ipc \<noteq> [] then send_tensor_list_via_ipc E comm_id tensors_via_ipc rest else rest))"

text \<open>
  \<open>tensors[i] = tensor\<close> for each pair, in order. A slot is \<open>None\<close> until it has
  been filled.
\<close>

definition fill :: "'t option list \<Rightarrow> (nat \<times> 't) list \<Rightarrow> 't option list" where
  "fill slots assigned = fold (\<lambda>(i, b) s. s[i := Some b]) assigned slots"

definition assign_slots :: "'t option list \<Rightarrow> (nat \<times> 't) list \<Rightarrow> 't option list res" where
  "assign_slots slots assigned =
     rfold (\<lambda>s (i, b). if i < length s then Inr (s[i := Some b]) else Inl IndexError) slots assigned"

text \<open>Receive one tensor after the other, each into its place.\<close>

fun recv_slots :: "stream \<Rightarrow> int \<Rightarrow> device \<Rightarrow> (nat \<times> nat list \<times> string) list \<Rightarrow> 'v buffer option list
    \<Rightarrow> ('v buffer option list \<Rightarrow> ('b, 'v, 'a) prog) \<Rightarrow> ('b, 'v, 'a) prog" where
  "recv_slots s comm_id dev [] slots k = k slots"
| "recv_slots s comm_id dev ((i, sd) # entries) slots k =
     recv_data s comm_id sd dev (\<lambda>b. recv_slots s comm_id dev entries (slots[i := Some b]) k)"

fun recv_nccl_tensors :: "endpoint \<Rightarrow> int \<Rightarrow> (nat list \<times> string) list \<Rightarrow> nat list \<Rightarrow> 'v buffer option list
    \<Rightarrow> ('v buffer option list \<Rightarrow> ('b, 'v, 'a) prog) \<Rightarrow> ('b, 'v, 'a) prog" where
  "recv_nccl_tensors me comm_id tensor_shapes [] slots k = k slots"
| "recv_nccl_tensors me comm_id tensor_shapes (i # is) slots k =
     (case py_index tensor_shapes (int i) of
        Inl e \<Rightarrow> Raise e
      | Inr sd \<Rightarrow>
          recv_data ACCEL comm_id sd (Accel (current me))
            (\<lambda>b. recv_nccl_tensors me comm_id tensor_shapes is (slots[i := Some b]) k))"

definition recv_tensor_list_to_uncertain_peer :: "('o, 'c, 'v, 'b) codec \<Rightarrow> endpoint \<Rightarrow> int
    \<Rightarrow> (nat list \<times> string) list \<Rightarrow> ('v buffer option list \<Rightarrow> ('b, 'v, 'a) prog) \<Rightarrow> ('b, 'v, 'a) prog" where
  "recv_tensor_list_to_uncertain_peer E me comm_id tensor_shapes k =
     recv_pickled E comm_id
       (\<lambda>x. case x of
          PyList peer_tensor_devices \<Rightarrow>
            (let current_device = PyText (get_accelerator_device_identity me (current me));
                 entries = enumerate 0 peer_tensor_devices;
                 ipc_tensor_indices = map fst (filter (\<lambda>(i, d). d = current_device) entries);
                 nccl_tensor_indices = map fst (filter (\<lambda>(i, d). d \<noteq> current_device) entries);
                 rest = (\<lambda>slots. recv_nccl_tensors me comm_id tensor_shapes nccl_tensor_indices slots k);
                 tensors = replicate (length tensor_shapes) None
             in send_pickled E comm_id current_device
               (if ipc_tensor_indices \<noteq> []
                then recv_tensor_list_via_ipc E me comm_id
                  (\<lambda>ipc_tensors.
                     case assign_slots tensors (zip ipc_tensor_indices ipc_tensors) of
                       Inl e \<Rightarrow> Raise e
                     | Inr slots \<Rightarrow> rest slots)
                else rest tensors))
        | _ \<Rightarrow> Raise TypeError)"

section \<open>One exchange at a time\<close>

text \<open>
  Each lemma runs a send operation against its receive operation: both
  programs go on, the receiver with what was sent.
\<close>

definition view :: "(nat \<Rightarrow> 'v) \<Rightarrow> device \<Rightarrow> tensor \<Rightarrow> 'v buffer" where
  "view mem dev t =
     \<lparr>buf_shape = t_shape t, buf_dtype = t_dtype t, buf_device = dev, contents = mem (t_address t)\<rparr>"

abbreviation shape_dtype :: "tensor \<Rightarrow> nat list \<times> string" where
  "shape_dtype t \<equiv> (t_shape t, t_dtype t)"

lemma faithful_simps [simp]:
  "faithful E \<Longrightarrow> loads E (dumps E x) = Inr x"
  "faithful E \<Longrightarrow> copy_to E m m v = Inr v"
  unfolding faithful_def by blast+

lemma meet_number [simp]:
  "meet (send_number c n p) (recv_number c k) mem = meet p (k n) mem"
  "meet (recv_number c k') (send_number c n q) mem = meet (k' n) q mem"
  by (simp_all add: send_number_def recv_number_def)

lemma meet_bytes [simp]:
  "meet (send_bytes c b p) (recv_bytes c (int (length b)) k) mem = meet p (k b) mem"
  "meet (recv_bytes c (int (length b)) k') (send_bytes c b q) mem = meet (k' b) q mem"
  by (simp_all add: send_bytes_def recv_bytes_def)

lemma meet_pickled [simp]:
  assumes "faithful E"
  shows "meet (send_pickled E c x p) (recv_pickled E c k) mem = meet p (k x) mem"
    and "meet (recv_pickled E c k') (send_pickled E c x q) mem = meet (k' x) q mem"
  using assms by (simp_all add: send_pickled_def recv_pickled_def)

lemma inevitable_pickled:
  assumes "faithful E"
  shows "inevitable hstep P (p, k x, mem) \<Longrightarrow> inevitable hstep P (send_pickled E c x p, recv_pickled E c k, mem)"
    and "inevitable hstep P (k' x, q, mem) \<Longrightarrow> inevitable hstep P (recv_pickled E c k', send_pickled E c x q, mem)"
  unfolding send_pickled_def recv_pickled_def send_number_def recv_number_def send_bytes_def recv_bytes_def
  using assms by (auto intro!: inevitable_give inevitable_take)

lemma meet_object [simp]:
  assumes "faithful E"
  shows "meet (send_object E c x pb p) (recv_object E c k) mem = meet p (k (PyPair x pb)) mem"
    and "meet (send_object E c x pb p) (recv_unpacked E c k') mem = meet p (k' x pb) mem"
  using assms by (simp_all add: send_object_def recv_object_def recv_unpacked_def)

lemma meet_data [simp]:
  "meet (send_data s c mem t p) (recv_data s c (shape_dtype t) dev k) mem = meet p (k (view mem dev t)) mem"
  by (simp add: send_data_def recv_data_def view_def)

lemma fill_Cons [simp]: "fill slots ((i, b) # ibs) = fill (slots[i := Some b]) ibs"
  and fill_Nil [simp]: "fill slots [] = slots"
  by (simp_all add: fill_def)

lemma length_fill [simp]: "length (fill slots ibs) = length slots"
  by (induction ibs arbitrary: slots) auto

lemma assign_slots_in_range:
  "\<forall>(i, b) \<in> set ibs. i < length slots \<Longrightarrow> assign_slots slots ibs = Inr (fill slots ibs)"
  unfolding assign_slots_def by (induction ibs arbitrary: slots) auto

lemma send_each_simps [simp]:
  "send_each s c mem [] p = p" "send_each s c mem (t # ts) p = send_data s c mem t (send_each s c mem ts p)"
  by (simp_all add: send_each_def)

lemma meet_each:
  "length is = length ts \<Longrightarrow>
     meet (send_each s c mem ts p) (recv_slots s c dev (zip is (map shape_dtype ts)) slots k) mem =
       meet p (k (fill slots (zip is (map (view mem dev) ts)))) mem"
  by (induction "is" ts arbitrary: slots rule: list_induct2) auto

lemma recv_nccl_tensors_eq:
  "\<forall>i \<in> set is. i < length shapes \<Longrightarrow>
     recv_nccl_tensors me c shapes is slots k =
       recv_slots ACCEL c (Accel (current me)) (zip is (map ((!) shapes) is)) slots k"
  by (induction "is" arbitrary: slots) auto

lemma meet_clone_all:
  "meet (Give c m p) (clone_all dev (map (\<lambda>t. (t_address t, t_shape t, t_dtype t)) ts) k) mem =
     meet (Give c m p) (k (map (view mem dev) ts)) mem"
  by (induction ts arbitrary: k) (simp_all add: view_def del: meet.simps)

lemma rebuild_reduced [simp]: "rebuild_handle (reduce_tensor t) = Inr (t_address t, t_shape t, t_dtype t)"
  by (simp add: rebuild_handle_def reduce_tensor_def)

lemma rebuild_all_reduced [simp]:
  "rmap rebuild_handle (map reduce_tensor ts) = Inr (map (\<lambda>t. (t_address t, t_shape t, t_dtype t)) ts)"
  by (simp add: rmap_map comp_def)

text \<open>
  The number sent after the handles is what makes this safe: the sender cannot
  go on, and overwrite its tensors, before the receiver has cloned them.
\<close>

lemma meet_via_ipc [simp]:
  assumes "faithful E"
  shows "meet (send_tensor_list_via_ipc E c ts p) (recv_tensor_list_via_ipc E me c k) mem =
     meet p (k (map (view mem (Accel (current me))) ts)) mem"
  using assms meet_number(1) [of c 0 p "\<lambda>_. k (map (view mem (Accel (current me))) ts)" mem]
  by (simp add: send_tensor_list_via_ipc_def recv_tensor_list_via_ipc_def send_number_def meet_clone_all
      del: meet.simps meet_number)

section \<open>Filling the slots of a list\<close>

lemma filter_by_index: "filter P xs = map ((!) xs) (filter (\<lambda>i. P (xs ! i)) [0..<length xs])"
proof -
  have "filter P (map ((!) xs) [0..<length xs]) = map ((!) xs) (filter (\<lambda>i. P (xs ! i)) [0..<length xs])"
    by (simp add: filter_map comp_def)
  then show ?thesis by (simp add: map_nth)
qed

lemma enumerate_by_index: "enumerate 0 xs = map (\<lambda>i. (i, xs ! i)) [0..<length xs]"
  by (rule nth_equalityI) (simp_all add: nth_enumerate_eq)

lemma nth_fill:
  "distinct is \<Longrightarrow> \<forall>i \<in> set is. i < length slots \<Longrightarrow> j < length slots \<Longrightarrow>
     fill slots (map (\<lambda>i. (i, g i)) is) ! j = (if j \<in> set is then Some (g j) else slots ! j)"
  by (induction "is" arbitrary: slots) (auto simp: nth_list_update)

text \<open>Two passes over the indices with \<open>P\<close> and without it fill every slot.\<close>

lemma fill_both_parts:
  assumes "n = length slots"
  shows "fill (fill slots (map (\<lambda>i. (i, g i)) (filter P [0..<n]))) (map (\<lambda>i. (i, g i)) (filter (\<lambda>i. \<not> P i) [0..<n])) =
     map (Some \<circ> g) [0..<n]"
  using assms by (intro nth_equalityI) (auto simp: nth_fill)

lemma zip_filtered:
  "zip (filter (\<lambda>i. P (xs ! i)) [0..<length xs]) (map f (filter P xs)) =
     map (\<lambda>i. (i, f (xs ! i))) (filter (\<lambda>i. P (xs ! i)) [0..<length xs])"
  by (simp add: filter_by_index [of P xs] zip_map2 zip_same_conv_map)

lemma filtered_indices:
  "map fst (filter (\<lambda>(i, d). Q d) (enumerate 0 xs)) = filter (\<lambda>i. Q (xs ! i)) [0..<length xs]"
  by (simp add: enumerate_by_index filter_map comp_def)

text \<open>The tensors with \<open>P\<close>, sent one by one, land in their slots.\<close>

lemma meet_part:
  assumes "n = length ts"
  shows "meet (send_each s c mem (filter P ts) p)
      (recv_slots s c dev (map (\<lambda>i. (i, shape_dtype (ts ! i))) (filter (\<lambda>i. P (ts ! i)) [0..<n])) slots k) mem =
    meet p (k (fill slots (map (\<lambda>i. (i, view mem dev (ts ! i))) (filter (\<lambda>i. P (ts ! i)) [0..<n])))) mem"
proof -
  let ?is = "filter (\<lambda>i. P (ts ! i)) [0..<length ts]"
  have same: "length ?is = length (filter P ts)"
    by (simp add: filter_by_index [of P ts])
  have "map (\<lambda>i. (i, shape_dtype (ts ! i))) ?is = zip ?is (map shape_dtype (filter P ts))"
    by (rule zip_filtered [symmetric])
  then show ?thesis
    using assms meet_each [OF same, of s c mem p dev slots k] by (simp add: zip_filtered)
qed

lemma meet_nccl_part:
  assumes "n = length ts"
  shows "meet (send_each ACCEL c mem (filter P ts) p)
      (recv_nccl_tensors me c (map shape_dtype ts) (filter (\<lambda>i. P (ts ! i)) [0..<n]) slots k) mem =
    meet p (k (fill slots (map (\<lambda>i. (i, view mem (Accel (current me)) (ts ! i))) (filter (\<lambda>i. P (ts ! i)) [0..<n])))) mem"
proof -
  let ?is = "filter (\<lambda>i. P (ts ! i)) [0..<n]"
  have "zip ?is (map ((!) (map shape_dtype ts)) ?is) = map (\<lambda>i. (i, shape_dtype (ts ! i))) ?is"
    using assms by (simp add: zip_map2 zip_same_conv_map)
  then show ?thesis
    using assms meet_part [OF assms, of ACCEL c mem P p "Accel (current me)" slots k]
    by (simp add: recv_nccl_tensors_eq)
qed

lemma map_by_index: "map (Some \<circ> (\<lambda>i. g (xs ! i))) [0..<length xs] = map (Some \<circ> g) xs"
  by (rule nth_equalityI) simp_all

lemma meet_to_uncertain_peer [simp]:
  assumes E: "faithful E"
  shows "meet (send_tensor_list_to_uncertain_peer E w mem c ts p)
      (recv_tensor_list_to_uncertain_peer E v c (map shape_dtype ts) k) mem =
    meet p (k (map (Some \<circ> view mem (Accel (current v))) ts)) mem"
proof -
  let ?cur = "PyText (get_accelerator_device_identity v (current v)) :: ('a, 'b) pyval"
  let ?P = "\<lambda>t. PyText (tensor_identity w t) = ?cur"
  let ?n = "length ts"
  let ?view = "\<lambda>i. (i, view mem (Accel (current v)) (ts ! i))"
  let ?ipc = "filter (\<lambda>i. ?P (ts ! i)) [0..<?n]"
  let ?slots = "replicate ?n None :: 'c buffer option list"
  have idx: "map fst (filter (\<lambda>(i, d). Q d) (enumerate 0 (map (\<lambda>t. PyText (tensor_identity w t)) ts))) =
      filter (\<lambda>i. Q (PyText (tensor_identity w (ts ! i)))) [0..<?n]" for Q :: "('a, 'b) pyval \<Rightarrow> bool"
    by (subst filtered_indices) (auto intro: filter_cong)
  have empty: "filter ?P ts = [] \<longleftrightarrow> ?ipc = []"
    by (auto simp: filter_empty_conv all_set_conv_all_nth)
  have all: "fill (fill ?slots (map ?view ?ipc)) (map ?view (filter (\<lambda>i. \<not> ?P (ts ! i)) [0..<?n])) =
      map (Some \<circ> view mem (Accel (current v))) ts"
    using fill_both_parts [of ?n ?slots "\<lambda>i. view mem (Accel (current v)) (ts ! i)" "\<lambda>i. ?P (ts ! i)"]
    by (simp add: map_by_index)
  have nccl: "meet (send_each ACCEL c mem (filter (\<lambda>t. \<not> ?P t) ts) p)
      (recv_nccl_tensors v c (map shape_dtype ts) (filter (\<lambda>i. \<not> ?P (ts ! i)) [0..<?n])
         (fill ?slots (map ?view ?ipc)) k) mem =
      meet p (k (map (Some \<circ> view mem (Accel (current v))) ts)) mem"
    by (simp only: meet_nccl_part [OF refl, where P = "\<lambda>t. \<not> ?P t"] all)
  have assigned: "assign_slots ?slots (map ?view ?ipc) = Inr (fill ?slots (map ?view ?ipc))"
    by (rule assign_slots_in_range) auto
  show ?thesis
    unfolding send_tensor_list_to_uncertain_peer_def recv_tensor_list_to_uncertain_peer_def
      meet_pickled [OF E] Let_def pyval.case idx length_map empty
    using nccl assigned
    by (cases "?ipc = []") (simp_all only: not_not if_False if_True simp_thms meet_via_ipc [OF E]
        zip_filtered [where P = ?P] sum.case fill_Nil list.map)
qed

end
