(* ===== verification/Collective_Send.thy ===== *)
theory Collective_Send
  imports Collective_P2P
begin

text \<open>
  \<open>CollectiveGroup.send\<close> and \<open>recv\<close> of
  \<^verbatim>\<open>rlinf/scheduler/collective/collective_group.py\<close> for every kind of object
  (a tensor, a list, a dictionary, a dataclass with tensor fields, any other
  object), their composition into a sequence of messages, and the in-place
  \<open>send_tensor\<close> and \<open>recv_tensor\<close>.
\<close>

section \<open>Objects\<close>

text \<open>
  What can be sent, by the tests that \<open>_get_object_info\<close> makes. \<open>Plain_Obj\<close> is
  an object that none of the tensor cases applies to and that is not a
  dataclass.
\<close>

datatype ('o, 'c, 't) object =
    Tensor_Obj 't
  | List_Obj "'t list"
  | Tuple_Obj "'t list"
  | Dict_Obj "(string \<times> 't) list"
  | Dataclass_Obj 'c "(string \<times> ('o, 't) field) list"
  | Plain_Obj "('o, 'c) pyval"

abbreviation "TENSOR \<equiv> 0 :: int"
abbreviation "TENSOR_LIST \<equiv> 1 :: int"
abbreviation "TENSOR_DICT \<equiv> 2 :: int"
abbreviation "OBJECT \<equiv> 3 :: int"
abbreviation "DATACLASS_WITH_TENSORS \<equiv> 4 :: int"

record 'o tensor_data =
  cpu_tensor_mask :: "bool list"
  cpu_tensors :: "tensor list"
  accel_tensors :: "tensor list"
  tensor_fields :: "(string \<times> ('o, tensor) field) list option"
  metadata :: "field_meta list option"
  tensors_list :: "tensor list option"

definition partition_tensors :: "tensor list \<Rightarrow> bool list \<times> tensor list \<times> tensor list" where
  "partition_tensors tensors =
     (map (\<lambda>t. is_cpu t) tensors, filter (\<lambda>t. is_cpu t) tensors, filter (\<lambda>t. \<not> is_cpu t) tensors)"

definition check_tensor_contiguous :: "tensor list \<Rightarrow> unit res" where
  "check_tensor_contiguous tensors = (if list_all t_contiguous tensors then Inr () else Inl ValueError)"

definition no_tensor_data :: "'o tensor_data" where
  "no_tensor_data = \<lparr>cpu_tensor_mask = [], cpu_tensors = [], accel_tensors = [], tensor_fields = None,
     metadata = None, tensors_list = None\<rparr>"

text \<open>The branch of \<open>_get_object_info\<close> for an object whose tensors are in the list.\<close>

definition tensor_info :: "int \<Rightarrow> tensor list \<Rightarrow> (int \<times> 'o tensor_data) res" where
  "tensor_info object_type tensors =
     (let (cpu_mask, cpu, accel) = partition_tensors tensors
      in rbind (check_tensor_contiguous (accel @ cpu))
        (\<lambda>_. Inr (object_type, no_tensor_data\<lparr>cpu_tensor_mask := cpu_mask, cpu_tensors := cpu, accel_tensors := accel\<rparr>)))"

fun get_object_info :: "('o, 'c, tensor) object \<Rightarrow> (int \<times> 'o tensor_data) res" where
  "get_object_info (Tensor_Obj t) = tensor_info TENSOR [t]"
| "get_object_info (List_Obj ts) = tensor_info TENSOR_LIST ts"
| "get_object_info (Tuple_Obj ts) = tensor_info TENSOR_LIST ts"
| "get_object_info (Dict_Obj kvs) = tensor_info TENSOR_DICT (map snd kvs)"
| "get_object_info (Dataclass_Obj cls fs) =
     (let (named, tensors, meta) = extract_dataclass_tensor_fields fs
      in if named = [] then Inr (OBJECT, no_tensor_data)
         else rbind (tensor_info DATACLASS_WITH_TENSORS tensors)
           (\<lambda>(ty, td). Inr (ty, td\<lparr>tensor_fields := Some named, metadata := Some meta, tensors_list := Some tensors\<rparr>)))"
| "get_object_info (Plain_Obj x) = Inr (OBJECT, no_tensor_data)"

section \<open>Tensor lists\<close>

definition send_tensor_list :: "('o, 'c, 'v, 'b) codec \<Rightarrow> endpoint \<Rightarrow> endpoint \<Rightarrow> (nat \<Rightarrow> 'v) \<Rightarrow> int
    \<Rightarrow> 'o tensor_data \<Rightarrow> tensor list \<Rightarrow> ('o, 'c) pyval \<Rightarrow> ('b, 'v, 'a) prog \<Rightarrow> ('b, 'v, 'a) prog" where
  "send_tensor_list E me peer mem comm_id td tensors pb p =
     (if length (cpu_tensor_mask td) \<noteq> length tensors then Raise AssertionError
      else send_pickled E comm_id (PyListMeta (map shape_dtype tensors) pb (cpu_tensor_mask td))
        (send_each CPU comm_id mem (cpu_tensors td)
          (if accel_tensors td \<noteq> []
           then let check = check_same_device_with_peer me peer
                in if check = 0 then send_tensor_list_to_uncertain_peer E me mem comm_id (accel_tensors td) p
                   else if check = 1 then send_tensor_list_via_ipc E comm_id (accel_tensors td) p
                   else send_each ACCEL comm_id mem (accel_tensors td) p
           else p)))"

text \<open>\<open>tensors[idx] = tensor\<close> where the assigned value may itself be \<open>None\<close>.\<close>

definition fill_options :: "'t option list \<Rightarrow> (nat \<times> 't option) list \<Rightarrow> 't option list" where
  "fill_options slots assigned = fold (\<lambda>(i, b) s. s[i := b]) assigned slots"

text \<open>The indices and shapes of the tensors with a given flag in the mask.\<close>

definition mask_entries :: "bool \<Rightarrow> (nat list \<times> string) list \<Rightarrow> bool list \<Rightarrow> (nat \<times> nat list \<times> string) list" where
  "mask_entries flag shapes cpu_mask =
     map (\<lambda>(i, sd, _). (i, sd)) (filter (\<lambda>(i, sd, cpu). cpu = flag) (enumerate 0 (zip shapes cpu_mask)))"

definition recv_tensor_list :: "('o, 'c, 'v, 'b) codec \<Rightarrow> endpoint \<Rightarrow> endpoint \<Rightarrow> int
    \<Rightarrow> ('v buffer option list \<Rightarrow> ('o, 'c) pyval \<Rightarrow> ('b, 'v, 'a) prog) \<Rightarrow> ('b, 'v, 'a) prog" where
  "recv_tensor_list E me peer comm_id k =
     recv_pickled E comm_id
       (\<lambda>x. case x of
          PyListMeta tensor_shapes pb_data cpu_mask \<Rightarrow>
            (let has_accel_tensor = (\<exists>m \<in> set cpu_mask. \<not> m);
                 tensors = replicate (length (zip tensor_shapes cpu_mask)) None;
                 accel_entries = mask_entries False tensor_shapes cpu_mask
             in recv_slots CPU comm_id Cpu (mask_entries True tensor_shapes cpu_mask) tensors
               (\<lambda>tensors.
                  if has_accel_tensor
                  then let check = check_same_device_with_peer me peer
                       in if check = 0
                          then recv_tensor_list_to_uncertain_peer E me comm_id (map snd accel_entries)
                            (\<lambda>received. k (fill_options tensors (zip (map fst accel_entries) received)) pb_data)
                          else if check = 1
                          then recv_tensor_list_via_ipc E me comm_id
                            (\<lambda>received. k (fill tensors (zip (map fst accel_entries) received)) pb_data)
                          else recv_slots ACCEL comm_id (Accel (current me)) accel_entries tensors
                            (\<lambda>tensors. k tensors pb_data)
                  else k tensors pb_data))
        | _ \<Rightarrow> Raise TypeError)"

section \<open>Dictionaries and dataclasses\<close>

definition send_tensor_dict :: "('o, 'c, 'v, 'b) codec \<Rightarrow> endpoint \<Rightarrow> endpoint \<Rightarrow> (nat \<Rightarrow> 'v) \<Rightarrow> int
    \<Rightarrow> 'o tensor_data \<Rightarrow> (string \<times> tensor) list \<Rightarrow> ('o, 'c) pyval \<Rightarrow> ('b, 'v, 'a) prog \<Rightarrow> ('b, 'v, 'a) prog" where
  "send_tensor_dict E me peer mem comm_id td tensor_dict pb p =
     send_pickled E comm_id (PyPair (PyKeys (map fst tensor_dict)) pb)
       (send_tensor_list E me peer mem comm_id td (map snd tensor_dict) PyNone p)"

definition recv_tensor_dict :: "('o, 'c, 'v, 'b) codec \<Rightarrow> endpoint \<Rightarrow> endpoint \<Rightarrow> int
    \<Rightarrow> ((string \<times> 'v buffer option) list \<Rightarrow> ('o, 'c) pyval \<Rightarrow> ('b, 'v, 'a) prog) \<Rightarrow> ('b, 'v, 'a) prog" where
  "recv_tensor_dict E me peer comm_id k =
     recv_unpacked E comm_id
       (\<lambda>keys pb_data. case keys of
          PyKeys ks \<Rightarrow>
            recv_tensor_list E me peer comm_id
              (\<lambda>values _. if length ks = length values then k (py_dict (zip ks values)) pb_data else Raise AssertionError)
        | _ \<Rightarrow> Raise TypeError)"

text \<open>\<open>replace(obj, **dict.fromkeys(names, None))\<close>: the object without its tensor fields.\<close>

definition skeleton :: "string list \<Rightarrow> (string \<times> ('o, 't) field) list \<Rightarrow> (string \<times> 'o option) list" where
  "skeleton names fs =
     map (\<lambda>(n, f). (n, if n \<in> set names then None else case f of F_Plain x \<Rightarrow> x | _ \<Rightarrow> None)) fs"

text \<open>\<open>replace(skeleton, **tensor_dict)\<close>; an unknown field name is a \<open>TypeError\<close>.\<close>

definition replace_fields ::
    "(string \<times> 'o option) list \<Rightarrow> (string \<times> ('o, 't) field) list \<Rightarrow> (string \<times> ('o, 't) field) list res" where
  "replace_fields fs d =
     (if list_all (\<lambda>(n, _). n \<in> fst ` set fs) d
      then Inr (map (\<lambda>(n, v). (n, case map_of d n of Some f \<Rightarrow> f | None \<Rightarrow> F_Plain v)) fs)
      else Inl TypeError)"

definition send_tensor_dataclass :: "('o, 'c, 'v, 'b) codec \<Rightarrow> endpoint \<Rightarrow> endpoint \<Rightarrow> (nat \<Rightarrow> 'v) \<Rightarrow> int
    \<Rightarrow> 'o tensor_data \<Rightarrow> 'c \<Rightarrow> (string \<times> ('o, tensor) field) list \<Rightarrow> ('o, 'c) pyval
    \<Rightarrow> ('b, 'v, 'a) prog \<Rightarrow> ('b, 'v, 'a) prog" where
  "send_tensor_dataclass E me peer mem comm_id td cls fs pb p =
     (case (tensor_fields td, metadata td, tensors_list td) of
        (Some named, Some meta, Some flat_tensors) \<Rightarrow>
          send_tensor_list E me peer mem comm_id td flat_tensors (PyFields meta)
            (send_object E comm_id (PyShell cls (skeleton (map fst named) fs)) pb p)
      | _ \<Rightarrow> Raise AssertionError)"

definition recv_tensor_dataclass :: "('o, 'c, 'v, 'b) codec \<Rightarrow> endpoint \<Rightarrow> endpoint \<Rightarrow> int
    \<Rightarrow> (('o, 'c, 'v buffer option) object \<Rightarrow> ('o, 'c) pyval \<Rightarrow> ('b, 'v, 'a) prog) \<Rightarrow> ('b, 'v, 'a) prog" where
  "recv_tensor_dataclass E me peer comm_id k =
     recv_tensor_list E me peer comm_id
       (\<lambda>flat_tensors meta. case meta of
          PyFields ms \<Rightarrow>
            (case unflatten_dataclass_tensor_fields ms flat_tensors of
               Inl e \<Rightarrow> Raise e
             | Inr tensor_dict \<Rightarrow>
                 recv_unpacked E comm_id
                   (\<lambda>shell pb_data. case shell of
                      PyShell cls fs \<Rightarrow>
                        (case replace_fields fs tensor_dict of
                           Inl e \<Rightarrow> Raise e
                         | Inr refilled \<Rightarrow> k (Dataclass_Obj cls refilled) pb_data)
                    | _ \<Rightarrow> Raise TypeError))
        | _ \<Rightarrow> Raise TypeError)"

section \<open>send and recv\<close>

text \<open>An object without tensors, as it is pickled and as it comes out.\<close>

fun to_pickle :: "('o, 'c, 't) object \<Rightarrow> ('o, 'c) pyval" where
  "to_pickle (Dataclass_Obj cls fs) = PyShell cls (skeleton [] fs)"
| "to_pickle (Plain_Obj x) = x"
| "to_pickle _ = PyNone"

fun from_pickle :: "('o, 'c) pyval \<Rightarrow> ('o, 'c, 't) object" where
  "from_pickle (PyShell cls fs) = Dataclass_Obj cls (map (\<lambda>(n, v). (n, F_Plain v)) fs)"
| "from_pickle x = Plain_Obj x"

fun listed_tensors :: "('o, 'c, 't) object \<Rightarrow> 't list" where
  "listed_tensors (Tensor_Obj t) = [t]"
| "listed_tensors (List_Obj ts) = ts"
| "listed_tensors (Tuple_Obj ts) = ts"
| "listed_tensors _ = []"

definition atomic_send :: "('o, 'c, 'v, 'b) codec \<Rightarrow> endpoint \<Rightarrow> endpoint \<Rightarrow> (nat \<Rightarrow> 'v) \<Rightarrow> int
    \<Rightarrow> int \<Rightarrow> 'o tensor_data \<Rightarrow> ('o, 'c, tensor) object \<Rightarrow> ('o, 'c) pyval
    \<Rightarrow> ('b, 'v, 'a) prog \<Rightarrow> ('b, 'v, 'a) prog" where
  "atomic_send E me peer mem comm_id object_type td obj pb p =
     send_number comm_id object_type
       (if object_type = TENSOR \<or> object_type = TENSOR_LIST
        then send_tensor_list E me peer mem comm_id td (listed_tensors obj) pb p
        else if object_type = TENSOR_DICT
        then (case obj of Dict_Obj kvs \<Rightarrow> send_tensor_dict E me peer mem comm_id td kvs pb p | _ \<Rightarrow> Raise AttributeError)
        else if object_type = DATACLASS_WITH_TENSORS
        then (case obj of Dataclass_Obj cls fs \<Rightarrow> send_tensor_dataclass E me peer mem comm_id td cls fs pb p
              | _ \<Rightarrow> Raise TypeError)
        else if object_type = OBJECT then send_object E comm_id (to_pickle obj) pb p
        else Raise ValueError)"

definition send_msg :: "('o, 'c, 'v, 'b) codec \<Rightarrow> endpoint \<Rightarrow> endpoint \<Rightarrow> (nat \<Rightarrow> 'v) \<Rightarrow> int
    \<Rightarrow> ('o, 'c, tensor) object \<Rightarrow> ('o, 'c) pyval \<Rightarrow> ('b, 'v, 'a) prog \<Rightarrow> ('b, 'v, 'a) prog" where
  "send_msg E me peer mem comm_id obj pb p =
     (case get_object_info obj of
        Inl e \<Rightarrow> Raise e
      | Inr (object_type, td) \<Rightarrow> atomic_send E me peer mem comm_id object_type td obj pb p)"

text \<open>\<open>recv\<close> returns the object alone when the payload that came with it is \<open>None\<close>, the pair otherwise.\<close>

type_synonym ('o, 'c, 'v) received = "('o, 'c, 'v buffer option) object \<times> ('o, 'c) pyval option"

definition recv_result :: "('o, 'c, 'v buffer option) object \<Rightarrow> ('o, 'c) pyval \<Rightarrow> ('o, 'c, 'v) received" where
  "recv_result data pb_data = (data, if pb_data = PyNone then None else Some pb_data)"

definition recv_msg :: "('o, 'c, 'v, 'b) codec \<Rightarrow> endpoint \<Rightarrow> endpoint \<Rightarrow> int
    \<Rightarrow> (('o, 'c, 'v) received \<Rightarrow> ('b, 'v, 'a) prog) \<Rightarrow> ('b, 'v, 'a) prog" where
  "recv_msg E me peer comm_id k =
     recv_number comm_id
       (\<lambda>object_type.
          if object_type = TENSOR
          then recv_tensor_list E me peer comm_id
            (\<lambda>tensors pb. if length tensors = 1 then k (recv_result (Tensor_Obj (tensors ! 0)) pb) else Raise AssertionError)
          else if object_type = TENSOR_LIST
          then recv_tensor_list E me peer comm_id (\<lambda>tensors pb. k (recv_result (List_Obj tensors) pb))
          else if object_type = TENSOR_DICT
          then recv_tensor_dict E me peer comm_id (\<lambda>d pb. k (recv_result (Dict_Obj d) pb))
          else if object_type = DATACLASS_WITH_TENSORS
          then recv_tensor_dataclass E me peer comm_id (\<lambda>data pb. k (recv_result data pb))
          else if object_type = OBJECT
          then recv_unpacked E comm_id (\<lambda>data pb. k (recv_result (from_pickle data) pb))
          else Raise ValueError)"

text \<open>
  A worker that sends the objects one after the other, and writes to its memory
  before each send and after the last; and one that receives as many. Each
  group counts its operations in its own counter.
\<close>

fun send_program :: "('o, 'c, 'v, 'b) codec \<Rightarrow> endpoint \<Rightarrow> endpoint \<Rightarrow> int \<Rightarrow> (nat \<Rightarrow> 'v)
    \<Rightarrow> ((nat \<Rightarrow> 'v) \<times> ('o, 'c, tensor) object \<times> ('o, 'c) pyval) list \<Rightarrow> ('b, 'v, unit) prog" where
  "send_program E me peer comm_id final [] = Store final (Return ())"
| "send_program E me peer comm_id final ((mem, obj, pb) # rest) =
     Store mem (send_msg E me peer mem comm_id obj pb (send_program E me peer (comm_id + 1) final rest))"

fun recv_program :: "('o, 'c, 'v, 'b) codec \<Rightarrow> endpoint \<Rightarrow> endpoint \<Rightarrow> int \<Rightarrow> nat \<Rightarrow> ('o, 'c, 'v) received list
    \<Rightarrow> ('b, 'v, ('o, 'c, 'v) received list) prog" where
  "recv_program E me peer comm_id 0 got = Return got"
| "recv_program E me peer comm_id (Suc n) got =
     recv_msg E me peer comm_id (\<lambda>r. recv_program E me peer (comm_id + 1) n (got @ [r]))"


section \<open>Lists arrive whole\<close>

text \<open>What the receiver gets for a tensor that the sender's memory holds.\<close>

definition landed :: "(nat \<Rightarrow> 'v) \<Rightarrow> endpoint \<Rightarrow> tensor \<Rightarrow> 'v buffer" where
  "landed mem me t = view mem (if is_cpu t then Cpu else Accel (current me)) t"

lemma check_same_device_sym: "check_same_device_with_peer v w = check_same_device_with_peer w v"
  unfolding check_same_device_with_peer_def by (simp add: Int_commute conj_commute)

lemma mask_entries_eq:
  "mask_entries flag (map shape_dtype ts) (map (\<lambda>t. is_cpu t) ts) =
     map (\<lambda>i. (i, shape_dtype (ts ! i))) (filter (\<lambda>i. is_cpu (ts ! i) = flag) [0..<length ts])"
proof -
  have "enumerate 0 (zip (map shape_dtype ts) (map (\<lambda>t. is_cpu t) ts)) =
      map (\<lambda>i. (i, shape_dtype (ts ! i), is_cpu (ts ! i))) [0..<length ts]"
    unfolding enumerate_by_index by (auto intro: map_cong)
  then show ?thesis by (simp add: mask_entries_def filter_map comp_def)
qed

lemma fill_options_Some:
  "fill_options slots (zip is (map Some bs)) = fill slots (zip is bs)"
proof (induction "is" arbitrary: slots bs)
  case (Cons i "is")
  then show ?case by (cases bs) (simp_all add: fill_options_def)
qed (simp add: fill_options_def)

definition describes :: "'o tensor_data \<Rightarrow> tensor list \<Rightarrow> bool" where
  "describes td ts \<longleftrightarrow> (cpu_tensor_mask td, cpu_tensors td, accel_tensors td) = partition_tensors ts"


lemma fill_parts:
  assumes "\<And>t. P t \<Longrightarrow> f t = g t" "\<And>t. \<not> P t \<Longrightarrow> h t = g t"
  shows "fill (fill (replicate (length ts) None) (map (\<lambda>i. (i, f (ts ! i))) (filter (\<lambda>i. P (ts ! i)) [0..<length ts])))
      (map (\<lambda>i. (i, h (ts ! i))) (filter (\<lambda>i. \<not> P (ts ! i)) [0..<length ts])) = map (Some \<circ> g) ts"
proof -
  have "map (\<lambda>i. (i, f (ts ! i))) (filter (\<lambda>i. P (ts ! i)) [0..<length ts]) =
      map (\<lambda>i. (i, g (ts ! i))) (filter (\<lambda>i. P (ts ! i)) [0..<length ts])"
    "map (\<lambda>i. (i, h (ts ! i))) (filter (\<lambda>i. \<not> P (ts ! i)) [0..<length ts]) =
      map (\<lambda>i. (i, g (ts ! i))) (filter (\<lambda>i. \<not> P (ts ! i)) [0..<length ts])"
    using assms by auto
  moreover have "length ts = length (replicate (length ts) (None :: 'b option))" by simp
  ultimately show ?thesis
    using fill_both_parts [of "length ts" "replicate (length ts) None" "\<lambda>i. g (ts ! i)" "\<lambda>i. P (ts ! i)"]
    by (simp only: map_by_index)
qed

lemma meet_tensor_list:
  assumes E: "faithful E" and td: "describes td ts"
  shows "meet (send_tensor_list E w v mem c td ts pb p) (recv_tensor_list E v w c k) mem =
    meet p (k (map (Some \<circ> landed mem v) ts) pb) mem"
proof -
  let ?n = "length ts"
  let ?dev = "Accel (current v)"
  let ?accel = "filter (\<lambda>t. \<not> is_cpu t) ts"
  let ?slots = "fill (replicate ?n None) (map (\<lambda>i. (i, view mem Cpu (ts ! i))) (filter (\<lambda>i. is_cpu (ts ! i)) [0..<?n]))"
  let ?idx = "filter (\<lambda>i. \<not> is_cpu (ts ! i)) [0..<?n]"
  let ?entries = "map (\<lambda>i. (i, shape_dtype (ts ! i))) ?idx"
  have parts: "cpu_tensor_mask td = map (\<lambda>t. is_cpu t) ts" "cpu_tensors td = filter (\<lambda>t. is_cpu t) ts"
    "accel_tensors td = ?accel"
    using td by (simp_all add: describes_def partition_tensors_def)
  have all: "fill ?slots (map (\<lambda>i. (i, view mem ?dev (ts ! i))) ?idx) = map (Some \<circ> landed mem v) ts"
    by (rule fill_parts) (simp_all add: landed_def)
  have zipped: "zip ?idx (map f ?accel) = map (\<lambda>i. (i, f (ts ! i))) ?idx" for f :: "tensor \<Rightarrow> 'c buffer"
    by (rule zip_filtered)
  have shapes: "map snd ?entries = map shape_dtype ?accel"
    by (simp add: filter_by_index [of "\<lambda>t. \<not> is_cpu t" ts])
  have names: "map fst ?entries = ?idx" by (simp add: comp_def)
  have has: "(\<exists>m \<in> set (map (\<lambda>t. is_cpu t) ts). \<not> m) \<longleftrightarrow> ?accel \<noteq> []"
    by (auto simp: filter_empty_conv)
  have none: "?accel = [] \<Longrightarrow> ?slots = map (Some \<circ> landed mem v) ts"
    using all by (auto simp: filter_empty_conv)
  have nccl: "meet (send_each ACCEL c mem ?accel p) (recv_slots ACCEL c ?dev ?entries ?slots (\<lambda>ts. k ts pb)) mem =
      meet p (k (map (Some \<circ> landed mem v) ts) pb) mem"
    using meet_part [OF refl, of ACCEL c mem "\<lambda>t. \<not> is_cpu t" ts p ?dev ?slots "\<lambda>ts. k ts pb"] all by simp
  have cpu: "mask_entries True (map shape_dtype ts) (map (\<lambda>t. is_cpu t) ts) =
      map (\<lambda>i. (i, shape_dtype (ts ! i))) (filter (\<lambda>i. is_cpu (ts ! i)) [0..<?n])"
    "mask_entries False (map shape_dtype ts) (map (\<lambda>t. is_cpu t) ts) = ?entries"
    by (simp_all add: mask_entries_eq)
  show ?thesis
    unfolding send_tensor_list_def recv_tensor_list_def parts Let_def pyval.case check_same_device_sym [of v w]
      meet_pickled [OF E] cpu names shapes has length_map length_zip min.idem simp_thms if_False
      meet_part [OF refl, where P = "\<lambda>t. is_cpu t"]
    using nccl none
    by (cases "?accel = []"; cases "check_same_device_with_peer w v = 0"; cases "check_same_device_with_peer w v = 1")
      (simp_all only: not_not if_False if_True simp_thms one_neq_zero zero_neq_one meet_to_uncertain_peer [OF E]
        meet_via_ipc [OF E] map_map [symmetric] fill_options_Some zipped all)
qed


section \<open>Dictionaries, dataclasses and objects arrive whole\<close>

text \<open>
  What a dictionary or dataclass is by the rules of Python: a key or a field
  name occurs once. A dataclass object is not also a plain object.
\<close>

fun good_object :: "('o, 'c, 't) object \<Rightarrow> bool" where
  "good_object (Dict_Obj kvs) = distinct (map fst kvs)"
| "good_object (Dataclass_Obj cls fs) = (distinct (map fst fs) \<and> (\<forall>f \<in> snd ` set fs. good_field f))"
| "good_object (Plain_Obj x) = (case x of PyShell _ _ \<Rightarrow> False | _ \<Rightarrow> True)"
| "good_object _ = True"

text \<open>What arrives when each tensor becomes \<open>g\<close> of it; a tuple arrives as a list.\<close>

fun arrives :: "('t \<Rightarrow> 'u) \<Rightarrow> ('o, 'c, 't) object \<Rightarrow> ('o, 'c, 'u) object" where
  "arrives g (Tensor_Obj t) = Tensor_Obj (g t)"
| "arrives g (List_Obj ts) = List_Obj (map g ts)"
| "arrives g (Tuple_Obj ts) = List_Obj (map g ts)"
| "arrives g (Dict_Obj kvs) = Dict_Obj (map (apsnd g) kvs)"
| "arrives g (Dataclass_Obj cls fs) = Dataclass_Obj cls (map (apsnd (map_field id g)) fs)"
| "arrives g (Plain_Obj x) = Plain_Obj x"

definition delivered ::
    "endpoint \<Rightarrow> (nat \<Rightarrow> 'v) \<times> ('o, 'c, tensor) object \<times> ('o, 'c) pyval \<Rightarrow> ('o, 'c, 'v) received" where
  "delivered me m = (case m of (mem, obj, pb) \<Rightarrow> recv_result (arrives (Some \<circ> landed mem me) obj) pb)"

lemma tensor_info_Inr:
  assumes "tensor_info ty ts = Inr (ty', td)"
  shows "ty' = ty \<and> describes td ts"
  using assms
  by (auto simp: tensor_info_def partition_tensors_def describes_def check_tensor_contiguous_def Let_def split: if_splits)

lemma meet_tensor_dict:
  assumes "faithful E" "describes td (map snd kvs)" "distinct (map fst kvs)"
  shows "meet (send_tensor_dict E w v mem c td kvs pb p) (recv_tensor_dict E v w c k) mem =
    meet p (k (map (apsnd (Some \<circ> landed mem v)) kvs) pb) mem"
proof -
  have "zip (map fst kvs) (map (Some \<circ> landed mem v) (map snd kvs)) = map (apsnd (Some \<circ> landed mem v)) kvs"
    by (induction kvs) auto
  moreover have "distinct (map fst (map (apsnd (Some \<circ> landed mem v)) kvs))"
    using assms(3) by simp
  ultimately show ?thesis
    using assms(1)
    by (simp add: send_tensor_dict_def recv_tensor_dict_def recv_unpacked_def recv_object_def
        meet_tensor_list [OF assms(1,2)] py_dict_distinct del: map_map)
qed

lemma replace_skeleton:
  fixes g :: "'t \<Rightarrow> 'u" and fs :: "(string \<times> ('o, 't) field) list"
  assumes "distinct (map fst fs)"
  defines "named \<equiv> filter (is_tensor_field \<circ> snd) fs"
  shows "replace_fields (skeleton (map fst named) fs) (map (apsnd (map_field id g)) named) =
    Inr (map (apsnd (map_field id g)) fs)"
proof -
  let ?d = "map (apsnd (map_field id g)) named"
  have field: "(case map_of ?d n of Some f' \<Rightarrow> f' | None \<Rightarrow> F_Plain
        (if n \<in> set (map fst named) then None else case f of F_Plain x \<Rightarrow> x | _ \<Rightarrow> None)) = map_field id g f"
    if nf: "(n, f) \<in> set fs" for n f
  proof (cases "is_tensor_field f")
    case True
    with nf have "(n, f) \<in> set named" by (simp add: named_def)
    then have "(n, map_field id g f) \<in> set ?d" by (force intro: image_eqI [where x = "(n, f)"])
    moreover have "distinct (map fst ?d)" using assms(1) by (simp add: named_def comp_def distinct_map_filter)
    ultimately show ?thesis by simp
  next
    case False
    then obtain x where x: "f = F_Plain x" by (cases f) auto
    have "n \<notin> set (map fst named)"
      using nf False assms(1) by (auto simp: named_def dest: distinct_map_fst_inj)
    moreover from this have "map_of ?d n = None" by (simp add: map_of_eq_None_iff image_image)
    ultimately show ?thesis by (simp add: x option.map_id)
  qed
  have "list_all (\<lambda>(n, _). n \<in> fst ` set (skeleton (map fst named) fs)) ?d"
    by (force simp: list_all_iff named_def skeleton_def image_iff)
  moreover have "map (\<lambda>(n, v). (n, case map_of ?d n of Some f \<Rightarrow> f | None \<Rightarrow> F_Plain v)) (skeleton (map fst named) fs) =
      map (apsnd (map_field id g)) fs"
    unfolding skeleton_def map_map
  proof (rule map_cong [OF refl])
    fix nf
    assume nf: "nf \<in> set fs"
    obtain n f where "nf = (n, f)" by (cases nf)
    with nf field [of n f]
    show "((\<lambda>(n, v). (n, case map_of ?d n of Some f \<Rightarrow> f | None \<Rightarrow> F_Plain v)) \<circ>
        (\<lambda>(n, f). (n, if n \<in> set (map fst named) then None else case f of F_Plain x \<Rightarrow> x | _ \<Rightarrow> None))) nf =
        apsnd (map_field id g) nf"
      by (simp only: comp_apply prod.case apsnd_conv)
  qed
  ultimately show ?thesis by (simp add: replace_fields_def)
qed

lemma meet_tensor_dataclass:
  fixes E :: "('o, 'c, 'v, 'b) codec"
  assumes E: "faithful E" and good: "good_object (Dataclass_Obj cls fs :: ('o, 'c, tensor) object)"
    and info: "get_object_info (Dataclass_Obj cls fs :: ('o, 'c, tensor) object) = Inr (DATACLASS_WITH_TENSORS, td)"
  shows "meet (send_tensor_dataclass E w v mem c td cls fs pb p) (recv_tensor_dataclass E v w c k) mem =
    meet p (k (arrives (Some \<circ> landed mem v) (Dataclass_Obj cls fs)) pb) mem"
proof -
  obtain named ts meta where ex: "extract_dataclass_tensor_fields fs = (named, ts, meta)"
    by (cases "extract_dataclass_tensor_fields fs")
  have named: "named = filter (is_tensor_field \<circ> snd) fs"
    using ex by (simp add: extract_fields_eq)
  from info ex obtain td' where td': "tensor_info DATACLASS_WITH_TENSORS ts = Inr (DATACLASS_WITH_TENSORS, td')"
    and td: "td = td'\<lparr>tensor_fields := Some named, metadata := Some meta, tensors_list := Some ts\<rparr>"
    by (auto simp: res_elims split: if_splits dest: tensor_info_Inr)
  have desc: "describes td ts"
    using tensor_info_Inr [OF td'] by (simp add: td describes_def)
  have "unflatten_dataclass_tensor_fields meta (map (Some \<circ> landed mem v) ts) =
      Inr (map (apsnd (map_field id (Some \<circ> landed mem v))) named)"
    using good by (intro unflatten_extracted [OF _ _ ex]) force+
  moreover have "replace_fields (skeleton (map fst named) fs) (map (apsnd (map_field id (Some \<circ> landed mem v))) named) =
      Inr (map (apsnd (map_field id (Some \<circ> landed mem v))) fs)"
    using replace_skeleton [of fs] good by (simp add: named)
  ultimately show ?thesis
    using E unfolding send_tensor_dataclass_def recv_tensor_dataclass_def
    by (simp add: td meet_tensor_list [OF E desc [unfolded td]])
qed


section \<open>Every message arrives\<close>

fun object_tensors :: "('o, 'c, 't) object \<Rightarrow> 't list" where
  "object_tensors (Tensor_Obj t) = [t]"
| "object_tensors (List_Obj ts) = ts"
| "object_tensors (Tuple_Obj ts) = ts"
| "object_tensors (Dict_Obj kvs) = map snd kvs"
| "object_tensors (Dataclass_Obj cls fs) = concat (map (field_tensors \<circ> snd) fs)"
| "object_tensors (Plain_Obj x) = []"

lemma tensor_info_cases:
  "tensor_info ty ts =
     (if list_all t_contiguous ts
      then Inr (ty, no_tensor_data\<lparr>cpu_tensor_mask := map (\<lambda>t. is_cpu t) ts, cpu_tensors := filter (\<lambda>t. is_cpu t) ts,
        accel_tensors := filter (\<lambda>t. \<not> is_cpu t) ts\<rparr>)
      else Inl ValueError)"
proof -
  have "list_all t_contiguous (filter (\<lambda>t. \<not> is_cpu t) ts @ filter (\<lambda>t. is_cpu t) ts) = list_all t_contiguous ts"
    by (auto simp: list_all_iff)
  then show ?thesis
    by (simp add: tensor_info_def partition_tensors_def check_tensor_contiguous_def)
qed

text \<open>An object is refused exactly when one of its tensors is not contiguous.\<close>

lemma object_info_refused:
  "get_object_info obj = Inl e \<longleftrightarrow> e = ValueError \<and> \<not> list_all t_contiguous (object_tensors obj)"
proof (cases obj)
  case (Dataclass_Obj cls fs)
  have "filter (is_tensor_field \<circ> snd) fs = [] \<Longrightarrow> list_all t_contiguous (concat (map (field_tensors \<circ> snd) fs))"
    by (subst concat_tensor_fields [symmetric]) simp
  with Dataclass_Obj show ?thesis
    by (auto simp: extract_fields_eq tensor_info_cases Let_def)
qed (auto simp: tensor_info_cases)

lemma sendable_info:
  assumes "list_all t_contiguous (object_tensors obj)"
  obtains ty td where "get_object_info obj = Inr (ty, td)"
  using assms object_info_refused [of obj] by (cases "get_object_info obj") auto

lemma dataclass_without_tensors:
  "filter (is_tensor_field \<circ> snd) fs = [] \<Longrightarrow>
     from_pickle (PyShell cls (skeleton [] fs)) = arrives g (Dataclass_Obj cls fs)"
proof (induction fs)
  case (Cons nf fs)
  then show ?case by (cases nf; cases "snd nf") (auto simp: skeleton_def option.map_id split: if_splits)
qed (simp add: skeleton_def)

lemma from_pickle_plain: "(case x of PyShell _ _ \<Rightarrow> False | _ \<Rightarrow> True) \<Longrightarrow> from_pickle x = Plain_Obj x"
  by (cases x) simp_all

lemma meet_msg:
  assumes E: "faithful E" and good: "good_object obj" and contiguous: "list_all t_contiguous (object_tensors obj)"
  shows "meet (send_msg E w v mem c obj pb p) (recv_msg E v w c k) mem = meet p (k (delivered v (mem, obj, pb))) mem"
proof -
  obtain ty td where info: "get_object_info obj = Inr (ty, td)"
    by (rule sendable_info [OF contiguous])
  note defs = send_msg_def recv_msg_def atomic_send_def delivered_def
  show ?thesis
  proof (cases obj)
    case (Dict_Obj kvs)
    with info tensor_info_Inr have "ty = TENSOR_DICT" "describes td (map snd kvs)" by auto
    with E good info Dict_Obj show ?thesis by (simp add: defs meet_tensor_dict)
  next
    case (Dataclass_Obj cls fs)
    obtain named ts meta where ex: "extract_dataclass_tensor_fields fs = (named, ts, meta)"
      by (cases "extract_dataclass_tensor_fields fs")
    show ?thesis
    proof (cases "named = []")
      case True
      with ex have "filter (is_tensor_field \<circ> snd) fs = []" by (simp add: extract_fields_eq)
      from dataclass_without_tensors [OF this, where cls = cls and g = "Some \<circ> landed mem v"] True ex E info Dataclass_Obj show ?thesis
        by (simp add: defs del: from_pickle.simps arrives.simps)
    next
      case False
      with info ex Dataclass_Obj have ty: "ty = DATACLASS_WITH_TENSORS"
        by (auto simp: res_elims dest: tensor_info_Inr)
      with E good info Dataclass_Obj show ?thesis by (simp add: defs meet_tensor_dataclass)
    qed
  next
    case (Plain_Obj x)
    with info E good show ?thesis by (auto simp: defs from_pickle_plain)
  next
    case (Tensor_Obj t)
    with info tensor_info_Inr have "ty = TENSOR" "describes td [t]" by auto
    with E info Tensor_Obj show ?thesis by (simp add: defs meet_tensor_list)
  next
    case (List_Obj ts)
    with info tensor_info_Inr have "ty = TENSOR_LIST" "describes td ts" by auto
    with E info List_Obj show ?thesis by (simp add: defs meet_tensor_list)
  next
    case (Tuple_Obj ts)
    with info tensor_info_Inr have "ty = TENSOR_LIST" "describes td ts" by auto
    with E info Tuple_Obj show ?thesis by (simp add: defs meet_tensor_list)
  qed
qed

lemma meet_store_recv: "meet (Store mem' p) (recv_msg E v w c k) mem = meet p (recv_msg E v w c k) mem'"
  by (simp add: recv_msg_def recv_number_def)

lemma meet_messages:
  assumes "faithful E" "\<forall>(mem, obj, pb) \<in> set msgs. good_object obj \<and> list_all t_contiguous (object_tensors obj)"
  shows "meet (send_program E w v c final msgs) (recv_program E v w c (length msgs) got) mem =
    Some (Inr (), Inr (got @ map (delivered v) msgs))"
  using assms(2)
proof (induction msgs arbitrary: c got mem)
  case (Cons m msgs)
  obtain mem' obj pb where m: "m = (mem', obj, pb)" by (cases m)
  with Cons.prems have "good_object obj" "list_all t_contiguous (object_tensors obj)" by auto
  with Cons show ?case
    by (simp add: m meet_store_recv meet_msg [OF assms(1)] del: meet.simps)
qed simp


text \<open>C9. Any sequence of objects (tensors, lists, tuples, dictionaries,
  dataclasses and other objects, with or without a piggybacked payload) whose
  tensors are contiguous, sent between two workers on the same or different
  nodes, with one, several or no common devices, arrives completely and in
  order on every interleaving of the two workers: both programs end, and each
  \<open>recv\<close> returns the object of the matching \<open>send\<close> with the contents that the
  tensors had when it was sent, whatever the sender writes to its memory
  afterwards. CPU tensors arrive on the CPU, others on the receiver's current
  device, and tuples as lists.\<close>

theorem messages_arrive:
  assumes "faithful E"
    and "\<forall>(mem, obj, pb) \<in> set msgs. good_object obj \<and> list_all t_contiguous (object_tensors obj)"
  shows "inevitable hstep (both_end (Inr ()) (Inr (map (delivered v) msgs)))
    (send_program E w v c final msgs, recv_program E v w c (length msgs) [], mem)"
  using meet_inevitable [OF meet_messages [OF assms, where got = "[]"]] by simp

definition demo_codec :: "(unit, unit, int, (unit, unit) pyval) codec" where
  "demo_codec =
     \<lparr>dumps = (\<lambda>x. [x]), loads = (\<lambda>b. case b of [x] \<Rightarrow> Inr x | _ \<Rightarrow> Inl ValueError), copy_to = (\<lambda>_ _ v. Inr v)\<rparr>"

definition demo_worker :: "int list \<Rightarrow> nat \<Rightarrow> endpoint" where
  "demo_worker ids cur = \<lparr>node_rank = 0, accelerators = ids, uuid = (\<lambda>_. None), current = cur\<rparr>"

definition demo_tensor :: "device \<Rightarrow> nat \<Rightarrow> tensor" where
  "demo_tensor dev a = \<lparr>t_shape = [2], t_dtype = ''float32'', t_device = dev, t_contiguous = True, t_address = a\<rparr>"

lemma demo_faithful: "faithful demo_codec"
  by (simp add: faithful_def demo_codec_def)

definition demo_msgs :: "((nat \<Rightarrow> int) \<times> (unit, unit, tensor) object \<times> (unit, unit) pyval) list" where
  "demo_msgs =
     [((\<lambda>a. int a), Tuple_Obj [demo_tensor (Accel 1) 5, demo_tensor Cpu 6, demo_tensor (Accel 0) 7], PyText ''tag''),
      ((\<lambda>a. 0), Dataclass_Obj () [(''x'', F_Tensor (demo_tensor (Accel 0) 5)), (''n'', F_Plain (Some ()))], PyNone)]"

text \<open>Two workers that share two devices: one tensor of the tuple goes by handle, one over NCCL.\<close>

theorem messages_arrive_witness:
  "inevitable hstep (both_end (Inr ()) (Inr (map (delivered (demo_worker [0, 1] 0)) demo_msgs)))
    (send_program demo_codec (demo_worker [0, 1] 1) (demo_worker [0, 1] 0) 0 (\<lambda>_. 9) demo_msgs,
     recv_program demo_codec (demo_worker [0, 1] 0) (demo_worker [0, 1] 1) 0 (length demo_msgs) [], (\<lambda>_. 3)) \<and>
   map (delivered (demo_worker [0, 1] 0)) demo_msgs =
     [(List_Obj (map Some
        [\<lparr>buf_shape = [2], buf_dtype = ''float32'', buf_device = Accel 0, contents = 5\<rparr>,
         \<lparr>buf_shape = [2], buf_dtype = ''float32'', buf_device = Cpu, contents = 6\<rparr>,
         \<lparr>buf_shape = [2], buf_dtype = ''float32'', buf_device = Accel 0, contents = 7\<rparr>]), Some (PyText ''tag'')),
      (Dataclass_Obj ()
        [(''x'', F_Tensor (Some \<lparr>buf_shape = [2], buf_dtype = ''float32'', buf_device = Accel 0, contents = 0\<rparr>)),
         (''n'', F_Plain (Some ()))], None)]"
  by (rule conjI, rule messages_arrive [OF demo_faithful])
    (simp_all add: demo_msgs_def demo_tensor_def demo_worker_def delivered_def recv_result_def landed_def view_def)

end
