(* ===== verification/Collective_Inplace.thy ===== *)
theory Collective_Inplace
  imports Collective_Send
begin

text \<open>
  \<open>CollectiveGroup.send_tensor\<close> and \<open>recv_tensor\<close> of
  \<^verbatim>\<open>rlinf/scheduler/collective/collective_group.py\<close>: one tensor, sent without
  metadata into a tensor that the receiver already has. Each side chooses the
  transport from its own tensor.
\<close>

section \<open>Sending into a given tensor\<close>

definition send_single_tensor_via_ipc ::
    "('o, 'c, 'v, 'b) codec \<Rightarrow> int \<Rightarrow> tensor \<Rightarrow> ('b, 'v, 'a) prog \<Rightarrow> ('b, 'v, 'a) prog" where
  "send_single_tensor_via_ipc E comm_id t p =
     send_pickled E comm_id (reduce_tensor t) (send_number comm_id 0 p)"

text \<open>
  \<open>tensor.copy_(remote_tensor)\<close> reads the sender's memory; the number that
  follows lets the sender go on. The result is the new contents of the tensor.
\<close>

definition copy_from_handle :: "('o, 'c, 'v, 'b) codec \<Rightarrow> int \<Rightarrow> tensor \<Rightarrow> ('o, 'c) pyval
    \<Rightarrow> ('v \<Rightarrow> ('b, 'v, 'a) prog) \<Rightarrow> ('b, 'v, 'a) prog" where
  "copy_from_handle E comm_id t handle k =
     (case rebuild_handle handle of
        Inl e \<Rightarrow> Raise e
      | Inr (a, sh, dt) \<Rightarrow>
          Look a (\<lambda>v. case copy_to E (sh, dt) (shape_dtype t) v of
             Inl e \<Rightarrow> Raise e
           | Inr v' \<Rightarrow> recv_number comm_id (\<lambda>_. k v')))"

definition recv_single_tensor_via_ipc :: "('o, 'c, 'v, 'b) codec \<Rightarrow> int \<Rightarrow> tensor
    \<Rightarrow> ('v \<Rightarrow> ('b, 'v, 'a) prog) \<Rightarrow> ('b, 'v, 'a) prog" where
  "recv_single_tensor_via_ipc E comm_id t k =
     recv_pickled E comm_id (\<lambda>handle. copy_from_handle E comm_id t handle k)"

definition send_single_tensor_to_uncertain_peer :: "('o, 'c, 'v, 'b) codec \<Rightarrow> endpoint \<Rightarrow> (nat \<Rightarrow> 'v) \<Rightarrow> int
    \<Rightarrow> tensor \<Rightarrow> ('b, 'v, 'a) prog \<Rightarrow> ('b, 'v, 'a) prog" where
  "send_single_tensor_to_uncertain_peer E me mem comm_id t p =
     (let tensor_device = PyText (tensor_identity me t)
      in send_pickled E comm_id tensor_device
        (recv_pickled E comm_id
          (\<lambda>peer_device.
             if peer_device = tensor_device
             then send_object E comm_id (reduce_tensor t) PyNone (send_number comm_id 0 p)
             else send_data ACCEL comm_id mem t p)))"

text \<open>The receiver unpacks what \<open>_recv_object\<close> returns as if it were the handle.\<close>

definition recv_single_tensor_to_uncertain_peer :: "('o, 'c, 'v, 'b) codec \<Rightarrow> endpoint \<Rightarrow> int
    \<Rightarrow> tensor \<Rightarrow> ('v \<Rightarrow> ('b, 'v, 'a) prog) \<Rightarrow> ('b, 'v, 'a) prog" where
  "recv_single_tensor_to_uncertain_peer E me comm_id t k =
     (let tensor_device = PyText (tensor_identity me t)
      in recv_pickled E comm_id
        (\<lambda>peer_device.
           send_pickled E comm_id tensor_device
             (if peer_device = tensor_device
              then recv_object E comm_id (\<lambda>handle. copy_from_handle E comm_id t handle k)
              else recv_data ACCEL comm_id (shape_dtype t) (t_device t) (\<lambda>b. k (contents b)))))"

definition send_tensor :: "('o, 'c, 'v, 'b) codec \<Rightarrow> endpoint \<Rightarrow> endpoint \<Rightarrow> (nat \<Rightarrow> 'v) \<Rightarrow> int
    \<Rightarrow> tensor \<Rightarrow> ('b, 'v, 'a) prog \<Rightarrow> ('b, 'v, 'a) prog" where
  "send_tensor E me peer mem comm_id t p =
     (if \<not> t_contiguous t then Raise ValueError
      else if \<not> is_cpu t
      then let check = check_same_device_with_peer me peer
           in if check = 0 then send_single_tensor_to_uncertain_peer E me mem comm_id t p
              else if check = 1 then send_single_tensor_via_ipc E comm_id t p
              else send_data ACCEL comm_id mem t p
      else send_data CPU comm_id mem t p)"

definition recv_tensor :: "('o, 'c, 'v, 'b) codec \<Rightarrow> endpoint \<Rightarrow> endpoint \<Rightarrow> int
    \<Rightarrow> tensor \<Rightarrow> ('v \<Rightarrow> ('b, 'v, 'a) prog) \<Rightarrow> ('b, 'v, 'a) prog" where
  "recv_tensor E me peer comm_id t k =
     (if \<not> t_contiguous t then Raise ValueError
      else if \<not> is_cpu t
      then let check = check_same_device_with_peer me peer
           in if check = 0 then recv_single_tensor_to_uncertain_peer E me comm_id t k
              else if check = 1 then recv_single_tensor_via_ipc E comm_id t k
              else recv_data ACCEL comm_id (shape_dtype t) (t_device t) (\<lambda>b. k (contents b))
      else recv_data CPU comm_id (shape_dtype t) (t_device t) (\<lambda>b. k (contents b)))"

section \<open>What arrives\<close>

lemma meet_data_contents [simp]:
  "shape_dtype t = shape_dtype u \<Longrightarrow>
     meet (send_data s c mem t p) (recv_data s c (shape_dtype u) dev (\<lambda>b. k (contents b))) mem = meet p (k (mem (t_address t))) mem"
  using meet_data [of s c mem t p dev "\<lambda>b. k (contents b)"] by (simp add: view_def)

lemma meet_copy:
  assumes "faithful E" "shape_dtype t = shape_dtype u"
  shows "meet (send_number c 0 p) (copy_from_handle E c u (reduce_tensor t) k) mem = meet p (k (mem (t_address t))) mem"
  using assms meet_number(1) [of c 0 p "\<lambda>_. k (mem (t_address t))" mem]
  by (simp add: copy_from_handle_def send_number_def del: meet.simps meet_number)

text \<open>The two workers have several devices, and both tensors are on the same one.\<close>

definition same_card :: "endpoint \<Rightarrow> tensor \<Rightarrow> endpoint \<Rightarrow> tensor \<Rightarrow> bool" where
  "same_card w t v u \<longleftrightarrow>
     \<not> is_cpu t \<and> check_same_device_with_peer w v = 0 \<and> tensor_identity w t = tensor_identity v u"

lemma meet_tensor:
  assumes "faithful E" "t_contiguous t" "t_contiguous u" "is_cpu t \<longleftrightarrow> is_cpu u" "shape_dtype t = shape_dtype u"
    and "\<not> same_card w t v u"
  shows "meet (send_tensor E w v mem c t p) (recv_tensor E v w c u k) mem = meet p (k (mem (t_address t))) mem"
proof (cases "is_cpu t")
  case True
  with assms show ?thesis by (simp add: send_tensor_def recv_tensor_def)
next
  case False
  note defs = send_tensor_def recv_tensor_def check_same_device_sym [of v w] Let_def
  consider "check_same_device_with_peer w v = 0" | "check_same_device_with_peer w v = 1"
    | "check_same_device_with_peer w v \<noteq> 0" "check_same_device_with_peer w v \<noteq> 1" by blast
  then show ?thesis
  proof cases
    case 1
    with assms False have "tensor_identity w t \<noteq> tensor_identity v u" by (simp add: same_card_def)
    with 1 assms False show ?thesis
      by (auto simp: defs send_single_tensor_to_uncertain_peer_def recv_single_tensor_to_uncertain_peer_def)
  next
    case 2
    with assms False show ?thesis
      by (simp add: defs send_single_tensor_via_ipc_def recv_single_tensor_via_ipc_def meet_copy)
  next
    case 3
    with assms False show ?thesis by (simp add: defs)
  qed
qed

text \<open>On the same card the receiver takes the pair of handle and payload for the handle itself.\<close>

lemma copy_from_sent_object: "copy_from_handle E c u (PyPair (reduce_tensor t) PyNone) k = Raise TypeError"
  by (simp add: copy_from_handle_def rebuild_handle_def reduce_tensor_def)

lemma same_card_fails:
  assumes "faithful E" "t_contiguous t" "t_contiguous u" "\<not> is_cpu u" "same_card w t v u"
  shows "inevitable hstep (\<lambda>s. s = (send_number c 0 p, Raise TypeError, mem))
    (send_tensor E w v mem c t p, recv_tensor E v w c u k, mem)"
proof -
  let ?s = "(send_number c 0 p, Raise TypeError, mem)"
  have "send_tensor E w v mem c t p = send_single_tensor_to_uncertain_peer E w mem c t p"
    "recv_tensor E v w c u k = recv_single_tensor_to_uncertain_peer E v c u k"
    using assms check_same_device_sym [of v w] by (simp_all add: send_tensor_def recv_tensor_def same_card_def)
  moreover have "inevitable hstep (\<lambda>s. s = ?s) (send_object E c (reduce_tensor t) PyNone (send_number c 0 p),
      recv_object E c (\<lambda>handle. copy_from_handle E c u handle k), mem)"
    unfolding send_object_def recv_object_def
    by (rule inevitable_pickled [OF assms(1)]) (simp add: copy_from_sent_object inevitable.now)
  ultimately show ?thesis
    using assms(5) unfolding send_single_tensor_to_uncertain_peer_def recv_single_tensor_to_uncertain_peer_def Let_def
    by (auto simp: same_card_def intro!: inevitable_pickled [OF assms(1)])
qed

text \<open>C17. \<open>send_tensor\<close> and \<open>recv_tensor\<close> on tensors of the same shape, type and
  kind of device: both calls return and the receiver's tensor has the contents
  of the sender's, except when the workers have several devices and both
  tensors are on the same one. Then \<open>recv_tensor\<close> always raises a
  \<open>TypeError\<close>, because it unpacks the pair that \<open>_recv_object\<close> returns as a
  handle, and the sender waits forever for the receipt of its last message.\<close>

theorem tensor_arrives_unless_same_card:
  assumes "faithful E" "t_contiguous t" "t_contiguous u" "is_cpu t \<longleftrightarrow> is_cpu u" "shape_dtype t = shape_dtype u"
  shows "inevitable hstep
    (if same_card w t v u
     then (\<lambda>s. s = (send_number c 0 (Return ()), Raise TypeError, mem))
     else both_end (Inr ()) (Inr (mem (t_address t))))
    (send_tensor E w v mem c t (Return ()), recv_tensor E v w c u Return, mem)"
proof (cases "same_card w t v u")
  case True
  then have "\<not> is_cpu u" using assms(4) by (simp add: same_card_def)
  with True assms show ?thesis by (simp add: same_card_fails)
next
  case False
  with assms have "meet (send_tensor E w v mem c t (Return ())) (recv_tensor E v w c u Return) mem =
      Some (Inr (), Inr (mem (t_address t)))"
    by (simp add: meet_tensor)
  with False show ?thesis by (simp add: meet_inevitable)
qed

text \<open>Two workers share devices 0 and 1: a transfer between the devices arrives, one on the same device does not.\<close>

theorem tensor_arrives_unless_same_card_witness:
  "inevitable hstep (both_end (Inr ()) (Inr 7))
    (send_tensor demo_codec (demo_worker [0, 1] 0) (demo_worker [0, 1] 0) int 0 (demo_tensor (Accel 0) 7) (Return ()),
     recv_tensor demo_codec (demo_worker [0, 1] 0) (demo_worker [0, 1] 0) 0 (demo_tensor (Accel 1) 8) Return, int) \<and>
   inevitable hstep (\<lambda>s. s = (send_number 0 0 (Return ()), Raise TypeError, int))
    (send_tensor demo_codec (demo_worker [0, 1] 0) (demo_worker [0, 1] 0) int 0 (demo_tensor (Accel 1) 7) (Return ()),
     recv_tensor demo_codec (demo_worker [0, 1] 0) (demo_worker [0, 1] 0) 0 (demo_tensor (Accel 1) 8) Return, int)"
proof -
  let ?w = "demo_worker [0, 1] 0"
  have "\<not> same_card ?w (demo_tensor (Accel 0) 7) ?w (demo_tensor (Accel 1) 8)"
    "same_card ?w (demo_tensor (Accel 1) 7) ?w (demo_tensor (Accel 1) 8)"
    by code_simp+
  then show ?thesis
    using tensor_arrives_unless_same_card [OF demo_faithful, of "demo_tensor (Accel 0) 7" "demo_tensor (Accel 1) 8" ?w ?w 0 int]
      tensor_arrives_unless_same_card [OF demo_faithful, of "demo_tensor (Accel 1) 7" "demo_tensor (Accel 1) 8" ?w ?w 0 int]
    by (simp add: demo_tensor_def)
qed

end
