(* ===== verification/Work_Queue.thy ===== *)
theory Work_Queue
  imports Py_Prelude "HOL-Library.Sublist"
begin

text \<open>
  The order of communication in a collective group: \<open>CollectiveWorkQueue\<close> and
  the way \<open>send\<close>, \<open>recv\<close>, \<open>send_tensor\<close>, \<open>recv_tensor\<close> and \<open>broadcast\<close> of
  \<^verbatim>\<open>rlinf/scheduler/collective/collective_group.py\<close> use it. Asynchronous
  operations are enqueued for a thread, synchronous ones wait until the queue
  reports that it is done and then run in the caller.

  One queue per kind of operation (\<open>POOL_SIZE\<close> is 1), one thread that calls it.
  The interleavings of the caller with the queue's thread are the runs of a step
  relation. Operations numbered in \<open>fails\<close> raise an exception.
\<close>

section \<open>State\<close>

datatype call = Async | Sync

text \<open>
  The queue's thread is at the head of its loop, blocked in \<open>get()\<close>, runs an
  operation, or has ended with an exception that an operation raised.
\<close>

datatype thread_phase = Top | Blocked | Running nat | Dead

text \<open>The caller is between two calls, in \<open>while not work_queue.done\<close>, or runs an operation itself.\<close>

datatype caller_phase = Between | Spinning nat | Inline nat

datatype queue_event = Start nat | Ended nat

record comm_queue =
  next_comm_id :: nat
  pending :: "nat list"
  work_done :: bool
  thread :: thread_phase
  caller :: caller_phase
  calls :: "call list"
  log :: "queue_event list"

definition fresh_queue :: "call list \<Rightarrow> comm_queue" where
  "fresh_queue cs = \<lparr>next_comm_id = 0, pending = [], work_done = True, thread = Top, caller = Between, calls = cs, log = []\<rparr>"

section \<open>Steps\<close>

text \<open>\<open>enqueue\<close>, atomic because it holds the lock of the queue.\<close>

definition enqueue_work :: "nat \<Rightarrow> comm_queue \<Rightarrow> comm_queue" where
  "enqueue_work w s = s\<lparr>work_done := False, pending := pending s @ [w]\<rparr>"

inductive queue_step :: "(nat \<Rightarrow> bool) \<Rightarrow> comm_queue \<Rightarrow> comm_queue \<Rightarrow> bool" for fails where
  call_async: "caller s = Between \<Longrightarrow> calls s = Async # cs \<Longrightarrow>
     queue_step fails s ((enqueue_work (next_comm_id s) s)\<lparr>next_comm_id := next_comm_id s + 1, calls := cs\<rparr>)"
| call_sync: "caller s = Between \<Longrightarrow> calls s = Sync # cs \<Longrightarrow>
     queue_step fails s (s\<lparr>caller := Spinning (next_comm_id s), next_comm_id := next_comm_id s + 1, calls := cs\<rparr>)"
| spin_over: "caller s = Spinning w \<Longrightarrow> work_done s \<Longrightarrow>
     queue_step fails s (s\<lparr>caller := Inline w, log := log s @ [Start w]\<rparr>)"
| inline_end: "caller s = Inline w \<Longrightarrow>
     queue_step fails s (s\<lparr>caller := Between, log := log s @ [Ended w]\<rparr>)"
| poll: "thread s = Top \<Longrightarrow> pending s = w # ws \<Longrightarrow>
     queue_step fails s (s\<lparr>thread := Running w, pending := ws, log := log s @ [Start w]\<rparr>)"
| poll_empty: "thread s = Top \<Longrightarrow> pending s = [] \<Longrightarrow>
     queue_step fails s (s\<lparr>work_done := True, thread := Blocked\<rparr>)"
| wake: "thread s = Blocked \<Longrightarrow> pending s = w # ws \<Longrightarrow>
     queue_step fails s (s\<lparr>thread := Running w, pending := ws, log := log s @ [Start w]\<rparr>)"
| work_end: "thread s = Running w \<Longrightarrow> \<not> fails w \<Longrightarrow>
     queue_step fails s (s\<lparr>thread := Top, log := log s @ [Ended w]\<rparr>)"
| work_raises: "thread s = Running w \<Longrightarrow> fails w \<Longrightarrow>
     queue_step fails s (s\<lparr>thread := Dead, log := log s @ [Ended w]\<rparr>)"

abbreviation queue_run :: "(nat \<Rightarrow> bool) \<Rightarrow> comm_queue \<Rightarrow> comm_queue \<Rightarrow> bool" where
  "queue_run fails \<equiv> (queue_step fails)\<^sup>*\<^sup>*"

section \<open>The invariant\<close>

text \<open>The operations that have been called and have not ended, in the order of the calls.\<close>

definition outstanding :: "comm_queue \<Rightarrow> nat list" where
  "outstanding s =
     (case thread s of Running w \<Rightarrow> [w] | _ \<Rightarrow> []) @ pending s
     @ (case caller s of Between \<Rightarrow> [] | Spinning w \<Rightarrow> [w] | Inline w \<Rightarrow> [w])"

definition executing :: "comm_queue \<Rightarrow> nat list" where
  "executing s =
     (case thread s of Running w \<Rightarrow> [w] | _ \<Rightarrow> []) @ (case caller s of Inline w \<Rightarrow> [w] | _ \<Rightarrow> [])"

text \<open>The log when the first \<open>n\<close> operations have run, one after the other.\<close>

definition ordered_log :: "nat \<Rightarrow> queue_event list" where
  "ordered_log n = concat (map (\<lambda>w. [Start w, Ended w]) [0..<n])"

lemma ordered_log_simps [simp]: "ordered_log 0 = []" "ordered_log (Suc n) = ordered_log n @ [Start n, Ended n]"
  by (simp_all add: ordered_log_def)

definition flags_ok :: "nat \<Rightarrow> comm_queue \<Rightarrow> bool" where
  "flags_ok count s \<longleftrightarrow>
     (if work_done s then pending s = [] \<and> (thread s = Top \<or> thread s = Blocked)
      else (\<forall>w. caller s \<noteq> Inline w) \<and> \<not> (thread s = Blocked \<and> pending s = [])) \<and>
     next_comm_id s + length (calls s) = count"

definition ordered :: "nat \<Rightarrow> comm_queue \<Rightarrow> bool" where
  "ordered n s \<longleftrightarrow>
     n \<le> next_comm_id s \<and> [n..<next_comm_id s] = outstanding s \<and> log s = ordered_log n @ map Start (executing s)"

definition work_queue_inv :: "nat \<Rightarrow> comm_queue \<Rightarrow> bool" where
  "work_queue_inv count s \<longleftrightarrow> flags_ok count s \<and> (\<exists>n. ordered n s)"

lemma work_queue_inv_fresh: "work_queue_inv (length cs) (fresh_queue cs)"
  by (simp add: work_queue_inv_def flags_ok_def ordered_def fresh_queue_def outstanding_def executing_def)

lemma upt_Cons_iff: "[n..<m] = w # ws \<longleftrightarrow> n < m \<and> w = n \<and> ws = [Suc n..<m]"
  by (auto simp: upt_conv_Cons upt_eq_Cons_conv)

lemma flags_ok_step: "queue_step fails s t \<Longrightarrow> flags_ok count s \<Longrightarrow> flags_ok count t"
  by (erule queue_step.cases; auto simp: flags_ok_def enqueue_work_def split: if_splits)

lemma ordered_end:
  assumes "ordered n s" "outstanding s = w # ws" "outstanding t = ws" "next_comm_id t = next_comm_id s"
    and "executing s = [w]" "executing t = []" "log t = log s @ [Ended w]"
  shows "ordered (Suc n) t"
proof -
  have "[n..<next_comm_id s] = w # ws" using assms(1,2) by (simp add: ordered_def)
  then have "n < next_comm_id s" "w = n" "ws = [Suc n..<next_comm_id s]" by (simp_all add: upt_Cons_iff)
  with assms show ?thesis by (simp add: ordered_def)
qed

lemma ordered_step:
  assumes step: "queue_step fails s t" and flags: "flags_ok count s" and n: "ordered n s"
  shows "ordered n t \<or> ordered (Suc n) t"
  using step
proof (cases rule: queue_step.cases)
  case (call_async cs)
  have idle: "caller s = Between" by fact
  have "ordered n t"
    unfolding call_async(1) using n idle by (simp add: ordered_def enqueue_work_def outstanding_def executing_def)
  then show ?thesis ..
next
  case (call_sync cs)
  have "ordered n t"
    unfolding call_sync(1) using n call_sync(2) by (simp add: ordered_def outstanding_def executing_def)
  then show ?thesis ..
next
  case (spin_over w)
  with flags have "executing s = []" "outstanding s = [w]" "executing t = [w]" "outstanding t = [w]"
    by (auto simp: flags_ok_def executing_def outstanding_def split: if_splits)
  with spin_over n have "ordered n t" by (simp add: ordered_def)
  then show ?thesis ..
next
  case (inline_end w)
  with flags have "executing s = [w]" "outstanding s = [w]" "outstanding t = []" "executing t = []"
    by (auto simp: flags_ok_def executing_def outstanding_def split: if_splits)
  with inline_end n have "ordered (Suc n) t"
    by (intro ordered_end [of n s w "[]" t]) simp_all
  then show ?thesis ..
next
  case (poll w ws)
  with flags have "\<forall>v. caller s \<noteq> Inline v" by (auto simp: flags_ok_def split: if_splits)
  with poll n have "ordered n t"
    by (simp add: ordered_def outstanding_def executing_def split: caller_phase.splits)
  then show ?thesis ..
next
  case poll_empty
  with n have "ordered n t" by (simp add: ordered_def outstanding_def executing_def)
  then show ?thesis ..
next
  case (wake w ws)
  with flags have "\<forall>v. caller s \<noteq> Inline v" by (auto simp: flags_ok_def split: if_splits)
  with wake n have "ordered n t"
    by (simp add: ordered_def outstanding_def executing_def split: caller_phase.splits)
  then show ?thesis ..
next
  case (work_end w)
  with flags have "\<forall>v. caller s \<noteq> Inline v" by (auto simp: flags_ok_def split: if_splits)
  with work_end n have "ordered (Suc n) t"
    by (intro ordered_end [of n s w "outstanding t" t])
      (simp_all add: outstanding_def executing_def split: caller_phase.splits)
  then show ?thesis ..
next
  case (work_raises w)
  with flags have "\<forall>v. caller s \<noteq> Inline v" by (auto simp: flags_ok_def split: if_splits)
  with work_raises n have "ordered (Suc n) t"
    by (intro ordered_end [of n s w "outstanding t" t])
      (simp_all add: outstanding_def executing_def split: caller_phase.splits)
  then show ?thesis ..
qed

lemma work_queue_inv_step: "queue_step fails s t \<Longrightarrow> work_queue_inv count s \<Longrightarrow> work_queue_inv count t"
  unfolding work_queue_inv_def using flags_ok_step ordered_step by blast

lemma work_queue_inv_run: "queue_run fails s t \<Longrightarrow> work_queue_inv count s \<Longrightarrow> work_queue_inv count t"
  by (induction rule: rtranclp_induct) (auto intro: work_queue_inv_step)


section \<open>Operations run one at a time, in the order of the calls\<close>

lemma ordered_log_split: "n \<le> m \<Longrightarrow> ordered_log m = ordered_log n @ concat (map (\<lambda>w. [Start w, Ended w]) [n..<m])"
  unfolding ordered_log_def using upt_add_eq_append [of 0 n "m - n"] by simp

lemma executing_first:
  assumes "flags_ok count s" "ordered n s"
  shows "executing s = [] \<or> executing s = [n] \<and> n < next_comm_id s"
proof -
  have "executing s = [] \<or> (\<exists>w ws. executing s = [w] \<and> outstanding s = w # ws)"
    using assms(1)
    by (auto simp: flags_ok_def executing_def outstanding_def split: thread_phase.splits caller_phase.splits if_splits)
  with assms(2) show ?thesis by (auto simp: ordered_def upt_Cons_iff)
qed

lemma log_prefix:
  assumes "work_queue_inv count s"
  shows "prefix (log s) (ordered_log count)"
proof -
  obtain n where s: "flags_ok count s" "ordered n s" using assms by (auto simp: work_queue_inv_def)
  then have n: "n \<le> next_comm_id s" "next_comm_id s \<le> count" by (auto simp: ordered_def flags_ok_def)
  consider "executing s = []" | "executing s = [n]" "n < next_comm_id s" using executing_first [OF s] by blast
  then show ?thesis
  proof cases
    case 1
    with s n show ?thesis by (simp add: ordered_def ordered_log_split [of n count] prefix_def)
  next
    case 2
    with n have "[n..<count] = n # [Suc n..<count]" by (simp add: upt_conv_Cons)
    with 2 s n show ?thesis by (simp add: ordered_def ordered_log_split [of n count] prefix_def)
  qed
qed

definition queue_weight :: "comm_queue \<Rightarrow> nat" where
  "queue_weight s = 10 * length (calls s) + 5 * length (pending s)
     + (case thread s of Top \<Rightarrow> 1 | Running w \<Rightarrow> 3 | _ \<Rightarrow> 0)
     + (case caller s of Between \<Rightarrow> 0 | Spinning w \<Rightarrow> 3 | Inline w \<Rightarrow> 2)"

lemma queue_weight_less: "queue_step fails s t \<Longrightarrow> queue_weight t < queue_weight s"
  by (erule queue_step.cases) (simp_all add: queue_weight_def enqueue_work_def)

lemma queue_progress:
  assumes "\<not> (calls s = [] \<and> outstanding s = [])" "flags_ok count s" "thread s \<noteq> Dead" "\<And>w. \<not> fails w"
  shows "\<exists>t. queue_step fails s t"
proof (cases "thread s")
  case (Running w)
  with assms(4) show ?thesis by (blast intro: queue_step.work_end)
next
  case Top
  then show ?thesis by (cases "pending s") (blast intro: queue_step.poll queue_step.poll_empty)+
next
  case Blocked
  show ?thesis
  proof (cases "pending s")
    case Nil
    with Blocked assms(2) have "work_done s" by (auto simp: flags_ok_def split: if_splits)
    show ?thesis
    proof (cases "caller s")
      case Between
      with assms(1) Nil Blocked have "calls s \<noteq> []" by (simp add: outstanding_def)
      then obtain c cs where "calls s = c # cs" by (cases "calls s") auto
      with Between show ?thesis by (cases c) (blast intro: queue_step.call_async queue_step.call_sync)+
    qed (use \<open>work_done s\<close> in \<open>blast intro: queue_step.spin_over queue_step.inline_end\<close>)+
  qed (use Blocked in \<open>blast intro: queue_step.wake\<close>)
qed (use assms(3) in simp)

lemma no_failure_alive: "queue_step fails s t \<Longrightarrow> (\<And>w. \<not> fails w) \<Longrightarrow> thread s \<noteq> Dead \<Longrightarrow> thread t \<noteq> Dead"
  by (erule queue_step.cases) (auto simp: enqueue_work_def)

text \<open>C15. Whatever the mixture of synchronous and asynchronous calls, and however
  the caller and the thread of the queue interleave, the operations run one at
  a time and in the order in which they were called; if none of them raises,
  every call gets its turn and all operations end.\<close>

theorem operations_in_call_order:
  "(\<forall>t. queue_run fails (fresh_queue cs) t \<longrightarrow> prefix (log t) (ordered_log (length cs))) \<and>
   ((\<forall>w. \<not> fails w) \<longrightarrow>
      inevitable (queue_step fails) (\<lambda>t. calls t = [] \<and> log t = ordered_log (length cs)) (fresh_queue cs))"
proof (intro conjI allI impI)
  fix t
  assume "queue_run fails (fresh_queue cs) t"
  from work_queue_inv_run [OF this work_queue_inv_fresh] show "prefix (log t) (ordered_log (length cs))" by (rule log_prefix)
next
  assume ok: "\<forall>w. \<not> fails w"
  let ?I = "\<lambda>s. work_queue_inv (length cs) s \<and> thread s \<noteq> Dead"
  show "inevitable (queue_step fails) (\<lambda>t. calls t = [] \<and> log t = ordered_log (length cs)) (fresh_queue cs)"
  proof (rule inevitable_measure [where I = ?I and m = queue_weight])
    show "?I (fresh_queue cs)" using work_queue_inv_fresh [of cs] by (simp add: fresh_queue_def)
  next
    fix s
    assume I: "?I s" and open_end: "\<not> (calls s = [] \<and> log s = ordered_log (length cs))"
    obtain n where s: "flags_ok (length cs) s" "ordered n s" using I by (auto simp: work_queue_inv_def)
    have "\<not> (calls s = [] \<and> outstanding s = [])"
    proof
      assume all_done: "calls s = [] \<and> outstanding s = []"
      with s have "executing s = []" "n = length cs"
        by (auto simp: flags_ok_def ordered_def outstanding_def executing_def split: thread_phase.splits caller_phase.splits)
      with s all_done open_end show False by (simp add: ordered_def)
    qed
    then show "\<exists>t. queue_step fails s t" using queue_progress s(1) I ok by blast
  next
    fix s t
    assume "?I s" "queue_step fails s t"
    then show "?I t \<and> queue_weight t < queue_weight s"
      using work_queue_inv_step no_failure_alive ok queue_weight_less by blast
  qed
qed

theorem operations_in_call_order_witness:
  "inevitable (queue_step (\<lambda>_. False)) (\<lambda>t. calls t = [] \<and> log t = [Start 0, Ended 0, Start 1, Ended 1, Start 2, Ended 2])
     (fresh_queue [Async, Async, Sync])"
  using operations_in_call_order [of "\<lambda>_. False" "[Async, Async, Sync]"] by (simp add: eval_nat_numeral)

text \<open>C18. An asynchronous operation that raises ends the thread of the queue, and
  the queue never reports that it is done again: from then on no operation of
  the group is run any more, and a synchronous call spins forever.\<close>

theorem failure_stops_queue:
  assumes "queue_run fails (fresh_queue cs) s" "thread s = Dead" "queue_run fails s t"
  shows "log t = log s \<and> \<not> work_done t \<and> thread t = Dead"
proof -
  have "log t = log s \<and> thread t = Dead \<and> work_queue_inv (length cs) t"
    using assms(3)
  proof (induction rule: rtranclp_induct)
    case base
    show ?case using work_queue_inv_run [OF assms(1) work_queue_inv_fresh] assms(2) by blast
  next
    case (step t u)
    then have "\<not> work_done t" "\<forall>w. caller t \<noteq> Inline w" by (auto simp: work_queue_inv_def flags_ok_def split: if_splits)
    with step have "log u = log t \<and> thread u = Dead" by (auto elim!: queue_step.cases simp: enqueue_work_def)
    with step work_queue_inv_step show ?case by metis
  qed
  then show ?thesis by (auto simp: work_queue_inv_def flags_ok_def split: if_splits)
qed

definition failed_queue :: comm_queue where
  "failed_queue = \<lparr>next_comm_id = 1, pending = [], work_done = False, thread = Dead, caller = Between,
     calls = [Sync], log = [Start 0, Ended 0]\<rparr>"

lemma failed_queue_reachable: "queue_run (\<lambda>w. w = 0) (fresh_queue [Async, Sync]) failed_queue"
proof -
  let ?s0 = "fresh_queue [Async, Sync]"
  let ?s1 = "(enqueue_work (next_comm_id ?s0) ?s0)\<lparr>next_comm_id := next_comm_id ?s0 + 1, calls := [Sync]\<rparr>"
  let ?s2 = "?s1\<lparr>thread := Running 0, pending := [], log := log ?s1 @ [Start 0]\<rparr>"
  have "queue_step (\<lambda>w. w = 0) ?s0 ?s1"
    by (rule queue_step.call_async) (simp_all add: fresh_queue_def)
  moreover have "queue_step (\<lambda>w. w = 0) ?s1 ?s2"
    by (rule queue_step.poll) (simp_all add: fresh_queue_def enqueue_work_def)
  moreover have "queue_step (\<lambda>w. w = 0) ?s2 (?s2\<lparr>thread := Dead, log := log ?s2 @ [Ended 0]\<rparr>)"
    by (rule queue_step.work_raises) simp_all
  ultimately show ?thesis
    by (simp add: failed_queue_def fresh_queue_def enqueue_work_def)
qed

theorem failure_stops_queue_witness:
  "queue_run (\<lambda>w. w = 0) failed_queue (failed_queue\<lparr>caller := Spinning 1, next_comm_id := 2, calls := []\<rparr>) \<and>
   \<not> work_done (failed_queue\<lparr>caller := Spinning 1, next_comm_id := 2, calls := []\<rparr>)"
proof -
  let ?t = "failed_queue\<lparr>caller := Spinning (next_comm_id failed_queue), next_comm_id := next_comm_id failed_queue + 1,
    calls := []\<rparr>"
  have "queue_step (\<lambda>w. w = 0) failed_queue ?t"
    by (rule queue_step.call_sync) (simp_all add: failed_queue_def)
  then have run: "queue_run (\<lambda>w. w = 0) failed_queue ?t" by blast
  have "thread failed_queue = Dead" by (simp add: failed_queue_def)
  from failure_stops_queue [OF failed_queue_reachable this run] run show ?thesis
    by (simp add: failed_queue_def eval_nat_numeral)
qed

end
