(* ===== verification/Choreography.thy ===== *)
theory Choreography
  imports Py_Prelude
begin

text \<open>
  Collective operations of many workers. Every worker runs a list of blocking
  operations; an operation happens when all the workers that take part in it
  are ready for it. The operations of a broadcast in
  \<^verbatim>\<open>rlinf/scheduler/collective/collective_group.py\<close> are of this kind: a send and
  its receive, a broadcast inside a group, the initialisation of a group.

  The lemmas show when such programs cannot deadlock: each worker's program is
  the part that concerns it of one common list of operations.
\<close>

section \<open>Workers that meet in operations\<close>

text \<open>The part of a list of operations in which worker \<open>r\<close> takes part.\<close>

definition project :: "('op \<Rightarrow> nat set) \<Rightarrow> 'op list \<Rightarrow> nat \<Rightarrow> 'op list" where
  "project parties ops r = filter (\<lambda>a. r \<in> parties a) ops"

text \<open>\<open>progs r\<close> is what worker \<open>r\<close> still has to do; the data of all workers is one state.\<close>

inductive joint_step :: "('op \<Rightarrow> nat set) \<Rightarrow> ('op \<Rightarrow> 's \<Rightarrow> 's) \<Rightarrow> (nat \<Rightarrow> 'op list) \<times> 's \<Rightarrow> (nat \<Rightarrow> 'op list) \<times> 's \<Rightarrow> bool"
  for parties effect where
  joint: "parties a \<noteq> {} \<Longrightarrow> (\<And>r. r \<in> parties a \<Longrightarrow> \<exists>rest. progs r = a # rest) \<Longrightarrow>
     joint_step parties effect (progs, s) (\<lambda>r. if r \<in> parties a then tl (progs r) else progs r, effect a s)"

text \<open>The operations one after the other.\<close>

definition in_sequence :: "('op \<Rightarrow> 's \<Rightarrow> 's) \<Rightarrow> 'op list \<Rightarrow> 's \<Rightarrow> 's" where
  "in_sequence effect ops s = fold effect ops s"

lemma project_simps [simp]:
  "project parties [] r = []"
  "project parties (a # ops) r = (if r \<in> parties a then a # project parties ops r else project parties ops r)"
  "project parties (ops @ ops') r = project parties ops r @ project parties ops' r"
  by (simp_all add: project_def)

lemma project_concat_map: "project parties (concat (map f xs)) r = concat (map (\<lambda>x. project parties (f x) r) xs)"
  by (induction xs) simp_all

lemma project_empty_iff: "project parties ops r = [] \<longleftrightarrow> (\<forall>a \<in> set ops. r \<notin> parties a)"
  by (auto simp: project_def filter_empty_conv)

lemma in_sequence_simps [simp]:
  "in_sequence effect [] s = s"
  "in_sequence effect (a # ops) s = in_sequence effect ops (effect a s)"
  "in_sequence effect (ops @ ops') s = in_sequence effect ops' (in_sequence effect ops s)"
  by (simp_all add: in_sequence_def)

text \<open>The first operation of a worker is the first in the common list that concerns it.\<close>

lemma project_head:
  "project parties ops r = a # rest \<Longrightarrow>
     \<exists>before after. ops = before @ a # after \<and> project parties before r = [] \<and> project parties after r = rest
       \<and> r \<in> parties a"
  unfolding project_def by (auto simp: filter_eq_Cons_iff filter_empty_conv)

lemma same_first_occurrence:
  "before @ a # after = before' @ a # after' \<Longrightarrow> a \<notin> set before \<Longrightarrow> a \<notin> set before' \<Longrightarrow>
     before = before' \<and> after = after'"
proof (induction before arbitrary: before')
  case Nil
  then show ?case by (cases before') auto
next
  case (Cons b before)
  then show ?case by (cases before') auto
qed

section \<open>No deadlock, and one result\<close>

text \<open>Operations of different workers do not affect each other.\<close>

locale joint_operations =
  fixes parties :: "'op \<Rightarrow> nat set" and effect :: "'op \<Rightarrow> 's \<Rightarrow> 's"
  assumes some_party: "parties a \<noteq> {}"
    and independent: "parties a \<inter> parties b = {} \<Longrightarrow> effect a (effect b s) = effect b (effect a s)"
begin

lemma move_to_front:
  assumes "\<And>b. b \<in> set before \<Longrightarrow> parties a \<inter> parties b = {}"
  shows "in_sequence effect (before @ a # after) s = in_sequence effect (before @ after) (effect a s)"
  using assms by (induction before arbitrary: s) (simp_all add: independent)

lemma enabled_split:
  assumes "\<And>r. r \<in> parties a \<Longrightarrow> \<exists>rest. project parties ops r = a # rest"
  obtains before after where "ops = before @ a # after" "\<And>b. b \<in> set before \<Longrightarrow> parties a \<inter> parties b = {}"
proof -
  obtain r where r: "r \<in> parties a" using some_party by blast
  with assms project_head obtain before after where
    ops: "ops = before @ a # after" and free: "project parties before r = []" by metis
  have new: "a \<notin> set before" using free r by (auto simp: project_empty_iff)
  have "parties a \<inter> parties b = {}" if b: "b \<in> set before" for b
  proof (rule ccontr)
    assume "parties a \<inter> parties b \<noteq> {}"
    then obtain q where q: "q \<in> parties a" "q \<in> parties b" by blast
    with assms project_head obtain before' after' where
      ops': "ops = before' @ a # after'" and free': "project parties before' q = []" by metis
    have "a \<notin> set before'" using free' q by (auto simp: project_empty_iff)
    with ops ops' new have "before = before'" using same_first_occurrence by metis
    with free' b q show False by (auto simp: project_empty_iff)
  qed
  with ops that show ?thesis by blast
qed

lemma step_of_projection:
  assumes "joint_step parties effect (project parties ops, s) t"
  obtains before a after where "ops = before @ a # after"
    "t = (project parties (before @ after), effect a s)"
    "in_sequence effect (before @ after) (effect a s) = in_sequence effect ops s"
  using assms
proof (cases rule: joint_step.cases)
  case (joint a)
  obtain before after where split: "ops = before @ a # after"
    and free: "\<And>b. b \<in> set before \<Longrightarrow> parties a \<inter> parties b = {}"
    using enabled_split [of a ops] joint(3) by blast
  have "(\<lambda>r. if r \<in> parties a then tl (project parties ops r) else project parties ops r) =
      project parties (before @ after)"
  proof
    fix r
    have "r \<in> parties a \<Longrightarrow> project parties before r = []" using free by (auto simp: project_empty_iff)
    then show "(if r \<in> parties a then tl (project parties ops r) else project parties ops r) =
        project parties (before @ after) r" by (simp add: split)
  qed
  with joint split move_to_front [OF free] that show ?thesis by simp
qed

lemma projection_inevitable:
  "inevitable (joint_step parties effect) (\<lambda>(progs, t). (\<forall>r. progs r = []) \<and> t = in_sequence effect ops s)
     (project parties ops, s)"
proof (induction "length ops" arbitrary: ops s)
  case 0
  then show ?case by (simp add: inevitable.now)
next
  case (Suc n)
  then obtain a rest where ops: "ops = a # rest" by (cases ops) auto
  have "joint_step parties effect (project parties ops, s)
      (\<lambda>r. if r \<in> parties a then tl (project parties ops r) else project parties ops r, effect a s)"
    by (rule joint_step.joint) (simp_all add: some_party ops)
  then show ?case
  proof (rule inevitable.later)
    fix t
    assume "joint_step parties effect (project parties ops, s) t"
    then obtain before b after where t: "ops = before @ b # after"
      "t = (project parties (before @ after), effect b s)"
      "in_sequence effect (before @ after) (effect b s) = in_sequence effect ops s"
      by (rule step_of_projection)
    with Suc(1) [of "before @ after" "effect b s"] Suc(2) show "inevitable (joint_step parties effect)
        (\<lambda>(progs, t). (\<forall>r. progs r = []) \<and> t = in_sequence effect ops s) t" by simp
  qed
qed

end

end
