(* ===== verification/Broadcast.thy ===== *)
theory Broadcast
  imports Choreography Collective_P2P "HOL-Library.Multiset"
begin

text \<open>
  Broadcast of a list of tensors to all workers of a collective group:
  \<open>_broadcast_tensor_list\<close>, \<open>_ring_broadcast_tensor_list\<close>,
  \<open>_classify_broadcast_ranks\<close>, \<open>_group_ranks_by_device\<close> and
  \<open>_should_use_ring_broadcast\<close> of
  \<^verbatim>\<open>rlinf/scheduler/collective/collective_group.py\<close>.

  The program of a worker is the list of its blocking operations in the order
  of the code. A point-to-point transfer is one operation of the two workers
  (\<^verbatim>\<open>Collective_P2P\<close> runs such transfers message by message). Asynchronous
  sends to several receivers are listed in the order in which they are issued.
\<close>

section \<open>Members and their devices\<close>

record member = endpoint +
  accelerator_type :: string
  accelerator_model :: string

datatype relation = Same_Device | Uncertain_Device | Different_Device

definition device_relation :: "member \<Rightarrow> member \<Rightarrow> relation" where
  "device_relation src w =
     (if node_rank w \<noteq> node_rank src \<or> set (accelerators src) \<inter> set (accelerators w) = {} then Different_Device
      else if length (accelerators src) = 1 \<and> length (accelerators w) = 1 then Same_Device
      else Uncertain_Device)"

definition receivers_of :: "member list \<Rightarrow> nat \<Rightarrow> nat list" where
  "receivers_of ws src_rank = filter (\<lambda>i. i \<noteq> src_rank) [0..<length ws]"

definition classify_broadcast_ranks :: "member list \<Rightarrow> nat \<Rightarrow> nat list \<times> nat list \<times> nat list" where
  "classify_broadcast_ranks ws src_rank =
     (let ranks = (\<lambda>rel. filter (\<lambda>i. device_relation (ws ! src_rank) (ws ! i) = rel) (receivers_of ws src_rank))
      in (ranks Same_Device, ranks Uncertain_Device, ranks Different_Device))"

text \<open>\<open>groups.setdefault(key, []).append(rank)\<close> on a dictionary in insertion order.\<close>

fun append_to_group :: "'k \<Rightarrow> nat \<Rightarrow> ('k \<times> nat list) list \<Rightarrow> ('k \<times> nat list) list" where
  "append_to_group key rank [] = [(key, [rank])]"
| "append_to_group key rank ((k, ranks) # groups) =
     (if k = key then (k, ranks @ [rank]) # groups else (k, ranks) # append_to_group key rank groups)"

fun group_loop :: "member list \<Rightarrow> nat list \<Rightarrow> ((int \<times> int) \<times> nat list) list \<Rightarrow> nat list list \<Rightarrow> nat list list" where
  "group_loop ws [] groups singletons = map snd groups @ singletons"
| "group_loop ws (rank # ranks) groups singletons =
     (case accelerators (ws ! rank) of
        [a] \<Rightarrow> group_loop ws ranks (append_to_group (node_rank (ws ! rank), a) rank groups) singletons
      | _ \<Rightarrow> group_loop ws ranks groups (singletons @ [[rank]]))"

definition group_ranks_by_device :: "member list \<Rightarrow> nat list \<Rightarrow> nat list list" where
  "group_ranks_by_device ws ranks = group_loop ws ranks [] []"

text \<open>\<open>use_ring\<close> is \<open>options.use_ring_broadcast\<close>, \<open>None\<close> without options.\<close>

definition should_use_ring_broadcast :: "member list \<Rightarrow> nat \<Rightarrow> bool option \<Rightarrow> bool \<Rightarrow> bool" where
  "should_use_ring_broadcast ws src_rank use_ring has_accel_tensor =
     (let receivers = receivers_of ws src_rank;
          (same, uncertain, diff) = classify_broadcast_ranks ws src_rank;
          participants = map ((!) ws) (src_rank # receivers)
      in if length receivers < 2 then False
         else if same \<noteq> [] \<or> uncertain \<noteq> [] then False
         else if has_accel_tensor \<and> list_ex (\<lambda>g. 1 < length g) (group_ranks_by_device ws diff) then False
         else if has_accel_tensor
           \<and> list_all (\<lambda>w. accelerator_type w = accelerator_type (ws ! src_rank)
                \<and> accelerator_model w = accelerator_model (ws ! src_rank)) participants
         then False
         else use_ring = Some True)"

section \<open>Operations\<close>

text \<open>What is transferred: the metadata and its size, or the tensor with an index.\<close>

datatype bcast_slot = Size | Meta | Slot nat

datatype link = Ipc | Exchange | Plain stream

text \<open>
  The initialisation of a sub-group, a broadcast from a root to others, and a
  point-to-point transfer.
\<close>

datatype bcast_op =
    Init nat "nat list"
  | Coll stream nat "nat list" bcast_slot
  | Transfer link nat nat "bcast_slot list"

fun op_parties :: "bcast_op \<Rightarrow> nat set" where
  "op_parties (Init root others) = insert root (set others)"
| "op_parties (Coll s root others sl) = insert root (set others)"
| "op_parties (Transfer l sender receiver sls) = {sender, receiver}"

type_synonym 'v stores = "nat \<Rightarrow> bcast_slot \<Rightarrow> 'v option"

fun op_effect :: "bcast_op \<Rightarrow> 'v stores \<Rightarrow> 'v stores" where
  "op_effect (Init root others) st = st"
| "op_effect (Coll s root others sl) st = (\<lambda>r. if r \<in> set others then (st r)(sl := st root sl) else st r)"
| "op_effect (Transfer l sender receiver sls) st =
     st(receiver := (\<lambda>sl. if sl \<in> set sls then st sender sl else st receiver sl))"

text \<open>
  \<open>_init_process_group\<close> of a sub-group: its members meet, unless the sub-group
  has been initialised by an earlier broadcast.
\<close>

definition init_group :: "(nat set \<Rightarrow> bool) \<Rightarrow> nat \<Rightarrow> nat list \<Rightarrow> bcast_op list" where
  "init_group ready root others = (if ready (insert root (set others)) then [] else [Init root others])"

definition tensor_device :: "bool list \<Rightarrow> nat \<Rightarrow> stream" where
  "tensor_device cpu_mask i = (if cpu_mask ! i then CPU else ACCEL)"

section \<open>The program of each worker\<close>

definition ring_broadcast_tensor_list ::
    "member list \<Rightarrow> nat \<Rightarrow> bool list \<Rightarrow> (nat set \<Rightarrow> bool) \<Rightarrow> nat \<Rightarrow> bcast_op list" where
  "ring_broadcast_tensor_list ws src_rank cpu_mask ready rank =
     (let receivers = receivers_of ws src_rank; first_receiver = hd receivers; other_receivers = tl receivers;
          send = (\<lambda>a b i. Transfer (Plain (tensor_device cpu_mask i)) a b [Slot i]);
          idx = [0..<length cpu_mask]
      in (if rank = src_rank \<or> rank = first_receiver then init_group ready src_rank [first_receiver] else [])
         @ (if rank = first_receiver then concat (map (\<lambda>r. init_group ready first_receiver [r]) other_receivers)
            else if rank \<in> set other_receivers then init_group ready first_receiver [rank] else [])
         @ (if rank = src_rank then map (send src_rank first_receiver) idx
            else if rank = first_receiver
            then concat (map (\<lambda>i. send src_rank first_receiver i # map (\<lambda>r. send first_receiver r i) other_receivers) idx)
            else map (send first_receiver rank) idx))"

definition fan_out :: "member list \<Rightarrow> nat \<Rightarrow> bool list \<Rightarrow> (nat set \<Rightarrow> bool) \<Rightarrow> nat \<Rightarrow> bcast_op list" where
  "fan_out ws src_rank cpu_mask ready rank =
     (let receivers = receivers_of ws src_rank;
          transfer = (\<lambda>r. init_group ready src_rank [r]
            @ map (\<lambda>i. Transfer (Plain CPU) src_rank r [Slot i]) [0..<length cpu_mask])
      in if rank = src_rank then concat (map transfer receivers)
         else if rank \<in> set receivers then transfer rank
         else [])"

definition accel_slots :: "bool list \<Rightarrow> nat list" where
  "accel_slots cpu_mask = filter (\<lambda>i. \<not> cpu_mask ! i) [0..<length cpu_mask]"

definition cpu_slots :: "bool list \<Rightarrow> nat list" where
  "cpu_slots cpu_mask = filter (\<lambda>i. cpu_mask ! i) [0..<length cpu_mask]"

text \<open>The branches of the hybrid path; \<open>hd g\<close> is the representative of a group of receivers.\<close>

definition hybrid_broadcast :: "member list \<Rightarrow> nat \<Rightarrow> bool list \<Rightarrow> (nat set \<Rightarrow> bool)
    \<Rightarrow> nat list \<Rightarrow> nat list \<Rightarrow> nat list list \<Rightarrow> nat \<Rightarrow> bcast_op list" where
  "hybrid_broadcast ws src_rank cpu_mask ready same uncertain groups rank =
     (let accel = accel_slots cpu_mask; slots = map Slot accel;
          reprs = map hd groups;
          collective = init_group ready src_rank reprs @ map (\<lambda>i. Coll ACCEL src_rank reprs (Slot i)) accel;
          by_link = (\<lambda>l a b. init_group ready a [b] @ [Transfer l a b slots])
      in (if rank = src_rank
          then concat (map (by_link Ipc src_rank) same) @ concat (map (by_link Exchange src_rank) uncertain)
            @ (if reprs \<noteq> [] then collective else [])
          else if rank \<in> set same then by_link Ipc src_rank rank
          else if rank \<in> set uncertain then by_link Exchange src_rank rank
          else if rank \<in> set reprs
          then collective @ concat (map (by_link Ipc rank) (case find (\<lambda>g. hd g = rank) groups of None \<Rightarrow> [] | Some g \<Rightarrow> tl g))
          else (case find (\<lambda>g. rank \<in> set g) groups of None \<Rightarrow> [] | Some g \<Rightarrow> by_link Ipc (hd g) rank))
         @ map (\<lambda>i. Coll CPU src_rank (receivers_of ws src_rank) (Slot i)) (cpu_slots cpu_mask))"

definition broadcast_tensor_list :: "member list \<Rightarrow> nat \<Rightarrow> bool option \<Rightarrow> bool list \<Rightarrow> (nat set \<Rightarrow> bool)
    \<Rightarrow> nat \<Rightarrow> bcast_op list" where
  "broadcast_tensor_list ws src_rank use_ring cpu_mask ready rank =
     (let receivers = receivers_of ws src_rank;
          has_accel_tensor = (\<exists>m \<in> set cpu_mask. \<not> m)
      in map (Coll CPU src_rank receivers) [Size, Meta]
         @ (if should_use_ring_broadcast ws src_rank use_ring has_accel_tensor
            then ring_broadcast_tensor_list ws src_rank cpu_mask ready rank
            else if \<not> has_accel_tensor then fan_out ws src_rank cpu_mask ready rank
            else let (definitely_same_ranks, uncertain_ranks, diff_dev_ranks) = classify_broadcast_ranks ws src_rank;
                     diff_dev_groups = group_ranks_by_device ws diff_dev_ranks
                 in if definitely_same_ranks = [] \<and> uncertain_ranks = [] \<and> concat (map tl diff_dev_groups) = []
                    then map (\<lambda>i. Coll (tensor_device cpu_mask i) src_rank receivers (Slot i)) [0..<length cpu_mask]
                    else hybrid_broadcast ws src_rank cpu_mask ready definitely_same_ranks uncertain_ranks
                      diff_dev_groups rank))"

text \<open>All workers of the group call the broadcast.\<close>

definition broadcast_programs :: "member list \<Rightarrow> nat \<Rightarrow> bool option \<Rightarrow> bool list \<Rightarrow> (nat set \<Rightarrow> bool)
    \<Rightarrow> nat \<Rightarrow> bcast_op list" where
  "broadcast_programs ws src_rank use_ring cpu_mask ready =
     (\<lambda>r. if r < length ws then broadcast_tensor_list ws src_rank use_ring cpu_mask ready r else [])"

interpretation bcast: joint_operations op_parties op_effect
proof
  show "op_parties a \<noteq> {}" for a by (cases a) auto
  show "op_effect a (op_effect b s) = op_effect b (op_effect a s)"
    if "op_parties a \<inter> op_parties b = {}" for a b and s :: "'v stores"
    using that by (cases a; cases b; intro ext) (auto simp: fun_upd_def)
qed


section \<open>Groups by device\<close>

lemma mset_append_to_group:
  "mset (concat (map snd (append_to_group key rank groups))) = add_mset rank (mset (concat (map snd groups)))"
  by (induction groups rule: append_to_group.induct) auto

lemma append_to_group_nonempty:
  "\<forall>(k, ranks) \<in> set groups. ranks \<noteq> [] \<Longrightarrow> \<forall>(k, ranks) \<in> set (append_to_group key rank groups). ranks \<noteq> []"
  by (induction groups rule: append_to_group.induct) auto

lemma mset_group_loop:
  "mset (concat (group_loop ws ranks groups singletons)) =
     mset ranks + mset (concat (map snd groups)) + mset (concat singletons)"
  by (induction ws ranks groups singletons rule: group_loop.induct)
    (simp_all add: mset_append_to_group split: list.split)

lemma group_loop_nonempty:
  "\<forall>(k, ranks) \<in> set groups. ranks \<noteq> [] \<Longrightarrow> [] \<notin> set singletons \<Longrightarrow> [] \<notin> set (group_loop ws ranks groups singletons)"
proof (induction ws ranks groups singletons rule: group_loop.induct)
  case (2 ws rank ranks groups singletons)
  then show ?case by (simp add: append_to_group_nonempty split: list.split)
qed auto

lemma groups_partition:
  assumes "distinct ranks"
  shows "distinct (concat (group_ranks_by_device ws ranks))" "set (concat (group_ranks_by_device ws ranks)) = set ranks"
    "[] \<notin> set (group_ranks_by_device ws ranks)"
proof -
  have "mset (concat (group_ranks_by_device ws ranks)) = mset ranks"
    by (simp add: group_ranks_by_device_def mset_group_loop)
  with assms show "distinct (concat (group_ranks_by_device ws ranks))"
    "set (concat (group_ranks_by_device ws ranks)) = set ranks"
    by (metis mset_eq_imp_distinct_iff) (metis \<open>mset _ = mset ranks\<close> mset_eq_setD)
qed (simp add: group_ranks_by_device_def group_loop_nonempty)

section \<open>The programs are parts of one list of operations\<close>

lemma project_all: "(\<And>a. a \<in> set ops \<Longrightarrow> r \<in> parties a) \<Longrightarrow> project parties ops r = ops"
  by (simp add: project_def)

lemma project_none: "(\<And>a. a \<in> set ops \<Longrightarrow> r \<notin> parties a) \<Longrightarrow> project parties ops r = []"
  by (simp add: project_empty_iff)

text \<open>One worker meets each of several others in turn.\<close>

lemma project_star:
  assumes "\<And>x a. x \<in> set xs \<Longrightarrow> a \<in> set (f x) \<Longrightarrow> op_parties a = {centre, x}"
    and "distinct xs" "centre \<notin> set xs"
  shows "project op_parties (concat (map f xs)) r =
    (if r = centre then concat (map f xs) else if r \<in> set xs then f r else [])"
proof -
  have block: "project op_parties (f x) r = (if r = centre \<or> r = x then f x else [])" if "x \<in> set xs" for x
    using assms(1) [OF that] by (auto intro!: project_all project_none)
  show ?thesis
    using assms(2,3) block
  proof (induction xs)
    case (Cons x xs)
    then show ?case by (auto simp: project_concat_map)
  qed simp
qed

lemma init_parties: "a \<in> set (init_group ready root others) \<Longrightarrow> op_parties a = insert root (set others)"
  by (auto simp: init_group_def split: if_splits)

lemma distinct_receivers [simp]: "distinct (receivers_of ws src_rank)"
  and set_receivers: "set (receivers_of ws src_rank) = {i. i < length ws \<and> i \<noteq> src_rank}"
  by (auto simp: receivers_of_def)

definition fan_out_all :: "member list \<Rightarrow> nat \<Rightarrow> bool list \<Rightarrow> (nat set \<Rightarrow> bool) \<Rightarrow> bcast_op list" where
  "fan_out_all ws src_rank cpu_mask ready =
     concat (map (\<lambda>r. init_group ready src_rank [r]
       @ map (\<lambda>i. Transfer (Plain CPU) src_rank r [Slot i]) [0..<length cpu_mask]) (receivers_of ws src_rank))"

lemma fan_out_projection: "fan_out ws src_rank cpu_mask ready r = project op_parties (fan_out_all ws src_rank cpu_mask ready) r"
  unfolding fan_out_all_def fan_out_def Let_def
  by (subst project_star [where centre = src_rank]) (auto dest: init_parties simp: set_receivers)

definition ring_all :: "member list \<Rightarrow> nat \<Rightarrow> bool list \<Rightarrow> (nat set \<Rightarrow> bool) \<Rightarrow> bcast_op list" where
  "ring_all ws src_rank cpu_mask ready =
     (let first = hd (receivers_of ws src_rank); others = tl (receivers_of ws src_rank);
          send = (\<lambda>a b i. Transfer (Plain (tensor_device cpu_mask i)) a b [Slot i])
      in init_group ready src_rank [first] @ concat (map (\<lambda>r. init_group ready first [r]) others)
         @ concat (map (\<lambda>i. send src_rank first i # map (\<lambda>r. send first r i) others) [0..<length cpu_mask]))"

lemma ring_projection:
  assumes "2 \<le> length (receivers_of ws src_rank)" "r < length ws"
  shows "ring_broadcast_tensor_list ws src_rank cpu_mask ready r = project op_parties (ring_all ws src_rank cpu_mask ready) r"
proof -
  obtain first others where rs: "receivers_of ws src_rank = first # others"
    using assms(1) by (cases "receivers_of ws src_rank") auto
  let ?send = "\<lambda>a b i. Transfer (Plain (tensor_device cpu_mask i)) a b [Slot i]"
  have d: "first \<notin> set others" "distinct others" "src_rank \<noteq> first" "src_rank \<notin> set others"
    using distinct_receivers [of ws src_rank] set_receivers [of ws src_rank] by (auto simp: rs)
  have role: "r = src_rank \<or> r = first \<or> r \<in> set others"
    using assms(2) set_receivers [of ws src_rank] by (auto simp: rs)
  have init: "project op_parties (init_group ready src_rank [first]) v =
      (if v = src_rank \<or> v = first then init_group ready src_rank [first] else [])" for v
    by (auto intro!: project_all project_none dest: init_parties)
  have inits: "project op_parties (concat (map (\<lambda>q. init_group ready first [q]) others)) v =
      (if v = first then concat (map (\<lambda>q. init_group ready first [q]) others)
       else if v \<in> set others then init_group ready first [v] else [])" for v
    using d by (intro project_star) (auto dest: init_parties)
  have hop: "project op_parties (map (\<lambda>q. ?send first q i) others) v =
      (if v = first then map (\<lambda>q. ?send first q i) others else if v \<in> set others then [?send first v i] else [])" for v i
    using project_star [of others "\<lambda>q. [?send first q i]" first v] d by (simp add: concat_map_singleton)
  have sends: "v = src_rank \<or> v = first \<or> v \<in> set others \<Longrightarrow>
    project op_parties (concat (map (\<lambda>i. ?send src_rank first i # map (\<lambda>q. ?send first q i) others) idx)) v =
      (if v = src_rank then map (?send src_rank first) idx
       else if v = first then concat (map (\<lambda>i. ?send src_rank first i # map (\<lambda>q. ?send first q i) others) idx)
       else map (?send first v) idx)" for v idx
    using d by (induction idx) (auto simp: hop)
  show ?thesis
    using role d by (auto simp: ring_broadcast_tensor_list_def ring_all_def Let_def rs init inits sends)
qed

text \<open>The list of the hybrid path, for receivers in the three classes.\<close>

definition by_link :: "(nat set \<Rightarrow> bool) \<Rightarrow> bcast_slot list \<Rightarrow> link \<Rightarrow> nat \<Rightarrow> nat \<Rightarrow> bcast_op list" where
  "by_link ready slots l a b = init_group ready a [b] @ [Transfer l a b slots]"

definition repr_collective :: "(nat set \<Rightarrow> bool) \<Rightarrow> nat list \<Rightarrow> nat \<Rightarrow> nat list \<Rightarrow> bcast_op list" where
  "repr_collective ready accel src_rank reprs =
     init_group ready src_rank reprs @ map (\<lambda>i. Coll ACCEL src_rank reprs (Slot i)) accel"

definition peer_copies :: "(nat set \<Rightarrow> bool) \<Rightarrow> bcast_slot list \<Rightarrow> nat list \<Rightarrow> bcast_op list" where
  "peer_copies ready slots g = concat (map (by_link ready slots Ipc (hd g)) (tl g))"

definition hybrid_all :: "member list \<Rightarrow> nat \<Rightarrow> bool list \<Rightarrow> (nat set \<Rightarrow> bool) \<Rightarrow> nat list \<Rightarrow> nat list \<Rightarrow> nat list list
    \<Rightarrow> bcast_op list" where
  "hybrid_all ws src_rank cpu_mask ready same uncertain groups =
     (let accel = accel_slots cpu_mask; slots = map Slot accel; reprs = map hd groups
      in concat (map (by_link ready slots Ipc src_rank) same) @ concat (map (by_link ready slots Exchange src_rank) uncertain)
         @ (if reprs \<noteq> [] then repr_collective ready accel src_rank reprs else [])
         @ concat (map (peer_copies ready slots) groups)
         @ map (\<lambda>i. Coll CPU src_rank (receivers_of ws src_rank) (Slot i)) (cpu_slots cpu_mask))"

lemma by_link_parties: "a \<in> set (by_link ready slots l x y) \<Longrightarrow> op_parties a = {x, y}"
  by (auto simp: by_link_def dest: init_parties)

lemma repr_parties: "a \<in> set (repr_collective ready accel src_rank reprs) \<Longrightarrow> op_parties a = insert src_rank (set reprs)"
  by (auto simp: repr_collective_def dest: init_parties)

lemma project_links:
  "distinct xs \<Longrightarrow> centre \<notin> set xs \<Longrightarrow>
     project op_parties (concat (map (by_link ready slots l centre) xs)) r =
       (if r = centre then concat (map (by_link ready slots l centre) xs)
        else if r \<in> set xs then by_link ready slots l centre r else [])"
  by (rule project_star) (auto dest: by_link_parties)

lemma project_peer_copies:
  assumes "distinct g" "g \<noteq> []"
  shows "project op_parties (peer_copies ready slots g) r =
    (if r = hd g then peer_copies ready slots g else if r \<in> set g then by_link ready slots Ipc (hd g) r else [])"
proof -
  obtain x xs where "g = x # xs" using assms(2) by (cases g) auto
  with assms(1) show ?thesis by (auto simp: peer_copies_def project_links)
qed

lemma project_groups:
  assumes "distinct (concat groups)" "[] \<notin> set groups"
  shows "project op_parties (concat (map (peer_copies ready slots) groups)) r =
    (if r \<in> set (map hd groups)
     then concat (map (by_link ready slots Ipc r) (case find (\<lambda>g. hd g = r) groups of None \<Rightarrow> [] | Some g \<Rightarrow> tl g))
     else case find (\<lambda>g. r \<in> set g) groups of None \<Rightarrow> [] | Some g \<Rightarrow> by_link ready slots Ipc (hd g) r)"
  using assms
proof (induction groups)
  case (Cons g groups)
  have g: "distinct g" "g \<noteq> []" using Cons.prems by auto
  show ?case
  proof (cases "r \<in> set g")
    case True
    have others: "project op_parties (concat (map (peer_copies ready slots) groups)) r = []"
    proof (rule project_none)
      fix a
      assume "a \<in> set (concat (map (peer_copies ready slots) groups))"
      then obtain g' x where g': "g' \<in> set groups" "x \<in> set (tl g')" "a \<in> set (by_link ready slots Ipc (hd g') x)"
        by (auto simp: peer_copies_def)
      with Cons.prems have "{hd g', x} \<subseteq> set g'" by (cases g') auto
      with g' True Cons.prems show "r \<notin> op_parties a" using by_link_parties [OF g'(3)] by auto
    qed
    have no_repr: "r \<notin> set (map hd groups)"
    proof
      assume "r \<in> set (map hd groups)"
      then obtain g' where "g' \<in> set groups" "r = hd g'" by auto
      with Cons.prems have "r \<in> set g'" by (metis hd_in_set list.set_intros(2))
      with True Cons.prems \<open>g' \<in> set groups\<close> show False by auto
    qed
    have "project op_parties (concat (map (peer_copies ready slots) (g # groups))) r =
        (if r = hd g then concat (map (by_link ready slots Ipc r) (tl g)) else by_link ready slots Ipc (hd g) r)"
      using True by (simp add: project_peer_copies [OF g] others) (simp add: peer_copies_def)
    with True no_repr show ?thesis by auto
  next
    case False
    then have "r \<noteq> hd g" using g by auto
    with False g Cons show ?thesis by (simp add: project_peer_copies)
  qed
qed simp

definition classes_ok :: "member list \<Rightarrow> nat \<Rightarrow> nat list \<Rightarrow> nat list \<Rightarrow> nat list list \<Rightarrow> bool" where
  "classes_ok ws src_rank same uncertain groups \<longleftrightarrow>
     [] \<notin> set groups \<and> distinct (same @ uncertain @ concat groups) \<and>
     set (same @ uncertain @ concat groups) = {i. i < length ws \<and> i \<noteq> src_rank}"

lemma classes_ok_classify:
  assumes "classify_broadcast_ranks ws src_rank = (same, uncertain, diff)"
  shows "classes_ok ws src_rank same uncertain (group_ranks_by_device ws diff)"
proof -
  have c: "same = filter (\<lambda>i. device_relation (ws ! src_rank) (ws ! i) = Same_Device) (receivers_of ws src_rank)"
    "uncertain = filter (\<lambda>i. device_relation (ws ! src_rank) (ws ! i) = Uncertain_Device) (receivers_of ws src_rank)"
    "diff = filter (\<lambda>i. device_relation (ws ! src_rank) (ws ! i) = Different_Device) (receivers_of ws src_rank)"
    using assms by (simp_all add: classify_broadcast_ranks_def)
  then have diff: "distinct diff" by simp
  note g = groups_partition [OF diff, of ws]
  have sets: "set (concat (group_ranks_by_device ws diff)) = set diff" by (rule g(2))
  have "distinct (same @ uncertain @ diff)" unfolding c by auto
  then have "distinct (same @ uncertain @ concat (group_ranks_by_device ws diff))"
    by (simp only: distinct_append set_append sets g(1) simp_thms)
  moreover have "set (same @ uncertain @ diff) = set (receivers_of ws src_rank)"
    unfolding c using relation.exhaust by auto
  then have "set (same @ uncertain @ concat (group_ranks_by_device ws diff)) = {i. i < length ws \<and> i \<noteq> src_rank}"
    by (simp only: set_append sets set_receivers)
  ultimately show ?thesis using g(3) unfolding classes_ok_def by blast
qed

lemma hybrid_projection:
  assumes ok: "classes_ok ws src_rank same uncertain groups" and r: "r < length ws" and src: "src_rank < length ws"
  shows "hybrid_broadcast ws src_rank cpu_mask ready same uncertain groups r =
    project op_parties (hybrid_all ws src_rank cpu_mask ready same uncertain groups) r"
proof -
  let ?slots = "map Slot (accel_slots cpu_mask)"
  let ?reprs = "map hd groups"
  have ranks: "distinct same" "distinct uncertain" "set same \<inter> set uncertain = {}"
    "set same \<inter> set (concat groups) = {}" "set uncertain \<inter> set (concat groups) = {}"
    "src_rank \<notin> set same" "src_rank \<notin> set uncertain" "src_rank \<notin> set (concat groups)"
    using ok by (auto simp: classes_ok_def)
  have groups: "distinct (concat groups)" "[] \<notin> set groups" using ok by (simp_all add: classes_ok_def)
  have reprs: "set ?reprs \<subseteq> set (concat groups)"
  proof
    fix x
    assume "x \<in> set ?reprs"
    then obtain g where "g \<in> set groups" "x = hd g" by auto
    with groups(2) have "x \<in> set g" by (cases g) auto
    with \<open>g \<in> set groups\<close> show "x \<in> set (concat groups)" by auto
  qed
  have coll: "project op_parties (repr_collective ready (accel_slots cpu_mask) src_rank ?reprs) v =
      (if v = src_rank \<or> v \<in> set ?reprs then repr_collective ready (accel_slots cpu_mask) src_rank ?reprs else [])" for v
    by (auto intro!: project_all project_none dest: repr_parties)
  have cpu: "project op_parties (map (\<lambda>i. Coll CPU src_rank (receivers_of ws src_rank) (Slot i)) is) v =
      map (\<lambda>i. Coll CPU src_rank (receivers_of ws src_rank) (Slot i)) is" if "v < length ws" for "is" v
    using that by (intro project_all) (auto simp: set_receivers)
  have outside: "r \<notin> set ?reprs" "find (\<lambda>g. r \<in> set g) groups = None" if "r \<notin> set (concat groups)"
    using that reprs by (blast, auto simp: find_None_iff)
  have links: "project op_parties (concat (map (by_link ready ?slots l src_rank) xs)) v =
      (if v = src_rank then concat (map (by_link ready ?slots l src_rank) xs)
       else if v \<in> set xs then by_link ready ?slots l src_rank v else [])" if "xs = same \<or> xs = uncertain" for l xs v
    using that ranks by (intro project_links) auto
  have coll_if: "project op_parties (if ?reprs \<noteq> [] then repr_collective ready (accel_slots cpu_mask) src_rank ?reprs else []) v =
      (if v \<in> set ?reprs then repr_collective ready (accel_slots cpu_mask) src_rank ?reprs
       else if v = src_rank
       then (if ?reprs \<noteq> [] then repr_collective ready (accel_slots cpu_mask) src_rank ?reprs else [])
       else [])" for v
    using coll [of v] by (cases "?reprs = []") (simp_all del: map_is_Nil_conv)
  note folds = repr_collective_def [symmetric] by_link_def [symmetric]
  note unfolded = hybrid_broadcast_def hybrid_all_def Let_def folds project_simps links [OF disjI1 [OF refl]]
    links [OF disjI2 [OF refl]] coll_if project_groups [OF groups] cpu [OF r] cpu [OF src] append_assoc append_Nil append_Nil2
  have role: "r = src_rank \<or> r \<in> set (same @ uncertain @ concat groups)"
    using ok r unfolding classes_ok_def by blast
  consider "r = src_rank" | "r \<in> set same" | "r \<in> set uncertain" | "r \<in> set ?reprs" | "r \<in> set (concat groups)" "r \<notin> set ?reprs"
    using role by (simp only: set_append Un_iff) blast
  then show ?thesis
  proof cases
    case 1
    with ranks(8) have "r \<notin> set (concat groups)" by (simp only: simp_thms)
    from outside [OF this] 1 show ?thesis by (simp only: unfolded if_True if_False option.case simp_thms)
  next
    case 2
    then have "r \<noteq> src_rank" "r \<notin> set uncertain" "r \<notin> set (concat groups)" using ranks by blast+
    with outside 2 show ?thesis by (simp only: unfolded if_True if_False option.case simp_thms)
  next
    case 3
    then have "r \<noteq> src_rank" "r \<notin> set same" "r \<notin> set (concat groups)" using ranks by blast+
    with outside 3 show ?thesis by (simp only: unfolded if_True if_False option.case simp_thms)
  next
    case 4
    with reprs have "r \<in> set (concat groups)" by (rule subsetD)
    then have "r \<noteq> src_rank" "r \<notin> set same" "r \<notin> set uncertain" using ranks by blast+
    with 4 show ?thesis by (simp only: unfolded if_True if_False simp_thms)
  next
    case 5
    then have "r \<noteq> src_rank" "r \<notin> set same" "r \<notin> set uncertain" using ranks by blast+
    with 5 show ?thesis by (simp only: unfolded if_True if_False simp_thms)
  qed
qed


section \<open>What the receivers learn\<close>

fun needs :: "bcast_op \<Rightarrow> (nat \<times> bcast_slot) set" where
  "needs (Init root others) = {}"
| "needs (Coll s root others sl) = {(root, sl)}"
| "needs (Transfer l sender receiver sls) = {sender} \<times> set sls"

fun learns :: "bcast_op \<Rightarrow> (nat \<times> bcast_slot) set" where
  "learns (Init root others) = {}"
| "learns (Coll s root others sl) = set others \<times> {sl}"
| "learns (Transfer l sender receiver sls) = {receiver} \<times> set sls"

text \<open>Every operation sends only what its sender has by then.\<close>

fun informed :: "bcast_op list \<Rightarrow> (nat \<times> bcast_slot) set \<Rightarrow> bool" where
  "informed [] known = True"
| "informed (a # ops) known = (needs a \<subseteq> known \<and> informed ops (known \<union> learns a))"

definition learnt :: "bcast_op list \<Rightarrow> (nat \<times> bcast_slot) set" where
  "learnt ops = \<Union> (learns ` set ops)"

lemma learnt_simps [simp]:
  "learnt [] = {}" "learnt (a # ops) = learns a \<union> learnt ops" "learnt (ops @ ops') = learnt ops \<union> learnt ops'"
  "learnt (concat opss) = \<Union> (learnt ` set opss)"
  by (auto simp: learnt_def)

lemma informed_append [simp]: "informed (ops @ ops') known = (informed ops known \<and> informed ops' (known \<union> learnt ops))"
  by (induction ops arbitrary: known) (simp_all add: Un_assoc)

lemma informed_if_known: "(\<And>a. a \<in> set ops \<Longrightarrow> needs a \<subseteq> known) \<Longrightarrow> informed ops known"
proof (induction ops arbitrary: known)
  case (Cons a ops)
  have "informed ops (known \<union> learns a)" by (rule Cons.IH) (use Cons.prems in fastforce)
  with Cons.prems show ?case by simp
qed simp

lemma effect_known:
  assumes "\<forall>r sl. (r, sl) \<in> known \<longrightarrow> st r sl = val sl" "needs a \<subseteq> known"
  shows "\<forall>r sl. (r, sl) \<in> known \<union> learns a \<longrightarrow> op_effect a st r sl = val sl"
  using assms by (cases a) (auto simp: subset_iff)

lemma sequence_known:
  "\<forall>r sl. (r, sl) \<in> known \<longrightarrow> st r sl = val sl \<Longrightarrow> informed ops known \<Longrightarrow>
     \<forall>r sl. (r, sl) \<in> known \<union> learnt ops \<longrightarrow> in_sequence op_effect ops st r sl = val sl"
proof (induction ops arbitrary: known st)
  case (Cons a ops)
  then have "needs a \<subseteq> known" "informed ops (known \<union> learns a)" by simp_all
  from Cons.IH [OF effect_known [OF Cons.prems(1) this(1)] this(2)] show ?case by (simp add: Un_assoc)
qed simp

lemma init_learns [simp]: "learnt (init_group ready root others) = {}"
  and init_needs: "a \<in> set (init_group ready root others) \<Longrightarrow> needs a = {}"
  by (auto simp: init_group_def split: if_splits)

lemma learnt_map [simp]: "learnt (map f xs) = \<Union> ((\<lambda>x. learns (f x)) ` set xs)"
  by (auto simp: learnt_def)

lemma by_link_learns [simp]: "learnt (by_link ready slots l a b) = {b} \<times> set slots"
  and by_link_needs: "op \<in> set (by_link ready slots l a b) \<Longrightarrow> needs op \<subseteq> {a} \<times> set slots"
  by (auto simp: by_link_def dest: init_needs)

lemma repr_learns [simp]: "learnt (repr_collective ready accel src_rank reprs) = set reprs \<times> Slot ` set accel"
  and repr_needs: "op \<in> set (repr_collective ready accel src_rank reprs) \<Longrightarrow> needs op \<subseteq> {src_rank} \<times> UNIV"
  by (auto simp: repr_collective_def dest: init_needs)

lemma peer_copies_learns: "learnt (peer_copies ready slots g) = set (tl g) \<times> set slots"
  by (auto simp: peer_copies_def)

lemma peer_copies_needs: "op \<in> set (peer_copies ready slots g) \<Longrightarrow> needs op \<subseteq> {hd g} \<times> set slots"
  by (auto simp: peer_copies_def dest: by_link_needs)

text \<open>The source has everything from the start.\<close>

abbreviation source_knows :: "nat \<Rightarrow> (nat \<times> bcast_slot) set" where
  "source_knows src_rank \<equiv> {src_rank} \<times> UNIV"

lemma hybrid_informed:
  assumes "[] \<notin> set groups"
  shows "informed (hybrid_all ws src_rank cpu_mask ready same uncertain groups) (source_knows src_rank)"
proof -
  let ?slots = "map Slot (accel_slots cpu_mask)"
  have star: "informed (concat (map (by_link ready ?slots l src_rank) xs)) known" if "source_knows src_rank \<subseteq> known" for l xs known
    using that by (intro informed_if_known) (auto dest!: by_link_needs)
  have coll: "informed (if map hd groups \<noteq> [] then repr_collective ready (accel_slots cpu_mask) src_rank (map hd groups) else []) known"
    if "source_knows src_rank \<subseteq> known" for known
    using that by (auto intro!: informed_if_known dest!: repr_needs)
  have peers: "informed (concat (map (peer_copies ready ?slots) groups)) known"
    if "groups \<noteq> [] \<Longrightarrow> (hd ` set groups) \<times> set ?slots \<subseteq> known" for known
  proof (rule informed_if_known)
    fix a
    assume "a \<in> set (concat (map (peer_copies ready ?slots) groups))"
    then obtain g where "g \<in> set groups" "needs a \<subseteq> {hd g} \<times> set ?slots" by (auto dest: peer_copies_needs)
    with that show "needs a \<subseteq> known" by fastforce
  qed
  have cpu: "informed (map (\<lambda>i. Coll CPU src_rank others (Slot i)) is) known" if "source_knows src_rank \<subseteq> known" for others "is" known
    using that by (intro informed_if_known) auto
  show ?thesis
    unfolding hybrid_all_def Let_def informed_append
    by (intro conjI star coll peers cpu) auto
qed

lemma slots_split: "i < length cpu_mask \<Longrightarrow> i \<in> set (accel_slots cpu_mask) \<or> i \<in> set (cpu_slots cpu_mask)"
  by (auto simp: accel_slots_def cpu_slots_def)

lemma hybrid_learnt:
  assumes "classes_ok ws src_rank same uncertain groups" "r < length ws" "r \<noteq> src_rank" "i < length cpu_mask"
  shows "(r, Slot i) \<in> learnt (hybrid_all ws src_rank cpu_mask ready same uncertain groups)"
proof (cases "i \<in> set (cpu_slots cpu_mask)")
  case True
  with assms(2,3) show ?thesis by (auto simp: hybrid_all_def Let_def learnt_def set_receivers)
next
  case False
  then have i: "i \<in> set (accel_slots cpu_mask)" using slots_split assms(4) by blast
  have "r \<in> set (same @ uncertain @ concat groups)" using assms(1-3) unfolding classes_ok_def by blast
  then consider "r \<in> set same" | "r \<in> set uncertain" | g where "g \<in> set groups" "r \<in> set g" by auto
  then show ?thesis
  proof cases
    case (3 g)
    obtain x xs where g: "g = x # xs" using 3(2) by (cases g) auto
    with 3 have "x \<in> hd ` set groups" "\<exists>h \<in> set groups. set xs = set (tl h)" by force+
    with g 3 i show ?thesis by (auto simp: hybrid_all_def Let_def peer_copies_learns)
  qed (use i in \<open>auto simp: hybrid_all_def Let_def\<close>)
qed


lemma ring_informed_learnt:
  assumes "2 \<le> length (receivers_of ws src_rank)"
  shows "informed (ring_all ws src_rank cpu_mask ready) (source_knows src_rank)"
    and "r < length ws \<Longrightarrow> r \<noteq> src_rank \<Longrightarrow> i < length cpu_mask \<Longrightarrow> (r, Slot i) \<in> learnt (ring_all ws src_rank cpu_mask ready)"
proof -
  obtain first others where rs: "receivers_of ws src_rank = first # others"
    using assms by (cases "receivers_of ws src_rank") auto
  let ?send = "\<lambda>a b i. Transfer (Plain (tensor_device cpu_mask i)) a b [Slot i]"
  have step: "informed (?send src_rank first i # map (\<lambda>r. ?send first r i) others) known"
    if "source_knows src_rank \<subseteq> known" for i known
    using that by (simp, intro conjI informed_if_known) auto
  have steps: "informed (concat (map (\<lambda>i. ?send src_rank first i # map (\<lambda>r. ?send first r i) others) is)) known"
    if "source_knows src_rank \<subseteq> known" for "is" known
    using that
  proof (induction "is" arbitrary: known)
    case (Cons i "is")
    have "source_knows src_rank \<subseteq> known \<union> learnt (?send src_rank first i # map (\<lambda>r. ?send first r i) others)"
      using Cons.prems by blast
    from step [OF Cons.prems] Cons.IH [OF this] show ?case by (simp only: list.map concat.simps informed_append simp_thms)
  qed simp
  have inits: "informed (init_group ready a bs) known" "informed (concat (map (\<lambda>r. init_group ready a [r]) others)) known" for a bs known
    by (auto intro!: informed_if_known simp: init_needs)
  show "informed (ring_all ws src_rank cpu_mask ready) (source_knows src_rank)"
    by (simp add: ring_all_def rs Let_def inits steps del: informed.simps)
  show "(r, Slot i) \<in> learnt (ring_all ws src_rank cpu_mask ready)"
    if "r < length ws" "r \<noteq> src_rank" "i < length cpu_mask"
  proof -
    have "r \<in> set (receivers_of ws src_rank)" using that(1,2) by (simp add: set_receivers)
    with that(3) show ?thesis by (auto simp: ring_all_def rs Let_def)
  qed
qed

lemma fan_out_informed_learnt:
  shows "informed (fan_out_all ws src_rank cpu_mask ready) (source_knows src_rank)"
    and "r < length ws \<Longrightarrow> r \<noteq> src_rank \<Longrightarrow> i < length cpu_mask \<Longrightarrow> (r, Slot i) \<in> learnt (fan_out_all ws src_rank cpu_mask ready)"
  unfolding fan_out_all_def
  by (auto intro!: informed_if_known simp: set_receivers init_needs)

section \<open>Every worker gets every tensor\<close>

text \<open>The common list of a broadcast.\<close>

definition broadcast_all :: "member list \<Rightarrow> nat \<Rightarrow> bool option \<Rightarrow> bool list \<Rightarrow> (nat set \<Rightarrow> bool) \<Rightarrow> bcast_op list" where
  "broadcast_all ws src_rank use_ring cpu_mask ready =
     (let receivers = receivers_of ws src_rank;
          has_accel = (\<exists>m \<in> set cpu_mask. \<not> m);
          (same, uncertain, diff) = classify_broadcast_ranks ws src_rank;
          groups = group_ranks_by_device ws diff
      in map (Coll CPU src_rank receivers) [Size, Meta]
         @ (if should_use_ring_broadcast ws src_rank use_ring has_accel then ring_all ws src_rank cpu_mask ready
            else if \<not> has_accel then fan_out_all ws src_rank cpu_mask ready
            else if same = [] \<and> uncertain = [] \<and> concat (map tl groups) = []
            then map (\<lambda>i. Coll (tensor_device cpu_mask i) src_rank receivers (Slot i)) [0..<length cpu_mask]
            else hybrid_all ws src_rank cpu_mask ready same uncertain groups))"

lemma ring_needs_two: "should_use_ring_broadcast ws src_rank use_ring h \<Longrightarrow> 2 \<le> length (receivers_of ws src_rank)"
  by (auto simp: should_use_ring_broadcast_def Let_def split: prod.splits if_splits)

lemma project_full:
  assumes "r < length ws"
  shows "project op_parties (map (\<lambda>i. Coll (d i) src_rank (receivers_of ws src_rank) (f i)) is) r =
    map (\<lambda>i. Coll (d i) src_rank (receivers_of ws src_rank) (f i)) is"
  using assms by (intro project_all) (auto simp: set_receivers)

lemma broadcast_projection:
  assumes "src_rank < length ws" "r < length ws"
  shows "broadcast_tensor_list ws src_rank use_ring cpu_mask ready r =
    project op_parties (broadcast_all ws src_rank use_ring cpu_mask ready) r"
proof -
  obtain same uncertain diff where c: "classify_broadcast_ranks ws src_rank = (same, uncertain, diff)"
    by (cases "classify_broadcast_ranks ws src_rank")
  show ?thesis
    unfolding broadcast_tensor_list_def broadcast_all_def c Let_def prod.case project_simps(3)
      if_distrib [where f = "\<lambda>ops. project op_parties ops r"]
      project_full [OF assms(2), where f = id and d = "\<lambda>_. CPU", unfolded id_def] project_full [OF assms(2)]
      fan_out_projection hybrid_projection [OF classes_ok_classify [OF c] assms(2,1)]
    by (simp only: ring_projection [OF ring_needs_two assms(2)] cong: if_cong)
qed

text \<open>No operation concerns a worker outside the group.\<close>

definition within :: "member list \<Rightarrow> bcast_op list \<Rightarrow> bool" where
  "within ws ops \<longleftrightarrow> (\<forall>a \<in> set ops. op_parties a \<subseteq> {..<length ws})"

lemma within_simps [simp]:
  "within ws []" "within ws (a # ops) \<longleftrightarrow> op_parties a \<subseteq> {..<length ws} \<and> within ws ops"
  "within ws (ops @ ops') \<longleftrightarrow> within ws ops \<and> within ws ops'"
  "within ws (concat opss) \<longleftrightarrow> (\<forall>ops \<in> set opss. within ws ops)"
  "within ws (map f xs) \<longleftrightarrow> (\<forall>x \<in> set xs. op_parties (f x) \<subseteq> {..<length ws})"
  by (auto simp: within_def)

lemma within_parts:
  "insert a (set bs) \<subseteq> {..<length ws} \<Longrightarrow> within ws (init_group ready a bs)"
  "a < length ws \<Longrightarrow> b < length ws \<Longrightarrow> within ws (by_link ready slots l a b)"
  "a < length ws \<Longrightarrow> set bs \<subseteq> {..<length ws} \<Longrightarrow> within ws (repr_collective ready accel a bs)"
  by (auto simp: within_def dest!: init_parties by_link_parties repr_parties)

lemma within_hybrid:
  assumes ok: "classes_ok ws src_rank same uncertain groups" and src: "src_rank < length ws"
  shows "within ws (hybrid_all ws src_rank cpu_mask ready same uncertain groups)"
proof -
  have all: "set (same @ uncertain @ concat groups) \<subseteq> {..<length ws}" and nonempty: "[] \<notin> set groups"
    using ok unfolding classes_ok_def by blast+
  then have ranks: "set same \<subseteq> {..<length ws}" "set uncertain \<subseteq> {..<length ws}"
    "set (concat groups) \<subseteq> {..<length ws}" by simp_all
  have group: "set g \<subseteq> {..<length ws} \<and> g \<noteq> []" if "g \<in> set groups" for g
    using that ranks(3) nonempty by auto
  have heads: "set (map hd groups) \<subseteq> {..<length ws}"
  proof
    fix x
    assume "x \<in> set (map hd groups)"
    then obtain g where "g \<in> set groups" "x = hd g" by auto
    with group [of g] show "x \<in> {..<length ws}" by (cases g) auto
  qed
  have peers: "within ws (peer_copies ready slots g)" if "g \<in> set groups" for g slots
    using group [OF that] by (cases g) (auto simp: peer_copies_def intro!: within_parts)
  have links: "within ws (concat (map (by_link ready slots l src_rank) xs))" if "set xs \<subseteq> {..<length ws}" for slots l xs
    using src that by (auto intro!: within_parts)
  have coll: "within ws (repr_collective ready accel src_rank (map hd groups))" for accel
    by (rule within_parts(3) [OF src heads])
  have copies: "within ws (concat (map (peer_copies ready slots) groups))" for slots
    using peers by simp
  have cpu: "within ws (map (\<lambda>i. Coll CPU src_rank (receivers_of ws src_rank) (Slot i)) is)" for "is"
    using src by (auto simp: set_receivers)
  show ?thesis
    unfolding hybrid_all_def Let_def within_simps(3)
    using links [OF ranks(1)] links [OF ranks(2)] coll copies cpu by (simp only: within_simps(1) simp_thms split: if_split)
qed

lemma within_if: "(c \<Longrightarrow> within ws x) \<Longrightarrow> (\<not> c \<Longrightarrow> within ws y) \<Longrightarrow> within ws (if c then x else y)"
  by simp

lemma within_full:
  "src_rank < length ws \<Longrightarrow> within ws (map (\<lambda>i. Coll (d i) src_rank (receivers_of ws src_rank) (f i)) is)"
  by (auto simp: set_receivers)

lemma within_broadcast:
  assumes src: "src_rank < length ws"
  shows "within ws (broadcast_all ws src_rank use_ring cpu_mask ready)"
proof -
  obtain same uncertain diff where c: "classify_broadcast_ranks ws src_rank = (same, uncertain, diff)"
    by (cases "classify_broadcast_ranks ws src_rank")
  have fan: "within ws (fan_out_all ws src_rank cpu_mask ready)"
    using src by (auto simp: fan_out_all_def set_receivers intro!: within_parts)
  have ring: "within ws (ring_all ws src_rank cpu_mask ready)" if two: "2 \<le> length (receivers_of ws src_rank)"
  proof -
    obtain first others where rs: "receivers_of ws src_rank = first # others"
      using two by (cases "receivers_of ws src_rank") auto
    then have "first < length ws" "\<forall>r \<in> set others. r < length ws"
      using set_receivers [of ws src_rank] by auto
    with src show ?thesis by (auto simp: ring_all_def rs Let_def intro!: within_parts)
  qed
  have hybrid: "within ws (hybrid_all ws src_rank cpu_mask ready same uncertain (group_ranks_by_device ws diff))"
    by (rule within_hybrid [OF classes_ok_classify [OF c] src])
  have meta: "within ws (map (Coll CPU src_rank (receivers_of ws src_rank)) [Size, Meta])"
    by (rule within_full [OF src])
  show ?thesis
    unfolding broadcast_all_def c Let_def prod.case within_simps(3)
    by (intro conjI meta within_if within_full [OF src] fan ring hybrid) (rule ring_needs_two)
qed

lemma programs_projection:
  assumes "src_rank < length ws"
  shows "broadcast_programs ws src_rank use_ring cpu_mask ready =
    project op_parties (broadcast_all ws src_rank use_ring cpu_mask ready)"
proof
  fix r
  show "broadcast_programs ws src_rank use_ring cpu_mask ready r =
      project op_parties (broadcast_all ws src_rank use_ring cpu_mask ready) r"
  proof (cases "r < length ws")
    case True
    then show ?thesis by (simp add: broadcast_programs_def broadcast_projection [OF assms])
  next
    case False
    with within_broadcast [OF assms, of use_ring cpu_mask ready]
    have "project op_parties (broadcast_all ws src_rank use_ring cpu_mask ready) r = []"
      by (intro project_none) (auto simp: within_def)
    with False show ?thesis by (simp add: broadcast_programs_def)
  qed
qed


lemma informed_mono: "informed ops known \<Longrightarrow> known \<subseteq> known' \<Longrightarrow> informed ops known'"
proof (induction ops arbitrary: known known')
  case (Cons a ops)
  then show ?case by (auto intro: Cons.IH [of "known \<union> learns a"])
qed simp

lemma broadcast_informed: "informed (broadcast_all ws src_rank use_ring cpu_mask ready) (source_knows src_rank)"
proof -
  obtain same uncertain diff where c: "classify_broadcast_ranks ws src_rank = (same, uncertain, diff)"
    by (cases "classify_broadcast_ranks ws src_rank")
  note ok = classes_ok_classify [OF c]
  have meta: "informed (map (Coll CPU src_rank others) [Size, Meta]) (source_knows src_rank)" for others
    by simp
  have full: "informed (map (\<lambda>i. Coll (d i) src_rank others (Slot i)) is) (source_knows src_rank)" for d others "is"
    by (rule informed_if_known) auto
  have body: "informed (if should_use_ring_broadcast ws src_rank use_ring h then ring_all ws src_rank cpu_mask ready
      else if \<not> h then fan_out_all ws src_rank cpu_mask ready
      else if e then map (\<lambda>i. Coll (tensor_device cpu_mask i) src_rank (receivers_of ws src_rank) (Slot i)) [0..<length cpu_mask]
      else hybrid_all ws src_rank cpu_mask ready same uncertain (group_ranks_by_device ws diff)) (source_knows src_rank)" for h e
    using ring_informed_learnt(1) [OF ring_needs_two] fan_out_informed_learnt(1) hybrid_informed
      full ok by (simp add: classes_ok_def)
  show ?thesis
    unfolding broadcast_all_def c Let_def prod.case informed_append
    by (intro conjI meta informed_mono [OF body] Un_upper1)
qed

lemma broadcast_learnt:
  assumes "r < length ws" "r \<noteq> src_rank" "i < length cpu_mask"
  shows "(r, Slot i) \<in> learnt (broadcast_all ws src_rank use_ring cpu_mask ready)"
proof -
  obtain same uncertain diff where c: "classify_broadcast_ranks ws src_rank = (same, uncertain, diff)"
    by (cases "classify_broadcast_ranks ws src_rank")
  have full: "(r, Slot i) \<in> learnt (map (\<lambda>i. Coll (d i) src_rank (receivers_of ws src_rank) (Slot i)) [0..<length cpu_mask])" for d
    using assms by (auto simp: set_receivers)
  have body: "(r, Slot i) \<in> learnt (if should_use_ring_broadcast ws src_rank use_ring h then ring_all ws src_rank cpu_mask ready
      else if \<not> h then fan_out_all ws src_rank cpu_mask ready
      else if e then map (\<lambda>i. Coll (tensor_device cpu_mask i) src_rank (receivers_of ws src_rank) (Slot i)) [0..<length cpu_mask]
      else hybrid_all ws src_rank cpu_mask ready same uncertain (group_ranks_by_device ws diff))" for h e
    using ring_informed_learnt(2) [OF ring_needs_two assms] fan_out_informed_learnt(2) [OF assms]
      hybrid_learnt [OF classes_ok_classify [OF c] assms] full by (simp del: learnt_map)
  show ?thesis
    unfolding broadcast_all_def c Let_def prod.case learnt_simps by (intro UnI2 body)
qed

text \<open>C10. A broadcast ends on every interleaving of the workers, for every
  placement of the workers on nodes and devices, every mixture of CPU and
  accelerator tensors, with or without the ring, and whatever sub-groups are
  already initialised: no worker waits for another in a cycle, every worker
  carries out its whole program, and every worker then has every tensor of
  the source.\<close>

theorem broadcast_reaches_all:
  assumes "src_rank < length ws"
  shows "inevitable (joint_step op_parties op_effect)
    (\<lambda>(progs, st'). (\<forall>r. progs r = []) \<and>
       (\<forall>r < length ws. \<forall>i < length cpu_mask. st' r (Slot i) = st src_rank (Slot i)))
    (broadcast_programs ws src_rank use_ring cpu_mask ready, st)"
proof -
  let ?ops = "broadcast_all ws src_rank use_ring cpu_mask ready"
  have known: "\<forall>r sl. (r, sl) \<in> source_knows src_rank \<union> learnt ?ops \<longrightarrow>
      in_sequence op_effect ?ops st r sl = st src_rank sl"
    by (rule sequence_known [OF _ broadcast_informed]) simp
  have "in_sequence op_effect ?ops st r (Slot i) = st src_rank (Slot i)" if "r < length ws" "i < length cpu_mask" for r i
    using known broadcast_learnt [OF that(1) _ that(2)] by (cases "r = src_rank") auto
  then show ?thesis
    unfolding programs_projection [OF assms]
    by (intro inevitable_mono [OF bcast.projection_inevitable]) auto
qed

definition card :: "int \<Rightarrow> int list \<Rightarrow> string \<Rightarrow> member" where
  "card node ids model = \<lparr>node_rank = node, accelerators = ids, uuid = (\<lambda>_. None), current = 0,
     accelerator_type = ''GPU'', accelerator_model = model\<rparr>"

text \<open>
  The source shares a device with worker 1 and, perhaps, with worker 2; workers
  3 and 4 share another device.
\<close>

theorem broadcast_reaches_all_witness:
  "inevitable (joint_step op_parties op_effect)
    (\<lambda>(progs, st'). (\<forall>r. progs r = []) \<and> map (\<lambda>r. map (\<lambda>i. st' r (Slot i)) [0, 1]) [0..<5] = replicate 5 [Some 7, Some 8])
    (broadcast_programs [card 0 [0] ''A'', card 0 [0] ''A'', card 0 [0, 1] ''A'', card 1 [0] ''B'', card 1 [0] ''B'']
       0 None [True, False] (\<lambda>_. False),
     (\<lambda>r sl. if r = 0 then (case sl of Slot i \<Rightarrow> Some (7 + int i) | _ \<Rightarrow> None) else None)) \<and>
   broadcast_programs [card 0 [0] ''A'', card 0 [0] ''A'', card 0 [0, 1] ''A'', card 1 [0] ''B'', card 1 [0] ''B'']
       0 None [True, False] (\<lambda>_. False) 3 =
     [Coll CPU 0 [1, 2, 3, 4] Size, Coll CPU 0 [1, 2, 3, 4] Meta, Init 0 [3], Coll ACCEL 0 [3] (Slot 1),
      Init 3 [4], Transfer Ipc 3 4 [Slot 1], Coll CPU 0 [1, 2, 3, 4] (Slot 0)]"
proof
  let ?ws = "[card 0 [0] ''A'', card 0 [0] ''A'', card 0 [0, 1] ''A'', card 1 [0] ''B'', card 1 [0] ''B'']"
  let ?st = "\<lambda>r sl. if r = 0 then (case sl of Slot i \<Rightarrow> Some (7 + int i) | _ \<Rightarrow> None) else None"
  have "0 < length ?ws" by simp
  from broadcast_reaches_all [OF this, where cpu_mask = "[True, False]" and st = ?st and use_ring = None and ready = "\<lambda>_. False"]
  show "inevitable (joint_step op_parties op_effect)
    (\<lambda>(progs, st'). (\<forall>r. progs r = []) \<and> map (\<lambda>r. map (\<lambda>i. st' r (Slot i)) [0, 1]) [0..<5] = replicate 5 [Some 7, Some 8])
    (broadcast_programs ?ws 0 None [True, False] (\<lambda>_. False), ?st)"
    by (rule inevitable_mono) (auto simp: eval_nat_numeral)
  show "broadcast_programs ?ws 0 None [True, False] (\<lambda>_. False) 3 =
     [Coll CPU 0 [1, 2, 3, 4] Size, Coll CPU 0 [1, 2, 3, 4] Meta, Init 0 [3], Coll ACCEL 0 [3] (Slot 1),
      Init 3 [4], Transfer Ipc 3 4 [Slot 1], Coll CPU 0 [1, 2, 3, 4] (Slot 0)]"
    by code_simp
qed

end
