(* ===== verification/Broadcast_Devices.thy ===== *)
theory Broadcast_Devices
  imports Broadcast
begin

text \<open>
  Which accelerators meet in the operations of a broadcast
  (\<^verbatim>\<open>rlinf/scheduler/collective/collective_group.py\<close>): the groups of
  \<open>_group_ranks_by_device\<close> keep two workers on one accelerator out of the same
  collective, provided that every worker has one accelerator.
\<close>

section \<open>Which accelerators meet in one operation\<close>

text \<open>Operations of the accelerator library; IPC and the device exchange handle equal devices themselves.\<close>

fun uses_accelerators :: "bcast_op \<Rightarrow> bool" where
  "uses_accelerators (Coll s root others sl) = (s = ACCEL)"
| "uses_accelerators (Transfer l a b sls) = (l = Plain ACCEL)"
| "uses_accelerators (Init root others) = False"

definition device_key :: "member list \<Rightarrow> nat \<Rightarrow> int \<times> int" where
  "device_key ws r = (node_rank (ws ! r), accelerators (ws ! r) ! 0)"

definition keyed :: "member list \<Rightarrow> ((int \<times> int) \<times> nat list) list \<Rightarrow> bool" where
  "keyed ws groups \<longleftrightarrow> distinct (map fst groups) \<and> (\<forall>(k, ranks) \<in> set groups. ranks \<noteq> [] \<and> (\<forall>r \<in> set ranks. device_key ws r = k))"

lemma keys_append_to_group:
  "fst ` set (append_to_group key rank groups) = insert key (fst ` set groups)"
  by (induction key rank groups rule: append_to_group.induct) auto

lemma keyed_append: "keyed ws groups \<Longrightarrow> keyed ws (append_to_group (device_key ws rank) rank groups)"
proof (induction groups)
  case (Cons g groups)
  obtain k ranks where g: "g = (k, ranks)" by (cases g)
  with Cons have "keyed ws (append_to_group (device_key ws rank) rank groups)" by (simp add: keyed_def)
  with Cons.prems show ?case by (auto simp: g keyed_def keys_append_to_group)
qed (simp add: keyed_def)

lemma keyed_heads: "keyed ws groups \<Longrightarrow> map (device_key ws \<circ> hd) (map snd groups) = map fst groups"
  by (auto simp: keyed_def)

lemma group_loop_heads:
  assumes "\<forall>r \<in> set ranks. length (accelerators (ws ! r)) = 1" "keyed ws groups"
  shows "distinct (map (device_key ws \<circ> hd) (group_loop ws ranks groups []))"
  using assms
proof (induction ranks arbitrary: groups)
  case Nil
  have "group_loop ws [] groups [] = map snd groups" by simp
  then show ?case using keyed_heads [OF Nil(2)] Nil(2) by (simp only: keyed_def)
next
  case (Cons rank ranks)
  then obtain a where a: "accelerators (ws ! rank) = [a]" by (auto simp: length_Suc_conv)
  then have "(node_rank (ws ! rank), a) = device_key ws rank" by (simp add: device_key_def)
  with Cons a keyed_append [OF Cons.prems(2), of rank] show ?case by simp
qed

lemma distinct_heads:
  "\<forall>r \<in> set ranks. length (accelerators (ws ! r)) = 1 \<Longrightarrow>
     distinct (map (device_key ws \<circ> hd) (group_ranks_by_device ws ranks))"
  unfolding group_ranks_by_device_def by (rule group_loop_heads) (simp_all add: keyed_def)

lemma classified_keys:
  assumes c: "classify_broadcast_ranks ws src_rank = (same, uncertain, diff)"
    and one: "\<forall>w \<in> set ws. length (accelerators w) = 1" and src: "src_rank < length ws"
  shows "\<And>r. r \<in> set diff \<Longrightarrow> device_key ws r \<noteq> device_key ws src_rank"
    and "distinct (map (device_key ws) (src_rank # map hd (group_ranks_by_device ws diff)))"
    and "distinct diff" "set diff \<subseteq> set (receivers_of ws src_rank)"
proof -
  have diff: "diff = filter (\<lambda>i. device_relation (ws ! src_rank) (ws ! i) = Different_Device) (receivers_of ws src_rank)"
    using c by (simp add: classify_broadcast_ranks_def)
  then show "distinct diff" "set diff \<subseteq> set (receivers_of ws src_rank)" by auto
  have single: "\<exists>a. accelerators (ws ! r) = [a]" if "r < length ws" for r
    using one that by (auto simp: length_Suc_conv)
  show key: "device_key ws r \<noteq> device_key ws src_rank" if "r \<in> set diff" for r
  proof -
    have r: "r < length ws" "device_relation (ws ! src_rank) (ws ! r) = Different_Device"
      using that by (auto simp: diff set_receivers)
    obtain a b where "accelerators (ws ! r) = [a]" "accelerators (ws ! src_rank) = [b]"
      using single [OF r(1)] single [OF src] by blast
    with r(2) show ?thesis by (auto simp: device_relation_def device_key_def split: if_splits)
  qed
  have "\<forall>r \<in> set diff. length (accelerators (ws ! r)) = 1"
    using one by (auto simp: diff set_receivers)
  then have "distinct (map (device_key ws \<circ> hd) (group_ranks_by_device ws diff))" by (rule distinct_heads)
  moreover have "hd g \<in> set diff" if "g \<in> set (group_ranks_by_device ws diff)" for g
    using groups_partition [OF \<open>distinct diff\<close>, of ws] that by (metis UN_I hd_in_set set_concat)
  ultimately show "distinct (map (device_key ws) (src_rank # map hd (group_ranks_by_device ws diff)))"
    using key by fastforce
qed

text \<open>With no receivers on the device of the source or of each other, all devices differ.\<close>

lemma all_devices_differ:
  assumes c: "classify_broadcast_ranks ws src_rank = ([], [], diff)"
    and one: "\<forall>w \<in> set ws. length (accelerators w) = 1" and src: "src_rank < length ws"
    and alone: "\<forall>g \<in> set (group_ranks_by_device ws diff). tl g = []"
  shows "inj_on (device_key ws) (insert src_rank (set (receivers_of ws src_rank)))"
proof -
  let ?groups = "group_ranks_by_device ws diff"
  note ks = classified_keys [OF c one src] and parts = groups_partition [OF classified_keys(3) [OF c one src], of ws]
  have "set (map hd ?groups) = set diff"
  proof -
    have "g = [hd g]" if "g \<in> set ?groups" for g
    proof (cases g)
      case (Cons x xs)
      with that alone show ?thesis by fastforce
    qed (use that parts(3) in simp)
    then have "set g = {hd g}" if "g \<in> set ?groups" for g using that by (metis list.simps(15) empty_set)
    then have "hd ` set ?groups = (\<Union>g \<in> set ?groups. set g)" by auto
    then show ?thesis using parts(2) by simp
  qed
  moreover have "set (receivers_of ws src_rank) \<subseteq> set diff"
    using classes_ok_classify [OF c] parts(2) by (simp add: classes_ok_def set_receivers)
  ultimately have "set (src_rank # map hd ?groups) = insert src_rank (set (receivers_of ws src_rank))"
    using ks(4) by auto
  moreover have "inj_on (device_key ws) (set (src_rank # map hd ?groups))"
    using ks(2) by (simp only: distinct_map)
  ultimately show ?thesis by simp
qed


lemma no_uncertain:
  assumes "classify_broadcast_ranks ws src_rank = (same, uncertain, diff)"
    and "\<forall>w \<in> set ws. length (accelerators w) = 1" "src_rank < length ws"
  shows "uncertain = []"
  using assms by (auto simp: classify_broadcast_ranks_def filter_empty_conv set_receivers device_relation_def split: if_splits)

lemma within_receivers:
  "a \<in> set (ring_all ws src_rank cpu_mask ready) \<Longrightarrow> 2 \<le> length (receivers_of ws src_rank) \<Longrightarrow>
     op_parties a \<subseteq> insert src_rank (set (receivers_of ws src_rank))"
  by (cases "receivers_of ws src_rank") (auto simp: ring_all_def Let_def dest!: init_parties)

lemma ring_accel_slot:
  assumes "a \<in> set (ring_all ws src_rank cpu_mask ready)" "uses_accelerators a"
  shows "\<exists>m \<in> set cpu_mask. \<not> m"
proof (rule ccontr)
  assume "\<not> ?thesis"
  then have cpu: "tensor_device cpu_mask i = CPU" if "i < length cpu_mask" for i
    using that by (auto simp: tensor_device_def)
  have "\<not> uses_accelerators b" if "b \<in> set (init_group ready x ys)" for b x ys
    using that by (auto simp: init_group_def split: if_splits)
  with assms cpu show False unfolding ring_all_def Let_def by auto
qed

lemma hybrid_accel_op:
  "a \<in> set (hybrid_all ws src_rank cpu_mask ready same uncertain groups) \<Longrightarrow> uses_accelerators a \<Longrightarrow>
     op_parties a = insert src_rank (hd ` set groups)"
  by (auto simp: hybrid_all_def Let_def by_link_def repr_collective_def peer_copies_def init_group_def split: if_splits)

text \<open>C16. When every worker has one accelerator, no operation of a broadcast that goes
  through the accelerator library (a collective, or a plain send between two
  workers on the ring) has two workers on the same accelerator, which the library
  would refuse; receivers that share a device with the source or with each other
  are served through IPC handles.\<close>

theorem collectives_avoid_shared_accelerators:
  assumes one: "\<forall>w \<in> set ws. length (accelerators w) = 1" and src: "src_rank < length ws"
    and a: "a \<in> set (broadcast_programs ws src_rank use_ring cpu_mask ready r)" "uses_accelerators a"
  shows "inj_on (device_key ws) (op_parties a)"
proof -
  obtain same uncertain diff where c: "classify_broadcast_ranks ws src_rank = (same, uncertain, diff)"
    by (cases "classify_broadcast_ranks ws src_rank")
  let ?groups = "group_ranks_by_device ws diff" and ?h = "\<exists>m \<in> set cpu_mask. \<not> m"
  have all: "a \<in> set (broadcast_all ws src_rank use_ring cpu_mask ready)"
    using a(1) by (simp add: programs_projection [OF src] project_def)
  have differ: "inj_on (device_key ws) (insert src_rank (set (receivers_of ws src_rank)))"
    if "same = []" "\<forall>g \<in> set ?groups. tl g = []"
    using all_devices_differ [of ws src_rank diff] c one src that no_uncertain [OF c one src] by simp
  show ?thesis
  proof (cases "should_use_ring_broadcast ws src_rank use_ring ?h")
    case True
    then have ring: "a \<in> set (ring_all ws src_rank cpu_mask ready)"
      using all a(2) by (auto simp: broadcast_all_def c Let_def)
    then have "?h" using ring_accel_slot a(2) by blast
    with True have "same = []" "\<forall>g \<in> set ?groups. \<not> 1 < length g"
      by (auto simp: should_use_ring_broadcast_def c Let_def list_ex_iff split: if_splits)
    moreover have "tl g = []" if "\<not> 1 < length g" for g :: "nat list"
      using that by (cases g) auto
    ultimately show ?thesis
      using differ within_receivers [OF ring ring_needs_two [OF True]] by (blast intro: inj_on_subset)
  next
    case False
    let ?full = "map (\<lambda>i. Coll (tensor_device cpu_mask i) src_rank (receivers_of ws src_rank) (Slot i)) [0..<length cpu_mask]"
    have "a \<notin> set (map (Coll CPU src_rank (receivers_of ws src_rank)) [Size, Meta])" using a(2) by auto
    moreover have "a \<notin> set (fan_out_all ws src_rank cpu_mask ready)"
      using a(2) by (auto simp: fan_out_all_def init_group_def split: if_splits)
    ultimately have "a \<in> set (if same = [] \<and> uncertain = [] \<and> concat (map tl ?groups) = [] then ?full
        else hybrid_all ws src_rank cpu_mask ready same uncertain ?groups)"
      using all False unfolding broadcast_all_def c Let_def prod.case set_append
      by (cases ?h) (simp_all only: if_False if_True simp_thms Un_iff)
    then consider "same = []" "\<forall>g \<in> set ?groups. tl g = []" "op_parties a \<subseteq> insert src_rank (set (receivers_of ws src_rank))"
      | "a \<in> set (hybrid_all ws src_rank cpu_mask ready same uncertain ?groups)"
      by (auto split: if_splits)
    then show ?thesis
    proof cases
      case 1
      then show ?thesis using differ by (blast intro: inj_on_subset)
    next
      case 2
      have "inj_on (device_key ws) (set (src_rank # map hd ?groups))"
        using classified_keys(2) [OF c one src] by (simp only: distinct_map)
      with hybrid_accel_op [OF 2 a(2)] show ?thesis by simp
    qed
  qed
qed

theorem collectives_avoid_shared_accelerators_witness:
  "inj_on (device_key [card 0 [0] ''A'', card 0 [1] ''A'', card 0 [1] ''A'']) {0, 1}"
proof -
  let ?ws = "[card 0 [0] ''A'', card 0 [1] ''A'', card 0 [1] ''A'']"
  have "\<forall>w \<in> set ?ws. length (accelerators w) = 1" "0 < length ?ws" by (simp_all add: card_def)
  moreover have "Coll ACCEL 0 [1] (Slot 0) \<in> set (broadcast_programs ?ws 0 None [False] (\<lambda>_. True) 0)" by code_simp
  ultimately show ?thesis
    using collectives_avoid_shared_accelerators [of ?ws 0 "Coll ACCEL 0 [1] (Slot 0)" None "[False]" "\<lambda>_. True" 0] by simp
qed

text \<open>
  With several accelerators per worker this fails: two workers that share a
  device but not with the source stay in groups of their own, and both join the
  collective.
\<close>

lemma shared_accelerator_in_collective:
  "broadcast_programs [card 0 [0] ''A'', card 0 [1, 2] ''A'', card 0 [1, 3] ''A''] 0 None [False] (\<lambda>_. True) 1 =
     [Coll CPU 0 [1, 2] Size, Coll CPU 0 [1, 2] Meta, Coll ACCEL 0 [1, 2] (Slot 0)]"
  by code_simp

text \<open>Without the option the ring is never chosen, whatever the groups of the receivers.\<close>

lemma ring_only_on_request: "should_use_ring_broadcast ws src_rank use_ring h \<Longrightarrow> use_ring = Some True"
  by (auto simp: should_use_ring_broadcast_def Let_def split: prod.splits if_splits)

end
