(* ===== verification/Tensor_Dict.thy ===== *)
theory Tensor_Dict
  imports Py_Prelude "HOL-Library.AList"
begin

text \<open>
  Nested dictionaries of tensors, as the replay buffer keeps them: the recursive
  walks over them in \<^verbatim>\<open>rlinf/data/storage/replay/buffer.py\<close>, and the operations
  of torch these use.

  torch is not part of the repository: its operations are the fields of
  \<open>torch_ops\<close>, an argument of the definitions, and \<open>torch_laws\<close> states what its
  documentation promises of them in terms of the rows of a tensor (its slices
  along the first dimension) and of its kind (the other dimensions, the data
  type and the device).
\<close>

section \<open>Nested dictionaries\<close>

datatype ('t, 'v) tnode =
    NTensor 't
  | NDict "(string \<times> ('t, 'v) tnode) list"
  | NOther 'v

type_synonym ('t, 'v) titems = "(string \<times> ('t, 'v) tnode) list"

text \<open>The tensor at a path of keys; two dictionaries with the same tensors at the same paths are alike.\<close>

fun leaf :: "('t, 'v) tnode \<Rightarrow> string list \<Rightarrow> 't option" where
  "leaf (NTensor t) [] = Some t"
| "leaf (NDict kvs) (k # p) = (case map_of kvs k of None \<Rightarrow> None | Some n \<Rightarrow> leaf n p)"
| "leaf _ _ = None"

abbreviation leaf_at :: "('t, 'v) titems \<Rightarrow> string list \<Rightarrow> 't option" where
  "leaf_at kvs \<equiv> leaf (NDict kvs)"

fun tensors_only :: "('t, 'v) titems \<Rightarrow> bool" where
  "tensors_only [] = True"
| "tensors_only ((k, NTensor t) # r) = (k \<notin> fst ` set r \<and> tensors_only r)"
| "tensors_only ((k, NDict kvs) # r) =
     (k \<notin> fst ` set r \<and> kvs \<noteq> [] \<and> tensors_only kvs \<and> tensors_only r)"
| "tensors_only ((k, NOther v) # r) = False"

lemma leaf_at_Nil [simp]: "leaf_at kvs [] = None"
  by (cases kvs) auto

lemma leaf_at_empty [simp]: "leaf_at [] p = None"
  by (cases p) auto

lemma leaf_at_Cons:
  "leaf_at ((k, n) # r) p = (case p of [] \<Rightarrow> None | h # q \<Rightarrow> if h = k then leaf n q else leaf_at r p)"
  by (auto split: list.splits)

lemma leaf_at_update:
  "leaf_at (AList.update k n r) p = (case p of [] \<Rightarrow> None | h # q \<Rightarrow> if h = k then leaf n q else leaf_at r p)"
  by (auto simp: update_conv split: list.splits)

lemma leaf_NOther [simp]: "leaf (NOther v) p = None"
  by (cases p) auto

lemma leaf_at_fresh: "k \<notin> fst ` set r \<Longrightarrow> leaf_at r (k # p) = None"
  by (auto split: option.splits dest: map_of_SomeD intro: rev_image_eqI)

lemma leaf_NTensor [simp]: "leaf (NTensor t) p = (if p = [] then Some t else None)"
  by (cases p) auto

lemma tensors_only_lookup:
  "tensors_only kvs \<Longrightarrow> map_of kvs k = Some n \<Longrightarrow>
     (\<exists>t. n = NTensor t) \<or> (\<exists>sub. n = NDict sub \<and> sub \<noteq> [] \<and> tensors_only sub)"
  by (induction kvs rule: tensors_only.induct) (auto split: if_splits)

lemma tensors_only_update:
  "tensors_only kvs \<Longrightarrow> (\<exists>t. n = NTensor t) \<or> (\<exists>sub. n = NDict sub \<and> sub \<noteq> [] \<and> tensors_only sub) \<Longrightarrow>
     tensors_only (AList.update k n kvs)"
  by (induction kvs rule: tensors_only.induct) (auto simp: dom_update)

lemma tensors_only_leaf: "tensors_only kvs \<Longrightarrow> kvs \<noteq> [] \<Longrightarrow> \<exists>p t. leaf_at kvs p = Some t"
proof (induction kvs rule: tensors_only.induct)
  case (2 k t r)
  have "leaf_at ((k, NTensor t) # r) [k] = Some t" by simp
  then show ?case by blast
next
  case (3 k kvs r)
  then obtain p t where "leaf_at kvs p = Some t" by auto
  then have "leaf_at ((k, NDict kvs) # r) (k # p) = Some t" by simp
  then show ?case by blast
qed auto

text \<open>What a tensor at a path says about the entry of the first key.\<close>

lemma leaf_single:
  assumes "leaf_at kvs [k] = Some u"
  shows "map_of kvs k = Some (NTensor u)"
proof -
  from assms obtain n where "map_of kvs k = Some n" "leaf n [] = Some u"
    by (auto split: option.splits)
  then show ?thesis by (cases n) auto
qed

lemma leaf_nested:
  assumes "leaf_at kvs (k # p) = Some u" "p \<noteq> []"
  shows "\<exists>sub. map_of kvs k = Some (NDict sub) \<and> leaf_at sub p = Some u"
proof -
  from assms obtain n where "map_of kvs k = Some n" "leaf n p = Some u"
    by (auto split: option.splits)
  with assms(2) show ?thesis by (cases n; cases p) auto
qed

section \<open>Operations of torch\<close>

text \<open>
  \<open>t_rows\<close> and \<open>t_kind\<close> only describe tensors; the code uses \<open>shape[0]\<close>
  (\<open>t_shape0\<close>), \<open>torch.empty\<close> with the other dimensions, type and device of a
  given tensor (\<open>t_empty\<close>), \<open>b[s:e] = v\<close> (\<open>t_store\<close>), \<open>t[s:e]\<close> (\<open>t_cut\<close>),
  \<open>t.index_select(0, is)\<close> (\<open>t_select\<close>), \<open>b[is] = v\<close> (\<open>t_scatter\<close>) and
  \<open>torch.cat(ts, dim=0)\<close> (\<open>t_concat\<close>).
\<close>

record ('t, 'r, 'k) torch_ops =
  t_rows :: "'t \<Rightarrow> 'r list"
  t_kind :: "'t \<Rightarrow> 'k"
  t_shape0 :: "'t \<Rightarrow> nat"
  t_empty :: "nat \<Rightarrow> 't \<Rightarrow> 't"
  t_store :: "'t \<Rightarrow> nat \<Rightarrow> nat \<Rightarrow> 't \<Rightarrow> 't res"
  t_cut :: "'t \<Rightarrow> nat \<Rightarrow> nat \<Rightarrow> 't"
  t_select :: "'t \<Rightarrow> nat list \<Rightarrow> 't res"
  t_scatter :: "'t \<Rightarrow> nat list \<Rightarrow> 't \<Rightarrow> 't res"
  t_concat :: "'t list \<Rightarrow> 't res"

definition put_rows :: "'r list \<Rightarrow> nat list \<Rightarrow> 'r list \<Rightarrow> 'r list" where
  "put_rows b is v = fold (\<lambda>(i, x) b. b[i := x]) (zip is v) b"

definition torch_laws :: "('t, 'r, 'k) torch_ops \<Rightarrow> bool" where
  "torch_laws ops \<longleftrightarrow>
     (\<forall>t. t_shape0 ops t = length (t_rows ops t)) \<and>
     (\<forall>n t. t_kind ops (t_empty ops n t) = t_kind ops t \<and> length (t_rows ops (t_empty ops n t)) = n) \<and>
     (\<forall>b s e v. t_kind ops v = t_kind ops b \<and> s \<le> e \<and> e \<le> length (t_rows ops b) \<and> length (t_rows ops v) = e - s \<longrightarrow>
        (\<exists>c. t_store ops b s e v = Inr c \<and> t_kind ops c = t_kind ops b \<and>
             t_rows ops c = take s (t_rows ops b) @ t_rows ops v @ drop e (t_rows ops b))) \<and>
     (\<forall>t s e. t_kind ops (t_cut ops t s e) = t_kind ops t \<and>
        t_rows ops (t_cut ops t s e) = take (e - s) (drop s (t_rows ops t))) \<and>
     (\<forall>t is. (\<forall>i \<in> set is. i < length (t_rows ops t)) \<longrightarrow>
        (\<exists>c. t_select ops t is = Inr c \<and> t_kind ops c = t_kind ops t \<and>
             t_rows ops c = map (\<lambda>i. t_rows ops t ! i) is)) \<and>
     (\<forall>b is v. t_kind ops v = t_kind ops b \<and> length (t_rows ops v) = length is \<and> distinct is \<and>
               (\<forall>i \<in> set is. i < length (t_rows ops b)) \<longrightarrow>
        (\<exists>c. t_scatter ops b is v = Inr c \<and> t_kind ops c = t_kind ops b \<and>
             t_rows ops c = put_rows (t_rows ops b) is (t_rows ops v))) \<and>
     (\<forall>t ts. (\<forall>u \<in> set ts. t_kind ops u = t_kind ops t) \<longrightarrow>
        (\<exists>c. t_concat ops (t # ts) = Inr c \<and> t_kind ops c = t_kind ops t \<and>
             t_rows ops c = concat (map (t_rows ops) (t # ts))))"

lemma torch_shape0: "torch_laws ops \<Longrightarrow> t_shape0 ops t = length (t_rows ops t)"
  by (simp add: torch_laws_def)

lemma torch_empty:
  "torch_laws ops \<Longrightarrow> t_kind ops (t_empty ops n t) = t_kind ops t"
  "torch_laws ops \<Longrightarrow> length (t_rows ops (t_empty ops n t)) = n"
  by (simp_all add: torch_laws_def)

lemma torch_store:
  assumes "torch_laws ops" "t_kind ops v = t_kind ops b" "s \<le> e" "e \<le> length (t_rows ops b)"
    "length (t_rows ops v) = e - s"
  shows "\<exists>c. t_store ops b s e v = Inr c \<and> t_kind ops c = t_kind ops b \<and>
             t_rows ops c = take s (t_rows ops b) @ t_rows ops v @ drop e (t_rows ops b)"
  using assms unfolding torch_laws_def by blast

lemma torch_cut:
  "torch_laws ops \<Longrightarrow> t_kind ops (t_cut ops t s e) = t_kind ops t"
  "torch_laws ops \<Longrightarrow> t_rows ops (t_cut ops t s e) = take (e - s) (drop s (t_rows ops t))"
  by (simp_all add: torch_laws_def)

lemma torch_select:
  assumes "torch_laws ops" "\<forall>i \<in> set is. i < length (t_rows ops t)"
  shows "\<exists>c. t_select ops t is = Inr c \<and> t_kind ops c = t_kind ops t \<and>
             t_rows ops c = map (\<lambda>i. t_rows ops t ! i) is"
  using assms unfolding torch_laws_def by blast

lemma torch_scatter:
  assumes "torch_laws ops" "t_kind ops v = t_kind ops b" "length (t_rows ops v) = length is"
    "distinct is" "\<forall>i \<in> set is. i < length (t_rows ops b)"
  shows "\<exists>c. t_scatter ops b is v = Inr c \<and> t_kind ops c = t_kind ops b \<and>
             t_rows ops c = put_rows (t_rows ops b) is (t_rows ops v)"
  using assms unfolding torch_laws_def by blast

lemma torch_concat:
  assumes "torch_laws ops" "\<forall>u \<in> set ts. t_kind ops u = t_kind ops t"
  shows "\<exists>c. t_concat ops (t # ts) = Inr c \<and> t_kind ops c = t_kind ops t \<and>
             t_rows ops c = concat (map (t_rows ops) (t # ts))"
  using assms unfolding torch_laws_def by blast

lemma length_put_rows [simp]: "length (put_rows b is v) = length b"
proof -
  have "length (fold (\<lambda>(i, x) b. b[i := x]) ps b) = length b" for ps
    by (induction ps arbitrary: b) auto
  then show ?thesis by (simp add: put_rows_def)
qed

lemma put_rows_Cons: "put_rows b (i # is) (x # v) = put_rows (b[i := x]) is v"
  by (simp add: put_rows_def)

lemma put_rows_other: "j \<notin> set is \<Longrightarrow> put_rows b is v ! j = b ! j"
proof (induction "is" arbitrary: b v)
  case (Cons i "is")
  then show ?case by (cases v) (auto simp: put_rows_Cons, simp add: put_rows_def)
qed (simp add: put_rows_def)

lemma put_rows_hit:
  "distinct is \<Longrightarrow> length v = length is \<Longrightarrow> n < length is \<Longrightarrow> \<forall>i \<in> set is. i < length b \<Longrightarrow>
     put_rows b is v ! (is ! n) = v ! n"
proof (induction "is" arbitrary: b v n)
  case (Cons i "is")
  then obtain x w where v: "v = x # w" by (cases v) auto
  show ?case
  proof (cases n)
    case 0
    with Cons.prems show ?thesis by (simp add: v put_rows_Cons put_rows_other)
  next
    case (Suc m)
    with Cons.prems show ?thesis by (simp add: v put_rows_Cons Cons.IH)
  qed
qed simp

text \<open>
  The laws can hold: a tensor as a kind and a list of rows, with operations that
  raise outside of what is documented.
\<close>

definition list_torch :: "('k \<times> int list, int, 'k) torch_ops" where
  "list_torch =
     \<lparr>t_rows = snd, t_kind = fst, t_shape0 = (\<lambda>t. length (snd t)),
      t_empty = (\<lambda>n t. (fst t, replicate n 0)),
      t_store = (\<lambda>b s e v.
        if fst v = fst b \<and> s \<le> e \<and> e \<le> length (snd b) \<and> length (snd v) = e - s
        then Inr (fst b, take s (snd b) @ snd v @ drop e (snd b)) else Inl RuntimeError),
      t_cut = (\<lambda>t s e. (fst t, take (e - s) (drop s (snd t)))),
      t_select = (\<lambda>t is.
        if list_all (\<lambda>i. i < length (snd t)) is then Inr (fst t, map ((!) (snd t)) is) else Inl IndexError),
      t_scatter = (\<lambda>b is v.
        if fst v = fst b \<and> length (snd v) = length is \<and> list_all (\<lambda>i. i < length (snd b)) is
        then Inr (fst b, put_rows (snd b) is (snd v)) else Inl RuntimeError),
      t_concat = (\<lambda>ts. case ts of [] \<Rightarrow> Inl RuntimeError
        | t # us \<Rightarrow> if list_all (\<lambda>u. fst u = fst t) us then Inr (fst t, concat (map snd ts)) else Inl RuntimeError)\<rparr>"

lemma list_torch_laws: "torch_laws list_torch"
  by (simp add: torch_laws_def list_torch_def list_all_iff)

section \<open>Walking two dictionaries\<close>

text \<open>
  \<open>_insert_into_buffer\<close>, \<open>_copy_buffer_slice\<close> and
  \<open>_fill_batch_from_buffer_indices\<close> are one recursion: for every tensor of the
  first dictionary, the tensor under the same key of the second is updated by
  \<open>f\<close>; a value that is neither tensor nor dictionary replaces the entry of the
  second when \<open>keep\<close> is set, and is passed over otherwise.
\<close>

fun walk ::
    "('t \<Rightarrow> 't \<Rightarrow> 't res) \<Rightarrow> bool \<Rightarrow> ('t, 'v) titems \<Rightarrow> ('t, 'v) titems \<Rightarrow> ('t, 'v) titems res" where
  "walk f keep [] dst = Inr dst"
| "walk f keep ((k, NTensor t) # r) dst =
     (case map_of dst k of
        None \<Rightarrow> Inl KeyError
      | Some (NTensor u) \<Rightarrow> rbind (f t u) (\<lambda>w. walk f keep r (AList.update k (NTensor w) dst))
      | Some _ \<Rightarrow> Inl TypeError)"
| "walk f keep ((k, NDict kvs) # r) dst =
     (case map_of dst k of
        None \<Rightarrow> Inl KeyError
      | Some (NDict sub) \<Rightarrow>
          rbind (walk f keep kvs sub) (\<lambda>sub'. walk f keep r (AList.update k (NDict sub') dst))
      | Some _ \<Rightarrow> Inl TypeError)"
| "walk f keep ((k, NOther v) # r) dst =
     walk f keep r (if keep then AList.update k (NOther v) dst else dst)"

definition walks :: "('t \<Rightarrow> 't \<Rightarrow> 't res) \<Rightarrow> ('t, 'v) titems \<Rightarrow> ('t, 'v) titems \<Rightarrow> ('t, 'v) titems \<Rightarrow> bool" where
  "walks f src dst out \<longleftrightarrow> tensors_only out \<and> (out = [] \<longleftrightarrow> dst = []) \<and>
     (\<forall>p. leaf_at out p =
       (case leaf_at src p of None \<Rightarrow> leaf_at dst p
        | Some t \<Rightarrow> Some (projr (f t (the (leaf_at dst p))))))"

lemma walks_Cons:
  assumes rest: "walks f r (AList.update k n dst) out" and dst: "map_of dst k \<noteq> None" "k \<notin> fst ` set r"
    and n: "\<And>q. leaf n q = (case leaf m q of None \<Rightarrow> leaf_at dst (k # q)
        | Some t \<Rightarrow> Some (projr (f t (the (leaf_at dst (k # q))))))"
  shows "walks f ((k, m) # r) dst out"
proof -
  have "leaf_at r (k # q) = None" for q
    using dst(2) by (rule leaf_at_fresh)
  moreover have "leaf_at (AList.update k n dst) (k # q) = leaf n q" for q
    by (simp add: update_conv)
  moreover have "leaf_at (AList.update k n dst) p = leaf_at dst p" if "\<And>q. p \<noteq> k # q" for p
    using that by (cases p) (auto simp: update_conv)
  ultimately have "leaf_at out p = (case leaf_at ((k, m) # r) p of None \<Rightarrow> leaf_at dst p
        | Some t \<Rightarrow> Some (projr (f t (the (leaf_at dst p)))))" for p
    using rest n unfolding walks_def
    by (cases "\<exists>q. p = k # q") (auto simp: leaf_at_Cons simp del: leaf.simps split: list.splits option.splits)
  moreover have "AList.update k n dst \<noteq> []" "dst \<noteq> []" using dst(1) by (cases dst, auto)+
  ultimately show ?thesis using rest unfolding walks_def by blast
qed

lemma walk_walks:
  assumes "tensors_only src" "tensors_only dst"
    and "\<And>p t. leaf_at src p = Some t \<Longrightarrow> \<exists>u w. leaf_at dst p = Some u \<and> f t u = Inr w"
  shows "\<exists>out. walk f keep src dst = Inr out \<and> walks f src dst out"
  using assms
proof (induction f keep src dst rule: walk.induct)
  case (1 f keep dst)
  then show ?case by (simp add: walks_def)
next
  case (2 f keep k t r dst)
  from "2.prems"(3) [of "[k]" t] obtain u w where u: "leaf_at dst [k] = Some u" "f t u = Inr w" by auto
  note m = leaf_single [OF u(1)]
  have "\<exists>out. walk f keep r (AList.update k (NTensor w) dst) = Inr out \<and>
      walks f r (AList.update k (NTensor w) dst) out"
  proof (rule "2.IH" [OF m refl u(2)])
    show "tensors_only r" "tensors_only (AList.update k (NTensor w) dst)"
      using "2.prems"(1,2) by (auto intro: tensors_only_update)
    fix p v assume v: "leaf_at r p = Some v"
    with "2.prems"(1) have "hd p \<noteq> k" "p \<noteq> []"
      by (cases p; auto split: option.splits dest: map_of_SomeD intro: rev_image_eqI)+
    with v "2.prems"(3) [of p v] show "\<exists>u w'. leaf_at (AList.update k (NTensor w) dst) p = Some u \<and> f v u = Inr w'"
      by (cases p) (auto simp: update_conv)
  qed
  then obtain out where out: "walk f keep r (AList.update k (NTensor w) dst) = Inr out"
      "walks f r (AList.update k (NTensor w) dst) out" by blast
  have "walks f ((k, NTensor t) # r) dst out"
    using out(2) m "2.prems"(1) u by (intro walks_Cons) (auto split: option.splits)
  with m u(2) out(1) show ?case by simp
next
  case (3 f keep k kvs r dst)
  from "3.prems"(1) obtain q t where "leaf_at kvs q = Some t" using tensors_only_leaf [of kvs] by auto
  moreover from this have "q \<noteq> []" by auto
  ultimately obtain sub where m: "map_of dst k = Some (NDict sub)"
    using "3.prems"(3) [of "k # q" t] leaf_nested by fastforce
  then have sub: "tensors_only sub" "sub \<noteq> []" using tensors_only_lookup "3.prems"(2) by blast+
  have "\<exists>out. walk f keep kvs sub = Inr out \<and> walks f kvs sub out"
  proof (rule "3.IH"(1) [OF m refl])
    show "tensors_only kvs" "tensors_only sub" using "3.prems"(1) sub by auto
    fix p v assume "leaf_at kvs p = Some v"
    with "3.prems"(3) [of "k # p" v] m show "\<exists>u w'. leaf_at sub p = Some u \<and> f v u = Inr w'" by simp
  qed
  then obtain sub' where sub': "walk f keep kvs sub = Inr sub'" "walks f kvs sub sub'" by blast
  then have ok: "tensors_only sub'" "sub' \<noteq> []" using sub by (auto simp: walks_def)
  have "\<exists>out. walk f keep r (AList.update k (NDict sub') dst) = Inr out \<and>
      walks f r (AList.update k (NDict sub') dst) out"
  proof (rule "3.IH"(2) [OF m refl sub'(1)])
    show "tensors_only r" "tensors_only (AList.update k (NDict sub') dst)"
      using "3.prems"(1,2) ok by (auto intro: tensors_only_update)
    fix p v assume v: "leaf_at r p = Some v"
    with "3.prems"(1) have "hd p \<noteq> k" "p \<noteq> []"
      by (cases p; auto split: option.splits dest: map_of_SomeD intro: rev_image_eqI)+
    with v "3.prems"(3) [of p v] show "\<exists>u w'. leaf_at (AList.update k (NDict sub') dst) p = Some u \<and> f v u = Inr w'"
      by (cases p) (auto simp: update_conv)
  qed
  then obtain out where out: "walk f keep r (AList.update k (NDict sub') dst) = Inr out"
      "walks f r (AList.update k (NDict sub') dst) out" by blast
  have "walks f ((k, NDict kvs) # r) dst out"
  proof (rule walks_Cons [OF out(2)])
    show "map_of dst k \<noteq> None" "k \<notin> fst ` set r" using m "3.prems"(1) by auto
    have "leaf_at dst (k # q) = leaf_at sub q" for q using m by simp
    with sub'(2) show "leaf_at sub' q = (case leaf_at kvs q of None \<Rightarrow> leaf_at dst (k # q)
        | Some t \<Rightarrow> Some (projr (f t (the (leaf_at dst (k # q))))))" for q
      unfolding walks_def by metis
  qed
  with m sub'(1) out(1) show ?case by simp
qed simp

end
