(* ===== verification/Trajectory_Cache.thy ===== *)
theory Trajectory_Cache
  imports Tensor_Dict
begin

text \<open>
  \<open>TrajectoryCache\<close> of \<^verbatim>\<open>rlinf/data/storage/replay/buffer.py\<close>: the last
  trajectories of the replay buffer, flattened and stored side by side in one
  preallocated dictionary of tensors, in slots that are reused in turn.

  The abstract cache is a first-in first-out list of trajectories
  (\<open>fifo_put\<close>); the ring of slots, the buffer that grows and the table of
  lengths are shown to implement it, first as the contract \<open>fifo_cache\<close>, which
  the class is then an interpretation of.

  \<open>get\<close> returns views into the buffer; the model returns what they hold at the
  time of the call. A method that raises leaves the object in a state that the
  model does not describe.
\<close>

section \<open>State\<close>

text \<open>The lengths of the tensors of a trajectory, nested as the trajectory is.\<close>

datatype lens = LLen nat | LDict "(string \<times> lens) list"

record ('t, 'v) traj_cache =
  cached :: "(int \<times> nat) list"
  max_size :: nat
  shared_buffer :: "('t, 'v) titems option"
  traj_num_samples :: "nat option"
  traj_key_lengths :: "(int \<times> (string \<times> lens) list) list"
  last_slot :: nat
  slot_to_id :: "(nat \<times> int) list"

definition make_cache :: "nat \<Rightarrow> ('t, 'v) traj_cache" where
  "make_cache n = \<lparr>cached = [], max_size = n, shared_buffer = None, traj_num_samples = None,
     traj_key_lengths = [], last_slot = 0, slot_to_id = []\<rparr>"

definition cache_clear :: "('t, 'v) traj_cache \<Rightarrow> ('t, 'v) traj_cache" where
  "cache_clear c = c\<lparr>cached := [], shared_buffer := None, traj_num_samples := None,
     traj_key_lengths := [], last_slot := 0, slot_to_id := []\<rparr>"

lemma cache_clear_make: "cache_clear c = make_cache (max_size c)"
  by (simp add: cache_clear_def make_cache_def)

section \<open>Operations\<close>

text \<open>
  \<open>_get_key_lengths\<close>: a dictionary without any tensor raises, at every level;
  hence a nested result is never empty.
\<close>

fun key_lengths :: "('t, 'r, 'k) torch_ops \<Rightarrow> ('t, 'v) titems \<Rightarrow> (string \<times> lens) list res" where
  "key_lengths ops [] = Inr []"
| "key_lengths ops ((key, NTensor t) # r) =
     rbind (key_lengths ops r) (\<lambda>ls. Inr ((key, LLen (t_shape0 ops t)) # ls))"
| "key_lengths ops ((key, NDict kvs) # r) =
     rbind (key_lengths ops kvs) (\<lambda>nested.
       if nested = [] then Inl ValueError
       else rbind (key_lengths ops r) (\<lambda>ls. Inr ((key, LDict nested) # ls)))"
| "key_lengths ops ((key, NOther v) # r) = key_lengths ops r"

definition get_key_lengths :: "('t, 'r, 'k) torch_ops \<Rightarrow> ('t, 'v) titems \<Rightarrow> (string \<times> lens) list res" where
  "get_key_lengths ops tr =
     rbind (key_lengths ops tr) (\<lambda>ls. if ls = [] then Inl ValueError else Inr ls)"

fun get_max_num_samples :: "(string \<times> lens) list \<Rightarrow> nat" where
  "get_max_num_samples [] = 0"
| "get_max_num_samples ((k, LLen n) # r) = max n (get_max_num_samples r)"
| "get_max_num_samples ((k, LDict ls) # r) = max (get_max_num_samples ls) (get_max_num_samples r)"

fun alloc_buffer_like ::
    "('t, 'r, 'k) torch_ops \<Rightarrow> ('t, 'v) titems \<Rightarrow> nat \<Rightarrow> ('t, 'v) titems" where
  "alloc_buffer_like ops [] n = []"
| "alloc_buffer_like ops ((k, NTensor t) # r) n = (k, NTensor (t_empty ops n t)) # alloc_buffer_like ops r n"
| "alloc_buffer_like ops ((k, NDict kvs) # r) n =
     (k, NDict (alloc_buffer_like ops kvs n)) # alloc_buffer_like ops r n"
| "alloc_buffer_like ops ((k, NOther v) # r) n = (k, NOther v) # alloc_buffer_like ops r n"

definition insert_into_buffer ::
    "('t, 'r, 'k) torch_ops \<Rightarrow> ('t, 'v) titems \<Rightarrow> ('t, 'v) titems \<Rightarrow> nat \<Rightarrow> ('t, 'v) titems res" where
  "insert_into_buffer ops tr buffer start =
     walk (\<lambda>t b. t_store ops b start (start + t_shape0 ops t) t) True tr buffer"

definition copy_buffer_slice ::
    "('t, 'r, 'k) torch_ops \<Rightarrow> ('t, 'v) titems \<Rightarrow> ('t, 'v) titems \<Rightarrow> nat \<times> nat \<Rightarrow> nat \<times> nat
      \<Rightarrow> ('t, 'v) titems res" where
  "copy_buffer_slice ops src dst src_slc dst_slc =
     walk (\<lambda>t b. t_store ops b (fst dst_slc) (snd dst_slc) (t_cut ops t (fst src_slc) (snd src_slc))) True src dst"

text \<open>\<open>_slice_from_buffer_with_lengths\<close>; \<open>n\<close> is \<open>self._traj_num_samples\<close>.\<close>

definition length_of :: "nat \<Rightarrow> lens option \<Rightarrow> string \<Rightarrow> nat res" where
  "length_of n lengths key =
     (case lengths of
        None \<Rightarrow> Inr n
      | Some (LLen _) \<Rightarrow> Inl TypeError
      | Some (LDict ls) \<Rightarrow>
          (case map_of ls key of None \<Rightarrow> Inr n | Some (LLen m) \<Rightarrow> Inr m | Some (LDict _) \<Rightarrow> Inl TypeError))"

definition nested_lengths :: "lens option \<Rightarrow> string \<Rightarrow> lens option res" where
  "nested_lengths lengths key =
     (case lengths of
        None \<Rightarrow> Inr None
      | Some (LLen _) \<Rightarrow> Inl AttributeError
      | Some (LDict ls) \<Rightarrow> Inr (map_of ls key))"

fun slice_from_buffer_with_lengths ::
    "('t, 'r, 'k) torch_ops \<Rightarrow> nat \<Rightarrow> ('t, 'v) titems \<Rightarrow> nat \<Rightarrow> lens option \<Rightarrow> ('t, 'v) titems res" where
  "slice_from_buffer_with_lengths ops n [] start lengths = Inr []"
| "slice_from_buffer_with_lengths ops n ((key, NTensor t) # r) start lengths =
     rbind (length_of n lengths key) (\<lambda>m.
     rbind (slice_from_buffer_with_lengths ops n r start lengths) (\<lambda>out.
       Inr ((key, NTensor (t_cut ops t start (start + m))) # out)))"
| "slice_from_buffer_with_lengths ops n ((key, NDict kvs) # r) start lengths =
     rbind (nested_lengths lengths key) (\<lambda>nl.
     rbind (slice_from_buffer_with_lengths ops n kvs start nl) (\<lambda>d.
     rbind (slice_from_buffer_with_lengths ops n r start lengths) (\<lambda>out.
       Inr ((key, NDict d) # out))))"
| "slice_from_buffer_with_lengths ops n ((key, NOther v) # r) start lengths =
     rbind (slice_from_buffer_with_lengths ops n r start lengths) (\<lambda>out. Inr ((key, NOther v) # out))"

text \<open>\<open>_ensure_capacity\<close>: the first trajectory fixes the buffer, a longer one makes every slot longer.\<close>

definition copy_slots ::
    "('t, 'r, 'k) torch_ops \<Rightarrow> ('t, 'v) titems \<Rightarrow> nat \<Rightarrow> nat \<Rightarrow> ('t, 'v) titems \<Rightarrow> nat list \<Rightarrow> ('t, 'v) titems res" where
  "copy_slots ops old old_len new_len =
     rfold (\<lambda>new slot. copy_buffer_slice ops old new
       (slot * old_len, slot * old_len + old_len) (slot * new_len, slot * new_len + old_len))"

definition ensure_capacity ::
    "('t, 'r, 'k) torch_ops \<Rightarrow> ('t, 'v) traj_cache \<Rightarrow> nat \<Rightarrow> ('t, 'v) titems \<Rightarrow> ('t, 'v) traj_cache res" where
  "ensure_capacity ops c max_num_samples tr =
     (case traj_num_samples c of
        None \<Rightarrow>
          Inr (c\<lparr>shared_buffer := Some (alloc_buffer_like ops tr (max_size c * max_num_samples)),
                 traj_num_samples := Some max_num_samples\<rparr>)
      | Some old_slot_len \<Rightarrow>
          if max_num_samples \<le> old_slot_len then Inr c
          else
            let new_buffer = alloc_buffer_like ops tr (max_size c * max_num_samples) in
            rbind (case shared_buffer c of
                     None \<Rightarrow> Inr new_buffer
                   | Some old \<Rightarrow> copy_slots ops old old_slot_len max_num_samples new_buffer (map snd (cached c)))
              (\<lambda>buffer. Inr (c\<lparr>shared_buffer := Some buffer, traj_num_samples := Some max_num_samples\<rparr>)))"

text \<open>The choice of the slot in \<open>put\<close>, with the eviction of the trajectory that is in it.\<close>

definition evict :: "('t, 'v) traj_cache \<Rightarrow> nat \<Rightarrow> ('t, 'v) traj_cache" where
  "evict c slot =
     (case map_of (slot_to_id c) slot of
        None \<Rightarrow> c
      | Some evict_id \<Rightarrow>
          c\<lparr>cached := (if evict_id \<in> fst ` set (cached c) then AList.delete evict_id (cached c) else cached c),
            traj_key_lengths := AList.delete evict_id (traj_key_lengths c)\<rparr>)"

definition take_slot :: "('t, 'v) traj_cache \<Rightarrow> int \<Rightarrow> (('t, 'v) traj_cache \<times> nat) res" where
  "take_slot c trajectory_id =
     (case map_of (cached c) trajectory_id of
        Some slot \<Rightarrow> Inr (c, slot)
      | None \<Rightarrow>
          let slot = last_slot c; c = evict c slot in
          if max_size c = 0 then Inl ZeroDivisionError
          else Inr (c\<lparr>slot_to_id := AList.update slot trajectory_id (slot_to_id c),
                      cached := AList.update trajectory_id slot (cached c),
                      last_slot := Suc (last_slot c) mod max_size c\<rparr>, slot))"

definition cache_put ::
    "('t, 'r, 'k) torch_ops \<Rightarrow> ('t, 'v) traj_cache \<Rightarrow> int \<Rightarrow> ('t, 'v) titems \<Rightarrow> ('t, 'v) traj_cache res" where
  "cache_put ops c trajectory_id tr =
     rbind (get_key_lengths ops tr) (\<lambda>lengths.
     rbind (ensure_capacity ops c (get_max_num_samples lengths) tr) (\<lambda>c.
     rbind (take_slot c trajectory_id) (\<lambda>(c, slot).
       case (shared_buffer c, traj_num_samples c) of
         (Some buffer, Some n) \<Rightarrow>
           rbind (insert_into_buffer ops tr buffer (slot * n)) (\<lambda>buffer.
             Inr (c\<lparr>shared_buffer := Some buffer,
                    traj_key_lengths := AList.update trajectory_id lengths (traj_key_lengths c)\<rparr>))
       | _ \<Rightarrow> Inl TypeError)))"

definition cache_get ::
    "('t, 'r, 'k) torch_ops \<Rightarrow> ('t, 'v) traj_cache \<Rightarrow> int \<Rightarrow> ('t, 'v) titems option res" where
  "cache_get ops c trajectory_id =
     (case (map_of (cached c) trajectory_id, shared_buffer c) of
        (Some slot, Some buffer) \<Rightarrow>
          (case traj_num_samples c of
             None \<Rightarrow> Inl TypeError
           | Some n \<Rightarrow>
               rbind (slice_from_buffer_with_lengths ops n buffer (slot * n)
                        (map_option LDict (map_of (traj_key_lengths c) trajectory_id)))
                 (\<lambda>out. Inr (Some out)))
      | _ \<Rightarrow> Inr None)"

section \<open>The walks, seen along paths\<close>

fun len_at :: "lens \<Rightarrow> string list \<Rightarrow> nat option" where
  "len_at (LLen n) [] = Some n"
| "len_at (LDict ls) (k # p) = (case map_of ls k of None \<Rightarrow> None | Some l \<Rightarrow> len_at l p)"
| "len_at _ _ = None"

lemma len_at_LLen [simp]: "len_at (LLen n) p = (if p = [] then Some n else None)"
  by (cases p) auto

lemma len_at_LDict_Nil [simp]: "len_at (LDict ls) [] = None"
  by (cases ls) auto

lemma key_lengths_ok:
  assumes "tensors_only tr"
  shows "\<exists>ls. key_lengths ops tr = Inr ls \<and> (ls = [] \<longleftrightarrow> tr = []) \<and>
    (\<forall>p. len_at (LDict ls) p = map_option (t_shape0 ops) (leaf_at tr p))"
  using assms
proof (induction ops tr rule: key_lengths.induct)
  case (1 ops)
  have "len_at (LDict []) p = None" for p by (cases p) auto
  then show ?case by simp
next
  case (2 ops key t r)
  then obtain ls where "key_lengths ops r = Inr ls"
    "\<forall>p. len_at (LDict ls) p = map_option (t_shape0 ops) (leaf_at r p)" by auto
  moreover from this have "len_at (LDict ((key, LLen (t_shape0 ops t)) # ls)) p =
      map_option (t_shape0 ops) (leaf_at ((key, NTensor t) # r) p)" for p
    by (cases p) (auto dest: spec [of _ p])
  ultimately show ?case by auto
next
  case (3 ops key kvs r)
  then obtain ns where ns: "key_lengths ops kvs = Inr ns" "ns \<noteq> []"
    "\<forall>p. len_at (LDict ns) p = map_option (t_shape0 ops) (leaf_at kvs p)" by auto
  with 3 obtain ls where ls: "key_lengths ops r = Inr ls"
    "\<forall>p. len_at (LDict ls) p = map_option (t_shape0 ops) (leaf_at r p)" by auto
  have "len_at (LDict ((key, LDict ns) # ls)) p =
      map_option (t_shape0 ops) (leaf_at ((key, NDict kvs) # r) p)" for p
    using ns(3) ls(2) [rule_format, of p] by (cases p) auto
  with ns ls show ?case by auto
qed simp

lemma len_at_max: "len_at (LDict ls) p = Some n \<Longrightarrow> n \<le> get_max_num_samples ls"
proof (induction ls arbitrary: p rule: get_max_num_samples.induct)
  case 1
  then show ?case by (cases p) auto
next
  case (2 k m r)
  show ?case
  proof (cases "len_at (LDict r) p = Some n")
    case True
    then show ?thesis using "2.IH" by fastforce
  next
    case False
    with "2.prems" show ?thesis by (cases p) (auto split: if_splits)
  qed
next
  case (3 k ls r)
  show ?case
  proof (cases "len_at (LDict r) p = Some n")
    case True
    then show ?thesis using "3.IH"(2) by fastforce
  next
    case False
    with "3.prems" "3.IH"(1) show ?thesis by (cases p) (fastforce split: if_splits)+
  qed
qed

lemma alloc_keys [simp]: "fst ` set (alloc_buffer_like ops tr n) = fst ` set tr"
  by (induction ops tr n rule: alloc_buffer_like.induct) auto

lemma alloc_Nil [simp]: "alloc_buffer_like ops tr n = [] \<longleftrightarrow> tr = []"
  by (metis alloc_keys image_is_empty set_empty)

lemma alloc_tensors: "tensors_only tr \<Longrightarrow> tensors_only (alloc_buffer_like ops tr n)"
  by (induction ops tr n rule: alloc_buffer_like.induct) auto

lemma leaf_alloc:
  "leaf_at (alloc_buffer_like ops tr n) p = map_option (t_empty ops n) (leaf_at tr p)"
proof (induction ops tr n arbitrary: p rule: alloc_buffer_like.induct)
qed (auto simp: leaf_at_Cons simp del: leaf.simps split: list.splits)

lemma leaf_at_rest:
  "leaf_at r p = Some u \<Longrightarrow> tensors_only ((k, n) # r) \<Longrightarrow> leaf_at ((k, n) # r) p = Some u"
  using leaf_at_fresh [of k r] by (cases n; cases p) (auto simp: leaf_at_Cons simp del: leaf.simps)

lemma slice_ok:
  assumes "tensors_only b"
    and "\<And>p u. leaf_at b p = Some u \<Longrightarrow> \<exists>m. len_at (LDict ls) p = Some m"
  shows "\<exists>out. slice_from_buffer_with_lengths ops n b start (Some (LDict ls)) = Inr out \<and> tensors_only out \<and>
    (out = [] \<longleftrightarrow> b = []) \<and> fst ` set out = fst ` set b \<and>
    (\<forall>p. leaf_at out p = map_option (\<lambda>u. t_cut ops u start (start + the (len_at (LDict ls) p))) (leaf_at b p))"
  using assms
proof (induction ops n b start "Some (LDict ls)" arbitrary: ls rule: slice_from_buffer_with_lengths.induct)
  case (2 ops n key t r start)
  have "length_of n (Some (LDict ls)) key = Inr (the (len_at (LDict ls) [key]))"
    using "2.prems"(2) [of "[key]" t]
    by (auto simp: length_of_def split: option.splits lens.splits)
  moreover have "\<exists>m. len_at (LDict ls) p = Some m" if "leaf_at r p = Some u" for p u
    using that "2.prems" by (intro "2.prems"(2)) (rule leaf_at_rest)
  moreover note "2.hyps" "2.prems"(1)
  ultimately show ?case
    by (auto simp: leaf_at_Cons simp del: leaf.simps split: list.splits)
next
  case (3 ops n key kvs r start)
  have kvs: "tensors_only kvs" "kvs \<noteq> []" "tensors_only r" "key \<notin> fst ` set r" using "3.prems"(1) by auto
  then obtain q u where q: "leaf_at kvs q = Some u" using tensors_only_leaf by blast
  then have "q \<noteq> []" by auto
  moreover from q obtain m where "len_at (LDict ls) (key # q) = Some m"
    using "3.prems"(2) [of "key # q" u] by auto
  ultimately obtain ns where ns: "map_of ls key = Some (LDict ns)"
    by (auto split: option.splits) (metis len_at_LLen lens.exhaust option.distinct(1))
  then have nl: "nested_lengths (Some (LDict ls)) key = Inr (Some (LDict ns))"
    by (simp add: nested_lengths_def)
  have "\<exists>m. len_at (LDict ns) p = Some m" if "leaf_at kvs p = Some v" for p v
    using "3.prems"(2) [of "key # p" v] that ns by simp
  with "3.hyps"(1) [OF nl kvs(1)] kvs(2) obtain d where
    d: "slice_from_buffer_with_lengths ops n kvs start (Some (LDict ns)) = Inr d" "tensors_only d" "d \<noteq> []"
      "\<forall>p. leaf_at d p = map_option (\<lambda>u. t_cut ops u start (start + the (len_at (LDict ns) p))) (leaf_at kvs p)"
    by blast
  have "\<exists>m. len_at (LDict ls) p = Some m" if "leaf_at r p = Some v" for p v
    using that "3.prems" by (intro "3.prems"(2)) (rule leaf_at_rest)
  with "3.hyps"(2) [OF nl d(1) kvs(3)] obtain out where
    out: "slice_from_buffer_with_lengths ops n r start (Some (LDict ls)) = Inr out" "tensors_only out"
      "fst ` set out = fst ` set r"
      "\<forall>p. leaf_at out p = map_option (\<lambda>u. t_cut ops u start (start + the (len_at (LDict ls) p))) (leaf_at r p)"
    by blast
  with d ns nl kvs(4) show ?case
    by (auto simp: leaf_at_Cons simp del: leaf.simps split: list.splits)
qed auto

section \<open>Regions of a buffer\<close>

text \<open>The rows \<open>b[s:s + length v] = v\<close> leaves in a region \<open>[a, a + l)\<close>.\<close>

lemma region_written:
  "s + length v \<le> length xs \<Longrightarrow> take (length v) (drop s (take s xs @ v @ drop (s + length v) xs)) = v"
  by simp

lemma region_kept:
  assumes "s + length v \<le> length xs" "a + l \<le> s \<or> s + length v \<le> a"
  shows "take l (drop a (take s xs @ v @ drop (s + length v) xs)) = take l (drop a xs)"
  using assms
proof (elim disjE)
  assume le: "a + l \<le> s"
  have "take l (drop a xs) = take l (drop a (take s xs))" using le by (simp add: drop_take)
  moreover have "l \<le> length (drop a (take s xs)) \<or> v = [] \<and> drop (s + length v) xs = [] \<or> length xs < s"
    using le assms(1) by auto
  ultimately show ?thesis using assms(1) le by (simp add: drop_take)
qed (simp add: min_def)

lemma slots_apart:
  fixes i j n l :: nat
  assumes "i \<noteq> j" "l \<le> n" "k \<le> n"
  shows "i * n + l \<le> j * n \<or> j * n + k \<le> i * n"
proof (cases "i < j")
  case True
  then have "Suc i * n \<le> j * n" by (intro mult_le_mono1) simp
  then show ?thesis using assms by simp
next
  case False
  then have "Suc j * n \<le> i * n" using assms(1) by (intro mult_le_mono1) simp
  then show ?thesis using assms by simp
qed

lemma slot_fits: "i < m \<Longrightarrow> l \<le> n \<Longrightarrow> i * n + l \<le> m * n" for i m l n :: nat
  by (metis Suc_leI add.commute add_le_mono1 le_trans mult_Suc mult_le_mono1)

text \<open>
  A dictionary of tensors with the kinds \<open>lay\<close> at its paths; a buffer of \<open>m\<close>
  slots of \<open>n\<close> rows; what a slot holds.
\<close>

definition laid_out ::
    "('t, 'r, 'k) torch_ops \<Rightarrow> (string list \<Rightarrow> 'k option) \<Rightarrow> ('t, 'v) titems \<Rightarrow> bool" where
  "laid_out ops lay d \<longleftrightarrow>
     tensors_only d \<and> d \<noteq> [] \<and> (\<forall>p. map_option (t_kind ops) (leaf_at d p) = lay p)"

definition buffer_of ::
    "('t, 'r, 'k) torch_ops \<Rightarrow> (string list \<Rightarrow> 'k option) \<Rightarrow> nat \<Rightarrow> nat \<Rightarrow> ('t, 'v) titems \<Rightarrow> bool" where
  "buffer_of ops lay m n b \<longleftrightarrow>
     laid_out ops lay b \<and> (\<forall>p u. leaf_at b p = Some u \<longrightarrow> length (t_rows ops u) = m * n)"

definition holds_at ::
    "('t, 'r, 'k) torch_ops \<Rightarrow> ('t, 'v) titems \<Rightarrow> nat \<Rightarrow> ('t, 'v) titems \<Rightarrow> bool" where
  "holds_at ops b start tr \<longleftrightarrow>
     (\<forall>p t u. leaf_at tr p = Some t \<longrightarrow> leaf_at b p = Some u \<longrightarrow>
        take (length (t_rows ops t)) (drop start (t_rows ops u)) = t_rows ops t)"

text \<open>The longest tensor of a trajectory.\<close>

definition fits_slot :: "('t, 'r, 'k) torch_ops \<Rightarrow> nat \<Rightarrow> ('t, 'v) titems \<Rightarrow> bool" where
  "fits_slot ops n tr \<longleftrightarrow> (\<forall>p t. leaf_at tr p = Some t \<longrightarrow> length (t_rows ops t) \<le> n)"

lemma laid_out_kind:
  assumes "laid_out ops lay d" "laid_out ops lay e" "leaf_at d p = Some t"
  shows "\<exists>u. leaf_at e p = Some u \<and> t_kind ops u = t_kind ops t"
proof -
  have "map_option (t_kind ops) (leaf_at e p) = map_option (t_kind ops) (leaf_at d p)"
    using assms(1,2) by (simp add: laid_out_def)
  with assms(3) show ?thesis by (cases "leaf_at e p") auto
qed

lemma laid_out_same:
  assumes "laid_out ops lay d" "tensors_only e" "e \<noteq> []"
    and "\<And>p. map_option (t_kind ops) (leaf_at e p) = map_option (t_kind ops) (leaf_at d p)"
  shows "laid_out ops lay e"
  using assms by (simp add: laid_out_def)

lemma alloc_buffer_of:
  assumes "torch_laws ops" "laid_out ops lay tr"
  shows "buffer_of ops lay m n (alloc_buffer_like ops tr (m * n))"
  using assms by (auto simp: buffer_of_def laid_out_def leaf_alloc alloc_tensors torch_empty option.map_comp o_def)

text \<open>A walk over two dictionaries of one layout that succeeds at every path keeps the layout.\<close>

lemma walk_layout:
  fixes src b :: "('t, 'v) titems"
  assumes src: "laid_out ops lay src" and b: "laid_out ops lay b"
    and step: "\<And>p t u. leaf_at src p = Some t \<Longrightarrow> leaf_at b p = Some u \<Longrightarrow>
      \<exists>w. f t u = Inr w \<and> t_kind ops w = t_kind ops u"
  shows "\<exists>c. walk f keep src b = Inr c \<and> laid_out ops lay c \<and>
    (\<forall>p w. leaf_at c p = Some w \<longrightarrow> (\<exists>t u. leaf_at src p = Some t \<and> leaf_at b p = Some u \<and> f t u = Inr w))"
proof -
  have both: "\<exists>u. leaf_at b p = Some u" if "leaf_at src p = Some t" for p t
    using laid_out_kind [OF src b that] by blast
  have "tensors_only src" "tensors_only b" using src b by (auto simp: laid_out_def)
  then obtain c where c: "walk f keep src b = Inr c" "walks f src b c"
    using walk_walks [of src b f keep] step both by metis
  have leaf_c: "\<exists>t w. leaf_at src p = Some t \<and> f t u = Inr w \<and> t_kind ops w = t_kind ops u \<and> leaf_at c p = Some w"
    if u: "leaf_at b p = Some u" for p u
  proof -
    obtain t where t: "leaf_at src p = Some t" using laid_out_kind [OF b src u] by blast
    moreover have "leaf_at c p = Some (projr (f t u))"
      using c(2) t u unfolding walks_def by (metis option.sel option.simps(5))
    ultimately show ?thesis using step [OF t u] by auto
  qed
  have none: "leaf_at c p = None" if "leaf_at b p = None" for p
    using c(2) that both [of p] unfolding walks_def by (cases "leaf_at src p") auto
  have "map_option (t_kind ops) (leaf_at c p) = map_option (t_kind ops) (leaf_at b p)" for p
    using leaf_c [of p] none [of p] by (cases "leaf_at b p") auto
  then have "laid_out ops lay c"
    using c(2) b by (intro laid_out_same [OF b]) (auto simp: walks_def laid_out_def)
  moreover have "\<exists>t u. leaf_at src p = Some t \<and> leaf_at b p = Some u \<and> f t u = Inr w" if "leaf_at c p = Some w" for p w
    using that leaf_c [of p] none [of p] by (cases "leaf_at b p") auto
  ultimately show ?thesis using c(1) by blast
qed

text \<open>Writing the rows \<open>g t\<close> for every tensor \<open>t\<close> of \<open>src\<close> at \<open>start\<close> into a buffer of the same layout.\<close>

lemma walk_store:
  fixes src b :: "('t, 'v) titems"
  assumes laws: "torch_laws ops" and src: "laid_out ops lay src" and b: "buffer_of ops lay m n b"
    and g: "\<And>t. t \<in> ran (leaf_at src) \<Longrightarrow> t_kind ops (g t) = t_kind ops t \<and>
      e t = start + length (t_rows ops (g t)) \<and> e t \<le> m * n"
  shows "\<exists>c. walk (\<lambda>t u. t_store ops u start (e t) (g t)) True src b = Inr c \<and> buffer_of ops lay m n c \<and>
    (\<forall>p t u w. leaf_at src p = Some t \<longrightarrow> leaf_at b p = Some u \<longrightarrow> leaf_at c p = Some w \<longrightarrow>
       start + length (t_rows ops (g t)) \<le> length (t_rows ops u) \<and>
       t_rows ops w = take start (t_rows ops u) @ t_rows ops (g t) @
         drop (start + length (t_rows ops (g t))) (t_rows ops u))"
proof -
  define f where "f t u = t_store ops u start (e t) (g t)" for t u
  have b': "laid_out ops lay b" using b by (simp add: buffer_of_def)
  have stored: "\<exists>w. f t u = Inr w \<and> t_kind ops w = t_kind ops u \<and>
      start + length (t_rows ops (g t)) \<le> length (t_rows ops u) \<and>
      t_rows ops w = take start (t_rows ops u) @ t_rows ops (g t) @
         drop (start + length (t_rows ops (g t))) (t_rows ops u)"
    if t: "leaf_at src p = Some t" and u: "leaf_at b p = Some u" for p t u
  proof -
    have len: "length (t_rows ops u) = m * n" using b u by (auto simp: buffer_of_def)
    have "t_kind ops u = t_kind ops t" using laid_out_kind [OF src b' t] u by auto
    then have kind: "t_kind ops (g t) = t_kind ops u" using g [OF ranI [of "leaf_at src", OF t]] by simp
    have e: "e t = start + length (t_rows ops (g t))" "e t \<le> length (t_rows ops u)"
      using g [OF ranI [of "leaf_at src", OF t]] len by auto
    have "\<exists>w. t_store ops u start (e t) (g t) = Inr w \<and> t_kind ops w = t_kind ops u \<and>
        t_rows ops w = take start (t_rows ops u) @ t_rows ops (g t) @ drop (e t) (t_rows ops u)"
      by (rule torch_store [OF laws kind]) (use e in auto)
    with e show ?thesis unfolding f_def by metis
  qed
  then obtain c where c: "walk f True src b = Inr c" "laid_out ops lay c"
    and leaf_c: "\<And>p w. leaf_at c p = Some w \<Longrightarrow>
      \<exists>t u. leaf_at src p = Some t \<and> leaf_at b p = Some u \<and> f t u = Inr w"
    using walk_layout [OF src b', of f True] by blast
  have "length (t_rows ops w) = m * n" if "leaf_at c p = Some w" for p w
    using leaf_c [OF that] stored b by (fastforce simp: buffer_of_def)
  with c(2) have "buffer_of ops lay m n c" by (auto simp: buffer_of_def)
  moreover have "start + length (t_rows ops (g t)) \<le> length (t_rows ops u) \<and>
       t_rows ops w = take start (t_rows ops u) @ t_rows ops (g t) @
         drop (start + length (t_rows ops (g t))) (t_rows ops u)"
    if "leaf_at src p = Some t" "leaf_at b p = Some u" "leaf_at c p = Some w" for p t u w
    using leaf_c [OF that(3)] stored [OF that(1,2)] that(1,2) by auto
  ultimately show ?thesis using c(1) unfolding f_def by blast
qed

lemma buffer_leaf: "buffer_of ops lay m n b \<Longrightarrow> laid_out ops lay b"
  by (simp add: buffer_of_def)

text \<open>Writing into one slot of \<open>n\<close> rows leaves the others as they are.\<close>

definition keeps_slots ::
    "('t, 'r, 'k) torch_ops \<Rightarrow> (string list \<Rightarrow> 'k option) \<Rightarrow> nat \<Rightarrow> nat \<Rightarrow> ('t, 'v) titems \<Rightarrow> ('t, 'v) titems \<Rightarrow> bool" where
  "keeps_slots ops lay n slot b c \<longleftrightarrow>
     (\<forall>j x. j \<noteq> slot \<longrightarrow> laid_out ops lay x \<longrightarrow> fits_slot ops n x \<longrightarrow> holds_at ops b (j * n) x \<longrightarrow>
        holds_at ops c (j * n) x)"

lemma store_slot:
  fixes src b :: "('t, 'v) titems"
  assumes laws: "torch_laws ops" and src: "laid_out ops lay src" and b: "buffer_of ops lay m n b" and slot: "slot < m"
    and g: "\<And>t. t \<in> ran (leaf_at src) \<Longrightarrow> t_kind ops (g t) = t_kind ops t \<and>
      e t = slot * n + length (t_rows ops (g t)) \<and> length (t_rows ops (g t)) \<le> n"
  shows "\<exists>c. walk (\<lambda>t u. t_store ops u (slot * n) (e t) (g t)) True src b = Inr c \<and> buffer_of ops lay m n c \<and>
    keeps_slots ops lay n slot b c \<and>
    (\<forall>p t w. leaf_at src p = Some t \<longrightarrow> leaf_at c p = Some w \<longrightarrow>
       take (length (t_rows ops (g t))) (drop (slot * n) (t_rows ops w)) = t_rows ops (g t))"
proof -
  have "e t \<le> m * n" if "t \<in> ran (leaf_at src)" for t
    using slot_fits [OF slot, of "length (t_rows ops (g t))" n] g [OF that] by auto
  with g have g': "t_kind ops (g t) = t_kind ops t \<and> e t = slot * n + length (t_rows ops (g t)) \<and> e t \<le> m * n"
    if "t \<in> ran (leaf_at src)" for t
    using that by blast
  obtain c where c: "walk (\<lambda>t u. t_store ops u (slot * n) (e t) (g t)) True src b = Inr c" "buffer_of ops lay m n c"
    and rows: "\<And>p t u w. leaf_at src p = Some t \<Longrightarrow> leaf_at b p = Some u \<Longrightarrow> leaf_at c p = Some w \<Longrightarrow>
       slot * n + length (t_rows ops (g t)) \<le> length (t_rows ops u) \<and>
       t_rows ops w = take (slot * n) (t_rows ops u) @ t_rows ops (g t) @
         drop (slot * n + length (t_rows ops (g t))) (t_rows ops u)"
    using walk_store [OF laws src b g'] by blast
  note kinds = laid_out_kind [OF _ buffer_leaf [OF b]]
  have "take (length (t_rows ops (g t))) (drop (slot * n) (t_rows ops w)) = t_rows ops (g t)"
    if t: "leaf_at src p = Some t" and w: "leaf_at c p = Some w" for p t w
  proof -
    obtain u where "leaf_at b p = Some u" using kinds [OF src t] by blast
    from rows [OF t this w] show ?thesis using region_written by metis
  qed
  moreover have "keeps_slots ops lay n slot b c"
    unfolding keeps_slots_def holds_at_def
  proof (intro allI impI)
    fix j x p t w
    assume j: "j \<noteq> slot" and x: "laid_out ops lay x" "fits_slot ops n x"
      and b_holds: "\<forall>p t u. leaf_at x p = Some t \<longrightarrow> leaf_at b p = Some u \<longrightarrow>
        take (length (t_rows ops t)) (drop (j * n) (t_rows ops u)) = t_rows ops t"
      and t: "leaf_at x p = Some t" and w: "leaf_at c p = Some w"
    obtain u where u: "leaf_at b p = Some u" using kinds [OF x(1) t] by blast
    obtain v where v: "leaf_at src p = Some v" using laid_out_kind [OF buffer_leaf [OF b] src u] by blast
    have "j * n + length (t_rows ops t) \<le> slot * n \<or> slot * n + length (t_rows ops (g v)) \<le> j * n"
      using j x(2) t g [OF ranI [of "leaf_at src", OF v]] by (intro slots_apart) (auto simp: fits_slot_def)
    with rows [OF v u w] have "take (length (t_rows ops t)) (drop (j * n) (t_rows ops w)) =
        take (length (t_rows ops t)) (drop (j * n) (t_rows ops u))"
      using region_kept by metis
    then show "take (length (t_rows ops t)) (drop (j * n) (t_rows ops w)) = t_rows ops t"
      using b_holds t u by auto
  qed
  ultimately show ?thesis using c by blast
qed

lemma insert_holds:
  fixes tr b :: "('t, 'v) titems"
  assumes laws: "torch_laws ops" and tr: "laid_out ops lay tr" "fits_slot ops n tr"
    and b: "buffer_of ops lay m n b" and slot: "slot < m"
  shows "\<exists>c. insert_into_buffer ops tr b (slot * n) = Inr c \<and> buffer_of ops lay m n c \<and>
    holds_at ops c (slot * n) tr \<and> keeps_slots ops lay n slot b c"
proof -
  have "t_kind ops t = t_kind ops t \<and> slot * n + t_shape0 ops t = slot * n + length (t_rows ops t) \<and>
      length (t_rows ops t) \<le> n" if "t \<in> ran (leaf_at tr)" for t
    using tr(2) that by (auto simp: fits_slot_def torch_shape0 [OF laws] ran_def)
  from store_slot [OF laws tr(1) b slot this] show ?thesis
    by (auto simp: insert_into_buffer_def holds_at_def)
qed

lemma copy_slot:
  fixes old new :: "('t, 'v) titems"
  assumes laws: "torch_laws ops" and old: "buffer_of ops lay m old_len old"
    and new: "buffer_of ops lay m n new" and slot: "slot < m" and grow: "old_len \<le> n"
  shows "\<exists>c. copy_buffer_slice ops old new (slot * old_len, slot * old_len + old_len)
        (slot * n, slot * n + old_len) = Inr c \<and> buffer_of ops lay m n c \<and> keeps_slots ops lay n slot new c \<and>
      (\<forall>x. laid_out ops lay x \<longrightarrow> fits_slot ops old_len x \<longrightarrow> holds_at ops old (slot * old_len) x \<longrightarrow>
         holds_at ops c (slot * n) x)"
proof -
  define g where "g t = t_cut ops t (slot * old_len) (slot * old_len + old_len)" for t
  have g_rows: "t_rows ops (g t) = take old_len (drop (slot * old_len) (t_rows ops t))" for t
    by (simp add: g_def torch_cut [OF laws])
  have len: "length (t_rows ops (g t)) = old_len" if "t \<in> ran (leaf_at old)" for t
    using slot_fits [OF slot, of old_len old_len] old that unfolding g_rows by (auto simp: buffer_of_def ran_def)
  then have "t_kind ops (g t) = t_kind ops t \<and> slot * n + old_len = slot * n + length (t_rows ops (g t)) \<and>
      length (t_rows ops (g t)) \<le> n" if "t \<in> ran (leaf_at old)" for t
    using that grow by (auto simp: g_def torch_cut [OF laws])
  from store_slot [OF laws buffer_leaf [OF old] new slot this]
  obtain c where c: "copy_buffer_slice ops old new (slot * old_len, slot * old_len + old_len)
        (slot * n, slot * n + old_len) = Inr c" "buffer_of ops lay m n c" "keeps_slots ops lay n slot new c"
    and rows: "\<And>p t w. leaf_at old p = Some t \<Longrightarrow> leaf_at c p = Some w \<Longrightarrow>
       take (length (t_rows ops (g t))) (drop (slot * n) (t_rows ops w)) = t_rows ops (g t)"
    unfolding copy_buffer_slice_def fst_conv snd_conv g_def by blast
  have "holds_at ops c (slot * n) x"
    if x: "laid_out ops lay x" "fits_slot ops old_len x" "holds_at ops old (slot * old_len) x" for x
    unfolding holds_at_def
  proof (intro allI impI)
    fix p t w assume t: "leaf_at x p = Some t" and w: "leaf_at c p = Some w"
    obtain u where u: "leaf_at old p = Some u" using laid_out_kind [OF x(1) buffer_leaf [OF old] t] by blast
    have le: "length (t_rows ops t) \<le> old_len" using x(2) t by (auto simp: fits_slot_def)
    have "take old_len (drop (slot * n) (t_rows ops w)) = take old_len (drop (slot * old_len) (t_rows ops u))"
      using rows [OF u w] len [OF ranI [of "leaf_at old", OF u]] by (simp add: g_rows)
    then have "take (length (t_rows ops t)) (drop (slot * n) (t_rows ops w)) =
        take (length (t_rows ops t)) (drop (slot * old_len) (t_rows ops u))"
      using le by (metis min.absorb1 take_take)
    then show "take (length (t_rows ops t)) (drop (slot * n) (t_rows ops w)) = t_rows ops t"
      using x(3) t u by (auto simp: holds_at_def)
  qed
  with c show ?thesis by blast
qed

lemma copy_slots_ok:
  fixes old new :: "('t, 'v) titems"
  assumes laws: "torch_laws ops" and old: "buffer_of ops lay m old_len old" and grow: "old_len \<le> n"
    and "buffer_of ops lay m n new" "\<forall>s \<in> set slots. s < m"
  shows "\<exists>c. copy_slots ops old old_len n new slots = Inr c \<and> buffer_of ops lay m n c \<and>
    (\<forall>j x. laid_out ops lay x \<longrightarrow> fits_slot ops old_len x \<longrightarrow> holds_at ops old (j * old_len) x \<longrightarrow>
       j \<in> set slots \<or> holds_at ops new (j * n) x \<longrightarrow> holds_at ops c (j * n) x)"
  using assms(4,5)
proof (induction slots arbitrary: new)
  case (Cons slot slots)
  then obtain c where c: "copy_buffer_slice ops old new (slot * old_len, slot * old_len + old_len)
        (slot * n, slot * n + old_len) = Inr c" "buffer_of ops lay m n c" "keeps_slots ops lay n slot new c"
      "\<And>x. laid_out ops lay x \<Longrightarrow> fits_slot ops old_len x \<Longrightarrow> holds_at ops old (slot * old_len) x \<Longrightarrow>
         holds_at ops c (slot * n) x"
    using copy_slot [OF laws old _ _ grow, of new slot] by auto
  from Cons.IH [OF c(2)] Cons.prems(2) obtain d where d: "copy_slots ops old old_len n c slots = Inr d"
      "buffer_of ops lay m n d"
      "\<And>j x. laid_out ops lay x \<Longrightarrow> fits_slot ops old_len x \<Longrightarrow> holds_at ops old (j * old_len) x \<Longrightarrow>
       j \<in> set slots \<or> holds_at ops c (j * n) x \<Longrightarrow> holds_at ops d (j * n) x"
    by auto
  have "fits_slot ops n x" if "fits_slot ops old_len x" for x :: "('t, 'v) titems"
    using that grow by (fastforce simp: fits_slot_def)
  then have "holds_at ops d (j * n) x"
    if "laid_out ops lay x" "fits_slot ops old_len x" "holds_at ops old (j * old_len) x"
      "j \<in> set (slot # slots) \<or> holds_at ops new (j * n) x" for j x
    using that c(3,4) d(3) unfolding keeps_slots_def by (cases "j = slot") auto
  with c(1) d(1,2) show ?case by (auto simp: copy_slots_def)
qed (simp add: copy_slots_def)

section \<open>The contract of a first-in first-out cache\<close>

text \<open>
  The abstract cache: a known id has its entry replaced where it is, a new one
  comes last, and of more than \<open>m\<close> entries the first is dropped.
\<close>

definition fifo_put :: "nat \<Rightarrow> (int \<times> 'x) list \<Rightarrow> int \<Rightarrow> 'x \<Rightarrow> (int \<times> 'x) list" where
  "fifo_put m q i x =
     (if i \<in> fst ` set q then AList.update i x q else drop (Suc (length q) - m) (q @ [(i, x)]))"

definition fifo_puts :: "nat \<Rightarrow> (int \<times> 'x) list \<Rightarrow> (int \<times> 'x) list \<Rightarrow> (int \<times> 'x) list" where
  "fifo_puts m q ps = fold (\<lambda>(i, x) q. fifo_put m q i x) ps q"

lemma fifo_puts_simps [simp]:
  "fifo_puts m q [] = q" "fifo_puts m q ((i, x) # ps) = fifo_puts m (fifo_put m q i x) ps"
  by (simp_all add: fifo_puts_def)

lemma fifo_puts_fresh:
  assumes "distinct (map fst (q @ ps))" "length q \<le> m"
  shows "fifo_puts m q ps = drop (length q + length ps - m) (q @ ps)"
  using assms
proof (induction ps arbitrary: q)
  case (Cons a ps)
  obtain i x where a: "a = (i, x)" by fastforce
  from Cons.prems have put: "fifo_put m q i x = drop (Suc (length q) - m) (q @ [(i, x)])"
    by (auto simp: fifo_put_def a)
  have app: "fifo_put m q i x @ ps = drop (Suc (length q) - m) (q @ a # ps)"
    unfolding put by (cases "m = 0") (simp_all add: a)
  have "distinct (map fst (fifo_put m q i x @ ps))"
    unfolding app drop_map [symmetric] using Cons.prems(1) by (rule distinct_drop)
  moreover have "length (fifo_put m q i x) \<le> m" using put by simp
  ultimately have "fifo_puts m (fifo_put m q i x) ps =
      drop (length (fifo_put m q i x) + length ps - m) (fifo_put m q i x @ ps)" by (rule Cons.IH)
  also note app
  finally show ?case
    using put Cons.prems(2) by (cases "m = 0"; cases "length q = m") (auto simp: a Suc_diff_le)
qed simp

locale fifo_cache =
  fixes put :: "'c \<Rightarrow> int \<Rightarrow> 'x \<Rightarrow> 'c res" and get :: "'c \<Rightarrow> int \<Rightarrow> 'y option res"
    and m :: nat and implements :: "'c \<Rightarrow> (int \<times> 'x) list \<Rightarrow> bool"
    and ok :: "'x \<Rightarrow> bool" and same :: "'x \<Rightarrow> 'y \<Rightarrow> bool"
  assumes put_implements: "implements c q \<Longrightarrow> ok x \<Longrightarrow> \<exists>d. put c i x = Inr d \<and> implements d (fifo_put m q i x)"
    and get_implements: "implements c q \<Longrightarrow> \<exists>r. get c i = Inr r \<and> rel_option same (map_of q i) r"
begin

lemma puts_implement:
  assumes "implements c q" "\<forall>(i, x) \<in> set ps. ok x"
  shows "\<exists>d. rfold (\<lambda>c (i, x). put c i x) c ps = Inr d \<and> implements d (fifo_puts m q ps)"
  using assms
proof (induction ps arbitrary: c q)
  case (Cons a ps)
  obtain i x where a: "a = (i, x)" by fastforce
  with Cons.prems put_implements [of c q x i] obtain d where
    "put c i x = Inr d" "implements d (fifo_put m q i x)" by auto
  with Cons.IH [of d] Cons.prems a show ?case by auto
qed simp

text \<open>Of trajectories put under distinct ids, the last \<open>m\<close> are there, each as it was put.\<close>

lemma recent_kept:
  assumes "implements c []" "\<forall>(i, x) \<in> set ps. ok x" "distinct (map fst ps)"
  shows "\<exists>d. rfold (\<lambda>c (i, x). put c i x) c ps = Inr d \<and>
    (\<forall>i. \<exists>r. get d i = Inr r \<and> rel_option same (map_of (drop (length ps - m) ps) i) r)"
proof -
  from puts_implement [OF assms(1,2)] obtain d where
    "rfold (\<lambda>c (i, x). put c i x) c ps = Inr d" "implements d (fifo_puts m [] ps)" by blast
  with get_implements show ?thesis
    using fifo_puts_fresh [of "[]" ps m] assms(3) by auto
qed

end

section \<open>The ring of slots implements it\<close>

text \<open>The slots of \<open>n\<close> entries, oldest first, when \<open>nxt\<close> is the next slot to use.\<close>

definition ring :: "nat \<Rightarrow> nat \<Rightarrow> nat \<Rightarrow> nat list" where
  "ring m nxt n = (if n < m then [0..<n] else [nxt..<m] @ [0..<nxt])"

definition ring_ok :: "nat \<Rightarrow> nat \<Rightarrow> nat \<Rightarrow> bool" where
  "ring_ok m nxt n \<longleftrightarrow> n \<le> m \<and> nxt < m \<and> (n < m \<longrightarrow> nxt = n)"

lemma ring_length: "ring_ok m nxt n \<Longrightarrow> length (ring m nxt n) = n"
  by (auto simp: ring_def ring_ok_def)

lemma ring_distinct: "ring_ok m nxt n \<Longrightarrow> distinct (ring m nxt n)"
  by (auto simp: ring_def)

lemma ring_bound: "ring_ok m nxt n \<Longrightarrow> s \<in> set (ring m nxt n) \<Longrightarrow> s < m"
  by (auto simp: ring_def ring_ok_def split: if_splits)

lemma ring_free: "ring_ok m nxt n \<Longrightarrow> n < m \<Longrightarrow> nxt \<notin> set (ring m nxt n)"
  by (auto simp: ring_def ring_ok_def)

lemma ring_push:
  "ring_ok m nxt n \<Longrightarrow> n < m \<Longrightarrow>
     ring_ok m (Suc nxt mod m) (Suc n) \<and> ring m (Suc nxt mod m) (Suc n) = ring m nxt n @ [nxt]"
  by (cases "Suc n = m") (auto simp: ring_def ring_ok_def)

lemma ring_full:
  "ring_ok m nxt m \<Longrightarrow>
     hd (ring m nxt m) = nxt \<and> ring_ok m (Suc nxt mod m) m \<and>
     ring m (Suc nxt mod m) m = tl (ring m nxt m) @ [nxt]"
  by (cases "Suc nxt = m") (auto simp: ring_def ring_ok_def upt_conv_Cons)

definition slots_of :: "nat \<Rightarrow> ('t, 'v) traj_cache \<Rightarrow> (int \<times> 'x) list \<Rightarrow> nat list" where
  "slots_of m c q = ring m (last_slot c) (length q)"

definition table_ok :: "nat \<Rightarrow> ('t, 'v) traj_cache \<Rightarrow> (int \<times> 'x) list \<Rightarrow> bool" where
  "table_ok m c q \<longleftrightarrow>
     max_size c = m \<and> ring_ok m (last_slot c) (length q) \<and> distinct (map fst q) \<and>
     cached c = zip (map fst q) (slots_of m c q) \<and>
     map_of (slot_to_id c) = map_of (zip (slots_of m c q) (map fst q))"

definition cache_rel ::
    "('t, 'r, 'k) torch_ops \<Rightarrow> (string list \<Rightarrow> 'k option) \<Rightarrow> nat \<Rightarrow> ('t, 'v) traj_cache
      \<Rightarrow> (int \<times> ('t, 'v) titems) list \<Rightarrow> bool" where
  "cache_rel ops lay m c q \<longleftrightarrow>
     torch_laws ops \<and> table_ok m c q \<and>
     (\<forall>(i, tr) \<in> set q. laid_out ops lay tr \<and>
        (\<exists>ls. key_lengths ops tr = Inr ls \<and> map_of (traj_key_lengths c) i = Some ls)) \<and>
     (case (shared_buffer c, traj_num_samples c) of
        (None, None) \<Rightarrow> q = []
      | (Some b, Some n) \<Rightarrow> buffer_of ops lay m n b \<and>
          (\<forall>((i, tr), s) \<in> set (zip q (slots_of m c q)). fits_slot ops n tr \<and> holds_at ops b (s * n) tr)
      | _ \<Rightarrow> False)"

text \<open>The same tensors at the same paths.\<close>

definition same_tensors ::
    "('t, 'r, 'k) torch_ops \<Rightarrow> ('t, 'v) titems \<Rightarrow> ('t, 'w) titems \<Rightarrow> bool" where
  "same_tensors ops d e \<longleftrightarrow>
     (\<forall>p. rel_option (\<lambda>t u. t_kind ops u = t_kind ops t \<and> t_rows ops u = t_rows ops t) (leaf_at d p) (leaf_at e p))"

lemma make_cache_rel: "torch_laws ops \<Longrightarrow> 0 < m \<Longrightarrow> cache_rel ops lay m (make_cache m) []"
  by (simp add: cache_rel_def table_ok_def make_cache_def ring_ok_def slots_of_def ring_def)

lemma table_slots:
  assumes "table_ok m c q"
  shows "length (slots_of m c q) = length q" "distinct (slots_of m c q)" "\<forall>s \<in> set (slots_of m c q). s < m"
    "map snd (cached c) = slots_of m c q"
  using assms ring_length ring_distinct ring_bound by (auto simp: table_ok_def slots_of_def)

lemma fits_slot_max:
  assumes "torch_laws ops" "tensors_only tr" "key_lengths ops tr = Inr ls" "get_max_num_samples ls \<le> n"
  shows "fits_slot ops n tr"
  unfolding fits_slot_def
proof (intro allI impI)
  fix p t assume "leaf_at tr p = Some t"
  with key_lengths_ok [OF assms(2), of ops] assms(1,3) have "len_at (LDict ls) p = Some (length (t_rows ops t))"
    by (auto simp: torch_shape0)
  then show "length (t_rows ops t) \<le> n" using len_at_max assms(4) le_trans by blast
qed

lemma ensure_capacity_ok:
  fixes c :: "('t, 'v) traj_cache"
  assumes rel: "cache_rel ops lay m c q" and tr: "laid_out ops lay tr" "0 < m"
  shows "\<exists>d b n. ensure_capacity ops c k tr = Inr d \<and> cache_rel ops lay m d q \<and> table_ok m d q \<and>
    shared_buffer d = Some b \<and> traj_num_samples d = Some n \<and> k \<le> n"
proof -
  have laws: "torch_laws ops" and table: "table_ok m c q" using rel by (auto simp: cache_rel_def)
  then have m: "max_size c = m" by (simp add: table_ok_def)
  have same: "table_ok m (c\<lparr>shared_buffer := B, traj_num_samples := N\<rparr>) q \<and>
      slots_of m (c\<lparr>shared_buffer := B, traj_num_samples := N\<rparr>) q = slots_of m c q" for B N
    using table by (simp add: table_ok_def slots_of_def)
  let ?new = "alloc_buffer_like ops tr (m * k)"
  note new = alloc_buffer_of [OF laws tr(1), of m k]
  show ?thesis
  proof (cases "traj_num_samples c")
    case None
    then have "q = []" using rel by (auto simp: cache_rel_def split: option.splits)
    with None m same laws new show ?thesis
      by (auto simp: ensure_capacity_def cache_rel_def)
  next
    case (Some old_len)
    then obtain b where b: "shared_buffer c = Some b" "buffer_of ops lay m old_len b"
      and held: "\<And>i x s. ((i, x), s) \<in> set (zip q (slots_of m c q)) \<Longrightarrow> fits_slot ops old_len x \<and> holds_at ops b (s * old_len) x"
      using rel by (fastforce simp: cache_rel_def split: option.splits)
    show ?thesis
    proof (cases "k \<le> old_len")
      case True
      with Some b rel table show ?thesis by (auto simp: ensure_capacity_def)
    next
      case False
      from copy_slots_ok [OF laws b(2) _ new table_slots(3) [OF table]] False obtain d where
        d: "copy_slots ops b old_len k ?new (slots_of m c q) = Inr d" "buffer_of ops lay m k d"
        and kept: "\<And>j x. laid_out ops lay x \<Longrightarrow> fits_slot ops old_len x \<Longrightarrow> holds_at ops b (j * old_len) x \<Longrightarrow>
           j \<in> set (slots_of m c q) \<Longrightarrow> holds_at ops d (j * k) x"
        by fastforce
      have "fits_slot ops k x \<and> holds_at ops d (s * k) x" if "((i, x), s) \<in> set (zip q (slots_of m c q))" for i x s
      proof -
        have "(i, x) \<in> set q" "s \<in> set (slots_of m c q)"
          using that by (auto dest: set_zip_leftD set_zip_rightD)
        moreover from this rel have "laid_out ops lay x" by (auto simp: cache_rel_def)
        ultimately show ?thesis using held [OF that] kept False by (fastforce simp: fits_slot_def)
      qed
      with rel d(2) same laws have "cache_rel ops lay m (c\<lparr>shared_buffer := Some d, traj_num_samples := Some k\<rparr>) q"
        by (auto simp: cache_rel_def)
      with Some False b(1) d(1) same m table_slots(4) [OF table] show ?thesis
        by (auto simp: ensure_capacity_def)
    qed
  qed
qed

text \<open>Lists of pairs with distinct keys.\<close>

lemma alist_update_fresh: "k \<notin> fst ` set al \<Longrightarrow> AList.update k v al = al @ [(k, v)]"
  by (induction al) auto

lemma map_of_append_fresh: "k \<notin> fst ` set al \<Longrightarrow> map_of (al @ [(k, v)]) = (map_of al)(k \<mapsto> v)"
  by (induction al) (auto simp: fun_upd_twist)

lemma delete_head: "k \<notin> fst ` set al \<Longrightarrow> AList.delete k ((k, v) # al) = al"
  by (simp add: delete_idem)

lemma zip_update_known:
  assumes "i \<in> fst ` set q" "distinct (map fst q)" "length sl = length q" "distinct sl"
  shows "\<exists>slot. map_of (zip (map fst q) sl) i = Some slot \<and> ((i, x), slot) \<in> set (zip (AList.update i x q) sl) \<and>
    (\<forall>(e, s) \<in> set (zip (AList.update i x q) sl). if s = slot then e = (i, x) else (e, s) \<in> set (zip q sl))"
  using assms
proof (induction q arbitrary: sl)
  case (Cons a q)
  then obtain s sl' where sl: "sl = s # sl'" by (cases sl) auto
  show ?case
  proof (cases "fst a = i")
    case True
    with Cons.prems show ?thesis
      by (cases a) (auto simp: sl dest: set_zip_rightD)
  next
    case False
    with Cons.prems have "i \<in> fst ` set q" "distinct (map fst q)" "length sl' = length q" "distinct sl'" "s \<notin> set sl'"
      by (auto simp: sl)
    with Cons.IH [of sl'] obtain slot where "map_of (zip (map fst q) sl') i = Some slot"
      "((i, x), slot) \<in> set (zip (AList.update i x q) sl')"
      "\<forall>(e, s) \<in> set (zip (AList.update i x q) sl'). if s = slot then e = (i, x) else (e, s) \<in> set (zip q sl')"
      by blast
    moreover from this(1) have "slot \<in> set sl'" by (auto dest!: map_of_SomeD set_zip_rightD)
    ultimately show ?thesis using False \<open>s \<notin> set sl'\<close> by (cases a) (fastforce simp: sl)
  qed
qed simp

lemma fst_update_known: "i \<in> fst ` set q \<Longrightarrow> map fst (AList.update i x q) = map fst q"
  by (induction q) auto

text \<open>What \<open>put\<close> does to the tables: the entry of the trajectory, and no other, is in the slot it takes.\<close>

definition slot_taken ::
    "nat \<Rightarrow> ('t, 'v) traj_cache \<Rightarrow> (int \<times> 'x) list \<Rightarrow> ('t, 'v) traj_cache \<Rightarrow> (int \<times> 'x) list \<Rightarrow> int \<Rightarrow> 'x \<Rightarrow> nat \<Rightarrow> bool" where
  "slot_taken m c q d r i x slot \<longleftrightarrow>
     table_ok m d r \<and> shared_buffer d = shared_buffer c \<and> traj_num_samples d = traj_num_samples c \<and>
     ((i, x), slot) \<in> set (zip r (slots_of m d r)) \<and>
     (\<forall>(e, s) \<in> set (zip r (slots_of m d r)).
        if s = slot then e = (i, x) else (e, s) \<in> set (zip q (slots_of m c q))) \<and>
     (\<forall>e \<in> set r. fst e \<noteq> i \<longrightarrow> map_of (traj_key_lengths d) (fst e) = map_of (traj_key_lengths c) (fst e))"

lemma take_slot_known:
  assumes table: "table_ok m c q" and i: "i \<in> fst ` set q"
  shows "\<exists>slot. take_slot c i = Inr (c, slot) \<and> slot_taken m c q c (fifo_put m q i x) i x slot"
proof -
  note slots = table_slots [OF table]
  have q: "distinct (map fst q)" and cached: "cached c = zip (map fst q) (slots_of m c q)"
    using table by (auto simp: table_ok_def)
  have put: "fifo_put m q i x = AList.update i x q" using i by (simp add: fifo_put_def)
  have len: "length (AList.update i x q) = length q"
    using fst_update_known [OF i, of x] by (metis length_map)
  then have same: "slots_of m c (AList.update i x q) = slots_of m c q" by (simp add: slots_of_def)
  have "table_ok m c (AList.update i x q)"
    using table len fst_update_known [OF i, of x] by (simp add: table_ok_def same)
  moreover obtain slot where "map_of (cached c) i = Some slot"
    "((i, x), slot) \<in> set (zip (AList.update i x q) (slots_of m c q))"
    "\<forall>(e, s) \<in> set (zip (AList.update i x q) (slots_of m c q)).
       if s = slot then e = (i, x) else (e, s) \<in> set (zip q (slots_of m c q))"
    using zip_update_known [OF i q slots(1,2), of x] unfolding cached by blast
  ultimately have "slot_taken m c q c (AList.update i x q) i x slot" "take_slot c i = Inr (c, slot)"
    unfolding slot_taken_def take_slot_def same by (blast, simp)
  then show ?thesis unfolding put by blast
qed

lemma zip_append_slots:
  assumes "length sl = length q" "slot \<notin> set sl" "set (zip q sl) \<subseteq> P"
  shows "((i, x), slot) \<in> set (zip (q @ [(i, x)]) (sl @ [slot])) \<and>
    (\<forall>(e, s) \<in> set (zip (q @ [(i, x)]) (sl @ [slot])). if s = slot then e = (i, x) else (e, s) \<in> P)"
proof -
  have "set (zip (q @ [(i, x)]) (sl @ [slot])) = insert ((i, x), slot) (set (zip q sl))"
    using assms(1) by simp
  moreover have "s \<noteq> slot" if "(e, s) \<in> set (zip q sl)" for e s
    using that assms(2) by (auto dest: set_zip_rightD)
  ultimately show ?thesis using assms(3) by auto
qed

text \<open>Making room: \<open>q0\<close> and \<open>sl0\<close> are what is left of the entries and of their slots.\<close>

definition room_made ::
    "nat \<Rightarrow> ('t, 'v) traj_cache \<Rightarrow> (int \<times> 'x) list \<Rightarrow> (int \<times> 'x) list \<Rightarrow> nat list \<Rightarrow> ('t, 'v) traj_cache \<Rightarrow> bool" where
  "room_made m c q q0 sl0 d \<longleftrightarrow>
     last_slot c \<notin> set sl0 \<and> length sl0 = length q0 \<and> set (zip q0 sl0) \<subseteq> set (zip q (slots_of m c q)) \<and>
     ring_ok m (Suc (last_slot c) mod m) (Suc (length q0)) \<and>
     ring m (Suc (last_slot c) mod m) (Suc (length q0)) = sl0 @ [last_slot c] \<and>
     d = c\<lparr>cached := zip (map fst q0) sl0, traj_key_lengths := traj_key_lengths d\<rparr> \<and>
     (\<forall>i. (map_of (slot_to_id c))(last_slot c \<mapsto> i) = (map_of (zip sl0 (map fst q0)))(last_slot c \<mapsto> i)) \<and>
     (\<forall>e \<in> set q0. map_of (traj_key_lengths d) (fst e) = map_of (traj_key_lengths c) (fst e))"

lemma evict_room:
  fixes c :: "('t, 'v) traj_cache" and q :: "(int \<times> 'x) list"
  assumes table: "table_ok m c q" and m: "0 < m"
  shows "room_made m c q (drop (Suc (length q) - m) q) (drop (Suc (length q) - m) (slots_of m c q)) (evict c (last_slot c))"
proof -
  note slots = table_slots [OF table]
  have ring: "ring_ok m (last_slot c) (length q)" and q: "distinct (map fst q)"
    and cached: "cached c = zip (map fst q) (slots_of m c q)"
    and ids: "map_of (slot_to_id c) = map_of (zip (slots_of m c q) (map fst q))"
    using table by (auto simp: table_ok_def)
  show ?thesis
  proof (cases "length q < m")
    case True
    then have free: "last_slot c \<notin> set (slots_of m c q)" using ring_free ring by (simp add: slots_of_def)
    then have "map_of (slot_to_id c) (last_slot c) = None"
      by (auto simp: ids map_of_eq_None_iff dest: set_zip_leftD)
    then have ev: "evict c (last_slot c) = c" by (simp add: evict_def)
    have "c = c\<lparr>cached := zip (map fst q) (slots_of m c q), traj_key_lengths := traj_key_lengths c\<rparr>"
      by (simp flip: cached)
    then show ?thesis
      unfolding room_made_def ev using True free slots(1) ring_push [OF ring True] ids by (simp add: slots_of_def)
  next
    case False
    then have full: "length q = m" using ring by (simp add: ring_ok_def)
    with m obtain j y q0 where qe: "q = (j, y) # q0" by (cases q) auto
    from slots(1) full m obtain sl0 where se: "slots_of m c q = last_slot c # sl0"
      using ring_full [of m "last_slot c"] ring by (cases "slots_of m c q") (auto simp: slots_of_def)
    have len: "length sl0 = length q0" "last_slot c \<notin> set sl0" "j \<notin> fst ` set q0" using slots(1,2) q unfolding se by (auto simp: qe)
    have id: "map_of (slot_to_id c) = (map_of (zip sl0 (map fst q0)))(last_slot c \<mapsto> j)"
      unfolding ids se by (simp add: qe)
    have "cached c = (j, last_slot c) # zip (map fst q0) sl0" unfolding cached se by (simp add: qe)
    moreover have "j \<notin> fst ` set (zip (map fst q0) sl0)" using len by (auto dest: set_zip_leftD)
    ultimately have ev: "evict c (last_slot c) =
        c\<lparr>cached := zip (map fst q0) sl0, traj_key_lengths := AList.delete j (traj_key_lengths c)\<rparr>"
      using id by (simp add: evict_def delete_idem)
    have "map_of (AList.delete j (traj_key_lengths c)) (fst e) = map_of (traj_key_lengths c) (fst e)" if "e \<in> set q0" for e
      using that len(3) by (auto simp: delete_conv')
    moreover have "ring m (Suc (last_slot c) mod m) m = sl0 @ [last_slot c]" "ring_ok m (Suc (last_slot c) mod m) m"
      using ring_full [of m "last_slot c"] ring full se by (auto simp: slots_of_def)
    ultimately show ?thesis
      using full len id by (simp add: room_made_def ev se) (auto simp: qe)
  qed
qed

lemma take_slot_new:
  fixes c :: "('t, 'v) traj_cache" and q :: "(int \<times> 'x) list"
  assumes table: "table_ok m c q" and i: "i \<notin> fst ` set q" and m: "0 < m"
  shows "\<exists>d slot. take_slot c i = Inr (d, slot) \<and> slot_taken m c q d (fifo_put m q i x) i x slot"
proof -
  define q0 sl0 where "q0 = drop (Suc (length q) - m) q" and "sl0 = drop (Suc (length q) - m) (slots_of m c q)"
  define e where "e = evict c (last_slot c)"
  define d where "d = e\<lparr>slot_to_id := AList.update (last_slot c) i (slot_to_id e),
    cached := AList.update i (last_slot c) (cached e), last_slot := Suc (last_slot c) mod m\<rparr>"
  have "room_made m c q q0 sl0 e" unfolding q0_def sl0_def e_def by (rule evict_room [OF table m])
  then have free: "last_slot c \<notin> set sl0" and len: "length sl0 = length q0"
    and sub: "set (zip q0 sl0) \<subseteq> set (zip q (slots_of m c q))"
    and ring: "ring_ok m (Suc (last_slot c) mod m) (Suc (length q0))"
      "ring m (Suc (last_slot c) mod m) (Suc (length q0)) = sl0 @ [last_slot c]"
    and e: "e = c\<lparr>cached := zip (map fst q0) sl0, traj_key_lengths := traj_key_lengths e\<rparr>"
    and ids: "\<And>i. (map_of (slot_to_id c))(last_slot c \<mapsto> i) = (map_of (zip sl0 (map fst q0)))(last_slot c \<mapsto> i)"
    and lens: "\<forall>x \<in> set q0. map_of (traj_key_lengths e) (fst x) = map_of (traj_key_lengths c) (fst x)"
    unfolding room_made_def by blast+
  have q: "distinct (map fst q)" "max_size c = m" and cached: "cached c = zip (map fst q) (slots_of m c q)"
    using table by (auto simp: table_ok_def)
  have i0: "i \<notin> fst ` set q0" using i by (auto simp: q0_def dest: in_set_dropD)
  have q0: "distinct (map fst (q0 @ [(i, x)]))"
    using q(1) i0 distinct_drop [OF q(1)] by (simp add: q0_def drop_map)
  have put: "fifo_put m q i x = q0 @ [(i, x)]"
    using i m by (auto simp: fifo_put_def q0_def Suc_diff_le)
  have take: "take_slot c i = Inr (d, last_slot c)"
  proof -
    have "map_of (cached c) i = None"
      using i by (auto simp: cached map_of_eq_None_iff dest: set_zip_leftD)
    moreover have "max_size e = m" "last_slot e = last_slot c" by (subst e, simp add: q(2))+
    ultimately show ?thesis using m by (simp add: take_slot_def Let_def d_def flip: e_def)
  qed
  have fields: "max_size d = m" "last_slot d = Suc (last_slot c) mod m" "shared_buffer d = shared_buffer c"
      "traj_num_samples d = traj_num_samples c" "slot_to_id d = AList.update (last_slot c) i (slot_to_id c)"
      "cached d = AList.update i (last_slot c) (zip (map fst q0) sl0)" "traj_key_lengths d = traj_key_lengths e"
    unfolding d_def by (subst e, simp add: q(2))+
  have slots: "slots_of m d (q0 @ [(i, x)]) = sl0 @ [last_slot c]"
    using ring(2) by (simp add: slots_of_def fields)
  have "i \<notin> fst ` set (zip (map fst q0) sl0)" using i0 by (auto dest: set_zip_leftD)
  have "last_slot c \<notin> fst ` set (zip sl0 (map fst q0))" using free by (auto dest: set_zip_leftD)
  note map_of_append_fresh [OF this, of i]
  moreover have "zip (sl0 @ [last_slot c]) (map fst (q0 @ [(i, x)])) = zip sl0 (map fst q0) @ [(last_slot c, i)]"
    using len by simp
  ultimately have "map_of (slot_to_id d) = map_of (zip (sl0 @ [last_slot c]) (map fst (q0 @ [(i, x)])))"
    by (simp only: fields update_conv' ids)
  moreover have "cached d = zip (map fst (q0 @ [(i, x)])) (sl0 @ [last_slot c])"
    using \<open>i \<notin> fst ` set (zip (map fst q0) sl0)\<close> len by (simp add: fields alist_update_fresh)
  ultimately have "table_ok m d (q0 @ [(i, x)])"
    using q0 ring(1) by (simp add: table_ok_def slots fields)
  then have "slot_taken m c q d (q0 @ [(i, x)]) i x (last_slot c)"
    unfolding slot_taken_def slots using zip_append_slots [OF len free sub, of i x] fields lens by auto
  with take show ?thesis unfolding put by blast
qed

text \<open>\<open>put\<close> and \<open>get\<close> keep the relation to the abstract cache.\<close>

lemma put_rel:
  assumes rel: "cache_rel ops lay m c q" and tr: "laid_out ops lay tr" and m: "0 < m"
  shows "\<exists>d. cache_put ops c i tr = Inr d \<and> cache_rel ops lay m d (fifo_put m q i tr)"
proof -
  have laws: "torch_laws ops" using rel by (simp add: cache_rel_def)
  have only: "tensors_only tr" "tr \<noteq> []" using tr by (auto simp: laid_out_def)
  obtain ls where ls: "key_lengths ops tr = Inr ls" "ls \<noteq> []"
    using key_lengths_ok [OF only(1), of ops] only(2) by auto
  obtain d b n where d: "ensure_capacity ops c (get_max_num_samples ls) tr = Inr d" "cache_rel ops lay m d q"
      "table_ok m d q" "shared_buffer d = Some b" "traj_num_samples d = Some n" "get_max_num_samples ls \<le> n"
    using ensure_capacity_ok [OF rel tr m] by blast
  obtain e slot where e: "take_slot d i = Inr (e, slot)" "slot_taken m d q e (fifo_put m q i tr) i tr slot"
    using take_slot_known [OF d(3)] take_slot_new [OF d(3) _ m] by metis
  let ?r = "fifo_put m q i tr"
  have table: "table_ok m e ?r" and buf: "shared_buffer e = Some b" "traj_num_samples e = Some n"
    and there: "((i, tr), slot) \<in> set (zip ?r (slots_of m e ?r))"
    and others: "\<And>j x s. ((j, x), s) \<in> set (zip ?r (slots_of m e ?r)) \<Longrightarrow>
       if s = slot then (j, x) = (i, tr) else ((j, x), s) \<in> set (zip q (slots_of m d q))"
    and lens: "\<And>x. x \<in> set ?r \<Longrightarrow> fst x \<noteq> i \<Longrightarrow>
       map_of (traj_key_lengths e) (fst x) = map_of (traj_key_lengths d) (fst x)"
    using e(2) d(4,5) by (auto simp: slot_taken_def)
  have slot: "slot < m" using there table_slots(3) [OF table] by (auto dest: set_zip_rightD)
  have buffer: "buffer_of ops lay m n b"
    and held: "\<And>j x s. ((j, x), s) \<in> set (zip q (slots_of m d q)) \<Longrightarrow> fits_slot ops n x \<and> holds_at ops b (s * n) x"
    and known: "\<And>j x. (j, x) \<in> set q \<Longrightarrow> laid_out ops lay x \<and>
        (\<exists>ls. key_lengths ops x = Inr ls \<and> map_of (traj_key_lengths d) j = Some ls)"
    using d(2,4,5) by (auto simp: cache_rel_def)
  have tr_n: "fits_slot ops n tr" using fits_slot_max [OF laws only(1) ls(1) d(6)] .
  obtain f where f: "insert_into_buffer ops tr b (slot * n) = Inr f" "buffer_of ops lay m n f"
      "holds_at ops f (slot * n) tr" "keeps_slots ops lay n slot b f"
    using insert_holds [OF laws tr tr_n buffer slot] by blast
  define g where "g = e\<lparr>shared_buffer := Some f, traj_key_lengths := AList.update i ls (traj_key_lengths e)\<rparr>"
  have put: "cache_put ops c i tr = Inr g"
    using ls d(1) e(1) buf f(1) by (simp add: cache_put_def get_key_lengths_def g_def)
  have slots: "slots_of m g ?r = slots_of m e ?r" by (simp add: slots_of_def g_def)
  have "fits_slot ops n x \<and> holds_at ops f (s * n) x" if x: "((j, x), s) \<in> set (zip ?r (slots_of m e ?r))" for j x s
  proof (cases "s = slot")
    case True
    with others [OF x] f(3) tr_n show ?thesis by auto
  next
    case False
    with others [OF x] have "((j, x), s) \<in> set (zip q (slots_of m d q))" by auto
    moreover from this have "laid_out ops lay x" using known by (auto dest: set_zip_leftD)
    ultimately show ?thesis using held f(4) False by (auto simp: keeps_slots_def)
  qed
  moreover have "laid_out ops lay x \<and> (\<exists>ls. key_lengths ops x = Inr ls \<and> map_of (traj_key_lengths g) j = Some ls)"
    if x: "(j, x) \<in> set ?r" for j x
  proof -
    obtain s where "((j, x), s) \<in> set (zip ?r (slots_of m e ?r))"
      using x table_slots(1) [OF table] by (metis in_set_impl_in_set_zip1)
    note pair = others [OF this]
    have dist: "distinct (map fst ?r)" using table by (simp add: table_ok_def)
    show ?thesis
    proof (cases "j = i")
      case True
      with x there dist have "x = tr" by (metis eq_key_imp_eq_value set_zip_leftD)
      with True tr ls show ?thesis by (simp add: g_def update_conv')
    next
      case False
      with pair have "(j, x) \<in> set q" by (auto split: if_splits dest: set_zip_leftD)
      with known lens [OF x] False show ?thesis by (simp add: g_def update_conv')
    qed
  qed
  moreover have "table_ok m g ?r" using table by (simp add: table_ok_def slots_of_def g_def)
  ultimately have "cache_rel ops lay m g ?r"
    using laws f(2) buf unfolding cache_rel_def slots by (auto simp: g_def)
  with put show ?thesis by blast
qed

lemma cached_entry:
  assumes rel: "cache_rel ops lay m c q" and q: "map_of q i = Some tr"
  shows "\<exists>slot b n ls. map_of (cached c) i = Some slot \<and> shared_buffer c = Some b \<and> traj_num_samples c = Some n \<and>
    buffer_of ops lay m n b \<and> fits_slot ops n tr \<and> holds_at ops b (slot * n) tr \<and> slot < m \<and> laid_out ops lay tr \<and>
    key_lengths ops tr = Inr ls \<and> map_of (traj_key_lengths c) i = Some ls"
proof -
  have table: "table_ok m c q" using rel by (simp add: cache_rel_def)
  note slots = table_slots [OF table]
  have mem: "(i, tr) \<in> set q" using q by (rule map_of_SomeD)
  then obtain k where k: "k < length q" "q ! k = (i, tr)" by (metis in_set_conv_nth)
  define slot where "slot = slots_of m c q ! k"
  have pair: "((i, tr), slot) \<in> set (zip q (slots_of m c q))"
    using k slots(1) unfolding slot_def set_zip by (metis (mono_tags, lifting) mem_Collect_eq min.idem)
  have "zip (map fst q) (slots_of m c q) = map (\<lambda>(e, s). (fst e, s)) (zip q (slots_of m c q))"
    by (simp add: zip_map1)
  with pair table have "(i, slot) \<in> set (cached c)" by (force simp: table_ok_def)
  moreover have "distinct (map fst (cached c))" using table slots(1) by (simp add: table_ok_def)
  ultimately have "map_of (cached c) i = Some slot" by simp
  moreover have "q \<noteq> []" using mem by auto
  ultimately show ?thesis
    using rel mem pair slots(3) unfolding cache_rel_def
    by (auto split: option.splits dest: set_zip_rightD) 
qed

lemma uncached_entry:
  assumes "cache_rel ops lay m c q" "map_of q i = None"
  shows "map_of (cached c) i = None"
  using assms by (auto simp: cache_rel_def table_ok_def map_of_eq_None_iff dest: set_zip_leftD)

lemma get_entry:
  assumes rel: "cache_rel ops lay m c q" and Some: "map_of q i = Some tr"
  shows "\<exists>out. cache_get ops c i = Inr (Some out) \<and> laid_out ops lay out \<and> same_tensors ops tr out"
proof -
  have laws: "torch_laws ops" using rel by (simp add: cache_rel_def)
  obtain slot b n ls where c: "map_of (cached c) i = Some slot" "shared_buffer c = Some b" "traj_num_samples c = Some n"
      "map_of (traj_key_lengths c) i = Some ls"
    and b: "buffer_of ops lay m n b" and tr: "holds_at ops b (slot * n) tr" "laid_out ops lay tr"
    and ls: "key_lengths ops tr = Inr ls"
    using cached_entry [OF rel Some] by blast
  have lens: "len_at (LDict ls) p = map_option (\<lambda>t. length (t_rows ops t)) (leaf_at tr p)" for p
    using key_lengths_ok [of tr ops] tr(2) ls by (auto simp: laid_out_def torch_shape0 [OF laws, abs_def])
  note kinds = laid_out_kind [OF buffer_leaf [OF b] tr(2)] laid_out_kind [OF tr(2) buffer_leaf [OF b]]
  have "tensors_only b" "\<exists>l. len_at (LDict ls) p = Some l" if "leaf_at b p = Some u" for p u
    using b kinds(1) [OF that] by (auto simp: buffer_of_def laid_out_def lens)
  moreover have b_only: "tensors_only b" "b \<noteq> []" using b by (simp_all add: buffer_of_def laid_out_def)
  ultimately obtain out where out: "slice_from_buffer_with_lengths ops n b (slot * n) (Some (LDict ls)) = Inr out"
      "tensors_only out" "out = [] \<longleftrightarrow> b = []"
      "\<And>p. leaf_at out p = map_option (\<lambda>u. t_cut ops u (slot * n) (slot * n + the (len_at (LDict ls) p))) (leaf_at b p)"
    using slice_ok [of b ls ops n "slot * n"] by blast
  have "rel_option (\<lambda>t u. t_kind ops u = t_kind ops t \<and> t_rows ops u = t_rows ops t) (leaf_at tr p) (leaf_at out p)" for p
  proof (cases "leaf_at tr p")
    case None
    with kinds(1) [of p] have "leaf_at b p = None" by (cases "leaf_at b p") auto
    with None out(4) show ?thesis by simp
  next
    case (Some t)
    with kinds(2) obtain u where u: "leaf_at b p = Some u" "t_kind ops u = t_kind ops t" by blast
    with Some tr(1) show ?thesis
      by (simp add: out(4) lens torch_cut [OF laws] holds_at_def)
  qed
  then have same: "same_tensors ops tr out" by (simp add: same_tensors_def)
  have "map_option (t_kind ops) (leaf_at out p) = map_option (t_kind ops) (leaf_at tr p)" for p
    using same [unfolded same_tensors_def, rule_format, of p] by (cases "leaf_at tr p"; cases "leaf_at out p") simp_all
  then have "laid_out ops lay out" using laid_out_same [OF tr(2) out(2)] out(3) b_only(2) by blast
  with same c Some out(1) show ?thesis by (simp add: cache_get_def)
qed

lemma get_rel:
  assumes rel: "cache_rel ops lay m c q"
  shows "\<exists>r. cache_get ops c i = Inr r \<and> rel_option (same_tensors ops) (map_of q i) r"
proof (cases "map_of q i")
  case None
  with uncached_entry [OF rel] show ?thesis by (simp add: cache_get_def)
next
  case (Some tr)
  with get_entry [OF rel Some] show ?thesis by auto
qed

interpretation tc: fifo_cache "cache_put ops" "cache_get ops" m "\<lambda>c q. 0 < m \<and> cache_rel ops lay m c q"
    "laid_out ops lay" "same_tensors ops" for ops lay m
  by unfold_locales (auto dest: put_rel get_rel)

text \<open>
  C7. From an empty cache of \<open>m\<close> slots, storing trajectories of one layout (the same keys, and
  tensors of the same kind behind them) never fails, whatever their lengths, and afterwards \<open>get\<close>
  finds exactly the last \<open>m\<close> of them, each with the tensors it was stored with. \<open>torch_laws\<close> is
  what torch documents of its operations.
\<close>

theorem cache_keeps_recent:
  fixes ops :: "('t, 'r, 'k) torch_ops" and ps :: "(int \<times> ('t, 'v) titems) list"
  assumes "torch_laws ops" "0 < m" "\<forall>(i, tr) \<in> set ps. laid_out ops lay tr" "distinct (map fst ps)"
  shows "\<exists>c. rfold (\<lambda>c (i, tr). cache_put ops c i tr) (make_cache m) ps = Inr c \<and>
    (\<forall>i. \<exists>r. cache_get ops c i = Inr r \<and>
       rel_option (same_tensors ops) (map_of (drop (length ps - m) ps) i) r)"
  using tc.recent_kept [of m ops lay "make_cache m" ps] make_cache_rel [OF assms(1,2)] assms by blast

theorem cache_keeps_recent_witness:
  "\<exists>c. rfold (\<lambda>c (i, tr). cache_put list_torch c i tr) (make_cache 2)
      [(7, [(''a'', NTensor (0, [1, 2])), (''o'', NDict [(''x'', NTensor (1, [5]))])]),
       (8, [(''a'', NTensor (0, [3])), (''o'', NDict [(''x'', NTensor (1, [6]))])]),
       (9, [(''a'', NTensor (0, [4, 5, 6])), (''o'', NDict [(''x'', NTensor (1, [7 :: int]))] :: (nat \<times> int list, unit) tnode)])] = Inr c \<and>
    (\<forall>i. \<exists>r. cache_get list_torch c i = Inr r \<and>
       rel_option (same_tensors list_torch)
         (map_of [(8, [(''a'', NTensor (0, [3])), (''o'', NDict [(''x'', NTensor (1, [6]))])]),
            (9, [(''a'', NTensor (0, [4, 5, 6])), (''o'', NDict [(''x'', NTensor (1, [7]))] :: (nat \<times> int list, unit) tnode)])] i) r)"
proof -
  let ?tr = "\<lambda>v w. [(''a'', NTensor (0, v)), (''o'', NDict [(''x'', NTensor (1, w))] :: (nat \<times> int list, unit) tnode)]"
  define lay where "lay p = map_option fst (leaf_at (?tr [] []) p)" for p
  have tensors: "leaf_at (?tr v w) p = (if p = [''a''] then Some (0, v) else if p = [''o'', ''x''] then Some (1, w) else None)" for v w p
    by (auto simp: leaf_at_Cons simp del: leaf.simps split: list.splits)
  have "laid_out list_torch lay (?tr v w)" for v w
    unfolding laid_out_def lay_def tensors by (auto simp: list_torch_def)
  then show ?thesis
    using cache_keeps_recent [OF list_torch_laws, of 2 "[(7, ?tr [1, 2] [5]), (8, ?tr [3] [6]), (9, ?tr [4, 5, 6] [7])]" lay]
    by simp
qed

end
