(* ===== verification/Replay_Buffer.thy ===== *)
theory Replay_Buffer
  imports Trajectory_Cache
begin

text \<open>
  \<open>TrajectoryReplayBuffer\<close> of \<^verbatim>\<open>rlinf/data/storage/replay/buffer.py\<close>: adding
  trajectories, the index of the buffer, and sampling rows of the most recent
  trajectories from the cache or from disk.

  The parts of \<open>add_trajectories\<close> and of \<open>sample_chunks\<close> that hold the index
  lock are definitions of their own (\<open>index_add\<close>, \<open>sample_window\<close>), so that runs
  of several threads can be composed from them. The disk is a map from file
  names to trajectories; a save that was submitted to the executor waits in
  \<open>pending_saves\<close> until \<open>run_saves\<close>.
\<close>

section \<open>Trajectories\<close>

record ('t, 'v) trajectory =
  tj_max_episode_length :: int
  tj_model_weights_id :: string
  tj_actions :: "'t option"
  tj_intervene_flags :: "'t option"
  tj_rewards :: "'t option"
  tj_terminations :: "'t option"
  tj_truncations :: "'t option"
  tj_dones :: "'t option"
  tj_prev_logprobs :: "'t option"
  tj_prev_values :: "'t option"
  tj_versions :: "'t option"
  tj_forward_inputs :: "('t, 'v) titems"
  tj_curr_obs :: "('t, 'v) titems"
  tj_next_obs :: "('t, 'v) titems"


text \<open>
  Shapes: \<open>t.shape\<close>, \<open>t.reshape(ds)\<close> and \<open>t[:, 1:]\<close>; and the index arithmetic
  torch does for \<open>sample_chunks\<close>: \<open>torch.randint(0, high, (n,), generator=g)\<close>,
  \<open>torch.bucketize(s, ends, right=True)\<close> for one \<open>s\<close>, \<open>torch.unique\<close>. What a
  \<open>torch.Generator\<close> draws is determined by the seed it was given and the draws made
  since, which are its state here.
\<close>

record generator =
  gen_seed :: int
  gen_draws :: "(int \<times> nat) list"

definition seeded :: "int \<Rightarrow> generator" where
  "seeded seed = \<lparr>gen_seed = seed, gen_draws = []\<rparr>"



section \<open>Flattening\<close>







section \<open>The buffer\<close>

record traj_info =
  ti_num_samples :: int
  ti_max_episode_length :: int
  ti_shape :: "int list"
  ti_model_weights_id :: string

text \<open>A trajectory file: its directory, and the id and weights id in its name.\<close>

type_synonym traj_file = "string \<times> int \<times> string"

record ('t, 'v) replay_buffer =
  rb_auto_save :: bool
  rb_auto_save_path :: string
  rb_window_size :: nat
  rb_index :: "(int \<times> traj_info) list"
  rb_ids :: "int list"
  rb_file_path :: "(int \<times> string) list"
  rb_counter :: int
  rb_version :: int
  rb_cache :: "('t, 'v) traj_cache option"
  rb_win_size :: "nat option"
  rb_win_version :: "int option"
  rb_win_ids :: "int list"
  rb_win_ends :: "int list"
  rb_win_total :: int
  rb_size :: int
  rb_total_samples :: int
  rb_seed :: int
  rb_generator :: generator
  rb_pending :: "(traj_file \<times> ('t, 'v) trajectory) list"
  rb_disk :: "(traj_file \<times> ('t, 'v) trajectory) list"

text \<open>
  \<open>__init__\<close>: without \<open>auto_save\<close> the cache is switched on and as large as the
  sampling window.
\<close>

definition init_random_generator :: "int \<Rightarrow> ('t, 'v) replay_buffer \<Rightarrow> ('t, 'v) replay_buffer" where
  "init_random_generator seed b = b\<lparr>rb_generator := seeded seed\<rparr>"


section \<open>Adding trajectories\<close>







text \<open>The executor writes what was submitted, in order.\<close>

definition run_saves :: "('t, 'v) replay_buffer \<Rightarrow> ('t, 'v) replay_buffer" where
  "run_saves b = b\<lparr>rb_disk := fold (\<lambda>(f, tr). AList.update f tr) (rb_pending b) (rb_disk b), rb_pending := []\<rparr>"


definition is_ready :: "('t, 'v) replay_buffer \<Rightarrow> int \<Rightarrow> bool" where
  "is_ready b min_size = (rb_size b \<ge> min_size)"

definition buffer_clear :: "('t, 'v) replay_buffer \<Rightarrow> ('t, 'v) replay_buffer" where
  "buffer_clear b = b\<lparr>rb_index := [], rb_ids := [], rb_file_path := [],
     rb_cache := map_option cache_clear (rb_cache b), rb_size := 0, rb_total_samples := 0, rb_counter := 0\<rparr>"

definition get_stats :: "('t, 'v) replay_buffer \<Rightarrow> (string \<times> int) list" where
  "get_stats b =
     [(''num_trajectories'', rb_size b), (''total_samples'', rb_total_samples b),
      (''cache_size'', case rb_cache b of None \<Rightarrow> 0 | Some c \<Rightarrow> int (length (cached c)))]"

section \<open>Sampling\<close>






















section \<open>Drawn numbers and rows\<close>

text \<open>The running sums of the numbers of rows, and where a drawn number falls.\<close>

fun running_ends :: "int \<Rightarrow> int list \<Rightarrow> int list" where
  "running_ends r [] = []"
| "running_ends r (n # ns) = (r + n) # running_ends (r + n) ns"



lemma length_running_ends [simp]: "length (running_ends r ns) = length ns"
  by (induction r ns rule: running_ends.induct) auto





section \<open>Filling a batch\<close>







section \<open>Concatenating trajectories\<close>









section \<open>Sampling draws rows of the window\<close>



















section \<open>The state after adding trajectories\<close>










section \<open>Sampling after any run\<close>
















lemma run_saves_generator [simp]: "rb_generator (run_saves b) = rb_generator b"
  by (simp add: run_saves_def)










end
