(* ===== verification/Replay_Threads.thy ===== *)
theory Replay_Threads
  imports Replay_Buffer
begin

text \<open>
  The replay buffer with two threads: \<open>PreloadReplayBufferDataset\<close> of
  \<^verbatim>\<open>rlinf/data/storage/replay/dataset.py\<close> samples in a background thread while
  the worker adds trajectories. \<open>sample_chunks\<close> holds the index lock only while it
  reads the window; what happens to the cache between that and the gathering of
  rows is not excluded.
\<close>

section \<open>A trajectory is added while rows are sampled\<close>










end
