(* ===== verification/Replay_Checkpoint.thy ===== *)
theory Replay_Checkpoint
  imports Replay_Buffer
begin

text \<open>
  Checkpoints of \<open>TrajectoryReplayBuffer\<close> (\<open>save_checkpoint\<close>, \<open>load_checkpoint\<close>,
  \<open>_reshape_flat_for_save\<close> of \<^verbatim>\<open>rlinf/data/storage/replay/buffer.py\<close>): the
  trajectories go to files of their own, the counters to \<open>metadata.json\<close> and the
  index to \<open>trajectory_index.json\<close>. A buffer is saved and loaded whole, or loaded
  in parts by the ranks of a distributed run.

  The directory of a checkpoint is a map from its name to the contents of the two
  JSON files. The seed is saved, the state of the generator is not: loading starts
  the generator again from the saved seed. The file format is not part of the state.
\<close>

section \<open>Saving\<close>












section \<open>Loading\<close>

text \<open>The ids of a rank; the part sizes differ by at most one.\<close>

definition shard :: "'a list \<Rightarrow> int \<Rightarrow> int \<Rightarrow> 'a list" where
  "shard ids rank world_size =
     (let per_split = int (length ids) div world_size;
          remainder = int (length ids) mod world_size;
          start_idx = rank * per_split + min rank remainder;
          stop_idx = start_idx + per_split + (if rank < remainder then 1 else 0) in
      py_slice ids start_idx stop_idx)"





section \<open>The parts of a distributed load\<close>

definition shard_start :: "nat \<Rightarrow> nat \<Rightarrow> nat \<Rightarrow> nat" where
  "shard_start n ws r = r * (n div ws) + min r (n mod ws)"

lemma shard_start_Suc: "shard_start n ws (Suc r) = shard_start n ws r + n div ws + (if r < n mod ws then 1 else 0)"
  by (auto simp: shard_start_def min_def)

lemma shard_start_all:
  assumes "0 < ws"
  shows "shard_start n ws ws = n"
proof -
  have "n mod ws < ws" using assms by simp
  then show ?thesis unfolding shard_start_def by (simp add: min_absorb2)
qed

lemma shard_take: "shard ids (int r) (int ws) = take (shard_start (length ids) ws (Suc r) - shard_start (length ids) ws r) (drop (shard_start (length ids) ws r) ids)"
proof -
  let ?n = "length ids"
  have "int r * (int ?n div int ws) + min (int r) (int ?n mod int ws) = int (shard_start ?n ws r)"
    by (simp add: shard_start_def flip: zdiv_int zmod_int of_nat_min)
  moreover have "int (shard_start ?n ws r) + int ?n div int ws + (if int r < int ?n mod int ws then 1 else 0) = int (shard_start ?n ws (Suc r))"
    by (simp add: shard_start_Suc flip: zdiv_int zmod_int)
  ultimately show ?thesis by (simp add: shard_def Let_def py_slice_nat)
qed

lemma shard_concat:
  assumes "f 0 = (0 :: nat)" "\<And>r. f r \<le> f (Suc r)"
  shows "concat (map (\<lambda>r. take (f (Suc r) - f r) (drop (f r) xs)) [0..<k]) = take (f k) xs"
proof (induction k)
  case (Suc k)
  then show ?case using take_add [of "f k" "f (Suc k) - f k" xs] assms(2) [of k] by simp
qed (simp add: assms(1))

lemma shards_partition:
  assumes "0 < ws"
  shows "concat (map (\<lambda>r. shard ids (int r) (int ws)) [0..<ws]) = ids"
    "r < ws \<Longrightarrow> length (shard ids (int r) (int ws)) = length ids div ws + (if r < length ids mod ws then 1 else 0)"
proof -
  let ?c = "shard_start (length ids) ws"
  have mono: "?c r \<le> ?c (Suc r)" for r by (simp add: shard_start_Suc)
  have zero: "?c 0 = 0" by (simp add: shard_start_def)
  show "concat (map (\<lambda>r. shard ids (int r) (int ws)) [0..<ws]) = ids"
    unfolding shard_take using shard_concat [of ?c ids ws, OF zero mono] shard_start_all [OF assms] by simp
  assume "r < ws"
  then have "?c (Suc r) \<le> ?c ws" by (intro lift_Suc_mono_le [of ?c, OF mono]) (rule Suc_leI)
  then have "?c (Suc r) \<le> length ids" unfolding shard_start_all [OF assms] .
  moreover have "length (shard ids (int r) (int ws)) = min (length ids - ?c r) (?c (Suc r) - ?c r)"
    unfolding shard_take by simp
  ultimately have "length (shard ids (int r) (int ws)) = ?c (Suc r) - ?c r" by linarith
  then show "length (shard ids (int r) (int ws)) = length ids div ws + (if r < length ids mod ws then 1 else 0)"
    by (simp add: shard_start_Suc)
qed

section \<open>Flattening what was unflattened\<close>

definition tmap :: "('t \<Rightarrow> 't) \<Rightarrow> ('t, 'v) titems \<Rightarrow> ('t, 'v) titems" where
  "tmap f = map (\<lambda>(k, n). (k, map_tnode f (\<lambda>v. v) n))"

lemma tmap_simps [simp]:
  "tmap f [] = []" "tmap f ((k, NTensor t) # r) = (k, NTensor (f t)) # tmap f r"
  "tmap f ((k, NDict d) # r) = (k, NDict (tmap f d)) # tmap f r"
  "tmap f ((k, NOther v) # r) = (k, NOther v) # tmap f r"
  by (auto simp: tmap_def map_prod_def)

lemma tmap_keys [simp]: "fst ` set (tmap f d) = fst ` set d"
  by (force simp: tmap_def)


lemma tmap_Nil [simp]: "tmap f d = [] \<longleftrightarrow> d = []"
  by (simp add: tmap_def)



lemma map_of_tmap: "map_of (tmap f d) k = map_option (map_tnode f (\<lambda>v. v)) (map_of d k)"
  by (simp add: tmap_def map_of_map)

































section \<open>Saving a buffer and loading it\<close>

lemma make_cache_max [simp]: "max_size (make_cache m) = m"
  by (simp add: make_cache_def)






























section \<open>With lists as tensors\<close>














end
