(* ===== verification/Preload_Dataset.thy ===== *)
theory Preload_Dataset
  imports Tensor_Dict "HOL-Library.Sublist"
begin

text \<open>
  \<open>ReplayBufferDataset\<close> and \<open>PreloadReplayBufferDataset\<close> of
  \<^verbatim>\<open>rlinf/data/storage/replay/dataset.py\<close>: batches drawn from a replay buffer and,
  if there is one, from a demonstration buffer, either on request or by a
  background thread that keeps a bounded queue filled.

  The sampling thread and the iterator are two processes over the queue, the stop
  event and the exception field. A turn of the thread is one round of its loop, a
  turn of the iterator one test of its loop condition or one timed
  \<open>get\<close>; what the buffers answer in a round is the argument of the turn.
\<close>

section \<open>Batches\<close>

text \<open>\<open>concat_batch\<close> of \<^verbatim>\<open>rlinf/utils/nested_dict_process.py\<close>: keys that the second lacks are left out.\<close>

fun concat_batch :: "('t, 'r, 'k) torch_ops \<Rightarrow> ('t, 'v) titems \<Rightarrow> ('t, 'v) titems \<Rightarrow> ('t, 'v) titems res" where
  "concat_batch ops [] data2 = Inr []"
| "concat_batch ops ((key, NTensor t) # r) data2 =
     (case map_of data2 key of
        None \<Rightarrow> concat_batch ops r data2
      | Some (NTensor u) \<Rightarrow>
          rbind (t_concat ops [t, u]) (\<lambda>c. rbind (concat_batch ops r data2) (\<lambda>out. Inr ((key, NTensor c) # out)))
      | Some _ \<Rightarrow> Inl TypeError)"
| "concat_batch ops ((key, NDict kvs) # r) data2 =
     (case map_of data2 key of
        None \<Rightarrow> concat_batch ops r data2
      | Some (NDict sub) \<Rightarrow>
          rbind (concat_batch ops kvs sub) (\<lambda>c. rbind (concat_batch ops r data2) (\<lambda>out. Inr ((key, NDict c) # out)))
      | Some _ \<Rightarrow> Inl TypeError)"
| "concat_batch ops ((key, NOther v) # r) data2 = concat_batch ops r data2"

text \<open>
  One round: are the buffers ready, and what do \<open>replay_buffer.sample\<close> and
  \<open>demo_buffer.sample\<close> return for the number of rows they are asked for? \<open>None\<close>
  in the place of the demonstration buffer means there is none.
\<close>

record ('t, 'v) buffers =
  replay_ready :: bool
  replay_sample :: "int \<Rightarrow> ('t, 'v) titems res"
  demo :: "(bool \<times> (int \<Rightarrow> ('t, 'v) titems res)) option"

definition buffers_ready :: "('t, 'v) buffers \<Rightarrow> bool" where
  "buffers_ready bs = (replay_ready bs \<and> (case demo bs of None \<Rightarrow> True | Some (ready, _) \<Rightarrow> ready))"

definition draw_batch :: "('t, 'r, 'k) torch_ops \<Rightarrow> int \<Rightarrow> ('t, 'v) buffers \<Rightarrow> ('t, 'v) titems res" where
  "draw_batch ops batch_size bs =
     (case demo bs of
        None \<Rightarrow> replay_sample bs batch_size
      | Some (_, demo_sample) \<Rightarrow>
          rbind (replay_sample bs (batch_size div 2)) (\<lambda>replay_batch.
          rbind (demo_sample (batch_size div 2)) (\<lambda>demo_batch. concat_batch ops replay_batch demo_batch)))"

text \<open>\<open>ReplayBufferDataset.__iter__\<close>: the first round with ready buffers gives the batch.\<close>

fun next_batch :: "('t, 'r, 'k) torch_ops \<Rightarrow> int \<Rightarrow> ('t, 'v) buffers list \<Rightarrow> ('t, 'v) titems res option" where
  "next_batch ops batch_size [] = None"
| "next_batch ops batch_size (bs # rounds) =
     (if buffers_ready bs then Some (draw_batch ops batch_size bs) else next_batch ops batch_size rounds)"

section \<open>The preloading thread and its iterator\<close>

datatype thread_state = Sampling | Ended | Died

datatype iter_state = AtLoop | InGet | Returned | Raised py_error

record 'b preload =
  prefetch_size :: nat
  stop_event :: bool
  preload_queue :: "'b list"
  sampler :: thread_state
  iterator :: iter_state
  batches_out :: "'b list"

text \<open>The state once \<open>__iter__\<close> has started the thread.\<close>

definition preload_start :: "nat \<Rightarrow> 'b preload res" where
  "preload_start n =
     (if n > 0
      then Inr \<lparr>prefetch_size = n, stop_event = False, preload_queue = [], sampler = Sampling,
                iterator = AtLoop, batches_out = []\<rparr>
      else Inl AssertionError)"

text \<open>
  A round of \<open>_sample_buffer\<close>. \<open>None\<close>: the buffers are not ready. An exception of
  \<open>sample\<close> is raised outside the \<open>try\<close>: it ends the thread, and neither the stop
  event nor \<open>_exception\<close> is set. The queue has one producer, so \<open>put\<close> finds room.
\<close>

definition sampler_turn :: "'b res option \<Rightarrow> 'b preload \<Rightarrow> 'b preload" where
  "sampler_turn answer s =
     (if sampler s \<noteq> Sampling then s
      else if stop_event s then s\<lparr>sampler := Ended\<rparr>
      else if length (preload_queue s) \<ge> prefetch_size s then s
      else
        (case answer of
           None \<Rightarrow> s
         | Some (Inl e) \<Rightarrow> s\<lparr>sampler := Died\<rparr>
         | Some (Inr batch) \<Rightarrow> s\<lparr>preload_queue := preload_queue s @ [batch]\<rparr>))"

text \<open>
  A step of \<open>__iter__\<close>. When \<open>get\<close> times out with the stop event set, the attribute
  \<open>_exception\<close> is looked for; \<open>__init__\<close> always creates it, so \<open>RuntimeError\<close> is
  raised whatever it holds.
\<close>

definition iterator_turn :: "'b preload \<Rightarrow> 'b preload" where
  "iterator_turn s =
     (case iterator s of
        AtLoop \<Rightarrow> s\<lparr>iterator := if stop_event s then Returned else InGet\<rparr>
      | InGet \<Rightarrow>
          (case preload_queue s of
             batch # q \<Rightarrow> s\<lparr>preload_queue := q, batches_out := batches_out s @ [batch], iterator := AtLoop\<rparr>
           | [] \<Rightarrow> s\<lparr>iterator := if stop_event s then Raised RuntimeError else AtLoop\<rparr>)
      | _ \<Rightarrow> s)"

definition preload_close :: "'b preload \<Rightarrow> 'b preload" where
  "preload_close s = s\<lparr>stop_event := True\<rparr>"

datatype 'b turn = SamplerTurn "'b res option" | IteratorTurn | Close

fun take_turn :: "'b turn \<Rightarrow> 'b preload \<Rightarrow> 'b preload" where
  "take_turn (SamplerTurn a) s = sampler_turn a s"
| "take_turn IteratorTurn s = iterator_turn s"
| "take_turn Close s = preload_close s"

definition run_turns :: "'b turn list \<Rightarrow> 'b preload \<Rightarrow> 'b preload" where
  "run_turns ts s = fold take_turn ts s"

lemma run_turns_simps [simp]:
  "run_turns [] s = s" "run_turns (t # ts) s = run_turns ts (take_turn t s)"
  by (simp_all add: run_turns_def)

section \<open>Order, bound, and what happens when sampling fails\<close>

text \<open>The batches the answers offer, in order.\<close>

fun offered :: "'b turn list \<Rightarrow> 'b list" where
  "offered [] = []"
| "offered (SamplerTurn (Some (Inr b)) # ts) = b # offered ts"
| "offered (_ # ts) = offered ts"

lemma prefetch_kept [simp]: "prefetch_size (run_turns ts s) = prefetch_size s"
proof (induction ts arbitrary: s)
  case (Cons t ts)
  have "prefetch_size (take_turn t s) = prefetch_size s"
    by (cases t)
      (auto simp: sampler_turn_def iterator_turn_def preload_close_def split: option.splits sum.splits iter_state.splits list.splits)
  with Cons show ?case by simp
qed simp

text \<open>Nothing is reordered or repeated, and the queue stays within \<open>prefetch_size\<close>.\<close>

lemma turn_in_order:
  assumes "subseq (batches_out s @ preload_queue s) xs" "length (preload_queue s) \<le> prefetch_size s"
  shows "subseq (batches_out (take_turn t s) @ preload_queue (take_turn t s)) (xs @ offered [t]) \<and>
    length (preload_queue (take_turn t s)) \<le> prefetch_size s"
proof (cases t)
  case (SamplerTurn a)
  show ?thesis
  proof (cases "\<exists>b. a = Some (Inr b) \<and> take_turn t s = s\<lparr>preload_queue := preload_queue s @ [b]\<rparr>
      \<and> length (preload_queue s) < prefetch_size s")
    case True
    then obtain b where "a = Some (Inr b)" "take_turn t s = s\<lparr>preload_queue := preload_queue s @ [b]\<rparr>"
      "length (preload_queue s) < prefetch_size s" by blast
    with SamplerTurn assms(1) show ?thesis by (simp flip: append_assoc)
  next
    case False
    with SamplerTurn have "preload_queue (take_turn t s) = preload_queue s" "batches_out (take_turn t s) = batches_out s"
      by (auto simp: sampler_turn_def split: option.splits sum.splits)
    with assms show ?thesis by (simp add: list_emb_prefix)
  qed
next
  case IteratorTurn
  have "batches_out (iterator_turn s) @ preload_queue (iterator_turn s) = batches_out s @ preload_queue s"
    "length (preload_queue (iterator_turn s)) \<le> length (preload_queue s)"
    by (auto simp: iterator_turn_def split: iter_state.splits list.splits)
  with IteratorTurn assms show ?thesis by simp
next
  case Close
  with assms show ?thesis by (simp add: preload_close_def)
qed

lemma offered_append: "offered (ts @ us) = offered ts @ offered us"
  by (induction ts rule: offered.induct) auto

lemma turns_in_order:
  "subseq (batches_out s @ preload_queue s) xs \<Longrightarrow> length (preload_queue s) \<le> prefetch_size s \<Longrightarrow>
     subseq (batches_out (run_turns ts s) @ preload_queue (run_turns ts s)) (xs @ offered ts) \<and>
     length (preload_queue (run_turns ts s)) \<le> prefetch_size s"
proof (induction ts arbitrary: s xs)
  case (Cons t ts)
  from turn_in_order [OF Cons.prems, of t] Cons.IH [of "take_turn t s" "xs @ offered [t]"]
  have "subseq (batches_out (run_turns ts (take_turn t s)) @ preload_queue (run_turns ts (take_turn t s)))
      ((xs @ offered [t]) @ offered ts) \<and>
    length (preload_queue (run_turns ts (take_turn t s))) \<le> prefetch_size (take_turn t s)"
    using prefetch_kept [of "[t]" s] by simp
  then show ?case using prefetch_kept [of "[t]" s] offered_append [of "[t]" ts] by simp
qed simp

text \<open>Once the thread has died nothing but \<open>close\<close> changes what the iterator does.\<close>

lemma dead_turn:
  assumes "sampler s = Died" "\<not> stop_event s" "iterator s \<in> {AtLoop, InGet}" "t \<noteq> Close"
  shows "sampler (take_turn t s) = Died \<and> \<not> stop_event (take_turn t s) \<and> iterator (take_turn t s) \<in> {AtLoop, InGet} \<and>
    batches_out (take_turn t s) @ preload_queue (take_turn t s) = batches_out s @ preload_queue s"
  using assms
  by (cases t) (auto simp: sampler_turn_def iterator_turn_def split: iter_state.splits list.splits)

lemma dead_turns:
  assumes "sampler s = Died" "\<not> stop_event s" "iterator s \<in> {AtLoop, InGet}" "Close \<notin> set ts"
  shows "iterator (run_turns ts s) \<in> {AtLoop, InGet} \<and> sampler (run_turns ts s) = Died \<and>
    batches_out (run_turns ts s) @ preload_queue (run_turns ts s) = batches_out s @ preload_queue s"
  using assms
proof (induction ts arbitrary: s)
  case (Cons t ts)
  with dead_turn [OF Cons.prems(1-3), of t] show ?case by auto
qed simp

lemma open_turn:
  assumes "\<not> stop_event s" "iterator s \<in> {AtLoop, InGet}" "t \<noteq> Close"
  shows "\<not> stop_event (take_turn t s) \<and> iterator (take_turn t s) \<in> {AtLoop, InGet}"
  using assms
  by (cases t)
    (auto simp: sampler_turn_def iterator_turn_def split: option.splits sum.splits iter_state.splits list.splits)

lemma open_turns:
  assumes "\<not> stop_event s" "iterator s \<in> {AtLoop, InGet}" "Close \<notin> set ts"
  shows "\<not> stop_event (run_turns ts s) \<and> iterator (run_turns ts s) \<in> {AtLoop, InGet}"
  using assms
proof (induction ts arbitrary: s)
  case (Cons t ts)
  with open_turn [OF Cons.prems(1,2), of t] show ?case by auto
qed simp

text \<open>The turns of the iterator in a run, and how it ends once the stop event is set.\<close>

definition iterator_turns :: "'b turn list \<Rightarrow> nat" where
  "iterator_turns ts = length (filter (\<lambda>t. t = IteratorTurn) ts)"

definition closed_end :: "'b preload \<Rightarrow> iter_state" where
  "closed_end s = (if iterator s = InGet \<and> preload_queue s = [] then Raised RuntimeError else Returned)"

lemma iterator_turns_Cons [simp]:
  "iterator_turns (t # ts) = (if t = IteratorTurn then 1 else 0) + iterator_turns ts" "iterator_turns [] = 0"
  by (simp_all add: iterator_turns_def)

lemma dead_drains:
  assumes "sampler s = Died" "\<not> stop_event s" "iterator s \<in> {AtLoop, InGet}" "Close \<notin> set ts"
    and "2 * length (preload_queue s) + (if iterator s = AtLoop then 1 else 0) \<le> iterator_turns ts \<or> preload_queue s = []"
  shows "preload_queue (run_turns ts s) = []"
  using assms
proof (induction ts arbitrary: s)
  case (Cons t ts)
  note d = dead_turn [OF Cons.prems(1-3), of t]
  show ?case
  proof (cases t)
    case IteratorTurn
    have "2 * length (preload_queue (take_turn t s)) + (if iterator (take_turn t s) = AtLoop then 1 else 0) \<le> iterator_turns ts
        \<or> preload_queue (take_turn t s) = []"
      using Cons.prems(2,3,5) IteratorTurn by (cases "preload_queue s") (auto simp: iterator_turn_def)
    moreover have "t \<noteq> Close" "Close \<notin> set ts" using Cons.prems(4) by auto
    ultimately show ?thesis using Cons.IH [of "take_turn t s"] d by simp
  next
    case (SamplerTurn a)
    then have "take_turn t s = s" using Cons.prems(1) by (simp add: sampler_turn_def)
    then show ?thesis using Cons.IH [of s] Cons.prems SamplerTurn by simp
  qed (use Cons.prems in simp)
qed auto

lemma finished_stays:
  "iterator s \<notin> {AtLoop, InGet} \<Longrightarrow> iterator (run_turns ts s) = iterator s"
proof (induction ts arbitrary: s)
  case (Cons t ts)
  have "iterator (take_turn t s) = iterator s"
    using Cons.prems
    by (cases t) (auto simp: sampler_turn_def iterator_turn_def preload_close_def split: option.splits sum.splits iter_state.splits)
  then show ?case using Cons.IH [of "take_turn t s"] Cons.prems by simp
qed simp

lemma closed_turns:
  assumes "sampler s = Died" "stop_event s" "iterator s \<in> {AtLoop, InGet}"
    and "(if iterator s = InGet \<and> preload_queue s \<noteq> [] then 2 else 1) \<le> iterator_turns ts"
  shows "iterator (run_turns ts s) = closed_end s"
  using assms
proof (induction ts arbitrary: s)
  case (Cons t ts)
  show ?case
  proof (cases "t = IteratorTurn")
    case False
    have "take_turn t s = s"
      using False Cons.prems(1,2) by (cases t) (simp_all add: sampler_turn_def preload_close_def)
    then show ?thesis using Cons False by simp
  next
    case True
    show ?thesis
    proof (cases "iterator s = InGet \<and> preload_queue s \<noteq> []")
      case False
      then have "iterator (take_turn t s) = closed_end s" "closed_end s \<notin> {AtLoop, InGet}"
        using True Cons.prems(2,3) by (auto simp: iterator_turn_def closed_end_def split: list.split)
      then show ?thesis using finished_stays [of "take_turn t s" ts] by simp
    next
      case get: True
      then obtain b q where q: "preload_queue s = b # q" by (cases "preload_queue s") auto
      have "iterator (run_turns ts (take_turn t s)) = closed_end (take_turn t s)"
        using Cons.IH [of "take_turn t s"] Cons.prems True get q by (simp add: iterator_turn_def)
      then show ?thesis using True get q by (simp add: iterator_turn_def closed_end_def)
    qed
  qed
qed (auto split: if_splits)

text \<open>
  C25. When \<open>sample\<close> raises in the background thread, on any interleaving and until somebody calls
  \<open>close\<close>, the iterator neither raises nor returns: it hands out the batches that were preloaded,
  all of them once it has had the turns for it, and then waits for ever, no matter how long the run
  goes on. After a \<open>close\<close> it ends: with \<open>RuntimeError\<close> if it was waiting in \<open>get\<close> on the empty
  queue, and else it returns, without the batches that are still queued but for one it was getting.
  All batches come out in the order they were sampled, none twice, and never more than
  \<open>prefetch_size\<close> wait in the queue.
\<close>

theorem failed_sampling_stalls:
  assumes "preload_start n = Inr s0" "s = run_turns before s0"
    and "Close \<notin> set before" "sampler s = Sampling" "length (preload_queue s) < n"
    and "Close \<notin> set after" "t = run_turns after (take_turn (SamplerTurn (Some (Inl e))) s)"
  shows "iterator t \<in> {AtLoop, InGet} \<and>
    batches_out t @ preload_queue t = batches_out s @ preload_queue s \<and>
    (2 * length (preload_queue s) + 1 \<le> iterator_turns after \<longrightarrow> batches_out t = batches_out s @ preload_queue s) \<and>
    (2 \<le> iterator_turns rest \<longrightarrow> iterator (run_turns rest (take_turn Close t)) = closed_end t) \<and>
    subseq (batches_out s @ preload_queue s) (offered before) \<and> length (preload_queue t) \<le> n"
proof -
  have s0: "s0 = \<lparr>prefetch_size = n, stop_event = False, preload_queue = [], sampler = Sampling,
                iterator = AtLoop, batches_out = []\<rparr>"
    using assms(1) by (auto simp: preload_start_def split: if_splits)
  have s: "\<not> stop_event s" "iterator s \<in> {AtLoop, InGet}" "prefetch_size s = n"
    using open_turns [of s0 before] assms(2,3) by (auto simp: s0)
  let ?d = "take_turn (SamplerTurn (Some (Inl e))) s"
  have d: "?d = s\<lparr>sampler := Died\<rparr>" using s(1,3) assms(4,5) by (simp add: sampler_turn_def)
  have ordered: "subseq (batches_out s @ preload_queue s) (offered before)"
    using turns_in_order [of s0 "[]" before] by (simp add: s0 assms(2))
  have "length (preload_queue t) \<le> n"
    using turns_in_order [of ?d "batches_out ?d @ preload_queue ?d" after] assms(5,7) s(3) unfolding d by simp
  moreover have "preload_queue t = []" if "2 * length (preload_queue s) + 1 \<le> iterator_turns after"
    using dead_drains [of ?d after] that assms(6,7) s unfolding d by auto
  moreover have dead: "iterator t \<in> {AtLoop, InGet}" "sampler t = Died"
      "batches_out t @ preload_queue t = batches_out s @ preload_queue s"
    using dead_turns [of ?d after] s assms(6,7) unfolding d by simp_all
  moreover have "iterator (run_turns rest (take_turn Close t)) = closed_end t" if "2 \<le> iterator_turns rest"
    using closed_turns [of "take_turn Close t" rest] that dead(1,2) by (auto simp: preload_close_def closed_end_def)
  ultimately show ?thesis using ordered by auto
qed

theorem failed_sampling_stalls_witness:
  "\<exists>s0 s t. preload_start 2 = Inr s0 \<and> s = run_turns [SamplerTurn (Some (Inr (5 :: int))), IteratorTurn] s0 \<and>
    t = run_turns (IteratorTurn # replicate 9 IteratorTurn) (take_turn (SamplerTurn (Some (Inl KeyError))) s) \<and>
    iterator t \<in> {AtLoop, InGet} \<and> batches_out t = batches_out s @ preload_queue s \<and>
    iterator (run_turns [IteratorTurn, IteratorTurn] (take_turn Close t)) = closed_end t"
proof -
  define s0 :: "int preload" where "s0 = projr (preload_start 2)"
  have s0: "preload_start 2 = Inr s0" by (simp add: s0_def preload_start_def)
  have "sampler (run_turns [SamplerTurn (Some (Inr (5 :: int))), IteratorTurn] s0) = Sampling"
    "length (preload_queue (run_turns [SamplerTurn (Some (Inr (5 :: int))), IteratorTurn] s0)) < 2"
    using s0 by (auto simp: preload_start_def sampler_turn_def iterator_turn_def)
  moreover have "length (preload_queue (run_turns [SamplerTurn (Some (Inr (5 :: int))), IteratorTurn] s0)) \<le> 1"
    using s0 by (auto simp: preload_start_def sampler_turn_def iterator_turn_def)
  ultimately show ?thesis
    using failed_sampling_stalls [OF s0 refl _ _ _ _ refl, of "[SamplerTurn (Some (Inr (5 :: int))), IteratorTurn]"
        "IteratorTurn # replicate 9 IteratorTurn" KeyError "[IteratorTurn, IteratorTurn]"] s0
    by (simp add: iterator_turns_def)
qed

end
