(* ===== verification/Priority_Store.thy ===== *)
theory Priority_Store
  imports Py_Prelude "HOL-Library.Multiset" "HOL-Library.Product_Lexorder"
begin

text \<open>
  \<open>PriorityStore\<close> of \<^verbatim>\<open>rlinf/data/storage/replay/buffer.py\<close>: the trajectories of
  asynchronous training, of which only the \<open>maxsize\<close> best by (lowest version, mean
  version) are kept.

  A priority is a pair of comparable numbers, compared lexicographically. The
  store is a \<open>SortedList\<close> of the package sortedcontainers: read as the list of its
  entries in order, with its \<open>add\<close> an argument of the operations, of which only
  the documented effect is assumed (\<open>sorted_add\<close>).
\<close>

section \<open>State and operations\<close>

type_synonym ('a, 'd) entry = "('a \<times> 'a) \<times> nat \<times> 'd"

record ('a, 'd) priority_store =
  store_max :: nat
  next_seq :: nat
  sl :: "('a, 'd) entry list"
  used_seqs :: "nat set"
  discarded_unused :: nat

definition make_store :: "nat \<Rightarrow> ('a, 'd) priority_store" where
  "make_store n = \<lparr>store_max = n, next_seq = 0, sl = [], used_seqs = {}, discarded_unused = 0\<rparr>"

text \<open>The key of the list, \<open>lambda x: (x[0], x[1])\<close>.\<close>

definition store_key :: "('a, 'd) entry \<Rightarrow> ('a \<times> 'a) \<times> nat" where
  "store_key x = (fst x, fst (snd x))"

definition sorted_add :: "(('a :: linorder, 'd) entry \<Rightarrow> ('a, 'd) entry list \<Rightarrow> ('a, 'd) entry list) \<Rightarrow> bool" where
  "sorted_add add \<longleftrightarrow>
     (\<forall>x xs. sorted (map store_key xs) \<longrightarrow> sorted (map store_key (add x xs)) \<and> mset (add x xs) = add_mset x (mset xs))"

text \<open>An entry that leaves the store counts as discarded when it was never used.\<close>

definition leave :: "nat \<Rightarrow> ('a, 'd) priority_store \<Rightarrow> ('a, 'd) priority_store" where
  "leave seq s =
     (if seq \<notin> used_seqs s then s\<lparr>discarded_unused := Suc (discarded_unused s)\<rparr>
      else s\<lparr>used_seqs := used_seqs s - {seq}\<rparr>)"

definition store_add ::
    "(('a :: linorder, 'd) entry \<Rightarrow> ('a, 'd) entry list \<Rightarrow> ('a, 'd) entry list) \<Rightarrow> ('a, 'd) priority_store \<Rightarrow> 'a \<times> 'a \<Rightarrow> 'd
      \<Rightarrow> (('a, 'd) priority_store \<times> bool) res" where
  "store_add add s priority data =
     (if length (sl s) = store_max s \<and> sl s = [] then Inl IndexError
      else if length (sl s) = store_max s \<and> priority < fst (hd (sl s))
      then Inr (s\<lparr>discarded_unused := Suc (discarded_unused s)\<rparr>, False)
      else
        let s = s\<lparr>sl := add (priority, next_seq s, data) (sl s), next_seq := Suc (next_seq s)\<rparr> in
        if length (sl s) > store_max s
        then Inr (leave (fst (snd (hd (sl s)))) (s\<lparr>sl := tl (sl s)\<rparr>), True)
        else Inr (s, True))"

text \<open>\<open>topn\<close>: the slice \<open>[-n:]\<close>, which for \<open>n = 0\<close> is the whole list.\<close>

definition topn :: "int \<Rightarrow> ('a, 'd) priority_store \<Rightarrow> ('a, 'd) priority_store \<times> 'd list" where
  "topn n s =
     (let items = py_slice (sl s) (- n) (int (length (sl s))) in
      (s\<lparr>used_seqs := used_seqs s \<union> (\<lambda>(_, seq, _). seq) ` set items\<rparr>, rev (map (\<lambda>(_, _, data). data) items)))"

definition remove_below :: "'a :: linorder \<Rightarrow> ('a, 'd) priority_store \<Rightarrow> ('a, 'd) priority_store" where
  "remove_below threshold s =
     fold (\<lambda>item s. (leave (fst (snd item)) s)\<lparr>sl := filter (\<lambda>x. fst (snd x) \<noteq> fst (snd item)) (sl s)\<rparr>)
       (filter (\<lambda>item. fst (fst item) < threshold) (sl s)) s"

definition store_len :: "('a, 'd) priority_store \<Rightarrow> nat" where
  "store_len s = length (sl s)"

text \<open>
  \<open>get_metric\<close>: for every version its share of all version entries, as a pair of
  counts; \<open>versions\<close> gives the rounded versions of a trajectory.
\<close>

definition get_metric :: "('d \<Rightarrow> int list option) \<Rightarrow> ('a, 'd) priority_store \<Rightarrow> (int \<times> nat) list \<times> nat \<times> nat" where
  "get_metric versions s =
     (let cells = concat (map (\<lambda>(_, _, data). case versions data of None \<Rightarrow> [] | Some vs \<Rightarrow> vs) (sl s)) in
      (map (\<lambda>v. (v, count_list cells v)) (remdups cells), length cells, discarded_unused s))"

section \<open>The best of all that were added\<close>

text \<open>A run of adds that ignores the answers.\<close>

definition add_all ::
    "(('a :: linorder, 'd) entry \<Rightarrow> ('a, 'd) entry list \<Rightarrow> ('a, 'd) entry list) \<Rightarrow> ('a, 'd) priority_store \<Rightarrow> (('a \<times> 'a) \<times> 'd) list
      \<Rightarrow> ('a, 'd) priority_store res" where
  "add_all add = rfold (\<lambda>s (p, d). rbind (store_add add s p d) (\<lambda>(s, _). Inr s))"

definition unnumbered :: "('a, 'd) entry \<Rightarrow> ('a \<times> 'a) \<times> 'd" where
  "unnumbered x = (fst x, snd (snd x))"

lemma unnumbered_simp [simp]: "unnumbered (p, q, d) = (p, d)" "fst (unnumbered x) = fst x"
  by (simp_all add: unnumbered_def)

text \<open>Putting the newest entry behind its equals.\<close>

fun insert_last :: "('a :: linorder \<times> 'd) \<Rightarrow> ('a \<times> 'd) list \<Rightarrow> ('a \<times> 'd) list" where
  "insert_last x [] = [x]"
| "insert_last x (y # ys) = (if fst x < fst y then x # y # ys else y # insert_last x ys)"

lemma insert_last_mset [simp]: "mset (insert_last x ys) = add_mset x (mset ys)"
  by (induction ys) auto

lemma insert_last_length [simp]: "length (insert_last x ys) = Suc (length ys)"
  by (induction ys) auto

lemma insert_last_sorted: "sorted (map fst ys) \<Longrightarrow> sorted (map fst (insert_last x ys))"
proof (induction ys)
  case (Cons y ys)
  have "set (insert_last x ys) = insert x (set ys)" using insert_last_mset [of x ys] by (metis set_mset_add_mset_insert set_mset_mset)
  with Cons show ?case by (auto simp: less_imp_le intro: order_trans dest: less_imp_le)
qed simp

lemma insert_last_filter:
  "sorted (map fst ys) \<Longrightarrow> filter (\<lambda>y. fst y = k) (insert_last x ys) = filter (\<lambda>y. fst y = k) ys @ (if fst x = k then [x] else [])"
proof (induction ys)
  case (Cons y ys)
  have "filter (\<lambda>y. fst y = fst x) (y # ys) = []" if "fst x < fst y"
    using that Cons.prems by (auto simp: filter_empty_conv)
  with Cons show ?case by auto
qed simp

lemma sort_snoc: "sort_key fst (xs @ [x]) = insert_last x (sort_key fst xs)"
proof (rule properties_for_sort_key)
  show "mset (insert_last x (sort_key fst xs)) = mset (xs @ [x])" by simp
  show "sorted (map fst (insert_last x (sort_key fst xs)))" by (intro insert_last_sorted sorted_sort_key)
  show "filter (\<lambda>y. fst k = fst y) (insert_last x (sort_key fst xs)) = filter (\<lambda>y. fst k = fst y) (xs @ [x])"
    if "k \<in> set (insert_last x (sort_key fst xs))" for k
    using insert_last_filter [OF sorted_sort_key, of "fst k" x xs] sort_key_stable [of fst "fst k" xs]
    by (simp add: eq_commute [of _ "fst k"])
qed

lemma insert_last_before: "l \<noteq> [] \<Longrightarrow> fst x < fst (hd l) \<Longrightarrow> insert_last x (a @ l) = insert_last x a @ l"
  by (induction a) (cases l; auto)+

lemma insert_last_after: "\<forall>y \<in> set a. \<not> fst x < fst y \<Longrightarrow> insert_last x (a @ l) = a @ insert_last x l"
  by (induction a) auto

lemma drop_insert_last:
  assumes S: "sorted (map fst S)" and k: "k < length S"
  shows "drop (Suc k) (insert_last x S) =
    (if fst x < fst (S ! k) then drop k S else tl (insert_last x (drop k S)))"
proof -
  define a l where "a = take k S" and "l = drop k S"
  have al: "S = a @ l" "length a = k" "l \<noteq> []" "hd l = S ! k"
    using k by (auto simp: a_def l_def hd_drop_conv_nth)
  show ?thesis
  proof (cases "fst x < fst (S ! k)")
    case True
    then have "insert_last x S = insert_last x a @ l" using al insert_last_before [of l x a] by simp
    with True show ?thesis by (simp add: al(2) l_def)
  next
    case False
    have "fst y \<le> fst (S ! k)" if "y \<in> set a" for y
    proof -
      from that obtain i where "i < k" "y = S ! i" using k by (metis a_def al(2) in_set_conv_nth nth_take)
      then show ?thesis using S k sorted_nth_mono [of "map fst S" i k] by simp
    qed
    with False have "\<forall>y \<in> set a. \<not> fst x < fst y" by (meson leD leI order_trans)
    from insert_last_after [OF this, of l] have "insert_last x S = a @ insert_last x l" using al(1) by simp
    with False show ?thesis by (simp add: al(2) l_def drop_Suc)
  qed
qed

text \<open>The list keeps the order of arrival among equal priorities, as the sequence numbers only grow.\<close>

fun insert_entry :: "('a :: linorder, 'd) entry \<Rightarrow> ('a, 'd) entry list \<Rightarrow> ('a, 'd) entry list" where
  "insert_entry x [] = [x]"
| "insert_entry x (y # ys) = (if fst x < fst y then x # y # ys else y # insert_entry x ys)"

lemma insert_entry_mset [simp]: "mset (insert_entry x ys) = add_mset x (mset ys)"
  by (induction ys) auto

lemma insert_entry_length [simp]: "length (insert_entry x ys) = Suc (length ys)"
  by (induction ys) auto

lemma insert_entry_unnumbered: "map unnumbered (insert_entry x ys) = insert_last (unnumbered x) (map unnumbered ys)"
  by (induction ys) auto

lemma insert_entry_set: "set (insert_entry x ys) = insert x (set ys)"
  by (metis insert_entry_mset set_mset_add_mset_insert set_mset_mset)

lemma insert_entry_sorted:
  "sorted (map store_key ys) \<Longrightarrow> \<forall>y \<in> set ys. fst (snd y) < fst (snd x) \<Longrightarrow> sorted (map store_key (insert_entry x ys))"
proof (induction ys)
  case (Cons y ys)
  then show ?case
    by (auto simp: insert_entry_set store_key_def less_eq_prod_def less_prod_def) 
qed simp

definition store_inv :: "('a :: linorder, 'd) priority_store \<Rightarrow> bool" where
  "store_inv s \<longleftrightarrow>
     sorted (map store_key (sl s)) \<and> distinct (map (\<lambda>x. fst (snd x)) (sl s)) \<and> length (sl s) \<le> store_max s \<and>
     (\<forall>x \<in> set (sl s). fst (snd x) < next_seq s) \<and> used_seqs s \<subseteq> (\<lambda>x. fst (snd x)) ` set (sl s)"

lemma add_is_insert:
  assumes "sorted_add add" "sorted (map store_key xs)" "distinct (map (\<lambda>x. fst (snd x)) xs)"
    "\<forall>y \<in> set xs. fst (snd y) < fst (snd x)"
  shows "add x xs = insert_entry x xs"
proof -
  let ?ys = "add x xs"
  from assms(1) [unfolded sorted_add_def, rule_format, OF assms(2), of x]
  have ys: "sorted (map store_key ?ys)" "mset ?ys = mset (insert_entry x xs)" by simp_all
  have seqs: "distinct (map (\<lambda>x. fst (snd x)) (x # xs))" using assms(3,4) by auto
  have keys: "distinct (map store_key (x # xs))"
    using seqs unfolding distinct_map by (auto simp: inj_on_def store_key_def)
  then have dist: "distinct (map store_key zs)" if "mset zs = mset (x # xs)" for zs
    using that by (metis mset_eq_imp_distinct_iff mset_map)
  have "inj_on store_key (set ?ys \<union> set (insert_entry x xs))"
    using keys ys(2) by (metis distinct_map insert_entry_mset mset.simps(2) set_mset_mset sup.idem)
  moreover have "set ?ys = set (insert_entry x xs)" using ys(2) by (rule mset_eq_setD)
  moreover have "distinct (map store_key ?ys)" "distinct (map store_key (insert_entry x xs))"
    using dist ys(2) by simp_all
  ultimately show ?thesis
    by (intro map_sorted_distinct_set_unique [of store_key]) (simp_all add: ys(1) insert_entry_sorted [OF assms(2,4)])
qed

text \<open>
  What the store holds after the adds of \<open>ps\<close>: the tail of the stably sorted
  list, all behind it discarded.
\<close>

definition holds_best :: "nat \<Rightarrow> (('a :: linorder \<times> 'a) \<times> 'd) list \<Rightarrow> ('a, 'd) priority_store \<Rightarrow> bool" where
  "holds_best m ps s \<longleftrightarrow>
     store_inv s \<and> store_max s = m \<and> used_seqs s = {} \<and> map unnumbered (sl s) = drop (length ps - m) (sort_key fst ps) \<and>
     discarded_unused s = length ps - m"

lemma insert_entry_inv:
  assumes "sorted (map store_key xs)" "distinct (map (\<lambda>x. fst (snd x)) xs)" "\<forall>y \<in> set xs. fst (snd y) < q"
  shows "sorted (map store_key (insert_entry (p, q, d) xs))"
    "distinct (map (\<lambda>x. fst (snd x)) (insert_entry (p, q, d) xs))"
    "\<forall>y \<in> set (insert_entry (p, q, d) xs). fst (snd y) < Suc q"
proof -
  show "sorted (map store_key (insert_entry (p, q, d) xs))" using assms by (intro insert_entry_sorted) auto
  have d: "distinct (map (\<lambda>x. fst (snd x)) ((p, q, d) # xs))" using assms(2,3) by auto
  have m: "mset (map (\<lambda>x. fst (snd x)) (insert_entry (p, q, d) xs)) = mset (map (\<lambda>x. fst (snd x)) ((p, q, d) # xs))"
    by simp
  from m d show "distinct (map (\<lambda>x. fst (snd x)) (insert_entry (p, q, d) xs))"
    by (rule iffD2 [OF mset_eq_imp_distinct_iff])
  show "\<forall>y \<in> set (insert_entry (p, q, d) xs). fst (snd y) < Suc q" using assms(3) by (auto simp: insert_entry_set less_Suc_eq)
qed

lemma holds_best_full:
  assumes "holds_best m ps s"
  shows "length (sl s) = min (length ps) m"
    "m \<le> length ps \<Longrightarrow> 0 < m \<Longrightarrow> fst (hd (sl s)) = fst (sort_key fst ps ! (length ps - m))"
proof -
  have pl: "map unnumbered (sl s) = drop (length ps - m) (sort_key fst ps)"
    using assms unfolding holds_best_def by blast
  then have "length (map unnumbered (sl s)) = length ps - (length ps - m)" by simp
  then show len: "length (sl s) = min (length ps) m" by simp
  assume "m \<le> length ps" "0 < m"
  with len have "sl s \<noteq> []" by auto
  then have "hd (map unnumbered (sl s)) = unnumbered (hd (sl s))" by (rule hd_map)
  with pl \<open>m \<le> length ps\<close> \<open>0 < m\<close> have "unnumbered (hd (sl s)) = sort_key fst ps ! (length ps - m)"
    by (simp add: hd_drop_conv_nth)
  then show "fst (hd (sl s)) = fst (sort_key fst ps ! (length ps - m))" by (metis unnumbered_simp(2))
qed

lemma store_add_best:
  assumes add: "sorted_add add" and m: "0 < m" and best: "holds_best m ps s"
  shows "\<exists>t b. store_add add s p d = Inr (t, b) \<and> holds_best m (ps @ [(p, d)]) t"
proof -
  note len = holds_best_full(1) [OF best]
  from best have inv: "sorted (map store_key (sl s))" "distinct (map (\<lambda>x. fst (snd x)) (sl s))"
      "\<forall>y \<in> set (sl s). fst (snd y) < next_seq s"
    and st: "store_max s = m" "used_seqs s = {}" "discarded_unused s = length ps - m"
    and pl: "map unnumbered (sl s) = drop (length ps - m) (sort_key fst ps)"
    unfolding holds_best_def store_inv_def by blast+
  let ?x = "(p, next_seq s, d)"
  have "\<forall>y \<in> set (sl s). fst (snd y) < fst (snd ?x)" using inv(3) by simp
  from add_is_insert [OF add inv(1,2) this] have ins: "add ?x (sl s) = insert_entry ?x (sl s)" .
  define l where "l = insert_entry ?x (sl s)"
  note linv = insert_entry_inv [OF inv, of p d, folded l_def]
  have ll: "length l = Suc (min (length ps) m)"
    using len unfolding l_def by simp
  have lp: "map unnumbered l = insert_last (p, d) (map unnumbered (sl s))" by (simp add: l_def insert_entry_unnumbered)
  show ?thesis
  proof (cases "length ps < m")
    case True
    have "store_add add s p d = Inr (s\<lparr>sl := l, next_seq := Suc (next_seq s)\<rparr>, True)"
      using True len ll by (simp add: store_add_def st Let_def ins flip: l_def)
    moreover have "holds_best m (ps @ [(p, d)]) (s\<lparr>sl := l, next_seq := Suc (next_seq s)\<rparr>)"
      using True ll lp linv pl by (simp add: holds_best_def store_inv_def st sort_snoc)
    ultimately show ?thesis by blast
  next
    case False
    then have k: "length ps - m < length (sort_key fst ps)" using m by simp
    have full: "length (sl s) = m" "sl s \<noteq> []" using False len m by auto
    have hd: "fst (hd (sl s)) = fst (sort_key fst ps ! (length ps - m))"
      using holds_best_full(2) [OF best] False m by simp
    note drop = drop_insert_last [OF sorted_sort_key k, of "(p, d)"]
    have Suc_drop: "Suc (length ps) - m = Suc (length ps - m)" using False by simp
    show ?thesis
    proof (cases "p < fst (hd (sl s))")
      case True
      then have "store_add add s p d = Inr (s\<lparr>discarded_unused := Suc (discarded_unused s)\<rparr>, False)"
        using full by (simp add: store_add_def st)
      moreover have "holds_best m (ps @ [(p, d)]) (s\<lparr>discarded_unused := Suc (discarded_unused s)\<rparr>)"
        using best True hd drop Suc_drop by (simp add: holds_best_def store_inv_def sort_snoc)
      ultimately show ?thesis by blast
    next
      case False
      define t where "t = s\<lparr>next_seq := Suc (next_seq s), sl := tl l, discarded_unused := Suc (discarded_unused s)\<rparr>"
      have "store_add add s p d = Inr (t, True)"
        using False full ll len by (simp add: store_add_def st Let_def ins leave_def t_def flip: l_def)
      moreover have "holds_best m (ps @ [(p, d)]) t"
      proof -
        have "map unnumbered (tl l) = drop (Suc (length ps - m)) (sort_key fst (ps @ [(p, d)]))"
          using False hd drop lp pl by (simp add: map_tl sort_snoc)
        moreover have "sorted (map store_key (tl l))" "distinct (map (\<lambda>x. fst (snd x)) (tl l))"
          using linv(1,2) by (simp_all add: map_tl sorted_tl distinct_tl)
        moreover have "\<forall>y \<in> set (tl l). fst (snd y) < Suc (next_seq s)" using linv(3) by (cases l) simp_all
        ultimately show ?thesis using ll len full by (simp add: holds_best_def store_inv_def t_def st Suc_drop)
      qed
      ultimately show ?thesis by blast
    qed
  qed
qed

lemma add_all_best:
  assumes "sorted_add add" "0 < m" "holds_best m qs s"
  shows "\<exists>t. add_all add s ps = Inr t \<and> holds_best m (qs @ ps) t"
  using assms(3)
proof (induction ps arbitrary: qs s)
  case (Cons x ps)
  obtain p d where x: "x = (p, d)" by (cases x)
  from store_add_best [OF assms(1,2) Cons.prems] obtain t b
    where t: "store_add add s p d = Inr (t, b)" "holds_best m (qs @ [(p, d)]) t" by blast
  from Cons.IH [OF t(2)] show ?case by (simp add: add_all_def x t(1))
qed (simp add: add_all_def)

lemma holds_best_start: "holds_best m [] (make_store m)"
  by (simp add: holds_best_def store_inv_def make_store_def)

lemma py_slice_tail: "0 < n \<Longrightarrow> n \<le> length xs \<Longrightarrow> py_slice xs (- int n) (int (length xs)) = drop (length xs - n) xs"
  by (simp add: py_slice_def slice_bound_def min_def nat_diff_distrib)

lemma topn_best:
  assumes best: "holds_best m ps s" and n: "0 < n" "n \<le> length (sl s)"
  shows "snd (topn (int n) s) = map snd (take n (rev (sort_key fst ps)))"
proof -
  have len: "length (sl s) = min (length ps) m" by (rule holds_best_full(1) [OF best])
  have pl: "map unnumbered (sl s) = drop (length ps - m) (sort_key fst ps)"
    using best unfolding holds_best_def by blast
  have "snd (topn (int n) s) = rev (map snd (map unnumbered (drop (length (sl s) - n) (sl s))))"
    by (simp add: topn_def Let_def py_slice_tail [OF n] unnumbered_def case_prod_unfold comp_def)
  also have "map unnumbered (drop (length (sl s) - n) (sl s)) = drop (length (sl s) - n) (map unnumbered (sl s))"
    by (simp add: drop_map)
  also have "\<dots> = drop (length ps - n) (sort_key fst ps)"
    using n len by (auto simp: pl min_def split: if_splits)
  finally show ?thesis by (simp add: rev_map take_rev)
qed

text \<open>
  C22. Of any sequence of trajectories added to a store of capacity \<open>m > 0\<close>, the
  store holds the \<open>m\<close> greatest under the lexicographic priority (among equals the
  latest): its list is the tail of the stably sorted sequence. Every add
  succeeds, what was dropped or refused is counted as discarded unused, and \<open>topn\<close>
  returns the \<open>n\<close> best, best first. \<open>sorted_add\<close> is the documented effect of
  \<open>SortedList.add\<close>.
\<close>

theorem store_keeps_best:
  assumes "sorted_add add" "0 < m"
  shows "\<exists>s. add_all add (make_store m) ps = Inr s \<and>
      map unnumbered (sl s) = drop (length ps - m) (sort_key fst ps) \<and>
      discarded_unused s = length ps - m \<and> store_len s = min (length ps) m \<and>
      (0 < n \<and> n \<le> store_len s \<longrightarrow> snd (topn (int n) s) = map snd (take n (rev (sort_key fst ps))))"
proof -
  from add_all_best [OF assms holds_best_start, of ps] obtain s
    where s: "add_all add (make_store m) ps = Inr s" "holds_best m ps s" by auto
  then show ?thesis
    using holds_best_full(1) [OF s(2)] topn_best [OF s(2)]
    unfolding store_len_def by (auto simp: holds_best_def)
qed

definition insort_entry :: "('a :: linorder, 'd) entry \<Rightarrow> ('a, 'd) entry list \<Rightarrow> ('a, 'd) entry list" where
  "insort_entry = insort_key store_key"

lemma insort_entry_sorted_add: "sorted_add insort_entry"
  by (simp add: sorted_add_def insort_entry_def sorted_insort_key)

lemma store_keeps_best_witness:
  "\<exists>s. add_all insort_entry (make_store 2) [((1, 1), ''a''), ((3, 0), ''b''), ((0 :: int, 9), ''c''), ((3, 0), ''d'')] = Inr s \<and>
     map snd (map unnumbered (sl s)) = [''b'', ''d''] \<and> discarded_unused s = 2 \<and> snd (topn 1 s) = [''d'']"
proof -
  let ?ps = "[((1, 1), ''a''), ((3, 0), ''b''), ((0 :: int, 9), ''c''), ((3, 0), ''d'')]"
  have sorted: "sort_key fst ?ps = [((0, 9), ''c''), ((1, 1), ''a''), ((3, 0), ''b''), ((3, 0), ''d'')]"
    by (simp add: sort_key_def)
  show ?thesis
    using store_keeps_best [OF insort_entry_sorted_add, of 2 ?ps 1] by (auto simp: sorted)
qed

end
