(* ===== verification/Spec2Isabelle.thy ===== *)
theory Spec2Isabelle
  imports Worker_Route Batch_Split Packed_Placement Cluster_Config Lock_Manager Port_Locks Channel_Client Component_Placement Dyn_Scheduler Rank_Mapper Rollout_Instance Vllm_Group Collective_Inplace Work_Queue Broadcast_Devices
    Replay_Threads Replay_Checkpoint Preload_Dataset Priority_Store
begin

text \<open>
  The scheduling, communication and data core of RLinf, a framework for reinforcement
  learning of language and embodied models on a cluster. This header says what is
  modelled, where, and what the theorems show. Paths are below \<^verbatim>\<open>src/rlinf\<close>.

  \<^bold>\<open>The program.\<close> A run starts workers (actor, rollout, inference, environment, ...) on the
  nodes of a cluster. \<^verbatim>\<open>scheduler/cluster\<close> numbers the nodes and their hardware,
  \<^verbatim>\<open>scheduler/placement\<close> and \<^verbatim>\<open>utils/placement.py\<close> decide which process runs where.
  Workers exchange data through channels (\<^verbatim>\<open>scheduler/channel\<close>), through collective groups
  (\<^verbatim>\<open>scheduler/collective\<close>), and, batch by batch, through \<open>send_to\<close> and \<open>recv_from\<close>
  (\<^verbatim>\<open>scheduler/worker\<close>), which cut a batch for the ranks of the other group. Devices and
  ports are guarded by locks (\<^verbatim>\<open>scheduler/manager\<close>). In the automatic mode
  \<^verbatim>\<open>scheduler/dynamic_scheduler\<close> moves GPUs from rollout to inference to actor while a step
  runs, and rollout instances hand unfinished groups of sequences to each other. The
  training side balances token counts over micro-batches (\<^verbatim>\<open>utils/data_iter_utils.py\<close>), the
  embodied side samples from a replay buffer (\<^verbatim>\<open>data/storage/replay\<close>).

  \<^bold>\<open>Conventions.\<close> \<open>Py_Prelude\<close> holds the vocabulary: \<open>'a res\<close> for code that returns or
  raises (\<open>Inl e\<close>, with the exception classes of Python), \<open>'a comp\<close> for code that may also
  never return (\<open>None\<close>), the loops \<open>rmap\<close> and \<open>rfold\<close> with their exceptions, Python's
  division, indexing, slicing and ranges. \<open>Py_Text\<close> has \<open>str\<close>, \<open>int\<close> and splitting of
  strings. Integers are unbounded, as Python's are. Dictionaries are association lists
  where their order matters, maps otherwise. Coroutines and threads are inductive step
  relations, a step being what runs between two awaits or two accesses to shared state;
  properties of them hold in every reachable state, and liveness is stated as "every way
  of steps ends" (inductive predicates such as \<open>must_leave\<close> or \<open>inevitable\<close>), proved by
  natural number measures, so that no fuel is needed.

  \<^bold>\<open>Parameters.\<close> torch and numpy (\<open>array_ops\<close>, \<open>torch_ops\<close>, \<open>shape_ops\<close>, with the laws
  \<open>array_laws\<close>, \<open>torch_laws\<close>, \<open>index_laws\<close>, \<open>reshape_laws\<close> that state what they document),
  the random generator (a function of its seed and the draws made since),
  \<open>SortedList.add\<close> (\<open>sorted_add\<close>), pickling (\<open>codec\<close>), the process groups of gloo and NCCL and
  the IPC handles of CUDA (message streams), Ray (remote calls are steps or functions), the
  inference engines (\<open>engine_answer\<close>, \<open>engine_ok\<close>, \<open>appends\<close>), and what the other processes
  answer to the dynamic scheduler (\<open>cooperative\<close>). Every property that uses them has a
  witness with concrete functions in their place.

  \<^bold>\<open>Cluster, nodes and placement.\<close>
  \<^item> \<open>Rank_Config\<close>: \<open>parse_rank_config\<close> (\<^verbatim>\<open>scheduler/cluster/utils.py\<close>).
  \<^item> \<open>Node_Group\<close>: \<open>NodeInfo\<close>, \<open>NodeGroupInfo\<close>, \<open>Cluster\<close> lookups (\<^verbatim>\<open>scheduler/cluster/node.py\<close>,
    \<^verbatim>\<open>cluster.py\<close>); the numbering of hardware over node groups is the enumeration it should be.
  \<^item> \<open>Cluster_Config\<close>: node groups and probing (\<^verbatim>\<open>scheduler/cluster/config.py\<close>, \<^verbatim>\<open>node.py\<close>).
  \<^item> \<open>Placements\<close>, \<open>Packed_Placement\<close>: the three strategies (\<^verbatim>\<open>scheduler/placement\<close>), with the
    locale \<open>placement_strategy\<close> for what the caller relies on and its interpretations
    \<open>node_strategy\<close> and \<open>flexible_strategy\<close>.
  \<^item> \<open>Component_Placement\<close>: the placement texts (\<^verbatim>\<open>scheduler/placement/placement.py\<close>), related to
    the hardware the processes get.
  \<^item> \<open>Model_Placement\<close>: \<open>ModelParallelComponentPlacement\<close> (\<^verbatim>\<open>utils/placement.py\<close>) and the scheduler
    built from it. \<open>Rank_Mapper\<close>: the weight senders (\<^verbatim>\<open>workers/rollout/utils.py\<close>).

  \<^bold>\<open>Routing and communication.\<close>
  \<^item> \<open>Comm_Mapper\<close>, \<open>Route_Plan\<close>, \<open>Batch_Payload\<close> (\<^verbatim>\<open>scheduler/worker/routing.py\<close>): sharding of a
    batch between two groups, the plans with their keys, splitting and merging of payloads. The
    locale \<open>shard_views\<close> (interpreted as \<open>mapper\<close>) says that the two sides see the same cuts.
  \<^item> \<open>Worker_Route\<close>: \<open>send_to\<close> and \<open>recv_from\<close> (\<^verbatim>\<open>scheduler/worker/worker.py\<close>) deliver every row.
  \<^item> \<open>Channel_Queue\<close>, \<open>Channel_Worker\<close>, \<open>Channel_Client\<close> (\<^verbatim>\<open>scheduler/channel\<close>): the keyed queues
    (locale \<open>keyed_channel\<close>, interpretation \<open>lc\<close>), the coroutines of the channel worker (nothing is
    lost or reordered, no wake-up is missed), the matching of replies.
  \<^item> \<open>Peer_Process\<close>, \<open>Collective_P2P\<close>, \<open>Dataclass_Fields\<close>, \<open>Collective_Send\<close>, \<open>Collective_Inplace\<close>
    (\<^verbatim>\<open>scheduler/collective/collective_group.py\<close>): two peers as trees of actions on streams;
    objects and tensors arrive on every transport.
  \<^item> \<open>Choreography\<close>, \<open>Broadcast\<close>, \<open>Broadcast_Devices\<close>: operations of many workers (locale
    \<open>joint_operations\<close>, interpretation \<open>bcast\<close>), the four paths of a broadcast.
  \<^item> \<open>Work_Queue\<close>: the queue thread of a group and its callers.

  \<^bold>\<open>Locks and registry\<close> (\<^verbatim>\<open>scheduler/manager\<close>, \<^verbatim>\<open>scheduler/worker/lock.py\<close>). \<open>Device_Locks\<close> (refines
  a FIFO lock), \<open>Lock_Manager\<close> (exclusion and service of every waiter), \<open>Port_Locks\<close>,
  \<open>Worker_Registry\<close>.

  \<^bold>\<open>Dynamic scheduling and rollout.\<close>
  \<^item> \<open>Dyn_Policy\<close>, \<open>Dyn_Scheduler\<close> (\<^verbatim>\<open>scheduler/dynamic_scheduler\<close>): the decisions, the three managers and
    the main loop; GPUs are counted once and kept apart, the loop completes.
  \<^item> \<open>Seq_Group\<close>, \<open>Vllm_Group\<close> (\<^verbatim>\<open>data/schema/reasoning_requests.py\<close>, the SGLang and vLLM workers):
    the generation of a group and its continuation after an abort.
  \<^item> \<open>Rollout_Instance\<close>: the rollout loop, the tasks of its groups and the handler of the scheduler's
    requests as coroutines; groups that are migrated in are continued, none is lost, and the
    instance ends when it is told to.

  \<^bold>\<open>Micro-batches\<close> (\<^verbatim>\<open>utils/data_iter_utils.py\<close>). \<open>Partitioning\<close> is the interface (locale \<open>partitioner\<close>)
  between the iterator and the partitioners \<open>Karmarkar_Karp\<close> (interpretation \<open>kk\<close>; \<open>kk_set\<close> is an
  instance of \<open>linorder\<close>) and \<open>Bin_Packing\<close> (\<open>bfd\<close>); \<open>Dynamic_Batch\<close> is the client, \<open>Batch_Split\<close> the
  fixed split.

  \<^bold>\<open>Replay\<close> (\<^verbatim>\<open>data/storage/replay\<close>). \<open>Tensor_Dict\<close> has the nested dictionaries of tensors,
  \<open>Trajectory_Cache\<close> the shared buffer of recent trajectories (locale \<open>fifo_cache\<close>, interpretation
  \<open>tc\<close>), \<open>Replay_Buffer\<close> adding and sampling, \<open>Replay_Threads\<close> an add during a sample,
  \<open>Replay_Checkpoint\<close> saving and loading, \<open>Preload_Dataset\<close> the background sampler,
  \<open>Priority_Store\<close> the store of the best items.

  \<^bold>\<open>What the theorems show.\<close> Each theory proves an invariant or functional description of its
  operations first and its properties from it. Among the properties are functional ones (who gets
  which rows, tokens or GPUs), refinements of a simpler specification (the cache, the store, the
  lock, the numbering of hardware), round trips (split and merge, save and load, send and receive),
  invariants and liveness of the concurrent parts, and properties that describe failures: where the
  code breaks its own promise the theorem says exactly when. Such assumptions as a policy that
  must be switched on are named in the text before the theorem, together with the lemma that shows
  what happens without it.

  \<^bold>\<open>Bounds.\<close> Loops that the code does not bound are functions into \<open>option\<close>, and that they return is part
  of the property. Floating point is used by the code in quotients and ceilings of small integers; they
  are exact below \<open>2 ^ 53\<close>, which is the bound under which the model agrees with the code.

  \<^bold>\<open>Not modelled.\<close> Starting processes and Ray actors, reading the hardware, logging, timers, tracing and
  the emulated network (glue around the operating system and Ray); creation of process groups and the
  payload timing of collectives; broadcasts of objects around the broadcast of tensor lists;
  the training of models, losses, advantages and rewards (floating point tensor code); engines, models,
  simulators, robots, data sets, agents and runners (subclasses of and loops around other libraries);
  padding and collation of the rollout results.
\<close>

end
